(* ===== verification/Prelude.thy ===== *)
theory Prelude
  imports Main "HOL-Library.Word"
begin

text \<open>
  Vocabulary shared by the whole development: names for the machine integers of the
  Rust sources, byte strings, results and panics, slice access, and the lemma
  collections the component theories extend.

  A Rust value of type \<open>uN\<close> is an \<open>N word\<close>; the build targets are 64-bit, so
  \<open>usize\<close> is a \<open>64 word\<close> as well, except for the length of a byte vector,
  which is the \<open>nat\<close> that \<open>length\<close> gives.  \<open>Result<T, E>\<close> is \<open>E + T\<close>.
  A function that may panic returns an \<open>option\<close> whose \<open>None\<close> is the panic; the type
  synonym \<open>may_panic\<close> marks this reading.
\<close>

section \<open>Type names\<close>

type_synonym u8 = "8 word"
type_synonym u16 = "16 word"
type_synonym u32 = "32 word"
type_synonym u64 = "64 word"
type_synonym usize = "64 word"
type_synonym bytes = "8 word list"
type_synonym 'a may_panic = "'a option"

section \<open>Lemma collections\<close>

named_theorems wire_layout \<open>what an encoded frame holds at each offset\<close>
named_theorems wire_length \<open>lengths of encoded frames and fields\<close>
named_theorems frame_laws \<open>fields an operation leaves unchanged\<close>

section \<open>Results\<close>

definition is_ok :: "'e + 'a \<Rightarrow> bool" where
  "is_ok r = (case r of Inl _ \<Rightarrow> False | Inr _ \<Rightarrow> True)"

text \<open>The question mark operator on a \<open>Result\<close>.\<close>

definition and_then :: "'e + 'a \<Rightarrow> ('a \<Rightarrow> 'e + 'b) \<Rightarrow> 'e + 'b" where
  "and_then r f = (case r of Inl e \<Rightarrow> Inl e | Inr a \<Rightarrow> f a)"

lemma is_ok_simps [simp]: "is_ok (Inr a)" "\<not> is_ok (Inl e)"
  by (simp_all add: is_ok_def)

lemma is_ok_unit: "is_ok (r :: 'e + unit) \<longleftrightarrow> r = Inr ()"
  by (cases r) simp_all

lemma and_then_simps [simp]:
  "and_then (Inr a) f = f a"
  "and_then (Inl e) f = Inl e"
  by (simp_all add: and_then_def)

lemma and_then_eq_Inr:
  "and_then r f = Inr b \<longleftrightarrow> (\<exists>a. r = Inr a \<and> f a = Inr b)"
  by (cases r) simp_all

section \<open>Slices\<close>

text \<open>\<open>slice a n xs\<close> is \<open>xs[a..a + n]\<close>; every use in the model sits behind the length
  check that keeps the Rust slice expression in range.\<close>

definition slice :: "nat \<Rightarrow> nat \<Rightarrow> 'a list \<Rightarrow> 'a list" where
  "slice a n xs = take n (drop a xs)"

text \<open>\<open>put pos src buf\<close> is \<open>buf[pos..pos + src.len()].copy_from_slice(src)\<close>.\<close>

definition put :: "nat \<Rightarrow> 'a list \<Rightarrow> 'a list \<Rightarrow> 'a list" where
  "put pos src buf = take pos buf @ src @ drop (pos + length src) buf"

lemma length_slice: "length (slice a n xs) = min n (length xs - a)"
  by (simp add: slice_def)

lemma length_slice_in_range [simp]: "a + n \<le> length xs \<Longrightarrow> length (slice a n xs) = n"
  by (simp add: slice_def)

lemma slice_append_left:
  "a + n \<le> length xs \<Longrightarrow> slice a n (xs @ ys) = slice a n xs"
  by (simp add: slice_def)

lemma slice_append_right:
  "length xs \<le> a \<Longrightarrow> slice a n (xs @ ys) = slice (a - length xs) n ys"
  by (simp add: slice_def)

lemma slice_here: "length xs = n \<Longrightarrow> slice 0 n (xs @ ys) = xs"
  by (simp add: slice_def)

lemma slice_all: "length xs = n \<Longrightarrow> slice 0 n xs = xs"
  by (simp add: slice_def)

lemma nth_slice: "i < n \<Longrightarrow> a + i < length xs \<Longrightarrow> slice a n xs ! i = xs ! (a + i)"
  by (simp add: slice_def)

lemma length_put [simp]: "pos + length src \<le> length buf \<Longrightarrow> length (put pos src buf) = length buf"
  by (simp add: put_def)

text \<open>Filling a buffer front to back: the write at the fill mark extends the filled part.\<close>

lemma put_fill:
  "length pre = pos \<Longrightarrow> put pos src (pre @ buf) = pre @ src @ drop (length src) buf"
  by (simp add: put_def)

lemma put_fill_replicate:
  "length pre = pos \<Longrightarrow>
     put pos src (pre @ replicate n c) = (pre @ src) @ replicate (n - length src) c"
  by (simp add: put_def)

lemma put_fill_drop:
  "length pre = pos \<Longrightarrow>
     put pos src (pre @ drop pos buf) = (pre @ src) @ drop (pos + length src) buf"
  by (simp add: put_def add.commute)

lemma put_start: "put 0 src buf = src @ drop (length src) buf"
  by (simp add: put_def)

lemma slice_step: "slice a n (drop b xs) = slice (a + b) n xs"
  by (simp add: slice_def add.commute)

lemma nth_put_inside:
  "pos \<le> i \<Longrightarrow> i < pos + length src \<Longrightarrow> pos + length src \<le> length buf \<Longrightarrow>
     put pos src buf ! i = src ! (i - pos)"
  by (auto simp: put_def nth_append)

lemma nth_put_outside:
  "i < pos \<or> pos + length src \<le> i \<Longrightarrow> pos + length src \<le> length buf \<Longrightarrow> i < length buf \<Longrightarrow>
     put pos src buf ! i = buf ! i"
  by (auto simp: put_def nth_append)

lemma slice_eqI:
  assumes "length ys = n" and "a + n \<le> length xs"
    and "\<And>i. i < n \<Longrightarrow> xs ! (a + i) = ys ! i"
  shows "slice a n xs = ys"
  using assms by (intro nth_equalityI) (auto simp: nth_slice)

text \<open>Reading a slice back from a buffer filled by writes.\<close>

lemma slice_put_inside:
  assumes "pos \<le> a" "a + n \<le> pos + length src" "pos + length src \<le> length buf"
  shows "slice a n (put pos src buf) = slice (a - pos) n src"
  using assms by (intro slice_eqI) (auto simp: nth_put_inside nth_slice)

lemma slice_put_outside:
  assumes "a + n \<le> pos \<or> pos + length src \<le> a" "pos + length src \<le> length buf" "a + n \<le> length buf"
  shows "slice a n (put pos src buf) = slice a n buf"
  using assms by (intro slice_eqI) (auto simp: nth_put_outside nth_slice)

lemma slice_split: "slice a (m + n) xs = slice a m xs @ slice (a + m) n xs"
  by (simp add: slice_def take_add add.commute)

section \<open>Checked and saturating arithmetic\<close>

definition saturating_add_1 :: "'a::len word \<Rightarrow> 'a word" where
  "saturating_add_1 w = (if w = - 1 then w else w + 1)"

definition checked_mul :: "'a::len word \<Rightarrow> 'a word \<Rightarrow> 'a word option" where
  "checked_mul a b = (if unat a * unat b < 2 ^ LENGTH('a) then Some (a * b) else None)"

definition checked_sub :: "'a::len word \<Rightarrow> 'a word \<Rightarrow> 'a word option" where
  "checked_sub a b = (if b \<le> a then Some (a - b) else None)"

text \<open>Rust's \<open>div_ceil\<close> on an unsigned integer.\<close>

definition word_div_ceil :: "'a::len word \<Rightarrow> 'a word \<Rightarrow> 'a word" where
  "word_div_ceil a b = (if a mod b = 0 then a div b else a div b + 1)"

definition nat_div_ceil :: "nat \<Rightarrow> nat \<Rightarrow> nat" where
  "nat_div_ceil a b = (if a mod b = 0 then a div b else Suc (a div b))"

lemma unat_bound: "unat (a :: 'a::len word) < 2 ^ LENGTH('a)"
  by (rule unsigned_less)

lemma unat_u8_bound: "unat (w :: u8) < 2 ^ 8" using unsigned_less [of w] by simp

lemma unat_u16_bound: "unat (w :: u16) < 2 ^ 16" using unsigned_less [of w] by simp

lemma unat_u32_bound: "unat (w :: u32) < 2 ^ 32" using unsigned_less [of w] by simp

lemma unat_u64_bound: "unat (w :: u64) < 2 ^ 64" using unsigned_less [of w] by simp

lemma nat_div_ceil_le_iff: "0 < b \<Longrightarrow> nat_div_ceil a b \<le> q \<longleftrightarrow> a \<le> q * b"
proof -
  assume b: "0 < b"
  have a: "a = a div b * b + a mod b" by simp
  show ?thesis
  proof (cases "a mod b = 0")
    case True
    then show ?thesis using b by (auto simp: nat_div_ceil_def elim!: dvdE)
  next
    case False
    have "Suc (a div b) \<le> q \<longleftrightarrow> a < q * b"
      by (simp add: Suc_le_eq less_mult_imp_div_less div_less_iff_less_mult b)
    moreover have "a \<noteq> q * b" using False by auto
    ultimately show ?thesis using False by (simp add: nat_div_ceil_def) linarith
  qed
qed

lemma less_nat_div_ceil_iff: "0 < b \<Longrightarrow> q < nat_div_ceil a b \<longleftrightarrow> q * b < a"
  using nat_div_ceil_le_iff [of b a q] by linarith

lemma unat_word_div_ceil:
  assumes "b \<noteq> 0"
  shows "unat (word_div_ceil a b) = nat_div_ceil (unat a) (unat b)"
proof -
  have b: "0 < unat b" using assms by (simp add: unat_gt_0)
  show ?thesis
  proof (cases "a mod b = 0")
    case True
    then have "unat a mod unat b = 0" by (metis unat_mod unat_0)
    then show ?thesis using True by (simp add: word_div_ceil_def nat_div_ceil_def unat_div)
  next
    case False
    then have m: "unat a mod unat b \<noteq> 0" by (metis unat_mod unat_eq_zero)
    then have "unat b \<noteq> 1" by auto
    with b have "1 < unat b" by linarith
    moreover have "unat a \<noteq> 0" using m by (cases "unat a = 0") auto
    ultimately have "Suc (unat a div unat b) \<le> unat a" by (simp add: Suc_le_eq)
    then have "Suc (unat a div unat b) < 2 ^ LENGTH('a)"
      using unat_bound [of a] by linarith
    then have "unat (a div b + 1) = Suc (unat a div unat b)"
      by (simp add: unat_word_ariths unat_div)
    then show ?thesis using False m by (simp add: word_div_ceil_def nat_div_ceil_def)
  qed
qed

lemma checked_sub_Some: "checked_sub a b = Some c \<longleftrightarrow> b \<le> a \<and> c = a - b"
  by (auto simp: checked_sub_def)

lemma unat_ucast_small:
  "unat w < 2 ^ LENGTH('b) \<Longrightarrow> unat (ucast (w :: 'a::len word) :: 'b::len word) = unat w"
  by (simp add: unsigned_ucast_eq take_bit_nat_eq_self)

lemma unat_ucast_up:
  assumes "LENGTH('a) \<le> LENGTH('b)"
  shows "unat (ucast (w :: 'a::len word) :: 'b::len word) = unat w"
proof (rule unat_ucast_small)
  have "(2::nat) ^ LENGTH('a) \<le> 2 ^ LENGTH('b)" using assms by (rule power_increasing) simp
  then show "unat w < 2 ^ LENGTH('b)" using unat_bound [of w] by linarith
qed

lemma unat_ucast_widen [simp]:
  "unat (ucast (a :: u32) :: u64) = unat a"
  "unat (ucast (b :: u16) :: u64) = unat b"
  "unat (ucast (c :: u16) :: u32) = unat c"
  "unat (ucast (d :: u8) :: u64) = unat d"
  by (simp_all add: unat_ucast_up)

lemma unat_of_nat_small: "n < 2 ^ LENGTH('a) \<Longrightarrow> unat (word_of_nat n :: 'a::len word) = n"
  by (simp add: unat_of_nat take_bit_nat_eq_self)

lemma unat_Suc_word:
  fixes w :: "'a::len word"
  assumes "w < m"
  shows "unat (w + 1) = Suc (unat w)"
proof -
  have "Suc (unat w) < 2 ^ LENGTH('a)"
    using assms [unfolded word_less_nat_alt] unat_bound [of m] by linarith
  then show ?thesis by (simp add: unat_word_ariths)
qed

section \<open>Ordered pairs of neighbours\<close>

text \<open>\<open>xs.windows(2).all(|p| p[0] < p[1])\<close>.\<close>

fun windows2_all :: "('a \<Rightarrow> 'a \<Rightarrow> bool) \<Rightarrow> 'a list \<Rightarrow> bool" where
  "windows2_all r (x # y # xs) = (r x y \<and> windows2_all r (y # xs))"
| "windows2_all r _ = True"

lemma windows2_all_sorted_wrt: "transp r \<Longrightarrow> windows2_all r xs \<longleftrightarrow> sorted_wrt r xs"
proof (induction r xs rule: windows2_all.induct)
  case (1 r x y xs)
  then show ?case by (auto dest: transpD)
qed simp_all

section \<open>Ordered maps as association lists with increasing keys\<close>

fun btree_insert :: "'k::linorder \<Rightarrow> 'v \<Rightarrow> ('k \<times> 'v) list \<Rightarrow> ('k \<times> 'v) list" where
  "btree_insert k v [] = [(k, v)]"
| "btree_insert k v ((k', v') # m) =
     (if k < k' then (k, v) # (k', v') # m
      else if k = k' then (k, v) # m
      else (k', v') # btree_insert k v m)"

definition btree_wf :: "('k::linorder \<times> 'v) list \<Rightarrow> bool" where
  "btree_wf m \<longleftrightarrow> sorted_wrt (<) (map fst m)"

lemma set_fst_btree_insert [simp]: "fst ` set (btree_insert k v m) = insert k (fst ` set m)"
  by (induction k v m rule: btree_insert.induct) auto

lemma btree_insert_wf [intro]: "btree_wf m \<Longrightarrow> btree_wf (btree_insert k v m)"
proof (induction k v m rule: btree_insert.induct)
  case (2 k v k' v' m)
  then show ?case by (fastforce simp: btree_wf_def)
qed (simp add: btree_wf_def)

lemma map_of_btree_insert [simp]:
  "btree_wf m \<Longrightarrow> map_of (btree_insert k v m) = (map_of m)(k \<mapsto> v)"
proof (induction k v m rule: btree_insert.induct)
  case (2 k v k' v' m)
  then show ?case by (auto simp: btree_wf_def fun_eq_iff)
qed simp

lemma set_btree_insert: "set (btree_insert k v m) \<subseteq> insert (k, v) (set m)"
  by (induction k v m rule: btree_insert.induct) auto

lemma map_of_eq_None_iff_btree: "map_of m k = None \<longleftrightarrow> k \<notin> fst ` set m"
  by (rule map_of_eq_None_iff)

definition btree_remove :: "'k \<Rightarrow> ('k \<times> 'v) list \<Rightarrow> ('k \<times> 'v) list" where
  "btree_remove k m = filter (\<lambda>(k', _). k' \<noteq> k) m"

lemma btree_wf_filter: "btree_wf m \<Longrightarrow> btree_wf (filter P m)"
  by (induction m) (auto simp: btree_wf_def)

lemma map_of_filter_key: "map_of (filter (\<lambda>(k, v). P k) m) k = (if P k then map_of m k else None)"
  by (induction m) auto

lemma btree_remove_shorter: "map_of m k = Some v \<Longrightarrow> length (btree_remove k m) < length m"
proof (induction m)
  case (Cons kv m)
  then show ?case by (cases kv) (auto simp: btree_remove_def le_imp_less_Suc split: if_splits)
qed simp

lemma map_of_btree_remove [simp]: "map_of (btree_remove k m) k' = (if k' = k then None else map_of m k')"
  by (auto simp: btree_remove_def map_of_filter_key)

lemma upt_split: "a \<le> b \<Longrightarrow> b \<le> c \<Longrightarrow> [a ..< c] = [a ..< b] @ [b ..< c]"
  using upt_add_eq_append [of a b "c - b"] by simp

definition saturating_mul :: "'a::len word \<Rightarrow> 'a word \<Rightarrow> 'a word" where
  "saturating_mul a b = (if unat a * unat b < 2 ^ LENGTH('a) then a * b else - 1)"

end
