(* ===== verification/Bytes.thy ===== *)
theory Bytes
  imports Prelude
begin

text \<open>
  Big-endian integers (\<open>to_be_bytes\<close>, \<open>from_be_bytes\<close>) and the contract of a
  fixed-width item codec.  The wire format repeats three such items (tree ids,
  missing-block ranges, need blocks) with one encode loop and one decode loop each; the
  loops are proved once, in the locale \<open>item_codec\<close>, and the control-frame theory
  interprets it for every item type.
\<close>

section \<open>Big-endian digits\<close>

fun be_digits :: "nat \<Rightarrow> nat \<Rightarrow> bytes" where
  "be_digits 0 v = []"
| "be_digits (Suc n) v = be_digits n (v div 256) @ [word_of_nat v]"

fun be_value :: "nat \<Rightarrow> bytes \<Rightarrow> nat" where
  "be_value acc [] = acc"
| "be_value acc (b # bs) = be_value (acc * 256 + unat b) bs"

definition to_be :: "'a::len word \<Rightarrow> bytes" where
  "to_be w = be_digits (LENGTH('a) div 8) (unat w)"

definition from_be :: "bytes \<Rightarrow> 'a::len word" where
  "from_be bs = word_of_nat (be_value 0 bs)"

lemma length_be_digits [simp]: "length (be_digits n v) = n"
  by (induction n arbitrary: v) simp_all

lemma be_value_append: "be_value acc (xs @ ys) = be_value (be_value acc xs) ys"
  by (induction xs arbitrary: acc) simp_all

lemma unat_byte_of_nat: "unat (word_of_nat v :: u8) = v mod 256"
  by (simp add: unat_of_nat)

lemma be_value_be_digits: "be_value 0 (be_digits n v) = v mod 256 ^ n"
proof (induction n arbitrary: v)
  case (Suc n)
  have "be_value 0 (be_digits (Suc n) v) = v div 256 mod 256 ^ n * 256 + v mod 256"
    by (simp add: be_value_append Suc.IH unat_byte_of_nat)
  also have "\<dots> = v mod (256 * 256 ^ n)"
    by (simp add: mod_mult2_eq mult.commute)
  finally show ?case by simp
qed simp

lemma be_value_bound: "be_value acc bs < (acc + 1) * 256 ^ length bs"
proof (induction bs arbitrary: acc)
  case (Cons b bs)
  have "unat b < 256" using unsigned_less [of b] by simp
  then have "acc * 256 + unat b + 1 \<le> (acc + 1) * 256" by simp
  then have "(acc * 256 + unat b + 1) * 256 ^ length bs \<le> (acc + 1) * 256 * 256 ^ length bs"
    by (rule mult_le_mono1)
  then have "be_value (acc * 256 + unat b) bs < (acc + 1) * 256 * 256 ^ length bs"
    using Cons.IH [of "acc * 256 + unat b"] by (rule less_le_trans [rotated])
  then show ?case by (simp add: algebra_simps)
qed simp

lemma be_digits_be_value: "be_digits (length bs) (be_value 0 bs) = bs"
proof (induction bs rule: rev_induct)
  case (snoc b bs)
  have b: "unat b < 256" using unsigned_less [of b] by simp
  have "be_value 0 (bs @ [b]) = be_value 0 bs * 256 + unat b"
    by (simp add: be_value_append)
  moreover have "(be_value 0 bs * 256 + unat b) div 256 = be_value 0 bs" using b by simp
  moreover have "(word_of_nat (be_value 0 bs * 256 + unat b) :: u8) = b"
    using b unat_byte_of_nat [of "be_value 0 bs * 256 + unat b"]
    by (simp add: word_unat_eq_iff del: of_nat_add of_nat_mult)
  ultimately show ?case using snoc by simp
qed simp

lemma length_to_be: "length (to_be (w :: 'a::len word)) = LENGTH('a) div 8"
  by (simp add: to_be_def)

lemma length_to_be_simps [simp, wire_length]:
  "length (to_be (a :: u16)) = 2" "length (to_be (b :: u32)) = 4" "length (to_be (c :: u64)) = 8"
  by (simp_all add: to_be_def)

lemma from_be_to_be:
  assumes "8 dvd LENGTH('a::len)"
  shows "from_be (to_be (w :: 'a word)) = w"
proof -
  obtain k where k: "LENGTH('a) = 8 * k" using assms by (elim dvdE)
  have "unat w < 256 ^ k" using unsigned_less [of w] by (simp add: k power_mult)
  then have "be_value 0 (be_digits k (unat w)) = unat w" by (simp add: be_value_be_digits)
  then show ?thesis by (simp add: to_be_def from_be_def k)
qed

lemma from_be_to_be_simps [simp]:
  "from_be (to_be (a :: u16)) = a" "from_be (to_be (b :: u32)) = b" "from_be (to_be (c :: u64)) = c"
  by (simp_all add: from_be_to_be)

lemma to_be_from_be:
  assumes "LENGTH('a::len) = 8 * length bs"
  shows "to_be (from_be bs :: 'a word) = bs"
proof -
  have "be_value 0 bs < 2 ^ LENGTH('a)"
    using be_value_bound [of 0 bs] by (simp add: assms power_mult)
  then have "unat (from_be bs :: 'a word) = be_value 0 bs"
    by (simp add: from_be_def unat_of_nat take_bit_eq_mod)
  then show ?thesis by (simp add: to_be_def assms be_digits_be_value)
qed

lemma to_be_from_be_simps [simp]:
  "length bs = 2 \<Longrightarrow> to_be (from_be bs :: u16) = bs"
  "length bs = 4 \<Longrightarrow> to_be (from_be bs :: u32) = bs"
  "length bs = 8 \<Longrightarrow> to_be (from_be bs :: u64) = bs"
  by (simp_all add: to_be_from_be)

section \<open>Repeated fixed-width items\<close>

text \<open>The encode loop writes the items one after another from \<open>pos\<close> on; the decode
  loop reads \<open>n\<close> of them from \<open>pos\<close> on.\<close>

fun write_items :: "('a \<Rightarrow> bytes) \<Rightarrow> nat \<Rightarrow> nat \<Rightarrow> 'a list \<Rightarrow> bytes \<Rightarrow> bytes" where
  "write_items enc width pos [] buf = buf"
| "write_items enc width pos (x # xs) buf =
     write_items enc width (pos + width) xs (put pos (enc x) buf)"

fun read_items :: "(bytes \<Rightarrow> 'a) \<Rightarrow> nat \<Rightarrow> nat \<Rightarrow> nat \<Rightarrow> bytes \<Rightarrow> 'a list" where
  "read_items dec width pos 0 buf = []"
| "read_items dec width pos (Suc n) buf =
     dec (slice pos width buf) # read_items dec width (pos + width) n buf"

lemma length_read_items [simp]: "length (read_items dec width pos n buf) = n"
  by (induction n arbitrary: pos) simp_all

locale item_codec =
  fixes enc :: "'a \<Rightarrow> bytes" and dec :: "bytes \<Rightarrow> 'a" and width :: nat
  assumes length_enc: "length (enc x) = width"
    and dec_enc: "dec (enc x) = x"
    and enc_dec: "length bs = width \<Longrightarrow> enc (dec bs) = bs"
begin

lemma length_items: "length (concat (map enc xs)) = length xs * width"
  by (induction xs) (simp_all add: length_enc)

lemma enc_inj: "enc x = enc y \<longleftrightarrow> x = y"
  by (metis dec_enc)

lemma write_items_fill:
  "length pre = pos \<Longrightarrow>
     write_items enc width pos xs (pre @ replicate n 0) =
       pre @ concat (map enc xs) @ replicate (n - length xs * width) 0"
proof (induction xs arbitrary: pos pre n)
  case (Cons x xs)
  have "put pos (enc x) (pre @ replicate n 0) = (pre @ enc x) @ replicate (n - width) 0"
    by (rule put_fill_replicate [OF Cons.prems, of "enc x" n 0, unfolded length_enc])
  then show ?case
    using Cons.IH [of "pre @ enc x" "pos + width" "n - width"] Cons.prems
    by (simp add: length_enc algebra_simps)
qed simp

lemma read_items_written:
  "length pre = pos \<Longrightarrow> read_items dec width pos (length xs) (pre @ concat (map enc xs) @ post) = xs"
proof (induction xs arbitrary: pos pre)
  case (Cons x xs)
  have "slice pos width (pre @ enc x @ concat (map enc xs) @ post) = enc x"
    using Cons.prems by (simp add: slice_append_right slice_here length_enc)
  then show ?case
    using Cons.IH [of "pre @ enc x" "pos + width"] Cons.prems by (simp add: dec_enc length_enc)
qed simp

lemma items_of_read:
  "pos + n * width \<le> length buf \<Longrightarrow>
     concat (map enc (read_items dec width pos n buf)) = slice pos (n * width) buf"
proof (induction n arbitrary: pos)
  case (Suc n)
  have "concat (map enc (read_items dec width (pos + width) n buf)) =
      slice (pos + width) (n * width) buf"
    using Suc.prems by (intro Suc.IH) simp
  moreover have "enc (dec (slice pos width buf)) = slice pos width buf"
    using Suc.prems by (intro enc_dec) simp
  ultimately show ?case
    by (simp add: slice_def take_add add.commute)
qed (simp add: slice_def)

lemma items_inj:
  "length xs = length ys \<Longrightarrow> concat (map enc xs) = concat (map enc ys) \<Longrightarrow> xs = ys"
  using read_items_written [of "[]" 0 xs "[]"] read_items_written [of "[]" 0 ys "[]"] by simp

end

text \<open>A single big-endian \<open>u16\<close> is such an item.\<close>

definition enc_u16 :: "u16 \<Rightarrow> bytes" where "enc_u16 w = to_be w"

definition dec_u16 :: "bytes \<Rightarrow> u16" where "dec_u16 bs = from_be (slice 0 2 bs)"

interpretation u16_items: item_codec enc_u16 dec_u16 2
  by unfold_locales (simp_all add: enc_u16_def dec_u16_def slice_all)

end
