(* ===== verification/Wire_Types.thy ===== *)
theory Wire_Types
  imports Bytes
begin

text \<open>
  The data of the lossless-session wire protocol
  (\<open>src/messages/src/lossless_session/types.rs\<close>): frame and control kinds, manifests,
  end-of-round reports, control messages and the validation errors.
\<close>

section \<open>Constants\<close>

definition LOSSLESS_SESSION_MAGIC :: u32 where "LOSSLESS_SESSION_MAGIC = 0x524C4D31"
definition LOSSLESS_SESSION_VERSION :: u8 where "LOSSLESS_SESSION_VERSION = 5"
definition MAX_MANIFEST_TREE_IDS :: nat where "MAX_MANIFEST_TREE_IDS = 255"
definition MAX_NEED_RANGES :: nat where "MAX_NEED_RANGES = 255"
definition MAX_NEED_BLOCKS :: nat where "MAX_NEED_BLOCKS = 65535"

section \<open>Kinds\<close>

datatype LosslessSessionKind = KindBlockData | KindBlockSymbol | KindControl

primrec kind_byte :: "LosslessSessionKind \<Rightarrow> u8" where
  "kind_byte KindBlockData = 1"
| "kind_byte KindBlockSymbol = 2"
| "kind_byte KindControl = 3"

datatype LosslessSessionCtrlKind = CtrlManifest | CtrlReady | CtrlSourceDone | CtrlNeed

primrec ctrl_kind_byte :: "LosslessSessionCtrlKind \<Rightarrow> u8" where
  "ctrl_kind_byte CtrlManifest = 1"
| "ctrl_kind_byte CtrlReady = 2"
| "ctrl_kind_byte CtrlSourceDone = 5"
| "ctrl_kind_byte CtrlNeed = 6"

datatype LosslessSessionModeKind = ModeKindPlain | ModeKindFec

primrec mode_kind_byte :: "LosslessSessionModeKind \<Rightarrow> u8" where
  "mode_kind_byte ModeKindPlain = 1"
| "mode_kind_byte ModeKindFec = 2"

definition mode_kind_from_wire :: "u8 \<Rightarrow> LosslessSessionModeKind option" where
  "mode_kind_from_wire raw =
     (if raw = mode_kind_byte ModeKindPlain then Some ModeKindPlain
      else if raw = mode_kind_byte ModeKindFec then Some ModeKindFec
      else None)"

datatype FecScheme = RaptorQ

primrec scheme_to_wire :: "FecScheme \<Rightarrow> u8" where
  "scheme_to_wire RaptorQ = 1"

definition scheme_from_wire :: "u8 \<Rightarrow> FecScheme option" where
  "scheme_from_wire raw = (if raw = scheme_to_wire RaptorQ then Some RaptorQ else None)"

section \<open>Manifests\<close>

record LosslessSessionFecMode =
  fm_scheme :: u8
  fm_symbols_per_block :: u16
  fm_tree_ids :: "u16 list"

definition new_raptorq :: "u16 \<Rightarrow> u16 list \<Rightarrow> LosslessSessionFecMode" where
  "new_raptorq symbols_per_block tree_ids =
     \<lparr>fm_scheme = scheme_to_wire RaptorQ, fm_symbols_per_block = symbols_per_block,
      fm_tree_ids = tree_ids\<rparr>"

definition scheme_kind :: "LosslessSessionFecMode \<Rightarrow> FecScheme option" where
  "scheme_kind fec = scheme_from_wire (fm_scheme fec)"

datatype LosslessSessionMode = ModePlain | ModeFec LosslessSessionFecMode

primrec mode_kind :: "LosslessSessionMode \<Rightarrow> LosslessSessionModeKind" where
  "mode_kind ModePlain = ModeKindPlain"
| "mode_kind (ModeFec _) = ModeKindFec"

primrec is_fec :: "LosslessSessionMode \<Rightarrow> bool" where
  "is_fec ModePlain = False"
| "is_fec (ModeFec _) = True"

record LosslessSessionManifest =
  mf_block_size :: u32
  mf_total_bytes :: u64
  mf_total_blocks :: u64
  mf_mode :: LosslessSessionMode

section \<open>End-of-round reports and control messages\<close>

record MissingBlockRange =
  start_block_id :: u64
  end_block_id :: u64

record NeedBlock =
  nb_block_id :: u64
  nb_deficit_symbols :: u16

datatype NeedReport =
    NeedComplete
  | NeedPlain "MissingBlockRange list"
  | NeedFec "NeedBlock list"

record LosslessSessionBlockData =
  bd_block_id :: u64

record LosslessSessionBlockSymbol =
  bs_block_id :: u64
  bs_symbol_id :: u32
  bs_tree_id :: u16

datatype LosslessSessionControl =
    Manifest LosslessSessionManifest
  | Ready
  | SourceDone u32
  | Need u32 NeedReport

section \<open>Validation errors\<close>

datatype LosslessSessionValidationError =
    ZeroBlockSize
  | InconsistentTotalBlocks u64 u64
  | UnknownFecScheme u8
  | ZeroSymbolsPerBlock
  | FecTreeIdsEmpty
  | TooManyTreeIds nat nat
  | TreeIdsMustBeSortedUnique
  | ZeroDeficitSymbols
  | BlockDataRequiresPlainMode
  | BlockSymbolRequiresFecMode
  | NeedRequiresPlainMode
  | NeedRequiresFecMode
  | BlockIdOutOfRange u64 u64
  | BlockDataLenMismatch u64 u32 u32
  | BlockSymbolTreeIdNotAdvertised u16
  | NeedRangesEmpty
  | MissingBlockRangeInvalid u64 u64
  | NeedRangeOutOfRange u64 u64
  | NeedRangesMustBeSortedMerged
  | TooManyNeedRanges nat nat
  | NeedBlocksEmpty
  | NeedBlocksMustBeSortedUnique
  | TooManyNeedBlocks nat nat

section \<open>Wire bytes of the kinds\<close>

lemma mode_kind_from_wire_byte [simp]: "mode_kind_from_wire (mode_kind_byte k) = Some k"
  by (cases k) (simp_all add: mode_kind_from_wire_def)

lemma mode_kind_from_wire_num [simp]:
  "mode_kind_from_wire 1 = Some ModeKindPlain" "mode_kind_from_wire 2 = Some ModeKindFec"
  by (simp_all add: mode_kind_from_wire_def)

lemma mode_kind_from_wire_Some:
  "mode_kind_from_wire raw = Some k \<longleftrightarrow> raw = mode_kind_byte k"
  by (cases k) (auto simp: mode_kind_from_wire_def)

lemma scheme_from_wire_Some: "scheme_from_wire raw = Some k \<longleftrightarrow> raw = scheme_to_wire k"
  by (cases k) (auto simp: scheme_from_wire_def)

lemma kind_byte_inj [simp]: "kind_byte a = kind_byte b \<longleftrightarrow> a = b"
  by (cases a; cases b) simp_all

lemma ctrl_kind_byte_inj [simp]: "ctrl_kind_byte a = ctrl_kind_byte b \<longleftrightarrow> a = b"
  by (cases a; cases b) simp_all

end
