(* ===== verification/Wire_Validation.thy ===== *)
theory Wire_Validation
  imports Wire_Types
begin

text \<open>
  Validation of manifests, block frames and reports
  (\<open>src/messages/src/lossless_session/validation.rs\<close>), the declarative reading of each
  check, and the arithmetic of the block partition.
\<close>

section \<open>Reports\<close>

fun validate_ranges :: "u64 option \<Rightarrow> MissingBlockRange list \<Rightarrow>
    LosslessSessionValidationError + unit" where
  "validate_ranges previous_end [] = Inr ()"
| "validate_ranges previous_end (rng # ranges) =
     (if end_block_id rng \<le> start_block_id rng then
        Inl (MissingBlockRangeInvalid (start_block_id rng) (end_block_id rng))
      else if (case previous_end of None \<Rightarrow> False
               | Some prev_end \<Rightarrow> start_block_id rng \<le> prev_end) then
        Inl NeedRangesMustBeSortedMerged
      else validate_ranges (Some (end_block_id rng)) ranges)"

fun need_report_validate :: "NeedReport \<Rightarrow> LosslessSessionValidationError + unit" where
  "need_report_validate NeedComplete = Inr ()"
| "need_report_validate (NeedPlain ranges) =
     (if length ranges > MAX_NEED_RANGES then
        Inl (TooManyNeedRanges (length ranges) MAX_NEED_RANGES)
      else validate_ranges None ranges)"
| "need_report_validate (NeedFec blocks) =
     (if length blocks > MAX_NEED_BLOCKS then
        Inl (TooManyNeedBlocks (length blocks) MAX_NEED_BLOCKS)
      else if list_ex (\<lambda>status. nb_deficit_symbols status = 0) blocks then
        Inl ZeroDeficitSymbols
      else if \<not> windows2_all (\<lambda>a b. nb_block_id a < nb_block_id b) blocks then
        Inl NeedBlocksMustBeSortedUnique
      else Inr ())"

fun validate_range_ends :: "u64 \<Rightarrow> MissingBlockRange list \<Rightarrow>
    LosslessSessionValidationError + unit" where
  "validate_range_ends blocks_total [] = Inr ()"
| "validate_range_ends blocks_total (rng # ranges) =
     (if end_block_id rng > blocks_total then
        Inl (NeedRangeOutOfRange (end_block_id rng) blocks_total)
      else validate_range_ends blocks_total ranges)"

fun validate_need_block_ids :: "u64 \<Rightarrow> NeedBlock list \<Rightarrow>
    LosslessSessionValidationError + unit" where
  "validate_need_block_ids blocks_total [] = Inr ()"
| "validate_need_block_ids blocks_total (status # rest) =
     (if nb_block_id status \<ge> blocks_total then
        Inl (BlockIdOutOfRange (nb_block_id status) blocks_total)
      else validate_need_block_ids blocks_total rest)"

definition validate_against_total_blocks ::
    "NeedReport \<Rightarrow> u64 \<Rightarrow> LosslessSessionValidationError + unit" where
  "validate_against_total_blocks report blocks_total =
     and_then (need_report_validate report) (\<lambda>_.
       case report of
         NeedComplete \<Rightarrow> Inr ()
       | NeedPlain ranges \<Rightarrow> validate_range_ends blocks_total ranges
       | NeedFec blocks \<Rightarrow> validate_need_block_ids blocks_total blocks)"

section \<open>Manifests\<close>

definition total_blocks_for :: "u64 \<Rightarrow> u32 \<Rightarrow> LosslessSessionValidationError + u64" where
  "total_blocks_for bytes_total bsize =
     (if bsize = 0 then Inl ZeroBlockSize
      else let size64 = (ucast bsize :: u64) in
        if bytes_total = 0 then Inr 0 else Inr (word_div_ceil bytes_total size64))"

definition validate_fec_mode :: "LosslessSessionFecMode \<Rightarrow> LosslessSessionValidationError + unit" where
  "validate_fec_mode fec =
     (if scheme_kind fec = None then Inl (UnknownFecScheme (fm_scheme fec))
      else if fm_symbols_per_block fec = 0 then Inl ZeroSymbolsPerBlock
      else if fm_tree_ids fec = [] then Inl FecTreeIdsEmpty
      else if length (fm_tree_ids fec) > MAX_MANIFEST_TREE_IDS then
        Inl (TooManyTreeIds (length (fm_tree_ids fec)) MAX_MANIFEST_TREE_IDS)
      else if \<not> windows2_all (<) (fm_tree_ids fec) then Inl TreeIdsMustBeSortedUnique
      else Inr ())"

definition manifest_validate :: "LosslessSessionManifest \<Rightarrow> LosslessSessionValidationError + unit" where
  "manifest_validate m =
     and_then (total_blocks_for (mf_total_bytes m) (mf_block_size m)) (\<lambda>expected.
       if mf_total_blocks m \<noteq> expected then
         Inl (InconsistentTotalBlocks expected (mf_total_blocks m))
       else case mf_mode m of ModePlain \<Rightarrow> Inr () | ModeFec fec \<Rightarrow> validate_fec_mode fec)"

definition validate_block_id ::
    "LosslessSessionManifest \<Rightarrow> u64 \<Rightarrow> LosslessSessionValidationError + unit" where
  "validate_block_id m block_id =
     and_then (manifest_validate m) (\<lambda>_.
       if block_id \<ge> mf_total_blocks m then Inl (BlockIdOutOfRange block_id (mf_total_blocks m))
       else Inr ())"

definition expected_block_payload_len ::
    "LosslessSessionManifest \<Rightarrow> u64 \<Rightarrow> LosslessSessionValidationError + u32" where
  "expected_block_payload_len m block_id =
     and_then (validate_block_id m block_id) (\<lambda>_.
       if mf_total_blocks m = 0 then Inr 0
       else if block_id + 1 = mf_total_blocks m then
         (let rem = (ucast (mf_total_bytes m mod ucast (mf_block_size m)) :: u32) in
          if rem = 0 then Inr (mf_block_size m) else Inr rem)
       else Inr (mf_block_size m))"

text \<open>\<open>u32::try_from(n).unwrap_or(u32::MAX)\<close>.\<close>

definition u32_clamp :: "nat \<Rightarrow> u32" where
  "u32_clamp n = (if n < 2 ^ 32 then word_of_nat n else - 1)"

definition validate_block_data :: "LosslessSessionManifest \<Rightarrow> LosslessSessionBlockData \<Rightarrow> nat \<Rightarrow>
    LosslessSessionValidationError + unit" where
  "validate_block_data m data payload_len =
     (if is_fec (mf_mode m) then Inl BlockDataRequiresPlainMode
      else and_then (expected_block_payload_len m (bd_block_id data)) (\<lambda>expected.
        let actual = u32_clamp payload_len in
        if actual \<noteq> expected then Inl (BlockDataLenMismatch (bd_block_id data) expected actual)
        else Inr ()))"

definition validate_block_symbol :: "LosslessSessionManifest \<Rightarrow> LosslessSessionBlockSymbol \<Rightarrow>
    LosslessSessionValidationError + unit" where
  "validate_block_symbol m symbol =
     (case mf_mode m of
        ModePlain \<Rightarrow> Inl BlockSymbolRequiresFecMode
      | ModeFec fec \<Rightarrow>
          and_then (validate_block_id m (bs_block_id symbol)) (\<lambda>_.
            if bs_tree_id symbol \<notin> set (fm_tree_ids fec) then
              Inl (BlockSymbolTreeIdNotAdvertised (bs_tree_id symbol))
            else Inr ()))"

definition validate_need_report ::
    "LosslessSessionManifest \<Rightarrow> NeedReport \<Rightarrow> LosslessSessionValidationError + unit" where
  "validate_need_report m report =
     and_then (manifest_validate m) (\<lambda>_.
       case report of
         NeedComplete \<Rightarrow> Inr ()
       | NeedPlain ranges \<Rightarrow>
           if is_fec (mf_mode m) \<and> ranges \<noteq> [] then Inl NeedRequiresPlainMode
           else validate_against_total_blocks (NeedPlain ranges) (mf_total_blocks m)
       | NeedFec blocks \<Rightarrow>
           if \<not> is_fec (mf_mode m) \<and> blocks \<noteq> [] then Inl NeedRequiresFecMode
           else validate_against_total_blocks (NeedFec blocks) (mf_total_blocks m))"

fun control_validate :: "LosslessSessionControl \<Rightarrow> LosslessSessionValidationError + unit" where
  "control_validate (Manifest manifest) = manifest_validate manifest"
| "control_validate Ready = Inr ()"
| "control_validate (SourceDone _) = Inr ()"
| "control_validate (Need _ report) = need_report_validate report"

definition validate_control ::
    "LosslessSessionManifest \<Rightarrow> LosslessSessionControl \<Rightarrow> LosslessSessionValidationError + unit" where
  "validate_control m control =
     and_then (manifest_validate m) (\<lambda>_.
       and_then (control_validate control) (\<lambda>_.
         case control of
           Manifest manifest \<Rightarrow> manifest_validate manifest
         | Ready \<Rightarrow> Inr ()
         | SourceDone _ \<Rightarrow> Inr ()
         | Need _ report \<Rightarrow> validate_need_report m report))"

section \<open>What the checks mean\<close>

definition block_range :: "MissingBlockRange \<Rightarrow> nat set" where
  "block_range r = {unat (start_block_id r) ..< unat (end_block_id r)}"

definition missing_blocks :: "MissingBlockRange list \<Rightarrow> nat set" where
  "missing_blocks rs = (\<Union>r\<in>set rs. block_range r)"

definition ranges_canonical :: "MissingBlockRange list \<Rightarrow> bool" where
  "ranges_canonical rs \<longleftrightarrow>
     list_all (\<lambda>r. start_block_id r < end_block_id r) rs \<and>
     sorted_wrt (\<lambda>a b. end_block_id a < start_block_id b) rs"

definition need_blocks_ok :: "NeedBlock list \<Rightarrow> bool" where
  "need_blocks_ok bs \<longleftrightarrow>
     list_all (\<lambda>b. nb_deficit_symbols b \<noteq> 0) bs \<and>
     sorted_wrt (\<lambda>a b. nb_block_id a < nb_block_id b) bs"

fun report_ok :: "NeedReport \<Rightarrow> bool" where
  "report_ok NeedComplete = True"
| "report_ok (NeedPlain rs) = (length rs \<le> MAX_NEED_RANGES \<and> ranges_canonical rs)"
| "report_ok (NeedFec bs) = (length bs \<le> MAX_NEED_BLOCKS \<and> need_blocks_ok bs)"

definition fec_mode_ok :: "LosslessSessionFecMode \<Rightarrow> bool" where
  "fec_mode_ok fec \<longleftrightarrow>
     fm_scheme fec = 1 \<and> fm_symbols_per_block fec \<noteq> 0 \<and> fm_tree_ids fec \<noteq> [] \<and>
     length (fm_tree_ids fec) \<le> MAX_MANIFEST_TREE_IDS \<and> sorted_wrt (<) (fm_tree_ids fec)"

definition manifest_ok :: "LosslessSessionManifest \<Rightarrow> bool" where
  "manifest_ok m \<longleftrightarrow>
     mf_block_size m \<noteq> 0 \<and>
     unat (mf_total_blocks m) = nat_div_ceil (unat (mf_total_bytes m)) (unat (mf_block_size m)) \<and>
     (case mf_mode m of ModePlain \<Rightarrow> True | ModeFec fec \<Rightarrow> fec_mode_ok fec)"

text \<open>The number of payload bytes of a block, as the partition of the payload has it.\<close>

definition block_bytes :: "nat \<Rightarrow> nat \<Rightarrow> nat \<Rightarrow> nat" where
  "block_bytes tbytes bsize b = min bsize (tbytes - b * bsize)"

lemma validate_ranges_iff:
  "validate_ranges prev rs = Inr () \<longleftrightarrow>
     ranges_canonical rs \<and>
     (case prev of None \<Rightarrow> True | Some p \<Rightarrow> \<forall>r\<in>set rs. p < start_block_id r)"
proof (induction prev rs rule: validate_ranges.induct)
  case (2 prev r rs)
  then show ?case
    by (auto simp: ranges_canonical_def not_le not_less split: option.splits)
qed (simp add: ranges_canonical_def split: option.splits)

lemma transp_need_block: "transp (\<lambda>a b. nb_block_id a < nb_block_id b)"
  by (auto intro: transpI)

lemma need_report_validate_iff: "need_report_validate r = Inr () \<longleftrightarrow> report_ok r"
  by (cases r)
    (auto simp: validate_ranges_iff need_blocks_ok_def windows2_all_sorted_wrt transp_need_block
      list_ex_iff list_all_iff)

lemma validate_fec_mode_iff: "validate_fec_mode fec = Inr () \<longleftrightarrow> fec_mode_ok fec"
  by (auto simp: validate_fec_mode_def fec_mode_ok_def scheme_kind_def scheme_from_wire_def
      windows2_all_sorted_wrt)

lemma total_blocks_for_eq:
  assumes "bsize \<noteq> 0"
  obtains n where "total_blocks_for tbytes bsize = Inr n"
    and "unat n = nat_div_ceil (unat tbytes) (unat bsize)"
proof -
  have "(ucast bsize :: u64) \<noteq> 0" using assms by (simp add: unat_eq_0 [symmetric])
  then show ?thesis
    using assms that
    by (cases "tbytes = 0")
      (simp_all add: total_blocks_for_def unat_word_div_ceil nat_div_ceil_def [of 0])
qed

lemma manifest_validate_iff: "manifest_validate m = Inr () \<longleftrightarrow> manifest_ok m"
proof (cases "mf_block_size m = 0")
  case True
  then show ?thesis by (simp add: manifest_validate_def total_blocks_for_def manifest_ok_def)
next
  case False
  then obtain n where n: "total_blocks_for (mf_total_bytes m) (mf_block_size m) = Inr n"
    "unat n = nat_div_ceil (unat (mf_total_bytes m)) (unat (mf_block_size m))"
    by (rule total_blocks_for_eq)
  then show ?thesis
    using False
    by (auto simp: manifest_validate_def manifest_ok_def validate_fec_mode_iff word_unat_eq_iff
        split: LosslessSessionMode.splits)
qed

lemma validate_block_id_iff:
  "validate_block_id m b = Inr () \<longleftrightarrow> manifest_ok m \<and> b < mf_total_blocks m"
  by (auto simp: validate_block_id_def and_then_eq_Inr manifest_validate_iff not_le)

section \<open>The partition of the payload into blocks\<close>

lemma block_bytes_last:
  assumes "0 < bsize" "b * bsize < tbytes" "tbytes \<le> Suc b * bsize"
  shows "block_bytes tbytes bsize b =
    (if tbytes mod bsize = 0 then bsize else tbytes mod bsize)"
proof (cases "tbytes = Suc b * bsize")
  case True
  then show ?thesis by (simp add: block_bytes_def)
next
  case False
  then have r: "tbytes - b * bsize < bsize" "0 < tbytes - b * bsize" using assms by auto
  have "tbytes = b * bsize + (tbytes - b * bsize)" using assms by simp
  then have "tbytes mod bsize = tbytes - b * bsize"
    using r by (metis mod_less mod_mult_self3)
  then show ?thesis using r by (simp add: block_bytes_def)
qed

lemma block_bytes_inner: "Suc b * bsize < tbytes \<Longrightarrow> block_bytes tbytes bsize b = bsize"
  by (simp add: block_bytes_def)

lemma block_bytes_le: "block_bytes tbytes bsize b \<le> bsize"
  by (simp add: block_bytes_def)

lemma sum_block_bytes_prefix: "(\<Sum>b<n. block_bytes tbytes bsize b) = min (n * bsize) tbytes"
  by (induction n) (auto simp: block_bytes_def)

lemma sum_block_bytes:
  assumes "0 < bsize"
  shows "(\<Sum>b<nat_div_ceil tbytes bsize. block_bytes tbytes bsize b) = tbytes"
  using nat_div_ceil_le_iff [OF assms, of tbytes "nat_div_ceil tbytes bsize"]
  by (simp add: sum_block_bytes_prefix)

lemma manifest_ok_blocks:
  assumes "manifest_ok m"
  shows "0 < unat (mf_block_size m)"
    and "b < unat (mf_total_blocks m) \<longleftrightarrow> b * unat (mf_block_size m) < unat (mf_total_bytes m)"
proof -
  show p: "0 < unat (mf_block_size m)" using assms by (simp add: manifest_ok_def unat_gt_0)
  show "b < unat (mf_total_blocks m) \<longleftrightarrow> b * unat (mf_block_size m) < unat (mf_total_bytes m)"
    using assms p by (simp add: manifest_ok_def less_nat_div_ceil_iff)
qed

lemma expected_len_value:
  assumes "manifest_ok m" and "b < mf_total_blocks m"
  obtains n where "expected_block_payload_len m b = Inr n"
    and "unat n = block_bytes (unat (mf_total_bytes m)) (unat (mf_block_size m)) (unat b)"
proof -
  let ?t = "unat (mf_total_bytes m)" and ?s = "unat (mf_block_size m)"
  have v: "validate_block_id m b = Inr ()" using assms by (simp add: validate_block_id_iff)
  have nz: "mf_total_blocks m \<noteq> 0" using assms(2) by auto
  have s: "0 < ?s" and lo: "unat b * ?s < ?t"
    using manifest_ok_blocks [OF assms(1)] assms(2) by (simp_all add: word_less_nat_alt)
  have "?t mod ?s < 2 ^ 32"
    using less_trans [OF mod_less_divisor [OF s] unat_u32_bound] .
  then have r: "unat (ucast (mf_total_bytes m mod ucast (mf_block_size m)) :: u32) = ?t mod ?s"
    by (simp add: unat_ucast_small unat_mod)
  show ?thesis
  proof (cases "b + 1 = mf_total_blocks m")
    case True
    then have "unat (mf_total_blocks m) = Suc (unat b)" using unat_Suc_word [OF assms(2)] by simp
    then have "?t \<le> Suc (unat b) * ?s"
      using manifest_ok_blocks(2) [OF assms(1), of "Suc (unat b)"] by simp
    then have "block_bytes ?t ?s (unat b) = (if ?t mod ?s = 0 then ?s else ?t mod ?s)"
      by (rule block_bytes_last [OF s lo])
    then show ?thesis
      using True v nz r
      by (intro that [of "let rem = (ucast (mf_total_bytes m mod ucast (mf_block_size m)) :: u32)
              in if rem = 0 then mf_block_size m else rem"])
        (auto simp: expected_block_payload_len_def Let_def unat_eq_0 [symmetric])
  next
    case False
    then have "unat (mf_total_blocks m) \<noteq> Suc (unat b)"
      using unat_Suc_word [OF assms(2)] by (metis word_unat_eq_iff)
    then have "Suc (unat b) < unat (mf_total_blocks m)"
      using assms(2) by (simp add: word_less_nat_alt)
    then have "block_bytes ?t ?s (unat b) = ?s"
      using manifest_ok_blocks(2) [OF assms(1), of "Suc (unat b)"] by (simp add: block_bytes_inner)
    then show ?thesis
      using False v nz by (intro that [of "mf_block_size m"]) (simp_all add: expected_block_payload_len_def)
  qed
qed

lemma expected_len_Inr:
  "expected_block_payload_len m b = Inr n \<longleftrightarrow>
     manifest_ok m \<and> b < mf_total_blocks m \<and>
     unat n = block_bytes (unat (mf_total_bytes m)) (unat (mf_block_size m)) (unat b)"
proof
  assume r: "expected_block_payload_len m b = Inr n"
  then have ok: "manifest_ok m" "b < mf_total_blocks m"
    by (auto simp: expected_block_payload_len_def and_then_eq_Inr validate_block_id_iff)
  with r show "manifest_ok m \<and> b < mf_total_blocks m \<and>
     unat n = block_bytes (unat (mf_total_bytes m)) (unat (mf_block_size m)) (unat b)"
    by (metis expected_len_value sum.inject(2))
next
  assume a: "manifest_ok m \<and> b < mf_total_blocks m \<and>
     unat n = block_bytes (unat (mf_total_bytes m)) (unat (mf_block_size m)) (unat b)"
  then show "expected_block_payload_len m b = Inr n"
    by (metis expected_len_value word_unat_eq_iff)
qed

section \<open>Reports against a manifest\<close>

lemma validate_range_ends_iff:
  "validate_range_ends n rs = Inr () \<longleftrightarrow> (\<forall>r\<in>set rs. end_block_id r \<le> n)"
  by (induction rs) (auto simp: not_less)

lemma validate_need_block_ids_iff:
  "validate_need_block_ids n bs = Inr () \<longleftrightarrow> (\<forall>b\<in>set bs. nb_block_id b < n)"
  by (induction bs) (auto simp: not_le)

definition report_within :: "u64 \<Rightarrow> NeedReport \<Rightarrow> bool" where
  "report_within n r = (case r of
       NeedComplete \<Rightarrow> True
     | NeedPlain rs \<Rightarrow> list_all (\<lambda>r. end_block_id r \<le> n) rs
     | NeedFec bs \<Rightarrow> list_all (\<lambda>b. nb_block_id b < n) bs)"

definition report_fits_mode :: "LosslessSessionMode \<Rightarrow> NeedReport \<Rightarrow> bool" where
  "report_fits_mode mode r = (case r of
       NeedComplete \<Rightarrow> True
     | NeedPlain rs \<Rightarrow> is_fec mode \<longrightarrow> rs = []
     | NeedFec bs \<Rightarrow> \<not> is_fec mode \<longrightarrow> bs = [])"

lemma validate_against_total_blocks_iff:
  "validate_against_total_blocks r n = Inr () \<longleftrightarrow> report_ok r \<and> report_within n r"
  unfolding validate_against_total_blocks_def and_then_eq_Inr need_report_validate_iff
    report_within_def
  by (cases r) (simp_all add: need_report_validate_iff validate_range_ends_iff
      validate_need_block_ids_iff list_all_iff del: need_report_validate.simps)

lemma validate_need_report_iff:
  "validate_need_report m r = Inr () \<longleftrightarrow>
     manifest_ok m \<and> report_ok r \<and> report_within (mf_total_blocks m) r \<and>
     report_fits_mode (mf_mode m) r"
  by (cases r)
    (auto simp: validate_need_report_def and_then_eq_Inr manifest_validate_iff
      validate_against_total_blocks_iff report_fits_mode_def report_within_def)

fun control_ok :: "LosslessSessionControl \<Rightarrow> bool" where
  "control_ok (Manifest m) = manifest_ok m"
| "control_ok (Need _ r) = report_ok r"
| "control_ok _ = True"

lemma control_validate_iff: "control_validate c = Inr () \<longleftrightarrow> control_ok c"
  by (cases c) (simp_all add: manifest_validate_iff need_report_validate_iff)

section \<open>One canonical range list per block set\<close>

lemma ranges_canonical_Cons:
  "ranges_canonical (r # rs) \<longleftrightarrow>
     start_block_id r < end_block_id r \<and> ranges_canonical rs \<and>
     (\<forall>b\<in>missing_blocks rs. unat (end_block_id r) < b)"
proof -
  have "(\<forall>q\<in>set rs. end_block_id r < start_block_id q) \<longleftrightarrow>
      (\<forall>b\<in>missing_blocks rs. unat (end_block_id r) < b)" if "ranges_canonical rs"
  proof
    assume "\<forall>q\<in>set rs. end_block_id r < start_block_id q"
    then show "\<forall>b\<in>missing_blocks rs. unat (end_block_id r) < b"
      by (auto simp: missing_blocks_def block_range_def word_less_nat_alt)
  next
    assume b: "\<forall>b\<in>missing_blocks rs. unat (end_block_id r) < b"
    have "unat (start_block_id q) \<in> missing_blocks rs" if "q \<in> set rs" for q
      using that \<open>ranges_canonical rs\<close>
      by (auto simp: missing_blocks_def block_range_def ranges_canonical_def list_all_iff
          word_less_nat_alt intro!: bexI [of _ q])
    with b show "\<forall>q\<in>set rs. end_block_id r < start_block_id q"
      by (auto simp: word_less_nat_alt)
  qed
  then show ?thesis by (auto simp: ranges_canonical_def)
qed

lemma missing_blocks_simps [simp]:
  "missing_blocks [] = {}"
  "missing_blocks (r # rs) = block_range r \<union> missing_blocks rs"
  by (simp_all add: missing_blocks_def)

lemma missing_blocks_append [simp]:
  "missing_blocks (xs @ ys) = missing_blocks xs \<union> missing_blocks ys"
  by (simp add: missing_blocks_def)

lemma canonical_head:
  fixes M :: "nat set"
  assumes "M = {s..<e} \<union> A" "M = {s'..<e'} \<union> B" "s < e" "s' < e'"
    and "\<forall>b\<in>A. e < b" "\<forall>b\<in>B. e' < b"
  shows "s = s' \<and> e = e' \<and> A = B"
proof -
  have le: "s \<le> b" if "b \<in> {s..<e} \<union> A" for b using that assms(3,5) by auto
  have le': "s' \<le> b" if "b \<in> {s'..<e'} \<union> B" for b using that assms(4,6) by auto
  have eq: "b \<in> {s..<e} \<union> A \<longleftrightarrow> b \<in> {s'..<e'} \<union> B" for b using assms(1,2) by simp
  have "s \<le> s'" by (rule le, subst eq) (simp add: assms(4))
  moreover have "s' \<le> s" by (rule le', subst eq [symmetric]) (simp add: assms(3))
  ultimately have ss: "s = s'" by simp
  have "e \<notin> {s..<e} \<union> A" "e' \<notin> {s'..<e'} \<union> B" using assms(5,6) by auto
  then have "e \<notin> {s'..<e'} \<union> B" "e' \<notin> {s..<e} \<union> A" using eq by blast+
  then have ee: "e = e'" using assms(3,4) ss by auto
  have "b \<in> A \<longleftrightarrow> b \<in> B" for b
    using eq [of b] assms(5,6) ss ee by (cases "b \<le> e") auto
  then show ?thesis using ss ee by blast
qed

lemma canonical_unique:
  "ranges_canonical xs \<Longrightarrow> ranges_canonical ys \<Longrightarrow> missing_blocks xs = missing_blocks ys \<Longrightarrow> xs = ys"
proof (induction xs arbitrary: ys)
  case Nil
  then show ?case
    by (cases ys) (auto simp: ranges_canonical_Cons block_range_def word_less_nat_alt)
next
  case (Cons x xs)
  show ?case
  proof (cases ys)
    case Nil
    then show ?thesis
      using Cons.prems by (auto simp: ranges_canonical_Cons block_range_def word_less_nat_alt)
  next
    case (Cons y zs)
    have "unat (start_block_id x) = unat (start_block_id y) \<and>
        unat (end_block_id x) = unat (end_block_id y) \<and> missing_blocks xs = missing_blocks zs"
      using Cons.prems Cons
      by (intro canonical_head [of "missing_blocks (x # xs)"])
        (auto simp: ranges_canonical_Cons block_range_def word_less_nat_alt)
    then show ?thesis
      using Cons.IH [of zs] Cons.prems Cons
      by (auto simp: ranges_canonical_Cons word_unat_eq_iff intro!: MissingBlockRange.equality)
  qed
qed

section \<open>Properties\<close>

definition block_payload_len :: "LosslessSessionManifest \<Rightarrow> nat \<Rightarrow> nat" where
  "block_payload_len m b = (case expected_block_payload_len m (word_of_nat b) of
     Inl _ \<Rightarrow> 0 | Inr n \<Rightarrow> unat n)"

lemma block_payload_len_eq:
  assumes "manifest_ok m" "b < unat (mf_total_blocks m)"
  shows "block_payload_len m b = block_bytes (unat (mf_total_bytes m)) (unat (mf_block_size m)) b"
proof -
  have u: "unat (word_of_nat b :: u64) = b"
    using assms(2) unat_u64_bound [of "mf_total_blocks m"]
    by (intro unat_of_nat_small) (simp del: unsigned_less)
  then have "word_of_nat b < mf_total_blocks m"
    using assms(2) by (simp only: word_less_nat_alt)
  then obtain n where "expected_block_payload_len m (word_of_nat b) = Inr n"
    "unat n = block_bytes (unat (mf_total_bytes m)) (unat (mf_block_size m)) b"
    using expected_len_value [OF assms(1), of "word_of_nat b"] unfolding u by blast
  then show ?thesis by (simp only: block_payload_len_def sum.case)
qed

text \<open>A manifest that passes validation describes a partition of the payload: the
  expected payload lengths of its blocks are positive, at most the block size, and add up
  to the total number of bytes.\<close>

theorem manifest_partitions_payload:
  assumes "manifest_validate m = Inr ()"
  shows "(\<Sum>b<unat (mf_total_blocks m). block_payload_len m b) = unat (mf_total_bytes m) \<and>
    (\<forall>b<unat (mf_total_blocks m).
       0 < block_payload_len m b \<and> block_payload_len m b \<le> unat (mf_block_size m))"
proof -
  have ok: "manifest_ok m" using assms by (simp add: manifest_validate_iff)
  note p = manifest_ok_blocks(1) [OF ok]
  have n: "unat (mf_total_blocks m) =
      nat_div_ceil (unat (mf_total_bytes m)) (unat (mf_block_size m))"
    using ok by (simp add: manifest_ok_def)
  have "(\<Sum>b<unat (mf_total_blocks m). block_payload_len m b) =
      (\<Sum>b<unat (mf_total_blocks m).
         block_bytes (unat (mf_total_bytes m)) (unat (mf_block_size m)) b)"
    by (rule sum.cong) (simp_all add: block_payload_len_eq [OF ok])
  also have "\<dots> = unat (mf_total_bytes m)" unfolding n by (rule sum_block_bytes [OF p])
  finally have "(\<Sum>b<unat (mf_total_blocks m). block_payload_len m b) = unat (mf_total_bytes m)" .
  moreover have "0 < block_payload_len m b \<and> block_payload_len m b \<le> unat (mf_block_size m)"
    if "b < unat (mf_total_blocks m)" for b
    using that manifest_ok_blocks(2) [OF ok, of b] p
    by (simp add: block_payload_len_eq [OF ok] block_bytes_le) (simp add: block_bytes_def)
  ultimately show ?thesis by blast
qed

definition sample_manifest :: LosslessSessionManifest where
  "sample_manifest = \<lparr>mf_block_size = 4, mf_total_bytes = 10, mf_total_blocks = 3,
     mf_mode = ModePlain\<rparr>"

lemma sample_manifest_validate: "manifest_validate sample_manifest = Inr ()"
  by code_simp

lemma manifest_partitions_payload_witness:
  "(\<Sum>b<3. block_payload_len sample_manifest b) = 10 \<and>
   0 < block_payload_len sample_manifest 2 \<and> block_payload_len sample_manifest 2 \<le> 4"
  using manifest_partitions_payload [OF sample_manifest_validate]
  by (simp add: sample_manifest_def)

text \<open>Plain reports have one canonical form: two range lists that pass validation and
  denote the same set of missing blocks are equal.\<close>

theorem plain_report_canonical:
  assumes "need_report_validate (NeedPlain xs) = Inr ()"
    and "need_report_validate (NeedPlain ys) = Inr ()"
    and "missing_blocks xs = missing_blocks ys"
  shows "xs = ys"
  using assms canonical_unique [of xs ys] by (simp add: need_report_validate_iff
      del: need_report_validate.simps)

lemma plain_report_canonical_witness:
  "\<exists>xs. need_report_validate (NeedPlain xs) = Inr () \<and>
     xs = [\<lparr>start_block_id = 1, end_block_id = 3\<rparr>, \<lparr>start_block_id = 5, end_block_id = 6\<rparr>]"
proof -
  let ?xs = "[\<lparr>start_block_id = 1, end_block_id = 3\<rparr>, \<lparr>start_block_id = 5, end_block_id = 6\<rparr>]"
  have v: "need_report_validate (NeedPlain ?xs) = Inr ()" by code_simp
  then show ?thesis using plain_report_canonical [OF v v refl] by blast
qed

text \<open>The manifest accepts exactly the reports of its own mode that are well formed
  (bounded, sorted, merged or unique, no zero deficit) and stay below its block count.\<close>

theorem validate_need_report_exact:
  "validate_need_report m r = Inr () \<longleftrightarrow>
     manifest_validate m = Inr () \<and> need_report_validate r = Inr () \<and>
     (case r of
        NeedComplete \<Rightarrow> True
      | NeedPlain rs \<Rightarrow> (\<not> is_fec (mf_mode m) \<or> rs = []) \<and>
          missing_blocks rs \<subseteq> {..<unat (mf_total_blocks m)}
      | NeedFec bs \<Rightarrow> (is_fec (mf_mode m) \<or> bs = []) \<and>
          (\<forall>b\<in>set bs. nb_block_id b < mf_total_blocks m))"
proof -
  have w: "list_all (\<lambda>r. end_block_id r \<le> n) rs \<longleftrightarrow> missing_blocks rs \<subseteq> {..<unat n}"
    if "ranges_canonical rs" for rs n
    using that
  proof (induction rs)
    case (Cons r rs)
    then have "start_block_id r < end_block_id r" by (simp add: ranges_canonical_Cons)
    then have "end_block_id r \<le> n \<longleftrightarrow> block_range r \<subseteq> {..<unat n}"
      by (simp add: block_range_def word_less_nat_alt word_le_nat_alt lessThan_atLeast0)
    then show ?case using Cons by (simp add: ranges_canonical_Cons)
  qed simp
  show ?thesis
    unfolding validate_need_report_iff manifest_validate_iff need_report_validate_iff
    by (cases r)
      (auto simp: report_within_def report_fits_mode_def w list_all_iff [of _ "_ :: NeedBlock list"])
qed

lemma validate_need_report_exact_witness:
  "validate_need_report sample_manifest NeedComplete = Inr () \<and>
   validate_need_report sample_manifest
     (NeedPlain [\<lparr>start_block_id = 1, end_block_id = 4\<rparr>]) \<noteq> Inr ()"
  by (simp add: validate_need_report_exact sample_manifest_validate block_range_def
      missing_blocks_def del: need_report_validate.simps)
    (auto simp: sample_manifest_def subset_iff intro!: exI [of _ 3])

text \<open>A manifest accepts a \<open>BlockData\<close> payload exactly when the session is
  plain, the block exists and the payload has the length of that block; the comparison is on
  32 bits, saturating.\<close>

theorem validate_block_data_exact:
  "validate_block_data m d n = Inr () \<longleftrightarrow>
     \<not> is_fec (mf_mode m) \<and> manifest_validate m = Inr () \<and> bd_block_id d < mf_total_blocks m \<and>
     min n (2 ^ 32 - 1) = block_bytes (unat (mf_total_bytes m)) (unat (mf_block_size m))
       (unat (bd_block_id d))"
proof -
  have c: "unat (u32_clamp n) = min n (2 ^ 32 - 1)"
    by (auto simp: u32_clamp_def unat_of_nat_small
        unsigned_minus_1_eq_mask mask_eq_exp_minus_1)
  have "validate_block_data m d n = Inr () \<longleftrightarrow>
      \<not> is_fec (mf_mode m) \<and> expected_block_payload_len m (bd_block_id d) = Inr (u32_clamp n)"
    by (auto simp: validate_block_data_def and_then_eq_Inr Let_def split: if_splits)
  then show ?thesis by (simp add: expected_len_Inr manifest_validate_iff c)
qed

end
