(* ===== verification/Wire_Header.thy ===== *)
theory Wire_Header
  imports Wire_Types
begin

text \<open>
  The fixed frame header (\<open>src/messages/src/lossless_session/header.rs\<close>).
  \<open>encode_into\<close> performs the source's writes into the first \<open>HEADER_LEN\<close> bytes
  of a buffer; \<open>header_bytes\<close> is the byte layout those writes produce.
\<close>

record LosslessSessionHeader =
  h_magic :: u32
  h_version :: u8
  h_kind :: LosslessSessionKind
  h_ctrl_kind :: u8
  h_session_id :: u64
  h_body_len :: u32

record LosslessSessionRawHeader =
  rh_magic :: u32
  rh_version :: u8
  rh_kind :: u8
  rh_ctrl_kind :: u8
  rh_session_id :: u64
  rh_body_len :: u32

definition HEADER_LEN :: nat where "HEADER_LEN = 4 + 1 + 1 + 1 + 1 + 8 + 4"

definition encode_into :: "LosslessSessionHeader \<Rightarrow> bytes \<Rightarrow> bytes" where
  "encode_into h out =
     (let out = put 0 (to_be (h_magic h)) out;
          out = put 4 [h_version h] out;
          out = put 5 [kind_byte (h_kind h)] out;
          out = put 6 [h_ctrl_kind h] out;
          out = put 7 [0] out;
          out = put 8 (to_be (h_session_id h)) out
      in put 16 (to_be (h_body_len h)) out)"

definition peek_header :: "bytes \<Rightarrow> LosslessSessionRawHeader option" where
  "peek_header buf =
     (if length buf < HEADER_LEN then None
      else let magic = from_be (slice 0 4 buf) in
        if magic \<noteq> LOSSLESS_SESSION_MAGIC then None
        else Some \<lparr>rh_magic = magic, rh_version = buf ! 4, rh_kind = buf ! 5,
                   rh_ctrl_kind = buf ! 6, rh_session_id = from_be (slice 8 8 buf),
                   rh_body_len = from_be (slice 16 4 buf)\<rparr>)"

definition decode_from :: "bytes \<Rightarrow> (LosslessSessionHeader \<times> nat) option" where
  "decode_from buf =
     (case peek_header buf of
        None \<Rightarrow> None
      | Some raw \<Rightarrow>
          if rh_version raw \<noteq> LOSSLESS_SESSION_VERSION then None
          else case (if rh_kind raw = 1 then Some KindBlockData
                     else if rh_kind raw = 2 then Some KindBlockSymbol
                     else if rh_kind raw = 3 then Some KindControl
                     else None) of
            None \<Rightarrow> None
          | Some kind \<Rightarrow>
              Some (\<lparr>h_magic = rh_magic raw, h_version = rh_version raw, h_kind = kind,
                     h_ctrl_kind = rh_ctrl_kind raw, h_session_id = rh_session_id raw,
                     h_body_len = rh_body_len raw\<rparr>, HEADER_LEN))"

section \<open>Layout\<close>

definition header_bytes :: "LosslessSessionHeader \<Rightarrow> bytes" where
  "header_bytes h =
     to_be (h_magic h) @ [h_version h, kind_byte (h_kind h), h_ctrl_kind h, 0] @
     to_be (h_session_id h) @ to_be (h_body_len h)"

lemma HEADER_LEN_eq [simp]: "HEADER_LEN = 20"
  by (simp add: HEADER_LEN_def)

lemma length_header_bytes [simp, wire_length]: "length (header_bytes h) = 20"
  by (simp add: header_bytes_def)

lemma encode_into_layout [wire_layout]:
  assumes "20 \<le> length out"
  shows "encode_into h out = header_bytes h @ drop 20 out"
proof -
  have "encode_into h out = (((((((to_be (h_magic h) @ [h_version h]) @ [kind_byte (h_kind h)]) @
      [h_ctrl_kind h]) @ [0]) @ to_be (h_session_id h)) @ to_be (h_body_len h)) @ drop 20 out)"
    by (simp add: encode_into_def put_start Let_def put_fill_drop del: append_assoc)
  then show ?thesis by (simp add: header_bytes_def)
qed

text \<open>The header of a session frame as every encoder of the crate builds it.\<close>

definition session_header :: "LosslessSessionKind \<Rightarrow> u8 \<Rightarrow> u64 \<Rightarrow> u32 \<Rightarrow> LosslessSessionHeader" where
  "session_header kind ctrl_kind session_id body_len =
     \<lparr>h_magic = LOSSLESS_SESSION_MAGIC, h_version = LOSSLESS_SESSION_VERSION, h_kind = kind,
      h_ctrl_kind = ctrl_kind, h_session_id = session_id, h_body_len = body_len\<rparr>"

lemma session_header_simps [simp]:
  "h_magic (session_header k c s n) = LOSSLESS_SESSION_MAGIC"
  "h_version (session_header k c s n) = LOSSLESS_SESSION_VERSION"
  "h_kind (session_header k c s n) = k"
  "h_ctrl_kind (session_header k c s n) = c"
  "h_session_id (session_header k c s n) = s"
  "h_body_len (session_header k c s n) = n"
  by (simp_all add: session_header_def)

lemma header_fields:
  "slice 0 4 (header_bytes h @ rest) = to_be (h_magic h)"
  "(header_bytes h @ rest) ! 4 = h_version h"
  "(header_bytes h @ rest) ! 5 = kind_byte (h_kind h)"
  "(header_bytes h @ rest) ! 6 = h_ctrl_kind h"
  "slice 8 8 (header_bytes h @ rest) = to_be (h_session_id h)"
  "slice 16 4 (header_bytes h @ rest) = to_be (h_body_len h)"
  by (simp_all add: header_bytes_def slice_def nth_append drop_Cons')

lemma decode_from_header_bytes:
  "decode_from (header_bytes h @ rest) =
     (if h_magic h = LOSSLESS_SESSION_MAGIC \<and> h_version h = LOSSLESS_SESSION_VERSION
      then Some (h, 20) else None)"
  by (cases "h_kind h") (simp_all add: decode_from_def peek_header_def header_fields Let_def)

lemma decode_from_session_header [simp]:
  "decode_from (header_bytes (session_header k c s n) @ rest) = Some (session_header k c s n, 20)"
  by (simp add: decode_from_header_bytes)

lemma take_4: "4 \<le> length xs \<Longrightarrow> take 4 xs = [xs ! 0, xs ! 1, xs ! 2, xs ! 3]"
  by (rule nth_equalityI) (auto simp: less_Suc_eq numeral_eq_Suc)

lemma update_7: "length a = 4 \<Longrightarrow> (a @ [p, q, r, s] @ rest)[7 := x] = a @ [p, q, r, x] @ rest"
  using list_update_length [of "a @ [p, q, r]" s rest x] by simp

lemma take_header_split:
  assumes "20 \<le> length buf"
  shows "take 20 buf = slice 0 4 buf @ [buf ! 4, buf ! 5, buf ! 6, buf ! 7] @ slice 8 8 buf @
    slice 16 4 buf"
proof -
  have "take 8 buf = take 4 buf @ [buf ! 4, buf ! 5, buf ! 6, buf ! 7]"
    using assms take_add [of 4 4 buf] take_4 [of "drop 4 buf"] by simp
  moreover have "take 20 buf = take 8 buf @ slice 8 8 buf @ slice 16 4 buf"
    using take_add [of 8 12 buf] take_add [of 8 4 "drop 8 buf"] by (simp add: slice_def)
  ultimately show ?thesis by (simp add: slice_def)
qed

lemma decode_from_Some:
  assumes "decode_from buf = Some (h, off)"
  shows "off = 20" "20 \<le> length buf"
    "h = session_header (h_kind h) (h_ctrl_kind h) (h_session_id h) (h_body_len h)"
    "header_bytes h = (take 20 buf)[7 := 0]"
proof -
  obtain raw where raw: "peek_header buf = Some raw" "rh_version raw = LOSSLESS_SESSION_VERSION"
    using assms by (auto simp: decode_from_def split: option.splits if_splits)
  then have len: "20 \<le> length buf" and mg: "from_be (slice 0 4 buf) = LOSSLESS_SESSION_MAGIC"
    by (auto simp: peek_header_def Let_def split: if_splits)
  have h: "h_magic h = from_be (slice 0 4 buf)" "h_version h = buf ! 4"
    "kind_byte (h_kind h) = buf ! 5" "h_ctrl_kind h = buf ! 6"
    "h_session_id h = from_be (slice 8 8 buf)" "h_body_len h = from_be (slice 16 4 buf)" "off = 20"
    using assms raw len
    by (auto simp: decode_from_def peek_header_def Let_def split: option.splits if_splits)
  show "off = 20" "20 \<le> length buf" by (fact h(7), fact len)
  have "h_version h = LOSSLESS_SESSION_VERSION"
    using raw h(2) by (auto simp: peek_header_def Let_def split: if_splits)
  then show "h = session_header (h_kind h) (h_ctrl_kind h) (h_session_id h) (h_body_len h)"
    using h(1) mg by (simp add: session_header_def)
  show "header_bytes h = (take 20 buf)[7 := 0]"
    using len by (simp add: header_bytes_def h take_header_split update_7 del: append.simps)
qed

end
