(* ===== verification/Wire_Blocks.thy ===== *)
theory Wire_Blocks
  imports Wire_Header
begin

text \<open>
  Payload frames: \<open>BlockData\<close> (plain mode) and \<open>BlockSymbol\<close> (FEC mode)
  encoders and decoders (\<open>src/messages/src/lossless_session/block_frames.rs\<close>) and the
  sender's scratch-buffer encoder with its in-place tree-id patch
  (\<open>src/dataplane/src/node/session/sender/block_symbol_frame.rs\<close>).
\<close>

definition BLOCK_SYMBOL_FIXED_BODY_LEN :: nat where "BLOCK_SYMBOL_FIXED_BODY_LEN = 8 + 4 + 2 + 2"
definition BLOCK_SYMBOL_TREE_ID_OFFSET :: nat where
  "BLOCK_SYMBOL_TREE_ID_OFFSET = HEADER_LEN + 8 + 4"

text \<open>\<open>Vec::resize(n, 0)\<close>.\<close>

definition resize_zero :: "nat \<Rightarrow> bytes \<Rightarrow> bytes" where
  "resize_zero n buf = take n buf @ replicate (n - length buf) 0"

text \<open>The \<open>u32\<close> sum \<open>8 + payload.len() as u32\<close> wraps for payloads near or beyond
  4 GiB; the buffer is then shorter than the payload and the slice copy panics.\<close>

definition encode_block_data :: "u64 \<Rightarrow> u64 \<Rightarrow> bytes \<Rightarrow> bytes may_panic" where
  "encode_block_data session_id block_id payload =
     (let body_len = (8 + word_of_nat (length payload) :: u32);
          out = replicate (HEADER_LEN + unat body_len) 0;
          out = encode_into (session_header KindBlockData 0 session_id body_len) out;
          pos = HEADER_LEN
      in if length out < pos + 8 then None
         else let out = put pos (to_be block_id) out;
                  pos = pos + 8
              in if length out < pos + length payload then None
                 else Some (put pos payload out))"

definition encode_block_symbol_into :: "bytes \<Rightarrow> u64 \<Rightarrow> u64 \<Rightarrow> u32 \<Rightarrow> u16 \<Rightarrow> bytes \<Rightarrow> bytes" where
  "encode_block_symbol_into buf session_id block_id symbol_id tree_id payload =
     (let body_len = BLOCK_SYMBOL_FIXED_BODY_LEN + length payload;
          frame_len = HEADER_LEN + body_len;
          buf = resize_zero frame_len buf;
          buf = encode_into (session_header KindBlockSymbol 0 session_id (word_of_nat body_len)) buf;
          pos = HEADER_LEN;
          buf = put pos (to_be block_id) buf; pos = pos + 8;
          buf = put pos (to_be symbol_id) buf; pos = pos + 4;
          buf = put pos (to_be tree_id) buf; pos = pos + 2;
          buf = put pos (to_be (0 :: u16)) buf; pos = pos + 2
      in put pos payload buf)"

definition encode_block_symbol :: "u64 \<Rightarrow> u64 \<Rightarrow> u32 \<Rightarrow> u16 \<Rightarrow> bytes \<Rightarrow> bytes" where
  "encode_block_symbol session_id block_id symbol_id tree_id payload =
     encode_block_symbol_into [] session_id block_id symbol_id tree_id payload"

definition decode_block_data ::
    "bytes \<Rightarrow> (LosslessSessionHeader \<times> LosslessSessionBlockData \<times> bytes) option" where
  "decode_block_data buf =
     (case decode_from buf of
        None \<Rightarrow> None
      | Some (hdr, off) \<Rightarrow>
          if h_kind hdr \<noteq> KindBlockData \<or> h_ctrl_kind hdr \<noteq> 0 then None
          else if h_body_len hdr < 8 then None
          else let payload_end = off + unat (h_body_len hdr) in
            if length buf \<noteq> payload_end then None
            else let pos = off; block_id = from_be (slice pos 8 buf); pos = pos + 8
              in Some (hdr, \<lparr>bd_block_id = block_id\<rparr>, slice pos (payload_end - pos) buf))"

definition decode_block_symbol ::
    "bytes \<Rightarrow> (LosslessSessionHeader \<times> LosslessSessionBlockSymbol \<times> bytes) option" where
  "decode_block_symbol buf =
     (case decode_from buf of
        None \<Rightarrow> None
      | Some (hdr, off) \<Rightarrow>
          if h_kind hdr \<noteq> KindBlockSymbol \<or> h_ctrl_kind hdr \<noteq> 0 then None
          else if h_body_len hdr < word_of_nat BLOCK_SYMBOL_FIXED_BODY_LEN then None
          else let payload_end = off + unat (h_body_len hdr) in
            if length buf \<noteq> payload_end then None
            else let pos = off;
                block_id = from_be (slice pos 8 buf); pos = pos + 8;
                symbol_id = from_be (slice pos 4 buf); pos = pos + 4;
                tree_id = from_be (slice pos 2 buf); pos = pos + 2;
                pos = pos + 2
              in Some (hdr, \<lparr>bs_block_id = block_id, bs_symbol_id = symbol_id, bs_tree_id = tree_id\<rparr>,
                   slice pos (payload_end - pos) buf))"

text \<open>The sender's copy of the symbol encoder (\<open>block_symbol_frame::encode_into\<close>) and
  its patch of the tree id; a frame \<open>patch_tree_id\<close> rejects stays as it is.\<close>

definition scratch_encode_into :: "bytes \<Rightarrow> u64 \<Rightarrow> u64 \<Rightarrow> u32 \<Rightarrow> u16 \<Rightarrow> bytes \<Rightarrow> bytes" where
  "scratch_encode_into buf session_id block_id symbol_id tree_id payload =
     (let body_len = BLOCK_SYMBOL_FIXED_BODY_LEN + length payload;
          frame_len = HEADER_LEN + body_len;
          buf = resize_zero frame_len buf;
          buf = encode_into (session_header KindBlockSymbol 0 session_id (word_of_nat body_len)) buf;
          pos = HEADER_LEN;
          buf = put pos (to_be block_id) buf; pos = pos + 8;
          buf = put pos (to_be symbol_id) buf; pos = pos + 4;
          buf = put pos (to_be tree_id) buf; pos = pos + 2;
          buf = put pos (to_be (0 :: u16)) buf; pos = pos + 2
      in put pos payload buf)"

definition patch_tree_id :: "bytes \<Rightarrow> u16 \<Rightarrow> bytes option" where
  "patch_tree_id buf tree_id =
     (case decode_from buf of
        None \<Rightarrow> None
      | Some (hdr, off) \<Rightarrow>
          if h_kind hdr \<noteq> KindBlockSymbol \<or> h_ctrl_kind hdr \<noteq> 0 then None
          else if h_body_len hdr < word_of_nat BLOCK_SYMBOL_FIXED_BODY_LEN
               \<or> length buf < off + unat (h_body_len hdr) then None
          else let pos = off + (BLOCK_SYMBOL_TREE_ID_OFFSET - HEADER_LEN)
            in Some (put pos (to_be tree_id) buf))"

section \<open>Layouts\<close>

definition block_data_bytes :: "u64 \<Rightarrow> u64 \<Rightarrow> bytes \<Rightarrow> bytes" where
  "block_data_bytes session_id block_id payload =
     header_bytes (session_header KindBlockData 0 session_id (word_of_nat (8 + length payload))) @
     to_be block_id @ payload"

definition block_symbol_bytes :: "u64 \<Rightarrow> u64 \<Rightarrow> u32 \<Rightarrow> u16 \<Rightarrow> bytes \<Rightarrow> bytes" where
  "block_symbol_bytes session_id block_id symbol_id tree_id payload =
     header_bytes (session_header KindBlockSymbol 0 session_id (word_of_nat (16 + length payload))) @
     to_be block_id @ to_be symbol_id @ to_be tree_id @ to_be (0 :: u16) @ payload"

lemma length_resize_zero [simp]: "length (resize_zero n buf) = n"
  by (simp add: resize_zero_def)

lemma put_last:
  "length pre = pos \<Longrightarrow> pos + length src = length buf \<Longrightarrow> put pos src (pre @ drop pos buf) = pre @ src"
  by (simp add: put_fill_drop)

lemma scratch_encode_into_layout [wire_layout]:
  "scratch_encode_into buf session_id block_id symbol_id tree_id payload =
     block_symbol_bytes session_id block_id symbol_id tree_id payload"
proof -
  let ?out = "resize_zero (36 + length payload) buf"
  have "scratch_encode_into buf session_id block_id symbol_id tree_id payload =
     ((((header_bytes (session_header KindBlockSymbol 0 session_id (word_of_nat (16 + length payload))) @
     to_be block_id) @ to_be symbol_id) @ to_be tree_id) @ to_be (0 :: u16)) @ payload"
    by (simp add: scratch_encode_into_def BLOCK_SYMBOL_FIXED_BODY_LEN_def Let_def
        encode_into_layout put_fill_drop put_last del: append_assoc)
  then show ?thesis by (simp add: block_symbol_bytes_def)
qed

lemma encode_block_symbol_into_layout [wire_layout]:
  "encode_block_symbol_into buf session_id block_id symbol_id tree_id payload =
     block_symbol_bytes session_id block_id symbol_id tree_id payload"
  using scratch_encode_into_layout [of buf]
  by (simp add: encode_block_symbol_into_def scratch_encode_into_def)

lemma encode_block_data_layout [wire_layout]:
  assumes "length payload < 2 ^ 32 - 8"
  shows "encode_block_data session_id block_id payload =
    Some (block_data_bytes session_id block_id payload)"
proof -
  have n: "unat (8 + word_of_nat (length payload) :: u32) = 8 + length payload"
    using assms unat_of_nat_small [of "8 + length payload", where 'a = 32] by simp
  let ?h = "session_header KindBlockData 0 session_id (8 + word_of_nat (length payload))"
  let ?out = "replicate (28 + length payload) (0 :: u8)"
  have "put 28 payload (put 20 (to_be block_id) (header_bytes ?h @ drop 20 ?out)) =
     (header_bytes ?h @ to_be block_id) @ payload"
    by (simp add: put_fill_drop put_last del: append_assoc drop_replicate)
  then show ?thesis
    by (simp add: encode_block_data_def Let_def n encode_into_layout block_data_bytes_def)
qed

lemma encode_block_data_panics:
  assumes "2 ^ 32 - 8 \<le> length payload"
  shows "encode_block_data session_id block_id payload = None"
proof -
  have "unat (8 + word_of_nat (length payload) :: u32) < 8 + length payload"
    using assms unat_u32_bound [of "8 + word_of_nat (length payload)"] by linarith
  then show ?thesis by (auto simp: encode_block_data_def Let_def encode_into_layout)
qed

section \<open>Decoding\<close>

lemma slice_header_bytes:
  "20 \<le> a \<Longrightarrow> slice a n (header_bytes h @ rest) = slice (a - 20) n rest"
  by (simp add: slice_append_right)

lemma block_symbol_fields:
  "length (block_symbol_bytes s b i t p) = 36 + length p"
  "slice 20 8 (block_symbol_bytes s b i t p) = to_be b"
  "slice 28 4 (block_symbol_bytes s b i t p) = to_be i"
  "slice 32 2 (block_symbol_bytes s b i t p) = to_be t"
  "n = length p \<Longrightarrow> slice 36 n (block_symbol_bytes s b i t p) = p"
  by (simp_all add: block_symbol_bytes_def slice_header_bytes slice_append_right slice_here slice_def)

lemma block_data_fields:
  "length (block_data_bytes s b p) = 28 + length p"
  "slice 20 8 (block_data_bytes s b p) = to_be b"
  "n = length p \<Longrightarrow> slice 28 n (block_data_bytes s b p) = p"
  by (simp_all add: block_data_bytes_def slice_header_bytes slice_append_right slice_here slice_def)

lemma decode_from_block_bytes:
  "decode_from (block_data_bytes s b p) =
     Some (session_header KindBlockData 0 s (word_of_nat (8 + length p)), 20)"
  "decode_from (block_symbol_bytes s b i t p) =
     Some (session_header KindBlockSymbol 0 s (word_of_nat (16 + length p)), 20)"
  unfolding block_data_bytes_def block_symbol_bytes_def by (rule decode_from_session_header)+

lemma decode_block_data_bytes:
  assumes "length payload < 2 ^ 32 - 8"
  shows "decode_block_data (block_data_bytes session_id block_id payload) =
    Some (session_header KindBlockData 0 session_id (word_of_nat (8 + length payload)),
      \<lparr>bd_block_id = block_id\<rparr>, payload)"
proof -
  let ?n = "word_of_nat (8 + length payload) :: u32"
  have n: "unat ?n = 8 + length payload"
    using assms by (intro unat_of_nat_small) simp
  then have "\<not> ?n < 8" by (simp add: word_less_nat_alt del: of_nat_add)
  then show ?thesis
    by (simp add: decode_block_data_def decode_from_block_bytes block_data_fields n Let_def
        del: of_nat_add)
qed

text \<open>A \<open>BlockData\<close> frame of any payload shorter than 4 GiB less 8 bytes decodes
  to its session, its block and its payload, the symbol decoder rejects it, and a longer
  payload makes the encoder panic.\<close>

theorem block_data_roundtrip:
  "if length payload < 2 ^ 32 - 8
   then \<exists>frame. encode_block_data session_id block_id payload = Some frame \<and>
     decode_block_data frame =
       Some (session_header KindBlockData 0 session_id (word_of_nat (8 + length payload)),
         \<lparr>bd_block_id = block_id\<rparr>, payload) \<and>
     decode_block_symbol frame = None
   else encode_block_data session_id block_id payload = None"
proof (cases "length payload < 2 ^ 32 - 8")
  case True
  have "decode_block_symbol (block_data_bytes session_id block_id payload) = None"
    by (simp add: decode_block_symbol_def decode_from_block_bytes)
  then show ?thesis using True by (simp add: encode_block_data_layout decode_block_data_bytes)
next
  case False
  then show ?thesis by (simp add: encode_block_data_panics)
qed

lemma block_symbol_encode:
  assumes "length payload < 2 ^ 32 - 16"
  shows "scratch_encode_into buf session_id block_id symbol_id tree_id payload =
      encode_block_symbol session_id block_id symbol_id tree_id payload"
    and "decode_block_symbol (encode_block_symbol session_id block_id symbol_id tree_id payload) =
      Some (session_header KindBlockSymbol 0 session_id (word_of_nat (16 + length payload)),
        \<lparr>bs_block_id = block_id, bs_symbol_id = symbol_id, bs_tree_id = tree_id\<rparr>, payload)"
    and "decode_block_data (encode_block_symbol session_id block_id symbol_id tree_id payload) = None"
proof -
  let ?n = "word_of_nat (16 + length payload) :: u32"
  have n: "unat ?n = 16 + length payload"
    using assms by (intro unat_of_nat_small) simp
  then have "\<not> ?n < 16" by (simp add: word_less_nat_alt del: of_nat_add)
  then show "scratch_encode_into buf session_id block_id symbol_id tree_id payload =
      encode_block_symbol session_id block_id symbol_id tree_id payload"
    and "decode_block_symbol (encode_block_symbol session_id block_id symbol_id tree_id payload) =
      Some (session_header KindBlockSymbol 0 session_id ?n,
        \<lparr>bs_block_id = block_id, bs_symbol_id = symbol_id, bs_tree_id = tree_id\<rparr>, payload)"
    and "decode_block_data (encode_block_symbol session_id block_id symbol_id tree_id payload) = None"
    by (simp_all add: encode_block_symbol_def wire_layout decode_block_symbol_def decode_block_data_def
        decode_from_block_bytes block_symbol_fields BLOCK_SYMBOL_FIXED_BODY_LEN_def n Let_def
        del: of_nat_add)
qed

text \<open>Whatever the reused buffer held, the sender's scratch encoder writes the frame of
  the public symbol encoder, and that frame decodes to the block, the symbol, the tree and
  the payload it was built from; the block decoder rejects it.\<close>

theorem block_symbol_roundtrip:
  assumes "length payload < 2 ^ 32 - 16"
  shows "scratch_encode_into buf session_id block_id symbol_id tree_id payload =
      encode_block_symbol session_id block_id symbol_id tree_id payload \<and>
    decode_block_symbol (encode_block_symbol session_id block_id symbol_id tree_id payload) =
      Some (session_header KindBlockSymbol 0 session_id (word_of_nat (16 + length payload)),
        \<lparr>bs_block_id = block_id, bs_symbol_id = symbol_id, bs_tree_id = tree_id\<rparr>, payload) \<and>
    decode_block_data (encode_block_symbol session_id block_id symbol_id tree_id payload) = None"
  by (simp add: block_symbol_encode [OF assms] del: of_nat_add)

lemma block_symbol_roundtrip_witness:
  "scratch_encode_into [9, 9, 9] 42 7 3 5 [1, 2] = encode_block_symbol 42 7 3 5 [1, 2] \<and>
   decode_block_data (encode_block_symbol 42 7 3 5 [1, 2]) = None"
  using block_symbol_roundtrip [of "[1, 2]" "[9, 9, 9]" 42 7 3 5] by simp

lemma patch_tree_id_encode:
  assumes "length payload < 2 ^ 32 - 16"
  shows "patch_tree_id (encode_block_symbol session_id block_id symbol_id tree_id payload) tree_id' =
    Some (encode_block_symbol session_id block_id symbol_id tree_id' payload)"
proof -
  let ?n = "word_of_nat (16 + length payload) :: u32"
  let ?h = "header_bytes (session_header KindBlockSymbol 0 session_id ?n)"
  have n: "unat ?n = 16 + length payload"
    using assms by (intro unat_of_nat_small) simp
  then have lt: "\<not> ?n < 16" by (simp add: word_less_nat_alt del: of_nat_add)
  have "put 32 (to_be tree_id')
      ((?h @ to_be block_id @ to_be symbol_id) @ to_be tree_id @ to_be (0 :: u16) @ payload) =
    (?h @ to_be block_id @ to_be symbol_id) @ to_be tree_id' @ to_be (0 :: u16) @ payload"
    by (subst put_fill) simp_all
  then show ?thesis
    using lt
    by (simp add: encode_block_symbol_def wire_layout patch_tree_id_def decode_from_block_bytes
        block_symbol_fields BLOCK_SYMBOL_FIXED_BODY_LEN_def BLOCK_SYMBOL_TREE_ID_OFFSET_def n
        del: of_nat_add) (simp add: block_symbol_bytes_def)
qed

text \<open>Patching the tree id of an encoded symbol frame gives the frame that encoding the
  symbol for the new tree would give, byte for byte.\<close>

theorem patch_tree_id_reencodes:
  assumes "length payload < 2 ^ 32 - 16"
  shows "patch_tree_id (encode_block_symbol session_id block_id symbol_id tree_id payload) tree_id' =
    Some (encode_block_symbol session_id block_id symbol_id tree_id' payload)"
  by (rule patch_tree_id_encode [OF assms])

lemma patch_tree_id_reencodes_witness:
  "patch_tree_id (encode_block_symbol 42 7 3 5 [1, 2]) 9 = Some (encode_block_symbol 42 7 3 9 [1, 2])"
  by (rule patch_tree_id_reencodes) simp

lemma take_20_split:
  "20 \<le> length buf \<Longrightarrow> buf[7 := 0] = (take 20 buf)[7 := 0] @ drop 20 buf"
  using list_update_append1 [where i = 7 and xs = "take 20 buf" and ys = "drop 20 buf"] by simp

text \<open>The block decoder accepts no frame but an encoder's: an accepted buffer is, apart
  from the reserved byte 7, the encoding of the session, block and payload it decodes to.\<close>

theorem decode_block_data_exact:
  assumes "decode_block_data buf = Some (hdr, d, payload)"
  shows "encode_block_data (h_session_id hdr) (bd_block_id d) payload = Some (buf[7 := 0])"
proof -
  from assms have dec: "decode_from buf = Some (hdr, 20)"
    by (auto simp: decode_block_data_def Let_def dest: decode_from_Some(1)
        split: option.splits if_splits)
  note hd = decode_from_Some [OF dec]
  from assms dec have f: "h_kind hdr = KindBlockData" "h_ctrl_kind hdr = 0" "\<not> h_body_len hdr < 8"
    "length buf = 20 + unat (h_body_len hdr)" "d = \<lparr>bd_block_id = from_be (slice 20 8 buf)\<rparr>"
    "payload = slice 28 (length buf - 28) buf"
    by (auto simp: decode_block_data_def Let_def split: if_splits)
  have n8: "8 \<le> unat (h_body_len hdr)" using f(3) by (simp add: word_less_nat_alt)
  then have pl: "length payload = unat (h_body_len hdr) - 8" using f(4,6) by simp
  have body: "drop 20 buf = slice 20 8 buf @ payload"
    using f(4,6) n8 take_add [of 8 "length buf - 28" "drop 20 buf"] by (simp add: slice_def)
  have "word_of_nat (8 + length payload) = h_body_len hdr" using n8 pl by simp
  then have "block_data_bytes (h_session_id hdr) (bd_block_id d) payload =
      header_bytes hdr @ drop 20 buf"
    using hd(3) f(1,2,4) n8 by (simp add: block_data_bytes_def body f(5) del: of_nat_add)
  moreover have "length payload < 2 ^ 32 - 8"
    using pl n8 unat_u32_bound [of "h_body_len hdr"] by linarith
  ultimately show ?thesis
    using hd(2,4) by (simp add: encode_block_data_layout take_20_split [of buf])
qed

lemma decode_block_data_exact_witness:
  "\<exists>hdr d payload. decode_block_data (block_data_bytes 42 7 [1, 2]) = Some (hdr, d, payload) \<and>
     encode_block_data (h_session_id hdr) (bd_block_id d) payload =
       Some ((block_data_bytes 42 7 [1, 2])[7 := 0])"
proof -
  have "decode_block_data (block_data_bytes 42 7 [1, 2]) =
      Some (session_header KindBlockData 0 42 (word_of_nat (8 + length [1 :: u8, 2])),
        \<lparr>bd_block_id = 7\<rparr>, [1, 2])"
    by (rule decode_block_data_bytes) simp
  from decode_block_data_exact [OF this] this show ?thesis by blast
qed

end
