(* ===== verification/Wire_Control.thy ===== *)
theory Wire_Control
  imports Wire_Validation Wire_Blocks
begin

text \<open>
  CONTROL frames (\<open>src/messages/src/lossless_session/control_frames.rs\<close>): manifests,
  \<open>Ready\<close>, \<open>SourceDone\<close> and \<open>Need\<close> reports.  The encoder panics on a control
  value that does not validate.  The repeated items (tree ids, missing-block ranges, need
  blocks) are interpretations of the locale \<open>item_codec\<close>.
\<close>

definition MANIFEST_FIXED_BODY_LEN :: nat where
  "MANIFEST_FIXED_BODY_LEN = 1 + 1 + 1 + 1 + 4 + 8 + 8 + 2 + 2"
definition NEED_FIXED_BODY_LEN :: nat where "NEED_FIXED_BODY_LEN = 4 + 1 + 2 + 1"
definition NEED_RANGE_LEN :: nat where "NEED_RANGE_LEN = 8 + 8"
definition NEED_BLOCK_LEN :: nat where "NEED_BLOCK_LEN = 8 + 2"

section \<open>Items\<close>

definition enc_range :: "MissingBlockRange \<Rightarrow> bytes" where
  "enc_range r = to_be (start_block_id r) @ to_be (end_block_id r)"

definition dec_range :: "bytes \<Rightarrow> MissingBlockRange" where
  "dec_range bs = \<lparr>start_block_id = from_be (slice 0 8 bs), end_block_id = from_be (slice 8 8 bs)\<rparr>"

definition enc_need_block :: "NeedBlock \<Rightarrow> bytes" where
  "enc_need_block b = to_be (nb_block_id b) @ to_be (nb_deficit_symbols b)"

definition dec_need_block :: "bytes \<Rightarrow> NeedBlock" where
  "dec_need_block bs =
     \<lparr>nb_block_id = from_be (slice 0 8 bs), nb_deficit_symbols = from_be (slice 8 2 bs)\<rparr>"

interpretation range_items: item_codec enc_range dec_range 16
proof
  fix bs :: bytes assume "length bs = 16"
  then have "bs = slice 0 8 bs @ slice 8 8 bs" "length (slice 0 8 bs) = 8" "length (slice 8 8 bs) = 8"
    by (simp_all add: slice_def)
  then show "enc_range (dec_range bs) = bs" by (simp add: enc_range_def dec_range_def)
qed (simp_all add: enc_range_def dec_range_def slice_here slice_append_right slice_all)

interpretation need_block_items: item_codec enc_need_block dec_need_block 10
proof
  fix bs :: bytes assume "length bs = 10"
  then have "bs = slice 0 8 bs @ slice 8 2 bs" "length (slice 0 8 bs) = 8" "length (slice 8 2 bs) = 2"
    by (simp_all add: slice_def)
  then show "enc_need_block (dec_need_block bs) = bs"
    by (simp add: enc_need_block_def dec_need_block_def)
qed (simp_all add: enc_need_block_def dec_need_block_def slice_here slice_append_right slice_all)

section \<open>Encoding\<close>

primrec manifest_tree_ids :: "LosslessSessionMode \<Rightarrow> u16 list" where
  "manifest_tree_ids ModePlain = []"
| "manifest_tree_ids (ModeFec fec) = fm_tree_ids fec"

fun control_body_len :: "LosslessSessionControl \<Rightarrow> nat" where
  "control_body_len (Manifest m) =
     MANIFEST_FIXED_BODY_LEN + length (manifest_tree_ids (mf_mode m)) * 2"
| "control_body_len Ready = 0"
| "control_body_len (SourceDone _) = 4"
| "control_body_len (Need _ NeedComplete) = NEED_FIXED_BODY_LEN"
| "control_body_len (Need _ (NeedPlain ranges)) =
     (if ranges = [] then NEED_FIXED_BODY_LEN
      else NEED_FIXED_BODY_LEN + length ranges * NEED_RANGE_LEN)"
| "control_body_len (Need _ (NeedFec blocks)) =
     (if blocks = [] then NEED_FIXED_BODY_LEN
      else NEED_FIXED_BODY_LEN + length blocks * NEED_BLOCK_LEN)"

definition write_manifest :: "LosslessSessionManifest \<Rightarrow> bytes \<Rightarrow> bytes may_panic" where
  "write_manifest m buf =
     (let body_start = HEADER_LEN;
          (scheme, symbols_per_block, tree_ids) =
            (case mf_mode m of
               ModePlain \<Rightarrow> (0, 0, [])
             | ModeFec fec \<Rightarrow> (fm_scheme fec, fm_symbols_per_block fec, fm_tree_ids fec))
      in if length tree_ids > MAX_MANIFEST_TREE_IDS then None
         else
           let buf = put body_start [mode_kind_byte (mode_kind (mf_mode m))] buf;
               buf = put (body_start + 1) [scheme] buf;
               buf = put (body_start + 2) [word_of_nat (length tree_ids)] buf;
               buf = put (body_start + 3) [0] buf;
               buf = put (body_start + 4) (to_be (mf_block_size m)) buf;
               buf = put (body_start + 8) (to_be (mf_total_bytes m)) buf;
               buf = put (body_start + 16) (to_be (mf_total_blocks m)) buf;
               buf = put (body_start + 24) (to_be symbols_per_block) buf;
               buf = put (body_start + 26) (to_be (0 :: u16)) buf;
               pos = body_start + MANIFEST_FIXED_BODY_LEN
           in Some (write_items enc_u16 2 pos tree_ids buf))"

definition write_complete :: "bytes \<Rightarrow> bytes" where
  "write_complete buf =
     put (HEADER_LEN + 5) (drop 1 (to_be (0 :: u32))) (put (HEADER_LEN + 4) [0] buf)"

fun write_report :: "NeedReport \<Rightarrow> bytes \<Rightarrow> bytes may_panic" where
  "write_report NeedComplete buf = Some (write_complete buf)"
| "write_report (NeedPlain ranges) buf =
     (if ranges = [] then Some (write_complete buf)
      else if length ranges > MAX_NEED_RANGES then None
      else
        let body_start = HEADER_LEN;
            buf = put (body_start + 4) [1] buf;
            count = (word_of_nat (length ranges) :: u16);
            buf = put (body_start + 5) (to_be count) buf;
            buf = put (body_start + 7) [0] buf;
            pos = body_start + NEED_FIXED_BODY_LEN
        in Some (write_items enc_range NEED_RANGE_LEN pos ranges buf))"
| "write_report (NeedFec blocks) buf =
     (if blocks = [] then Some (write_complete buf)
      else if length blocks > MAX_NEED_BLOCKS then None
      else
        let body_start = HEADER_LEN;
            buf = put (body_start + 4) [2] buf;
            count = (word_of_nat (length blocks) :: u16);
            buf = put (body_start + 5) (to_be count) buf;
            buf = put (body_start + 7) [0] buf;
            pos = body_start + NEED_FIXED_BODY_LEN
        in Some (write_items enc_need_block NEED_BLOCK_LEN pos blocks buf))"

fun write_control_body ::
    "LosslessSessionControl \<Rightarrow> bytes \<Rightarrow> (bytes \<times> LosslessSessionCtrlKind) may_panic" where
  "write_control_body (Manifest m) buf =
     map_option (\<lambda>buf. (buf, CtrlManifest)) (write_manifest m buf)"
| "write_control_body Ready buf = Some (buf, CtrlReady)"
| "write_control_body (SourceDone round_id) buf =
     Some (put HEADER_LEN (to_be round_id) buf, CtrlSourceDone)"
| "write_control_body (Need round_id report) buf =
     map_option (\<lambda>buf. (buf, CtrlNeed)) (write_report report (put HEADER_LEN (to_be round_id) buf))"

definition encode_control_into :: "bytes \<Rightarrow> u64 \<Rightarrow> LosslessSessionControl \<Rightarrow> bytes may_panic" where
  "encode_control_into buf session_id control =
     (if control_validate control \<noteq> Inr () then None
      else let body_len = control_body_len control in
        if length buf < HEADER_LEN + body_len then None
        else case write_control_body control buf of
            None \<Rightarrow> None
          | Some (buf, ctrl_kind) \<Rightarrow>
              Some (encode_into (session_header KindControl (ctrl_kind_byte ctrl_kind) session_id
                (word_of_nat body_len)) buf))"

definition encode_control :: "u64 \<Rightarrow> LosslessSessionControl \<Rightarrow> bytes may_panic" where
  "encode_control session_id control =
     encode_control_into (replicate (HEADER_LEN + control_body_len control) 0) session_id control"

section \<open>Decoding\<close>

definition decode_manifest_body :: "bytes \<Rightarrow> LosslessSessionControl option" where
  "decode_manifest_body body =
     (if length body < MANIFEST_FIXED_BODY_LEN then None
      else case mode_kind_from_wire (body ! 0) of
        None \<Rightarrow> None
      | Some kind \<Rightarrow>
          let scheme = body ! 1;
              tree_count = unat (body ! 2);
              bsize = from_be (slice 4 4 body);
              bytes_total = from_be (slice 8 8 body);
              blocks_total = from_be (slice 16 8 body);
              symbols_per_block = from_be (slice 24 2 body)
          in if length body \<noteq> MANIFEST_FIXED_BODY_LEN + tree_count * 2 then None
             else
               let tree_ids = read_items dec_u16 2 MANIFEST_FIXED_BODY_LEN tree_count body
               in case (case kind of
                    ModeKindPlain \<Rightarrow>
                      if scheme \<noteq> 0 \<or> symbols_per_block \<noteq> 0 \<or> tree_ids \<noteq> [] then None
                      else Some ModePlain
                  | ModeKindFec \<Rightarrow>
                      Some (ModeFec \<lparr>fm_scheme = scheme, fm_symbols_per_block = symbols_per_block,
                        fm_tree_ids = tree_ids\<rparr>)) of
                    None \<Rightarrow> None
                  | Some mode \<Rightarrow>
                      let m = \<lparr>mf_block_size = bsize, mf_total_bytes = bytes_total,
                            mf_total_blocks = blocks_total, mf_mode = mode\<rparr>
                      in if manifest_validate m \<noteq> Inr () then None else Some (Manifest m))"

definition decode_need_body :: "bytes \<Rightarrow> LosslessSessionControl option" where
  "decode_need_body body =
     (if length body < NEED_FIXED_BODY_LEN then None
      else
        let round_id = from_be (slice 0 4 body);
            report_kind = body ! 4;
            report_count = unat (from_be (slice 5 2 body) :: u16)
        in if body ! 7 \<noteq> 0 then None
           else case
             (if report_kind = 0 then
                if report_count \<noteq> 0 \<or> length body \<noteq> NEED_FIXED_BODY_LEN then None
                else Some NeedComplete
              else if report_kind = 1 then
                if report_count = 0 \<or> report_count > MAX_NEED_RANGES then None
                else if length body \<noteq> NEED_FIXED_BODY_LEN + report_count * NEED_RANGE_LEN then None
                else Some (NeedPlain
                  (read_items dec_range NEED_RANGE_LEN NEED_FIXED_BODY_LEN report_count body))
              else if report_kind = 2 then
                if report_count = 0 \<or> report_count > MAX_NEED_BLOCKS then None
                else if length body \<noteq> NEED_FIXED_BODY_LEN + report_count * NEED_BLOCK_LEN then None
                else Some (NeedFec
                  (read_items dec_need_block NEED_BLOCK_LEN NEED_FIXED_BODY_LEN report_count body))
              else None) of
               None \<Rightarrow> None
             | Some report \<Rightarrow>
                 if need_report_validate report \<noteq> Inr () then None
                 else Some (Need round_id report))"

definition decode_control :: "bytes \<Rightarrow> (LosslessSessionHeader \<times> LosslessSessionControl) option" where
  "decode_control buf =
     (case decode_from buf of
        None \<Rightarrow> None
      | Some (hdr, off) \<Rightarrow>
          if h_kind hdr \<noteq> KindControl then None
          else if length buf < off + unat (h_body_len hdr) then None
          else
            let body = slice off (unat (h_body_len hdr)) buf in
            case
              (if h_ctrl_kind hdr = ctrl_kind_byte CtrlManifest then decode_manifest_body body
               else if h_ctrl_kind hdr = ctrl_kind_byte CtrlReady then
                 if body \<noteq> [] then None else Some Ready
               else if h_ctrl_kind hdr = ctrl_kind_byte CtrlSourceDone then
                 if length body \<noteq> 4 then None else Some (SourceDone (from_be (slice 0 4 body)))
               else if h_ctrl_kind hdr = ctrl_kind_byte CtrlNeed then decode_need_body body
               else None) of
              None \<Rightarrow> None
            | Some ctrl \<Rightarrow>
                if control_validate ctrl \<noteq> Inr () then None else Some (hdr, ctrl))"

section \<open>The bytes of each control body\<close>

definition manifest_bytes :: "LosslessSessionManifest \<Rightarrow> bytes" where
  "manifest_bytes m =
     (let (scheme, symbols, trees) = (case mf_mode m of
            ModePlain \<Rightarrow> (0, 0, [])
          | ModeFec fec \<Rightarrow> (fm_scheme fec, fm_symbols_per_block fec, fm_tree_ids fec))
      in [mode_kind_byte (mode_kind (mf_mode m)), scheme, word_of_nat (length trees), 0] @
         to_be (mf_block_size m) @ to_be (mf_total_bytes m) @ to_be (mf_total_blocks m) @
         to_be (symbols :: u16) @ to_be (0 :: u16) @ concat (map enc_u16 trees))"

fun report_bytes :: "NeedReport \<Rightarrow> bytes" where
  "report_bytes NeedComplete = [0, 0, 0, 0]"
| "report_bytes (NeedPlain rs) =
     (if rs = [] then [0, 0, 0, 0]
      else [1] @ to_be (word_of_nat (length rs) :: u16) @ [0] @ concat (map enc_range rs))"
| "report_bytes (NeedFec bs) =
     (if bs = [] then [0, 0, 0, 0]
      else [2] @ to_be (word_of_nat (length bs) :: u16) @ [0] @ concat (map enc_need_block bs))"

fun control_bytes :: "LosslessSessionControl \<Rightarrow> bytes" where
  "control_bytes (Manifest m) = manifest_bytes m"
| "control_bytes Ready = []"
| "control_bytes (SourceDone round_id) = to_be round_id"
| "control_bytes (Need round_id report) = to_be round_id @ report_bytes report"

fun ctrl_kind_of :: "LosslessSessionControl \<Rightarrow> LosslessSessionCtrlKind" where
  "ctrl_kind_of (Manifest _) = CtrlManifest"
| "ctrl_kind_of Ready = CtrlReady"
| "ctrl_kind_of (SourceDone _) = CtrlSourceDone"
| "ctrl_kind_of (Need _ _) = CtrlNeed"

lemmas body_len_defs = MANIFEST_FIXED_BODY_LEN_def NEED_FIXED_BODY_LEN_def NEED_RANGE_LEN_def
  NEED_BLOCK_LEN_def

lemma length_manifest_bytes [wire_length]:
  "length (manifest_bytes m) = 28 + length (manifest_tree_ids (mf_mode m)) * 2"
  by (cases "mf_mode m") (simp_all add: manifest_bytes_def u16_items.length_items)

lemma length_control_bytes [wire_length]: "length (control_bytes c) = control_body_len c"
proof (cases c)
  case (Need r report)
  then show ?thesis
    by (cases report)
      (simp_all add: body_len_defs range_items.length_items need_block_items.length_items)
qed (simp_all add: body_len_defs length_manifest_bytes)

lemma be_digits_zero: "be_digits n 0 = replicate n 0"
  by (induction n) (simp_all add: replicate_append_same)

lemma zero_bytes: "drop (Suc 0) (to_be (0 :: u32)) = [0, 0, 0]"
  by (simp add: to_be_def be_digits_zero numeral_3_eq_3)

lemma write_manifest_layout [wire_layout]:
  assumes "manifest_ok m" "length pre = 20"
  shows "write_manifest m (pre @ replicate n 0) =
    Some (pre @ manifest_bytes m @ replicate (n - length (manifest_bytes m)) 0)"
proof -
  have "length (manifest_tree_ids (mf_mode m)) \<le> MAX_MANIFEST_TREE_IDS"
    using assms(1)
    by (auto simp: manifest_ok_def fec_mode_ok_def MAX_MANIFEST_TREE_IDS_def
        split: LosslessSessionMode.splits)
  then show ?thesis
    using assms(2)
    by (cases "mf_mode m")
      (simp_all add: write_manifest_def Let_def put_fill_replicate body_len_defs
        u16_items.write_items_fill length_manifest_bytes del: append_assoc,
       simp_all add: manifest_bytes_def)
qed

lemma write_complete_layout:
  "length pre = 24 \<Longrightarrow>
     write_complete (pre @ replicate n 0) = pre @ [0, 0, 0, 0] @ replicate (n - 4) 0"
  by (simp add: write_complete_def zero_bytes put_fill_replicate del: append_assoc) simp

lemma write_report_layout [wire_layout]:
  assumes "report_ok r" "length pre = 24"
  shows "write_report r (pre @ replicate n 0) =
    Some (pre @ report_bytes r @ replicate (n - length (report_bytes r)) 0)"
proof (cases r)
  case NeedComplete
  then show ?thesis using assms by (simp add: write_complete_layout)
next
  case (NeedPlain rs)
  then show ?thesis using assms
    by (cases "rs = []", simp add: write_complete_layout)
      (simp add: put_fill_replicate body_len_defs
        range_items.write_items_fill range_items.length_items Let_def not_less
        del: append_assoc)
next
  case (NeedFec bs)
  then show ?thesis using assms
    by (cases "bs = []", simp add: write_complete_layout)
      (simp add: put_fill_replicate body_len_defs
        need_block_items.write_items_fill need_block_items.length_items Let_def not_less
        del: append_assoc)
qed

section \<open>Encoding a control frame\<close>

definition control_frame :: "u64 \<Rightarrow> LosslessSessionControl \<Rightarrow> bytes" where
  "control_frame session_id c =
     header_bytes (session_header KindControl (ctrl_kind_byte (ctrl_kind_of c)) session_id
       (word_of_nat (control_body_len c))) @ control_bytes c"

lemma write_control_body_layout:
  assumes "control_ok c" "length pre = 20"
  shows "write_control_body c (pre @ replicate (control_body_len c) 0) =
    Some (pre @ control_bytes c, ctrl_kind_of c)"
proof (cases c)
  case (Need r report)
  then have "control_body_len c = 4 + length (report_bytes report)"
    using length_control_bytes [of c] by simp
  then show ?thesis
    using Need assms
    by (simp add: put_fill_replicate write_report_layout del: append_assoc)
qed (use assms length_control_bytes [of c] in
  \<open>simp_all add: write_manifest_layout put_fill_replicate\<close>)

lemma control_body_len_bound: "control_ok c \<Longrightarrow> control_body_len c < 2 ^ 20"
proof (cases c)
  case (Manifest m)
  moreover assume "control_ok c"
  ultimately show ?thesis
    by (auto simp: manifest_ok_def fec_mode_ok_def MAX_MANIFEST_TREE_IDS_def body_len_defs
        split: LosslessSessionMode.splits)
next
  case (Need r report)
  moreover assume "control_ok c"
  ultimately show ?thesis
    by (cases report) (auto simp: MAX_NEED_RANGES_def MAX_NEED_BLOCKS_def body_len_defs)
qed (simp_all)

lemma encode_control_layout:
  "encode_control session_id c = (if control_ok c then Some (control_frame session_id c) else None)"
proof (cases "control_ok c")
  case True
  define zs where "zs = replicate 20 (0 :: u8)"
  have zs: "length zs = 20" "replicate (20 + n) 0 = zs @ replicate n 0" for n
    by (simp_all only: zs_def length_replicate replicate_add)
  have v: "control_validate c = Inr ()" using True by (simp add: control_validate_iff)
  show ?thesis
    using True zs(1)
    by (simp only: encode_control_def encode_control_into_def v HEADER_LEN_eq zs(2)
        write_control_body_layout [OF True zs(1)])
      (simp add: encode_into_layout control_frame_def Let_def)
next
  case False
  then have "control_validate c \<noteq> Inr ()" by (simp add: control_validate_iff)
  then show ?thesis using False by (simp add: encode_control_def encode_control_into_def)
qed

section \<open>Decoding a control frame\<close>

text \<open>The wire has one \<open>Complete\<close> report: empty range and block lists are encoded as it.\<close>

fun canonical_report :: "NeedReport \<Rightarrow> NeedReport" where
  "canonical_report (NeedPlain []) = NeedComplete"
| "canonical_report (NeedFec []) = NeedComplete"
| "canonical_report r = r"

fun canonical_control :: "LosslessSessionControl \<Rightarrow> LosslessSessionControl" where
  "canonical_control (Need round_id r) = Need round_id (canonical_report r)"
| "canonical_control c = c"

lemma report_ok_canonical: "report_ok r \<Longrightarrow> report_ok (canonical_report r)"
  by (cases r rule: canonical_report.cases) simp_all

lemma control_ok_canonical: "control_ok c \<Longrightarrow> control_ok (canonical_control c)"
  by (cases c) (simp_all add: report_ok_canonical)

lemma unat_byte_length: "length xs \<le> 255 \<Longrightarrow> unat (word_of_nat (length xs) :: u8) = length xs"
  by (rule unat_of_nat_small) simp

lemma unat_u16_length: "length xs \<le> 65535 \<Longrightarrow> unat (word_of_nat (length xs) :: u16) = length xs"
  by (rule unat_of_nat_small) simp

lemma slice_numeral_Cons [simp]:
  "slice (numeral k) n (x # xs) = slice (pred_numeral k) n xs"
  by (simp add: slice_def numeral_eq_Suc)

lemma slice_Suc_Cons [simp]: "slice (Suc k) n (x # xs) = slice k n xs"
  by (simp add: slice_def)

definition manifest_body :: "LosslessSessionModeKind \<Rightarrow> u8 \<Rightarrow> u16 \<Rightarrow> u16 list \<Rightarrow> u32 \<Rightarrow> u64 \<Rightarrow> u64 \<Rightarrow> bytes" where
  "manifest_body k scheme symbols trees bsize n_bytes n_blocks =
     [mode_kind_byte k, scheme, word_of_nat (length trees), 0] @
     to_be bsize @ to_be n_bytes @ to_be n_blocks @ to_be symbols @ to_be (0 :: u16) @
     concat (map enc_u16 trees)"

lemma manifest_body_fields:
  fixes k scheme symbols trees bsize n_bytes n_blocks
  defines "b \<equiv> manifest_body k scheme symbols trees bsize n_bytes n_blocks"
  shows "length b = 28 + length trees * 2"
    "b ! 0 = mode_kind_byte k" "b ! Suc 0 = scheme" "b ! 2 = word_of_nat (length trees)"
    "slice 4 4 b = to_be bsize" "slice 8 8 b = to_be n_bytes" "slice 16 8 b = to_be n_blocks"
    "slice 24 2 b = to_be symbols" "read_items dec_u16 2 28 (length trees) b = trees"
proof -
  let ?pre = "[mode_kind_byte k, scheme, word_of_nat (length trees), 0] @
     to_be bsize @ to_be n_bytes @ to_be n_blocks @ to_be symbols @ to_be (0 :: u16)"
  show "read_items dec_u16 2 28 (length trees) b = trees"
    using u16_items.read_items_written [of ?pre 28 trees "[]"]
    by (simp add: b_def manifest_body_def)
qed (simp_all add: b_def manifest_body_def u16_items.length_items slice_append_right slice_here)

lemma manifest_bytes_body:
  "manifest_bytes m = (case mf_mode m of
     ModePlain \<Rightarrow>
       manifest_body ModeKindPlain 0 0 [] (mf_block_size m) (mf_total_bytes m) (mf_total_blocks m)
   | ModeFec fec \<Rightarrow>
       manifest_body ModeKindFec (fm_scheme fec) (fm_symbols_per_block fec) (fm_tree_ids fec)
         (mf_block_size m) (mf_total_bytes m) (mf_total_blocks m))"
  by (simp add: manifest_bytes_def manifest_body_def split: LosslessSessionMode.splits)

lemma decode_manifest_bytes:
  assumes "manifest_ok m"
  shows "decode_manifest_body (manifest_bytes m) = Some (Manifest m)"
proof (cases "mf_mode m")
  case ModePlain
  have m: "\<lparr>mf_block_size = mf_block_size m, mf_total_bytes = mf_total_bytes m,
      mf_total_blocks = mf_total_blocks m, mf_mode = ModePlain\<rparr> = m"
    using ModePlain by simp
  show ?thesis
    using assms
    by (simp add: manifest_bytes_body ModePlain decode_manifest_body_def body_len_defs
        manifest_body_fields Let_def)
      (simp add: manifest_validate_iff m)
next
  case (ModeFec fec)
  have n: "unat (word_of_nat (length (fm_tree_ids fec)) :: u8) = length (fm_tree_ids fec)"
    using assms ModeFec
    by (intro unat_byte_length) (simp add: manifest_ok_def fec_mode_ok_def MAX_MANIFEST_TREE_IDS_def)
  have m: "\<lparr>mf_block_size = mf_block_size m, mf_total_bytes = mf_total_bytes m,
      mf_total_blocks = mf_total_blocks m, mf_mode = ModeFec
        \<lparr>fm_scheme = fm_scheme fec, fm_symbols_per_block = fm_symbols_per_block fec,
         fm_tree_ids = fm_tree_ids fec\<rparr>\<rparr> = m"
    using ModeFec by (cases m; cases fec) simp
  show ?thesis
    using assms
    by (simp add: manifest_bytes_body ModeFec decode_manifest_body_def body_len_defs
        manifest_body_fields n Let_def)
      (simp add: manifest_validate_iff m)
qed

lemma decode_need_ranges:
  assumes "report_ok (NeedPlain xs)" "xs \<noteq> []"
  shows "decode_need_body (to_be round_id @ report_bytes (NeedPlain xs)) = Some (Need round_id (NeedPlain xs))"
proof -
  let ?n = "to_be (word_of_nat (length xs) :: u16)"
  let ?pre = "to_be round_id @ [1] @ ?n @ [0]"
  define body where "body = ?pre @ concat (map enc_range xs)"
  have bytes: "to_be round_id @ report_bytes (NeedPlain xs) = body"
    using assms by (simp add: body_def)
  have len: "length xs \<le> MAX_NEED_RANGES" "0 < length xs" using assms by simp_all
  then have n: "unat (word_of_nat (length xs) :: u16) = length xs"
    by (intro unat_u16_length) (simp add: MAX_NEED_RANGES_def)
  have f: "slice 0 4 body = to_be round_id" "body ! 4 = 1" "slice 5 2 body = ?n" "body ! 7 = 0"
    "length body = 8 + length xs * 16"
    by (simp_all add: body_def slice_here slice_append_right nth_append range_items.length_items)
  have items: "read_items dec_range 16 8 (length xs) body = xs"
    using range_items.read_items_written [of ?pre 8 xs "[]"] by (simp add: body_def)
  have v: "need_report_validate (NeedPlain xs) = Inr ()"
    using assms by (simp only: need_report_validate_iff)
  show ?thesis
    unfolding bytes decode_need_body_def body_len_defs
    using len by (simp add: f n items v del: need_report_validate.simps)
qed

lemma decode_need_blocks:
  assumes "report_ok (NeedFec xs)" "xs \<noteq> []"
  shows "decode_need_body (to_be round_id @ report_bytes (NeedFec xs)) = Some (Need round_id (NeedFec xs))"
proof -
  let ?n = "to_be (word_of_nat (length xs) :: u16)"
  let ?pre = "to_be round_id @ [2] @ ?n @ [0]"
  define body where "body = ?pre @ concat (map enc_need_block xs)"
  have bytes: "to_be round_id @ report_bytes (NeedFec xs) = body"
    using assms by (simp add: body_def)
  have len: "length xs \<le> MAX_NEED_BLOCKS" "0 < length xs" using assms by simp_all
  then have n: "unat (word_of_nat (length xs) :: u16) = length xs"
    by (intro unat_u16_length) (simp add: MAX_NEED_BLOCKS_def)
  have f: "slice 0 4 body = to_be round_id" "body ! 4 = 2" "slice 5 2 body = ?n" "body ! 7 = 0"
    "length body = 8 + length xs * 10"
    by (simp_all add: body_def slice_here slice_append_right nth_append need_block_items.length_items)
  have items: "read_items dec_need_block 10 8 (length xs) body = xs"
    using need_block_items.read_items_written [of ?pre 8 xs "[]"] by (simp add: body_def)
  have v: "need_report_validate (NeedFec xs) = Inr ()"
    using assms by (simp only: need_report_validate_iff)
  show ?thesis
    unfolding bytes decode_need_body_def body_len_defs
    using len by (simp add: f n items v del: need_report_validate.simps)
qed

lemma decode_need_complete:
  "decode_need_body (to_be round_id @ [0, 0, 0, 0]) = Some (Need round_id NeedComplete)"
proof -
  have "(from_be (slice 5 2 (to_be round_id @ [0, 0, 0, 0])) :: u16) = 0"
    by (simp add: slice_append_right from_be_def slice_def)
  then show ?thesis
    by (simp add: decode_need_body_def body_len_defs slice_here nth_append)
qed

lemma decode_need_bytes:
  assumes "report_ok r"
  shows "decode_need_body (to_be round_id @ report_bytes r) = Some (Need round_id (canonical_report r))"
proof (cases r)
  case (NeedPlain rs)
  then show ?thesis
    using assms decode_need_ranges [of rs round_id] decode_need_complete
    by (cases rs) simp_all
next
  case (NeedFec bs)
  then show ?thesis
    using assms decode_need_blocks [of bs round_id] decode_need_complete
    by (cases bs) simp_all
qed (simp add: decode_need_complete)

lemma decode_control_frame:
  assumes "control_ok c"
  shows "decode_control (control_frame session_id c) =
    Some (session_header KindControl (ctrl_kind_byte (ctrl_kind_of c)) session_id
      (word_of_nat (control_body_len c)), canonical_control c)"
proof -
  define frame where "frame = control_frame session_id c"
  define L where "L = control_body_len c"
  have n: "unat (word_of_nat L :: u32) = L"
    using control_body_len_bound [OF assms] by (intro unat_of_nat_small) (simp add: L_def)
  have body: "slice 20 L frame = control_bytes c" "length frame = 20 + L"
    by (simp_all add: frame_def L_def control_frame_def slice_append_right slice_all
        length_control_bytes)
  have hd: "decode_from frame =
      Some (session_header KindControl (ctrl_kind_byte (ctrl_kind_of c)) session_id (word_of_nat L), 20)"
    by (simp add: frame_def L_def control_frame_def)
  have v: "control_validate (canonical_control c) = Inr ()"
    using assms by (simp add: control_validate_iff control_ok_canonical)
  have "decode_control frame = Some (session_header KindControl (ctrl_kind_byte (ctrl_kind_of c))
      session_id (word_of_nat L), canonical_control c)"
    using assms v
    by (cases c)
      (simp_all add: decode_control_def hd n body slice_all decode_manifest_bytes decode_need_bytes)
  then show ?thesis by (simp add: frame_def L_def)
qed

section \<open>Properties\<close>

lemma decode_control_valid:
  assumes "decode_control buf = Some (hdr, c)"
  shows "control_ok c" "canonical_control c = c"
proof -
  show "control_ok c"
    using assms
    by (auto simp: decode_control_def Let_def control_validate_iff split: option.splits if_splits)
  show "canonical_control c = c"
  proof (cases c)
    case (Need r report)
    then have "\<exists>body. decode_need_body body = Some (Need r report)"
      using assms
      by (auto simp: decode_control_def decode_manifest_body_def Let_def
          split: option.splits if_splits LosslessSessionModeKind.splits)
    then obtain body where b: "decode_need_body body = Some (Need r report)" by blast
    have ne: "n \<noteq> 0 \<Longrightarrow> read_items dec w p n xs \<noteq> []" for n w p xs and dec :: "bytes \<Rightarrow> 'x"
      by (cases n) simp_all
    have "report = NeedComplete \<or> (\<exists>rs. report = NeedPlain rs \<and> rs \<noteq> []) \<or>
        (\<exists>bs. report = NeedFec bs \<and> bs \<noteq> [])"
      using b by (auto simp: decode_need_body_def Let_def ne split: option.splits if_splits)
    then show ?thesis using Need by (auto simp: neq_Nil_conv)
  qed simp_all
qed

text \<open>C40. Control frames round-trip: a control value that validates is encoded, and the
  frame decodes to the value in canonical form (an empty range or block list is
  \<open>Complete\<close>) with its session; encoding any other value panics.\<close>

theorem control_roundtrip:
  "if control_validate c = Inr ()
   then \<exists>frame hdr. encode_control session_id c = Some frame \<and>
     decode_control frame = Some (hdr, canonical_control c) \<and> h_session_id hdr = session_id \<and>
     length frame = HEADER_LEN + control_body_len c
   else encode_control session_id c = None"
  by (simp add: control_validate_iff encode_control_layout decode_control_frame)
    (simp add: control_frame_def length_control_bytes)

text \<open>Whatever bytes arrive, a decoded control value has passed validation and is in
  canonical form, so it can be sent on: encoding it again gives a frame that decodes to it.\<close>

theorem decode_control_sound:
  assumes "decode_control buf = Some (hdr, c)"
  shows "control_validate c = Inr () \<and> canonical_control c = c \<and>
    (\<exists>frame hdr'. encode_control session_id c = Some frame \<and> decode_control frame = Some (hdr', c))"
  using decode_control_valid [OF assms] decode_control_frame [of c session_id]
  by (auto simp: control_validate_iff encode_control_layout)

lemma decode_control_sound_witness:
  "control_validate (SourceDone 7) = Inr () \<and> canonical_control (SourceDone 7) = SourceDone 7"
  using decode_control_sound [of "control_frame 77 (SourceDone 7)" _ "SourceDone 7" 77]
    decode_control_frame [of "SourceDone 7" 77] by simp

lemma control_frame_not_block [simp]:
  "decode_block_data (control_frame s c) = None" "decode_block_symbol (control_frame s c) = None"
  by (simp_all add: control_frame_def decode_block_data_def decode_block_symbol_def)

lemma block_frame_not_control [simp]:
  "decode_control (block_data_bytes s b p) = None"
  "decode_control (encode_block_symbol s b i t p) = None"
  "decode_block_symbol (block_data_bytes s b p) = None"
  by (simp_all add: decode_control_def decode_block_symbol_def decode_from_block_bytes
      encode_block_symbol_def wire_layout)

text \<open>The three frame decoders are disjoint: a control frame is neither a block frame
  nor a symbol frame, and distinct canonical messages or sessions have distinct frames.\<close>

theorem control_frames_separate:
  assumes "encode_control s c = Some frame"
  shows "decode_block_data frame = None \<and> decode_block_symbol frame = None \<and>
    (\<forall>s' c'. encode_control s' c' = Some frame \<longrightarrow> s' = s \<and> canonical_control c' = canonical_control c)"
proof -
  have ok: "control_ok c" "frame = control_frame s c"
    using assms by (auto simp: encode_control_layout split: if_splits)
  have "decode_block_data frame = None" "decode_block_symbol frame = None"
    by (simp_all add: ok(2))
  moreover have "s' = s \<and> canonical_control c' = canonical_control c"
    if "encode_control s' c' = Some frame" for s' c'
  proof -
    have "control_ok c'" "frame = control_frame s' c'"
      using that by (auto simp: encode_control_layout split: if_splits)
    then have e: "Some (session_header KindControl (ctrl_kind_byte (ctrl_kind_of c)) s
          (word_of_nat (control_body_len c)), canonical_control c) =
        Some (session_header KindControl (ctrl_kind_byte (ctrl_kind_of c')) s'
          (word_of_nat (control_body_len c')), canonical_control c')"
      using decode_control_frame ok by metis
    then have "h_session_id (session_header KindControl (ctrl_kind_byte (ctrl_kind_of c)) s
          (word_of_nat (control_body_len c))) =
        h_session_id (session_header KindControl (ctrl_kind_byte (ctrl_kind_of c')) s'
          (word_of_nat (control_body_len c')))"
      by (metis fst_conv option.inject)
    then show ?thesis using e by simp
  qed
  ultimately show ?thesis by blast
qed

lemma control_frames_separate_witness:
  "decode_block_data (control_frame 5 Ready) = None \<and> decode_block_symbol (control_frame 5 Ready) = None"
  using control_frames_separate [of 5 Ready "control_frame 5 Ready"]
  by (simp add: encode_control_layout)

end
