(* ===== verification/Session_Plan.thy ===== *)
theory Session_Plan
  imports Wire_Validation
begin

text \<open>
  Block and symbol geometry (\<open>src/dataplane/src/node/session/plan.rs\<close>) and the
  materialisation of block payloads and source symbols from the source buffer
  (\<open>BlockSource\<close> in \<open>src/dataplane/src/node/session/sender/mod.rs\<close>).
\<close>

datatype PlanError = BlockSizeZero | SymbolsPerBlockZero

record BlockPlan =
  bp_total_bytes :: u64
  bp_block_size :: usize
  bp_total_blocks :: u64

record BlockSpan =
  sp_offset :: u64
  sp_len :: usize

record SymbolGeometry =
  sg_symbols_per_block :: u16
  sg_symbol_size :: usize

definition block_plan_new :: "u64 \<Rightarrow> usize \<Rightarrow> PlanError + BlockPlan" where
  "block_plan_new n_bytes bsize =
     (if bsize = 0 then Inl BlockSizeZero
      else
        let n_blocks = (if n_bytes = 0 then 0 else word_div_ceil n_bytes bsize)
        in Inr \<lparr>bp_total_bytes = n_bytes, bp_block_size = bsize, bp_total_blocks = n_blocks\<rparr>)"

definition contains_block :: "BlockPlan \<Rightarrow> u64 \<Rightarrow> bool" where
  "contains_block plan block_id \<longleftrightarrow> block_id < bp_total_blocks plan"

definition last_block_id :: "BlockPlan \<Rightarrow> u64 option" where
  "last_block_id plan = checked_sub (bp_total_blocks plan) 1"

definition block_offset :: "BlockPlan \<Rightarrow> u64 \<Rightarrow> u64 option" where
  "block_offset plan block_id =
     (if \<not> contains_block plan block_id then None
      else checked_mul block_id (bp_block_size plan))"

definition block_len :: "BlockPlan \<Rightarrow> u64 \<Rightarrow> usize option" where
  "block_len plan block_id =
     (if \<not> contains_block plan block_id then None
      else
        let is_final = (Some block_id = last_block_id plan)
        in if \<not> is_final then Some (bp_block_size plan)
           else
             let tail = bp_total_bytes plan mod bp_block_size plan
             in if tail = 0 then Some (bp_block_size plan) else Some tail)"

definition block_span :: "BlockPlan \<Rightarrow> u64 \<Rightarrow> BlockSpan option" where
  "block_span plan block_id =
     (case block_offset plan block_id of
        None \<Rightarrow> None
      | Some off \<Rightarrow>
          (case block_len plan block_id of
             None \<Rightarrow> None
           | Some len \<Rightarrow> Some \<lparr>sp_offset = off, sp_len = len\<rparr>))"

definition symbol_geometry_new :: "usize \<Rightarrow> u16 \<Rightarrow> PlanError + SymbolGeometry" where
  "symbol_geometry_new bsize symbols_per_block =
     (if bsize = 0 then Inl BlockSizeZero
      else if symbols_per_block = 0 then Inl SymbolsPerBlockZero
      else
        let source_symbols = (ucast symbols_per_block :: usize);
            symbol_size = word_div_ceil bsize source_symbols
        in Inr \<lparr>sg_symbols_per_block = symbols_per_block, sg_symbol_size = symbol_size\<rparr>)"

definition symbol_geometry :: "BlockPlan \<Rightarrow> u16 \<Rightarrow> PlanError + SymbolGeometry" where
  "symbol_geometry plan symbols_per_block = symbol_geometry_new (bp_block_size plan) symbols_per_block"

definition source_symbols :: "SymbolGeometry \<Rightarrow> nat" where
  "source_symbols g = unat (sg_symbols_per_block g)"

definition symbol_size :: "SymbolGeometry \<Rightarrow> nat" where
  "symbol_size g = unat (sg_symbol_size g)"

section \<open>Reading the source buffer\<close>

text \<open>A source shorter than the planned object is padded with zeros.\<close>

definition block_payload :: "bytes \<Rightarrow> BlockSpan \<Rightarrow> bytes" where
  "block_payload src span =
     (let len = unat (sp_len span); off = unat (sp_offset span)
      in if off + len \<le> length src then slice off len src
         else
           let out = replicate len 0
           in if off < length src then
                let available = min len (length src - off)
                in put 0 (slice off available src) out
              else out)"

definition padded_symbol_bytes :: "bytes \<Rightarrow> BlockSpan \<Rightarrow> SymbolGeometry \<Rightarrow> bytes" where
  "padded_symbol_bytes src span g =
     (let block = block_payload src span;
          total_symbol_bytes = source_symbols g * symbol_size g;
          padded = replicate total_symbol_bytes 0;
          copy_len = min (length block) total_symbol_bytes
      in put 0 (take copy_len block) padded)"

definition block_source_symbols :: "bytes \<Rightarrow> BlockSpan \<Rightarrow> SymbolGeometry \<Rightarrow> bytes list" where
  "block_source_symbols src span g =
     (let padded = padded_symbol_bytes src span g; n = symbol_size g
      in map (\<lambda>idx. slice (idx * n) n padded) [0 ..< source_symbols g])"

section \<open>The plan as arithmetic\<close>

definition plan_ok :: "BlockPlan \<Rightarrow> bool" where
  "plan_ok plan \<longleftrightarrow>
     bp_block_size plan \<noteq> 0 \<and>
     unat (bp_total_blocks plan) =
       nat_div_ceil (unat (bp_total_bytes plan)) (unat (bp_block_size plan))"

lemma block_plan_new_ok:
  assumes "block_plan_new n_bytes bsize = Inr plan"
  shows "plan_ok plan" "bp_total_bytes plan = n_bytes" "bp_block_size plan = bsize"
  using assms
  by (auto simp: block_plan_new_def plan_ok_def unat_word_div_ceil nat_div_ceil_def [of 0]
      split: if_splits)

lemma plan_ok_blocks:
  assumes "plan_ok plan"
  shows "0 < unat (bp_block_size plan)"
    and "b < unat (bp_total_blocks plan) \<longleftrightarrow> b * unat (bp_block_size plan) < unat (bp_total_bytes plan)"
proof -
  show p: "0 < unat (bp_block_size plan)" using assms by (simp add: plan_ok_def unat_gt_0)
  show "b < unat (bp_total_blocks plan) \<longleftrightarrow> b * unat (bp_block_size plan) < unat (bp_total_bytes plan)"
    using assms p by (simp add: plan_ok_def less_nat_div_ceil_iff)
qed

lemma block_offset_eq:
  assumes "plan_ok plan" "b < bp_total_blocks plan"
  obtains off where "block_offset plan b = Some off" "unat off = unat b * unat (bp_block_size plan)"
proof -
  have "unat b * unat (bp_block_size plan) < unat (bp_total_bytes plan)"
    using assms plan_ok_blocks(2) by (simp add: word_less_nat_alt)
  also have "\<dots> < 2 ^ 64" by (rule unat_u64_bound)
  finally have lt: "unat b * unat (bp_block_size plan) < 2 ^ 64" .
  then have "unat (b * bp_block_size plan) = unat b * unat (bp_block_size plan)"
    by (simp add: unat_word_ariths)
  with lt show ?thesis
    using assms by (intro that) (auto simp: block_offset_def contains_block_def checked_mul_def)
qed

lemma is_last_block:
  assumes "b < bp_total_blocks plan"
  shows "last_block_id plan = Some b \<longleftrightarrow> unat (bp_total_blocks plan) = Suc (unat b)"
proof -
  have "1 \<le> bp_total_blocks plan" using assms
    by (metis (no_types) linorder_not_less word_less_1 word_not_simps(1))
  moreover have "bp_total_blocks plan - 1 = b \<longleftrightarrow> bp_total_blocks plan = b + 1"
    by (metis add_diff_cancel_right' diff_add_cancel)
  moreover have "bp_total_blocks plan = b + 1 \<longleftrightarrow> unat (bp_total_blocks plan) = Suc (unat b)"
    using unat_Suc_word [OF assms] by (simp add: word_unat_eq_iff)
  ultimately show ?thesis by (auto simp: last_block_id_def checked_sub_def)
qed

lemma block_len_eq:
  assumes "plan_ok plan" "b < bp_total_blocks plan"
  obtains len where "block_len plan b = Some len"
    "unat len = block_bytes (unat (bp_total_bytes plan)) (unat (bp_block_size plan)) (unat b)"
proof -
  let ?t = "unat (bp_total_bytes plan)" and ?s = "unat (bp_block_size plan)"
  note p = plan_ok_blocks(1) [OF assms(1)]
  have lo: "unat b * ?s < ?t" using assms plan_ok_blocks(2) by (simp add: word_less_nat_alt)
  show ?thesis
  proof (cases "last_block_id plan = Some b")
    case True
    then have "?t \<le> Suc (unat b) * ?s"
      using is_last_block [OF assms(2)] plan_ok_blocks(2) [OF assms(1), of "Suc (unat b)"] by simp
    then have "block_bytes ?t ?s (unat b) = (if ?t mod ?s = 0 then ?s else ?t mod ?s)"
      by (rule block_bytes_last [OF p lo])
    moreover have "bp_total_bytes plan mod bp_block_size plan = 0 \<longleftrightarrow> ?t mod ?s = 0"
      by (metis unat_eq_0 unat_mod)
    ultimately show ?thesis
      using True assms(2)
      by (intro that [of "if bp_total_bytes plan mod bp_block_size plan = 0 then bp_block_size plan
          else bp_total_bytes plan mod bp_block_size plan"])
        (simp_all add: block_len_def contains_block_def unat_mod)
  next
    case False
    then have "Suc (unat b) < unat (bp_total_blocks plan)"
      using is_last_block [OF assms(2)] assms(2) by (simp add: word_less_nat_alt)
    then have "block_bytes ?t ?s (unat b) = ?s"
      using plan_ok_blocks(2) [OF assms(1), of "Suc (unat b)"] by (simp add: block_bytes_inner)
    then show ?thesis
      using False assms(2)
      by (intro that [of "bp_block_size plan"]) (auto simp: block_len_def contains_block_def)
  qed
qed

lemma block_span_eq:
  assumes "plan_ok plan" "b < bp_total_blocks plan"
  obtains span where "block_span plan b = Some span"
    "unat (sp_offset span) = unat b * unat (bp_block_size plan)"
    "unat (sp_len span) = block_bytes (unat (bp_total_bytes plan)) (unat (bp_block_size plan)) (unat b)"
proof -
  obtain off len where "block_offset plan b = Some off" "block_len plan b = Some len"
    "unat off = unat b * unat (bp_block_size plan)"
    "unat len = block_bytes (unat (bp_total_bytes plan)) (unat (bp_block_size plan)) (unat b)"
    using block_offset_eq [OF assms] block_len_eq [OF assms] by metis
  then show ?thesis
    by (intro that [of "\<lparr>sp_offset = off, sp_len = len\<rparr>"]) (simp_all add: block_span_def)
qed

lemma block_span_None: "\<not> b < bp_total_blocks plan \<Longrightarrow> block_span plan b = None"
  by (simp add: block_span_def block_offset_def contains_block_def)

lemma block_span_Some:
  assumes "plan_ok plan" "block_span plan b = Some span"
  shows "b < bp_total_blocks plan"
    "unat (sp_offset span) = unat b * unat (bp_block_size plan)"
    "unat (sp_len span) = block_bytes (unat (bp_total_bytes plan)) (unat (bp_block_size plan)) (unat b)"
proof -
  show lt: "b < bp_total_blocks plan" using assms(2) block_span_None by fastforce
  obtain sp where "block_span plan b = Some sp"
    "unat (sp_offset sp) = unat b * unat (bp_block_size plan)"
    "unat (sp_len sp) = block_bytes (unat (bp_total_bytes plan)) (unat (bp_block_size plan)) (unat b)"
    by (rule block_span_eq [OF assms(1) lt])
  then show "unat (sp_offset span) = unat b * unat (bp_block_size plan)"
    "unat (sp_len span) = block_bytes (unat (bp_total_bytes plan)) (unat (bp_block_size plan)) (unat b)"
    using assms(2) by simp_all
qed

section \<open>The padded source\<close>

definition padded_source :: "nat \<Rightarrow> bytes \<Rightarrow> bytes" where
  "padded_source n src = take n src @ replicate (n - length src) 0"

lemma length_padded_source [simp]: "length (padded_source n src) = n"
  by (simp add: padded_source_def)

lemma nth_padded_source:
  "i < n \<Longrightarrow> padded_source n src ! i = (if i < length src then src ! i else 0)"
  by (simp add: padded_source_def nth_append)

lemma length_block_payload [simp]: "length (block_payload src span) = unat (sp_len span)"
  by (auto simp: block_payload_def Let_def)

lemma nth_block_payload:
  assumes "i < unat (sp_len span)"
  shows "block_payload src span ! i =
    (if unat (sp_offset span) + i < length src then src ! (unat (sp_offset span) + i) else 0)"
  using assms
  by (auto simp: block_payload_def Let_def nth_slice put_def nth_append)

lemma block_payload_padded:
  assumes "unat (sp_offset span) + unat (sp_len span) \<le> n"
  shows "block_payload src span = slice (unat (sp_offset span)) (unat (sp_len span)) (padded_source n src)"
  using assms
  by (intro nth_equalityI) (auto simp: nth_block_payload nth_slice nth_padded_source)

text \<open>The payload of every block of a plan, in order; a block outside the plan has none.\<close>

definition plan_block :: "BlockPlan \<Rightarrow> bytes \<Rightarrow> nat \<Rightarrow> bytes" where
  "plan_block plan src b = (case block_span plan (word_of_nat b) of
     None \<Rightarrow> [] | Some span \<Rightarrow> block_payload src span)"

lemma plan_block_eq:
  assumes "plan_ok plan" "b < unat (bp_total_blocks plan)"
  shows "plan_block plan src b =
    slice (b * unat (bp_block_size plan)) (unat (bp_block_size plan))
      (padded_source (unat (bp_total_bytes plan)) src)"
proof -
  let ?t = "unat (bp_total_bytes plan)" and ?s = "unat (bp_block_size plan)"
  have u: "unat (word_of_nat b :: u64) = b"
    using less_trans [OF assms(2) unat_u64_bound] by (intro unat_of_nat_small) simp
  then have "(word_of_nat b :: u64) < bp_total_blocks plan"
    using assms(2) by (simp only: word_less_nat_alt)
  then obtain span where sp: "block_span plan (word_of_nat b) = Some span"
    "unat (sp_offset span) = b * ?s" "unat (sp_len span) = block_bytes ?t ?s b"
    using block_span_eq [OF assms(1), of "word_of_nat b"] unfolding u by blast
  have "b * ?s < ?t" using assms plan_ok_blocks(2) by blast
  then have "block_payload src span = slice (b * ?s) (block_bytes ?t ?s b) (padded_source ?t src)"
    using block_payload_padded [of span ?t src] sp by (simp add: block_bytes_def)
  also have "\<dots> = slice (b * ?s) ?s (padded_source ?t src)"
    by (simp add: slice_def block_bytes_def min_def)
  finally show ?thesis by (simp add: plan_block_def sp(1))
qed

lemma concat_slices:
  "concat (map (\<lambda>b. slice (b * n) n xs) [0 ..< k]) = take (k * n) xs"
proof (induction k)
  case (Suc k)
  then show ?case using take_add [of "k * n" n xs] by (simp add: slice_def add.commute)
qed simp

text \<open>The blocks of a plan, concatenated in order, are exactly the source object
  padded with zeros (or cut) to the planned length; no offset computation overflows.\<close>

theorem plan_blocks_reassemble:
  assumes "block_plan_new n_bytes bsize = Inr plan"
  shows "concat (map (plan_block plan src) [0 ..< unat (bp_total_blocks plan)]) =
      padded_source (unat n_bytes) src \<and>
    (\<forall>b. b < bp_total_blocks plan \<longrightarrow> block_offset plan b \<noteq> None)"
proof -
  note ok = block_plan_new_ok [OF assms]
  let ?k = "unat (bp_total_blocks plan)"
  have "map (plan_block plan src) [0 ..< ?k] =
      map (\<lambda>b. slice (b * unat bsize) (unat bsize) (padded_source (unat n_bytes) src)) [0 ..< ?k]"
    using plan_block_eq [OF ok(1)] ok(2,3) by simp
  then have "concat (map (plan_block plan src) [0 ..< ?k]) =
      take (?k * unat bsize) (padded_source (unat n_bytes) src)"
    by (simp only: concat_slices)
  moreover have "unat n_bytes \<le> ?k * unat bsize"
    using plan_ok_blocks(2) [OF ok(1), of ?k] ok(2,3) by simp
  moreover have "block_offset plan b \<noteq> None" if "b < bp_total_blocks plan" for b
    using block_offset_eq [OF ok(1) that] by blast
  ultimately show ?thesis by simp
qed

lemma plan_blocks_reassemble_witness:
  "\<exists>plan. block_plan_new 5 2 = Inr plan \<and>
     concat (map (plan_block plan [1, 2, 3]) [0 ..< unat (bp_total_blocks plan)]) =
       padded_source 5 [1, 2, 3]"
proof -
  obtain plan where "block_plan_new 5 2 = Inr plan" by (simp add: block_plan_new_def)
  then show ?thesis using plan_blocks_reassemble [of 5 2 plan "[1, 2, 3]"] by auto
qed

text \<open>The plan of a validated manifest agrees with the manifest: the same number of
  blocks, and every block has the length the receiver's validation expects.\<close>

theorem plan_agrees_with_manifest:
  assumes "manifest_validate m = Inr ()"
  shows "\<exists>plan. block_plan_new (mf_total_bytes m) (ucast (mf_block_size m)) = Inr plan \<and>
    bp_total_blocks plan = mf_total_blocks m \<and>
    (\<forall>b. case expected_block_payload_len m b of
       Inr n \<Rightarrow> block_len plan b = Some (ucast n)
     | Inl _ \<Rightarrow> block_len plan b = None)"
proof -
  have ok: "manifest_ok m" using assms by (simp add: manifest_validate_iff)
  then have "(ucast (mf_block_size m) :: u64) \<noteq> 0"
    by (simp add: manifest_ok_def unat_eq_0 [symmetric])
  then obtain plan where plan: "block_plan_new (mf_total_bytes m) (ucast (mf_block_size m)) = Inr plan"
    by (auto simp: block_plan_new_def)
  note pk = block_plan_new_ok [OF plan]
  have nb: "bp_total_blocks plan = mf_total_blocks m"
    using pk ok by (simp add: plan_ok_def manifest_ok_def word_unat_eq_iff)
  have "case expected_block_payload_len m b of
       Inr n \<Rightarrow> block_len plan b = Some (ucast n)
     | Inl _ \<Rightarrow> block_len plan b = None" for b
  proof (cases "b < mf_total_blocks m")
    case True
    obtain n where "expected_block_payload_len m b = Inr n"
      "unat n = block_bytes (unat (mf_total_bytes m)) (unat (mf_block_size m)) (unat b)"
      by (rule expected_len_value [OF ok True])
    moreover obtain len where "block_len plan b = Some len"
      "unat len = block_bytes (unat (mf_total_bytes m)) (unat (mf_block_size m)) (unat b)"
      using block_len_eq [OF pk(1), of b] True nb pk(2,3) by auto
    ultimately show ?thesis by (simp add: word_unat_eq_iff)
  next
    case False
    then have "expected_block_payload_len m b \<noteq> Inr n" for n by (simp add: expected_len_Inr)
    moreover have "block_len plan b = None" using False nb by (simp add: block_len_def contains_block_def)
    ultimately show ?thesis by (auto split: sum.splits)
  qed
  then show ?thesis using plan nb by blast
qed

lemma plan_agrees_with_manifest_witness:
  "\<exists>plan. block_plan_new 10 4 = Inr plan \<and> bp_total_blocks plan = 3"
  using plan_agrees_with_manifest [OF sample_manifest_validate]
  by (auto simp: sample_manifest_def)

lemma symbol_geometry_new_Inr:
  assumes "symbol_geometry_new bsize spb = Inr g"
  shows "source_symbols g = unat spb" "0 < unat spb" "0 < unat bsize"
    "symbol_size g = nat_div_ceil (unat bsize) (unat spb)"
proof -
  have nz: "bsize \<noteq> 0" "spb \<noteq> 0" using assms by (auto simp: symbol_geometry_new_def split: if_splits)
  then have "(ucast spb :: usize) \<noteq> 0" by (simp add: unat_eq_0 [symmetric])
  then show "source_symbols g = unat spb" "0 < unat spb" "0 < unat bsize"
    "symbol_size g = nat_div_ceil (unat bsize) (unat spb)"
    using assms nz
    by (auto simp: symbol_geometry_new_def source_symbols_def symbol_size_def Let_def
        unat_word_div_ceil unat_gt_0)
qed

lemma padded_symbol_bytes_eq:
  assumes "symbol_geometry_new bsize symbols_per_block = Inr g"
    and "unat (sp_len span) \<le> unat bsize"
  shows "padded_symbol_bytes src span g = block_payload src span @
      replicate (unat symbols_per_block * symbol_size g - unat (sp_len span)) 0"
    and "unat (sp_len span) \<le> unat symbols_per_block * symbol_size g"
proof -
  note g = symbol_geometry_new_Inr [OF assms(1)]
  show fits: "unat (sp_len span) \<le> unat symbols_per_block * symbol_size g"
    using nat_div_ceil_le_iff [OF g(2), of "unat bsize" "symbol_size g"] g(4) assms(2)
    by (simp add: mult.commute)
  show "padded_symbol_bytes src span g = block_payload src span @
      replicate (unat symbols_per_block * symbol_size g - unat (sp_len span)) 0"
    using fits by (simp add: padded_symbol_bytes_def g(1) Let_def put_start)
qed

lemma length_padded_symbol_bytes:
  assumes "symbol_geometry_new bsize symbols_per_block = Inr g"
    and "unat (sp_len span) \<le> unat bsize"
  shows "length (padded_symbol_bytes src span g) = unat symbols_per_block * symbol_size g"
  using padded_symbol_bytes_eq [OF assms] by simp

text \<open>The source symbols of a block are as many as the geometry says, all of the symbol
  size, and concatenated they are the block followed by zeros: no byte of the block is
  dropped by the fixed-size split.\<close>

theorem source_symbols_cover_block:
  assumes "symbol_geometry_new bsize symbols_per_block = Inr g"
    and "unat (sp_len span) \<le> unat bsize"
  shows "length (block_source_symbols src span g) = unat symbols_per_block \<and>
    (\<forall>s\<in>set (block_source_symbols src span g). length s = symbol_size g) \<and>
    concat (block_source_symbols src span g) =
      block_payload src span @
      replicate (unat symbols_per_block * symbol_size g - unat (sp_len span)) 0"
proof -
  note g = symbol_geometry_new_Inr [OF assms(1)] and padded = padded_symbol_bytes_eq [OF assms]
  let ?n = "symbol_size g" and ?k = "unat symbols_per_block"
  have syms: "block_source_symbols src span g =
      map (\<lambda>i. slice (i * ?n) ?n (padded_symbol_bytes src span g)) [0 ..< ?k]"
    by (simp add: block_source_symbols_def g(1) Let_def)
  note len = length_padded_symbol_bytes [OF assms, of src]
  have "i * ?n + ?n \<le> ?k * ?n" if "i < ?k" for i
    using mult_le_mono1 [of "Suc i" ?k ?n] that by simp
  then have "\<forall>s\<in>set (block_source_symbols src span g). length s = ?n"
    by (auto simp: syms len)
  moreover have "concat (block_source_symbols src span g) = padded_symbol_bytes src span g"
    using len by (simp only: syms concat_slices) simp
  ultimately show ?thesis by (simp add: syms padded(1))
qed

lemma source_symbols_cover_block_witness:
  "\<exists>g. symbol_geometry_new 5 2 = Inr g \<and>
     concat (block_source_symbols [1, 2, 3, 4] \<lparr>sp_offset = 0, sp_len = 4\<rparr> g) =
       block_payload [1, 2, 3, 4] \<lparr>sp_offset = 0, sp_len = 4\<rparr> @ replicate (2 * symbol_size g - 4) 0"
proof -
  obtain g where "symbol_geometry_new 5 2 = Inr g" by (simp add: symbol_geometry_new_def)
  then show ?thesis
    using source_symbols_cover_block [of 5 2 g "\<lparr>sp_offset = 0, sp_len = 4\<rparr>" "[1, 2, 3, 4]"] by auto
qed

end
