(* ===== verification/Session_Frames.thy ===== *)
theory Session_Frames
  imports Wire_Control Session_Plan
begin

text \<open>
  Frames as the session tasks exchange them
  (\<open>src/dataplane/src/node/session/control.rs\<close>, \<open>api.rs\<close>): inbound frames with
  the peer identity of the transport, outbound frames as pairs of an envelope and the encoded
  bytes, and the events a task wakes up on.  Building the synthetic TCP packet and handing
  it to the processor pool is I/O; a task's output is the list of frames it submits.
\<close>

type_synonym SessionId = u64

record TransportRoute =
  tr_src_ip :: u32
  tr_dst_ip :: u32
  tr_src_port :: u16
  tr_dst_port :: u16

record FrameRoute =
  fr_session_id :: u64
  fr_tree_id :: "u16 option"
  fr_src_ip :: u32
  fr_src_port :: u16
  fr_dst_ip :: u32
  fr_dst_port :: u16

record InboundFrame =
  if_bytes :: bytes
  if_peer_id :: "usize option"

datatype SessionOutcome = Completed | Aborted

type_synonym outputs = "(FrameRoute \<times> bytes) list"

text \<open>The envelope every session task builds from its transport route.\<close>

definition frame_route :: "SessionId \<Rightarrow> TransportRoute \<Rightarrow> u16 option \<Rightarrow> FrameRoute" where
  "frame_route session_id route tree_id =
     \<lparr>fr_session_id = session_id, fr_tree_id = tree_id, fr_src_ip = tr_src_ip route,
      fr_src_port = tr_src_port route, fr_dst_ip = tr_dst_ip route,
      fr_dst_port = tr_dst_port route\<rparr>"

definition build_control_packet ::
    "FrameRoute \<Rightarrow> LosslessSessionControl \<Rightarrow> (FrameRoute \<times> bytes) may_panic" where
  "build_control_packet route control =
     map_option (\<lambda>frame. (route\<lparr>fr_tree_id := None\<rparr>, frame))
       (encode_control (fr_session_id route) control)"

definition send_control :: "FrameRoute \<Rightarrow> LosslessSessionControl \<Rightarrow> outputs may_panic" where
  "send_control route control = map_option (\<lambda>packet. [packet]) (build_control_packet route control)"

definition send_frame :: "FrameRoute \<Rightarrow> bytes \<Rightarrow> outputs" where
  "send_frame route payload = [(route, payload)]"

text \<open>What a task waiting in \<open>select!\<close> observes: a frame, a closed channel, or its timer.\<close>

datatype Wake = RecvFrame InboundFrame | RecvClosed | TimerFired

lemma send_control_eq:
  "send_control (frame_route sid route tree) c =
     (if control_ok c then Some [(frame_route sid route None, control_frame sid c)] else None)"
  by (simp add: send_control_def build_control_packet_def encode_control_layout frame_route_def)

end
