(* ===== verification/Receiver_Shared.thy ===== *)
theory Receiver_Shared
  imports Session_Frames
begin

text \<open>
  The receiver state both modes share (\<open>ReceiverShared\<close> in
  \<open>src/dataplane/src/node/session/receiver/mod.rs\<close>): the installed manifest and plan,
  the set of complete blocks, the sink buffer, and the report of missing ranges.  The sink is
  the vector behind the shared mutex; whether an allocation succeeds is the argument
  \<open>can_reserve\<close>.
\<close>

record ReceiverProgress =
  rp_first_payload_unit :: bool
  rp_object_complete :: bool

record ReceiverShared =
  rs_session_id :: SessionId
  rs_route :: TransportRoute
  rs_local_node_id :: usize
  rs_sink_buffer :: "bytes option"
  rs_progress :: "ReceiverProgress option"
  rs_peer_report_timeout_ms :: u64
  rs_fec_enabled :: bool
  rs_manifest :: "LosslessSessionManifest option"
  rs_plan :: "BlockPlan option"
  rs_complete_blocks :: "u64 set"

definition receiver_route :: "ReceiverShared \<Rightarrow> FrameRoute" where
  "receiver_route sh = frame_route (rs_session_id sh) (rs_route sh) None"

definition has_all_blocks :: "ReceiverShared \<Rightarrow> bool" where
  "has_all_blocks sh = (case rs_plan sh of
     None \<Rightarrow> False
   | Some plan \<Rightarrow> word_of_nat (card (rs_complete_blocks sh)) = bp_total_blocks plan)"

definition mark_first_payload_unit :: "ReceiverShared \<Rightarrow> ReceiverShared" where
  "mark_first_payload_unit sh =
     sh\<lparr>rs_progress := map_option (\<lambda>p. p\<lparr>rp_first_payload_unit := True\<rparr>) (rs_progress sh)\<rparr>"

definition mark_object_complete :: "ReceiverShared \<Rightarrow> ReceiverShared" where
  "mark_object_complete sh =
     sh\<lparr>rs_progress := map_option (\<lambda>p. p\<lparr>rp_object_complete := True\<rparr>) (rs_progress sh)\<rparr>"

text \<open>The write into the locked sink; \<open>n\<close> is the object length.\<close>

definition write_span :: "nat \<Rightarrow> BlockSpan \<Rightarrow> bytes \<Rightarrow> bytes \<Rightarrow> bytes" where
  "write_span n span payload guard =
     (let guard = (if length guard < n then resize_zero n guard else guard);
          start = unat (sp_offset span);
          stop = start + min (length payload) (unat (sp_len span))
      in if stop \<le> length guard then put start (take (stop - start) payload) guard else guard)"

definition write_block :: "u64 \<Rightarrow> bytes \<Rightarrow> ReceiverShared \<Rightarrow> ReceiverShared" where
  "write_block block_id payload sh =
     (case rs_plan sh of
        None \<Rightarrow> sh
      | Some plan \<Rightarrow>
          (case block_span plan block_id of
             None \<Rightarrow> sh
           | Some span \<Rightarrow>
               (case rs_sink_buffer sh of
                  None \<Rightarrow> sh
                | Some guard \<Rightarrow>
                    sh\<lparr>rs_sink_buffer :=
                      Some (write_span (unat (bp_total_bytes plan)) span payload guard)\<rparr>)))"

definition ensure_sink_buffer_len ::
    "(nat \<Rightarrow> bool) \<Rightarrow> nat \<Rightarrow> ReceiverShared \<Rightarrow> ReceiverShared option" where
  "ensure_sink_buffer_len can_reserve object_len sh =
     (case rs_sink_buffer sh of
        None \<Rightarrow> Some sh
      | Some guard \<Rightarrow>
          if length guard < object_len then
            if \<not> can_reserve (object_len - length guard) then None
            else Some (sh\<lparr>rs_sink_buffer := Some (resize_zero object_len guard)\<rparr>)
          else Some sh)"

definition send_ready :: "ReceiverShared \<Rightarrow> outputs may_panic" where
  "send_ready sh = send_control (receiver_route sh) Ready"

text \<open>\<open>send_plain_need\<close> and \<open>send_fec_need\<close> are the same code.\<close>

definition send_need :: "ReceiverShared \<Rightarrow> u32 \<Rightarrow> NeedReport \<Rightarrow> outputs may_panic" where
  "send_need sh round_id report = send_control (receiver_route sh) (Need round_id report)"

section \<open>The missing ranges\<close>

text \<open>The first complete block after \<open>start\<close>, or the total.\<close>

definition next_complete :: "u64 set \<Rightarrow> u64 \<Rightarrow> u64 \<Rightarrow> u64" where
  "next_complete complete n_blocks start =
     (let later = {b \<in> complete. start < b} in if later = {} then n_blocks else Min later)"

lemma next_complete_greater: "start < n_blocks \<Longrightarrow> start < next_complete complete n_blocks start"
  using Min_in [of "{b \<in> complete. start < b}"] by (auto simp: next_complete_def Let_def)

function missing_ranges_from :: "u64 set \<Rightarrow> u64 \<Rightarrow> u64 \<Rightarrow> MissingBlockRange list" where
  "missing_ranges_from complete n_blocks next_missing =
     (if next_missing < n_blocks then
        if next_missing \<in> complete then missing_ranges_from complete n_blocks (next_missing + 1)
        else
          let stop = next_complete complete n_blocks next_missing
          in \<lparr>start_block_id = next_missing, end_block_id = stop\<rparr> #
               missing_ranges_from complete n_blocks stop
      else [])"
  by auto

lemma less_diff_words: "a < b \<Longrightarrow> a < n \<Longrightarrow> unat (n :: u64) - unat b < unat n - unat a"
  by (simp add: word_less_nat_alt)

termination missing_ranges_from
  by (relation "measure (\<lambda>(_, n, i). unat n - unat i)")
    (auto simp: unat_Suc_word word_less_nat_alt
      dest: next_complete_greater [unfolded word_less_nat_alt] intro!: diff_less_mono2)

declare missing_ranges_from.simps [simp del]

definition plain_need :: "ReceiverShared \<Rightarrow> NeedReport option" where
  "plain_need sh =
     (case rs_plan sh of
        None \<Rightarrow> None
      | Some plan \<Rightarrow>
          let n_blocks = bp_total_blocks plan in
          if n_blocks = 0 then Some NeedComplete
          else if word_of_nat (card (rs_complete_blocks sh)) = n_blocks then Some NeedComplete
          else Some (NeedPlain (missing_ranges_from (rs_complete_blocks sh) n_blocks 0)))"

section \<open>The missing ranges are the complement\<close>

lemma next_complete_props:
  assumes "start < n_blocks" "\<forall>b\<in>complete. b < n_blocks"
  shows "next_complete complete n_blocks start \<le> n_blocks"
    and "next_complete complete n_blocks start < n_blocks \<Longrightarrow> next_complete complete n_blocks start \<in> complete"
    and "start < b \<Longrightarrow> b < next_complete complete n_blocks start \<Longrightarrow> b \<notin> complete"
proof -
  let ?L = "{b \<in> complete. start < b}"
  have m: "?L \<noteq> {} \<Longrightarrow> Min ?L \<in> ?L" by (rule Min_in) simp_all
  show "next_complete complete n_blocks start \<le> n_blocks"
    using m assms(2) by (auto simp: next_complete_def Let_def less_imp_le)
  show "next_complete complete n_blocks start < n_blocks \<Longrightarrow> next_complete complete n_blocks start \<in> complete"
    using m by (auto simp: next_complete_def Let_def split: if_splits)
  show "start < b \<Longrightarrow> b < next_complete complete n_blocks start \<Longrightarrow> b \<notin> complete"
    by (auto simp: next_complete_def Let_def split: if_splits)
qed

lemma missing_ranges_from_spec:
  assumes "\<forall>b\<in>complete. b < n_blocks"
  shows "ranges_canonical (missing_ranges_from complete n_blocks i) \<and>
    missing_blocks (missing_ranges_from complete n_blocks i) =
      {k. unat i \<le> k \<and> k < unat n_blocks \<and> word_of_nat k \<notin> complete}"
  using assms
proof (induction complete n_blocks i rule: missing_ranges_from.induct)
  case (1 complete n i)
  have word: "unat (word_of_nat k :: u64) = k" if "k < unat n" for k
    using less_trans [OF that unat_u64_bound] by (intro unat_of_nat_small) simp
  show ?case
  proof (cases "i < n")
    case False
    then show ?thesis
      by (subst (1 2) missing_ranges_from.simps) (auto simp: ranges_canonical_def word_less_nat_alt)
  next
    case i: True
    show ?thesis
    proof (cases "i \<in> complete")
      case True
      have eq: "missing_ranges_from complete n i = missing_ranges_from complete n (i + 1)"
        using i True by (subst missing_ranges_from.simps) simp
      have "{k. unat i \<le> k \<and> k < unat n \<and> word_of_nat k \<notin> complete} =
          {k. Suc (unat i) \<le> k \<and> k < unat n \<and> word_of_nat k \<notin> complete}"
        using True by (auto simp: Suc_le_eq le_less)
      then show ?thesis
        using 1(1) [OF i True 1(3)] by (simp add: eq unat_Suc_word [OF i])
    next
      case False
      define e where "e = next_complete complete n i"
      have eq: "missing_ranges_from complete n i =
          \<lparr>start_block_id = i, end_block_id = e\<rparr> # missing_ranges_from complete n e"
        using i False by (subst missing_ranges_from.simps) (simp add: e_def Let_def)
      note p = next_complete_props [OF i 1(3), folded e_def]
      have IH: "ranges_canonical (missing_ranges_from complete n e)"
        "missing_blocks (missing_ranges_from complete n e) =
          {k. unat e \<le> k \<and> k < unat n \<and> word_of_nat k \<notin> complete}"
        using 1(2) [OF i False e_def] 1(3) by blast+
      have lt: "unat i < unat e"
        using next_complete_greater [OF i] by (simp add: e_def word_less_nat_alt)
      have e_in: "unat e < unat n \<Longrightarrow> e \<in> complete" using p(2) by (simp add: word_less_nat_alt)
      have gap: "word_of_nat k \<notin> complete" if "unat i \<le> k" "k < unat e" for k
      proof (cases "k = unat i")
        case True
        then show ?thesis using False by simp
      next
        case ne: False
        have "unat e \<le> unat n" using p(1) by (simp add: word_le_nat_alt)
        then have "unat (word_of_nat k :: u64) = k" using that(2) word by simp
        then show ?thesis using p(3) [of "word_of_nat k"] that ne by (simp add: word_less_nat_alt)
      qed
      have "unat e < k" if "k \<in> missing_blocks (missing_ranges_from complete n e)" for k
        using that e_in by (auto simp: IH(2) le_less)
      moreover have "block_range \<lparr>start_block_id = i, end_block_id = e\<rparr> \<union>
          {k. unat e \<le> k \<and> k < unat n \<and> word_of_nat k \<notin> complete} =
          {k. unat i \<le> k \<and> k < unat n \<and> word_of_nat k \<notin> complete}"
        using lt gap p(1) by (auto simp: block_range_def word_le_nat_alt)
      ultimately show ?thesis
        using IH lt by (simp add: eq ranges_canonical_Cons word_less_nat_alt)
    qed
  qed
qed

text \<open>A report has at most one range per two blocks, rounded up.\<close>

lemma length_missing_ranges:
  assumes "\<forall>b\<in>complete. b < n_blocks"
  shows "2 * length (missing_ranges_from complete n_blocks i) \<le>
      (if i \<in> complete then 0 else 1) + (unat n_blocks - unat i)"
  using assms
proof (induction complete n_blocks i rule: missing_ranges_from.induct)
  case (1 complete n i)
  show ?case
  proof (cases "i < n")
    case False
    then show ?thesis by (subst missing_ranges_from.simps) simp
  next
    case i: True
    then have lt: "unat i < unat n" by (simp add: word_less_nat_alt)
    show ?thesis
    proof (cases "i \<in> complete")
      case True
      have "2 * length (missing_ranges_from complete n (i + 1)) \<le> 1 + (unat n - Suc (unat i))"
        using 1(1) [OF i True 1(3)] by (simp add: unat_Suc_word [OF i] split: if_splits)
      then show ?thesis using i True lt by (subst missing_ranges_from.simps) simp
    next
      case False
      define e where "e = next_complete complete n i"
      note p = next_complete_props [OF i 1(3), folded e_def]
      have ie: "unat i < unat e"
        using next_complete_greater [OF i] by (simp add: e_def word_less_nat_alt)
      have len: "length (missing_ranges_from complete n i) =
          Suc (length (missing_ranges_from complete n e))"
        using i False by (subst missing_ranges_from.simps) (simp add: e_def Let_def)
      have IH: "2 * length (missing_ranges_from complete n e) \<le>
          (if e \<in> complete then 0 else 1) + (unat n - unat e)"
        using 1(2) [OF i False e_def] 1(3) by blast
      show ?thesis
      proof (cases "e < n")
        case True
        then have "e \<in> complete" "unat e < unat n" using p(2) by (simp_all add: word_less_nat_alt)
        then show ?thesis using IH ie lt False by (simp add: len)
      next
        case e: False
        have "missing_ranges_from complete n e = []"
          using e by (subst missing_ranges_from.simps) simp
        then show ?thesis using lt False by (simp add: len)
      qed
    qed
  qed
qed

text \<open>The block count of a plan and the size of the set of complete blocks.\<close>

lemma set_words_below: "set (map word_of_nat [0 ..< unat n]) = {b :: u64. b < n}"
proof (intro set_eqI iffI)
  fix b :: u64 assume "b \<in> {b. b < n}"
  then have "unat b < unat n" "b = word_of_nat (unat b)" by (simp_all add: word_less_nat_alt)
  then show "b \<in> set (map word_of_nat [0 ..< unat n])" by force
next
  fix b :: u64 assume "b \<in> set (map word_of_nat [0 ..< unat n])"
  then obtain k where "k < unat n" "b = word_of_nat k" by auto
  then show "b \<in> {b. b < n}"
    using less_trans [OF _ unat_u64_bound, of k n]
    by (simp add: word_less_nat_alt unat_of_nat_small)
qed

lemma card_below: "card {b :: u64. b < n} = unat n"
proof -
  have "inj_on (word_of_nat :: nat \<Rightarrow> u64) {0 ..< unat n}"
  proof (rule inj_on_inverseI [where g = unat])
    fix k assume "k \<in> {0 ..< unat n}"
    then show "unat (word_of_nat k :: u64) = k"
      using less_trans [OF _ unat_u64_bound, of k n] by (simp add: unat_of_nat_small)
  qed
  then show ?thesis by (simp add: set_words_below [symmetric] card_image)
qed

lemma all_blocks_iff:
  assumes "\<forall>b\<in>S. b < n"
  shows "word_of_nat (card S) = n \<longleftrightarrow> S = {b :: u64. b < n}"
proof -
  have sub: "S \<subseteq> {b. b < n}" using assms by auto
  then have le: "card S \<le> unat n" using card_mono [of "{b. b < n}" S] by (simp add: card_below)
  then have "unat (word_of_nat (card S) :: u64) = card S"
    using le_less_trans [OF le unat_u64_bound] by (simp add: unat_of_nat_small)
  then have "word_of_nat (card S) = n \<longleftrightarrow> card S = unat n" by (metis word_unat_eq_iff)
  also have "\<dots> \<longleftrightarrow> S = {b. b < n}"
    using card_subset_eq [OF _ sub] by (auto simp: card_below)
  finally show ?thesis .
qed

definition blocks_bounded :: "ReceiverShared \<Rightarrow> bool" where
  "blocks_bounded sh \<longleftrightarrow> (case rs_plan sh of
     None \<Rightarrow> rs_complete_blocks sh = {}
   | Some plan \<Rightarrow> \<forall>b\<in>rs_complete_blocks sh. b < bp_total_blocks plan)"

lemma plain_need_ranges:
  assumes "blocks_bounded sh" "rs_plan sh = Some plan"
    and "\<not> (bp_total_blocks plan = 0 \<or> word_of_nat (card (rs_complete_blocks sh)) = bp_total_blocks plan)"
  obtains rs where "plain_need sh = Some (NeedPlain rs)" "ranges_canonical rs" "rs \<noteq> []"
    "missing_blocks rs = {..<unat (bp_total_blocks plan)} - unat ` rs_complete_blocks sh"
proof -
  let ?S = "rs_complete_blocks sh" and ?n = "bp_total_blocks plan"
  have b: "\<forall>b\<in>?S. b < ?n" using assms by (simp add: blocks_bounded_def)
  let ?rs = "missing_ranges_from ?S ?n 0"
  have "{k. k < unat ?n \<and> word_of_nat k \<notin> ?S} = {..<unat ?n} - unat ` ?S"
  proof -
    have "word_of_nat k \<in> ?S \<longleftrightarrow> k \<in> unat ` ?S" if "k < unat ?n" for k
    proof -
      have k: "unat (word_of_nat k :: u64) = k"
        using less_trans [OF that unat_u64_bound] by (simp add: unat_of_nat_small)
      show ?thesis
      proof
        assume "word_of_nat k \<in> ?S"
        then have "unat (word_of_nat k :: u64) \<in> unat ` ?S" by (rule imageI)
        then show "k \<in> unat ` ?S" by (simp only: k)
      next
        assume "k \<in> unat ` ?S"
        then show "word_of_nat k \<in> ?S" by auto
      qed
    qed
    then show ?thesis by auto
  qed
  then have spec: "ranges_canonical ?rs" "missing_blocks ?rs = {..<unat ?n} - unat ` ?S"
    using missing_ranges_from_spec [OF b, of 0] by simp_all
  have "?S \<noteq> {b. b < ?n}" using assms(3) all_blocks_iff [OF b] by blast
  then obtain x where x: "x < ?n" "x \<notin> ?S" using b by blast
  then have "unat x \<notin> unat ` ?S" by (metis imageE word_unat_eq_iff)
  then have "unat x \<in> missing_blocks ?rs"
    using x(1) by (simp add: spec(2) word_less_nat_alt)
  then have "?rs \<noteq> []" by auto
  moreover have "plain_need sh = Some (NeedPlain ?rs)"
    using assms(2,3) by (simp add: plain_need_def)
  ultimately show thesis using that spec by blast
qed

text \<open>C39. The plain report is exact: with a plan installed, the receiver reports Complete
  exactly when it holds every block, and otherwise ranges that are sorted, merged and denote
  precisely the blocks it lacks.\<close>

theorem plain_need_exact:
  assumes "blocks_bounded sh" "rs_plan sh = Some plan"
  shows "case plain_need sh of
      Some NeedComplete \<Rightarrow> rs_complete_blocks sh = {b. b < bp_total_blocks plan}
    | Some (NeedPlain rs) \<Rightarrow> ranges_canonical rs \<and> rs \<noteq> [] \<and>
        missing_blocks rs = {..<unat (bp_total_blocks plan)} - unat ` rs_complete_blocks sh
    | _ \<Rightarrow> False"
proof -
  let ?S = "rs_complete_blocks sh" and ?n = "bp_total_blocks plan"
  have b: "\<forall>b\<in>?S. b < ?n" using assms by (simp add: blocks_bounded_def)
  show ?thesis
  proof (cases "?n = 0 \<or> word_of_nat (card ?S) = ?n")
    case True
    then have "plain_need sh = Some NeedComplete"
      unfolding plain_need_def assms(2) option.case Let_def by argo
    moreover have "?S = {b. b < ?n}"
    proof (cases "?n = 0")
      case True
      then have "?S = {}" using b by (metis equals0I word_not_simps(1))
      then show ?thesis using True by simp
    next
      case False
      then show ?thesis using True all_blocks_iff [OF b] by blast
    qed
    ultimately show ?thesis by simp
  next
    case False
    obtain rs where "plain_need sh = Some (NeedPlain rs)" "ranges_canonical rs" "rs \<noteq> []"
      "missing_blocks rs = {..<unat ?n} - unat ` ?S"
      by (rule plain_need_ranges [OF assms False])
    then show ?thesis by simp
  qed
qed

text \<open>A concrete receiver of three blocks that holds the middle one.\<close>

definition demo_receiver :: ReceiverShared where
  "demo_receiver = \<lparr>rs_session_id = 9,
     rs_route = \<lparr>tr_src_ip = 1, tr_dst_ip = 2, tr_src_port = 3, tr_dst_port = 4\<rparr>,
     rs_local_node_id = 5, rs_sink_buffer = None, rs_progress = None,
     rs_peer_report_timeout_ms = 100, rs_fec_enabled = False,
     rs_manifest = Some sample_manifest,
     rs_plan = Some \<lparr>bp_total_bytes = 10, bp_block_size = 4, bp_total_blocks = 3\<rparr>,
     rs_complete_blocks = {1}\<rparr>"

lemma plain_need_exact_witness:
  "\<exists>rs. plain_need demo_receiver = Some (NeedPlain rs) \<and> ranges_canonical rs \<and>
     missing_blocks rs = {0, 2}"
proof -
  have b: "blocks_bounded demo_receiver"
    and p: "rs_plan demo_receiver = Some \<lparr>bp_total_bytes = 10, bp_block_size = 4, bp_total_blocks = 3\<rparr>"
    by (simp_all add: blocks_bounded_def demo_receiver_def)
  have "\<exists>rs. plain_need demo_receiver = Some (NeedPlain rs)"
    by (simp add: plain_need_def demo_receiver_def)
  then obtain rs where rs: "plain_need demo_receiver = Some (NeedPlain rs)" by blast
  have "{..<3 :: nat} - {1} = {0, 2}" by auto
  then show ?thesis
    using plain_need_exact [OF b p] rs by (simp add: demo_receiver_def)
qed

section \<open>The sink\<close>

lemma length_write_span:
  assumes "unat (sp_offset span) + unat (sp_len span) \<le> n" "n \<le> length guard"
  shows "length (write_span n span payload guard) = length guard"
  using assms by (simp add: write_span_def Let_def)

lemma write_span_block:
  assumes "unat (sp_offset span) + unat (sp_len span) \<le> n" "n \<le> length guard"
    and "length payload = unat (sp_len span)"
  shows "write_span n span payload guard = put (unat (sp_offset span)) payload guard"
  using assms by (simp add: write_span_def Let_def)

text \<open>\<open>sink_holds plan src b sink\<close>: the span of block \<open>b\<close> in the sink is the source's block.\<close>

definition sink_holds :: "BlockPlan \<Rightarrow> bytes \<Rightarrow> u64 \<Rightarrow> bytes \<Rightarrow> bool" where
  "sink_holds plan src b sink \<longleftrightarrow> (\<forall>span. block_span plan b = Some span \<longrightarrow>
     slice (unat (sp_offset span)) (unat (sp_len span)) sink = block_payload src span)"

lemma span_in_object:
  assumes "plan_ok plan" "block_span plan b = Some span"
  shows "unat (sp_offset span) + unat (sp_len span) \<le> unat (bp_total_bytes plan)"
proof -
  note s = block_span_Some [OF assms]
  have "unat b * unat (bp_block_size plan) < unat (bp_total_bytes plan)"
    using s(1) plan_ok_blocks(2) [OF assms(1)] by (simp add: word_less_nat_alt)
  then show ?thesis by (simp add: s(2,3) block_bytes_def)
qed

lemma spans_disjoint:
  assumes "plan_ok plan" "block_span plan a = Some sa" "block_span plan b = Some sb" "a \<noteq> b"
  shows "unat (sp_offset sa) + unat (sp_len sa) \<le> unat (sp_offset sb) \<or>
    unat (sp_offset sb) + unat (sp_len sb) \<le> unat (sp_offset sa)"
proof -
  let ?s = "unat (bp_block_size plan)"
  note a = block_span_Some [OF assms(1,2)] and b = block_span_Some [OF assms(1,3)]
  have l: "unat (sp_len sa) \<le> ?s" "unat (sp_len sb) \<le> ?s" by (simp_all add: a(3) b(3) block_bytes_le)
  have step: "unat x * ?s + ?s \<le> unat y * ?s" if "unat x < unat y" for x y :: u64
    using mult_le_mono1 [of "Suc (unat x)" "unat y" ?s] that by (simp add: add.commute)
  have "unat a < unat b \<or> unat b < unat a"
    using assms(4) word_unat_eq_iff [of a b] by (metis linorder_neqE_nat)
  then show ?thesis
  proof
    assume "unat a < unat b"
    from step [OF this] l(1) show ?thesis unfolding a(2) b(2) by linarith
  next
    assume "unat b < unat a"
    from step [OF this] l(2) show ?thesis unfolding a(2) b(2) by linarith
  qed
qed

lemma slice_put_same:
  "pos + length src \<le> length buf \<Longrightarrow> slice pos (length src) (put pos src buf) = src"
  by (simp add: slice_def put_def)

lemma slice_put_other:
  "pos + length src \<le> length buf \<Longrightarrow> a + n \<le> length buf \<Longrightarrow>
     a + n \<le> pos \<or> pos + length src \<le> a \<Longrightarrow> slice a n (put pos src buf) = slice a n buf"
  by (intro slice_eqI) (auto simp: nth_put_outside nth_slice)

lemma sink_holds_write:
  assumes "plan_ok plan" "block_span plan b = Some span" "unat (bp_total_bytes plan) \<le> length guard"
  shows "sink_holds plan src b
    (write_span (unat (bp_total_bytes plan)) span (block_payload src span) guard)"
  using span_in_object [OF assms(1,2)] assms
    slice_put_same [of "unat (sp_offset span)" "block_payload src span" guard]
  by (simp add: sink_holds_def write_span_block)

lemma sink_holds_write_other:
  assumes "plan_ok plan" "block_span plan b = Some span" "unat (bp_total_bytes plan) \<le> length guard"
    and "sink_holds plan src a guard" "length payload = unat (sp_len span)" "a \<noteq> b"
  shows "sink_holds plan src a (write_span (unat (bp_total_bytes plan)) span payload guard)"
proof -
  have "slice (unat (sp_offset sa)) (unat (sp_len sa)) (put (unat (sp_offset span)) payload guard) =
      slice (unat (sp_offset sa)) (unat (sp_len sa)) guard"
    if "block_span plan a = Some sa" for sa
    using spans_disjoint [OF assms(1) that assms(2,6)] span_in_object [OF assms(1) that]
      span_in_object [OF assms(1,2)] assms(3,5)
    by (intro slice_put_other) auto
  then show ?thesis
    using assms span_in_object [OF assms(1,2)] by (simp add: sink_holds_def write_span_block)
qed

text \<open>A sink that holds every block is the source object.\<close>

lemma sink_complete:
  assumes "plan_ok plan" "unat (bp_total_bytes plan) \<le> length sink"
    and "\<forall>b < bp_total_blocks plan. sink_holds plan src b sink"
  shows "take (unat (bp_total_bytes plan)) sink = padded_source (unat (bp_total_bytes plan)) src"
proof -
  let ?n = "unat (bp_total_bytes plan)" and ?k = "unat (bp_total_blocks plan)"
    and ?s = "unat (bp_block_size plan)"
  let ?sink = "take ?n sink"
  have "slice (b * ?s) ?s ?sink = plan_block plan src b" if "b < ?k" for b
  proof -
    have u: "unat (word_of_nat b :: u64) = b"
      using less_trans [OF that unat_u64_bound] by (simp add: unat_of_nat_small)
    then have lt: "(word_of_nat b :: u64) < bp_total_blocks plan"
      using that by (simp add: word_less_nat_alt)
    obtain span where sp: "block_span plan (word_of_nat b) = Some span"
      "unat (sp_offset span) = b * ?s" "unat (sp_len span) = block_bytes ?n ?s b"
      using block_span_eq [OF assms(1) lt] unfolding u by blast
    have "slice (b * ?s) (block_bytes ?n ?s b) sink = block_payload src span"
      using assms(3) lt sp by (auto simp: sink_holds_def)
    moreover have "slice (b * ?s) ?s ?sink = slice (b * ?s) (block_bytes ?n ?s b) sink"
      by (simp add: slice_def block_bytes_def drop_take)
    ultimately show ?thesis by (simp add: plan_block_def sp(1))
  qed
  then have "map (\<lambda>b. slice (b * ?s) ?s ?sink) [0 ..< ?k] =
      map (\<lambda>b. slice (b * ?s) ?s (padded_source ?n src)) [0 ..< ?k]"
    using plan_block_eq [OF assms(1)] by simp
  then have "take (?k * ?s) ?sink = take (?k * ?s) (padded_source ?n src)"
    using concat_slices by metis
  moreover have "?n \<le> ?k * ?s" using plan_ok_blocks(2) [OF assms(1), of ?k] by simp
  ultimately show ?thesis using assms(2) by simp
qed

section \<open>The receiver's invariant\<close>

text \<open>With a plan installed, the complete blocks belong to the plan and the sink (where there
  is one) is large enough and holds the source's bytes for each of them.\<close>

definition receiver_inv :: "bytes \<Rightarrow> ReceiverShared \<Rightarrow> bool" where
  "receiver_inv src sh \<longleftrightarrow> blocks_bounded sh \<and>
     (case rs_plan sh of
        None \<Rightarrow> rs_manifest sh = None
      | Some plan \<Rightarrow>
          (\<exists>m. rs_manifest sh = Some m \<and> manifest_ok m \<and>
             block_plan_new (mf_total_bytes m) (ucast (mf_block_size m)) = Inr plan) \<and>
          (case rs_sink_buffer sh of
             None \<Rightarrow> True
           | Some sink \<Rightarrow> unat (bp_total_bytes plan) \<le> length sink \<and>
               (\<forall>b\<in>rs_complete_blocks sh. sink_holds plan src b sink)))"

lemma receiver_inv_plan:
  assumes "receiver_inv src sh" "rs_plan sh = Some plan"
  obtains m where "rs_manifest sh = Some m" "manifest_ok m" "plan_ok plan"
    "bp_total_blocks plan = mf_total_blocks m" "bp_total_bytes plan = mf_total_bytes m"
    "bp_block_size plan = ucast (mf_block_size m)"
proof -
  obtain m where m: "rs_manifest sh = Some m" "manifest_ok m"
    "block_plan_new (mf_total_bytes m) (ucast (mf_block_size m)) = Inr plan"
    using assms by (auto simp: receiver_inv_def)
  note ok = block_plan_new_ok [OF m(3)]
  have "bp_total_blocks plan = mf_total_blocks m"
    using ok m(2) by (simp add: plan_ok_def manifest_ok_def word_unat_eq_iff)
  then show ?thesis using that m ok by blast
qed

lemma write_block_fields [simp]:
  "rs_plan (write_block b p sh) = rs_plan sh" "rs_manifest (write_block b p sh) = rs_manifest sh"
  "rs_complete_blocks (write_block b p sh) = rs_complete_blocks sh"
  "rs_session_id (write_block b p sh) = rs_session_id sh"
  "rs_route (write_block b p sh) = rs_route sh"
  "rs_fec_enabled (write_block b p sh) = rs_fec_enabled sh"
  by (auto simp: write_block_def split: option.splits)

lemma mark_fields [simp]:
  "rs_plan (mark_first_payload_unit sh) = rs_plan sh"
  "rs_manifest (mark_first_payload_unit sh) = rs_manifest sh"
  "rs_complete_blocks (mark_first_payload_unit sh) = rs_complete_blocks sh"
  "rs_session_id (mark_first_payload_unit sh) = rs_session_id sh"
  "rs_route (mark_first_payload_unit sh) = rs_route sh"
  "rs_sink_buffer (mark_first_payload_unit sh) = rs_sink_buffer sh"
  "rs_fec_enabled (mark_first_payload_unit sh) = rs_fec_enabled sh"
  "rs_plan (mark_object_complete sh) = rs_plan sh"
  "rs_manifest (mark_object_complete sh) = rs_manifest sh"
  "rs_complete_blocks (mark_object_complete sh) = rs_complete_blocks sh"
  "rs_session_id (mark_object_complete sh) = rs_session_id sh"
  "rs_route (mark_object_complete sh) = rs_route sh"
  "rs_sink_buffer (mark_object_complete sh) = rs_sink_buffer sh"
  "rs_fec_enabled (mark_object_complete sh) = rs_fec_enabled sh"
  by (simp_all add: mark_first_payload_unit_def mark_object_complete_def)

lemma receiver_inv_mark [simp]:
  "receiver_inv src (mark_first_payload_unit sh) \<longleftrightarrow> receiver_inv src sh"
  "receiver_inv src (mark_object_complete sh) \<longleftrightarrow> receiver_inv src sh"
  by (simp_all add: receiver_inv_def blocks_bounded_def cong: option.case_cong)

text \<open>Completing a block with the source's payload keeps the invariant.\<close>

lemma receiver_inv_complete:
  assumes inv: "receiver_inv src sh" and plan: "rs_plan sh = Some plan"
    and span: "block_span plan b = Some span" and payload: "payload = block_payload src span"
  shows "receiver_inv src ((write_block b payload sh)
    \<lparr>rs_complete_blocks := insert b (rs_complete_blocks (write_block b payload sh))\<rparr>)"
proof -
  obtain m where "plan_ok plan" by (rule receiver_inv_plan [OF inv plan])
  note ok = \<open>plan_ok plan\<close>
  have lt: "b < bp_total_blocks plan" using block_span_Some(1) [OF ok span] .
  have bb: "\<forall>x\<in>insert b (rs_complete_blocks sh). x < bp_total_blocks plan"
    using inv plan lt by (simp add: receiver_inv_def blocks_bounded_def)
  show ?thesis
  proof (cases "rs_sink_buffer sh")
    case None
    then show ?thesis
      using inv plan bb by (auto simp: receiver_inv_def blocks_bounded_def write_block_def span)
  next
    case (Some sink)
    have n: "unat (bp_total_bytes plan) \<le> length sink"
      and h: "\<forall>x\<in>rs_complete_blocks sh. sink_holds plan src x sink"
      using inv plan Some by (auto simp: receiver_inv_def)
    let ?sink = "write_span (unat (bp_total_bytes plan)) span payload sink"
    have "sink_holds plan src b ?sink"
      using sink_holds_write [OF ok span n] by (simp add: payload)
    moreover have "sink_holds plan src x ?sink" if "x \<in> rs_complete_blocks sh" "x \<noteq> b" for x
      using sink_holds_write_other [OF ok span n] h that by (simp add: payload)
    ultimately have "\<forall>x\<in>insert b (rs_complete_blocks sh). sink_holds plan src x ?sink" by blast
    moreover have "length ?sink = length sink"
      by (rule length_write_span [OF span_in_object [OF ok span] n])
    ultimately show ?thesis
      using inv plan Some bb n
      by (auto simp: receiver_inv_def blocks_bounded_def write_block_def span)
  qed
qed

lemma receiver_inv_all_blocks:
  assumes "receiver_inv src sh" "rs_plan sh = Some plan" "rs_sink_buffer sh = Some sink"
    and "\<forall>b < bp_total_blocks plan. b \<in> rs_complete_blocks sh"
  shows "take (unat (bp_total_bytes plan)) sink = padded_source (unat (bp_total_bytes plan)) src"
proof -
  obtain m where "plan_ok plan" by (rule receiver_inv_plan [OF assms(1,2)])
  then show ?thesis
    using assms by (intro sink_complete) (auto simp: receiver_inv_def)
qed

end
