(* ===== verification/Plain_Receiver.thy ===== *)
theory Plain_Receiver
  imports Receiver_Shared
begin

text \<open>
  The plain-mode receiver (\<open>src/dataplane/src/node/session/receiver/plain.rs\<close>), and the
  contract of answering \<open>SourceDone\<close> that it shares with the FEC receiver, as the locale
  \<open>round_reporter\<close>.
\<close>

record PlainReceiver =
  pr_complete_reported :: bool
  pr_last_source_done_round_id :: "u32 option"
  pr_last_round_need :: "NeedReport option"

definition plain_receiver_default :: PlainReceiver where
  "plain_receiver_default = \<lparr>pr_complete_reported = False, pr_last_source_done_round_id = None,
     pr_last_round_need = None\<rparr>"

definition plain_handle_block_data :: "InboundFrame \<Rightarrow> ReceiverShared \<Rightarrow> ReceiverShared" where
  "plain_handle_block_data frame sh =
     (case rs_manifest sh of
        None \<Rightarrow> sh
      | Some m \<Rightarrow>
          if mf_mode m \<noteq> ModePlain then sh
          else case decode_block_data (if_bytes frame) of
              None \<Rightarrow> sh
            | Some (_, data, payload) \<Rightarrow>
                if validate_block_data m data (length payload) \<noteq> Inr () then sh
                else if bd_block_id data \<in> rs_complete_blocks sh then sh
                else
                  let sh = mark_first_payload_unit sh;
                      sh = write_block (bd_block_id data) payload sh
                  in sh\<lparr>rs_complete_blocks := insert (bd_block_id data) (rs_complete_blocks sh)\<rparr>)"

definition plain_handle_source_done :: "ReceiverShared \<Rightarrow> u32 \<Rightarrow> PlainReceiver \<Rightarrow>
    (outputs \<times> PlainReceiver) may_panic" where
  "plain_handle_source_done sh round_id m =
     (let fresh =
        (case plain_need sh of
           None \<Rightarrow> Some ([], m)
         | Some report \<Rightarrow>
             let m = m\<lparr>pr_last_source_done_round_id := Some round_id,
                       pr_last_round_need := Some report\<rparr>
             in map_option (\<lambda>out. (out, m\<lparr>pr_complete_reported := (report = NeedComplete)\<rparr>))
                  (send_need sh round_id report))
      in case pr_last_source_done_round_id m of
           Some last_round_id \<Rightarrow>
             if round_id < last_round_id then Some ([], m)
             else if round_id = last_round_id then
               (case pr_last_round_need m of
                  Some report \<Rightarrow>
                    map_option (\<lambda>out. (out, m\<lparr>pr_complete_reported := (report = NeedComplete)\<rparr>))
                      (send_need sh last_round_id report)
                | None \<Rightarrow> Some ([], m))
             else fresh
         | None \<Rightarrow> fresh)"

section \<open>Answering SourceDone\<close>

text \<open>\<open>last\<close> is the round answered last with its report, \<open>report\<close> computes a fresh
  report from the receiver's blocks; a fresh report is Complete only when the object is held.\<close>

definition object_held :: "ReceiverShared \<Rightarrow> bool" where
  "object_held sh \<longleftrightarrow> (case rs_plan sh of
     None \<Rightarrow> False
   | Some plan \<Rightarrow> bp_total_blocks plan = 0 \<or> has_all_blocks sh)"

locale round_reporter =
  fixes handle :: "ReceiverShared \<Rightarrow> u32 \<Rightarrow> 's \<Rightarrow> (outputs \<times> 's) may_panic"
    and last :: "'s \<Rightarrow> (u32 \<times> NeedReport) option"
    and reported_complete :: "'s \<Rightarrow> bool"
    and report :: "ReceiverShared \<Rightarrow> 's \<Rightarrow> NeedReport option"
    and wf :: "'s \<Rightarrow> bool"
  assumes stale: "wf s \<Longrightarrow> last s = Some (r', rep) \<Longrightarrow> r < r' \<Longrightarrow> handle sh r s = Some ([], s)"
    and replay: "wf s \<Longrightarrow> last s = Some (r, rep) \<Longrightarrow> handle sh r s = Some (out, s') \<Longrightarrow>
      send_need sh r rep = Some out \<and> last s' = Some (r, rep)"
    and fresh: "wf s \<Longrightarrow> (\<forall>r' rep'. last s = Some (r', rep') \<longrightarrow> r' < r) \<Longrightarrow>
      handle sh r s = Some (out, s') \<Longrightarrow>
      (case report sh s of
         None \<Rightarrow> out = [] \<and> s' = s
       | Some rep \<Rightarrow> send_need sh r rep = Some out \<and> last s' = Some (r, rep))"
    and keeps: "wf s \<Longrightarrow> handle sh r s = Some (out, s') \<Longrightarrow> wf s'"
    and reported: "wf s \<Longrightarrow> reported_complete s \<longleftrightarrow> (\<exists>r. last s = Some (r, NeedComplete))"
    and complete_held: "blocks_bounded sh \<Longrightarrow> report sh s = Some rep \<Longrightarrow>
      canonical_report rep = NeedComplete \<Longrightarrow> object_held sh"
begin

lemma send_need_nonempty: "send_need sh r rep = Some out \<Longrightarrow> out \<noteq> []"
  by (auto simp: send_need_def send_control_def)

lemma handle_cases:
  assumes "wf s" "handle sh r s = Some (out, s')"
  obtains "out = []" "last s' = last s" "s' = s"
  | rep where "send_need sh r rep = Some out" "last s' = Some (r, rep)"
      "\<forall>r0 rep0. last s = Some (r0, rep0) \<longrightarrow> r0 \<le> r \<and> (r0 = r \<longrightarrow> rep0 = rep)"
      "\<not> (\<exists>rep0. last s = Some (r, rep0)) \<longrightarrow> report sh s = Some rep"
proof -
  note same = that(1) and sent = that(2)
  have fresh_case: thesis if new: "\<forall>r' rep'. last s = Some (r', rep') \<longrightarrow> r' < r"
  proof (cases "report sh s")
    case None
    then show thesis using fresh [OF assms(1) new assms(2)] same by simp
  next
    case (Some rep)
    then have "send_need sh r rep = Some out" "last s' = Some (r, rep)"
      using fresh [OF assms(1) new assms(2)] by simp_all
    moreover have "\<forall>r0 rep0. last s = Some (r0, rep0) \<longrightarrow> r0 \<le> r \<and> (r0 = r \<longrightarrow> rep0 = rep)"
      using new by fastforce
    ultimately show thesis using sent Some by blast
  qed
  show thesis
  proof (cases "last s")
    case None
    then show thesis by (intro fresh_case) simp
  next
    case (Some p)
    obtain r0 rep0 where p: "last s = Some (r0, rep0)" using Some by (cases p) auto
    consider "r < r0" | "r = r0" | "r0 < r" by (rule linorder_cases)
    then show thesis
    proof cases
      case 1
      have "handle sh r s = Some ([], s)" by (rule stale [OF assms(1) p 1])
      then have "out = []" "s' = s" using assms(2) by simp_all
      then show thesis by (intro same) simp_all
    next
      case 2
      then have "send_need sh r rep0 = Some out \<and> last s' = Some (r, rep0)"
        using replay [OF assms(1) _ assms(2)] p by simp
      then show thesis using p 2 by (intro sent [of rep0]) simp_all
    next
      case 3
      then show thesis by (intro fresh_case) (simp add: p)
    qed
  qed
qed

lemma handle_complete:
  assumes "wf s" "handle sh r s = Some (out, s')" "blocks_bounded sh"
    and "\<forall>r rep. last s = Some (r, rep) \<longrightarrow> canonical_report rep = NeedComplete \<longrightarrow> object_held sh"
  shows "\<forall>r rep. last s' = Some (r, rep) \<longrightarrow> canonical_report rep = NeedComplete \<longrightarrow> object_held sh"
  using assms(1,2)
proof (cases rule: handle_cases)
  case 1
  then show ?thesis using assms(4) by simp
next
  case (2 rep)
  show ?thesis
  proof (intro allI impI)
    fix r' rep' assume "last s' = Some (r', rep')" "canonical_report rep' = NeedComplete"
    then have rep: "canonical_report rep = NeedComplete" using 2(2) by simp
    show "object_held sh"
    proof (cases "\<exists>rep0. last s = Some (r, rep0)")
      case True
      then have "last s = Some (r, rep)" using 2(3) by blast
      then show ?thesis using assms(4) rep by blast
    next
      case False
      then have "report sh s = Some rep" using 2(4) by blast
      then show ?thesis using complete_held [OF assms(3)] rep by blast
    qed
  qed
qed

end

text \<open>The sequence of answers a receiver gives: rounds never go back, and a round is
  answered with one report.  The first argument is the answer given last.\<close>

definition rounds_ok :: "(u32 \<times> NeedReport) option \<Rightarrow> (u32 \<times> NeedReport) list \<Rightarrow> bool" where
  "rounds_ok prev as \<longleftrightarrow>
     sorted_wrt (\<lambda>(r1, rep1) (r2, rep2). r1 \<le> r2 \<and> (r1 = r2 \<longrightarrow> rep1 = rep2)) as \<and>
     (\<forall>r0 rep0. prev = Some (r0, rep0) \<longrightarrow> (\<forall>(r, rep)\<in>set as. r0 \<le> r \<and> (r0 = r \<longrightarrow> rep0 = rep)))"

lemma rounds_ok_Nil [simp]: "rounds_ok prev []"
  by (simp add: rounds_ok_def)

lemma rounds_ok_Cons:
  assumes "rounds_ok (Some (r, rep)) as"
    and "\<forall>r0 rep0. prev = Some (r0, rep0) \<longrightarrow> r0 \<le> r \<and> (r0 = r \<longrightarrow> rep0 = rep)"
  shows "rounds_ok prev ((r, rep) # as)"
  using assms by (fastforce simp: rounds_ok_def)

definition plain_last :: "PlainReceiver \<Rightarrow> (u32 \<times> NeedReport) option" where
  "plain_last m = (case (pr_last_source_done_round_id m, pr_last_round_need m) of
     (Some r, Some rep) \<Rightarrow> Some (r, rep) | _ \<Rightarrow> None)"

definition plain_receiver_wf :: "PlainReceiver \<Rightarrow> bool" where
  "plain_receiver_wf m \<longleftrightarrow>
     (pr_last_source_done_round_id m = None \<longleftrightarrow> pr_last_round_need m = None) \<and>
     (pr_complete_reported m \<longleftrightarrow> pr_last_round_need m = Some NeedComplete)"

lemma plain_last_Some:
  "plain_last m = Some (r, rep) \<longleftrightarrow>
     pr_last_source_done_round_id m = Some r \<and> pr_last_round_need m = Some rep"
  by (auto simp: plain_last_def split: option.splits)

lemma plain_need_complete:
  assumes "blocks_bounded sh" "plain_need sh = Some rep" "canonical_report rep = NeedComplete"
  shows "object_held sh"
proof (cases "rs_plan sh")
  case None
  then show ?thesis using assms(2) by (simp add: plain_need_def)
next
  case (Some plan)
  show ?thesis
  proof (rule ccontr)
    assume "\<not> object_held sh"
    then have "\<not> (bp_total_blocks plan = 0 \<or> word_of_nat (card (rs_complete_blocks sh)) = bp_total_blocks plan)"
      by (simp add: object_held_def has_all_blocks_def Some)
    then obtain rs where "plain_need sh = Some (NeedPlain rs)" "rs \<noteq> []"
      by (rule plain_need_ranges [OF assms(1) Some])
    then show False using assms(2,3) by (cases rs) simp_all
  qed
qed

interpretation plain_rounds: round_reporter plain_handle_source_done plain_last
  pr_complete_reported "\<lambda>sh _. plain_need sh" plain_receiver_wf
proof
  fix s :: PlainReceiver and sh r r' rep out s'
  assume wf: "plain_receiver_wf s"
  show "plain_last s = Some (r', rep) \<Longrightarrow> r < r' \<Longrightarrow> plain_handle_source_done sh r s = Some ([], s)"
    by (simp add: plain_handle_source_done_def plain_last_Some)
  show "plain_last s = Some (r, rep) \<Longrightarrow> plain_handle_source_done sh r s = Some (out, s') \<Longrightarrow>
      send_need sh r rep = Some out \<and> plain_last s' = Some (r, rep)"
    by (auto simp: plain_handle_source_done_def plain_last_Some)
  show "\<forall>r' rep'. plain_last s = Some (r', rep') \<longrightarrow> r' < r \<Longrightarrow>
      plain_handle_source_done sh r s = Some (out, s') \<Longrightarrow>
      (case plain_need sh of
         None \<Rightarrow> out = [] \<and> s' = s
       | Some rep \<Rightarrow> send_need sh r rep = Some out \<and> plain_last s' = Some (r, rep))"
    using wf
    by (cases "pr_last_source_done_round_id s"; cases "pr_last_round_need s"; cases "plain_need sh")
      (auto simp: plain_handle_source_done_def plain_receiver_wf_def plain_last_def Let_def
        split: if_splits)
  show "plain_handle_source_done sh r s = Some (out, s') \<Longrightarrow> plain_receiver_wf s'"
    using wf
    by (auto simp: plain_handle_source_done_def plain_receiver_wf_def Let_def
        split: option.splits if_splits)
  show "pr_complete_reported s \<longleftrightarrow> (\<exists>r. plain_last s = Some (r, NeedComplete))"
    using wf by (auto simp: plain_receiver_wf_def plain_last_def split: option.splits)
qed (rule plain_need_complete)

section \<open>Data frames\<close>

text \<open>\<open>genuine_data\<close>: whatever block frame the bytes decode to, its payload is the one the
  source has for that block.\<close>

definition genuine_data :: "bytes \<Rightarrow> BlockPlan \<Rightarrow> bytes \<Rightarrow> bool" where
  "genuine_data src plan bs \<longleftrightarrow> (\<forall>hdr d payload span.
     decode_block_data bs = Some (hdr, d, payload) \<longrightarrow> block_span plan (bd_block_id d) = Some span \<longrightarrow>
     payload = block_payload src span)"

lemma plain_handle_block_data_cases:
  obtains "plain_handle_block_data f sh = sh"
  | m hdr d payload where "rs_manifest sh = Some m" "mf_mode m = ModePlain"
      "decode_block_data (if_bytes f) = Some (hdr, d, payload)"
      "validate_block_data m d (length payload) = Inr ()"
      "plain_handle_block_data f sh = (let sh' = write_block (bd_block_id d) payload (mark_first_payload_unit sh)
        in sh'\<lparr>rs_complete_blocks := insert (bd_block_id d) (rs_complete_blocks sh')\<rparr>)"
proof (cases "rs_manifest sh")
  case None
  then show thesis by (intro that(1)) (simp add: plain_handle_block_data_def)
next
  case m: (Some m)
  show thesis
  proof (cases "mf_mode m = ModePlain")
    case False
    then show thesis using m by (intro that(1)) (simp add: plain_handle_block_data_def)
  next
    case mode: True
    show thesis
    proof (cases "decode_block_data (if_bytes f)")
      case None
      then show thesis using m mode by (intro that(1)) (simp add: plain_handle_block_data_def)
    next
      case (Some r)
      then obtain hdr d payload where d: "decode_block_data (if_bytes f) = Some (hdr, d, payload)"
        by (cases r) auto
      show thesis
      proof (cases "validate_block_data m d (length payload) = Inr () \<and> bd_block_id d \<notin> rs_complete_blocks sh")
        case True
        then have v: "validate_block_data m d (length payload) = Inr ()"
          "bd_block_id d \<notin> rs_complete_blocks sh" by blast+
        show thesis
          by (rule that(2) [OF m mode d v(1)])
            (simp add: plain_handle_block_data_def Let_def m mode d v)
      next
        case False
        then show thesis using m mode d by (intro that(1)) (auto simp: plain_handle_block_data_def)
      qed
    qed
  qed
qed

lemma plain_handle_block_data_inv:
  assumes "receiver_inv src sh" "\<forall>plan. rs_plan sh = Some plan \<longrightarrow> genuine_data src plan (if_bytes f)"
  shows "receiver_inv src (plain_handle_block_data f sh)"
proof (cases rule: plain_handle_block_data_cases [of f sh])
  case 1
  then show ?thesis using assms(1) by simp
next
  case (2 m hdr d payload)
  then obtain plan where plan: "rs_plan sh = Some plan"
    using assms(1) by (cases "rs_plan sh") (auto simp: receiver_inv_def)
  obtain m' where "plan_ok plan" "rs_manifest sh = Some m'" "bp_total_blocks plan = mf_total_blocks m'"
    by (rule receiver_inv_plan [OF assms(1) plan])
  moreover have "bd_block_id d < mf_total_blocks m"
    using 2(4) by (auto simp: validate_block_data_def and_then_eq_Inr expected_len_Inr split: if_splits)
  ultimately obtain span where span: "block_span plan (bd_block_id d) = Some span"
    using 2(1) block_span_eq [of plan "bd_block_id d"] by auto
  then have "payload = block_payload src span"
    using assms(2) plan 2(3) by (simp add: genuine_data_def)
  then show ?thesis
    using receiver_inv_complete [of src "mark_first_payload_unit sh" plan "bd_block_id d" span payload]
      assms(1) plan span 2(5) by (simp add: Let_def)
qed

lemma plain_handle_block_data_grows:
  "rs_complete_blocks sh \<subseteq> rs_complete_blocks (plain_handle_block_data f sh)"
  "rs_plan (plain_handle_block_data f sh) = rs_plan sh"
  "rs_manifest (plain_handle_block_data f sh) = rs_manifest sh"
  "rs_session_id (plain_handle_block_data f sh) = rs_session_id sh"
  "rs_route (plain_handle_block_data f sh) = rs_route sh"
  by (cases rule: plain_handle_block_data_cases [of f sh]; auto simp: Let_def)+

end
