(* ===== verification/Session_Fec.thy ===== *)
theory Session_Fec
  imports Session_Plan
begin

text \<open>
  The adapter around the RaptorQ codec (\<open>src/dataplane/src/node/session/fec.rs\<close>).  The
  codec itself (\<open>raptorq::SourceBlockEncoder\<close>, \<open>SourceBlockDecoder\<close>) is not part of
  the repository: its two calls are the arguments \<open>repair\<close> (the data of the repair packet
  with an index) and \<open>solve\<close> (the decoder's answer on a list of packets), and what the
  session relies on is the hypothesis \<open>raptorq_sound\<close>.  The codec asserts the limits of RFC 6330
  on its arguments, and the adapter checks none of them: more than 56403 source symbols in a block,
  and encoding symbol ids of 24 bits and more, are panics of the adapter's operations.
\<close>

definition FEC_BLOCK_SEED_SESSION_MULTIPLIER :: u64 where
  "FEC_BLOCK_SEED_SESSION_MULTIPLIER = 0x9E3779B97F4A7C15"
definition FEC_BLOCK_SEED_BLOCK_MULTIPLIER :: u64 where
  "FEC_BLOCK_SEED_BLOCK_MULTIPLIER = 0xBF58476D1CE4E5B9"

unbundle bit_operations_syntax

definition block_seed :: "u64 \<Rightarrow> u64 \<Rightarrow> u64" where
  "block_seed session_id block_id =
     (session_id * FEC_BLOCK_SEED_SESSION_MULTIPLIER) XOR (block_id * FEC_BLOCK_SEED_BLOCK_MULTIPLIER)"

text \<open>RFC 6330 object transmission information as the adapter fills it in; the symbol size is
  cast to 16 bits.\<close>

record Oti =
  oti_transfer_length :: u64
  oti_symbol_size :: u16

text \<open>The limits of RFC 6330 on the source symbols of a block and on the ids of packets.\<close>

definition MAX_SOURCE_SYMBOLS_PER_BLOCK :: nat where "MAX_SOURCE_SYMBOLS_PER_BLOCK = 56403"
definition ESI_LIMIT :: nat where "ESI_LIMIT = 2 ^ 24"

record BlockParams =
  bk_source_symbols :: nat
  bk_symbol_size :: nat
  bk_seed :: u64

definition block_params_new :: "nat \<Rightarrow> nat \<Rightarrow> u64 \<Rightarrow> BlockParams" where
  "block_params_new k n seed = \<lparr>bk_source_symbols = k, bk_symbol_size = n, bk_seed = seed\<rparr>"

text \<open>The transfer length may hold at most that many symbols of the size given; a size that is 0 in
  the 16-bit field is not checked here.\<close>

definition params_oti :: "BlockParams \<Rightarrow> Oti may_panic" where
  "params_oti p =
     (let oti = \<lparr>oti_transfer_length = word_of_nat (bk_source_symbols p * bk_symbol_size p),
            oti_symbol_size = word_of_nat (bk_symbol_size p)\<rparr>;
          symbol_bytes = unat (oti_symbol_size oti)
      in if 0 < symbol_bytes \<and>
            MAX_SOURCE_SYMBOLS_PER_BLOCK * symbol_bytes < unat (oti_transfer_length oti)
         then None else Some oti)"

type_synonym repair = "Oti \<Rightarrow> bytes \<Rightarrow> nat \<Rightarrow> bytes"
type_synonym solve = "Oti \<Rightarrow> nat \<Rightarrow> (u32 \<times> bytes) list \<Rightarrow> bytes option"

record Encoder =
  en_oti :: Oti
  en_block :: bytes
  en_k :: nat

definition encoder_from_block :: "BlockParams \<Rightarrow> bytes \<Rightarrow> Encoder option may_panic" where
  "encoder_from_block p source_block =
     (if bk_source_symbols p = 0 then Some None
      else if length source_block \<noteq> bk_source_symbols p * bk_symbol_size p then Some None
      else map_option (\<lambda>oti. Some \<lparr>en_oti = oti, en_block = source_block, en_k = bk_source_symbols p\<rparr>)
        (params_oti p))"

text \<open>The packet with repair index \<open>i\<close> has the id \<open>k + i\<close>.\<close>

definition encoder_coded_symbol :: "repair \<Rightarrow> Encoder \<Rightarrow> u32 \<Rightarrow> bytes may_panic" where
  "encoder_coded_symbol repair e esi =
     (let coded_index = unat esi - en_k e
      in if ESI_LIMIT \<le> en_k e + coded_index then None
         else Some (repair (en_oti e) (en_block e) coded_index))"

record Decoder =
  de_k :: nat
  de_symbol_size :: nat
  de_oti :: Oti
  de_block_length :: nat

definition decoder_from_block :: "BlockParams \<Rightarrow> Decoder may_panic" where
  "decoder_from_block p =
     map_option (\<lambda>oti. \<lparr>de_k = bk_source_symbols p, de_symbol_size = bk_symbol_size p, de_oti = oti,
        de_block_length = bk_source_symbols p * bk_symbol_size p\<rparr>) (params_oti p)"

text \<open>A received symbol is its ESI and payload; \<open>source_symbol\<close> asserts the ESI.\<close>

definition decoder_source_symbol :: "Decoder \<Rightarrow> u32 \<Rightarrow> bytes \<Rightarrow> (u32 \<times> bytes) may_panic" where
  "decoder_source_symbol d esi payload = (if unat esi < de_k d then Some (esi, payload) else None)"

definition decoder_coded_symbol :: "u32 \<Rightarrow> bytes \<Rightarrow> (u32 \<times> bytes)" where
  "decoder_coded_symbol esi payload = (esi, payload)"

definition split_symbol :: "bytes \<Rightarrow> nat \<Rightarrow> nat \<Rightarrow> bytes" where
  "split_symbol flat n i =
     (let start = i * n; stop = start + n in
      if stop \<le> length flat then slice start n flat
      else if start < length flat then put 0 (drop start flat) (replicate n 0)
      else replicate n 0)"

definition decoder_decode :: "solve \<Rightarrow> Decoder \<Rightarrow> (u32 \<times> bytes) list \<Rightarrow> bytes list option may_panic" where
  "decoder_decode solve d symbols =
     (if list_ex (\<lambda>(esi, _). ESI_LIMIT \<le> unat esi) symbols then None
      else case solve (de_oti d) (de_block_length d) symbols of
        Some flat \<Rightarrow> Some (Some (map (split_symbol flat (de_symbol_size d)) [0 ..< de_k d]))
      | None \<Rightarrow> Some None)"

section \<open>What the session relies on\<close>

text \<open>A packet of the block: the symbol with that index, cut from the source or made by the encoder.\<close>

definition genuine_symbol :: "repair \<Rightarrow> nat \<Rightarrow> nat \<Rightarrow> bytes \<Rightarrow> u32 \<Rightarrow> bytes \<Rightarrow> bool" where
  "genuine_symbol repair k n block esi payload \<longleftrightarrow>
     (if unat esi < k then payload = slice (unat esi * n) n block
      else \<exists>oti. params_oti (block_params_new k n 0) = Some oti \<and> unat esi < ESI_LIMIT \<and>
        payload = repair oti block (unat esi - k))"

text \<open>Documented behaviour of the codec: on packets of one source block, the decoder answers
  nothing or the block.  It is stated for symbol sizes that fit the 16-bit field.\<close>

definition raptorq_sound :: "repair \<Rightarrow> solve \<Rightarrow> bool" where
  "raptorq_sound repair solve \<longleftrightarrow> (\<forall>k n oti block packets flat.
     0 < k \<longrightarrow> n < 2 ^ 16 \<longrightarrow> params_oti (block_params_new k n 0) = Some oti \<longrightarrow> length block = k * n \<longrightarrow>
     (\<forall>(esi, payload)\<in>set packets. genuine_symbol repair k n block esi payload) \<longrightarrow>
     solve oti (k * n) packets = Some flat \<longrightarrow> flat = block)"

text \<open>Repair packets have the symbol size.\<close>

definition repair_sized :: "repair \<Rightarrow> bool" where
  "repair_sized repair \<longleftrightarrow> (\<forall>oti block i. length (repair oti block i) = unat (oti_symbol_size oti))"

text \<open>Both can hold: a codec whose repair packets are zeros and whose decoder waits for every
  source symbol.\<close>

definition plain_repair :: repair where
  "plain_repair oti block i = replicate (unat (oti_symbol_size oti)) 0"

definition plain_solve :: solve where
  "plain_solve oti len packets =
     (let n = unat (oti_symbol_size oti);
          k = (if n = 0 then 0 else len div n);
          found = map (\<lambda>i. map_of (filter (\<lambda>(e, _). unat e < k) packets) (word_of_nat i)) [0 ..< k]
      in if n \<noteq> 0 \<and> k < 2 ^ 32 \<and> None \<notin> set found then Some (concat (map the found)) else None)"

lemma plain_repair_sized: "repair_sized plain_repair"
  by (simp add: repair_sized_def plain_repair_def)

lemma params_oti_seed: "params_oti (block_params_new k n seed) = params_oti (block_params_new k n 0)"
  by (simp add: params_oti_def block_params_new_def)

lemma concat_slices_all: "length xs = k * n \<Longrightarrow> concat (map (\<lambda>i. slice (i * n) n xs) [0 ..< k]) = xs"
  using concat_slices [of n xs k] by simp

lemma oti_fields:
  assumes "params_oti (block_params_new k n seed) = Some oti"
  shows "unat (oti_symbol_size oti) = n mod 2 ^ 16"
  using assms by (auto simp: params_oti_def block_params_new_def Let_def unat_of_nat split: if_splits)

text \<open>When the codec takes a block: symbols that fit the 16-bit field, and not too many of them.\<close>

lemma params_oti_Some:
  assumes "0 < k" "k < 2 ^ 16" "0 < n" "n < 2 ^ 16"
  shows "params_oti (block_params_new k n seed) = None \<longleftrightarrow> MAX_SOURCE_SYMBOLS_PER_BLOCK < k"
proof -
  have "k * n < 2 ^ 16 * 2 ^ 16" using assms by (intro mult_strict_mono) simp_all
  then have "unat (word_of_nat (k * n) :: u64) = k * n" by (intro unat_of_nat_small) simp
  then show ?thesis
    using assms
    by (auto simp: params_oti_def block_params_new_def Let_def unat_of_nat_small simp del: of_nat_mult)
qed

lemma params_oti_None:
  assumes "params_oti (block_params_new k n seed) = None" "k < 2 ^ 16" "n < 2 ^ 16"
  shows "MAX_SOURCE_SYMBOLS_PER_BLOCK < k"
proof -
  have "n \<noteq> 0 \<and> k \<noteq> 0"
  proof (intro conjI notI)
    assume "n = 0"
    then show False using assms(1) by (simp add: params_oti_def block_params_new_def)
  next
    assume "k = 0"
    then show False using assms(1) by (simp add: params_oti_def block_params_new_def Let_def split: if_splits)
  qed
  then show ?thesis using assms params_oti_Some [of k n seed] by simp
qed

lemma plain_codec_sound: "raptorq_sound plain_repair plain_solve"
  unfolding raptorq_sound_def
proof (intro allI impI)
  fix k n :: nat and oti block packets flat
  assume k: "0 < k" and n: "n < 2 ^ 16" and oti: "params_oti (block_params_new k n 0) = Some oti"
    and len: "length block = k * n"
    and gen: "\<forall>(esi, payload)\<in>set packets. genuine_symbol plain_repair k n block esi payload"
    and solved: "plain_solve oti (k * n) packets = Some flat"
  let ?ps = "filter (\<lambda>(e, _). unat e < k) packets"
  have nn: "unat (oti_symbol_size oti) = n"
    using oti_fields [OF oti] n by simp
  have n0: "n \<noteq> 0" and k32: "k < 2 ^ 32"
    and all0: "None \<notin> (\<lambda>i. map_of ?ps (word_of_nat i)) ` {0 ..< k}"
    and flat: "flat = concat (map (\<lambda>i. the (map_of ?ps (word_of_nat i))) [0 ..< k])"
    using solved k by (auto simp: plain_solve_def nn Let_def comp_def simp del: map_of_filter_in split: if_splits)
  have all: "\<exists>p. map_of ?ps (word_of_nat i) = Some p" if "i < k" for i
  proof (cases "map_of ?ps (word_of_nat i)")
    case None
    then have "None \<in> (\<lambda>i. map_of ?ps (word_of_nat i)) ` {0 ..< k}" using that by (intro image_eqI [where x = i]) simp_all
    then show ?thesis using all0 by blast
  qed simp
  have "the (map_of ?ps (word_of_nat i)) = slice (i * n) n block" if i: "i < k" for i
  proof -
    obtain p where p: "map_of ?ps (word_of_nat i) = Some p" using all [OF i] by blast
    have "(word_of_nat i, p) \<in> set packets" using map_of_SomeD [OF p] by simp
    moreover have "unat (word_of_nat i :: u32) = i"
      using less_trans [OF i k32] by (simp add: unat_of_nat_small)
    ultimately show ?thesis using gen i p by (fastforce simp: genuine_symbol_def)
  qed
  then have "flat = concat (map (\<lambda>i. slice (i * n) n block) [0 ..< k])"
    unfolding flat by (intro arg_cong [where f = concat] map_cong) simp_all
  then show "flat = block" by (simp add: concat_slices_all [OF len])
qed

text \<open>Splitting the decoded block gives its symbols back.\<close>

lemma concat_split_symbols:
  assumes "length flat = k * n"
  shows "concat (map (split_symbol flat n) [0 ..< k]) = flat"
proof -
  have "split_symbol flat n i = slice (i * n) n flat" if "i < k" for i
  proof -
    have "i * n + n \<le> k * n" using mult_le_mono1 [of "Suc i" k n] that by simp
    then show ?thesis by (simp add: split_symbol_def assms)
  qed
  then have "map (split_symbol flat n) [0 ..< k] = map (\<lambda>i. slice (i * n) n flat) [0 ..< k]" by simp
  then show ?thesis by (simp only: concat_slices_all [OF assms])
qed

lemma block_seed_known: "block_seed 0xA55A 17 = 0xD429E47F291A692B"
  by (simp add: block_seed_def FEC_BLOCK_SEED_SESSION_MULTIPLIER_def FEC_BLOCK_SEED_BLOCK_MULTIPLIER_def)

text \<open>Validation accepts any 16-bit number of symbols above 0, but beyond the limit no encoder can be built.\<close>

lemma large_block_encoder_panics:
  assumes "MAX_SOURCE_SYMBOLS_PER_BLOCK < k" "k < 2 ^ 16" "0 < n" "n < 2 ^ 16" "length block = k * n"
  shows "encoder_from_block (block_params_new k n seed) block = None"
proof -
  have "k * n < 2 ^ 16 * 2 ^ 16" using assms(2-4) by (intro mult_strict_mono) simp_all
  then have "unat (word_of_nat (k * n) :: u64) = k * n" "unat (word_of_nat n :: u16) = n"
    using assms(4) by (simp_all add: unat_of_nat_small del: of_nat_mult)
  then show ?thesis using assms
    by (simp add: encoder_from_block_def block_params_new_def params_oti_def MAX_SOURCE_SYMBOLS_PER_BLOCK_def
        Let_def del: of_nat_mult)
qed

end
