(* ===== verification/Fec_Receiver.thy ===== *)
theory Fec_Receiver
  imports Plain_Receiver Session_Fec Wire_Blocks
begin

text \<open>
  The FEC-mode receiver (\<open>src/dataplane/src/node/session/receiver/fec.rs\<close>): symbols are
  collected per block until the block can be read off its source symbols or the decoder
  answers.  The ordered maps are association lists with increasing keys (the symbols of a
  block, \<open>btree_insert\<close> of Prelude) and partial maps (the blocks); \<open>can_reserve\<close> says which allocations succeed.
\<close>

section \<open>State\<close>

record FecBlockState =
  fb_symbols :: "(u32 \<times> bytes) list"

lemma fb_symbols_update: "(st :: FecBlockState)\<lparr>fb_symbols := x\<rparr> = \<lparr>fb_symbols = x\<rparr>"
  by simp

definition fec_block_default :: FecBlockState where
  "fec_block_default = \<lparr>fb_symbols = []\<rparr>"

record FecReceiver =
  fr_geometry :: SymbolGeometry
  fr_blocks :: "u64 \<rightharpoonup> FecBlockState"
  fr_last_source_done_round_id :: "u32 option"
  fr_last_round_need :: "NeedReport option"
  fr_complete_reported :: bool

definition fec_receiver_new :: "SymbolGeometry \<Rightarrow> FecReceiver" where
  "fec_receiver_new geometry =
     \<lparr>fr_geometry = geometry, fr_blocks = Map.empty, fr_last_source_done_round_id = None,
      fr_last_round_need = None, fr_complete_reported = False\<rparr>"

definition complete_block :: "u64 \<Rightarrow> bytes \<Rightarrow> FecReceiver \<times> ReceiverShared \<Rightarrow>
    FecReceiver \<times> ReceiverShared" where
  "complete_block block_id block = (\<lambda>(m, sh).
     let sh = write_block block_id block sh;
         sh = sh\<lparr>rs_complete_blocks := insert block_id (rs_complete_blocks sh)\<rparr>
     in (m\<lparr>fr_blocks := (fr_blocks m)(block_id := None)\<rparr>, sh))"

text \<open>A block all of whose source symbols arrived is their concatenation, each padded with
  zeros or cut to the symbol size.\<close>

definition systematic_block_payload ::
    "(nat \<Rightarrow> bool) \<Rightarrow> FecBlockState \<Rightarrow> nat \<Rightarrow> nat \<Rightarrow> nat \<Rightarrow> bytes option" where
  "systematic_block_payload can_reserve state k n len =
     (if 2 ^ 64 \<le> k * n then None
      else if \<not> can_reserve (k * n) then None
      else
        let found = map (\<lambda>i. map_of (fb_symbols state) (word_of_nat i)) [0 ..< k]
        in if None \<in> set found then None
           else Some (take len (concat (map (\<lambda>p. resize_zero n (the p)) found))))"

text \<open>The padded packets handed to the decoder: outside, a failed assertion; inside, an
  allocation that failed.\<close>

fun pad_symbols :: "(nat \<Rightarrow> bool) \<Rightarrow> Decoder \<Rightarrow> u16 \<Rightarrow> nat \<Rightarrow> (u32 \<times> bytes) list \<Rightarrow>
    (u32 \<times> bytes) list option may_panic" where
  "pad_symbols can_reserve d k n [] = Some (Some [])"
| "pad_symbols can_reserve d k n ((symbol_id, payload) # rest) =
     (if \<not> can_reserve (n - length payload) then Some None
      else
        let padded = resize_zero n payload in
        case (if symbol_id < ucast k then decoder_source_symbol d symbol_id padded
              else Some (decoder_coded_symbol symbol_id padded)) of
          None \<Rightarrow> None
        | Some received \<Rightarrow>
            map_option (map_option (Cons received)) (pad_symbols can_reserve d k n rest))"

definition try_decode_fec_block :: "(nat \<Rightarrow> bool) \<Rightarrow> solve \<Rightarrow> u64 \<Rightarrow> LosslessSessionFecMode \<Rightarrow>
    FecReceiver \<times> ReceiverShared \<Rightarrow> (bool \<times> FecReceiver \<times> ReceiverShared) may_panic" where
  "try_decode_fec_block can_reserve solve block_id fec = (\<lambda>(m, sh).
     case rs_plan sh of
       None \<Rightarrow> Some (False, m, sh)
     | Some plan \<Rightarrow>
     case fr_blocks m block_id of
       None \<Rightarrow> Some (False, m, sh)
     | Some state \<Rightarrow>
     let k = unat (fm_symbols_per_block fec); n = symbol_size (fr_geometry m) in
     if length (fb_symbols state) < k then Some (False, m, sh) else
     case block_len plan block_id of
       None \<Rightarrow> Some (False, m, sh)
     | Some len \<Rightarrow>
     case systematic_block_payload can_reserve state k n (unat len) of
       Some block \<Rightarrow> Some (True, complete_block block_id block (m, sh))
     | None \<Rightarrow>
     case decoder_from_block (block_params_new k n (block_seed (rs_session_id sh) block_id)) of
       None \<Rightarrow> None
     | Some d \<Rightarrow>
     case pad_symbols can_reserve d (fm_symbols_per_block fec) n (fb_symbols state) of
       None \<Rightarrow> None
     | Some None \<Rightarrow> Some (False, m, sh)
     | Some (Some received) \<Rightarrow>
     case decoder_decode solve d received of
       None \<Rightarrow> None
     | Some None \<Rightarrow> Some (False, m, sh)
     | Some (Some output) \<Rightarrow>
     if 2 ^ 64 \<le> length output * n then Some (False, m, sh)
     else if \<not> can_reserve (length output * n) then Some (False, m, sh)
     else Some (True, complete_block block_id (take (unat len) (concat output)) (m, sh)))"

definition handle_block_symbol_frame :: "(nat \<Rightarrow> bool) \<Rightarrow> solve \<Rightarrow> InboundFrame \<Rightarrow>
    FecReceiver \<times> ReceiverShared \<Rightarrow> (FecReceiver \<times> ReceiverShared) may_panic" where
  "handle_block_symbol_frame can_reserve solve frame = (\<lambda>(m, sh).
     case rs_manifest sh of
       None \<Rightarrow> Some (m, sh)
     | Some manifest \<Rightarrow>
     case mf_mode manifest of
       ModePlain \<Rightarrow> Some (m, sh)
     | ModeFec fec \<Rightarrow>
     case decode_block_symbol (if_bytes frame) of
       None \<Rightarrow> Some (m, sh)
     | Some (_, symbol, payload) \<Rightarrow>
     if validate_block_symbol manifest symbol \<noteq> Inr () then Some (m, sh)
     else if bs_block_id symbol \<in> rs_complete_blocks sh then Some (m, sh)
     else
       let state = (case fr_blocks m (bs_block_id symbol) of
                      None \<Rightarrow> fec_block_default | Some state \<Rightarrow> state);
           m = m\<lparr>fr_blocks := (fr_blocks m)(bs_block_id symbol \<mapsto> state)\<rparr>
       in if map_of (fb_symbols state) (bs_symbol_id symbol) \<noteq> None then Some (m, sh)
          else
            let sh = mark_first_payload_unit sh;
                state = state\<lparr>fb_symbols := btree_insert (bs_symbol_id symbol) payload (fb_symbols state)\<rparr>;
                m = m\<lparr>fr_blocks := (fr_blocks m)(bs_block_id symbol \<mapsto> state)\<rparr>
            in map_option snd
                 (try_decode_fec_block can_reserve solve (bs_block_id symbol) fec (m, sh)))"

definition block_deficit :: "FecReceiver \<Rightarrow> ReceiverShared \<Rightarrow> u64 \<Rightarrow> u16" where
  "block_deficit m sh block_id =
     (case rs_manifest sh of
        None \<Rightarrow> 1
      | Some manifest \<Rightarrow>
          (case mf_mode manifest of
             ModePlain \<Rightarrow> 1
           | ModeFec fec \<Rightarrow>
               let present = (case fr_blocks m block_id of
                                Some state \<Rightarrow> length (fb_symbols state) | None \<Rightarrow> 0);
                   total = unat (fm_symbols_per_block fec)
               in if total \<le> present then 1 else max (word_of_nat (total - present)) 1))"

definition fec_need_report :: "ReceiverShared \<Rightarrow> FecReceiver \<Rightarrow> NeedReport option" where
  "fec_need_report sh m =
     (case rs_plan sh of
        None \<Rightarrow> None
      | Some plan \<Rightarrow>
          if bp_total_blocks plan = 0 \<or> has_all_blocks sh then Some NeedComplete
          else Some (NeedFec
            (map (\<lambda>b. \<lparr>nb_block_id = b, nb_deficit_symbols = block_deficit m sh b\<rparr>)
              (filter (\<lambda>b. b \<notin> rs_complete_blocks sh)
                (map word_of_nat [0 ..< unat (bp_total_blocks plan)])))))"

definition fec_handle_source_done :: "ReceiverShared \<Rightarrow> u32 \<Rightarrow> FecReceiver \<Rightarrow>
    (outputs \<times> FecReceiver) may_panic" where
  "fec_handle_source_done sh round_id m =
     (let fresh =
        (case fec_need_report sh m of
           None \<Rightarrow> Some ([], m)
         | Some report \<Rightarrow>
             let m = m\<lparr>fr_last_source_done_round_id := Some round_id,
                       fr_last_round_need := Some report\<rparr>
             in map_option (\<lambda>out. (out, m\<lparr>fr_complete_reported := (report = NeedComplete)\<rparr>))
                  (send_need sh round_id report))
      in case fr_last_source_done_round_id m of
           Some last_round_id \<Rightarrow>
             if round_id < last_round_id then Some ([], m)
             else if round_id = last_round_id then
               (case fr_last_round_need m of
                  Some report \<Rightarrow>
                    map_option (\<lambda>out. (out, m\<lparr>fr_complete_reported := (report = NeedComplete)\<rparr>))
                      (send_need sh last_round_id report)
                | None \<Rightarrow> Some ([], m))
             else fresh
         | None \<Rightarrow> fresh)"

section \<open>Answering SourceDone\<close>

definition fec_last :: "FecReceiver \<Rightarrow> (u32 \<times> NeedReport) option" where
  "fec_last m = (case (fr_last_source_done_round_id m, fr_last_round_need m) of
     (Some r, Some rep) \<Rightarrow> Some (r, rep) | _ \<Rightarrow> None)"

definition fec_receiver_wf :: "FecReceiver \<Rightarrow> bool" where
  "fec_receiver_wf m \<longleftrightarrow>
     (fr_last_source_done_round_id m = None \<longleftrightarrow> fr_last_round_need m = None) \<and>
     (fr_complete_reported m \<longleftrightarrow> fr_last_round_need m = Some NeedComplete)"

lemma fec_last_Some:
  "fec_last m = Some (r, rep) \<longleftrightarrow>
     fr_last_source_done_round_id m = Some r \<and> fr_last_round_need m = Some rep"
  by (auto simp: fec_last_def split: option.splits)

lemma fec_need_complete:
  assumes "blocks_bounded sh" "fec_need_report sh m = Some rep" "canonical_report rep = NeedComplete"
  shows "object_held sh"
proof (cases "rs_plan sh")
  case None
  then show ?thesis using assms(2) by (simp add: fec_need_report_def)
next
  case (Some plan)
  let ?S = "rs_complete_blocks sh" and ?n = "bp_total_blocks plan"
  have b: "\<forall>b\<in>?S. b < ?n" using assms(1) Some by (simp add: blocks_bounded_def)
  show ?thesis
  proof (rule ccontr)
    assume no: "\<not> object_held sh"
    then have "rep = NeedFec (map (\<lambda>b. \<lparr>nb_block_id = b, nb_deficit_symbols = block_deficit m sh b\<rparr>)
        (filter (\<lambda>b. b \<notin> ?S) (map word_of_nat [0 ..< unat ?n])))"
      using assms(2) Some by (simp add: fec_need_report_def object_held_def)
    then have "filter (\<lambda>b. b \<notin> ?S) (map word_of_nat [0 ..< unat ?n]) = []"
      using assms(3) by (cases "filter (\<lambda>b. b \<notin> ?S) (map word_of_nat [0 ..< unat ?n])") simp_all
    then have "{b. b < ?n} \<subseteq> ?S" by (simp only: filter_empty_conv set_words_below) blast
    then have "?S = {b. b < ?n}" using b by blast
    then show False using no all_blocks_iff [OF b] by (simp add: object_held_def has_all_blocks_def Some)
  qed
qed

interpretation fec_rounds: round_reporter fec_handle_source_done fec_last
  fr_complete_reported fec_need_report fec_receiver_wf
proof
  fix s :: FecReceiver and sh r r' rep out s'
  assume wf: "fec_receiver_wf s"
  show "fec_last s = Some (r', rep) \<Longrightarrow> r < r' \<Longrightarrow> fec_handle_source_done sh r s = Some ([], s)"
    by (simp add: fec_handle_source_done_def fec_last_Some)
  show "fec_last s = Some (r, rep) \<Longrightarrow> fec_handle_source_done sh r s = Some (out, s') \<Longrightarrow>
      send_need sh r rep = Some out \<and> fec_last s' = Some (r, rep)"
    by (auto simp: fec_handle_source_done_def fec_last_Some)
  show "\<forall>r' rep'. fec_last s = Some (r', rep') \<longrightarrow> r' < r \<Longrightarrow>
      fec_handle_source_done sh r s = Some (out, s') \<Longrightarrow>
      (case fec_need_report sh s of
         None \<Rightarrow> out = [] \<and> s' = s
       | Some rep \<Rightarrow> send_need sh r rep = Some out \<and> fec_last s' = Some (r, rep))"
    using wf
    by (cases "fr_last_source_done_round_id s"; cases "fr_last_round_need s"; cases "fec_need_report sh s")
      (auto simp: fec_handle_source_done_def fec_receiver_wf_def fec_last_def Let_def
        split: if_splits)
  show "fec_handle_source_done sh r s = Some (out, s') \<Longrightarrow> fec_receiver_wf s'"
    using wf
    by (auto simp: fec_handle_source_done_def fec_receiver_wf_def Let_def
        split: option.splits if_splits)
  show "fr_complete_reported s \<longleftrightarrow> (\<exists>r. fec_last s = Some (r, NeedComplete))"
    using wf by (auto simp: fec_receiver_wf_def fec_last_def split: option.splits)
qed (rule fec_need_complete)


section \<open>Decoding a block from genuine symbols\<close>

lemma length_genuine_symbol:
  assumes "genuine_symbol repair k n block esi p" "repair_sized repair" "n < 2 ^ 16"
    and "length block = k * n"
  shows "length p = n"
proof (cases "unat esi < k")
  case True
  then have "unat esi * n + n \<le> k * n" using mult_le_mono1 [of "Suc (unat esi)" k n] by simp
  then show ?thesis using assms True by (simp add: genuine_symbol_def)
next
  case False
  then show ?thesis
    using assms oti_fields by (auto simp: genuine_symbol_def repair_sized_def)
qed

lemma resize_zero_id: "length p = n \<Longrightarrow> resize_zero n p = p"
  by (simp add: resize_zero_def)

lemma systematic_block_sound:
  assumes "systematic_block_payload can_reserve state k n len = Some out"
    and "\<forall>(esi, p)\<in>set (fb_symbols state). genuine_symbol repair k n block esi p"
    and "length block = k * n" "k < 2 ^ 16"
  shows "out = take len block"
proof -
  let ?found = "\<lambda>i. map_of (fb_symbols state) (word_of_nat i)"
  have all: "None \<notin> ?found ` {0 ..< k}"
    and out: "out = take len (concat (map (\<lambda>i. resize_zero n (the (?found i))) [0 ..< k]))"
    using assms(1) by (auto simp: systematic_block_payload_def Let_def comp_def split: if_splits)
  have "resize_zero n (the (?found i)) = slice (i * n) n block" if i: "i < k" for i
  proof (cases "?found i")
    case None
    then have "None \<in> ?found ` {0 ..< k}" using i by (intro image_eqI [where x = i]) simp_all
    then show ?thesis using all by blast
  next
    case (Some p)
    have "unat (word_of_nat i :: u32) = i"
      using i assms(4) by (intro unat_of_nat_small) simp
    moreover have "genuine_symbol repair k n block (word_of_nat i) p"
      using assms(2) map_of_SomeD [OF Some] by fast
    moreover have "i * n + n \<le> k * n" using mult_le_mono1 [of "Suc i" k n] i by simp
    ultimately show ?thesis using Some i assms(3) by (simp add: genuine_symbol_def resize_zero_id)
  qed
  then have "map (\<lambda>i. resize_zero n (the (?found i))) [0 ..< k] =
      map (\<lambda>i. slice (i * n) n block) [0 ..< k]" by simp
  then show ?thesis by (simp only: out concat_slices_all [OF assms(3)])
qed

text \<open>The assertion of \<open>source_symbol\<close> cannot fail, and padding leaves genuine packets as
  they are.\<close>

lemma pad_symbols_total:
  "de_k d = unat k \<Longrightarrow> pad_symbols can_reserve d k n syms \<noteq> None"
proof (induction can_reserve d k n syms rule: pad_symbols.induct)
  case (2 can_reserve d k n symbol_id payload rest)
  have "symbol_id < ucast k \<Longrightarrow> unat symbol_id < unat k"
    by (simp add: word_less_nat_alt unat_ucast_widen)
  then show ?case
    using 2 by (auto simp: decoder_source_symbol_def Let_def)
qed simp

lemma pad_symbols_genuine:
  assumes "pad_symbols can_reserve d k n syms = Some (Some received)"
    and "\<forall>(esi, p)\<in>set syms. length p = n"
  shows "received = syms"
  using assms
proof (induction can_reserve d k n syms arbitrary: received rule: pad_symbols.induct)
  case (2 can_reserve d k n symbol_id payload rest)
  then show ?case
    by (auto simp: Let_def resize_zero_id decoder_source_symbol_def decoder_coded_symbol_def
        split: if_splits option.splits)
qed simp

lemma decoder_decode_sound:
  assumes "raptorq_sound repair solve" "0 < k" "n < 2 ^ 16" "length block = k * n"
    and "\<forall>(esi, p)\<in>set syms. genuine_symbol repair k n block esi p"
    and "decoder_from_block (block_params_new k n seed) = Some d" "decoder_decode solve d syms = Some (Some symbols)"
  shows "concat symbols = block"
proof -
  obtain oti where oti: "params_oti (block_params_new k n 0) = Some oti"
    "d = \<lparr>de_k = k, de_symbol_size = n, de_oti = oti, de_block_length = k * n\<rparr>"
    using assms(6) params_oti_seed [of k n seed]
    by (auto simp: decoder_from_block_def) (simp add: block_params_new_def)
  then obtain flat where solved: "solve oti (k * n) syms = Some flat"
    and symbols: "symbols = map (split_symbol flat n) [0 ..< k]"
    using assms(7) by (auto simp: decoder_decode_def split: option.splits if_splits)
  have "flat = block"
    using assms(1-5) oti(1) solved unfolding raptorq_sound_def by blast
  then show ?thesis using concat_split_symbols [of flat k n] assms(4) symbols by simp
qed

text \<open>Genuine symbols are within the codec's limit on ids.\<close>

lemma genuine_esi_limit:
  "genuine_symbol repair k n block esi p \<Longrightarrow> k < 2 ^ 16 \<Longrightarrow> unat esi < ESI_LIMIT"
  by (auto simp: genuine_symbol_def ESI_LIMIT_def split: if_splits)

lemma decoder_decode_total:
  assumes "\<forall>(esi, p)\<in>set syms. genuine_symbol repair k n block esi p" "k < 2 ^ 16"
  shows "decoder_decode solve d syms \<noteq> None"
proof -
  have "\<not> list_ex (\<lambda>(esi, _). ESI_LIMIT \<le> unat esi) syms"
    using assms genuine_esi_limit by (fastforce simp: list_ex_iff)
  then show ?thesis by (simp add: decoder_decode_def split: option.split)
qed

text \<open>\<open>source_ids k\<close>: the ESIs of the \<open>k\<close> source symbols.\<close>

definition source_ids :: "u16 \<Rightarrow> u32 set" where
  "source_ids k = word_of_nat ` {0 ..< unat k}"

lemma None_not_in_image: "(\<And>i. i \<in> A \<Longrightarrow> f i \<noteq> None) \<Longrightarrow> None \<notin> f ` A"
  by (metis imageE)

lemma systematic_block_total:
  assumes "\<forall>n. can_reserve n" "source_ids k \<subseteq> fst ` set (fb_symbols state)" "unat k * n < 2 ^ 64"
  shows "systematic_block_payload can_reserve state (unat k) n len \<noteq> None"
proof -
  have "map_of (fb_symbols state) (word_of_nat i) \<noteq> None" if "i < unat k" for i
  proof -
    have "(word_of_nat i :: u32) \<in> source_ids k" using that by (simp add: source_ids_def)
    then have "word_of_nat i \<in> fst ` set (fb_symbols state)" using assms(2) by blast
    then show ?thesis unfolding map_of_eq_None_iff by blast
  qed
  then have "None \<notin> (\<lambda>i. map_of (fb_symbols state) (word_of_nat i)) ` {0 ..< unat k}"
    by (intro None_not_in_image) simp
  then show ?thesis using assms(1,3) by (simp add: systematic_block_payload_def Let_def comp_def)
qed

text \<open>As many genuine symbols as source symbols, when no repair symbol can be genuine, are the source
  symbols.\<close>

lemma all_source_symbols:
  assumes "distinct (map fst syms)" "\<forall>(esi, p)\<in>set syms. unat esi < unat k" "unat k \<le> length syms"
  shows "source_ids k \<subseteq> fst ` set (syms :: (u32 \<times> 'v) list)"
proof -
  have sub: "unat ` fst ` set syms \<subseteq> {0 ..< unat k}" using assms(2) by auto
  have "inj_on unat (fst ` set syms)" by (rule inj_onI) (simp add: word_unat_eq_iff)
  then have "card (unat ` fst ` set syms) = length syms"
    using distinct_card [OF assms(1)] by (simp add: card_image)
  then have "unat ` fst ` set syms = {0 ..< unat k}"
    using assms(3) card_mono [OF _ sub] by (intro card_subset_eq [OF _ sub]) simp_all
  then have img: "word_of_nat ` unat ` fst ` set syms = (word_of_nat ` {0 ..< unat k} :: u32 set)" by simp
  have "fst ` set syms = (word_of_nat ` unat ` fst ` set syms :: u32 set)" by (simp add: image_image)
  then show ?thesis using img by (simp add: source_ids_def)
qed

text \<open>The codec refuses blocks of more source symbols than its limit; such a block can still complete
  from its source symbols, which takes an allocation.\<close>

definition within_codec :: "(nat \<Rightarrow> bool) \<Rightarrow> u16 \<Rightarrow> bool" where
  "within_codec can_reserve k \<longleftrightarrow> unat k \<le> MAX_SOURCE_SYMBOLS_PER_BLOCK \<or> (\<forall>n. can_reserve n)"

section \<open>The invariant\<close>

definition genuine_symbols :: "repair \<Rightarrow> bytes \<Rightarrow> BlockPlan \<Rightarrow> u16 \<Rightarrow> SymbolGeometry \<Rightarrow> u64 \<Rightarrow>
    (u32 \<times> bytes) list \<Rightarrow> bool" where
  "genuine_symbols repair src plan k g b syms \<longleftrightarrow> (\<forall>span. block_span plan b = Some span \<longrightarrow>
     (\<forall>(esi, p)\<in>set syms.
        genuine_symbol repair (unat k) (symbol_size g) (padded_symbol_bytes src span g) esi p))"

definition fec_receiver_inv :: "repair \<Rightarrow> bytes \<Rightarrow> FecReceiver \<Rightarrow> ReceiverShared \<Rightarrow> bool" where
  "fec_receiver_inv repair src m sh \<longleftrightarrow> (\<exists>plan manifest fec.
     rs_plan sh = Some plan \<and> rs_manifest sh = Some manifest \<and> mf_mode manifest = ModeFec fec \<and>
     symbol_geometry plan (fm_symbols_per_block fec) = Inr (fr_geometry m) \<and>
     (\<forall>b state. fr_blocks m b = Some state \<longrightarrow>
        btree_wf (fb_symbols state) \<and>
        genuine_symbols repair src plan (fm_symbols_per_block fec) (fr_geometry m) b (fb_symbols state)))"

lemma complete_block_fields [simp]:
  "fr_geometry (fst (complete_block b block (m, sh))) = fr_geometry m"
  "fr_blocks (fst (complete_block b block (m, sh))) = (fr_blocks m)(b := None)"
  "rs_plan (snd (complete_block b block (m, sh))) = rs_plan sh"
  "rs_manifest (snd (complete_block b block (m, sh))) = rs_manifest sh"
  "rs_complete_blocks (snd (complete_block b block (m, sh))) = insert b (rs_complete_blocks sh)"
  by (simp_all add: complete_block_def Let_def)

lemma fec_receiver_inv_complete:
  "fec_receiver_inv repair src m sh \<Longrightarrow>
     fec_receiver_inv repair src (fst (complete_block b block (m, sh)))
       (snd (complete_block b block (m, sh)))"
  by (auto simp: fec_receiver_inv_def)

text \<open>Whatever the decoding attempt completes is the source's block.\<close>

lemma try_decode_cases:
  assumes "raptorq_sound repair solve" "repair_sized repair"
    and inv: "receiver_inv src sh" "fec_receiver_inv repair src m sh"
    and small: "symbol_size (fr_geometry m) < 2 ^ 16"
    and manifest: "rs_manifest sh = Some manifest" "mf_mode manifest = ModeFec fec"
  obtains "try_decode_fec_block can_reserve solve b fec (m, sh) = Some (False, m, sh)"
  | plan span where "rs_plan sh = Some plan" "block_span plan b = Some span"
      "try_decode_fec_block can_reserve solve b fec (m, sh) =
         Some (True, complete_block b (block_payload src span) (m, sh))"
  | "try_decode_fec_block can_reserve solve b fec (m, sh) = None"
      "\<not> within_codec can_reserve (fm_symbols_per_block fec)"
proof -
  let ?k = "fm_symbols_per_block fec" and ?n = "symbol_size (fr_geometry m)"
  note fails = that(1) and completes = that(2) and panics = that(3)
  obtain plan where plan: "rs_plan sh = Some plan"
    and geo: "symbol_geometry plan ?k = Inr (fr_geometry m)"
    and gen: "\<And>state. fr_blocks m b = Some state \<Longrightarrow>
        genuine_symbols repair src plan ?k (fr_geometry m) b (fb_symbols state)"
    and wf: "\<And>state. fr_blocks m b = Some state \<Longrightarrow> btree_wf (fb_symbols state)"
    using inv(2) manifest by (auto simp: fec_receiver_inv_def)
  obtain m' where ok: "plan_ok plan" by (rule receiver_inv_plan [OF inv(1) plan])
  note g = symbol_geometry_new_Inr [OF geo [unfolded symbol_geometry_def]]
  show thesis
  proof (cases "fr_blocks m b")
    case None
    then show thesis by (intro fails) (simp add: try_decode_fec_block_def plan)
  next
    case st: (Some state)
    show thesis
    proof (cases "length (fb_symbols state) < unat ?k \<or> block_len plan b = None")
      case True
      then show thesis
        using st by (intro fails) (auto simp: try_decode_fec_block_def plan Let_def)
    next
      case False
      then obtain len where enough: "\<not> length (fb_symbols state) < unat ?k"
        and len: "block_len plan b = Some len" by blast
      have "b < bp_total_blocks plan"
        using len by (auto simp: block_len_def contains_block_def split: if_splits)
      then obtain span where span: "block_span plan b = Some span" "sp_len span = len"
        using block_span_eq [OF ok] len by (fastforce simp: block_span_def split: option.splits)
      have le: "unat (sp_len span) \<le> unat (bp_block_size plan)"
        using block_span_Some(3) [OF ok span(1)] by (simp add: block_bytes_le)
      note padded = padded_symbol_bytes_eq [OF geo [unfolded symbol_geometry_def] le]
        and plen = length_padded_symbol_bytes [OF geo [unfolded symbol_geometry_def] le]
      let ?block = "padded_symbol_bytes src span (fr_geometry m)"
      have block: "take (unat len) ?block = block_payload src span"
        by (simp add: padded(1) span(2) [symmetric])
      have gens: "\<forall>(esi, p)\<in>set (fb_symbols state). genuine_symbol repair (unat ?k) ?n ?block esi p"
        using gen [OF st] span(1) by (simp add: genuine_symbols_def)
      have k16: "unat ?k < 2 ^ 16" by (rule unat_u16_bound)
      show thesis
      proof (cases "systematic_block_payload can_reserve state (unat ?k) ?n (unat len)")
        case (Some out)
        then have "out = block_payload src span"
          using systematic_block_sound [OF Some gens plen k16] block by simp
        then show thesis
          using completes [OF plan span(1)] Some enough
          by (simp add: try_decode_fec_block_def plan st len Let_def)
      next
        case None
        note sys = None
        let ?p = "block_params_new (unat ?k) ?n (block_seed (rs_session_id sh) b)"
        show thesis
        proof (cases "decoder_from_block ?p")
          case None
          then have oti: "params_oti ?p = None" by (simp add: decoder_from_block_def)
          then have many: "MAX_SOURCE_SYMBOLS_PER_BLOCK < unat ?k" by (rule params_oti_None [OF _ k16 small])
          have "params_oti (block_params_new (unat ?k) ?n 0) = None"
            using oti params_oti_seed [of "unat ?k" ?n "block_seed (rs_session_id sh) b"] by simp
          then have "\<forall>(esi, p)\<in>set (fb_symbols state). unat esi < unat ?k"
            using gens by (auto simp: genuine_symbol_def split: if_splits)
          then have all: "source_ids ?k \<subseteq> fst ` set (fb_symbols state)"
            using enough wf [OF st] by (intro all_source_symbols) (simp_all add: btree_wf_def strict_sorted_iff)
          have "unat ?k * ?n < 2 ^ 16 * 2 ^ 16" using k16 small by (intro mult_strict_mono) simp_all
          then have "\<not> (\<forall>n. can_reserve n)"
            using systematic_block_total [OF _ all, of can_reserve ?n "unat len"] sys by fastforce
          with many None sys show thesis
            by (intro panics)
              (simp_all add: try_decode_fec_block_def plan st len enough Let_def within_codec_def)
        next
          case d: (Some d)
          have dk: "de_k d = unat ?k" using d by (auto simp: decoder_from_block_def block_params_new_def)
          obtain r where r: "pad_symbols can_reserve d ?k ?n (fb_symbols state) = Some r"
            using pad_symbols_total [OF dk] by blast
          show thesis
          proof (cases r)
            case None
            with sys d r show thesis
              by (intro fails) (simp add: try_decode_fec_block_def plan st len enough Let_def)
          next
            case (Some received)
            have "\<forall>(esi, p)\<in>set (fb_symbols state). length p = ?n"
              using gens length_genuine_symbol [OF _ assms(2) small plen] by blast
            then have rec: "pad_symbols can_reserve d ?k ?n (fb_symbols state) = Some (Some (fb_symbols state))"
              using pad_symbols_genuine [of can_reserve d ?k ?n "fb_symbols state" received] r Some by simp
            obtain out where out: "decoder_decode solve d (fb_symbols state) = Some out"
              using decoder_decode_total [OF gens k16] by blast
            show thesis
            proof (cases out)
              case None
              with sys d rec out show thesis
                by (intro fails) (simp add: try_decode_fec_block_def plan st len enough Let_def)
            next
              case (Some symbols)
              have flat: "concat symbols = ?block"
                by (rule decoder_decode_sound [OF assms(1) g(2) small plen gens d out [unfolded Some]])
              with sys d rec out Some show thesis
                using completes [OF plan span(1)] fails
                by (cases "2 ^ 64 \<le> length symbols * ?n \<or> \<not> can_reserve (length symbols * ?n)")
                  (auto simp: try_decode_fec_block_def plan st len enough Let_def block)
            qed
          qed
        qed
      qed
    qed
  qed
qed

section \<open>Symbol frames\<close>

definition genuine_symbol_frame :: "repair \<Rightarrow> bytes \<Rightarrow> BlockPlan \<Rightarrow> u16 \<Rightarrow> SymbolGeometry \<Rightarrow> bytes \<Rightarrow> bool" where
  "genuine_symbol_frame repair src plan k g bs \<longleftrightarrow> (\<forall>hdr sym p. decode_block_symbol bs = Some (hdr, sym, p) \<longrightarrow>
     genuine_symbols repair src plan k g (bs_block_id sym) [(bs_symbol_id sym, p)])"

text \<open>The keys collected for a block.\<close>

definition held_symbols :: "FecReceiver \<Rightarrow> u64 \<Rightarrow> (u32 \<times> bytes) list" where
  "held_symbols m b = (case fr_blocks m b of None \<Rightarrow> [] | Some state \<Rightarrow> fb_symbols state)"

definition hold_symbol :: "u64 \<Rightarrow> u32 \<Rightarrow> bytes \<Rightarrow> FecReceiver \<Rightarrow> FecReceiver" where
  "hold_symbol b esi p m =
     m\<lparr>fr_blocks := (fr_blocks m)(b \<mapsto> \<lparr>fb_symbols = btree_insert esi p (held_symbols m b)\<rparr>)\<rparr>"

lemma handle_block_symbol_frame_cases:
  assumes "rs_manifest sh = Some manifest" "mf_mode manifest = ModeFec fec"
  obtains "handle_block_symbol_frame can_reserve solve f (m, sh) = Some (m, sh)"
      "\<forall>hdr sym p. decode_block_symbol (if_bytes f) = Some (hdr, sym, p) \<longrightarrow>
         validate_block_symbol manifest sym = Inr () \<longrightarrow>
         bs_block_id sym \<in> rs_complete_blocks sh \<or>
         bs_symbol_id sym \<in> fst ` set (held_symbols m (bs_block_id sym))"
  | hdr sym p where "decode_block_symbol (if_bytes f) = Some (hdr, sym, p)"
      "validate_block_symbol manifest sym = Inr ()" "bs_block_id sym \<notin> rs_complete_blocks sh"
      "handle_block_symbol_frame can_reserve solve f (m, sh) =
         map_option snd (try_decode_fec_block can_reserve solve (bs_block_id sym) fec
           (hold_symbol (bs_block_id sym) (bs_symbol_id sym) p m, mark_first_payload_unit sh))"
proof -
  note ignored = that(1) and held = that(2)
  note eq = handle_block_symbol_frame_def assms
  show thesis
  proof (cases "decode_block_symbol (if_bytes f)")
    case None
    then show thesis by (intro ignored) (simp_all add: eq)
  next
    case (Some r)
    then obtain hdr sym p where d: "decode_block_symbol (if_bytes f) = Some (hdr, sym, p)"
      by (cases r) auto
    let ?b = "bs_block_id sym" and ?i = "bs_symbol_id sym"
    show thesis
    proof (cases "validate_block_symbol manifest sym = Inr () \<and> ?b \<notin> rs_complete_blocks sh")
      case False
      then show thesis by (intro ignored) (auto simp: eq d)
    next
      case True
      then have v: "validate_block_symbol manifest sym = Inr ()" and c: "?b \<notin> rs_complete_blocks sh"
        by blast+
      show thesis
      proof (cases "?i \<in> fst ` set (held_symbols m ?b)")
        case True
        then obtain state where st: "fr_blocks m ?b = Some state" and i: "?i \<in> fst ` set (fb_symbols state)"
          by (cases "fr_blocks m ?b") (simp_all add: held_symbols_def)
        obtain q where "map_of (fb_symbols state) ?i = Some q"
          using i by (metis map_of_eq_None_iff not_None_eq)
        moreover have "m\<lparr>fr_blocks := (fr_blocks m)(?b \<mapsto> state)\<rparr> = m"
          using fun_upd_idem [of "fr_blocks m" ?b "Some state"] st by simp
        ultimately have "handle_block_symbol_frame can_reserve solve f (m, sh) = Some (m, sh)"
          using v c st by (simp add: eq d)
        then show thesis using d True by (intro ignored) auto
      next
        case False
        then have "map_of (held_symbols m ?b) ?i = None" by (simp add: map_of_eq_None_iff)
        then have "handle_block_symbol_frame can_reserve solve f (m, sh) =
            map_option snd (try_decode_fec_block can_reserve solve ?b fec
              (hold_symbol ?b ?i p m, mark_first_payload_unit sh))"
          using v c by (auto simp: eq d hold_symbol_def held_symbols_def fec_block_default_def Let_def
              fb_symbols_update
              split: option.splits)
        then show thesis by (rule held [OF d v c])
      qed
    qed
  qed
qed

lemma fec_receiver_inv_hold:
  assumes "fec_receiver_inv repair src m sh" "rs_plan sh = Some plan" "rs_manifest sh = Some manifest"
    and "mf_mode manifest = ModeFec fec"
    and "genuine_symbols repair src plan (fm_symbols_per_block fec) (fr_geometry m) b [(esi, p)]"
  shows "fec_receiver_inv repair src (hold_symbol b esi p m) (mark_first_payload_unit sh)"
proof -
  let ?k = "fm_symbols_per_block fec" and ?m = "hold_symbol b esi p m"
  have geo: "symbol_geometry plan ?k = Inr (fr_geometry m)"
    and old: "\<And>x state. fr_blocks m x = Some state \<Longrightarrow> btree_wf (fb_symbols state) \<and>
        genuine_symbols repair src plan ?k (fr_geometry m) x (fb_symbols state)"
    using assms(1-4) by (auto simp: fec_receiver_inv_def)
  have held: "btree_wf (held_symbols m b)"
    "genuine_symbols repair src plan ?k (fr_geometry m) b (held_symbols m b)"
    using old [of b]
    by (cases "fr_blocks m b"; simp add: held_symbols_def btree_wf_def genuine_symbols_def)+
  have "genuine_symbols repair src plan ?k (fr_geometry m) b (btree_insert esi p (held_symbols m b))"
    using held(2) assms(5) set_btree_insert [of esi p "held_symbols m b"]
    unfolding genuine_symbols_def by (fastforce simp: subset_iff)
  then have "btree_wf (fb_symbols state) \<and>
      genuine_symbols repair src plan ?k (fr_geometry m) x (fb_symbols state)"
    if "fr_blocks ?m x = Some state" for x state
    using that old [of x state] btree_insert_wf [OF held(1)]
    by (cases "x = b") (auto simp: hold_symbol_def)
  moreover have "fr_geometry ?m = fr_geometry m" by (simp add: hold_symbol_def)
  ultimately show ?thesis using assms(2-4) geo by (auto simp: fec_receiver_inv_def)
qed

lemma handle_block_symbol_frame_inv:
  assumes codec: "raptorq_sound repair solve" "repair_sized repair"
    and inv: "receiver_inv src sh" "fec_receiver_inv repair src m sh"
    and small: "symbol_size (fr_geometry m) < 2 ^ 16"
    and manifest: "rs_manifest sh = Some manifest" "mf_mode manifest = ModeFec fec"
    and plan: "rs_plan sh = Some plan"
    and genuine: "genuine_symbol_frame repair src plan (fm_symbols_per_block fec) (fr_geometry m) (if_bytes f)"
  obtains m' sh' where "handle_block_symbol_frame can_reserve solve f (m, sh) = Some (m', sh')"
    "receiver_inv src sh'" "fec_receiver_inv repair src m' sh'" "fr_geometry m' = fr_geometry m"
    "rs_plan sh' = rs_plan sh" "rs_manifest sh' = rs_manifest sh"
    "rs_complete_blocks sh \<subseteq> rs_complete_blocks sh'"
  | "handle_block_symbol_frame can_reserve solve f (m, sh) = None"
      "\<not> within_codec can_reserve (fm_symbols_per_block fec)"
proof -
  note result = that(1) and panics = that(2)
  show thesis
    using manifest
  proof (cases rule: handle_block_symbol_frame_cases [where f = f and m = m and can_reserve = can_reserve and solve = solve])
    case 1
    then show thesis using inv by (intro result [of m sh]) simp_all
  next
    case (2 hdr sym p)
    let ?b = "bs_block_id sym" and ?sh = "mark_first_payload_unit sh"
    let ?m = "hold_symbol ?b (bs_symbol_id sym) p m"
    have g: "fr_geometry ?m = fr_geometry m" by (simp add: hold_symbol_def)
    have inv1: "receiver_inv src ?sh" using inv(1) by simp
    have inv2: "fec_receiver_inv repair src ?m ?sh"
      using genuine 2(1) by (intro fec_receiver_inv_hold [OF inv(2) plan manifest])
        (simp add: genuine_symbol_frame_def)
    have small': "symbol_size (fr_geometry ?m) < 2 ^ 16" using small g by simp
    have mf: "rs_manifest ?sh = Some manifest" using manifest by simp
    show thesis
    proof (rule try_decode_cases [OF codec inv1 inv2 small' mf manifest(2),
          where b = ?b and can_reserve = can_reserve])
      assume "try_decode_fec_block can_reserve solve ?b fec (?m, ?sh) = Some (False, ?m, ?sh)"
      then show thesis using 2(4) inv1 inv2 g by (intro result [of ?m ?sh]) simp_all
    next
      fix plan' span
      let ?done = "complete_block ?b (block_payload src span) (?m, ?sh)"
      assume p: "rs_plan ?sh = Some plan'" "block_span plan' ?b = Some span"
        and t: "try_decode_fec_block can_reserve solve ?b fec (?m, ?sh) = Some (True, ?done)"
      have "snd ?done = (write_block ?b (block_payload src span) ?sh)
          \<lparr>rs_complete_blocks := insert ?b (rs_complete_blocks (write_block ?b (block_payload src span) ?sh))\<rparr>"
        by (simp add: complete_block_def Let_def)
      then have "receiver_inv src (snd ?done)"
        using receiver_inv_complete [OF inv1 p refl] by simp
      then show thesis
        using 2(4) t g fec_receiver_inv_complete [OF inv2, of ?b "block_payload src span"]
        by (intro result [of "fst ?done" "snd ?done"]) auto
    qed (use 2(4) in \<open>simp add: panics\<close>)
  qed
qed

text \<open>A sequence of symbol frames.\<close>

fun handle_symbols :: "(nat \<Rightarrow> bool) \<Rightarrow> solve \<Rightarrow> InboundFrame list \<Rightarrow> FecReceiver \<times> ReceiverShared \<Rightarrow>
    (FecReceiver \<times> ReceiverShared) may_panic" where
  "handle_symbols can_reserve solve [] s = Some s"
| "handle_symbols can_reserve solve (f # fs) s =
     Option.bind (handle_block_symbol_frame can_reserve solve f s) (handle_symbols can_reserve solve fs)"

lemma handle_symbols_inv:
  assumes "raptorq_sound repair solve" "repair_sized repair"
    and "receiver_inv src sh" "fec_receiver_inv repair src m sh"
    and "symbol_size (fr_geometry m) < 2 ^ 16"
    and "rs_manifest sh = Some manifest" "mf_mode manifest = ModeFec fec" "rs_plan sh = Some plan"
    and "\<forall>f\<in>set fs. genuine_symbol_frame repair src plan (fm_symbols_per_block fec) (fr_geometry m) (if_bytes f)"
    and "within_codec can_reserve (fm_symbols_per_block fec)"
  obtains m' sh' where "handle_symbols can_reserve solve fs (m, sh) = Some (m', sh')"
    "receiver_inv src sh'" "fec_receiver_inv repair src m' sh'" "rs_plan sh' = rs_plan sh"
    "rs_complete_blocks sh \<subseteq> rs_complete_blocks sh'"
proof -
  have "\<exists>m' sh'. handle_symbols can_reserve solve fs (m, sh) = Some (m', sh') \<and>
      receiver_inv src sh' \<and> fec_receiver_inv repair src m' sh' \<and> rs_plan sh' = rs_plan sh \<and>
      rs_complete_blocks sh \<subseteq> rs_complete_blocks sh'"
    using assms
  proof (induction fs arbitrary: m sh)
    case (Cons f fs)
    have gf: "genuine_symbol_frame repair src plan (fm_symbols_per_block fec) (fr_geometry m) (if_bytes f)"
      using Cons.prems(9) by simp
    obtain m1 sh1 where s: "handle_block_symbol_frame can_reserve solve f (m, sh) = Some (m1, sh1)"
      and i: "receiver_inv src sh1" "fec_receiver_inv repair src m1 sh1" "fr_geometry m1 = fr_geometry m"
        "rs_plan sh1 = rs_plan sh" "rs_manifest sh1 = rs_manifest sh"
        "rs_complete_blocks sh \<subseteq> rs_complete_blocks sh1"
      using Cons.prems(10) by (rule_tac handle_block_symbol_frame_inv [OF Cons.prems(1-8) gf]) blast+
    have "\<exists>m' sh'. handle_symbols can_reserve solve fs (m1, sh1) = Some (m', sh') \<and>
        receiver_inv src sh' \<and> fec_receiver_inv repair src m' sh' \<and> rs_plan sh' = rs_plan sh1 \<and>
        rs_complete_blocks sh1 \<subseteq> rs_complete_blocks sh'"
      using Cons.prems i by (intro Cons.IH) simp_all
    then show ?case using s i(4,6) by fastforce
  qed simp
  then show thesis using that by blast
qed

section \<open>A block completes with its source symbols\<close>

lemma subset_btree_length:
  assumes "btree_wf m" "word_of_nat ` {0 ..< k} \<subseteq> fst ` set m" "k \<le> 2 ^ 32"
  shows "k \<le> length (m :: (u32 \<times> 'v) list)"
proof -
  have "inj_on (word_of_nat :: nat \<Rightarrow> u32) {0 ..< k}"
  proof (rule inj_on_inverseI [where g = unat])
    fix i assume "i \<in> {0 ..< k}"
    then show "unat (word_of_nat i :: u32) = i" using assms(3) by (intro unat_of_nat_small) simp
  qed
  then have "card ((word_of_nat :: nat \<Rightarrow> u32) ` {0 ..< k}) = k" by (simp add: card_image)
  moreover have "card ((word_of_nat :: nat \<Rightarrow> u32) ` {0 ..< k}) \<le> card (fst ` set m)"
    by (rule card_mono [OF _ assms(2)]) simp
  moreover have "card (fst ` set m) \<le> length m"
    using card_length [of "map fst m"] by simp
  ultimately show ?thesis by linarith
qed

lemma symbols_fit_64:
  assumes "symbol_geometry plan k = Inr g"
  shows "unat k * symbol_size g < 2 ^ 64 \<or> 2 ^ 48 \<le> unat (bp_block_size plan)"
proof (rule disjCI)
  note g = symbol_geometry_new_Inr [OF assms [unfolded symbol_geometry_def]]
  assume "\<not> 2 ^ 48 \<le> unat (bp_block_size plan)"
  moreover have "nat_div_ceil (unat (bp_block_size plan)) (unat k) \<le> unat (bp_block_size plan)"
    using g(2) nat_div_ceil_le_iff [OF g(2), of "unat (bp_block_size plan)" "unat (bp_block_size plan)"]
    by simp
  ultimately have "symbol_size g < 2 ^ 48" using g(4) by simp
  then have "unat k * symbol_size g < 2 ^ 16 * 2 ^ 48"
    using unat_u16_bound [of k] by (intro mult_strict_mono) simp_all
  then show "unat k * symbol_size g < 2 ^ 64" by simp
qed

definition not_all_source :: "u16 \<Rightarrow> FecReceiver \<Rightarrow> u64 \<Rightarrow> bool" where
  "not_all_source k m b \<longleftrightarrow> \<not> source_ids k \<subseteq> fst ` set (held_symbols m b)"

lemma held_symbols_hold [simp]:
  "held_symbols (hold_symbol b esi p m) x =
     (if x = b then btree_insert esi p (held_symbols m b) else held_symbols m x)"
  by (simp add: held_symbols_def hold_symbol_def)

text \<open>With every source symbol held, the attempt completes the block.\<close>

lemma try_decode_all_source:
  assumes "\<forall>n. can_reserve n" "fec_receiver_inv repair src m sh" "rs_plan sh = Some plan"
    and "rs_manifest sh = Some manifest" "mf_mode manifest = ModeFec fec"
    and "unat (bp_block_size plan) < 2 ^ 48" "b < bp_total_blocks plan"
    and "source_ids (fm_symbols_per_block fec) \<subseteq> fst ` set (held_symbols m b)"
  obtains block where "try_decode_fec_block can_reserve solve b fec (m, sh) =
      Some (True, complete_block b block (m, sh))"
proof -
  let ?k = "fm_symbols_per_block fec" and ?n = "symbol_size (fr_geometry m)"
  have geo: "symbol_geometry plan ?k = Inr (fr_geometry m)"
    and wf: "\<And>state. fr_blocks m b = Some state \<Longrightarrow> btree_wf (fb_symbols state)"
    using assms(2-5) by (auto simp: fec_receiver_inv_def)
  have "0 < unat ?k" using symbol_geometry_new_Inr(2) [OF geo [unfolded symbol_geometry_def]] .
  then have "source_ids ?k \<noteq> {}" by (simp add: source_ids_def)
  then obtain state where st: "fr_blocks m b = Some state"
    using assms(8) by (cases "fr_blocks m b") (auto simp: held_symbols_def)
  then have sub: "source_ids ?k \<subseteq> fst ` set (fb_symbols state)"
    using assms(8) by (simp add: held_symbols_def)
  have "unat ?k \<le> length (fb_symbols state)"
    using sub unat_u16_bound [of ?k] by (intro subset_btree_length [OF wf [OF st]]) (simp_all add: source_ids_def)
  moreover obtain len where "block_len plan b = Some len"
    using assms(7)
    by (cases "Some b = last_block_id plan"; cases "bp_total_bytes plan mod bp_block_size plan = 0")
      (auto simp: block_len_def contains_block_def Let_def)
  moreover have "unat ?k * ?n < 2 ^ 64" using symbols_fit_64 [OF geo] assms(6) by linarith
  then obtain block where "systematic_block_payload can_reserve state (unat ?k) ?n (unat len) = Some block"
    using systematic_block_total [OF assms(1) sub] by blast
  ultimately show thesis
    using that [of block] assms(3) st by (simp add: try_decode_fec_block_def Let_def)
qed

text \<open>Between frames, no unfinished block has all its source symbols.\<close>

definition no_block_due :: "u16 \<Rightarrow> FecReceiver \<Rightarrow> ReceiverShared \<Rightarrow> bool" where
  "no_block_due k m sh \<longleftrightarrow> (\<forall>b. b \<in> rs_complete_blocks sh \<or> not_all_source k m b)"

definition symbol_arrived :: "FecReceiver \<Rightarrow> ReceiverShared \<Rightarrow> u64 \<Rightarrow> u32 \<Rightarrow> bool" where
  "symbol_arrived m sh b esi \<longleftrightarrow> b \<in> rs_complete_blocks sh \<or> esi \<in> fst ` set (held_symbols m b)"

definition symbol_frame_of :: "LosslessSessionManifest \<Rightarrow> u64 \<Rightarrow> u32 \<Rightarrow> InboundFrame \<Rightarrow> bool" where
  "symbol_frame_of manifest b esi f \<longleftrightarrow> (\<exists>hdr sym p. decode_block_symbol (if_bytes f) = Some (hdr, sym, p) \<and>
     validate_block_symbol manifest sym = Inr () \<and> bs_block_id sym = b \<and> bs_symbol_id sym = esi)"

lemma handle_block_symbol_frame_progress:
  assumes codec: "raptorq_sound repair solve" "repair_sized repair" "\<forall>n. can_reserve n"
    and inv: "receiver_inv src sh" "fec_receiver_inv repair src m sh"
    and small: "symbol_size (fr_geometry m) < 2 ^ 16" "unat (bp_block_size plan) < 2 ^ 48"
    and manifest: "rs_manifest sh = Some manifest" "mf_mode manifest = ModeFec fec"
    and plan: "rs_plan sh = Some plan"
    and genuine: "genuine_symbol_frame repair src plan (fm_symbols_per_block fec) (fr_geometry m) (if_bytes f)"
    and due: "no_block_due (fm_symbols_per_block fec) m sh"
    and step: "handle_block_symbol_frame can_reserve solve f (m, sh) = Some (m', sh')"
  shows "no_block_due (fm_symbols_per_block fec) m' sh'"
    and "symbol_arrived m sh b esi \<Longrightarrow> symbol_arrived m' sh' b esi"
    and "symbol_frame_of manifest b esi f \<Longrightarrow> symbol_arrived m' sh' b esi"
proof -
  let ?k = "fm_symbols_per_block fec"
  have "no_block_due ?k m' sh' \<and> (symbol_arrived m sh b esi \<longrightarrow> symbol_arrived m' sh' b esi) \<and>
      (symbol_frame_of manifest b esi f \<longrightarrow> symbol_arrived m' sh' b esi)"
    using manifest
  proof (cases rule: handle_block_symbol_frame_cases [where f = f and m = m and can_reserve = can_reserve and solve = solve])
    case 1
    then show ?thesis
      using due step by (auto simp: symbol_frame_of_def symbol_arrived_def)
  next
    case (2 hdr sym p)
    let ?b = "bs_block_id sym" and ?sh = "mark_first_payload_unit sh"
    let ?m = "hold_symbol ?b (bs_symbol_id sym) p m"
    have inv1: "receiver_inv src ?sh" using inv(1) by simp
    have inv2: "fec_receiver_inv repair src ?m ?sh"
      using genuine 2(1) by (intro fec_receiver_inv_hold [OF inv(2) plan manifest])
        (simp add: genuine_symbol_frame_def)
    have small': "symbol_size (fr_geometry ?m) < 2 ^ 16" using small by (simp add: hold_symbol_def)
    have mf: "rs_manifest ?sh = Some manifest" and pl: "rs_plan ?sh = Some plan"
      using manifest plan by simp_all
    obtain ok where t: "try_decode_fec_block can_reserve solve ?b fec (?m, ?sh) = Some (ok, m', sh')"
      using step 2(4) by auto
    show ?thesis
    proof (rule try_decode_cases [OF codec(1,2) inv1 inv2 small' mf manifest(2),
          where b = ?b and can_reserve = can_reserve])
      assume "try_decode_fec_block can_reserve solve ?b fec (?m, ?sh) = Some (False, ?m, ?sh)"
      then have same: "m' = ?m" "sh' = ?sh" "\<not> ok" using t by simp_all
      have lt: "?b < bp_total_blocks plan"
      proof -
        obtain mf' where "rs_manifest sh = Some mf'" "bp_total_blocks plan = mf_total_blocks mf'"
          by (rule receiver_inv_plan [OF inv(1) plan])
        then show ?thesis
          using 2(2) manifest by (simp add: validate_block_symbol_def validate_block_id_def and_then_eq_Inr split: if_splits)
      qed
      have "not_all_source ?k ?m ?b"
      proof (rule ccontr)
        assume "\<not> not_all_source ?k ?m ?b"
        then have sub: "source_ids ?k \<subseteq> fst ` set (held_symbols ?m ?b)" by (simp add: not_all_source_def)
        obtain block where "try_decode_fec_block can_reserve solve ?b fec (?m, ?sh) =
            Some (True, complete_block ?b block (?m, ?sh))"
          by (rule try_decode_all_source [OF codec(3) inv2 pl mf manifest(2) small(2) lt sub])
        then show False using t same(3) by simp
      qed
      moreover have "not_all_source ?k ?m x = not_all_source ?k m x" if "x \<noteq> ?b" for x
        using that by (simp add: not_all_source_def)
      ultimately have "no_block_due ?k ?m ?sh"
        using due unfolding no_block_due_def by (metis mark_fields(3))
      then show ?thesis
        using 2(1) by (auto simp: same symbol_arrived_def symbol_frame_of_def)
    next
      fix plan' span
      let ?done = "complete_block ?b (block_payload src span) (?m, ?sh)"
      assume "try_decode_fec_block can_reserve solve ?b fec (?m, ?sh) = Some (True, ?done)"
      then have same: "(m', sh') = ?done" using t by simp
      have c: "rs_complete_blocks sh' = insert ?b (rs_complete_blocks sh)"
        using arg_cong [OF same, of snd] by simp
      have h: "held_symbols m' x = held_symbols m x" if "x \<noteq> ?b" for x
        using arg_cong [OF same, of fst] that
        by (simp add: held_symbols_def hold_symbol_def)
      show ?thesis
        using due 2(1) h unfolding no_block_due_def symbol_arrived_def symbol_frame_of_def not_all_source_def c
        by (metis (no_types, lifting) insertCI insertE option.inject prod.inject)
    qed (use t in simp)
  qed
  then show "no_block_due ?k m' sh'"
    and "symbol_arrived m sh b esi \<Longrightarrow> symbol_arrived m' sh' b esi"
    and "symbol_frame_of manifest b esi f \<Longrightarrow> symbol_arrived m' sh' b esi" by blast+
qed

section \<open>Properties\<close>

text \<open>C7. Whatever symbol frames arrive, in any order and number: when their payloads are
  symbols of the source's blocks, the FEC receiver never panics, loses no block, every block
  it completes has the source's bytes in the sink, and when it has all blocks the sink starts
  with the source object.  Blocks of more than 56403 symbols, which the codec refuses, are included
  as long as no allocation fails.\<close>

theorem fec_receiver_decodes_source:
  assumes "raptorq_sound repair solve" "repair_sized repair"
    and "receiver_inv src sh" "fec_receiver_inv repair src m sh"
    and "symbol_size (fr_geometry m) < 2 ^ 16"
    and "rs_manifest sh = Some manifest" "mf_mode manifest = ModeFec fec" "rs_plan sh = Some plan"
    and "\<forall>f\<in>set fs. genuine_symbol_frame repair src plan (fm_symbols_per_block fec) (fr_geometry m) (if_bytes f)"
    and "within_codec can_reserve (fm_symbols_per_block fec)"
  shows "\<exists>m' sh'. handle_symbols can_reserve solve fs (m, sh) = Some (m', sh') \<and>
    rs_complete_blocks sh \<subseteq> rs_complete_blocks sh' \<and>
    (case rs_sink_buffer sh' of None \<Rightarrow> True | Some sink \<Rightarrow>
       (\<forall>b\<in>rs_complete_blocks sh'. sink_holds plan src b sink) \<and>
       (has_all_blocks sh' \<longrightarrow> take (unat (bp_total_bytes plan)) sink =
          padded_source (unat (bp_total_bytes plan)) src))"
proof -
  obtain m' sh' where h: "handle_symbols can_reserve solve fs (m, sh) = Some (m', sh')"
    and inv: "receiver_inv src sh'" and plan: "rs_plan sh' = rs_plan sh"
    and grow: "rs_complete_blocks sh \<subseteq> rs_complete_blocks sh'"
    by (rule handle_symbols_inv [OF assms])
  have plan': "rs_plan sh' = Some plan" using plan assms(8) by simp
  have "(\<forall>b\<in>rs_complete_blocks sh'. sink_holds plan src b sink) \<and>
      (has_all_blocks sh' \<longrightarrow> take (unat (bp_total_bytes plan)) sink =
         padded_source (unat (bp_total_bytes plan)) src)" if "rs_sink_buffer sh' = Some sink" for sink
  proof (intro conjI impI)
    have "\<forall>b\<in>rs_complete_blocks sh'. b < bp_total_blocks plan"
      and "\<forall>b\<in>rs_complete_blocks sh'. sink_holds plan src b sink"
      using inv unfolding receiver_inv_def blocks_bounded_def plan' that by simp_all
    then show "\<forall>b\<in>rs_complete_blocks sh'. sink_holds plan src b sink" by blast
    assume "has_all_blocks sh'"
    then have "rs_complete_blocks sh' = {b. b < bp_total_blocks plan}"
      unfolding has_all_blocks_def plan' option.case
      using all_blocks_iff [OF \<open>\<forall>b\<in>rs_complete_blocks sh'. b < bp_total_blocks plan\<close>] by blast
    then show "take (unat (bp_total_bytes plan)) sink = padded_source (unat (bp_total_bytes plan)) src"
      using receiver_inv_all_blocks [OF inv plan' that] by simp
  qed
  then show ?thesis using h grow by (cases "rs_sink_buffer sh'") auto
qed

text \<open>C8. A block completes as soon as its source symbols have arrived, in whatever order and
  however mixed with repair symbols, other blocks, duplicates and other frames.\<close>

theorem fec_source_symbols_complete_block:
  assumes "raptorq_sound repair solve" "repair_sized repair" "\<forall>n. can_reserve n"
    and "receiver_inv src sh" "fec_receiver_inv repair src m sh"
    and "symbol_size (fr_geometry m) < 2 ^ 16" "unat (bp_block_size plan) < 2 ^ 48"
    and "rs_manifest sh = Some manifest" "mf_mode manifest = ModeFec fec" "rs_plan sh = Some plan"
    and "\<forall>f\<in>set fs. genuine_symbol_frame repair src plan (fm_symbols_per_block fec) (fr_geometry m) (if_bytes f)"
    and "no_block_due (fm_symbols_per_block fec) m sh"
    and "\<forall>esi\<in>source_ids (fm_symbols_per_block fec). \<exists>f\<in>set fs. symbol_frame_of manifest b esi f"
  shows "\<exists>m' sh'. handle_symbols can_reserve solve fs (m, sh) = Some (m', sh') \<and>
    b \<in> rs_complete_blocks sh'"
proof -
  let ?k = "fm_symbols_per_block fec"
  have "\<exists>m' sh'. handle_symbols can_reserve solve fs (m, sh) = Some (m', sh') \<and>
      no_block_due ?k m' sh' \<and>
      (\<forall>esi. symbol_arrived m sh b esi \<or> (\<exists>f\<in>set fs. symbol_frame_of manifest b esi f) \<longrightarrow>
         symbol_arrived m' sh' b esi)"
    using assms(1-12)
  proof (induction fs arbitrary: m sh)
    case (Cons f fs)
    note p = Cons.prems
    have gf: "genuine_symbol_frame repair src plan ?k (fr_geometry m) (if_bytes f)"
      using p(11) by simp
    obtain m1 sh1 where s: "handle_block_symbol_frame can_reserve solve f (m, sh) = Some (m1, sh1)"
      and i: "receiver_inv src sh1" "fec_receiver_inv repair src m1 sh1" "fr_geometry m1 = fr_geometry m"
        "rs_plan sh1 = rs_plan sh" "rs_manifest sh1 = rs_manifest sh"
        "rs_complete_blocks sh \<subseteq> rs_complete_blocks sh1"
      using p(3) by (rule_tac handle_block_symbol_frame_inv [OF p(1,2,4,5,6,8,9,10) gf]) (blast, simp add: within_codec_def)
    note pr = handle_block_symbol_frame_progress [OF p(1-10) gf p(12) s]
    have "\<exists>m' sh'. handle_symbols can_reserve solve fs (m1, sh1) = Some (m', sh') \<and>
        no_block_due ?k m' sh' \<and>
        (\<forall>esi. symbol_arrived m1 sh1 b esi \<or> (\<exists>f\<in>set fs. symbol_frame_of manifest b esi f) \<longrightarrow>
           symbol_arrived m' sh' b esi)"
      using p i pr(1) by (intro Cons.IH) simp_all
    then obtain m' sh' where h: "handle_symbols can_reserve solve fs (m1, sh1) = Some (m', sh')"
      "no_block_due ?k m' sh'"
      "\<forall>esi. symbol_arrived m1 sh1 b esi \<or> (\<exists>f\<in>set fs. symbol_frame_of manifest b esi f) \<longrightarrow>
         symbol_arrived m' sh' b esi" by blast
    have "symbol_arrived m' sh' b esi"
      if "symbol_arrived m sh b esi \<or> (\<exists>f'\<in>set (f # fs). symbol_frame_of manifest b esi f')" for esi
      using that h(3) pr(2,3) [of b esi] by auto
    then show ?case using s h(1,2) by auto
  qed auto
  then obtain m' sh' where h: "handle_symbols can_reserve solve fs (m, sh) = Some (m', sh')"
    "no_block_due ?k m' sh'" "\<forall>esi\<in>source_ids ?k. symbol_arrived m' sh' b esi"
    using assms(13) by blast
  have "b \<in> rs_complete_blocks sh'"
    using h(2,3) unfolding no_block_due_def not_all_source_def symbol_arrived_def by blast
  then show ?thesis using h(1) by blast
qed

text \<open>A concrete receiver: one block of four bytes in two symbols, nothing received yet.\<close>

definition fec_demo_manifest :: LosslessSessionManifest where
  "fec_demo_manifest = \<lparr>mf_block_size = 4, mf_total_bytes = 4, mf_total_blocks = 1,
     mf_mode = ModeFec (new_raptorq 2 [7])\<rparr>"
definition fec_demo_plan :: BlockPlan where
  "fec_demo_plan = \<lparr>bp_total_bytes = 4, bp_block_size = 4, bp_total_blocks = 1\<rparr>"
definition fec_demo_geometry :: SymbolGeometry where
  "fec_demo_geometry = \<lparr>sg_symbols_per_block = 2, sg_symbol_size = 2\<rparr>"
definition fec_demo_shared :: ReceiverShared where
  "fec_demo_shared = \<lparr>rs_session_id = 9,
     rs_route = \<lparr>tr_src_ip = 1, tr_dst_ip = 2, tr_src_port = 3, tr_dst_port = 4\<rparr>,
     rs_local_node_id = 5, rs_sink_buffer = Some [0, 0, 0, 0], rs_progress = None,
     rs_peer_report_timeout_ms = 100, rs_fec_enabled = True,
     rs_manifest = Some fec_demo_manifest, rs_plan = Some fec_demo_plan, rs_complete_blocks = {}\<rparr>"

abbreviation fec_demo_frame :: "u32 \<Rightarrow> bytes \<Rightarrow> InboundFrame" where
  "fec_demo_frame esi p \<equiv> \<lparr>if_bytes = encode_block_symbol 9 0 esi 7 p, if_peer_id = None\<rparr>"

definition fec_demo_frames :: "InboundFrame list" where
  "fec_demo_frames = [fec_demo_frame 1 [3, 4], fec_demo_frame 0 [1, 2], fec_demo_frame 1 [3, 4]]"

lemma fec_demo_manifest_ok: "manifest_ok fec_demo_manifest"
  by (simp add: manifest_ok_def fec_demo_manifest_def new_raptorq_def nat_div_ceil_def
      fec_mode_ok_def scheme_kind_def scheme_from_wire_def MAX_MANIFEST_TREE_IDS_def)

lemma fec_demo_plan_new: "block_plan_new 4 4 = Inr fec_demo_plan"
  by (simp add: block_plan_new_def fec_demo_plan_def word_div_ceil_def)

lemma fec_demo_geometry: "symbol_geometry fec_demo_plan 2 = Inr fec_demo_geometry"
  by (simp add: symbol_geometry_def symbol_geometry_new_def fec_demo_plan_def fec_demo_geometry_def
      word_div_ceil_def)

lemma fec_demo_span: "block_span fec_demo_plan b =
    (if b = 0 then Some \<lparr>sp_offset = 0, sp_len = 4\<rparr> else None)"
  by (auto simp: block_span_def block_offset_def block_len_def contains_block_def last_block_id_def
      checked_sub_def checked_mul_def fec_demo_plan_def word_less_1)

lemma fec_demo_inv: "receiver_inv [1, 2, 3, 4] fec_demo_shared"
  using fec_demo_manifest_ok fec_demo_plan_new
  by (simp add: receiver_inv_def blocks_bounded_def fec_demo_shared_def fec_demo_manifest_def)
    (simp add: fec_demo_plan_def)

lemma fec_demo_receiver_inv:
  "fec_receiver_inv plain_repair [1, 2, 3, 4] (fec_receiver_new fec_demo_geometry) fec_demo_shared"
  using fec_demo_geometry
  by (simp add: fec_receiver_inv_def fec_demo_shared_def fec_demo_manifest_def new_raptorq_def
      fec_receiver_new_def)

lemma fec_demo_genuine:
  "\<forall>f\<in>set fec_demo_frames.
     genuine_symbol_frame plain_repair [1, 2, 3, 4] fec_demo_plan 2 fec_demo_geometry (if_bytes f)"
proof -
  have "padded_symbol_bytes [1, 2, 3, 4] \<lparr>sp_offset = 0, sp_len = 4\<rparr> fec_demo_geometry = [1, 2, 3, 4]"
    by (simp add: padded_symbol_bytes_def block_payload_def fec_demo_geometry_def source_symbols_def
        symbol_size_def slice_def put_def)
  then show ?thesis
    by (simp add: fec_demo_frames_def genuine_symbol_frame_def block_symbol_encode genuine_symbols_def
        fec_demo_span genuine_symbol_def slice_def)
      (simp add: fec_demo_geometry_def symbol_size_def)
qed

lemma fec_demo_fields:
  "rs_manifest fec_demo_shared = Some fec_demo_manifest" "rs_plan fec_demo_shared = Some fec_demo_plan"
  "mf_mode fec_demo_manifest = ModeFec (new_raptorq 2 [7])"
  "fm_symbols_per_block (new_raptorq 2 [7]) = 2"
  "fr_geometry (fec_receiver_new fec_demo_geometry) = fec_demo_geometry"
  "symbol_size fec_demo_geometry = 2" "unat (bp_block_size fec_demo_plan) = 4"
  by (simp_all add: fec_demo_shared_def fec_demo_manifest_def new_raptorq_def fec_receiver_new_def
      fec_demo_geometry_def symbol_size_def fec_demo_plan_def)

lemma fec_receiver_decodes_source_witness:
  "\<exists>m' sh'. handle_symbols (\<lambda>_. True) plain_solve fec_demo_frames
       (fec_receiver_new fec_demo_geometry, fec_demo_shared) = Some (m', sh') \<and>
     rs_complete_blocks fec_demo_shared \<subseteq> rs_complete_blocks sh'"
  using fec_receiver_decodes_source [where can_reserve = "\<lambda>_. True",
      OF plain_codec_sound plain_repair_sized fec_demo_inv fec_demo_receiver_inv _
      fec_demo_fields(1,3,2)] fec_demo_genuine
  by (force simp: fec_demo_fields within_codec_def)

lemma fec_demo_due: "no_block_due 2 (fec_receiver_new fec_demo_geometry) fec_demo_shared"
  by (simp add: no_block_due_def not_all_source_def held_symbols_def fec_receiver_new_def source_ids_def)

lemma fec_demo_symbols:
  "\<forall>esi\<in>source_ids 2. \<exists>f\<in>set fec_demo_frames. symbol_frame_of fec_demo_manifest 0 esi f"
proof -
  have "{0 ..< 2 :: nat} = {0, 1}" by auto
  then have "source_ids 2 = {0, 1}" by (simp add: source_ids_def)
  moreover have "manifest_validate fec_demo_manifest = Inr ()"
    by (simp add: manifest_validate_iff fec_demo_manifest_ok)
  then have "validate_block_id fec_demo_manifest 0 = Inr ()"
    by (simp add: validate_block_id_def) (simp add: fec_demo_manifest_def)
  ultimately show ?thesis
    by (simp add: fec_demo_frames_def symbol_frame_of_def block_symbol_encode validate_block_symbol_def
        fec_demo_fields(3)) (simp add: new_raptorq_def)
qed

lemma fec_source_symbols_complete_block_witness:
  "\<exists>m' sh'. handle_symbols (\<lambda>_. True) plain_solve fec_demo_frames
       (fec_receiver_new fec_demo_geometry, fec_demo_shared) = Some (m', sh') \<and>
     0 \<in> rs_complete_blocks sh'"
  using fec_source_symbols_complete_block [where can_reserve = "\<lambda>_. True",
      OF plain_codec_sound plain_repair_sized _ fec_demo_inv fec_demo_receiver_inv _ _
      fec_demo_fields(1,3,2)] fec_demo_genuine fec_demo_due fec_demo_symbols
  by (simp add: fec_demo_fields)

text \<open>No check of the receiver rejects an encoding symbol id the codec does not take: when a block has
  as many symbols as it needs, not all of them source symbols, one id of 24 bits or more among them
  ends the task.\<close>

lemma pad_symbols_ids:
  assumes "\<forall>n. can_reserve n" "de_k d = unat k"
  shows "\<exists>received. pad_symbols can_reserve d k n syms = Some (Some received) \<and> map fst received = map fst syms"
proof (induction syms)
  case (Cons sym syms)
  obtain symbol_id payload where sym: "sym = (symbol_id, payload)" by (cases sym)
  have "symbol_id < ucast k \<Longrightarrow> unat symbol_id < unat k"
    by (simp add: word_less_nat_alt unat_ucast_widen)
  with Cons.IH show ?case
    using assms by (auto simp: sym decoder_source_symbol_def decoder_coded_symbol_def Let_def)
qed simp

lemma large_symbol_id_panics:
  assumes "rs_plan sh = Some plan" "fr_blocks m b = Some state" "block_len plan b = Some len" "\<forall>n. can_reserve n"
    and "unat (fm_symbols_per_block fec) \<le> length (fb_symbols state)"
    and "\<not> source_ids (fm_symbols_per_block fec) \<subseteq> fst ` set (fb_symbols state)"
    and "esi \<in> fst ` set (fb_symbols state)" "ESI_LIMIT \<le> unat esi"
  shows "try_decode_fec_block can_reserve solve b fec (m, sh) = None"
proof -
  let ?k = "fm_symbols_per_block fec" and ?n = "symbol_size (fr_geometry m)"
  obtain i where "i < unat ?k" "word_of_nat i \<notin> fst ` set (fb_symbols state)"
    using assms(6) unfolding source_ids_def by (metis atLeastLessThan_iff image_subsetI)
  then have "None \<in> (\<lambda>i. map_of (fb_symbols state) (word_of_nat i)) ` {0 ..< unat ?k}"
    by (intro image_eqI [where x = i]) (simp_all add: map_of_eq_None_iff [THEN iffD2])
  then have sys: "systematic_block_payload can_reserve state (unat ?k) ?n (unat len) = None"
    by (simp add: systematic_block_payload_def Let_def comp_def)
  have "decoder_decode solve d received = None" if "map fst received = map fst (fb_symbols state)" for d received
  proof -
    have "esi \<in> set (map fst received)" using that assms(7) by simp
    then show ?thesis using assms(8) by (force simp: decoder_decode_def list_ex_iff)
  qed
  note panics = this
  show ?thesis
  proof (cases "decoder_from_block (block_params_new (unat ?k) ?n (block_seed (rs_session_id sh) b))")
    case None
    then show ?thesis using assms(1-5) sys by (simp add: try_decode_fec_block_def Let_def)
  next
    case (Some d)
    then have "de_k d = unat ?k" by (auto simp: decoder_from_block_def block_params_new_def)
    then obtain received where pad: "pad_symbols can_reserve d ?k ?n (fb_symbols state) = Some (Some received)"
      "map fst received = map fst (fb_symbols state)"
      using pad_symbols_ids [OF assms(4)] by blast
    show ?thesis
      using assms(1-3,5) sys Some pad(1) panics [OF pad(2), of d]
      by (simp add: try_decode_fec_block_def Let_def)
  qed
qed

section \<open>The FEC report\<close>

definition fec_deficit :: "u16 \<Rightarrow> (u32 \<times> bytes) list \<Rightarrow> nat" where
  "fec_deficit k held = max 1 (unat k - length held)"

lemma unat_block_deficit:
  assumes "rs_manifest sh = Some manifest" "mf_mode manifest = ModeFec fec"
  shows "unat (block_deficit m sh b) = fec_deficit (fm_symbols_per_block fec) (held_symbols m b)"
proof -
  let ?t = "unat (fm_symbols_per_block fec)" and ?h = "length (held_symbols m b)"
  have "block_deficit m sh b = (if ?t \<le> ?h then 1 else max (word_of_nat (?t - ?h)) 1)"
    by (simp add: block_deficit_def assms held_symbols_def Let_def split: option.splits)
  moreover have "unat (word_of_nat (?t - ?h) :: u16) = ?t - ?h"
  proof -
    have "?t - ?h < 2 ^ 16" using unat_u16_bound [of "fm_symbols_per_block fec"] by linarith
    then show ?thesis by (intro unat_of_nat_small) simp
  qed
  ultimately show ?thesis
    by (auto simp: fec_deficit_def max_def word_le_nat_alt simp del: of_nat_diff)
qed

lemma sorted_words_below: "n \<le> 2 ^ 64 \<Longrightarrow> sorted_wrt (<) (map (word_of_nat :: nat \<Rightarrow> u64) [0 ..< n])"
proof -
  assume n: "n \<le> 2 ^ 64"
  have "sorted_wrt (\<lambda>i j. (word_of_nat i :: u64) < word_of_nat j) [0 ..< n]"
  proof (rule sorted_wrt_mono_rel [of _ "(<)"])
    fix i j assume "i \<in> set [0 ..< n]" "j \<in> set [0 ..< n]" "i < j"
    then have "i < 2 ^ 64" "j < 2 ^ 64" using n by simp_all
    then have "unat (word_of_nat i :: u64) = i" "unat (word_of_nat j :: u64) = j"
      by (simp_all add: unat_of_nat_small)
    then show "(word_of_nat i :: u64) < word_of_nat j" using \<open>i < j\<close> by (simp add: word_less_nat_alt)
  qed (simp add: sorted_wrt_upt)
  then show ?thesis by (simp add: sorted_wrt_map)
qed

lemma fec_need_blocks:
  assumes "blocks_bounded sh" "rs_plan sh = Some plan" "rs_manifest sh = Some manifest"
    and "mf_mode manifest = ModeFec fec" "\<not> (bp_total_blocks plan = 0 \<or> has_all_blocks sh)"
  obtains bs where "fec_need_report sh m = Some (NeedFec bs)" "need_blocks_ok bs"
    "sorted_wrt (<) (map nb_block_id bs)"
    "nb_block_id ` set bs = {b. b < bp_total_blocks plan} - rs_complete_blocks sh"
    "\<forall>b\<in>set bs. unat (nb_deficit_symbols b) =
       fec_deficit (fm_symbols_per_block fec) (held_symbols m (nb_block_id b))"
    "length bs \<le> unat (bp_total_blocks plan)"
proof -
  let ?S = "rs_complete_blocks sh" and ?n = "bp_total_blocks plan"
  define ids where "ids = filter (\<lambda>b. b \<notin> ?S) (map word_of_nat [0 ..< unat ?n])"
  define bs where "bs = map (\<lambda>b. \<lparr>nb_block_id = b, nb_deficit_symbols = block_deficit m sh b\<rparr>) ids"
  have report: "fec_need_report sh m = Some (NeedFec bs)"
    using assms(5) unfolding fec_need_report_def assms(2) option.case bs_def ids_def by argo
  have nb: "map nb_block_id bs = ids" by (simp add: bs_def comp_def)
  have sorted: "sorted_wrt (<) ids"
    unfolding ids_def
    using sorted_words_below [of "unat ?n"] unat_u64_bound [of ?n] by (intro sorted_wrt_filter) simp
  have set: "set ids = {b. b < ?n} - ?S"
    unfolding ids_def set_filter set_words_below by blast
  have deficit: "unat (nb_deficit_symbols x) =
      fec_deficit (fm_symbols_per_block fec) (held_symbols m (nb_block_id x))" if "x \<in> set bs" for x
    using that unat_block_deficit [OF assms(3,4)] by (auto simp: bs_def)
  have pos: "nb_deficit_symbols x \<noteq> 0" if "x \<in> set bs" for x
    using deficit [OF that] by (auto simp: fec_deficit_def)
  have "need_blocks_ok bs"
    using sorted pos by (simp add: need_blocks_ok_def list_all_iff nb [symmetric] sorted_wrt_map)
  moreover have "nb_block_id ` set bs = {b. b < ?n} - ?S" using set nb by (metis set_map)
  moreover have "length bs \<le> unat ?n"
    using length_filter_le [of "\<lambda>b. b \<notin> ?S" "map word_of_nat [0 ..< unat ?n]"]
    by (simp add: bs_def ids_def)
  ultimately show thesis using that report sorted deficit nb by simp
qed

text \<open>The FEC report is exact: it is Complete when the receiver has every block, and
  otherwise it lists exactly the blocks it lacks, in increasing order, each with the number
  of symbols missing from its source count and at least one.  The report passes the
  manifest's validation as long as it lists at most 65535 blocks; with more, building the
  frame panics.\<close>

theorem fec_need_exact:
  assumes "receiver_inv src sh" "rs_plan sh = Some plan" "rs_manifest sh = Some manifest"
    and "mf_mode manifest = ModeFec fec"
  shows "case fec_need_report sh m of
      Some NeedComplete \<Rightarrow> rs_complete_blocks sh = {b. b < bp_total_blocks plan}
    | Some (NeedFec bs) \<Rightarrow>
        sorted_wrt (<) (map nb_block_id bs) \<and>
        nb_block_id ` set bs = {b. b < bp_total_blocks plan} - rs_complete_blocks sh \<and>
        (\<forall>b\<in>set bs. unat (nb_deficit_symbols b) =
           fec_deficit (fm_symbols_per_block fec) (held_symbols m (nb_block_id b))) \<and>
        (if length bs \<le> 65535
         then validate_need_report manifest (NeedFec bs) = Inr () \<and> send_need sh r (NeedFec bs) \<noteq> None
         else send_need sh r (NeedFec bs) = None)
    | _ \<Rightarrow> False"
proof -
  let ?S = "rs_complete_blocks sh" and ?n = "bp_total_blocks plan"
  obtain m' where m': "rs_manifest sh = Some m'" "manifest_ok m'" "?n = mf_total_blocks m'"
    by (rule receiver_inv_plan [OF assms(1,2)])
  then have ok: "manifest_ok manifest" "?n = mf_total_blocks manifest" using assms(3) by simp_all
  have b: "\<forall>b\<in>?S. b < ?n" using assms(1,2) by (simp add: receiver_inv_def blocks_bounded_def)
  have all: "has_all_blocks sh \<longleftrightarrow> ?S = {b. b < ?n}"
    unfolding has_all_blocks_def assms(2) option.case by (rule all_blocks_iff [OF b])
  show ?thesis
  proof (cases "?n = 0 \<or> has_all_blocks sh")
    case True
    then have "fec_need_report sh m = Some NeedComplete"
      unfolding fec_need_report_def assms(2) option.case by argo
    moreover have "?S = {b. b < ?n}"
    proof (cases "has_all_blocks sh")
      case False
      then have "?n = 0" using True by blast
      moreover from this have "?S = {}" using b by (metis equals0I word_not_simps(1))
      ultimately show ?thesis by simp
    qed (simp add: all)
    ultimately show ?thesis by simp
  next
    case False
    have "blocks_bounded sh" using assms(1) by (simp add: receiver_inv_def)
    then obtain bs where report: "fec_need_report sh m = Some (NeedFec bs)"
      and blocks_ok: "need_blocks_ok bs" and sorted: "sorted_wrt (<) (map nb_block_id bs)"
      and ids: "nb_block_id ` set bs = {b. b < ?n} - ?S"
      and deficit: "\<forall>b\<in>set bs. unat (nb_deficit_symbols b) =
        fec_deficit (fm_symbols_per_block fec) (held_symbols m (nb_block_id b))"
      by (rule fec_need_blocks [OF _ assms(2-4) False, of m])
    have "\<forall>x\<in>set bs. nb_block_id x < mf_total_blocks manifest" using ids ok(2) by auto
    then have "validate_need_report manifest (NeedFec bs) = Inr ()" if "length bs \<le> 65535"
      using blocks_ok ok(1) assms(4) that
      by (simp add: validate_need_report_iff report_within_def report_fits_mode_def list_all_iff
          MAX_NEED_BLOCKS_def)
    moreover have "send_need sh r (NeedFec bs) = None \<longleftrightarrow> 65535 < length bs"
      using blocks_ok by (simp add: send_need_def receiver_route_def send_control_eq MAX_NEED_BLOCKS_def)
    ultimately show ?thesis
      using sorted deficit ids by (simp add: report not_le)
  qed
qed

lemma fec_need_exact_witness:
  "\<exists>bs. fec_need_report fec_demo_shared (fec_receiver_new fec_demo_geometry) = Some (NeedFec bs) \<and>
     nb_block_id ` set bs = {b. b < 1}"
proof -
  have "fec_need_report fec_demo_shared (fec_receiver_new fec_demo_geometry) \<noteq> Some NeedComplete"
    by (simp add: fec_need_report_def fec_demo_shared_def fec_demo_plan_def has_all_blocks_def)
  moreover have "bp_total_blocks fec_demo_plan = 1" "rs_complete_blocks fec_demo_shared = {}"
    by (simp_all add: fec_demo_plan_def fec_demo_shared_def)
  ultimately show ?thesis
    using fec_need_exact [OF fec_demo_inv fec_demo_fields(2,1,3), of "fec_receiver_new fec_demo_geometry" 0]
    by (auto split: option.splits NeedReport.splits)
qed

end
