(* ===== verification/Sender_State.thy ===== *)
theory Sender_State
  imports Session_Frames
begin

text \<open>
  The sender's quorum and its feedback timers
  (\<open>src/dataplane/src/node/session/sender/state.rs\<close>, \<open>timing.rs\<close>).  Instants and
  durations are natural numbers of milliseconds.
\<close>

section \<open>The active quorum\<close>

record ActiveSessionQuorum =
  q_configured :: "usize set"
  q_active :: "usize set"
  q_frozen :: bool

definition quorum_new :: "usize list \<Rightarrow> ActiveSessionQuorum" where
  "quorum_new ids = \<lparr>q_configured = set ids, q_active = {}, q_frozen = False\<rparr>"

definition record_ready :: "usize \<Rightarrow> ActiveSessionQuorum \<Rightarrow> ActiveSessionQuorum" where
  "record_ready peer_id q =
     (if q_frozen q \<or> peer_id \<notin> q_configured q then q
      else q\<lparr>q_active := insert peer_id (q_active q)\<rparr>)"

definition freeze :: "ActiveSessionQuorum \<Rightarrow> ActiveSessionQuorum" where
  "freeze q = q\<lparr>q_frozen := True\<rparr>"

section \<open>Solicitation and timeout\<close>

definition QUORUM_SOLICITATION_INTERVAL :: nat where "QUORUM_SOLICITATION_INTERVAL = 250"
definition CONTROL_PATH_RTT_BUDGET :: nat where "CONTROL_PATH_RTT_BUDGET = 150"
definition PASSIVE_COMPLETE_MARGIN :: nat where "PASSIVE_COMPLETE_MARGIN = 150"

definition session_finish_timeout_for :: "nat \<Rightarrow> nat" where
  "session_finish_timeout_for peer_report_timeout =
     peer_report_timeout + CONTROL_PATH_RTT_BUDGET + PASSIVE_COMPLETE_MARGIN"

record QuorumLiveness =
  ql_solicitation_interval :: nat
  ql_peer_report_timeout :: nat
  ql_started_at :: "nat option"
  ql_next_solicitation_at :: "nat option"
  ql_solicitation_count :: u32

definition liveness_new :: "nat \<Rightarrow> nat \<Rightarrow> QuorumLiveness" where
  "liveness_new interval timeout =
     \<lparr>ql_solicitation_interval = interval, ql_peer_report_timeout = timeout,
      ql_started_at = None, ql_next_solicitation_at = None, ql_solicitation_count = 0\<rparr>"

definition liveness_start :: "nat \<Rightarrow> QuorumLiveness \<Rightarrow> QuorumLiveness" where
  "liveness_start now l =
     l\<lparr>ql_started_at := Some now,
       ql_next_solicitation_at := Some (now + ql_solicitation_interval l),
       ql_solicitation_count := 0\<rparr>"

definition liveness_clear :: "QuorumLiveness \<Rightarrow> QuorumLiveness" where
  "liveness_clear l =
     l\<lparr>ql_started_at := None, ql_next_solicitation_at := None, ql_solicitation_count := 0\<rparr>"

definition timeout_at :: "QuorumLiveness \<Rightarrow> nat option" where
  "timeout_at l = map_option (\<lambda>started_at. started_at + ql_peer_report_timeout l) (ql_started_at l)"

definition should_solicit :: "nat \<Rightarrow> QuorumLiveness \<Rightarrow> bool" where
  "should_solicit now l = (case ql_next_solicitation_at l of
     None \<Rightarrow> False | Some deadline \<Rightarrow> deadline \<le> now)"

definition timed_out :: "nat \<Rightarrow> QuorumLiveness \<Rightarrow> bool" where
  "timed_out now l = (case timeout_at l of None \<Rightarrow> False | Some deadline \<Rightarrow> deadline \<le> now)"

definition note_solicitation :: "nat \<Rightarrow> QuorumLiveness \<Rightarrow> QuorumLiveness" where
  "note_solicitation now l =
     l\<lparr>ql_next_solicitation_at := Some (now + ql_solicitation_interval l),
       ql_solicitation_count := ql_solicitation_count l + 1\<rparr>"

section \<open>Laws\<close>

definition quorum_ok :: "ActiveSessionQuorum \<Rightarrow> bool" where
  "quorum_ok q \<longleftrightarrow> q_active q \<subseteq> q_configured q"

lemma quorum_ok_ops [simp]:
  "quorum_ok (quorum_new ids)"
  "quorum_ok q \<Longrightarrow> quorum_ok (record_ready p q)"
  "quorum_ok (freeze q) \<longleftrightarrow> quorum_ok q"
  by (auto simp: quorum_ok_def quorum_new_def record_ready_def freeze_def)

lemma record_ready_frozen [simp]: "q_frozen q \<Longrightarrow> record_ready p q = q"
  by (simp add: record_ready_def)

lemma freeze_simps [simp]:
  "q_frozen (freeze q)" "q_active (freeze q) = q_active q" "q_configured (freeze q) = q_configured q"
  by (simp_all add: freeze_def)

lemma q_frozen_record_ready [simp]: "q_frozen (record_ready p q) = q_frozen q"
  by (simp add: record_ready_def)

lemma q_configured_record_ready [simp]: "q_configured (record_ready p q) = q_configured q"
  by (simp add: record_ready_def)

text \<open>What happens to a quorum over its life: Ready frames in any order, then the freeze,
  then late Ready frames.\<close>

definition ready_all :: "usize list \<Rightarrow> ActiveSessionQuorum \<Rightarrow> ActiveSessionQuorum" where
  "ready_all ps q = fold record_ready ps q"

lemma ready_all_frozen: "q_frozen q \<Longrightarrow> ready_all ps q = q"
  by (induction ps) (simp_all add: ready_all_def)

lemma ready_all_open:
  "\<not> q_frozen q \<Longrightarrow>
     ready_all ps q = q\<lparr>q_active := q_active q \<union> (set ps \<inter> q_configured q)\<rparr>"
proof (induction ps arbitrary: q)
  case (Cons p ps)
  have "ready_all (p # ps) q = ready_all ps (record_ready p q)" by (simp add: ready_all_def)
  also have "\<dots> = (record_ready p q)\<lparr>q_active := q_active (record_ready p q) \<union> (set ps \<inter> q_configured q)\<rparr>"
    using Cons by simp
  also have "\<dots> = q\<lparr>q_active := q_active q \<union> (set (p # ps) \<inter> q_configured q)\<rparr>"
    using Cons.prems by (auto simp: record_ready_def)
  finally show ?case .
qed (simp add: ready_all_def)

text \<open>The completion quorum is the set of configured receivers whose Ready arrived
  before the freeze; Ready frames of strangers, repeated ones and late ones change nothing.\<close>

theorem quorum_is_ready_before_freeze:
  "q_active (ready_all late (freeze (ready_all early (quorum_new ids)))) = set early \<inter> set ids"
proof -
  have "q_active (ready_all late (freeze q)) = q_active q" for q
    by (simp add: ready_all_frozen)
  moreover have "\<not> q_frozen (quorum_new ids)" "q_active (quorum_new ids) = {}"
    "q_configured (quorum_new ids) = set ids"
    by (simp_all add: quorum_new_def)
  ultimately show ?thesis by (simp add: ready_all_open)
qed

text \<open>The feedback timers: from the start of a wait, however often the sender solicits
  again, the timeout stays at its original deadline, and no solicitation is due before an
  interval has passed since the previous one.\<close>

theorem solicitation_never_extends_timeout:
  "timeout_at (fold note_solicitation ts (liveness_start now l)) =
      Some (now + ql_peer_report_timeout l) \<and>
   (should_solicit t (fold note_solicitation ts (liveness_start now l)) \<longleftrightarrow>
      last (now # ts) + ql_solicitation_interval l \<le> t) \<and>
   \<not> timed_out t (liveness_clear l) \<and> \<not> should_solicit t (liveness_clear l)"
proof -
  have fields: "ql_started_at (fold note_solicitation ts k) = ql_started_at k"
    "ql_peer_report_timeout (fold note_solicitation ts k) = ql_peer_report_timeout k"
    "ql_solicitation_interval (fold note_solicitation ts k) = ql_solicitation_interval k"
    "ql_next_solicitation_at (fold note_solicitation ts k) =
      (if ts = [] then ql_next_solicitation_at k
       else Some (last ts + ql_solicitation_interval k))" for ts k
    by (induction ts arbitrary: k) (simp_all add: note_solicitation_def)
  then show ?thesis
    by (simp add: timeout_at_def should_solicit_def timed_out_def fields)
      (simp add: liveness_start_def liveness_clear_def)
qed

lemma passive_timeout_exceeds_sender_budget:
  "peer_report_timeout + CONTROL_PATH_RTT_BUDGET < session_finish_timeout_for peer_report_timeout"
  by (simp add: session_finish_timeout_for_def PASSIVE_COMPLETE_MARGIN_def)

end
