(* ===== verification/Receiver.thy ===== *)
theory Receiver
  imports Fec_Receiver Sender_State
begin

text \<open>
  The receiver task (\<open>SessionReceiver\<close> in
  \<open>src/dataplane/src/node/session/receiver/mod.rs\<close>): manifest installation, dispatch of
  inbound frames to the plain or FEC receiver, and the lifecycle of the task.  A turn of the
  loop is a function of the event the task wakes up on; \<open>can_reserve\<close> and \<open>solve\<close> are
  the allocator and the codec.
\<close>

datatype ReceiverLifecycle = Active | PassiveComplete | SessionFinished

text \<open>The lifecycle is ordered by progress.\<close>

instantiation ReceiverLifecycle :: linorder
begin

fun lifecycle_rank :: "ReceiverLifecycle \<Rightarrow> nat" where
  "lifecycle_rank Active = 0"
| "lifecycle_rank PassiveComplete = 1"
| "lifecycle_rank SessionFinished = 2"

definition less_eq_ReceiverLifecycle :: "ReceiverLifecycle \<Rightarrow> ReceiverLifecycle \<Rightarrow> bool" where
  "a \<le> b \<longleftrightarrow> lifecycle_rank a \<le> lifecycle_rank b"

definition less_ReceiverLifecycle :: "ReceiverLifecycle \<Rightarrow> ReceiverLifecycle \<Rightarrow> bool" where
  "a < b \<longleftrightarrow> lifecycle_rank a < lifecycle_rank b"

instance
proof
  fix a b :: ReceiverLifecycle
  show "a \<le> b \<Longrightarrow> b \<le> a \<Longrightarrow> a = b"
    by (cases a; cases b) (simp_all add: less_eq_ReceiverLifecycle_def)
qed (auto simp: less_eq_ReceiverLifecycle_def less_ReceiverLifecycle_def)

end

datatype ReceiverMode = PlainMode PlainReceiver | FecMode FecReceiver

record SessionReceiver =
  sr_shared :: ReceiverShared
  sr_mode :: "ReceiverMode option"
  sr_lifecycle :: ReceiverLifecycle

record ReceiverConfig =
  rc_session_id :: SessionId
  rc_route :: TransportRoute
  rc_local_node_id :: usize
  rc_sink_buffer :: "bytes option"
  rc_progress :: "ReceiverProgress option"
  rc_peer_report_timeout_ms :: u64
  rc_fec_enabled :: bool

definition session_receiver_new :: "ReceiverConfig \<Rightarrow> SessionReceiver" where
  "session_receiver_new cfg =
     \<lparr>sr_shared = \<lparr>rs_session_id = rc_session_id cfg, rs_route = rc_route cfg,
        rs_local_node_id = rc_local_node_id cfg, rs_sink_buffer = rc_sink_buffer cfg,
        rs_progress = rc_progress cfg, rs_peer_report_timeout_ms = rc_peer_report_timeout_ms cfg,
        rs_fec_enabled = rc_fec_enabled cfg, rs_manifest = None, rs_plan = None,
        rs_complete_blocks = {}\<rparr>,
      sr_mode = None, sr_lifecycle = Active\<rparr>"

definition reported_complete :: "SessionReceiver \<Rightarrow> bool" where
  "reported_complete s = (case sr_mode s of
     Some (PlainMode m) \<Rightarrow> pr_complete_reported m
   | Some (FecMode m) \<Rightarrow> fr_complete_reported m
   | None \<Rightarrow> False)"

definition finish_receiver :: "SessionReceiver \<Rightarrow> SessionReceiver" where
  "finish_receiver s = s\<lparr>sr_lifecycle := SessionFinished\<rparr>"

definition enter_passive_complete :: "SessionReceiver \<Rightarrow> SessionReceiver" where
  "enter_passive_complete s =
     (if sr_lifecycle s = PassiveComplete then s
      else s\<lparr>sr_shared := mark_object_complete (sr_shared s), sr_lifecycle := PassiveComplete\<rparr>)"

section \<open>Frames\<close>

definition mode_new :: "BlockPlan \<Rightarrow> LosslessSessionMode \<Rightarrow> ReceiverMode option" where
  "mode_new plan mode =
     (case mode of
        ModePlain \<Rightarrow> Some (PlainMode plain_receiver_default)
      | ModeFec fec \<Rightarrow>
          (case symbol_geometry plan (fm_symbols_per_block fec) of
             Inl _ \<Rightarrow> None
           | Inr geometry \<Rightarrow> Some (FecMode (fec_receiver_new geometry))))"

definition install_manifest :: "(nat \<Rightarrow> bool) \<Rightarrow> LosslessSessionManifest \<Rightarrow> SessionReceiver \<Rightarrow>
    (outputs \<times> SessionReceiver) may_panic" where
  "install_manifest can_reserve manifest s =
     (case rs_manifest (sr_shared s) of
        Some existing \<Rightarrow>
          if existing = manifest then map_option (\<lambda>out. (out, s)) (send_ready (sr_shared s))
          else Some ([], s)
      | None \<Rightarrow>
          if is_fec (mf_mode manifest) \<and> \<not> rs_fec_enabled (sr_shared s) then Some ([], s)
          else
            (case block_plan_new (mf_total_bytes manifest) (ucast (mf_block_size manifest)) of
               Inl _ \<Rightarrow> Some ([], s)
             | Inr plan \<Rightarrow>
                 (case mode_new plan (mf_mode manifest) of
                    None \<Rightarrow> Some ([], s)
                  | Some mode \<Rightarrow>
                      (case ensure_sink_buffer_len can_reserve (unat (bp_total_bytes plan)) (sr_shared s) of
                         None \<Rightarrow> Some ([], s)
                       | Some sh \<Rightarrow>
                           let s = s\<lparr>sr_shared := sh\<lparr>rs_plan := Some plan, rs_manifest := Some manifest\<rparr>,
                                     sr_mode := Some mode\<rparr>
                           in map_option (\<lambda>out. (out, s)) (send_ready (sr_shared s))))))"

definition mode_source_done :: "u32 \<Rightarrow> SessionReceiver \<Rightarrow> (outputs \<times> SessionReceiver) may_panic" where
  "mode_source_done round_id s =
     (case sr_mode s of
        None \<Rightarrow> Some ([], s)
      | Some (PlainMode m) \<Rightarrow>
          map_option (\<lambda>(out, m). (out, s\<lparr>sr_mode := Some (PlainMode m)\<rparr>))
            (plain_handle_source_done (sr_shared s) round_id m)
      | Some (FecMode m) \<Rightarrow>
          map_option (\<lambda>(out, m). (out, s\<lparr>sr_mode := Some (FecMode m)\<rparr>))
            (fec_handle_source_done (sr_shared s) round_id m))"

definition handle_control_frame :: "(nat \<Rightarrow> bool) \<Rightarrow> InboundFrame \<Rightarrow> SessionReceiver \<Rightarrow>
    (outputs \<times> SessionReceiver) may_panic" where
  "handle_control_frame can_reserve frame s =
     (case decode_control (if_bytes frame) of
        None \<Rightarrow> Some ([], s)
      | Some (_, control) \<Rightarrow>
          (case control of
             Manifest manifest \<Rightarrow> install_manifest can_reserve manifest s
           | Ready \<Rightarrow> Some ([], s)
           | Need _ _ \<Rightarrow> Some ([], s)
           | SourceDone round_id \<Rightarrow> mode_source_done round_id s))"

definition handle_block_data_frame :: "InboundFrame \<Rightarrow> SessionReceiver \<Rightarrow> SessionReceiver" where
  "handle_block_data_frame frame s =
     (case sr_mode s of
        Some (PlainMode m) \<Rightarrow> s\<lparr>sr_shared := plain_handle_block_data frame (sr_shared s)\<rparr>
      | _ \<Rightarrow> s)"

definition handle_symbol_frame :: "(nat \<Rightarrow> bool) \<Rightarrow> solve \<Rightarrow> InboundFrame \<Rightarrow> SessionReceiver \<Rightarrow>
    SessionReceiver may_panic" where
  "handle_symbol_frame can_reserve solve frame s =
     (case sr_mode s of
        Some (FecMode m) \<Rightarrow>
          map_option (\<lambda>(m, sh). s\<lparr>sr_shared := sh, sr_mode := Some (FecMode m)\<rparr>)
            (handle_block_symbol_frame can_reserve solve frame (m, sr_shared s))
      | _ \<Rightarrow> Some s)"

section \<open>The loop\<close>

text \<open>One frame and the check that follows it.\<close>

definition receiver_frame :: "(nat \<Rightarrow> bool) \<Rightarrow> solve \<Rightarrow> InboundFrame \<Rightarrow> SessionReceiver \<Rightarrow>
    (outputs \<times> SessionReceiver) may_panic" where
  "receiver_frame can_reserve solve frame s =
     map_option (\<lambda>(out, s). (out, if reported_complete s then enter_passive_complete s else s))
       (if decode_control (if_bytes frame) \<noteq> None then handle_control_frame can_reserve frame s
        else if decode_block_data (if_bytes frame) \<noteq> None then Some ([], handle_block_data_frame frame s)
        else if decode_block_symbol (if_bytes frame) \<noteq> None then
          map_option (Pair []) (handle_symbol_frame can_reserve solve frame s)
        else Some ([], s))"

text \<open>A turn; the flag says that the loop is left.  The timer runs only in the passive-complete
  state, after \<open>session_finish_timeout_for\<close>.\<close>

definition receiver_turn :: "(nat \<Rightarrow> bool) \<Rightarrow> solve \<Rightarrow> Wake \<Rightarrow> SessionReceiver \<Rightarrow>
    (outputs \<times> SessionReceiver \<times> bool) may_panic" where
  "receiver_turn can_reserve solve wake s =
     (case wake of
        RecvFrame frame \<Rightarrow>
          map_option (\<lambda>(out, s). (out, s, False)) (receiver_frame can_reserve solve frame s)
      | RecvClosed \<Rightarrow> Some ([], finish_receiver s, True)
      | TimerFired \<Rightarrow>
          if sr_lifecycle s = PassiveComplete then Some ([], finish_receiver s, True)
          else Some ([], s, False))"

definition passive_timeout :: "SessionReceiver \<Rightarrow> nat option" where
  "passive_timeout s = (if sr_lifecycle s = PassiveComplete
     then Some (session_finish_timeout_for (unat (rs_peer_report_timeout_ms (sr_shared s)))) else None)"

datatype CompletedReceiverReplay =
    ReplayPlain u32 TransportRoute NeedReport
  | ReplayFec u32 TransportRoute NeedReport

definition completed_replay :: "SessionReceiver \<Rightarrow> CompletedReceiverReplay option" where
  "completed_replay s =
     (case sr_mode s of
        Some (PlainMode m) \<Rightarrow>
          if reported_complete s then
            map_option (\<lambda>round_id. ReplayPlain round_id (rs_route (sr_shared s)) NeedComplete)
              (pr_last_source_done_round_id m)
          else None
      | Some (FecMode m) \<Rightarrow>
          if reported_complete s then
            map_option (\<lambda>round_id. ReplayFec round_id (rs_route (sr_shared s)) NeedComplete)
              (fr_last_source_done_round_id m)
          else None
      | None \<Rightarrow> None)"

text \<open>What the task registers with the runtime when it ends.\<close>

definition register_completed_replay :: "SessionReceiver \<Rightarrow> CompletedReceiverReplay option" where
  "register_completed_replay s = (if reported_complete s then completed_replay s else None)"

text \<open>The task over a list of events: its output, final state, and whether it has ended.\<close>

fun receiver_run :: "(nat \<Rightarrow> bool) \<Rightarrow> solve \<Rightarrow> Wake list \<Rightarrow> SessionReceiver \<Rightarrow>
    (outputs \<times> SessionReceiver \<times> bool) may_panic" where
  "receiver_run can_reserve solve [] s = Some ([], s, False)"
| "receiver_run can_reserve solve (wake # wakes) s =
     (case receiver_turn can_reserve solve wake s of
        None \<Rightarrow> None
      | Some (out, s', True) \<Rightarrow> Some (out, s', True)
      | Some (out, s', False) \<Rightarrow>
          map_option (\<lambda>(out', r). (out @ out', r)) (receiver_run can_reserve solve wakes s'))"

section \<open>The answers of a receiver\<close>

definition mode_last :: "SessionReceiver \<Rightarrow> (u32 \<times> NeedReport) option" where
  "mode_last s = (case sr_mode s of
     None \<Rightarrow> None | Some (PlainMode m) \<Rightarrow> plain_last m | Some (FecMode m) \<Rightarrow> fec_last m)"

definition mode_wf :: "SessionReceiver \<Rightarrow> bool" where
  "mode_wf s \<longleftrightarrow> (rs_manifest (sr_shared s) = None \<longleftrightarrow> sr_mode s = None) \<and> (case sr_mode s of
     None \<Rightarrow> True | Some (PlainMode m) \<Rightarrow> plain_receiver_wf m | Some (FecMode m) \<Rightarrow> fec_receiver_wf m)"

text \<open>The Need frames among a task's output, as the peer decodes them.\<close>

definition need_of :: "bytes \<Rightarrow> (u32 \<times> NeedReport) option" where
  "need_of bs = (case decode_control bs of Some (_, Need r rep) \<Rightarrow> Some (r, rep) | _ \<Rightarrow> None)"

definition needs :: "outputs \<Rightarrow> (u32 \<times> NeedReport) list" where
  "needs out = List.map_filter (\<lambda>(_, bs). need_of bs) out"

lemma needs_simps [simp]: "needs [] = []" "needs (a @ b) = needs a @ needs b"
  by (simp_all add: needs_def List.map_filter_def)

lemma needs_send_ready: "send_ready sh = Some out \<Longrightarrow> needs out = []"
  by (auto simp: send_ready_def receiver_route_def send_control_eq needs_def List.map_filter_def
      need_of_def decode_control_frame)

lemma needs_send_need:
  "send_need sh r rep = Some out \<Longrightarrow> needs out = [(r, canonical_report rep)]"
  by (auto simp: send_need_def receiver_route_def send_control_eq needs_def List.map_filter_def
      need_of_def decode_control_frame split: if_splits)

definition keeps_answers :: "FecReceiver \<Rightarrow> FecReceiver \<Rightarrow> bool" where
  "keeps_answers m m' \<longleftrightarrow>
     fr_last_source_done_round_id m' = fr_last_source_done_round_id m \<and>
     fr_last_round_need m' = fr_last_round_need m \<and>
     fr_complete_reported m' = fr_complete_reported m \<and> fr_geometry m' = fr_geometry m"

definition same_receiver :: "ReceiverShared \<Rightarrow> ReceiverShared \<Rightarrow> bool" where
  "same_receiver sh sh' \<longleftrightarrow> rs_manifest sh' = rs_manifest sh \<and> rs_plan sh' = rs_plan sh \<and>
     rs_session_id sh' = rs_session_id sh \<and> rs_route sh' = rs_route sh \<and>
     rs_fec_enabled sh' = rs_fec_enabled sh"

lemma same_receiver_refl [simp]: "same_receiver sh sh" "keeps_answers m m"
  by (simp_all add: same_receiver_def keeps_answers_def)

lemma complete_block_keeps:
  "complete_block b block (m, sh) = (m', sh') \<Longrightarrow> keeps_answers m m' \<and> same_receiver sh sh'"
  by (auto simp: complete_block_def Let_def keeps_answers_def same_receiver_def)

lemma try_decode_keeps:
  assumes "try_decode_fec_block can_reserve solve b fec (m, sh) = Some (ok, m', sh')"
  shows "keeps_answers m m' \<and> same_receiver sh sh'"
  using assms
  by (auto simp: try_decode_fec_block_def Let_def dest: complete_block_keeps
      split: option.splits if_splits)

lemma handle_block_symbol_frame_keeps:
  assumes "handle_block_symbol_frame can_reserve solve f (m, sh) = Some (m', sh')"
  shows "keeps_answers m m' \<and> same_receiver sh sh'"
proof (cases "rs_manifest sh")
  case None
  then show ?thesis using assms by (simp add: handle_block_symbol_frame_def)
next
  case mf: (Some manifest)
  show ?thesis
  proof (cases "mf_mode manifest")
    case ModePlain
    then show ?thesis using assms mf by (simp add: handle_block_symbol_frame_def)
  next
    case (ModeFec fec)
    from mf ModeFec show ?thesis
    proof (cases rule: handle_block_symbol_frame_cases [where f = f and m = m and can_reserve = can_reserve and solve = solve])
      case 1
      then show ?thesis using assms by simp
    next
      case (2 hdr sym p)
      let ?m = "hold_symbol (bs_block_id sym) (bs_symbol_id sym) p m"
      obtain ok where "try_decode_fec_block can_reserve solve (bs_block_id sym) fec
          (?m, mark_first_payload_unit sh) = Some (ok, m', sh')"
        using assms 2(4) by auto
      from try_decode_keeps [OF this] show ?thesis
        by (simp add: keeps_answers_def same_receiver_def hold_symbol_def)
    qed
  qed
qed

lemma keeps_answers_last:
  "keeps_answers m m' \<Longrightarrow> fec_last m' = fec_last m \<and> (fec_receiver_wf m' \<longleftrightarrow> fec_receiver_wf m)"
  by (simp add: keeps_answers_def fec_last_def fec_receiver_wf_def)

lemma enter_passive_complete_fields [simp]:
  "sr_mode (enter_passive_complete s) = sr_mode s"
  "rs_manifest (sr_shared (enter_passive_complete s)) = rs_manifest (sr_shared s)"
  "mode_last (enter_passive_complete s) = mode_last s"
  "mode_wf (enter_passive_complete s) = mode_wf s"
  by (simp_all add: enter_passive_complete_def mode_last_def mode_wf_def)

text \<open>\<open>answers_step s out s'\<close>: one step of the receiver answers nothing new, or answers a round
  at or after the last one, and the last round only with its own report.\<close>

definition answers_step :: "SessionReceiver \<Rightarrow> outputs \<Rightarrow> SessionReceiver \<Rightarrow> bool" where
  "answers_step s out s' \<longleftrightarrow> mode_wf s' \<and>
     ((needs out = [] \<and> mode_last s' = mode_last s) \<or>
      (\<exists>r rep. needs out = [(r, canonical_report rep)] \<and> mode_last s' = Some (r, rep) \<and>
         (\<forall>r0 rep0. mode_last s = Some (r0, rep0) \<longrightarrow> r0 \<le> r \<and> (r0 = r \<longrightarrow> rep0 = rep))))"

lemma install_manifest_cases:
  assumes "install_manifest can_reserve manifest s = Some (out, s')"
  obtains "out = []" "s' = s"
  | "rs_manifest (sr_shared s) = Some manifest" "s' = s" "send_ready (sr_shared s) = Some out"
  | plan mode sh where "rs_manifest (sr_shared s) = None"
      "block_plan_new (mf_total_bytes manifest) (ucast (mf_block_size manifest)) = Inr plan"
      "mode_new plan (mf_mode manifest) = Some mode"
      "ensure_sink_buffer_len can_reserve (unat (bp_total_bytes plan)) (sr_shared s) = Some sh"
      "s' = s\<lparr>sr_shared := sh\<lparr>rs_plan := Some plan, rs_manifest := Some manifest\<rparr>, sr_mode := Some mode\<rparr>"
      "send_ready (sr_shared s') = Some out"
proof (cases "rs_manifest (sr_shared s)")
  case (Some existing)
  then show thesis using assms that(1,2) by (auto simp: install_manifest_def split: if_splits)
next
  case none: None
  note def = assms [unfolded install_manifest_def none option.case]
  show thesis
  proof (cases "is_fec (mf_mode manifest) \<and> \<not> rs_fec_enabled (sr_shared s)")
    case True
    then show thesis using def that(1) by simp
  next
    case fec: False
    show thesis
    proof (cases "block_plan_new (mf_total_bytes manifest) (ucast (mf_block_size manifest))")
      case (Inl e)
      then show thesis using def fec that(1) by (simp split: if_splits)
    next
      case plan: (Inr plan)
      show thesis
      proof (cases "mode_new plan (mf_mode manifest)")
        case None
        then show thesis using def fec plan that(1) by (simp split: if_splits)
      next
        case mode: (Some mode)
        show thesis
        proof (cases "ensure_sink_buffer_len can_reserve (unat (bp_total_bytes plan)) (sr_shared s)")
          case None
          then show thesis using def fec plan mode that(1) by (simp split: if_splits)
        next
          case (Some sh)
          let ?s = "s\<lparr>sr_shared := sh\<lparr>rs_plan := Some plan, rs_manifest := Some manifest\<rparr>, sr_mode := Some mode\<rparr>"
          have "map_option (\<lambda>out. (out, ?s)) (send_ready (sr_shared ?s)) = Some (out, s')"
            using def fec plan mode Some by (auto simp: Let_def split: if_splits)
          then obtain sent where "send_ready (sr_shared ?s) = Some sent" "(sent, ?s) = (out, s')"
            by blast
          then have "s' = ?s" "send_ready (sr_shared s') = Some out" by auto
          then show thesis by (rule that(3) [OF none plan mode Some])
        qed
      qed
    qed
  qed
qed

lemma mode_new_fresh:
  assumes "mode_new plan mode = Some md"
  shows "(case md of PlainMode m \<Rightarrow> plain_last m = None \<and> plain_receiver_wf m \<and> mode = ModePlain
    | FecMode m \<Rightarrow> fec_last m = None \<and> fec_receiver_wf m \<and>
        (\<exists>fec. mode = ModeFec fec \<and> symbol_geometry plan (fm_symbols_per_block fec) = Inr (fr_geometry m) \<and>
          fr_blocks m = Map.empty))"
  using assms
  by (auto simp: mode_new_def plain_receiver_default_def plain_last_def plain_receiver_wf_def
      fec_receiver_new_def fec_last_def fec_receiver_wf_def
      split: LosslessSessionMode.splits sum.splits)

lemma install_manifest_answers:
  assumes "install_manifest can_reserve manifest s = Some (out, s')" "mode_wf s"
  shows "answers_step s out s'"
  using assms(1)
proof (cases rule: install_manifest_cases)
  case 1
  then show ?thesis using assms(2) by (simp add: answers_step_def)
next
  case 2
  then show ?thesis using assms(2) needs_send_ready by (auto simp: answers_step_def)
next
  case (3 plan mode sh)
  have "sr_mode s = None" using assms(2) 3(1) by (simp add: mode_wf_def)
  then show ?thesis
    using 3(5) mode_new_fresh [OF 3(3)] needs_send_ready [OF 3(6)]
    by (cases mode) (simp_all add: answers_step_def mode_last_def mode_wf_def)
qed

lemma mode_source_done_answers:
  assumes "mode_source_done r s = Some (out, s')" "mode_wf s"
  shows "answers_step s out s'"
proof (cases "sr_mode s")
  case None
  then show ?thesis using assms by (simp add: mode_source_done_def answers_step_def)
next
  case (Some mode)
  show ?thesis
  proof (cases mode)
    case (PlainMode m)
    then obtain m' where h: "plain_handle_source_done (sr_shared s) r m = Some (out, m')"
      "s' = s\<lparr>sr_mode := Some (PlainMode m')\<rparr>"
      using assms(1) Some by (auto simp: mode_source_done_def)
    have wf: "plain_receiver_wf m" using assms(2) Some PlainMode by (simp add: mode_wf_def)
    have wf': "mode_wf s'"
      using assms(2) plain_rounds.keeps [OF wf h(1)] Some h(2) by (simp add: mode_wf_def)
    have last: "mode_last s = plain_last m" "mode_last s' = plain_last m'"
      using Some PlainMode h(2) by (simp_all add: mode_last_def)
    from wf h(1) show ?thesis
    proof (cases rule: plain_rounds.handle_cases)
      case 1
      then show ?thesis using wf' last by (simp add: answers_step_def)
    next
      case (2 rep)
      have "needs out = [(r, canonical_report rep)]" by (rule needs_send_need [OF 2(1)])
      then show ?thesis using wf' 2(2,3) unfolding answers_step_def last by blast
    qed
  next
    case (FecMode m)
    then obtain m' where h: "fec_handle_source_done (sr_shared s) r m = Some (out, m')"
      "s' = s\<lparr>sr_mode := Some (FecMode m')\<rparr>"
      using assms(1) Some by (auto simp: mode_source_done_def)
    have wf: "fec_receiver_wf m" using assms(2) Some FecMode by (simp add: mode_wf_def)
    have wf': "mode_wf s'"
      using assms(2) fec_rounds.keeps [OF wf h(1)] Some h(2) by (simp add: mode_wf_def)
    have last: "mode_last s = fec_last m" "mode_last s' = fec_last m'"
      using Some FecMode h(2) by (simp_all add: mode_last_def)
    from wf h(1) show ?thesis
    proof (cases rule: fec_rounds.handle_cases)
      case 1
      then show ?thesis using wf' last by (simp add: answers_step_def)
    next
      case (2 rep)
      have "needs out = [(r, canonical_report rep)]" by (rule needs_send_need [OF 2(1)])
      then show ?thesis using wf' 2(2,3) unfolding answers_step_def last by blast
    qed
  qed
qed

lemma answers_step_same: "mode_wf s \<Longrightarrow> answers_step s [] s"
  by (simp add: answers_step_def)

lemma handle_block_data_frame_answers:
  "mode_wf s \<Longrightarrow> answers_step s [] (handle_block_data_frame f s)"
  by (auto simp: handle_block_data_frame_def answers_step_def mode_wf_def mode_last_def
      plain_handle_block_data_grows split: option.splits ReceiverMode.splits)

lemma handle_symbol_frame_answers:
  assumes "handle_symbol_frame can_reserve solve f s = Some s'" "mode_wf s"
  shows "answers_step s [] s'"
proof (cases "sr_mode s")
  case (Some mode)
  show ?thesis
  proof (cases mode)
    case (FecMode m)
    then obtain m' sh' where h: "handle_block_symbol_frame can_reserve solve f (m, sr_shared s) = Some (m', sh')"
      "s' = s\<lparr>sr_shared := sh', sr_mode := Some (FecMode m')\<rparr>"
      using assms(1) Some by (auto simp: handle_symbol_frame_def)
    have k: "keeps_answers m m'" "same_receiver (sr_shared s) sh'"
      using handle_block_symbol_frame_keeps [OF h(1)] by blast+
    then show ?thesis
      using assms(2) Some FecMode h(2) keeps_answers_last [OF k(1)]
      by (simp add: answers_step_def mode_wf_def mode_last_def same_receiver_def)
  qed (use assms Some in \<open>simp add: handle_symbol_frame_def answers_step_same\<close>)
qed (use assms in \<open>simp add: handle_symbol_frame_def answers_step_same\<close>)

lemma receiver_frame_answers:
  assumes "receiver_frame can_reserve solve f s = Some (out, s')" "mode_wf s"
  shows "answers_step s out s'"
proof -
  obtain s1 where s1: "s' = (if reported_complete s1 then enter_passive_complete s1 else s1)"
    and raw: "(if decode_control (if_bytes f) \<noteq> None then handle_control_frame can_reserve f s
        else if decode_block_data (if_bytes f) \<noteq> None then Some ([], handle_block_data_frame f s)
        else if decode_block_symbol (if_bytes f) \<noteq> None then
          map_option (Pair []) (handle_symbol_frame can_reserve solve f s)
        else Some ([], s)) = Some (out, s1)"
    using assms(1) unfolding receiver_frame_def by (auto simp del: option.map_comp)
  have "answers_step s out s1"
    using raw assms(2)
    by (auto simp: handle_control_frame_def answers_step_same
        dest: handle_symbol_frame_answers install_manifest_answers mode_source_done_answers
        intro: handle_block_data_frame_answers
        split: if_splits option.splits LosslessSessionControl.splits)
  then show ?thesis by (simp add: answers_step_def s1)
qed

lemma receiver_turn_answers:
  assumes "receiver_turn can_reserve solve w s = Some (out, s', fin)" "mode_wf s"
  shows "answers_step s out s'"
proof (cases w)
  case (RecvFrame f)
  then show ?thesis using assms receiver_frame_answers by (auto simp: receiver_turn_def)
qed (use assms in \<open>auto simp: receiver_turn_def finish_receiver_def answers_step_def mode_wf_def mode_last_def
      split: if_splits\<close>)

definition canonical_last :: "SessionReceiver \<Rightarrow> (u32 \<times> NeedReport) option" where
  "canonical_last s = map_option (map_prod id canonical_report) (mode_last s)"

lemma receiver_run_rounds:
  "receiver_run can_reserve solve wakes s = Some (out, s', fin) \<Longrightarrow> mode_wf s \<Longrightarrow>
     rounds_ok (canonical_last s) (needs out)"
proof (induction wakes arbitrary: s out)
  case (Cons w wakes)
  obtain out1 s1 fin1 where t: "receiver_turn can_reserve solve w s = Some (out1, s1, fin1)"
    using Cons.prems(1) by (auto split: option.splits)
  have step: "answers_step s out1 s1" by (rule receiver_turn_answers [OF t Cons.prems(2)])
  have rest: "\<exists>out2. out = out1 @ out2 \<and> rounds_ok (canonical_last s1) (needs out2)"
  proof (cases fin1)
    case True
    then show ?thesis using Cons.prems(1) t by simp
  next
    case False
    then obtain out2 where "receiver_run can_reserve solve wakes s1 = Some (out2, s', fin)"
      "out = out1 @ out2"
      using Cons.prems(1) t by auto
    then show ?thesis using Cons.IH step by (auto simp: answers_step_def)
  qed
  then obtain out2 where out: "out = out1 @ out2" and r: "rounds_ok (canonical_last s1) (needs out2)"
    by blast
  from step consider "needs out1 = []" "mode_last s1 = mode_last s"
    | r rep where "needs out1 = [(r, canonical_report rep)]" "mode_last s1 = Some (r, rep)"
      "\<forall>r0 rep0. mode_last s = Some (r0, rep0) \<longrightarrow> r0 \<le> r \<and> (r0 = r \<longrightarrow> rep0 = rep)"
    unfolding answers_step_def by blast
  then show ?case
  proof cases
    case 1
    then show ?thesis using out r by (simp add: canonical_last_def)
  next
    case (2 r1 rep1)
    then have "rounds_ok (Some (r1, canonical_report rep1)) (needs out2)"
      using r by (simp add: canonical_last_def)
    then have "rounds_ok (canonical_last s) ((r1, canonical_report rep1) # needs out2)"
      using 2(3) by (intro rounds_ok_Cons) (auto simp: canonical_last_def)
    then show ?thesis using out 2(1) by simp
  qed
qed simp

lemma mode_wf_new [simp]: "mode_wf (session_receiver_new cfg)"
  by (simp add: mode_wf_def session_receiver_new_def)

text \<open>C32. A receiver never changes its answer: over its whole life, the rounds of the Need
  frames it sends never go back, and all Need frames of one round carry the same report.\<close>

theorem receiver_rounds_immutable:
  assumes "receiver_run can_reserve solve wakes (session_receiver_new cfg) = Some (out, s', fin)"
  shows "sorted_wrt (\<lambda>(r1, rep1) (r2, rep2). r1 \<le> r2 \<and> (r1 = r2 \<longrightarrow> rep1 = rep2)) (needs out)"
  using receiver_run_rounds [OF assms] by (simp add: rounds_ok_def)

section \<open>The lifecycle\<close>

lemma reported_complete_last:
  "mode_wf s \<Longrightarrow> reported_complete s \<longleftrightarrow> (\<exists>r. mode_last s = Some (r, NeedComplete))"
  by (auto simp: mode_wf_def reported_complete_def mode_last_def plain_rounds.reported
      fec_rounds.reported split: option.splits ReceiverMode.splits)

text \<open>What a frame handler makes of the state, before the check that follows it.\<close>

definition receiver_dispatch :: "(nat \<Rightarrow> bool) \<Rightarrow> solve \<Rightarrow> InboundFrame \<Rightarrow> SessionReceiver \<Rightarrow>
    (outputs \<times> SessionReceiver) may_panic" where
  "receiver_dispatch can_reserve solve f s =
     (if decode_control (if_bytes f) \<noteq> None then handle_control_frame can_reserve f s
      else if decode_block_data (if_bytes f) \<noteq> None then Some ([], handle_block_data_frame f s)
      else if decode_block_symbol (if_bytes f) \<noteq> None then
        map_option (Pair []) (handle_symbol_frame can_reserve solve f s)
      else Some ([], s))"

lemma receiver_frame_dispatch:
  "receiver_frame can_reserve solve f s = map_option
     (\<lambda>(out, s). (out, if reported_complete s then enter_passive_complete s else s))
     (receiver_dispatch can_reserve solve f s)"
  by (simp add: receiver_frame_def receiver_dispatch_def)

lemma mode_source_done_lifecycle:
  "mode_source_done r s = Some (out, s') \<Longrightarrow> sr_lifecycle s' = sr_lifecycle s"
  by (auto simp: mode_source_done_def split: option.splits ReceiverMode.splits)

lemma receiver_dispatch_lifecycle:
  assumes "receiver_dispatch can_reserve solve f s = Some (out, s')"
  shows "sr_lifecycle s' = sr_lifecycle s"
  using assms
  by (auto simp: receiver_dispatch_def handle_control_frame_def handle_block_data_frame_def
      handle_symbol_frame_def dest: mode_source_done_lifecycle elim!: install_manifest_cases
      split: if_splits option.splits ReceiverMode.splits LosslessSessionControl.splits)

text \<open>\<open>lifecycle_ok s out\<close>: the state of the loop and what the task has sent so far.\<close>

definition lifecycle_ok :: "SessionReceiver \<Rightarrow> outputs \<Rightarrow> bool" where
  "lifecycle_ok s out \<longleftrightarrow> mode_wf s \<and>
     (sr_lifecycle s = Active \<longrightarrow> \<not> reported_complete s) \<and>
     (sr_lifecycle s = PassiveComplete \<longrightarrow> (\<exists>r. (r, NeedComplete) \<in> set (needs out))) \<and>
     (\<forall>r rep. mode_last s = Some (r, rep) \<longrightarrow>
        needs out \<noteq> [] \<and> last (needs out) = (r, canonical_report rep))"

lemma answers_step_last:
  assumes "answers_step s out s'"
    and "\<forall>r rep. mode_last s = Some (r, rep) \<longrightarrow>
      needs out0 \<noteq> [] \<and> last (needs out0) = (r, canonical_report rep)"
  shows "\<forall>r rep. mode_last s' = Some (r, rep) \<longrightarrow>
      needs (out0 @ out) \<noteq> [] \<and> last (needs (out0 @ out)) = (r, canonical_report rep)"
  using assms by (auto simp: answers_step_def)

lemma receiver_turn_lifecycle:
  assumes "receiver_turn can_reserve solve w s = Some (out, s', fin)"
    and "lifecycle_ok s out0" "sr_lifecycle s \<noteq> SessionFinished"
  shows "lifecycle_ok s' (out0 @ out)" "fin \<longleftrightarrow> sr_lifecycle s' = SessionFinished"
    "sr_lifecycle s \<le> sr_lifecycle s'"
proof -
  have wf: "mode_wf s" using assms(2) by (simp add: lifecycle_ok_def)
  have step: "answers_step s out s'" by (rule receiver_turn_answers [OF assms(1) wf])
  then have wf': "mode_wf s'" by (simp add: answers_step_def)
  have last: "\<forall>r rep. mode_last s' = Some (r, rep) \<longrightarrow>
      needs (out0 @ out) \<noteq> [] \<and> last (needs (out0 @ out)) = (r, canonical_report rep)"
    using assms(2) by (intro answers_step_last [OF step]) (simp add: lifecycle_ok_def)
  have sent: "\<exists>r. (r, NeedComplete) \<in> set (needs (out0 @ out))" if complete: "reported_complete s'"
  proof -
    obtain r where "mode_last s' = Some (r, NeedComplete)"
      using complete reported_complete_last [OF wf'] by blast
    then have "needs (out0 @ out) \<noteq> []" "last (needs (out0 @ out)) = (r, NeedComplete)"
      using last by auto
    then show ?thesis using last_in_set [of "needs (out0 @ out)"] by metis
  qed
  have "lifecycle_ok s' (out0 @ out) \<and> (fin \<longleftrightarrow> sr_lifecycle s' = SessionFinished) \<and>
      sr_lifecycle s \<le> sr_lifecycle s'"
  proof (cases w)
    case (RecvFrame f)
    then obtain s1 where d: "receiver_dispatch can_reserve solve f s = Some (out, s1)"
      "s' = (if reported_complete s1 then enter_passive_complete s1 else s1)" "\<not> fin"
      using assms(1) by (auto simp: receiver_turn_def receiver_frame_dispatch)
    have l: "sr_lifecycle s1 = sr_lifecycle s" by (rule receiver_dispatch_lifecycle [OF d(1)])
    have same: "reported_complete s' \<longleftrightarrow> reported_complete s1"
      by (simp add: d(2) reported_complete_def)
    show ?thesis
    proof (cases "reported_complete s1")
      case True
      then have "sr_lifecycle s' = PassiveComplete" by (simp add: d(2) enter_passive_complete_def)
      then show ?thesis
        using wf' last sent same True d(3) assms(3)
        by (cases "sr_lifecycle s") (auto simp: lifecycle_ok_def less_eq_ReceiverLifecycle_def)
    next
      case False
      then show ?thesis
        using wf' last same l d assms(2,3) by (auto simp: lifecycle_ok_def)
    qed
  next
    case RecvClosed
    then have "out = []" "s' = finish_receiver s" "fin" using assms(1) by (auto simp: receiver_turn_def)
    then show ?thesis
      using wf' last by (cases "sr_lifecycle s")
        (auto simp: lifecycle_ok_def finish_receiver_def less_eq_ReceiverLifecycle_def)
  next
    case TimerFired
    show ?thesis
    proof (cases "sr_lifecycle s = PassiveComplete")
      case True
      then have "out = []" "s' = finish_receiver s" "fin"
        using assms(1) TimerFired by (auto simp: receiver_turn_def)
      then show ?thesis using wf' last True
        by (auto simp: lifecycle_ok_def finish_receiver_def less_eq_ReceiverLifecycle_def)
    next
      case False
      then show ?thesis using assms TimerFired by (auto simp: receiver_turn_def)
    qed
  qed
  then show "lifecycle_ok s' (out0 @ out)" "fin \<longleftrightarrow> sr_lifecycle s' = SessionFinished"
    "sr_lifecycle s \<le> sr_lifecycle s'" by blast+
qed

lemma receiver_run_lifecycle:
  assumes "receiver_run can_reserve solve wakes s = Some (out, s', fin)"
    and "lifecycle_ok s out0" "sr_lifecycle s \<noteq> SessionFinished"
  shows "lifecycle_ok s' (out0 @ out) \<and> (fin \<longleftrightarrow> sr_lifecycle s' = SessionFinished) \<and>
    sr_lifecycle s \<le> sr_lifecycle s'"
  using assms
proof (induction wakes arbitrary: s out out0)
  case Nil
  then show ?case by simp
next
  case (Cons w wakes)
  obtain out1 s1 fin1 where t: "receiver_turn can_reserve solve w s = Some (out1, s1, fin1)"
    using Cons.prems(1) by (auto split: option.splits)
  note l = receiver_turn_lifecycle [OF t Cons.prems(2,3)]
  show ?case
  proof (cases fin1)
    case True
    then show ?thesis using Cons.prems(1) t l by auto
  next
    case False
    then obtain out2 where r: "receiver_run can_reserve solve wakes s1 = Some (out2, s', fin)"
      "out = out1 @ out2"
      using Cons.prems(1) t by auto
    show ?thesis
      using Cons.IH [OF r(1) l(1)] l(2,3) False r(2) by auto
  qed
qed

lemma lifecycle_ok_new: "lifecycle_ok (session_receiver_new cfg) []"
  by (simp add: lifecycle_ok_def)
    (simp add: session_receiver_new_def reported_complete_def mode_last_def)

text \<open>C33. The lifecycle only advances, and ends exactly when the loop is left; the passive
  state is only reached after a Need frame reporting completion was sent; and the replay a
  task registers when it ends is the answer it gave last, which reported completion.\<close>

theorem receiver_lifecycle:
  assumes "receiver_run can_reserve solve wakes1 (session_receiver_new cfg) = Some (out1, s1, False)"
    and "receiver_run can_reserve solve wakes2 s1 = Some (out2, s2, fin)"
  shows "sr_lifecycle s1 \<le> sr_lifecycle s2 \<and> (fin \<longleftrightarrow> sr_lifecycle s2 = SessionFinished) \<and>
    (sr_lifecycle s2 = PassiveComplete \<longrightarrow> (\<exists>r. (r, NeedComplete) \<in> set (needs (out1 @ out2)))) \<and>
    (case register_completed_replay s2 of
       None \<Rightarrow> \<not> reported_complete s2
     | Some replay \<Rightarrow> \<exists>r. last (needs (out1 @ out2)) = (r, NeedComplete) \<and>
         replay \<in> {ReplayPlain r (rs_route (sr_shared s2)) NeedComplete,
           ReplayFec r (rs_route (sr_shared s2)) NeedComplete})"
proof -
  have a: "sr_lifecycle (session_receiver_new cfg) \<noteq> SessionFinished"
    by (simp add: session_receiver_new_def)
  note 1 = receiver_run_lifecycle [OF assms(1) lifecycle_ok_new a]
  then have l1: "lifecycle_ok s1 out1" "sr_lifecycle s1 \<noteq> SessionFinished" by simp_all
  note 2 = receiver_run_lifecycle [OF assms(2) l1]
  have wf: "mode_wf s2" using 2 by (simp add: lifecycle_ok_def)
  have "case register_completed_replay s2 of
       None \<Rightarrow> \<not> reported_complete s2
     | Some replay \<Rightarrow> \<exists>r. last (needs (out1 @ out2)) = (r, NeedComplete) \<and>
         replay \<in> {ReplayPlain r (rs_route (sr_shared s2)) NeedComplete,
           ReplayFec r (rs_route (sr_shared s2)) NeedComplete}"
  proof (cases "reported_complete s2")
    case True
    obtain r where r: "mode_last s2 = Some (r, NeedComplete)"
      using True reported_complete_last [OF wf] by blast
    have "last (needs (out1 @ out2)) = (r, NeedComplete)"
      using 2 r by (auto simp: lifecycle_ok_def)
    then show ?thesis
      using True r
      by (auto simp: register_completed_replay_def completed_replay_def mode_last_def
          plain_last_Some fec_last_Some split: option.splits ReceiverMode.splits)
  qed (simp add: register_completed_replay_def)
  then show ?thesis using 2 unfolding lifecycle_ok_def by blast
qed

section \<open>Delivery\<close>

text \<open>What the receiver relies on about the frames it gets: a manifest frame carries the
  session's manifest \<open>mf\<close>, and data and symbol frames carry payloads of the source.\<close>

definition frame_genuine :: "repair \<Rightarrow> bytes \<Rightarrow> LosslessSessionManifest \<Rightarrow> BlockPlan \<Rightarrow> bytes \<Rightarrow> bool" where
  "frame_genuine repair src mf plan bs \<longleftrightarrow>
     (\<forall>hdr m. decode_control bs = Some (hdr, Manifest m) \<longrightarrow> m = mf) \<and>
     genuine_data src plan bs \<and>
     (\<forall>fec g. mf_mode mf = ModeFec fec \<longrightarrow> symbol_geometry plan (fm_symbols_per_block fec) = Inr g \<longrightarrow>
        genuine_symbol_frame repair src plan (fm_symbols_per_block fec) g bs)"

definition wake_genuine :: "repair \<Rightarrow> bytes \<Rightarrow> LosslessSessionManifest \<Rightarrow> BlockPlan \<Rightarrow> Wake \<Rightarrow> bool" where
  "wake_genuine repair src mf plan w \<longleftrightarrow>
     (case w of RecvFrame f \<Rightarrow> frame_genuine repair src mf plan (if_bytes f) | _ \<Rightarrow> True)"

text \<open>The codec's symbol size fits its 16-bit field.\<close>

definition symbols_small :: "LosslessSessionManifest \<Rightarrow> BlockPlan \<Rightarrow> bool" where
  "symbols_small mf plan \<longleftrightarrow> (\<forall>fec g. mf_mode mf = ModeFec fec \<longrightarrow>
     symbol_geometry plan (fm_symbols_per_block fec) = Inr g \<longrightarrow> symbol_size g < 2 ^ 16)"

text \<open>The codec takes the number of symbols of the manifest's blocks, or no allocation fails.\<close>

definition codec_limits :: "(nat \<Rightarrow> bool) \<Rightarrow> LosslessSessionManifest \<Rightarrow> bool" where
  "codec_limits can_reserve mf \<longleftrightarrow>
     (\<forall>fec. mf_mode mf = ModeFec fec \<longrightarrow> within_codec can_reserve (fm_symbols_per_block fec))"

definition session_inv :: "repair \<Rightarrow> bytes \<Rightarrow> LosslessSessionManifest \<Rightarrow> BlockPlan \<Rightarrow> SessionReceiver \<Rightarrow> bool" where
  "session_inv repair src mf plan s \<longleftrightarrow>
     receiver_inv src (sr_shared s) \<and> mode_wf s \<and>
     (sr_mode s \<noteq> None \<longrightarrow> rs_manifest (sr_shared s) = Some mf \<and> rs_plan (sr_shared s) = Some plan) \<and>
     (\<forall>m. sr_mode s = Some (PlainMode m) \<longrightarrow> mf_mode mf = ModePlain) \<and>
     (\<forall>m. sr_mode s = Some (FecMode m) \<longrightarrow> fec_receiver_inv repair src m (sr_shared s)) \<and>
     (\<forall>r rep. mode_last s = Some (r, rep) \<longrightarrow> canonical_report rep = NeedComplete \<longrightarrow>
        object_held (sr_shared s)) \<and>
     (\<forall>r rep. mode_last s = Some (r, rep) \<longrightarrow> report_ok rep)"

lemma object_held_iff:
  assumes "blocks_bounded sh" "rs_plan sh = Some plan"
  shows "object_held sh \<longleftrightarrow> rs_complete_blocks sh = {b. b < bp_total_blocks plan}"
proof -
  have b: "\<forall>b\<in>rs_complete_blocks sh. b < bp_total_blocks plan"
    using assms by (simp add: blocks_bounded_def)
  have "has_all_blocks sh \<longleftrightarrow> rs_complete_blocks sh = {b. b < bp_total_blocks plan}"
    unfolding has_all_blocks_def assms(2) option.case by (rule all_blocks_iff [OF b])
  moreover have "rs_complete_blocks sh = {b. b < bp_total_blocks plan}" if "bp_total_blocks plan = 0"
    using b that by auto
  ultimately show ?thesis unfolding object_held_def assms(2) option.case by blast
qed

lemma object_held_mono:
  assumes "object_held sh" "blocks_bounded sh" "blocks_bounded sh'"
    and "rs_plan sh' = rs_plan sh" "rs_complete_blocks sh \<subseteq> rs_complete_blocks sh'"
  shows "object_held sh'"
proof (cases "rs_plan sh")
  case None
  then show ?thesis using assms(1) by (simp add: object_held_def)
next
  case (Some plan)
  then have "rs_complete_blocks sh = {b. b < bp_total_blocks plan}"
    using assms(1,2) object_held_iff by blast
  moreover have "rs_complete_blocks sh' \<subseteq> {b. b < bp_total_blocks plan}"
    using assms(3,4) Some by (auto simp: blocks_bounded_def)
  ultimately show ?thesis
    using assms(3-5) Some object_held_iff [of sh' plan] by auto
qed

lemma session_inv_bounded: "session_inv repair src mf plan s \<Longrightarrow> blocks_bounded (sr_shared s)"
  by (simp add: session_inv_def receiver_inv_def)

text \<open>A change of the shared state that only completes blocks keeps what was reported.\<close>

lemma session_inv_grow:
  assumes "session_inv repair src mf plan s" "receiver_inv src sh'" "same_receiver (sr_shared s) sh'"
    and "rs_complete_blocks (sr_shared s) \<subseteq> rs_complete_blocks sh'"
    and "sr_shared s' = sh'" "mode_last s' = mode_last s" "mode_wf s'"
    and "sr_mode s' \<noteq> None \<longleftrightarrow> sr_mode s \<noteq> None"
    and "\<forall>m. sr_mode s' = Some (PlainMode m) \<longrightarrow> (\<exists>m. sr_mode s = Some (PlainMode m))"
    and "\<forall>m. sr_mode s' = Some (FecMode m) \<longrightarrow> fec_receiver_inv repair src m sh'"
  shows "session_inv repair src mf plan s'"
proof -
  have held: "object_held sh'" if "object_held (sr_shared s)"
  proof (rule object_held_mono [OF that])
    show "blocks_bounded (sr_shared s)" using assms(1) by (rule session_inv_bounded)
    show "blocks_bounded sh'" using assms(2) by (simp add: receiver_inv_def)
  qed (use assms(3,4) in \<open>simp_all add: same_receiver_def\<close>)
  show ?thesis
    unfolding session_inv_def assms(5,6)
  proof (intro conjI allI impI)
    show "receiver_inv src sh'" by (rule assms(2))
    show "mode_wf s'" by (rule assms(7))
    show "rs_manifest sh' = Some mf" "rs_plan sh' = Some plan" if "sr_mode s' \<noteq> None"
      using that assms(1,3,8) by (simp_all add: session_inv_def same_receiver_def)
    show "mf_mode mf = ModePlain" if "sr_mode s' = Some (PlainMode m)" for m
      using that assms(1,9) unfolding session_inv_def by blast
    show "fec_receiver_inv repair src m sh'" if "sr_mode s' = Some (FecMode m)" for m
      using that assms(10) by blast
    show "object_held sh'" if "mode_last s = Some (r, rep)" "canonical_report rep = NeedComplete" for r rep
      using that held assms(1) unfolding session_inv_def by blast
    show "report_ok rep" if "mode_last s = Some (r, rep)" for r rep
      using that assms(1) unfolding session_inv_def by blast
  qed
qed

lemma session_inv_data:
  assumes "session_inv repair src mf plan s" "frame_genuine repair src mf plan (if_bytes f)"
  shows "session_inv repair src mf plan (handle_block_data_frame f s)"
proof (cases "\<exists>m. sr_mode s = Some (PlainMode m)")
  case True
  then obtain m where m: "sr_mode s = Some (PlainMode m)" by blast
  let ?sh = "plain_handle_block_data f (sr_shared s)"
  have eq: "handle_block_data_frame f s = s\<lparr>sr_shared := ?sh\<rparr>"
    by (simp add: handle_block_data_frame_def m)
  have "rs_plan (sr_shared s) = Some plan" "receiver_inv src (sr_shared s)"
    using assms(1) m by (simp_all add: session_inv_def)
  then have inv: "receiver_inv src ?sh"
    using assms(2) by (intro plain_handle_block_data_inv) (simp_all add: frame_genuine_def)
  have "same_receiver (sr_shared s) ?sh"
    by (cases rule: plain_handle_block_data_cases [of f "sr_shared s"])
      (simp_all add: same_receiver_def Let_def)
  then show ?thesis
    unfolding eq using m assms(1) plain_handle_block_data_grows(1) [of "sr_shared s" f]
      plain_handle_block_data_grows(3) [of f "sr_shared s"]
    by (intro session_inv_grow [OF assms(1) inv])
      (simp_all add: mode_last_def mode_wf_def session_inv_def)
next
  case False
  then have "handle_block_data_frame f s = s"
    by (auto simp: handle_block_data_frame_def split: option.splits ReceiverMode.splits)
  then show ?thesis using assms(1) by simp
qed

lemma session_inv_symbol:
  assumes "raptorq_sound repair solve" "repair_sized repair" "symbols_small mf plan"
    and "session_inv repair src mf plan s" "frame_genuine repair src mf plan (if_bytes f)"
  obtains s' where "handle_symbol_frame can_reserve solve f s = Some s'" "session_inv repair src mf plan s'"
  | "handle_symbol_frame can_reserve solve f s = None" "\<not> codec_limits can_reserve mf"
proof (cases "\<exists>m. sr_mode s = Some (FecMode m)")
  case True
  then obtain m where m: "sr_mode s = Some (FecMode m)" by blast
  let ?sh = "sr_shared s"
  have inv: "receiver_inv src ?sh" "fec_receiver_inv repair src m ?sh" "mode_wf s"
    and st: "rs_manifest ?sh = Some mf" "rs_plan ?sh = Some plan"
    using assms(4) m by (simp_all add: session_inv_def)
  obtain fec where fec: "mf_mode mf = ModeFec fec"
    "symbol_geometry plan (fm_symbols_per_block fec) = Inr (fr_geometry m)"
    using inv(2) st by (auto simp: fec_receiver_inv_def)
  have small: "symbol_size (fr_geometry m) < 2 ^ 16"
    using assms(3) fec by (simp add: symbols_small_def)
  have gen: "genuine_symbol_frame repair src plan (fm_symbols_per_block fec) (fr_geometry m) (if_bytes f)"
    using assms(5) fec by (simp add: frame_genuine_def)
  note kept = that(1) and panics = that(2)
  show thesis
  proof (rule handle_block_symbol_frame_inv [OF assms(1,2) inv(1,2) small st(1) fec(1) st(2) gen,
        where can_reserve = can_reserve])
    assume "handle_block_symbol_frame can_reserve solve f (m, ?sh) = None"
      "\<not> within_codec can_reserve (fm_symbols_per_block fec)"
    then show thesis using m fec(1) by (intro panics) (auto simp: handle_symbol_frame_def codec_limits_def)
  next
    fix m' sh' assume h: "handle_block_symbol_frame can_reserve solve f (m, ?sh) = Some (m', sh')"
      and i: "receiver_inv src sh'" "fec_receiver_inv repair src m' sh'"
        "rs_complete_blocks ?sh \<subseteq> rs_complete_blocks sh'"
    note k = handle_block_symbol_frame_keeps [OF h]
    let ?s = "s\<lparr>sr_shared := sh', sr_mode := Some (FecMode m')\<rparr>"
    have "session_inv repair src mf plan ?s"
      using m inv(3) k keeps_answers_last [of m m']
      by (intro session_inv_grow [OF assms(4) i(1) conjunct2 [OF k] i(3)])
        (simp_all add: mode_last_def mode_wf_def same_receiver_def i(2))
    then show thesis using kept m h by (simp add: handle_symbol_frame_def)
  qed
next
  case False
  then have "handle_symbol_frame can_reserve solve f s = Some s"
    by (auto simp: handle_symbol_frame_def split: option.splits ReceiverMode.splits)
  then show thesis using that assms(4) by blast
qed

lemma ensure_sink_fields:
  assumes "ensure_sink_buffer_len can_reserve n sh = Some sh'"
  shows "same_receiver sh sh'" "rs_complete_blocks sh' = rs_complete_blocks sh"
    "case rs_sink_buffer sh' of None \<Rightarrow> rs_sink_buffer sh = None | Some sink \<Rightarrow> n \<le> length sink"
  using assms
  by (auto simp: ensure_sink_buffer_len_def same_receiver_def split: option.splits if_splits)

lemma session_inv_install:
  assumes "session_inv repair src mf plan s"
    and "block_plan_new (mf_total_bytes mf) (ucast (mf_block_size mf)) = Inr plan" "manifest_ok mf"
  obtains out s' where "install_manifest can_reserve mf s = Some (out, s')"
    "session_inv repair src mf plan s'"
proof -
  have "install_manifest can_reserve mf s \<noteq> None"
    by (auto simp: install_manifest_def send_ready_def receiver_route_def send_control_eq Let_def
        split: option.splits sum.splits)
  then obtain out s' where i: "install_manifest can_reserve mf s = Some (out, s')" by auto
  from i have "session_inv repair src mf plan s'"
  proof (cases rule: install_manifest_cases)
    case (3 plan' mode sh)
    have plan': "plan' = plan" using 3(2) assms(2) by simp
    have inv: "receiver_inv src (sr_shared s)" and wf: "mode_wf s"
      using assms(1) by (simp_all add: session_inv_def)
    have no: "rs_plan (sr_shared s) = None" "rs_complete_blocks (sr_shared s) = {}"
      using inv 3(1) by (auto simp: receiver_inv_def blocks_bounded_def split: option.splits)
    note e = ensure_sink_fields [OF 3(4)]
    let ?sh = "sh\<lparr>rs_plan := Some plan, rs_manifest := Some mf\<rparr>"
    have sink: "case rs_sink_buffer sh of None \<Rightarrow> True | Some sink \<Rightarrow> unat (bp_total_bytes plan) \<le> length sink"
      using e(3) plan' by (auto split: option.splits)
    have "receiver_inv src ?sh"
      using sink assms(2,3) e(2) no(2)
      by (simp add: receiver_inv_def blocks_bounded_def split: option.splits)
    moreover have "fec_receiver_inv repair src m ?sh" if "mode = FecMode m" for m
      using mode_new_fresh [OF 3(3)] that plan' by (auto simp: fec_receiver_inv_def)
    moreover have "mf_mode mf = ModePlain" if "mode = PlainMode m" for m
      using mode_new_fresh [OF 3(3)] that by simp
    moreover have "mode_last s' = None" "mode_wf s'"
      using mode_new_fresh [OF 3(3)] 3(5)
      by (cases mode; simp add: mode_last_def mode_wf_def)+
    ultimately show ?thesis by (simp add: session_inv_def 3(5) plan')
  qed (use assms(1) in simp_all)
  then show thesis using that i by blast
qed

text \<open>A report fits its frame when the object has few enough blocks: at most 510 in plain mode
  (a report has one range per two blocks and at most 255 ranges), 65535 in FEC mode.\<close>

definition report_limit :: "LosslessSessionManifest \<Rightarrow> nat" where
  "report_limit mf = (if is_fec (mf_mode mf) then 65535 else 510)"

lemma plain_need_ok:
  assumes "blocks_bounded sh" "rs_plan sh = Some plan" "unat (bp_total_blocks plan) \<le> 510"
    and "plain_need sh = Some rep"
  shows "report_ok rep"
proof (cases rep)
  case (NeedPlain rs)
  then have rs: "rs = missing_ranges_from (rs_complete_blocks sh) (bp_total_blocks plan) 0"
    using assms(2,4) by (auto simp: plain_need_def Let_def split: if_splits)
  have b: "\<forall>b\<in>rs_complete_blocks sh. b < bp_total_blocks plan"
    using assms(1,2) by (simp add: blocks_bounded_def)
  have "length rs \<le> 255"
    using length_missing_ranges [OF b, of 0] assms(3) by (simp add: rs split: if_splits)
  then show ?thesis
    using missing_ranges_from_spec [OF b, of 0] by (simp add: NeedPlain rs MAX_NEED_RANGES_def)
qed (use assms(2,4) in \<open>auto simp: plain_need_def Let_def split: if_splits\<close>)

lemma fec_need_ok:
  assumes "blocks_bounded sh" "rs_plan sh = Some plan" "rs_manifest sh = Some mf"
    and "mf_mode mf = ModeFec fec" "unat (bp_total_blocks plan) \<le> 65535" "fec_need_report sh m = Some rep"
  shows "report_ok rep"
proof (cases "bp_total_blocks plan = 0 \<or> has_all_blocks sh")
  case True
  then have "rep = NeedComplete"
    using assms(6) unfolding fec_need_report_def assms(2) option.case by auto
  then show ?thesis by simp
next
  case False
  obtain bs where "fec_need_report sh m = Some (NeedFec bs)" "need_blocks_ok bs"
    "length bs \<le> unat (bp_total_blocks plan)"
    by (rule fec_need_blocks [OF assms(1-4) False])
  then show ?thesis using assms(5,6) by (simp add: MAX_NEED_BLOCKS_def)
qed

lemma send_need_total: "report_ok rep \<longleftrightarrow> send_need sh r rep \<noteq> None"
  by (simp add: send_need_def receiver_route_def send_control_eq)

lemma send_need_ok: "send_need sh r rep = Some out \<Longrightarrow> report_ok rep"
  using send_need_total [of rep sh r] by simp

lemma plain_source_done_total:
  assumes "\<forall>rep. plain_need sh = Some rep \<longrightarrow> report_ok rep"
    and "\<forall>r rep. plain_last m = Some (r, rep) \<longrightarrow> report_ok rep" "plain_receiver_wf m"
  shows "plain_handle_source_done sh r m \<noteq> None"
  using assms send_need_total
  by (cases "plain_need sh"; cases "pr_last_source_done_round_id m"; cases "pr_last_round_need m")
    (auto simp: plain_handle_source_done_def plain_last_Some plain_receiver_wf_def Let_def)

lemma fec_source_done_total:
  assumes "\<forall>rep. fec_need_report sh m = Some rep \<longrightarrow> report_ok rep"
    and "\<forall>r rep. fec_last m = Some (r, rep) \<longrightarrow> report_ok rep" "fec_receiver_wf m"
  shows "fec_handle_source_done sh r m \<noteq> None"
  using assms send_need_total
  by (cases "fec_need_report sh m"; cases "fr_last_source_done_round_id m"; cases "fr_last_round_need m")
    (auto simp: fec_handle_source_done_def fec_last_Some fec_receiver_wf_def Let_def)

lemma fec_source_done_blocks:
  assumes "fec_handle_source_done sh r m = Some (out, m')"
  shows "fr_blocks m' = fr_blocks m \<and> fr_geometry m' = fr_geometry m"
  using assms
  by (auto simp: fec_handle_source_done_def Let_def split: option.splits if_splits)

text \<open>The step of the reports, for either mode.\<close>

lemma answers_step_reports:
  assumes "answers_step s out s'" "mode_source_done r s = Some (out, s')"
    and "\<forall>r rep. mode_last s = Some (r, rep) \<longrightarrow> report_ok rep"
    and "mode_wf s"
  shows "\<forall>r rep. mode_last s' = Some (r, rep) \<longrightarrow> report_ok rep"
proof (intro allI impI)
  fix r' rep assume last': "mode_last s' = Some (r', rep)"
  show "report_ok rep"
  proof (cases "sr_mode s")
    case None
    then show ?thesis using assms(2,3) last' by (simp add: mode_source_done_def)
  next
    case (Some mode)
    show ?thesis
    proof (cases mode)
      case (PlainMode m)
      then obtain m' where h: "plain_handle_source_done (sr_shared s) r m = Some (out, m')"
        "s' = s\<lparr>sr_mode := Some (PlainMode m')\<rparr>"
        using assms(2) Some by (auto simp: mode_source_done_def)
      have wf: "plain_receiver_wf m" using assms(4) Some PlainMode by (simp add: mode_wf_def)
      from wf h(1) show ?thesis
      proof (cases rule: plain_rounds.handle_cases)
        case 1
        then show ?thesis using assms(3) last' Some PlainMode h(2) by (simp add: mode_last_def)
      next
        case (2 rep1)
        then have "report_ok rep1" using send_need_ok by blast
        then show ?thesis using 2(2) last' h(2) by (simp add: mode_last_def)
      qed
    next
      case (FecMode m)
      then obtain m' where h: "fec_handle_source_done (sr_shared s) r m = Some (out, m')"
        "s' = s\<lparr>sr_mode := Some (FecMode m')\<rparr>"
        using assms(2) Some by (auto simp: mode_source_done_def)
      have wf: "fec_receiver_wf m" using assms(4) Some FecMode by (simp add: mode_wf_def)
      from wf h(1) show ?thesis
      proof (cases rule: fec_rounds.handle_cases)
        case 1
        then show ?thesis using assms(3) last' Some FecMode h(2) by (simp add: mode_last_def)
      next
        case (2 rep1)
        then have "report_ok rep1" using send_need_ok by blast
        then show ?thesis using 2(2) last' h(2) by (simp add: mode_last_def)
      qed
    qed
  qed
qed

lemma mode_source_done_held:
  assumes "mode_source_done r s = Some (out, s')" "mode_wf s" "blocks_bounded (sr_shared s)"
    and "\<forall>r rep. mode_last s = Some (r, rep) \<longrightarrow> canonical_report rep = NeedComplete \<longrightarrow>
      object_held (sr_shared s)"
  shows "sr_shared s' = sr_shared s"
    and "\<forall>r rep. mode_last s' = Some (r, rep) \<longrightarrow> canonical_report rep = NeedComplete \<longrightarrow>
      object_held (sr_shared s)"
proof -
  show "sr_shared s' = sr_shared s"
    using assms(1) by (auto simp: mode_source_done_def split: option.splits ReceiverMode.splits)
  show "\<forall>r rep. mode_last s' = Some (r, rep) \<longrightarrow> canonical_report rep = NeedComplete \<longrightarrow>
      object_held (sr_shared s)"
  proof (cases "sr_mode s")
    case None
    then show ?thesis using assms(1,4) by (simp add: mode_source_done_def)
  next
    case (Some mode)
    show ?thesis
    proof (cases mode)
      case (PlainMode m)
      then obtain m' where h: "plain_handle_source_done (sr_shared s) r m = Some (out, m')"
        "s' = s\<lparr>sr_mode := Some (PlainMode m')\<rparr>"
        using assms(1) Some by (auto simp: mode_source_done_def)
      then show ?thesis
        using plain_rounds.handle_complete [OF _ h(1) assms(3)] assms(2,4) Some PlainMode
        by (simp add: mode_last_def mode_wf_def)
    next
      case (FecMode m)
      then obtain m' where h: "fec_handle_source_done (sr_shared s) r m = Some (out, m')"
        "s' = s\<lparr>sr_mode := Some (FecMode m')\<rparr>"
        using assms(1) Some by (auto simp: mode_source_done_def)
      then show ?thesis
        using fec_rounds.handle_complete [OF _ h(1) assms(3)] assms(2,4) Some FecMode
        by (simp add: mode_last_def mode_wf_def)
    qed
  qed
qed

lemma session_inv_source_done:
  assumes inv: "session_inv repair src mf plan s"
    and step: "mode_source_done r s = Some (out, s')"
  shows "session_inv repair src mf plan s'"
proof -
  have wf: "mode_wf s"
    and held: "\<forall>r rep. mode_last s = Some (r, rep) \<longrightarrow> canonical_report rep = NeedComplete \<longrightarrow>
      object_held (sr_shared s)"
    and ok: "\<forall>r rep. mode_last s = Some (r, rep) \<longrightarrow> report_ok rep"
    using inv by (simp_all add: session_inv_def)
  note a = mode_source_done_answers [OF step wf]
  note h = mode_source_done_held [OF step wf session_inv_bounded [OF inv] held]
  have "sr_mode s' \<noteq> None \<longleftrightarrow> sr_mode s \<noteq> None"
    using step by (auto simp: mode_source_done_def split: option.splits ReceiverMode.splits)
  moreover have "\<exists>m. sr_mode s = Some (PlainMode m)" if "sr_mode s' = Some (PlainMode m')" for m'
    using step that by (auto simp: mode_source_done_def split: option.splits ReceiverMode.splits)
  moreover have "fec_receiver_inv repair src m' (sr_shared s)" if fm: "sr_mode s' = Some (FecMode m')" for m'
  proof -
    obtain m where "sr_mode s = Some (FecMode m)" "fec_handle_source_done (sr_shared s) r m = Some (out, m')"
      using step fm by (auto simp: mode_source_done_def split: option.splits ReceiverMode.splits)
    then show ?thesis
      using inv fec_source_done_blocks by (fastforce simp: session_inv_def fec_receiver_inv_def)
  qed
  ultimately show ?thesis
    using inv a h answers_step_reports [OF a step ok wf]
    unfolding session_inv_def answers_step_def by metis
qed

lemma mode_source_done_total:
  assumes inv: "session_inv repair src mf plan s"
    and "block_plan_new (mf_total_bytes mf) (ucast (mf_block_size mf)) = Inr plan" "manifest_ok mf"
    and few: "unat (mf_total_blocks mf) \<le> report_limit mf"
  shows "mode_source_done r s \<noteq> None"
proof (cases "sr_mode s")
  case None
  then show ?thesis by (simp add: mode_source_done_def)
next
  case (Some mode)
  note b = session_inv_bounded [OF inv]
  have st: "rs_manifest (sr_shared s) = Some mf" "rs_plan (sr_shared s) = Some plan"
    using inv Some by (simp_all add: session_inv_def)
  have "receiver_inv src (sr_shared s)" using inv by (simp add: session_inv_def)
  then obtain m0 where "rs_manifest (sr_shared s) = Some m0" "bp_total_blocks plan = mf_total_blocks m0"
    by (rule receiver_inv_plan [OF _ st(2)])
  then have n: "bp_total_blocks plan = mf_total_blocks mf" using st(1) by simp
  have wf: "mode_wf s" and ok: "\<forall>r rep. mode_last s = Some (r, rep) \<longrightarrow> report_ok rep"
    using inv by (simp_all add: session_inv_def)
  show ?thesis
  proof (cases mode)
    case (PlainMode m)
    have "unat (bp_total_blocks plan) \<le> 510"
      using few inv Some PlainMode n by (simp add: session_inv_def report_limit_def)
    then have "\<forall>rep. plain_need (sr_shared s) = Some rep \<longrightarrow> report_ok rep"
      using plain_need_ok [OF b st(2)] by blast
    then have "plain_handle_source_done (sr_shared s) r m \<noteq> None"
      using ok wf Some PlainMode
      by (intro plain_source_done_total) (simp_all add: mode_last_def mode_wf_def)
    then show ?thesis using Some PlainMode by (simp add: mode_source_done_def)
  next
    case (FecMode m)
    then obtain fec where fec: "mf_mode mf = ModeFec fec"
      using inv Some st by (auto simp: session_inv_def fec_receiver_inv_def)
    then have "unat (bp_total_blocks plan) \<le> 65535" using few n by (simp add: report_limit_def)
    then have "\<forall>rep. fec_need_report (sr_shared s) m = Some rep \<longrightarrow> report_ok rep"
      using fec_need_ok [OF b st(2,1) fec] by blast
    then have "fec_handle_source_done (sr_shared s) r m \<noteq> None"
      using ok wf Some FecMode
      by (intro fec_source_done_total) (simp_all add: mode_last_def mode_wf_def)
    then show ?thesis using Some FecMode by (simp add: mode_source_done_def)
  qed
qed

lemma session_inv_passive:
  assumes "session_inv repair src mf plan s"
  shows "session_inv repair src mf plan (enter_passive_complete s)"
proof (cases "sr_lifecycle s = PassiveComplete")
  case True
  then show ?thesis using assms by (simp add: enter_passive_complete_def)
next
  case False
  let ?sh = "mark_object_complete (sr_shared s)"
  have same: "same_receiver (sr_shared s) ?sh"
    by (simp add: same_receiver_def mark_object_complete_def)
  have inv: "receiver_inv src (sr_shared s)" "mode_wf s"
    and fec: "\<forall>m. sr_mode s = Some (FecMode m) \<longrightarrow> fec_receiver_inv repair src m (sr_shared s)"
    using assms by (simp_all add: session_inv_def)
  show ?thesis
  proof (rule session_inv_grow [OF assms _ same])
    show "receiver_inv src ?sh" using inv by simp
    show "sr_shared (enter_passive_complete s) = ?sh" using False by (simp add: enter_passive_complete_def)
    show "\<forall>m. sr_mode (enter_passive_complete s) = Some (FecMode m) \<longrightarrow> fec_receiver_inv repair src m ?sh"
      using fec by (simp add: fec_receiver_inv_def)
  qed (use inv in simp_all)
qed

lemma receiver_dispatch_inv:
  assumes codec: "raptorq_sound repair solve" "repair_sized repair" "symbols_small mf plan"
    and mf: "block_plan_new (mf_total_bytes mf) (ucast (mf_block_size mf)) = Inr plan" "manifest_ok mf"
    and inv: "session_inv repair src mf plan s" "frame_genuine repair src mf plan (if_bytes f)"
  shows "(\<forall>out s'. receiver_dispatch can_reserve solve f s = Some (out, s') \<longrightarrow>
      session_inv repair src mf plan s') \<and>
    (unat (mf_total_blocks mf) \<le> report_limit mf \<and> codec_limits can_reserve mf \<longrightarrow>
      receiver_dispatch can_reserve solve f s \<noteq> None)"
proof (cases "decode_control (if_bytes f)")
  case (Some hc)
  then obtain hdr c where hc: "decode_control (if_bytes f) = Some (hdr, c)" by (cases hc) simp
  have eq: "receiver_dispatch can_reserve solve f s = handle_control_frame can_reserve f s"
    using hc by (simp add: receiver_dispatch_def)
  show ?thesis
  proof (cases c)
    case (Manifest m)
    then have "m = mf" using inv(2) hc by (simp add: frame_genuine_def)
    then have eq: "receiver_dispatch can_reserve solve f s = install_manifest can_reserve mf s"
      using hc Manifest by (simp add: eq handle_control_frame_def)
    obtain out s' where "install_manifest can_reserve mf s = Some (out, s')"
      "session_inv repair src mf plan s'"
      by (rule session_inv_install [OF inv(1) mf])
    then show ?thesis by (simp add: eq)
  next
    case (SourceDone r)
    then have eq: "receiver_dispatch can_reserve solve f s = mode_source_done r s"
      using hc by (simp add: eq handle_control_frame_def)
    show ?thesis
      unfolding eq using session_inv_source_done [OF inv(1)] mode_source_done_total [OF inv(1) mf]
      by blast
  qed (use hc inv in \<open>simp_all add: eq handle_control_frame_def\<close>)
next
  case None
  show ?thesis
  proof (rule session_inv_symbol [OF codec inv, where can_reserve = can_reserve])
    fix s1 assume "handle_symbol_frame can_reserve solve f s = Some s1" "session_inv repair src mf plan s1"
    then show ?thesis using None inv(1) session_inv_data [OF inv] by (simp add: receiver_dispatch_def)
  next
    assume "handle_symbol_frame can_reserve solve f s = None" "\<not> codec_limits can_reserve mf"
    then show ?thesis using None inv(1) session_inv_data [OF inv] by (simp add: receiver_dispatch_def)
  qed
qed

lemma session_inv_finish:
  "session_inv repair src mf plan s \<Longrightarrow> session_inv repair src mf plan (finish_receiver s)"
  by (simp add: session_inv_def finish_receiver_def mode_last_def mode_wf_def)

lemma receiver_turn_inv:
  assumes "raptorq_sound repair solve" "repair_sized repair" "symbols_small mf plan"
    and "block_plan_new (mf_total_bytes mf) (ucast (mf_block_size mf)) = Inr plan" "manifest_ok mf"
    and "session_inv repair src mf plan s" "wake_genuine repair src mf plan w"
  shows "(\<forall>out s' fin. receiver_turn can_reserve solve w s = Some (out, s', fin) \<longrightarrow>
      session_inv repair src mf plan s') \<and>
    (unat (mf_total_blocks mf) \<le> report_limit mf \<and> codec_limits can_reserve mf \<longrightarrow>
      receiver_turn can_reserve solve w s \<noteq> None)"
proof (cases w)
  case (RecvFrame f)
  then have "frame_genuine repair src mf plan (if_bytes f)" using assms(7) by (simp add: wake_genuine_def)
  from receiver_dispatch_inv [OF assms(1-6) this, of can_reserve] show ?thesis
    using session_inv_passive RecvFrame
    by (auto simp: receiver_turn_def receiver_frame_dispatch)
qed (use assms(6) in \<open>auto simp: receiver_turn_def session_inv_finish\<close>)

lemma receiver_run_inv:
  assumes "raptorq_sound repair solve" "repair_sized repair" "symbols_small mf plan"
    and "block_plan_new (mf_total_bytes mf) (ucast (mf_block_size mf)) = Inr plan" "manifest_ok mf"
    and "session_inv repair src mf plan s" "\<forall>w\<in>set wakes. wake_genuine repair src mf plan w"
  shows "(\<forall>out s' fin. receiver_run can_reserve solve wakes s = Some (out, s', fin) \<longrightarrow>
      session_inv repair src mf plan s') \<and>
    (unat (mf_total_blocks mf) \<le> report_limit mf \<and> codec_limits can_reserve mf \<longrightarrow>
      receiver_run can_reserve solve wakes s \<noteq> None)"
  using assms(6,7)
proof (induction wakes arbitrary: s)
  case (Cons w wakes)
  have "wake_genuine repair src mf plan w" using Cons.prems(2) by simp
  note t = receiver_turn_inv [OF assms(1-5) Cons.prems(1) this, of can_reserve]
  show ?case
  proof (cases "receiver_turn can_reserve solve w s")
    case None
    then show ?thesis using t by simp
  next
    case (Some r)
    obtain out1 s1 fin1 where r: "r = (out1, s1, fin1)" by (cases r)
    then have "session_inv repair src mf plan s1" using t Some by blast
    with Cons.IH [of s1] Cons.prems(2) Some r show ?thesis by (cases fin1) auto
  qed
qed simp

lemma session_inv_new:
  "session_inv repair src mf plan (session_receiver_new cfg)"
  by (simp add: session_inv_def) (simp add: session_receiver_new_def receiver_inv_def blocks_bounded_def mode_last_def)

text \<open>C3. Delivery: whatever frames a receiver gets, in any order, lost, repeated or late, as
  long as none is forged, once it has reported completion its sink starts with the source
  source object, for both modes; and its task never panics when the object has at most 510 blocks
  (plain) or 65535 blocks (FEC) and, in FEC mode, the codec takes the symbols of a block (at most
  56403) or no allocation fails.\<close>

theorem receiver_delivers:
  assumes "raptorq_sound repair solve" "repair_sized repair" "symbols_small mf plan"
    and "block_plan_new (mf_total_bytes mf) (ucast (mf_block_size mf)) = Inr plan"
    and "manifest_validate mf = Inr ()" "\<forall>w\<in>set wakes. wake_genuine repair src mf plan w"
  shows "(unat (mf_total_blocks mf) \<le> report_limit mf \<and> codec_limits can_reserve mf \<longrightarrow>
      receiver_run can_reserve solve wakes (session_receiver_new cfg) \<noteq> None) \<and>
    (\<forall>out s' fin. receiver_run can_reserve solve wakes (session_receiver_new cfg) = Some (out, s', fin) \<longrightarrow>
      reported_complete s' \<longrightarrow>
      (case rs_sink_buffer (sr_shared s') of None \<Rightarrow> True | Some sink \<Rightarrow>
         take (unat (mf_total_bytes mf)) sink = padded_source (unat (mf_total_bytes mf)) src))"
proof -
  have ok: "manifest_ok mf" using assms(5) by (simp add: manifest_validate_iff)
  note run = receiver_run_inv [OF assms(1-4) ok session_inv_new assms(6), of can_reserve cfg]
  have "take (unat (mf_total_bytes mf)) sink = padded_source (unat (mf_total_bytes mf)) src"
    if r: "receiver_run can_reserve solve wakes (session_receiver_new cfg) = Some (out, s', fin)"
      and c: "reported_complete s'" and sink: "rs_sink_buffer (sr_shared s') = Some sink"
    for out s' fin sink
  proof -
    have inv: "session_inv repair src mf plan s'" using run r by blast
    then have wf: "mode_wf s'" and ri: "receiver_inv src (sr_shared s')" by (simp_all add: session_inv_def)
    obtain r0 where last: "mode_last s' = Some (r0, NeedComplete)"
      using c reported_complete_last [OF wf] by blast
    then have held: "object_held (sr_shared s')" using inv by (simp add: session_inv_def)
    have "sr_mode s' \<noteq> None" using last by (cases "sr_mode s'") (simp_all add: mode_last_def)
    then have plan: "rs_plan (sr_shared s') = Some plan" using inv by (simp add: session_inv_def)
    have "bp_total_bytes plan = mf_total_bytes mf" using block_plan_new_ok(2) [OF assms(4)] .
    then show ?thesis
      using receiver_inv_all_blocks [OF ri plan sink] object_held_iff [OF session_inv_bounded [OF inv] plan] held
      by simp
  qed
  then show ?thesis using run by (auto split: option.splits)
qed

section \<open>A concrete run\<close>

definition run_config :: ReceiverConfig where
  "run_config = \<lparr>rc_session_id = 9,
     rc_route = \<lparr>tr_src_ip = 1, tr_dst_ip = 2, tr_src_port = 3, tr_dst_port = 4\<rparr>,
     rc_local_node_id = 5, rc_sink_buffer = Some [], rc_progress = None,
     rc_peer_report_timeout_ms = 100, rc_fec_enabled = True\<rparr>"

definition control_wake :: "LosslessSessionControl \<Rightarrow> Wake" where
  "control_wake c = RecvFrame \<lparr>if_bytes = control_frame 9 c, if_peer_id = None\<rparr>"

definition run_wakes :: "Wake list" where
  "run_wakes = control_wake (SourceDone 0) # control_wake (Manifest fec_demo_manifest) #
     map RecvFrame fec_demo_frames @ [control_wake (SourceDone 0), TimerFired]"

lemma control_wake_genuine:
  assumes "control_ok c" "\<forall>m. canonical_control c = Manifest m \<longrightarrow> m = mf"
  shows "wake_genuine repair src mf plan (control_wake c)"
  using assms
  by (auto simp: wake_genuine_def control_wake_def frame_genuine_def genuine_data_def
      genuine_symbol_frame_def decode_control_frame)

lemma run_wakes_genuine:
  "\<forall>w\<in>set run_wakes. wake_genuine plain_repair [1, 2, 3, 4] fec_demo_manifest fec_demo_plan w"
proof -
  have "wake_genuine plain_repair [1, 2, 3, 4] fec_demo_manifest fec_demo_plan (RecvFrame f)"
    if "f \<in> set fec_demo_frames" for f
  proof -
    have "decode_control (if_bytes f) = None" "decode_block_data (if_bytes f) = None"
      using that by (auto simp: fec_demo_frames_def block_symbol_encode)
    then show ?thesis
      using that fec_demo_genuine
      by (auto simp: wake_genuine_def frame_genuine_def genuine_data_def fec_demo_fields fec_demo_geometry)
  qed
  moreover have "control_ok (Manifest fec_demo_manifest)" by (simp add: fec_demo_manifest_ok)
  ultimately show ?thesis
    by (auto simp: run_wakes_def intro!: control_wake_genuine)
      (simp add: wake_genuine_def)
qed

lemma run_setup:
  "symbols_small fec_demo_manifest fec_demo_plan"
  "block_plan_new (mf_total_bytes fec_demo_manifest) (ucast (mf_block_size fec_demo_manifest)) = Inr fec_demo_plan"
  "manifest_validate fec_demo_manifest = Inr ()"
  "unat (mf_total_blocks fec_demo_manifest) \<le> report_limit fec_demo_manifest"
  "codec_limits (\<lambda>_. True) mf"
proof -
  show "symbols_small fec_demo_manifest fec_demo_plan"
    by (simp add: symbols_small_def fec_demo_fields fec_demo_geometry)
  show "block_plan_new (mf_total_bytes fec_demo_manifest) (ucast (mf_block_size fec_demo_manifest)) = Inr fec_demo_plan"
    using fec_demo_plan_new by (simp add: fec_demo_manifest_def)
  show "manifest_validate fec_demo_manifest = Inr ()"
    by (simp add: manifest_validate_iff fec_demo_manifest_ok)
  show "unat (mf_total_blocks fec_demo_manifest) \<le> report_limit fec_demo_manifest"
    by (simp add: report_limit_def fec_demo_manifest_def)
  show "codec_limits (\<lambda>_. True) mf" by (simp add: codec_limits_def within_codec_def)
qed

lemma receiver_delivers_witness:
  "\<exists>out s' fin. receiver_run (\<lambda>_. True) plain_solve run_wakes (session_receiver_new run_config) =
     Some (out, s', fin)"
  using receiver_delivers [OF plain_codec_sound plain_repair_sized run_setup(1-3) run_wakes_genuine]
    run_setup(4,5) by fastforce

lemma run_total:
  "\<exists>out s' fin. receiver_run (\<lambda>_. True) plain_solve run_wakes (session_receiver_new run_config) =
     Some (out, s', fin)"
proof -
  have "manifest_ok fec_demo_manifest" by (rule fec_demo_manifest_ok)
  then have "receiver_run (\<lambda>_. True) plain_solve run_wakes (session_receiver_new run_config) \<noteq> None"
    using receiver_run_inv [OF plain_codec_sound plain_repair_sized run_setup(1,2) _ session_inv_new
        run_wakes_genuine] run_setup(4,5) by blast
  then show ?thesis by auto
qed

lemma receiver_rounds_immutable_witness:
  "\<exists>out s' fin. receiver_run (\<lambda>_. True) plain_solve run_wakes (session_receiver_new run_config) =
     Some (out, s', fin) \<and>
     sorted_wrt (\<lambda>a b. fst a \<le> fst b) (needs out)"
proof -
  obtain out s' fin where r: "receiver_run (\<lambda>_. True) plain_solve run_wakes (session_receiver_new run_config) =
     Some (out, s', fin)" using run_total by blast
  have "sorted_wrt (\<lambda>a b. fst a \<le> fst b) (needs out)"
    by (rule sorted_wrt_mono_rel [OF _ receiver_rounds_immutable [OF r]]) auto
  then show ?thesis using r by blast
qed

lemma receiver_lifecycle_witness:
  "\<exists>out s' fin. receiver_run (\<lambda>_. True) plain_solve run_wakes (session_receiver_new run_config) =
     Some (out, s', fin) \<and> Active \<le> sr_lifecycle s' \<and> (fin \<longleftrightarrow> sr_lifecycle s' = SessionFinished)"
proof -
  obtain out s' fin where r: "receiver_run (\<lambda>_. True) plain_solve run_wakes (session_receiver_new run_config) =
     Some (out, s', fin)" using run_total by blast
  have "receiver_run (\<lambda>_. True) plain_solve [] (session_receiver_new run_config) =
      Some ([], session_receiver_new run_config, False)" by simp
  from receiver_lifecycle [OF this r] r show ?thesis by (auto simp: session_receiver_new_def)
qed

section \<open>Too many gaps\<close>

lemma card_missing_blocks:
  "\<forall>r\<in>set rs. card (block_range r) \<le> 1 \<Longrightarrow> card (missing_blocks rs) \<le> length rs"
proof (induction rs)
  case (Cons r rs)
  have "card (missing_blocks (r # rs)) \<le> card (block_range r) + card (missing_blocks rs)"
    by (simp add: card_Un_le)
  then show ?case using Cons by fastforce
qed simp

lemma block_range_single:
  assumes "\<forall>k. k \<in> block_range r \<longrightarrow> Suc k \<notin> block_range r"
  shows "card (block_range r) \<le> 1"
proof (rule ccontr)
  assume "\<not> card (block_range r) \<le> 1"
  then have "unat (start_block_id r) + 2 \<le> unat (end_block_id r)" by (simp add: block_range_def)
  then have "unat (start_block_id r) \<in> block_range r" "Suc (unat (start_block_id r)) \<in> block_range r"
    by (simp_all add: block_range_def)
  then show False using assms by blast
qed

definition missing_set :: "ReceiverShared \<Rightarrow> BlockPlan \<Rightarrow> nat set" where
  "missing_set sh plan = {..<unat (bp_total_blocks plan)} - unat ` rs_complete_blocks sh"

text \<open>C37. The plain receiver has a limit it does not check: when more than 255 blocks are
  missing and no two of them are neighbours, the report needs more ranges than the frame
  format has room for, and answering \<open>SourceDone\<close> panics.\<close>

theorem plain_receiver_gap_panic:
  assumes "blocks_bounded sh" "rs_plan sh = Some plan"
    and "\<forall>k\<in>missing_set sh plan. Suc k \<notin> missing_set sh plan" "255 < card (missing_set sh plan)"
  shows "plain_handle_source_done sh r plain_receiver_default = None"
proof -
  let ?S = "rs_complete_blocks sh" and ?n = "bp_total_blocks plan"
  let ?rs = "missing_ranges_from ?S ?n 0"
  have b: "\<forall>b\<in>?S. b < ?n" using assms(1,2) by (simp add: blocks_bounded_def)
  have "{k. k < unat ?n \<and> word_of_nat k \<notin> ?S} = missing_set sh plan"
  proof -
    have "word_of_nat k \<in> ?S \<longleftrightarrow> k \<in> unat ` ?S" if "k < unat ?n" for k
    proof
      have u: "unat (word_of_nat k :: u64) = k"
        using less_trans [OF that unat_u64_bound] by (simp add: unat_of_nat_small)
      assume "word_of_nat k \<in> ?S"
      then have "unat (word_of_nat k :: u64) \<in> unat ` ?S" by (rule imageI)
      then show "k \<in> unat ` ?S" by (simp only: u)
    qed auto
    then show ?thesis by (auto simp: missing_set_def)
  qed
  then have spec: "ranges_canonical ?rs" "missing_blocks ?rs = missing_set sh plan"
    using missing_ranges_from_spec [OF b, of 0] by simp_all
  have "block_range x \<subseteq> missing_set sh plan" if "x \<in> set ?rs" for x
    using that unfolding spec(2) [symmetric] missing_blocks_def by blast
  then have "\<forall>x\<in>set ?rs. card (block_range x) \<le> 1"
    using assms(3) by (intro ballI block_range_single) blast
  then have long: "255 < length ?rs" using card_missing_blocks [of ?rs] assms(4) by (simp add: spec(2))
  have "?n = 0 \<Longrightarrow> ?rs = []" by (subst missing_ranges_from.simps) simp
  then have "?n \<noteq> 0" using long by auto
  moreover have "word_of_nat (card ?S) \<noteq> ?n"
  proof
    assume "word_of_nat (card ?S) = ?n"
    then have "?S = {b. b < ?n}" using all_blocks_iff [OF b] by blast
    have "word_of_nat k \<in> ?S" if "k < unat ?n" for k
    proof -
      have "(word_of_nat k :: u64) \<in> set (map word_of_nat [0 ..< unat ?n])" using that by simp
      then show ?thesis unfolding set_words_below \<open>?S = {b. b < ?n}\<close> .
    qed
    then have "missing_set sh plan = {}"
      using \<open>{k. k < unat ?n \<and> word_of_nat k \<notin> ?S} = missing_set sh plan\<close> by blast
    then show False using assms(4) by simp
  qed
  ultimately have need: "plain_need sh = Some (NeedPlain ?rs)"
    using assms(2) by (simp add: plain_need_def)
  have "send_need sh r (NeedPlain ?rs) = None"
    using send_need_total [of "NeedPlain ?rs" sh r] long by (simp add: MAX_NEED_RANGES_def)
  then show ?thesis
    using need by (simp add: plain_handle_source_done_def plain_receiver_default_def)
qed

text \<open>Such a receiver: 512 blocks, the odd ones received.\<close>

definition gap_plan :: BlockPlan where
  "gap_plan = \<lparr>bp_total_bytes = 512, bp_block_size = 1, bp_total_blocks = 512\<rparr>"

definition gap_receiver :: ReceiverShared where
  "gap_receiver = demo_receiver\<lparr>rs_plan := Some gap_plan,
     rs_complete_blocks := {b. b < 512 \<and> odd (unat b)}\<rparr>"

lemma gap_missing: "missing_set gap_receiver gap_plan = {k. k < 512 \<and> even k}"
proof -
  have "k \<in> unat ` {b :: u64. b < 512 \<and> odd (unat b)} \<longleftrightarrow> odd k" if "k < 512" for k
  proof
    assume "odd k"
    have u: "unat (word_of_nat k :: u64) = k" using that by (intro unat_of_nat_small) simp
    then have "(word_of_nat k :: u64) \<in> {b. b < 512 \<and> odd (unat b)}"
      using that \<open>odd k\<close> by (simp add: word_less_nat_alt)
    then have "unat (word_of_nat k :: u64) \<in> unat ` {b :: u64. b < 512 \<and> odd (unat b)}"
      by (rule imageI)
    then show "k \<in> unat ` {b :: u64. b < 512 \<and> odd (unat b)}" by (simp only: u)
  qed auto
  then show ?thesis
    by (auto simp: missing_set_def gap_receiver_def gap_plan_def)
qed

lemma plain_receiver_gap_panic_witness:
  "plain_handle_source_done gap_receiver 0 plain_receiver_default = None"
proof (rule plain_receiver_gap_panic)
  show "blocks_bounded gap_receiver" by (simp add: blocks_bounded_def gap_receiver_def gap_plan_def)
  show "rs_plan gap_receiver = Some gap_plan" by (simp add: gap_receiver_def)
  show "\<forall>k\<in>missing_set gap_receiver gap_plan. Suc k \<notin> missing_set gap_receiver gap_plan"
    by (simp add: gap_missing)
  have "(\<lambda>i. 2 * i) ` {..<256} \<subseteq> {k :: nat. k < 512 \<and> even k}" by auto
  then have "card ((\<lambda>i :: nat. 2 * i) ` {..<256}) \<le> card {k :: nat. k < 512 \<and> even k}"
    by (intro card_mono) simp_all
  moreover have "card ((\<lambda>i :: nat. 2 * i) ` {..<256}) = 256"
    by (subst card_image) (simp_all add: inj_on_def)
  ultimately show "255 < card (missing_set gap_receiver gap_plan)" by (simp add: gap_missing)
qed

end
