(* ===== verification/Fec_Policy.thy ===== *)
theory Fec_Policy
  imports Session_Frames
begin

text \<open>
  Sender-side validation before a session starts
  (\<open>src/dataplane/src/node/session/fec_policy.rs\<close> and
  \<open>validate_sender_ingress_contract\<close> of \<open>runtime.rs\<close>): the mode of a session is
  derived from the runtime configuration.  What the processor pool says of its ingress is
  the argument \<open>ingress\<close>, a function of the tree id of the probe packet.
\<close>

datatype PreflightError =
    InvalidBlockSize usize
  | BlockSizeTooLarge usize
  | PreflightZeroSymbolsPerBlock
  | MissingTreeIds
  | PreflightTreeIdsMustBeSortedUnique "u16 list"
  | PreflightTooManyTreeIds nat nat
  | MultiTreeRequiresTreeVisibleIngress

record LosslessConfig =
  lc_peer_report_timeout_ms :: u64
  lc_fec_enabled :: bool
  lc_fec_default_symbols_per_block :: u16
  lc_fec_default_tree_ids :: "u16 list"

datatype LosslessIngressContract = TreeVisibleNonBlocking | SharedQueueNonBlocking

definition validate_block_size :: "usize \<Rightarrow> PreflightError + u32" where
  "validate_block_size block_size =
     (if block_size = 0 then Inl (InvalidBlockSize block_size)
      else if unat block_size < 2 ^ 32 then Inr (ucast block_size)
      else Inl (BlockSizeTooLarge block_size))"

definition derive_sender_tree_ids :: "LosslessConfig \<Rightarrow> PreflightError + u16 list" where
  "derive_sender_tree_ids config =
     (let requested = lc_fec_default_tree_ids config in
      if requested = [] then Inl MissingTreeIds
      else if \<not> windows2_all (<) requested then Inl (PreflightTreeIdsMustBeSortedUnique requested)
      else if length requested > MAX_MANIFEST_TREE_IDS then
        Inl (PreflightTooManyTreeIds (length requested) MAX_MANIFEST_TREE_IDS)
      else Inr requested)"

definition derive_sender_policy :: "LosslessConfig \<Rightarrow> PreflightError + LosslessSessionMode" where
  "derive_sender_policy config =
     (if \<not> lc_fec_enabled config then Inr ModePlain
      else if lc_fec_default_symbols_per_block config = 0 then Inl PreflightZeroSymbolsPerBlock
      else and_then (derive_sender_tree_ids config) (\<lambda>tree_ids.
        Inr (ModeFec (new_raptorq (lc_fec_default_symbols_per_block config) tree_ids))))"

definition validate_sender_ingress_contract :: "(u16 \<Rightarrow> LosslessIngressContract) \<Rightarrow>
    LosslessSessionManifest \<Rightarrow> PreflightError + unit" where
  "validate_sender_ingress_contract ingress manifest =
     (case mf_mode manifest of
        ModePlain \<Rightarrow> Inr ()
      | ModeFec fec \<Rightarrow>
          if length (fm_tree_ids fec) \<le> 1 then Inr ()
          else if ingress (fm_tree_ids fec ! 0) \<noteq> TreeVisibleNonBlocking then
            Inl MultiTreeRequiresTreeVisibleIngress
          else Inr ())"

text \<open>\<open>start_sender_session\<close> of \<open>runtime.rs\<close> up to the spawn: the manifest of a request.\<close>

definition derive_manifest :: "(u16 \<Rightarrow> LosslessIngressContract) \<Rightarrow> LosslessConfig \<Rightarrow> u64 \<Rightarrow> usize \<Rightarrow>
    PreflightError + LosslessSessionManifest" where
  "derive_manifest ingress config n_bytes block_size =
     and_then (validate_block_size block_size) (\<lambda>bsize.
       case block_plan_new n_bytes block_size of
         Inl _ \<Rightarrow> Inl (InvalidBlockSize block_size)
       | Inr plan \<Rightarrow>
           and_then (derive_sender_policy config) (\<lambda>mode.
             let manifest = \<lparr>mf_block_size = bsize, mf_total_bytes = n_bytes,
                   mf_total_blocks = bp_total_blocks plan, mf_mode = mode\<rparr>
             in and_then (validate_sender_ingress_contract ingress manifest) (\<lambda>_. Inr manifest)))"

lemma validate_block_size_Inr:
  "validate_block_size b = Inr b' \<longleftrightarrow> b \<noteq> 0 \<and> unat b < 2 ^ 32 \<and> b' = ucast b"
  by (auto simp: validate_block_size_def)

lemma derive_sender_policy_ok:
  "derive_sender_policy config = Inr mode \<Longrightarrow>
     (case mode of ModePlain \<Rightarrow> \<not> lc_fec_enabled config
      | ModeFec fec \<Rightarrow> lc_fec_enabled config \<and> fec_mode_ok fec)"
  by (auto simp: derive_sender_policy_def derive_sender_tree_ids_def and_then_eq_Inr Let_def
      fec_mode_ok_def new_raptorq_def windows2_all_sorted_wrt split: if_splits)

text \<open>Preflight is sound: a request the runtime accepts has a manifest that passes the
  validation of the wire format, whose plan the sender and every receiver compute alike; and
  every request is answered with a manifest or an error, never a panic.\<close>

theorem derive_manifest_sound:
  assumes "derive_manifest ingress config n_bytes block_size = Inr m"
  shows "manifest_validate m = Inr () \<and> mf_total_bytes m = n_bytes \<and>
    (ucast (mf_block_size m) :: usize) = block_size \<and>
    (is_fec (mf_mode m) \<longleftrightarrow> lc_fec_enabled config) \<and>
    (\<exists>plan. block_plan_new n_bytes block_size = Inr plan \<and> bp_total_blocks plan = mf_total_blocks m)"
proof -
  obtain bsize plan mode where d: "validate_block_size block_size = Inr bsize"
    "block_plan_new n_bytes block_size = Inr plan" "derive_sender_policy config = Inr mode"
    "m = \<lparr>mf_block_size = bsize, mf_total_bytes = n_bytes,
       mf_total_blocks = bp_total_blocks plan, mf_mode = mode\<rparr>"
  proof (cases "block_plan_new n_bytes block_size")
    case (Inl e)
    then show ?thesis using assms by (auto simp: derive_manifest_def and_then_eq_Inr)
  next
    case (Inr plan)
    then show ?thesis
      using assms that [of _ plan] by (auto simp: derive_manifest_def and_then_eq_Inr Let_def)
  qed
  have b: "block_size \<noteq> 0" "unat block_size < 2 ^ 32" "bsize = ucast block_size"
    using d(1) by (simp_all add: validate_block_size_Inr)
  have u: "unat bsize = unat block_size" using b by (simp add: unat_ucast_small)
  then have up: "(ucast bsize :: usize) = block_size"
    by (simp add: word_unat_eq_iff unat_ucast_widen)
  have nz: "bsize \<noteq> 0" using u b(1) by (metis unat_eq_0 unsigned_0)
  note ok = block_plan_new_ok [OF d(2)]
  have "unat (bp_total_blocks plan) = nat_div_ceil (unat n_bytes) (unat bsize)"
    using ok u by (simp add: plan_ok_def)
  moreover note derive_sender_policy_ok [OF d(3)]
  ultimately have "manifest_ok m"
    using nz by (cases mode) (simp_all add: manifest_ok_def d(4))
  then show ?thesis
    using up d(2,4) derive_sender_policy_ok [OF d(3)]
    by (cases mode) (simp_all add: manifest_validate_iff)
qed

definition demo_config :: LosslessConfig where
  "demo_config = \<lparr>lc_peer_report_timeout_ms = 100, lc_fec_enabled = True,
     lc_fec_default_symbols_per_block = 4, lc_fec_default_tree_ids = [3, 9]\<rparr>"

lemma derive_manifest_sound_witness:
  "\<exists>m. derive_manifest (\<lambda>_. TreeVisibleNonBlocking) demo_config 10 4 = Inr m \<and>
     manifest_validate m = Inr ()"
proof -
  have "\<exists>m. derive_manifest (\<lambda>_. TreeVisibleNonBlocking) demo_config 10 4 = Inr m"
    by (simp add: derive_manifest_def validate_block_size_def block_plan_new_def
        derive_sender_policy_def derive_sender_tree_ids_def demo_config_def Let_def
        MAX_MANIFEST_TREE_IDS_def validate_sender_ingress_contract_def)
  then show ?thesis using derive_manifest_sound by blast
qed

end
