(* ===== verification/Sender_Shared.thy ===== *)
theory Sender_Shared
  imports Sender_State
begin

text \<open>
  The sender shell common to both modes (\<open>SenderShared\<close> in
  \<open>src/dataplane/src/node/session/sender/mod.rs\<close>): the READY handshake, the control
  path, the wait for quorum feedback.  The trait \<open>ModeHooks\<close> is a function argument
  \<open>on_need\<close> of the operations; its contract is the locale \<open>mode_hooks\<close>, which
  the plain and the FEC sender interpret.  One call of an operation that waits takes as
  arguments the clock readings and the event the wait ended with; pacing only delays and is
  left out.
\<close>

definition MANIFEST_RETRY_INTERVAL :: nat where "MANIFEST_RETRY_INTERVAL = 250"

record SenderShared =
  ss_session_id :: SessionId
  ss_route :: TransportRoute
  ss_manifest :: LosslessSessionManifest
  ss_receiver_ids :: "usize list"
  ss_quorum :: ActiveSessionQuorum
  ss_liveness :: QuorumLiveness
  ss_plan :: BlockPlan
  ss_source :: bytes
  ss_ready_grace :: nat
  ss_payload_emitted :: bool

type_synonym 'm on_need = "SenderShared \<Rightarrow> usize \<Rightarrow> u32 \<Rightarrow> NeedReport \<Rightarrow> 'm \<Rightarrow> SenderShared \<times> 'm"

text \<open>The part of \<open>SenderConfig\<close> the shell reads, and \<open>SessionSender::new\<close> up to
  the choice of the mode; the string is the abort reason.\<close>

record SenderConfig =
  sc_session_id :: SessionId
  sc_block_size :: usize
  sc_route :: TransportRoute
  sc_receiver_ids :: "usize list"
  sc_source_buffer :: bytes
  sc_manifest :: LosslessSessionManifest
  sc_ready_grace_ms :: u64
  sc_peer_report_timeout_ms :: u64

definition sender_shared_new :: "SenderConfig \<Rightarrow> string + SenderShared" where
  "sender_shared_new cfg =
     (let m = sc_manifest cfg; bsize = (ucast (mf_block_size m) :: usize) in
      case block_plan_new (mf_total_bytes m) bsize of
        Inl _ \<Rightarrow> Inl ''invalid block plan for sender''
      | Inr plan \<Rightarrow>
          Inr \<lparr>ss_session_id = sc_session_id cfg, ss_route = sc_route cfg, ss_manifest = m,
            ss_receiver_ids = sc_receiver_ids cfg,
            ss_quorum = quorum_new (sc_receiver_ids cfg),
            ss_liveness = liveness_new QUORUM_SOLICITATION_INTERVAL
              (unat (sc_peer_report_timeout_ms cfg)),
            ss_plan = plan, ss_source = sc_source_buffer cfg,
            ss_ready_grace = unat (sc_ready_grace_ms cfg), ss_payload_emitted = False\<rparr>)"

section \<open>Operations\<close>

definition sender_route :: "SenderShared \<Rightarrow> u16 option \<Rightarrow> FrameRoute" where
  "sender_route sh tree_id = frame_route (ss_session_id sh) (ss_route sh) tree_id"

definition send_manifest :: "SenderShared \<Rightarrow> outputs may_panic" where
  "send_manifest sh = send_control (sender_route sh None) (Manifest (ss_manifest sh))"

definition send_source_done :: "SenderShared \<Rightarrow> u32 \<Rightarrow> outputs may_panic" where
  "send_source_done sh round_id = send_control (sender_route sh None) (SourceDone round_id)"

definition freeze_active_quorum :: "SenderShared \<Rightarrow> SenderShared" where
  "freeze_active_quorum sh =
     (if q_frozen (ss_quorum sh) then sh else sh\<lparr>ss_quorum := freeze (ss_quorum sh)\<rparr>)"

definition mark_payload_emitted :: "SenderShared \<Rightarrow> SenderShared" where
  "mark_payload_emitted sh = sh\<lparr>ss_payload_emitted := True\<rparr>"

definition start_quorum_feedback_wait :: "nat \<Rightarrow> SenderShared \<Rightarrow> SenderShared" where
  "start_quorum_feedback_wait now sh = sh\<lparr>ss_liveness := liveness_start now (ss_liveness sh)\<rparr>"

definition clear_quorum_feedback_wait :: "SenderShared \<Rightarrow> SenderShared" where
  "clear_quorum_feedback_wait sh = sh\<lparr>ss_liveness := liveness_clear (ss_liveness sh)\<rparr>"

definition active_quorum_is_empty :: "SenderShared \<Rightarrow> bool" where
  "active_quorum_is_empty sh \<longleftrightarrow> q_active (ss_quorum sh) = {}"

definition handle_control ::
    "'m on_need \<Rightarrow> InboundFrame \<Rightarrow> SenderShared \<times> 'm \<Rightarrow> SenderShared \<times> 'm" where
  "handle_control on_need frame = (\<lambda>(sh, mode).
     case decode_control (if_bytes frame) of
       None \<Rightarrow> (sh, mode)
     | Some (_, control) \<Rightarrow>
         (case control of
            Manifest _ \<Rightarrow> (sh, mode)
          | SourceDone _ \<Rightarrow> (sh, mode)
          | Ready \<Rightarrow>
              (case if_peer_id frame of
                 None \<Rightarrow> (sh, mode)
               | Some peer_id \<Rightarrow>
                   if q_frozen (ss_quorum sh) then (sh, mode)
                   else (sh\<lparr>ss_quorum := record_ready peer_id (ss_quorum sh)\<rparr>, mode))
          | Need round_id report \<Rightarrow>
              (case if_peer_id frame of
                 None \<Rightarrow> (sh, mode)
               | Some peer_id \<Rightarrow>
                   if peer_id \<notin> q_active (ss_quorum sh) then (sh, mode)
                   else if validate_control (ss_manifest sh) (Need round_id report) \<noteq> Inr () then
                     (sh, mode)
                   else on_need sh peer_id round_id report mode)))"

definition drain_controls ::
    "'m on_need \<Rightarrow> InboundFrame list \<Rightarrow> SenderShared \<times> 'm \<Rightarrow> SenderShared \<times> 'm" where
  "drain_controls on_need frames st = fold (handle_control on_need) frames st"

text \<open>One turn of the READY loop.  \<open>deadline\<close> and \<open>next\<close> are its local variables.\<close>

datatype 'm Negotiation =
    NegotiateOpen "SenderShared \<times> 'm"
  | NegotiateClosed
  | NegotiateWait nat "SenderShared \<times> 'm"

definition ready_missing :: "SenderShared \<Rightarrow> bool" where
  "ready_missing sh \<longleftrightarrow> card (q_active (ss_quorum sh)) < card (q_configured (ss_quorum sh))"

definition negotiate_turn :: "'m on_need \<Rightarrow> nat \<Rightarrow> nat \<Rightarrow> nat \<Rightarrow> Wake \<Rightarrow>
    SenderShared \<times> 'm \<Rightarrow> (outputs \<times> 'm Negotiation) may_panic" where
  "negotiate_turn on_need deadline next now wake = (\<lambda>(sh, mode).
     if \<not> ready_missing sh then Some ([], NegotiateOpen (freeze_active_quorum sh, mode))
     else
       case (if next \<le> now then send_manifest sh else Some []) of
         None \<Rightarrow> None
       | Some out \<Rightarrow>
           let next = (if next \<le> now then now + MANIFEST_RETRY_INTERVAL else next) in
           if deadline \<le> now then Some (out, NegotiateOpen (freeze_active_quorum sh, mode))
           else case wake of
               RecvFrame frame \<Rightarrow>
                 Some (out, NegotiateWait next (handle_control on_need frame (sh, mode)))
             | RecvClosed \<Rightarrow> Some (out, NegotiateClosed)
             | TimerFired \<Rightarrow> Some (out, NegotiateWait next (sh, mode)))"

text \<open>The whole handshake over the list of (clock, event) pairs its turns see; running out of
  them leaves it waiting.\<close>

fun negotiate_ready :: "'m on_need \<Rightarrow> nat \<Rightarrow> nat \<Rightarrow> (nat \<times> Wake) list \<Rightarrow>
    SenderShared \<times> 'm \<Rightarrow> (outputs \<times> 'm Negotiation) may_panic" where
  "negotiate_ready on_need deadline next [] st =
     (if \<not> ready_missing (fst st) then
        Some ([], NegotiateOpen (freeze_active_quorum (fst st), snd st))
      else Some ([], NegotiateWait next st))"
| "negotiate_ready on_need deadline next ((now, wake) # events) st =
     (case negotiate_turn on_need deadline next now wake st of
        None \<Rightarrow> None
      | Some (out, NegotiateWait next' st') \<Rightarrow>
          map_option (\<lambda>(out', r). (out @ out', r))
            (negotiate_ready on_need deadline next' events st')
      | Some (out, r) \<Rightarrow> Some (out, r))"

datatype QuorumWaitOutcome = WaitControl | WaitSolicited | WaitTimedOut | WaitClosed

definition wait_for_quorum_feedback :: "'m on_need \<Rightarrow> u32 \<Rightarrow> Wake \<Rightarrow> nat \<Rightarrow> SenderShared \<times> 'm \<Rightarrow>
    (outputs \<times> QuorumWaitOutcome \<times> (SenderShared \<times> 'm)) may_panic" where
  "wait_for_quorum_feedback on_need round_id wake now = (\<lambda>(sh, mode).
     if timeout_at (ss_liveness sh) = None then Some ([], WaitClosed, (sh, mode))
     else case wake of
         RecvFrame frame \<Rightarrow> Some ([], WaitControl, handle_control on_need frame (sh, mode))
       | RecvClosed \<Rightarrow> Some ([], WaitClosed, (sh, mode))
       | TimerFired \<Rightarrow>
           if timed_out now (ss_liveness sh) then Some ([], WaitTimedOut, (sh, mode))
           else if should_solicit now (ss_liveness sh) then
             map_option (\<lambda>out. (out, WaitSolicited,
                 (sh\<lparr>ss_liveness := note_solicitation now (ss_liveness sh)\<rparr>, mode)))
               (send_source_done sh round_id)
           else Some ([], WaitControl, (sh, mode)))"

definition wait_for_signal :: "'m on_need \<Rightarrow> Wake \<Rightarrow> SenderShared \<times> 'm \<Rightarrow> bool \<times> (SenderShared \<times> 'm)" where
  "wait_for_signal on_need wake st =
     (case wake of
        RecvFrame frame \<Rightarrow> (True, handle_control on_need frame st)
      | RecvClosed \<Rightarrow> (False, st)
      | TimerFired \<Rightarrow> (True, st))"

section \<open>What the control path leaves alone\<close>

text \<open>\<open>same_shell\<close>: the session, the manifest, the plan, the source and the
  configured receivers are those of the start, and a frozen quorum is final.\<close>

definition same_shell :: "SenderShared \<Rightarrow> SenderShared \<Rightarrow> bool" where
  "same_shell sh sh' \<longleftrightarrow>
     ss_session_id sh' = ss_session_id sh \<and> ss_route sh' = ss_route sh \<and>
     ss_manifest sh' = ss_manifest sh \<and> ss_plan sh' = ss_plan sh \<and> ss_source sh' = ss_source sh \<and>
     ss_receiver_ids sh' = ss_receiver_ids sh \<and> ss_ready_grace sh' = ss_ready_grace sh \<and>
     q_configured (ss_quorum sh') = q_configured (ss_quorum sh) \<and>
     (q_frozen (ss_quorum sh) \<longrightarrow> ss_quorum sh' = ss_quorum sh) \<and>
     (quorum_ok (ss_quorum sh) \<longrightarrow> quorum_ok (ss_quorum sh'))"

lemma same_shell_refl [simp]: "same_shell sh sh"
  by (simp add: same_shell_def)

lemma same_shell_trans: "same_shell a b \<Longrightarrow> same_shell b c \<Longrightarrow> same_shell a c"
  by (auto simp: same_shell_def)

lemma same_shell_updates [simp]:
  "same_shell sh (sh\<lparr>ss_liveness := l\<rparr>)"
  "same_shell sh (sh\<lparr>ss_payload_emitted := b\<rparr>)"
  "same_shell sh (sh\<lparr>ss_quorum := record_ready p (ss_quorum sh)\<rparr>)"
  "same_shell sh (freeze_active_quorum sh)"
  "same_shell sh (mark_payload_emitted sh)"
  "same_shell sh (start_quorum_feedback_wait now sh)"
  "same_shell sh (clear_quorum_feedback_wait sh)"
  by (simp_all add: same_shell_def freeze_active_quorum_def mark_payload_emitted_def
      start_quorum_feedback_wait_def clear_quorum_feedback_wait_def)

lemma q_frozen_freeze_active [simp]: "q_frozen (ss_quorum (freeze_active_quorum sh))"
  by (simp add: freeze_active_quorum_def)

section \<open>The contract of the mode hooks\<close>

lemma handle_control_cases:
  assumes "handle_control on_need f (sh, m) = (sh', m')"
  obtains "sh' = sh" "m' = m"
  | p where "\<not> q_frozen (ss_quorum sh)" "sh' = sh\<lparr>ss_quorum := record_ready p (ss_quorum sh)\<rparr>" "m' = m"
  | p hdr r rep where "if_peer_id f = Some p" "decode_control (if_bytes f) = Some (hdr, Need r rep)"
      "p \<in> q_active (ss_quorum sh)" "validate_control (ss_manifest sh) (Need r rep) = Inr ()"
      "on_need sh p r rep m = (sh', m')"
proof (cases "decode_control (if_bytes f)")
  case None
  then show thesis using assms by (intro that(1)) (simp_all add: handle_control_def)
next
  case (Some hc)
  then obtain hdr c where hc: "decode_control (if_bytes f) = Some (hdr, c)" by (cases hc) simp
  show thesis
  proof (cases "if_peer_id f")
    case None
    then show thesis using assms hc
      by (intro that(1)) (cases c; simp add: handle_control_def)+
  next
    case (Some p)
    show thesis
    proof (cases c)
      case Ready
      then show thesis using assms hc Some that(1) that(2) [of p]
        by (auto simp: handle_control_def split: if_splits)
    next
      case (Need r rep)
      then show thesis using assms hc Some that(1) that(3) [of p hdr r rep]
        by (auto simp: handle_control_def split: if_splits)
    qed (use assms hc Some that(1) in \<open>auto simp: handle_control_def\<close>)
  qed
qed

text \<open>A frame supports \<open>ok\<close> when every Need it carries is a fact about its peer.\<close>

definition frame_supports :: "(usize \<Rightarrow> u32 \<Rightarrow> NeedReport \<Rightarrow> bool) \<Rightarrow> InboundFrame \<Rightarrow> bool" where
  "frame_supports ok frame \<longleftrightarrow>
     (\<forall>p hdr r rep. if_peer_id frame = Some p \<longrightarrow>
        decode_control (if_bytes frame) = Some (hdr, Need r rep) \<longrightarrow> ok p r rep)"

definition wake_supports :: "(usize \<Rightarrow> u32 \<Rightarrow> NeedReport \<Rightarrow> bool) \<Rightarrow> Wake \<Rightarrow> bool" where
  "wake_supports ok wake \<longleftrightarrow>
     (case wake of RecvFrame f \<Rightarrow> frame_supports ok f | RecvClosed \<Rightarrow> True | TimerFired \<Rightarrow> True)"

locale mode_hooks =
  fixes on_need :: "'m on_need"
    and ok :: "usize \<Rightarrow> u32 \<Rightarrow> NeedReport \<Rightarrow> bool"
    and inv :: "SenderShared \<Rightarrow> 'm \<Rightarrow> bool"
  assumes on_need_shell: "\<exists>l. fst (on_need sh p r rep m) = sh\<lparr>ss_liveness := l\<rparr>"
    and inv_liveness: "inv (sh\<lparr>ss_liveness := l\<rparr>) m \<longleftrightarrow> inv sh m"
    and inv_quorum: "inv sh m \<Longrightarrow> \<not> q_frozen (ss_quorum sh) \<Longrightarrow>
      inv (sh\<lparr>ss_quorum := record_ready p (ss_quorum sh)\<rparr>) m \<and>
      inv (sh\<lparr>ss_quorum := freeze (ss_quorum sh)\<rparr>) m"
    and inv_on_need: "inv sh m \<Longrightarrow> p \<in> q_active (ss_quorum sh) \<Longrightarrow>
      validate_need_report (ss_manifest sh) rep = Inr () \<Longrightarrow> canonical_report rep = rep \<Longrightarrow>
      ok p r rep \<Longrightarrow> inv sh (snd (on_need sh p r rep m))"
begin

lemma validate_control_need:
  "validate_control man (Need r rep) = Inr () \<Longrightarrow> validate_need_report man rep = Inr ()"
  by (auto simp: validate_control_def and_then_eq_Inr)

lemma handle_control_shell: "same_shell sh (fst (handle_control on_need f (sh, m)))"
proof (cases "handle_control on_need f (sh, m)")
  case (Pair sh' m')
  then show ?thesis
  proof (cases rule: handle_control_cases)
    case (3 p hdr r rep)
    then show ?thesis using on_need_shell [of sh p r rep m] Pair by auto
  qed (use Pair in simp_all)
qed

lemma handle_control_inv:
  assumes "inv sh m" "frame_supports ok f"
  shows "inv (fst (handle_control on_need f (sh, m))) (snd (handle_control on_need f (sh, m)))"
proof (cases "handle_control on_need f (sh, m)")
  case (Pair sh' m')
  then show ?thesis
  proof (cases rule: handle_control_cases)
    case 1
    then show ?thesis using Pair assms by simp
  next
    case (2 p)
    then show ?thesis using Pair assms inv_quorum by simp
  next
    case (3 p hdr r rep)
    then have "ok p r rep" using assms(2) by (auto simp: frame_supports_def)
    moreover have "canonical_report rep = rep" using decode_control_valid(2) [OF 3(2)] by simp
    ultimately have "inv sh m'"
      using 3 inv_on_need [OF assms(1), of p rep r] validate_control_need by auto
    then show ?thesis using 3 Pair on_need_shell [of sh p r rep m] inv_liveness by auto
  qed
qed

lemma drain_controls_shell: "same_shell sh (fst (drain_controls on_need fs (sh, m)))"
proof (induction fs arbitrary: sh m)
  case (Cons f fs)
  obtain sh1 m1 where 1: "handle_control on_need f (sh, m) = (sh1, m1)" by fastforce
  then have "same_shell sh sh1" using handle_control_shell [of sh f m] by simp
  then show ?case
    using Cons [of sh1 m1] 1 by (auto simp: drain_controls_def intro: same_shell_trans)
qed (simp add: drain_controls_def)

lemma drain_controls_inv:
  assumes "inv sh m" "\<forall>f\<in>set fs. frame_supports ok f"
  shows "inv (fst (drain_controls on_need fs (sh, m))) (snd (drain_controls on_need fs (sh, m)))"
  using assms
proof (induction fs arbitrary: sh m)
  case (Cons f fs)
  obtain sh1 m1 where 1: "handle_control on_need f (sh, m) = (sh1, m1)" by fastforce
  then have "inv sh1 m1" using handle_control_inv [OF Cons.prems(1), of f] Cons.prems(2) by simp
  then show ?case using Cons.IH [of sh1 m1] Cons.prems 1 by (simp add: drain_controls_def)
qed (simp add: drain_controls_def)

lemma wait_shell:
  assumes "wait_for_quorum_feedback on_need r w now (sh, m) = Some (out, oc, (sh', m'))"
  shows "same_shell sh sh'"
proof (cases w)
  case (RecvFrame f)
  then show ?thesis
    using assms handle_control_shell [of sh f m]
    by (auto simp: wait_for_quorum_feedback_def split: if_splits)
qed (use assms in \<open>auto simp: wait_for_quorum_feedback_def split: if_splits\<close>)

lemma wait_inv:
  assumes "wait_for_quorum_feedback on_need r w now (sh, m) = Some (out, oc, (sh', m'))"
    and "inv sh m" "wake_supports ok w"
  shows "inv sh' m'"
proof (cases w)
  case (RecvFrame f)
  then have "frame_supports ok f" using assms(3) by (simp add: wake_supports_def)
  then show ?thesis
    using assms(1,2) RecvFrame handle_control_inv [of sh m f]
    by (auto simp: wait_for_quorum_feedback_def split: if_splits)
next
  case TimerFired
  then show ?thesis
    using assms(1,2) inv_liveness by (auto simp: wait_for_quorum_feedback_def split: if_splits)
qed (use assms in \<open>auto simp: wait_for_quorum_feedback_def split: if_splits\<close>)

end

end
