(* ===== verification/Runtime.thy ===== *)
theory Runtime
  imports Receiver Fec_Policy Sender_Shared
begin

text \<open>
  The lossless runtime (\<open>src/dataplane/src/node/session/runtime.rs\<close>, \<open>api.rs\<close>): the
  actor that starts session tasks, forwards frames to them, keeps the replay of completed
  receivers and publishes outcomes.  One definition per method; the actor's loop is
  \<open>runtime_message\<close> over its messages.  What an iteration does to the outside is a list of
  effects, in order; a task is a number that names its inbox, its watch channel and its abort
  handle.  Whether the receiving end of an inbox is still open is the environment's answer,
  the argument \<open>inbox_open\<close>.
\<close>

datatype SessionState = Running | SessionOver SessionOutcome

datatype StartError =
    RuntimeChannelClosed
  | SessionAlreadyActive SessionId
  | Preflight PreflightError

record SenderRequest =
  sq_session_id :: SessionId
  sq_block_size :: usize
  sq_route :: TransportRoute
  sq_receiver_ids :: "usize list"
  sq_total_bytes :: u64
  sq_source_buffer :: bytes
  sq_ready_grace_ms :: u64
  sq_peer_report_timeout_ms :: u64

record ReceiverRequest =
  rq_session_id :: SessionId
  rq_route :: TransportRoute
  rq_local_node_id :: usize
  rq_sink_buffer :: "bytes option"
  rq_progress :: "ReceiverProgress option"

datatype LosslessRuntimeMessage =
    StartSender SenderRequest
  | StartReceiver ReceiverRequest
  | AbortSession SessionId
  | Deliver SessionId InboundFrame
  | ReceiverCompleted SessionId CompletedReceiverReplay
  | SessionExited SessionId SessionOutcome
  | SetTopologyReady bool

record SessionEntry =
  se_inbox :: nat
  se_state_sender :: nat
  se_abort_handle :: nat

text \<open>\<open>rt_next_task\<close> is the next fresh task: \<open>tokio::spawn\<close> and the channel constructors.\<close>

record LosslessRuntime =
  rt_config :: LosslessConfig
  rt_sessions :: "SessionId \<rightharpoonup> SessionEntry"
  rt_completed_receivers :: "SessionId \<rightharpoonup> CompletedReceiverReplay"
  rt_topology_ready :: bool
  rt_next_task :: nat

datatype RuntimeEffect =
    ReplyHandle SessionId nat
  | ReplyError StartError
  | SpawnSender nat SenderConfig bool
  | SpawnReceiver nat ReceiverConfig
  | InboxSend nat InboundFrame
  | PublishState nat SessionState
  | AbortTask nat
  | Submit "FrameRoute \<times> bytes"
  | AckCompleted
  | PublishTopology bool

type_synonym effects = "RuntimeEffect list"

definition runtime_new :: "LosslessConfig \<Rightarrow> LosslessRuntime" where
  "runtime_new config =
     \<lparr>rt_config = config, rt_sessions = Map.empty, rt_completed_receivers = Map.empty,
      rt_topology_ready = False, rt_next_task = 0\<rparr>"

text \<open>\<open>LosslessSessionHandle::wait\<close> over the values it observes; a closed channel is the end.\<close>

fun session_wait :: "SessionState list \<Rightarrow> SessionOutcome" where
  "session_wait [] = Aborted"
| "session_wait (Running # states) = session_wait states"
| "session_wait (SessionOver outcome # states) = outcome"

section \<open>Starting and ending sessions\<close>

definition insert_session :: "SessionId \<Rightarrow> LosslessRuntime \<Rightarrow> LosslessRuntime" where
  "insert_session sid rt =
     (let t = rt_next_task rt in
      rt\<lparr>rt_sessions := (rt_sessions rt)(sid \<mapsto>
           \<lparr>se_inbox = t, se_state_sender = t, se_abort_handle = t\<rparr>),
         rt_next_task := t + 1\<rparr>)"

definition forget_replay :: "SessionId \<Rightarrow> LosslessRuntime \<Rightarrow> LosslessRuntime" where
  "forget_replay sid rt = rt\<lparr>rt_completed_receivers := (rt_completed_receivers rt)(sid := None)\<rparr>"

definition start_sender_session :: "(TransportRoute \<Rightarrow> u16 \<Rightarrow> LosslessIngressContract) \<Rightarrow>
    SenderRequest \<Rightarrow> LosslessRuntime \<Rightarrow> effects \<times> LosslessRuntime" where
  "start_sender_session ingress req rt =
     (let sid = sq_session_id req in
      if rt_sessions rt sid \<noteq> None then ([ReplyError (SessionAlreadyActive sid)], rt)
      else
        let rt = forget_replay sid rt in
        case derive_manifest (ingress (sq_route req)) (rt_config rt) (sq_total_bytes req)
               (sq_block_size req) of
          Inl e \<Rightarrow> ([ReplyError (Preflight e)], rt)
        | Inr manifest \<Rightarrow>
            let cfg = \<lparr>sc_session_id = sid, sc_block_size = sq_block_size req, sc_route = sq_route req,
                  sc_receiver_ids = sq_receiver_ids req, sc_source_buffer = sq_source_buffer req,
                  sc_manifest = manifest, sc_ready_grace_ms = sq_ready_grace_ms req,
                  sc_peer_report_timeout_ms = sq_peer_report_timeout_ms req\<rparr>;
                t = rt_next_task rt
            in ([SpawnSender t cfg (\<not> rt_topology_ready rt), ReplyHandle sid t], insert_session sid rt))"

definition start_receiver_session :: "ReceiverRequest \<Rightarrow> LosslessRuntime \<Rightarrow> effects \<times> LosslessRuntime" where
  "start_receiver_session req rt =
     (let sid = rq_session_id req in
      if rt_sessions rt sid \<noteq> None then ([ReplyError (SessionAlreadyActive sid)], rt)
      else
        let rt = forget_replay sid rt;
            cfg = \<lparr>rc_session_id = sid, rc_route = rq_route req, rc_local_node_id = rq_local_node_id req,
              rc_sink_buffer = rq_sink_buffer req, rc_progress = rq_progress req,
              rc_peer_report_timeout_ms = lc_peer_report_timeout_ms (rt_config rt),
              rc_fec_enabled = lc_fec_enabled (rt_config rt)\<rparr>;
            t = rt_next_task rt
        in ([SpawnReceiver t cfg, ReplyHandle sid t], insert_session sid rt))"

definition abort_session :: "SessionId \<Rightarrow> LosslessRuntime \<Rightarrow> effects \<times> LosslessRuntime" where
  "abort_session sid rt =
     ((case rt_sessions rt sid of
         Some entry \<Rightarrow> [AbortTask (se_abort_handle entry),
           PublishState (se_state_sender entry) (SessionOver Aborted)]
       | None \<Rightarrow> []),
      forget_replay sid (rt\<lparr>rt_sessions := (rt_sessions rt)(sid := None)\<rparr>))"

definition finish_session :: "SessionId \<Rightarrow> SessionOutcome \<Rightarrow> LosslessRuntime \<Rightarrow> effects \<times> LosslessRuntime" where
  "finish_session sid outcome rt =
     (let keep_completed_replay = (outcome = Completed);
          out = (case rt_sessions rt sid of
            Some entry \<Rightarrow> [PublishState (se_state_sender entry) (SessionOver outcome)] | None \<Rightarrow> []);
          rt = rt\<lparr>rt_sessions := (rt_sessions rt)(sid := None)\<rparr>
      in (out, if \<not> keep_completed_replay then forget_replay sid rt else rt))"

definition set_topology_ready :: "bool \<Rightarrow> LosslessRuntime \<Rightarrow> effects \<times> LosslessRuntime" where
  "set_topology_ready ready rt = ([PublishTopology ready], rt\<lparr>rt_topology_ready := ready\<rparr>)"

section \<open>Delivery\<close>

datatype LiveDeliveryOutcome = Delivered | Closed | Missing

definition deliver_live_receiver :: "(nat \<Rightarrow> bool) \<Rightarrow> LosslessRuntime \<Rightarrow> SessionId \<Rightarrow> InboundFrame \<Rightarrow>
    effects \<times> LiveDeliveryOutcome" where
  "deliver_live_receiver inbox_open rt session frame =
     (case rt_sessions rt session of
        None \<Rightarrow> ([], Missing)
      | Some entry \<Rightarrow>
          if inbox_open (se_inbox entry) then ([InboxSend (se_inbox entry) frame], Delivered)
          else ([], Closed))"

definition replay_completed_receiver :: "LosslessRuntime \<Rightarrow> SessionId \<Rightarrow> InboundFrame \<Rightarrow>
    (effects \<times> bool) may_panic" where
  "replay_completed_receiver rt session frame =
     (case rt_completed_receivers rt session of
        None \<Rightarrow> Some ([], False)
      | Some replay \<Rightarrow>
          (case decode_control (if_bytes frame) of
             Some (_, SourceDone round_id) \<Rightarrow>
               (case replay of
                  ReplayPlain replay_round_id route report \<Rightarrow>
                    if round_id \<noteq> replay_round_id then Some ([], False)
                    else map_option (\<lambda>out. (map Submit out, True))
                      (send_control (frame_route session route None) (Need round_id report))
                | ReplayFec replay_round_id route report \<Rightarrow>
                    if round_id \<noteq> replay_round_id then Some ([], False)
                    else map_option (\<lambda>out. (map Submit out, True))
                      (send_control (frame_route session route None) (Need round_id report)))
           | _ \<Rightarrow> Some ([], False)))"

definition deliver_frame :: "(nat \<Rightarrow> bool) \<Rightarrow> SessionId \<Rightarrow> InboundFrame \<Rightarrow> LosslessRuntime \<Rightarrow>
    (effects \<times> LosslessRuntime) may_panic" where
  "deliver_frame inbox_open session frame rt =
     (if (case peek_header (if_bytes frame) of
            Some header \<Rightarrow> rh_version header \<noteq> LOSSLESS_SESSION_VERSION | None \<Rightarrow> False)
      then Some ([], rt)
      else case deliver_live_receiver inbox_open rt session frame of
          (out, Delivered) \<Rightarrow> Some (out, rt)
        | (out, Closed) \<Rightarrow>
            map_option (\<lambda>(out', replayed). (out @ out', rt)) (replay_completed_receiver rt session frame)
        | (out, Missing) \<Rightarrow>
            map_option (\<lambda>(out', replayed). (out @ out', rt)) (replay_completed_receiver rt session frame))"

section \<open>The actor\<close>

record RuntimeWorld =
  rw_ingress :: "TransportRoute \<Rightarrow> u16 \<Rightarrow> LosslessIngressContract"
  rw_inbox_open :: "nat \<Rightarrow> bool"

definition runtime_message :: "RuntimeWorld \<Rightarrow> LosslessRuntimeMessage \<Rightarrow> LosslessRuntime \<Rightarrow>
    (effects \<times> LosslessRuntime) may_panic" where
  "runtime_message w message rt =
     (case message of
        StartSender cfg \<Rightarrow> Some (start_sender_session (rw_ingress w) cfg rt)
      | StartReceiver cfg \<Rightarrow> Some (start_receiver_session cfg rt)
      | AbortSession session_id \<Rightarrow> Some (abort_session session_id rt)
      | Deliver session frame \<Rightarrow> deliver_frame (rw_inbox_open w) session frame rt
      | ReceiverCompleted session_id replay \<Rightarrow>
          Some ([AckCompleted], rt\<lparr>rt_completed_receivers :=
            (rt_completed_receivers rt)(session_id \<mapsto> replay)\<rparr>)
      | SessionExited session_id outcome \<Rightarrow> Some (finish_session session_id outcome rt)
      | SetTopologyReady ready \<Rightarrow> Some (set_topology_ready ready rt))"

text \<open>The loop over its messages, each with the state of the world when it is handled.\<close>

fun runtime_run :: "(RuntimeWorld \<times> LosslessRuntimeMessage) list \<Rightarrow> LosslessRuntime \<Rightarrow>
    (effects \<times> LosslessRuntime) may_panic" where
  "runtime_run [] rt = Some ([], rt)"
| "runtime_run ((w, message) # messages) rt =
     (case runtime_message w message rt of
        None \<Rightarrow> None
      | Some (out, rt) \<Rightarrow> map_option (\<lambda>(out', rt). (out @ out', rt)) (runtime_run messages rt))"

section \<open>The life of a task\<close>

text \<open>The effects on one task, in order.\<close>

fun concerns :: "nat \<Rightarrow> RuntimeEffect \<Rightarrow> bool" where
  "concerns t (SpawnSender t' _ _) \<longleftrightarrow> t' = t"
| "concerns t (SpawnReceiver t' _) \<longleftrightarrow> t' = t"
| "concerns t (InboxSend t' _) \<longleftrightarrow> t' = t"
| "concerns t (PublishState t' _) \<longleftrightarrow> t' = t"
| "concerns t (AbortTask t') \<longleftrightarrow> t' = t"
| "concerns t _ \<longleftrightarrow> False"

definition task_events :: "nat \<Rightarrow> effects \<Rightarrow> effects" where
  "task_events t effs = filter (concerns t) effs"

lemma task_events_append [simp]: "task_events t (xs @ ys) = task_events t xs @ task_events t ys"
  by (simp add: task_events_def)

text \<open>A live task was spawned and has been sent frames; a task that is over has then had its
  outcome published, once, after an abort if it was aborted.\<close>

definition live_events :: "nat \<Rightarrow> effects \<Rightarrow> bool" where
  "live_events t evs \<longleftrightarrow> (\<exists>spawn sends. evs = spawn # map (InboxSend t) sends \<and>
     ((\<exists>cfg gate. spawn = SpawnSender t cfg gate) \<or> (\<exists>cfg. spawn = SpawnReceiver t cfg)))"

definition last_rites :: "nat \<Rightarrow> effects \<Rightarrow> bool" where
  "last_rites t fin \<longleftrightarrow> (\<exists>oc. fin = [PublishState t (SessionOver oc)]) \<or>
     fin = [AbortTask t, PublishState t (SessionOver Aborted)]"

definition over_events :: "nat \<Rightarrow> effects \<Rightarrow> bool" where
  "over_events t evs \<longleftrightarrow> (\<exists>before fin. evs = before @ fin \<and> live_events t before \<and> last_rites t fin)"

definition live_tasks :: "LosslessRuntime \<Rightarrow> nat set" where
  "live_tasks rt = se_inbox ` ran (rt_sessions rt)"

text \<open>Every entry owns one task, and no two sessions share one.\<close>

definition runtime_ok :: "LosslessRuntime \<Rightarrow> bool" where
  "runtime_ok rt \<longleftrightarrow>
     (\<forall>sid e. rt_sessions rt sid = Some e \<longrightarrow> se_state_sender e = se_inbox e \<and>
        se_abort_handle e = se_inbox e \<and> se_inbox e < rt_next_task rt) \<and>
     (\<forall>sid sid' e e'. rt_sessions rt sid = Some e \<longrightarrow> rt_sessions rt sid' = Some e' \<longrightarrow>
        se_inbox e = se_inbox e' \<longrightarrow> sid = sid')"

definition trace_ok :: "LosslessRuntime \<Rightarrow> effects \<Rightarrow> bool" where
  "trace_ok rt effs \<longleftrightarrow> (\<forall>t. if rt_next_task rt \<le> t then task_events t effs = []
     else if t \<in> live_tasks rt then live_events t (task_events t effs)
     else over_events t (task_events t effs))"

lemma live_tasks_bound: "runtime_ok rt \<Longrightarrow> t \<in> live_tasks rt \<Longrightarrow> t < rt_next_task rt"
  by (auto simp: runtime_ok_def live_tasks_def ran_def)

lemma forget_replay_simps [simp]:
  "rt_sessions (forget_replay sid rt) = rt_sessions rt"
  "rt_next_task (forget_replay sid rt) = rt_next_task rt"
  "rt_config (forget_replay sid rt) = rt_config rt"
  "rt_topology_ready (forget_replay sid rt) = rt_topology_ready rt"
  by (simp_all add: forget_replay_def)

text \<open>The three kinds of step: nothing happens to the sessions, one starts, one ends.\<close>

lemma step_quiet:
  assumes "rt_sessions rt' = rt_sessions rt" "rt_next_task rt' = rt_next_task rt"
    and "\<And>t. task_events t out = [] \<or> t \<in> live_tasks rt \<and> (\<exists>f. task_events t out = [InboxSend t f])"
    and "runtime_ok rt" "trace_ok rt effs"
  shows "runtime_ok rt' \<and> trace_ok rt' (effs @ out)"
proof
  show "runtime_ok rt'" using assms(1,2,4) by (simp add: runtime_ok_def)
  have live: "live_tasks rt' = live_tasks rt" using assms(1) by (simp add: live_tasks_def)
  have snoc: "live_events t (xs @ [InboxSend t f])" if le: "live_events t xs" for t xs f
  proof -
    obtain spawn sends where "xs = spawn # map (InboxSend t) sends"
      "(\<exists>cfg gate. spawn = SpawnSender t cfg gate) \<or> (\<exists>cfg. spawn = SpawnReceiver t cfg)"
      using le by (auto simp: live_events_def)
    then show ?thesis unfolding live_events_def by (intro exI [of _ spawn] exI [of _ "sends @ [f]"]) simp
  qed
  have "if rt_next_task rt \<le> t then task_events t (effs @ out) = []
     else if t \<in> live_tasks rt then live_events t (task_events t (effs @ out))
     else over_events t (task_events t (effs @ out))" for t
    using assms(3) [of t] assms(5) [unfolded trace_ok_def, rule_format, of t]
      live_tasks_bound [OF assms(4), of t] snoc [of t "task_events t effs"]
    by (auto split: if_splits)
  then show "trace_ok rt' (effs @ out)" unfolding trace_ok_def assms(2) live by (rule allI)
qed

lemma step_start:
  assumes "rt_sessions rt sid = None" "rt_sessions rt1 = rt_sessions rt" "rt_next_task rt1 = rt_next_task rt"
    and "\<And>t. task_events t out = (if t = rt_next_task rt then [spawn] else [])"
    and "(\<exists>cfg gate. spawn = SpawnSender (rt_next_task rt) cfg gate) \<or>
      (\<exists>cfg. spawn = SpawnReceiver (rt_next_task rt) cfg)"
    and "runtime_ok rt" "trace_ok rt effs"
  shows "runtime_ok (insert_session sid rt1) \<and> trace_ok (insert_session sid rt1) (effs @ out)"
proof
  let ?t = "rt_next_task rt"
  have f: "rt_sessions (insert_session sid rt1) = (rt_sessions rt)(sid \<mapsto> \<lparr>se_inbox = ?t, se_state_sender = ?t, se_abort_handle = ?t\<rparr>)"
    "rt_next_task (insert_session sid rt1) = Suc ?t"
    using assms(2,3) by (simp_all add: insert_session_def Let_def)
  show "runtime_ok (insert_session sid rt1)"
    using assms(6) by (fastforce simp: runtime_ok_def f split: if_splits)
  have live: "live_tasks (insert_session sid rt1) = insert ?t (live_tasks rt)"
    using assms(1) by (simp add: live_tasks_def f ran_map_upd)
  have le: "live_events ?t [spawn]" using assms(5) by (auto simp: live_events_def)
  have "if Suc ?t \<le> t then task_events t (effs @ out) = []
     else if t \<in> insert ?t (live_tasks rt) then live_events t (task_events t (effs @ out))
     else over_events t (task_events t (effs @ out))" for t
    using assms(7) [unfolded trace_ok_def, rule_format, of t] le assms(4) [of t] live_tasks_bound [OF assms(6), of t]
    by (cases "t = ?t") auto
  then show "trace_ok (insert_session sid rt1) (effs @ out)" unfolding trace_ok_def f(2) live by (rule allI)
qed

lemma step_end:
  assumes "rt_sessions rt sid = Some e" "rt_sessions rt' = (rt_sessions rt)(sid := None)"
    "rt_next_task rt' = rt_next_task rt"
    and "\<And>t. task_events t out = (if t = se_inbox e then out else [])" "last_rites (se_inbox e) out"
    and "runtime_ok rt" "trace_ok rt effs"
  shows "runtime_ok rt' \<and> trace_ok rt' (effs @ out)"
proof
  show "runtime_ok rt'" using assms(6) by (auto simp: runtime_ok_def assms(2,3) split: if_splits)
  have live: "live_tasks rt' = live_tasks rt - {se_inbox e}"
  proof (intro set_eqI iffI)
    fix t assume "t \<in> live_tasks rt'"
    then obtain sid' e' where "sid' \<noteq> sid" "rt_sessions rt sid' = Some e'" "t = se_inbox e'"
      by (auto simp: live_tasks_def assms(2) ran_def split: if_splits)
    then show "t \<in> live_tasks rt - {se_inbox e}"
      using assms(1,6) by (auto simp: live_tasks_def ran_def runtime_ok_def)
  next
    fix t assume "t \<in> live_tasks rt - {se_inbox e}"
    then obtain sid' e' where e': "rt_sessions rt sid' = Some e'" "t = se_inbox e'" "t \<noteq> se_inbox e"
      by (auto simp: live_tasks_def ran_def)
    then have "rt_sessions rt' sid' = Some e'" using assms(1) by (auto simp: assms(2))
    then show "t \<in> live_tasks rt'" using e'(2) by (auto simp: live_tasks_def intro: ranI)
  qed
  have mem: "se_inbox e \<in> live_tasks rt" "se_inbox e < rt_next_task rt"
    using assms(1,6) by (auto simp: live_tasks_def runtime_ok_def intro: ranI)
  have "if rt_next_task rt \<le> t then task_events t (effs @ out) = []
     else if t \<in> live_tasks rt - {se_inbox e} then live_events t (task_events t (effs @ out))
     else over_events t (task_events t (effs @ out))" for t
    using assms(7) [unfolded trace_ok_def, rule_format, of t] assms(4) [of t] mem assms(5)
    by (cases "t = se_inbox e") (auto simp: over_events_def)
  then show "trace_ok rt' (effs @ out)" unfolding trace_ok_def assms(3) live by (rule allI)
qed

lemma replay_effects:
  assumes "replay_completed_receiver rt sid f = Some (out, b)"
  shows "task_events t out = []"
proof -
  have "filter (concerns t) (map Submit xs) = []" for xs by (induction xs) simp_all
  then show ?thesis
    using assms
    by (auto simp: replay_completed_receiver_def task_events_def split: option.splits
        LosslessSessionControl.splits CompletedReceiverReplay.splits if_splits)
qed

lemma deliver_frame_effects:
  assumes "deliver_frame inbox_open sid f rt = Some (out, rt')"
  shows "rt' = rt" "task_events t out = [] \<or> t \<in> live_tasks rt \<and> task_events t out = [InboxSend t f]"
proof -
  have live: "deliver_live_receiver inbox_open rt sid f = ([], d) \<or>
      (\<exists>t \<in> live_tasks rt. deliver_live_receiver inbox_open rt sid f = ([InboxSend t f], Delivered))"
    if "snd (deliver_live_receiver inbox_open rt sid f) = d" for d
    using that by (auto simp: deliver_live_receiver_def live_tasks_def split: option.splits intro: ranI)
  obtain out1 d where dl: "deliver_live_receiver inbox_open rt sid f = (out1, d)" by fastforce
  then have cases: "out1 = [] \<or> (\<exists>t \<in> live_tasks rt. out1 = [InboxSend t f] \<and> d = Delivered)"
    using live [of d] by auto
  show "rt' = rt"
    using assms dl by (cases d) (auto simp: deliver_frame_def split: if_splits)
  have "out = [] \<or> d = Delivered \<and> out = out1 \<or>
      (\<exists>out2 b. out = out1 @ out2 \<and> replay_completed_receiver rt sid f = Some (out2, b) \<and> d \<noteq> Delivered)"
    using assms dl by (cases d) (auto simp: deliver_frame_def split: if_splits)
  then show "task_events t out = [] \<or> t \<in> live_tasks rt \<and> task_events t out = [InboxSend t f]"
    using cases replay_effects [of rt sid f] by (elim disjE exE conjE bexE) (auto simp: task_events_def)
qed

lemma runtime_message_step:
  assumes "runtime_message w msg rt = Some (out, rt')" "runtime_ok rt" "trace_ok rt effs"
  shows "runtime_ok rt' \<and> trace_ok rt' (effs @ out)"
proof (cases msg)
  case (StartSender req)
  have r: "start_sender_session (rw_ingress w) req rt = (out, rt')"
    using assms(1) by (simp add: runtime_message_def StartSender)
  show ?thesis
  proof (cases "rt_sessions rt (sq_session_id req)")
    case (Some e)
    then have "rt' = rt" "\<And>t. task_events t out = []"
      using r by (auto simp: start_sender_session_def task_events_def)
    then show ?thesis using step_quiet [of rt rt out effs] assms(2,3) by simp
  next
    case None
    show ?thesis
    proof (cases "derive_manifest (rw_ingress w (sq_route req)) (rt_config rt) (sq_total_bytes req) (sq_block_size req)")
      case (Inl e)
      then have "rt' = forget_replay (sq_session_id req) rt" "\<And>t. task_events t out = []"
        using r None by (auto simp: start_sender_session_def task_events_def)
      then show ?thesis using step_quiet [of rt' rt out effs] assms(2,3) by simp
    next
      case (Inr manifest)
      then obtain cfg where o': "out = [SpawnSender (rt_next_task rt) cfg (\<not> rt_topology_ready rt),
          ReplyHandle (sq_session_id req) (rt_next_task rt)]"
        "rt' = insert_session (sq_session_id req) (forget_replay (sq_session_id req) rt)"
        using r None by (auto simp: start_sender_session_def Let_def)
      have "task_events t out = (if t = rt_next_task rt then
          [SpawnSender (rt_next_task rt) cfg (\<not> rt_topology_ready rt)] else [])" for t
        by (simp add: o' task_events_def)
      then show ?thesis unfolding o'(2)
        by (intro step_start [OF None _ _ _ _ assms(2,3)]) auto
    qed
  qed
next
  case (StartReceiver req)
  have r: "start_receiver_session req rt = (out, rt')"
    using assms(1) by (simp add: runtime_message_def StartReceiver)
  show ?thesis
  proof (cases "rt_sessions rt (rq_session_id req)")
    case (Some e)
    then have "rt' = rt" "\<And>t. task_events t out = []"
      using r by (auto simp: start_receiver_session_def task_events_def)
    then show ?thesis using step_quiet [of rt rt out effs] assms(2,3) by simp
  next
    case None
    then obtain cfg where o': "out = [SpawnReceiver (rt_next_task rt) cfg,
        ReplyHandle (rq_session_id req) (rt_next_task rt)]"
      "rt' = insert_session (rq_session_id req) (forget_replay (rq_session_id req) rt)"
      using r by (auto simp: start_receiver_session_def Let_def)
    have "task_events t out = (if t = rt_next_task rt then [SpawnReceiver (rt_next_task rt) cfg] else [])" for t
      by (simp add: o' task_events_def)
    then show ?thesis unfolding o'(2)
      by (intro step_start [OF None _ _ _ _ assms(2,3)]) auto
  qed
next
  case (AbortSession sid)
  show ?thesis
  proof (cases "rt_sessions rt sid")
    case None
    then have "out = []" "rt_sessions rt' = rt_sessions rt" "rt_next_task rt' = rt_next_task rt"
      using assms(1) by (auto simp: runtime_message_def AbortSession abort_session_def)
    then show ?thesis using step_quiet [of rt' rt out effs] assms(2,3) by (simp add: task_events_def)
  next
    case (Some e)
    then have o': "out = [AbortTask (se_inbox e), PublishState (se_inbox e) (SessionOver Aborted)]"
      "rt_sessions rt' = (rt_sessions rt)(sid := None)" "rt_next_task rt' = rt_next_task rt"
      using assms(1,2) by (auto simp: runtime_message_def AbortSession abort_session_def runtime_ok_def)
    show ?thesis
      by (rule step_end [OF Some o'(2,3) _ _ assms(2,3)]) (simp_all add: o'(1) task_events_def last_rites_def)
  qed
next
  case (Deliver sid f)
  then have "deliver_frame (rw_inbox_open w) sid f rt = Some (out, rt')"
    using assms(1) by (simp add: runtime_message_def)
  note d = deliver_frame_effects [OF this]
  show ?thesis using step_quiet [of rt' rt out effs] d assms(2,3) by blast
next
  case (ReceiverCompleted sid replay)
  then show ?thesis using step_quiet [of rt' rt out effs] assms
    by (auto simp: runtime_message_def task_events_def)
next
  case (SessionExited sid oc)
  show ?thesis
  proof (cases "rt_sessions rt sid")
    case None
    then have "out = []" "rt_sessions rt' = rt_sessions rt" "rt_next_task rt' = rt_next_task rt"
      using assms(1) by (auto simp: runtime_message_def SessionExited finish_session_def Let_def)
    then show ?thesis using step_quiet [of rt' rt out effs] assms(2,3) by (simp add: task_events_def)
  next
    case (Some e)
    then have o': "out = [PublishState (se_inbox e) (SessionOver oc)]"
      "rt_sessions rt' = (rt_sessions rt)(sid := None)" "rt_next_task rt' = rt_next_task rt"
      using assms(1,2) by (auto simp: runtime_message_def SessionExited finish_session_def Let_def runtime_ok_def)
    show ?thesis
      by (rule step_end [OF Some o'(2,3) _ _ assms(2,3)]) (simp_all add: o'(1) task_events_def last_rites_def)
  qed
next
  case (SetTopologyReady ready)
  then show ?thesis using step_quiet [of rt' rt out effs] assms
    by (auto simp: runtime_message_def set_topology_ready_def task_events_def)
qed

lemma runtime_run_ok:
  assumes "runtime_run msgs rt = Some (out, rt')" "runtime_ok rt" "trace_ok rt effs"
  shows "runtime_ok rt' \<and> trace_ok rt' (effs @ out)"
  using assms
proof (induction msgs arbitrary: rt effs out)
  case (Cons wm msgs)
  obtain w msg where wm: "wm = (w, msg)" by fastforce
  obtain out1 rt1 where 1: "runtime_message w msg rt = Some (out1, rt1)"
    using Cons.prems(1) by (auto simp: wm split: option.splits)
  then obtain out2 where 2: "runtime_run msgs rt1 = Some (out2, rt')" "out = out1 @ out2"
    using Cons.prems(1) by (auto simp: wm)
  show ?case
    using Cons.IH [OF 2(1), of "effs @ out1"] runtime_message_step [OF 1 Cons.prems(2,3)] by (auto simp: 2(2))
qed simp

section \<open>Properties\<close>

text \<open>The effects of one message on a live session's task.\<close>

lemma ending_messages:
  assumes "runtime_ok rt" "rt_sessions rt sid = Some e"
  shows "\<exists>rt'. runtime_message w (AbortSession sid) rt =
      Some ([AbortTask (se_inbox e), PublishState (se_inbox e) (SessionOver Aborted)], rt') \<and>
      rt_sessions rt' = (rt_sessions rt)(sid := None)"
    and "\<exists>rt'. runtime_message w (SessionExited sid oc) rt =
      Some ([PublishState (se_inbox e) (SessionOver oc)], rt') \<and>
      rt_sessions rt' = (rt_sessions rt)(sid := None)"
  using assms
  by (auto simp: runtime_message_def abort_session_def finish_session_def forget_replay_def runtime_ok_def Let_def)

text \<open>C6. Whatever messages the runtime has handled, no two live sessions share a task, and the life
  of every task is: spawned once, then sent frames while it is live, then its outcome published once,
  after an abort if it was aborted, and nothing after that.  An \<open>AbortSession\<close> for a live session
  aborts its task and publishes \<open>Aborted\<close>; a \<open>SessionExited\<close> publishes the outcome it carries and
  aborts nothing; each removes the session and leaves the others.\<close>

theorem runtime_task_life:
  assumes "runtime_run msgs (runtime_new config) = Some (out, rt)"
  shows "(\<forall>sid sid' e e'. rt_sessions rt sid = Some e \<longrightarrow> rt_sessions rt sid' = Some e' \<longrightarrow>
      se_inbox e = se_inbox e' \<longrightarrow> sid = sid') \<and>
    (\<forall>t < rt_next_task rt. \<exists>spawn sends fin. task_events t out = spawn # map (InboxSend t) sends @ fin \<and>
      ((\<exists>cfg gate. spawn = SpawnSender t cfg gate) \<or> (\<exists>cfg. spawn = SpawnReceiver t cfg)) \<and>
      (if \<exists>sid e. rt_sessions rt sid = Some e \<and> se_inbox e = t then fin = [] else last_rites t fin)) \<and>
    (\<forall>sid e w. rt_sessions rt sid = Some e \<longrightarrow>
      (\<exists>rt'. runtime_message w (AbortSession sid) rt =
          Some ([AbortTask (se_inbox e), PublishState (se_inbox e) (SessionOver Aborted)], rt') \<and>
        rt_sessions rt' = (rt_sessions rt)(sid := None)) \<and>
      (\<forall>oc. \<exists>rt'. runtime_message w (SessionExited sid oc) rt =
          Some ([PublishState (se_inbox e) (SessionOver oc)], rt') \<and>
        rt_sessions rt' = (rt_sessions rt)(sid := None)))"
proof -
  have "runtime_ok (runtime_new config)" "trace_ok (runtime_new config) []"
    by (simp_all add: runtime_ok_def trace_ok_def runtime_new_def task_events_def)
  from runtime_run_ok [OF assms this] have ok: "runtime_ok rt" and "trace_ok rt out" by simp_all
  then have t: "\<forall>t < rt_next_task rt. if t \<in> live_tasks rt then live_events t (task_events t out)
      else over_events t (task_events t out)"
    unfolding trace_ok_def by (metis not_le)
  have life: "\<exists>spawn sends fin. task_events t out = spawn # map (InboxSend t) sends @ fin \<and>
      ((\<exists>cfg gate. spawn = SpawnSender t cfg gate) \<or> (\<exists>cfg. spawn = SpawnReceiver t cfg)) \<and>
      (if \<exists>sid e. rt_sessions rt sid = Some e \<and> se_inbox e = t then fin = [] else last_rites t fin)"
    if "t < rt_next_task rt" for t
  proof -
    have live: "t \<in> live_tasks rt \<longleftrightarrow> (\<exists>sid e. rt_sessions rt sid = Some e \<and> se_inbox e = t)"
      by (auto simp: live_tasks_def ran_def)
    show ?thesis
    proof (cases "t \<in> live_tasks rt")
      case True
      then have "live_events t (task_events t out)" using t that by simp
      then obtain spawn sends where "task_events t out = spawn # map (InboxSend t) sends"
        "(\<exists>cfg gate. spawn = SpawnSender t cfg gate) \<or> (\<exists>cfg. spawn = SpawnReceiver t cfg)"
        by (auto simp: live_events_def)
      then show ?thesis using True unfolding live by (intro exI [of _ spawn] exI [of _ sends] exI [of _ "[]"]) simp
    next
      case False
      then have "over_events t (task_events t out)" using t that by simp
      then obtain spawn sends fin where "task_events t out = (spawn # map (InboxSend t) sends) @ fin"
        "(\<exists>cfg gate. spawn = SpawnSender t cfg gate) \<or> (\<exists>cfg. spawn = SpawnReceiver t cfg)" "last_rites t fin"
        by (auto simp: over_events_def live_events_def)
      then show ?thesis using False unfolding live
        by (intro exI [of _ spawn] exI [of _ sends] exI [of _ fin]) auto
    qed
  qed
  have distinct: "\<forall>sid sid' e e'. rt_sessions rt sid = Some e \<longrightarrow> rt_sessions rt sid' = Some e' \<longrightarrow>
      se_inbox e = se_inbox e' \<longrightarrow> sid = sid'"
    using ok unfolding runtime_ok_def by (elim conjE)
  show ?thesis
    by (rule conjI [OF distinct], rule conjI, rule allI, rule impI, erule life)
      (intro allI impI conjI; erule ending_messages [OF ok])
qed

text \<open>A decoded control frame has the supported version.\<close>

lemma decode_control_version:
  assumes "decode_control bs = Some hc"
  shows "\<exists>raw. peek_header bs = Some raw \<and> rh_version raw = LOSSLESS_SESSION_VERSION"
proof -
  have "decode_from bs \<noteq> None" using assms by (auto simp: decode_control_def split: option.splits)
  then show ?thesis by (auto simp: decode_from_def split: option.splits if_splits)
qed

definition replay_round :: "CompletedReceiverReplay \<Rightarrow> u32" where
  "replay_round replay = (case replay of ReplayPlain r _ _ \<Rightarrow> r | ReplayFec r _ _ \<Rightarrow> r)"

definition replay_frame :: "SessionId \<Rightarrow> CompletedReceiverReplay \<Rightarrow> FrameRoute \<times> bytes" where
  "replay_frame sid replay = (case replay of
     ReplayPlain r route rep \<Rightarrow> (frame_route sid route None, control_frame sid (Need r rep))
   | ReplayFec r route rep \<Rightarrow> (frame_route sid route None, control_frame sid (Need r rep)))"

definition replay_ok :: "CompletedReceiverReplay \<Rightarrow> bool" where
  "replay_ok replay = (case replay of ReplayPlain _ _ rep \<Rightarrow> report_ok rep | ReplayFec _ _ rep \<Rightarrow> report_ok rep)"

lemma replay_completed_receiver_eq:
  assumes "rt_completed_receivers rt sid = Some replay" "replay_ok replay"
  shows "replay_completed_receiver rt sid f =
    Some (if \<exists>hdr. decode_control (if_bytes f) = Some (hdr, SourceDone (replay_round replay))
      then ([Submit (replay_frame sid replay)], True) else ([], False))"
  using assms
  by (cases replay)
    (auto simp: replay_completed_receiver_def replay_round_def replay_frame_def replay_ok_def
      send_control_eq split: option.splits LosslessSessionControl.splits)

text \<open>The runtime answers for a receiver that has gone: when no live task takes the frame,
  a \<open>SourceDone\<close> frame for exactly the registered round is answered with the registered
  report, and any other frame, or one of another version, with nothing; a live task gets the
  frame itself.  The runtime's own state does not change.\<close>

theorem runtime_delivery:
  assumes "rt_completed_receivers rt sid = Some replay" "replay_ok replay"
  shows "deliver_frame inbox_open sid f rt = Some
    (if \<exists>raw. peek_header (if_bytes f) = Some raw \<and> rh_version raw \<noteq> LOSSLESS_SESSION_VERSION then []
     else case rt_sessions rt sid of
        Some e \<Rightarrow> if inbox_open (se_inbox e) then [InboxSend (se_inbox e) f]
          else if \<exists>hdr. decode_control (if_bytes f) = Some (hdr, SourceDone (replay_round replay))
          then [Submit (replay_frame sid replay)] else []
      | None \<Rightarrow> if \<exists>hdr. decode_control (if_bytes f) = Some (hdr, SourceDone (replay_round replay))
          then [Submit (replay_frame sid replay)] else [], rt)"
proof (cases "\<exists>raw. peek_header (if_bytes f) = Some raw \<and> rh_version raw \<noteq> LOSSLESS_SESSION_VERSION")
  case True
  then show ?thesis by (auto simp: deliver_frame_def)
next
  case False
  then have "\<not> (case peek_header (if_bytes f) of
      Some header \<Rightarrow> rh_version header \<noteq> LOSSLESS_SESSION_VERSION | None \<Rightarrow> False)"
    by (auto split: option.splits)
  then show ?thesis
    using False replay_completed_receiver_eq [OF assms, of f]
    by (cases "rt_sessions rt sid") (auto simp: deliver_frame_def deliver_live_receiver_def)
qed

text \<open>C34. A late \<open>SourceDone\<close> gets the answer the receiver gave: when a receiver task has run
  to its end and registered its replay, and its exit has been handled, the runtime answers a
  \<open>SourceDone\<close> for the last answered round with the frame of that answer, over the receiver's
  route, and no other frame of the session.\<close>

theorem runtime_repeats_last_answer:
  assumes run: "receiver_run can_reserve solve wakes (session_receiver_new cfg) = Some (out, s, fin)"
    and replay: "register_completed_replay s = Some replay"
    and rt: "runtime_run [(w1, ReceiverCompleted sid replay), (w2, SessionExited sid Completed)] rt = Some (effs, rt')"
    and ver: "\<And>raw. peek_header (if_bytes f) = Some raw \<Longrightarrow> rh_version raw = LOSSLESS_SESSION_VERSION"
  shows "\<exists>r. last (needs out) = (r, NeedComplete) \<and>
    deliver_frame inbox_open sid f rt' = Some
      (if \<exists>hdr. decode_control (if_bytes f) = Some (hdr, SourceDone r)
       then [Submit (frame_route sid (rs_route (sr_shared s)) None, control_frame sid (Need r NeedComplete))]
       else [], rt')"
proof -
  have a: "sr_lifecycle (session_receiver_new cfg) \<noteq> SessionFinished" by (simp add: session_receiver_new_def)
  note lf = receiver_run_lifecycle [OF run lifecycle_ok_new a]
  then have wf: "mode_wf s" and ok: "lifecycle_ok s out" by (simp_all add: lifecycle_ok_def)
  have rep: "reported_complete s" using replay by (auto simp: register_completed_replay_def split: if_splits)
  obtain r where r: "mode_last s = Some (r, NeedComplete)" using reported_complete_last [OF wf] rep by blast
  have last: "last (needs out) = (r, NeedComplete)" using ok r by (auto simp: lifecycle_ok_def)
  have rp: "replay = ReplayPlain r (rs_route (sr_shared s)) NeedComplete \<or>
      replay = ReplayFec r (rs_route (sr_shared s)) NeedComplete"
    using replay rep r
    by (auto simp: register_completed_replay_def completed_replay_def mode_last_def
        plain_last_Some fec_last_Some split: option.splits ReceiverMode.splits)
  have rt': "rt_completed_receivers rt' sid = Some replay" "rt_sessions rt' sid = None"
    using rt by (auto simp: runtime_message_def finish_session_def Let_def)
  have replays: "replay_completed_receiver rt' sid f =
    Some (if \<exists>hdr. decode_control (if_bytes f) = Some (hdr, SourceDone r)
      then ([Submit (frame_route sid (rs_route (sr_shared s)) None, control_frame sid (Need r NeedComplete))], True)
      else ([], False))"
    using replay_completed_receiver_eq [OF rt'(1), of f] rp
    by (auto simp: replay_ok_def replay_round_def replay_frame_def)
  have "\<not> (case peek_header (if_bytes f) of
      Some header \<Rightarrow> rh_version header \<noteq> LOSSLESS_SESSION_VERSION | None \<Rightarrow> False)"
    using ver by (auto split: option.splits)
  then have "deliver_frame inbox_open sid f rt' = Some
      (if \<exists>hdr. decode_control (if_bytes f) = Some (hdr, SourceDone r)
       then [Submit (frame_route sid (rs_route (sr_shared s)) None, control_frame sid (Need r NeedComplete))]
       else [], rt')"
    using replays rt'(2) by (simp add: deliver_frame_def deliver_live_receiver_def)
  then show ?thesis using last by blast
qed

text \<open>A session is started at most once at a time: while it is live, a request to start it
  again, as a sender or a receiver, is answered with \<open>SessionAlreadyActive\<close> and changes
  nothing; and after it has exited or been aborted the id can be used again.\<close>

theorem runtime_start_exclusive:
  "(rt_sessions rt sid \<noteq> None \<longrightarrow>
      (\<forall>req. sq_session_id req = sid \<longrightarrow> runtime_message w (StartSender req) rt =
        Some ([ReplyError (SessionAlreadyActive sid)], rt)) \<and>
      (\<forall>req. rq_session_id req = sid \<longrightarrow> runtime_message w (StartReceiver req) rt =
        Some ([ReplyError (SessionAlreadyActive sid)], rt))) \<and>
   (\<forall>oc out rt'. runtime_message w (SessionExited sid oc) rt = Some (out, rt') \<or>
        runtime_message w (AbortSession sid) rt = Some (out, rt') \<longrightarrow>
      rt_sessions rt' sid = None \<and>
      (\<forall>req. rq_session_id req = sid \<longrightarrow> (\<exists>cfg rt''. runtime_message w (StartReceiver req) rt' =
        Some ([SpawnReceiver (rt_next_task rt') cfg, ReplyHandle sid (rt_next_task rt')], rt''))))"
  by (auto simp: runtime_message_def start_sender_session_def start_receiver_session_def
      finish_session_def abort_session_def Let_def forget_replay_def split: if_splits)

text \<open>C35. The exit message of a task names only its session, so the exit of an aborted task
  ends a session that was started again under the same id in between: the new task is told
  Aborted, loses its inbox, and frames for it are dropped, while it is still running.\<close>

theorem stale_exit_ends_new_session:
  assumes "rt_sessions rt sid = Some old" "rq_session_id req = sid"
    and "runtime_run [(w1, AbortSession sid), (w2, StartReceiver req), (w3, SessionExited sid Aborted)] rt =
      Some (effs, rt')"
  shows "rt_sessions rt' sid = None \<and>
    (\<exists>cfg. SpawnReceiver (rt_next_task rt) cfg \<in> set effs) \<and>
    last effs = PublishState (rt_next_task rt) (SessionOver Aborted) \<and>
    (\<forall>inbox_open f. deliver_frame inbox_open sid f rt' = Some ([], rt'))"
proof -
  have "rt_sessions rt' sid = None" "rt_completed_receivers rt' sid = None"
    "\<exists>cfg. SpawnReceiver (rt_next_task rt) cfg \<in> set effs"
    "last effs = PublishState (rt_next_task rt) (SessionOver Aborted)"
    using assms
    by (auto simp: runtime_message_def abort_session_def start_receiver_session_def finish_session_def
        insert_session_def forget_replay_def Let_def)
  then show ?thesis
    by (simp add: deliver_frame_def deliver_live_receiver_def replay_completed_receiver_def)
qed

section \<open>Examples\<close>

definition rt_world :: RuntimeWorld where
  "rt_world = \<lparr>rw_ingress = (\<lambda>_ _. TreeVisibleNonBlocking), rw_inbox_open = (\<lambda>_. True)\<rparr>"

definition rt_request :: ReceiverRequest where
  "rt_request = \<lparr>rq_session_id = 9, rq_route = \<lparr>tr_src_ip = 1, tr_dst_ip = 2, tr_src_port = 3, tr_dst_port = 4\<rparr>,
     rq_local_node_id = 5, rq_sink_buffer = None, rq_progress = None\<rparr>"

definition rt_frame :: InboundFrame where "rt_frame = \<lparr>if_bytes = [], if_peer_id = None\<rparr>"

definition rt_started :: LosslessRuntime where
  "rt_started = insert_session 9 (forget_replay 9 (runtime_new demo_config))"

lemma rt_start: "runtime_message w (StartReceiver rt_request) (runtime_new demo_config) =
    Some (fst (start_receiver_session rt_request (runtime_new demo_config)), rt_started)"
  by (simp add: runtime_message_def start_receiver_session_def rt_request_def rt_started_def runtime_new_def Let_def)

lemma rt_started_simps: "rt_sessions rt_started 9 = Some \<lparr>se_inbox = 0, se_state_sender = 0, se_abort_handle = 0\<rparr>"
    "rt_next_task rt_started = 1"
  by (simp_all add: rt_started_def insert_session_def runtime_new_def Let_def)

lemma runtime_task_life_witness:
  "\<exists>out rt spawn sends fin. runtime_run [(rt_world, StartReceiver rt_request), (rt_world, Deliver 9 rt_frame),
       (rt_world, SessionExited 9 Completed)] (runtime_new demo_config) = Some (out, rt) \<and>
     task_events 0 out = spawn # map (InboxSend 0) sends @ fin \<and> last_rites 0 fin"
proof -
  let ?msgs = "[(rt_world, StartReceiver rt_request), (rt_world, Deliver 9 rt_frame), (rt_world, SessionExited 9 Completed)]"
  have "\<exists>out. runtime_message rt_world (Deliver 9 rt_frame) rt_started = Some (out, rt_started)"
    by (simp add: runtime_message_def deliver_frame_def rt_frame_def peek_header_def deliver_live_receiver_def
        rt_started_simps rt_world_def)
  then have "\<exists>out rt. runtime_run ?msgs (runtime_new demo_config) = Some (out, rt) \<and>
      rt_sessions rt = (rt_sessions rt_started)(9 := None) \<and> rt_next_task rt = 1"
    by (auto simp: rt_start runtime_message_def [of _ "SessionExited _ _"] finish_session_def Let_def rt_started_simps)
  then obtain out rt where run: "runtime_run ?msgs (runtime_new demo_config) = Some (out, rt)"
    and s: "rt_sessions rt = (rt_sessions rt_started)(9 := None)" and n: "0 < rt_next_task rt" by auto
  have "\<not> (\<exists>sid e. rt_sessions rt sid = Some e \<and> se_inbox e = 0)"
    by (auto simp: s rt_started_def insert_session_def runtime_new_def Let_def)
  then obtain spawn sends fin where "task_events 0 out = spawn # map (InboxSend 0) sends @ fin" "last_rites 0 fin"
    using runtime_task_life [OF run] n by metis

  then show ?thesis using run by blast
qed

definition rt_replaying :: LosslessRuntime where
  "rt_replaying = (runtime_new demo_config)\<lparr>rt_completed_receivers := [9 \<mapsto> ReplayPlain 3
     \<lparr>tr_src_ip = 1, tr_dst_ip = 2, tr_src_port = 3, tr_dst_port = 4\<rparr> NeedComplete]\<rparr>"

lemma runtime_delivery_witness:
  "deliver_frame (\<lambda>_. True) 9 \<lparr>if_bytes = control_frame 9 (SourceDone 3), if_peer_id = None\<rparr> rt_replaying =
     Some ([Submit (frame_route 9 \<lparr>tr_src_ip = 1, tr_dst_ip = 2, tr_src_port = 3, tr_dst_port = 4\<rparr> None,
       control_frame 9 (Need 3 NeedComplete))], rt_replaying)"
proof -
  let ?f = "\<lparr>if_bytes = control_frame 9 (SourceDone 3), if_peer_id = None\<rparr>"
  have dec: "\<exists>hdr. decode_control (control_frame 9 (SourceDone 3)) = Some (hdr, SourceDone 3)"
    by (simp add: decode_control_frame)
  have ver: "\<not> (\<exists>raw. peek_header (control_frame 9 (SourceDone 3)) = Some raw \<and>
      rh_version raw \<noteq> LOSSLESS_SESSION_VERSION)"
    using decode_control_version dec by fastforce
  show ?thesis
    using runtime_delivery [of rt_replaying 9 "ReplayPlain 3
        \<lparr>tr_src_ip = 1, tr_dst_ip = 2, tr_src_port = 3, tr_dst_port = 4\<rparr> NeedComplete" "\<lambda>_. True" ?f]
      dec ver
    by (simp add: rt_replaying_def runtime_new_def replay_ok_def replay_round_def replay_frame_def)
qed

lemma runtime_start_exclusive_witness:
  "runtime_message rt_world (StartReceiver rt_request) rt_started =
     Some ([ReplyError (SessionAlreadyActive 9)], rt_started)"
  using runtime_start_exclusive [of rt_started 9 rt_world]
  by (simp add: rt_started_simps rt_request_def)

lemma stale_exit_ends_new_session_witness:
  "\<exists>effs rt. runtime_run [(rt_world, AbortSession 9), (rt_world, StartReceiver rt_request),
       (rt_world, SessionExited 9 Aborted)] rt_started = Some (effs, rt) \<and>
     rt_sessions rt 9 = None \<and> last effs = PublishState 1 (SessionOver Aborted)"
proof -
  obtain effs rt where "runtime_run [(rt_world, AbortSession 9), (rt_world, StartReceiver rt_request),
       (rt_world, SessionExited 9 Aborted)] rt_started = Some (effs, rt)"
    by (simp add: runtime_message_def case_prod_unfold)
  then show ?thesis
    using stale_exit_ends_new_session [OF rt_started_simps(1), of rt_request] rt_started_simps(2)
    by (auto simp: rt_request_def)
qed

text \<open>A receiver of an empty object is complete at once.\<close>

definition empty_manifest :: LosslessSessionManifest where
  "empty_manifest = \<lparr>mf_block_size = 4, mf_total_bytes = 0, mf_total_blocks = 0, mf_mode = ModePlain\<rparr>"

lemma empty_run:
  "\<exists>out s. receiver_run (\<lambda>_. True) plain_solve
     [control_wake (Manifest empty_manifest), control_wake (SourceDone 0), TimerFired]
     (session_receiver_new run_config) = Some (out, s, True) \<and> register_completed_replay s \<noteq> None"
proof -
  have ok: "control_ok (Manifest empty_manifest)"
    by (simp add: empty_manifest_def manifest_ok_def nat_div_ceil_def)
  obtain hdr where m: "decode_control (control_frame 9 (Manifest empty_manifest)) = Some (hdr, Manifest empty_manifest)"
    using decode_control_frame [OF ok, of 9] by simp
  obtain hdr' where d: "decode_control (control_frame 9 (SourceDone 0)) = Some (hdr', SourceDone 0)"
    using decode_control_frame [of "SourceDone 0" 9] by simp
  have f: "mf_mode empty_manifest = ModePlain" "mf_total_bytes empty_manifest = 0" "mf_block_size empty_manifest = 4"
    by (simp_all add: empty_manifest_def)
  show ?thesis
    by (simp add: receiver_turn_def receiver_frame_def control_wake_def m d handle_control_frame_def
        install_manifest_def f session_receiver_new_def run_config_def mode_new_def
        block_plan_new_def word_div_ceil_def ensure_sink_buffer_len_def send_ready_def receiver_route_def
        send_control_eq mode_source_done_def plain_handle_source_done_def plain_receiver_default_def
        plain_need_def send_need_def reported_complete_def enter_passive_complete_def mark_object_complete_def
        finish_receiver_def register_completed_replay_def completed_replay_def Let_def)
qed

lemma runtime_repeats_last_answer_witness:
  "\<exists>out s fin replay effs rt r. receiver_run (\<lambda>_. True) plain_solve
     [control_wake (Manifest empty_manifest), control_wake (SourceDone 0), TimerFired]
     (session_receiver_new run_config) = Some (out, s, fin) \<and>
     register_completed_replay s = Some replay \<and>
     runtime_run [(rt_world, ReceiverCompleted 9 replay), (rt_world, SessionExited 9 Completed)] rt_started =
       Some (effs, rt) \<and> last (needs out) = (r, NeedComplete) \<and>
     deliver_frame (\<lambda>_. True) 9 \<lparr>if_bytes = control_frame 9 (SourceDone r), if_peer_id = None\<rparr> rt =
       Some ([Submit (frame_route 9 (rs_route (sr_shared s)) None, control_frame 9 (Need r NeedComplete))], rt)"
proof -
  obtain out s fin replay where run: "receiver_run (\<lambda>_. True) plain_solve
     [control_wake (Manifest empty_manifest), control_wake (SourceDone 0), TimerFired]
     (session_receiver_new run_config) = Some (out, s, fin)" "register_completed_replay s = Some replay"
    using empty_run by auto
  obtain effs rt where rt: "runtime_run [(rt_world, ReceiverCompleted 9 replay), (rt_world, SessionExited 9 Completed)]
      rt_started = Some (effs, rt)"
    by (simp add: runtime_message_def case_prod_unfold)
  have dec: "\<exists>hdr. decode_control (control_frame 9 (SourceDone q)) = Some (hdr, SourceDone q)" for q
    by (simp add: decode_control_frame)
  have ver: "rh_version raw = LOSSLESS_SESSION_VERSION"
    if "peek_header (if_bytes \<lparr>if_bytes = control_frame 9 (SourceDone q), if_peer_id = None\<rparr>) = Some raw" for raw q
    using that dec [of q] decode_control_version by fastforce
  obtain r where last: "last (needs out) = (r, NeedComplete)"
    using runtime_repeats_last_answer [OF run rt, of rt_frame] by (auto simp: rt_frame_def peek_header_def)
  let ?f = "\<lparr>if_bytes = control_frame 9 (SourceDone r), if_peer_id = None\<rparr>"
  from runtime_repeats_last_answer [OF run rt ver [of r], where inbox_open = "\<lambda>_. True" and f = ?f] last dec [of r]
  have "deliver_frame (\<lambda>_. True) 9 \<lparr>if_bytes = control_frame 9 (SourceDone r), if_peer_id = None\<rparr> rt =
       Some ([Submit (frame_route 9 (rs_route (sr_shared s)) None, control_frame 9 (Need r NeedComplete))], rt)"
    by auto
  then show ?thesis using run rt last by blast
qed

end
