(* ===== verification/Plain_Sender.thy ===== *)
theory Plain_Sender
  imports Sender_Shared "HOL-Library.AList"
begin

text \<open>
  The plain-mode sender (\<open>src/dataplane/src/node/session/sender/plain.rs\<close>): the
  initial sweep over all blocks, the feedback rounds with their early retransmissions, and the
  close of a round.  \<open>plain_turn\<close> is one iteration of the loop of \<open>run\<close>, from
  its test to its \<open>continue\<close>, \<open>break\<close> or \<open>return\<close>.  The report map is an association
  list with distinct keys; the block sets are sets of 64-bit words.
\<close>

record PlainSender =
  ps_source_blocks :: "u64 list"
  ps_source_cursor :: nat
  ps_feedback_open_round_id :: u32
  ps_current_burst_id :: u32
  ps_feedback_round_open :: bool
  ps_round_reports :: "(usize \<times> NeedReport) list"
  ps_required_blocks :: "u64 set"
  ps_emitted_blocks :: "u64 set"
  ps_queued_retransmit_blocks :: "u64 set"
  ps_next_burst_nonempty :: bool
  ps_protocol_error :: bool
  ps_complete :: bool
  ps_initialized :: bool

definition plain_sender_default :: PlainSender where
  "plain_sender_default =
     \<lparr>ps_source_blocks = [], ps_source_cursor = 0, ps_feedback_open_round_id = 0,
      ps_current_burst_id = 0, ps_feedback_round_open = False, ps_round_reports = [],
      ps_required_blocks = {}, ps_emitted_blocks = {}, ps_queued_retransmit_blocks = {},
      ps_next_burst_nonempty = False, ps_protocol_error = False, ps_complete = False,
      ps_initialized = False\<rparr>"

definition missing_block_ids :: "MissingBlockRange list \<Rightarrow> u64 list" where
  "missing_block_ids ranges =
     concat (map (\<lambda>r. map word_of_nat [unat (start_block_id r) ..< unat (end_block_id r)]) ranges)"

section \<open>Feedback\<close>

definition require_block :: "u64 \<Rightarrow> PlainSender \<times> bool \<Rightarrow> PlainSender \<times> bool" where
  "require_block block_id = (\<lambda>(m, useful).
     if block_id \<in> ps_required_blocks m then (m, useful)
     else
       let m = m\<lparr>ps_required_blocks := insert block_id (ps_required_blocks m)\<rparr>
       in (if block_id \<notin> ps_emitted_blocks m then
             m\<lparr>ps_queued_retransmit_blocks := insert block_id (ps_queued_retransmit_blocks m)\<rparr>
           else m, True))"

definition plain_on_need :: "PlainSender on_need" where
  "plain_on_need sh peer_id round_id report m =
     (if \<not> ps_feedback_round_open m then (sh, m)
      else if round_id \<noteq> ps_feedback_open_round_id m then (sh, m)
      else case map_of (ps_round_reports m) peer_id of
          Some existing \<Rightarrow>
            (sh, if existing \<noteq> report then m\<lparr>ps_protocol_error := True\<rparr> else m)
        | None \<Rightarrow>
            let m = m\<lparr>ps_round_reports := AList.update peer_id report (ps_round_reports m)\<rparr> in
            (case report of
               NeedComplete \<Rightarrow> (sh, m)
             | NeedPlain ranges \<Rightarrow>
                 let (m, useful) = fold require_block (missing_block_ids ranges) (m, False)
                 in (sh, if useful then
                       m\<lparr>ps_current_burst_id := saturating_add_1 (ps_feedback_open_round_id m),
                         ps_next_burst_nonempty := True\<rparr>
                     else m)
             | NeedFec _ \<Rightarrow> (sh, m\<lparr>ps_protocol_error := True\<rparr>)))"

definition plain_pending_feedback_peers :: "SenderShared \<Rightarrow> PlainSender \<Rightarrow> usize set" where
  "plain_pending_feedback_peers sh m =
     {p \<in> q_active (ss_quorum sh). map_of (ps_round_reports m) p = None}"

section \<open>The send loop\<close>

definition ensure_initial_round :: "SenderShared \<Rightarrow> PlainSender \<Rightarrow> PlainSender" where
  "ensure_initial_round sh m =
     (if ps_initialized m then m
      else m\<lparr>ps_source_blocks := map word_of_nat [0 ..< unat (bp_total_blocks (ss_plan sh))],
             ps_initialized := True\<rparr>)"

definition next_source_block :: "PlainSender \<Rightarrow> (u64 \<times> PlainSender) option" where
  "next_source_block m =
     (if ps_source_cursor m \<ge> length (ps_source_blocks m) then None
      else Some (ps_source_blocks m ! ps_source_cursor m,
        m\<lparr>ps_source_cursor := ps_source_cursor m + 1\<rparr>))"

definition next_retransmit_block :: "PlainSender \<Rightarrow> (u64 \<times> PlainSender) option" where
  "next_retransmit_block m =
     (if ps_queued_retransmit_blocks m = {} then None
      else let b = Min (ps_queued_retransmit_blocks m)
        in Some (b, m\<lparr>ps_queued_retransmit_blocks := ps_queued_retransmit_blocks m - {b}\<rparr>))"

definition round_can_close :: "SenderShared \<Rightarrow> PlainSender \<Rightarrow> bool" where
  "round_can_close sh m \<longleftrightarrow>
     length (ps_round_reports m) = card (q_active (ss_quorum sh)) \<and>
     ps_required_blocks m \<subseteq> ps_emitted_blocks m"

definition advance_round :: "SenderShared \<times> PlainSender \<Rightarrow> SenderShared \<times> PlainSender" where
  "advance_round = (\<lambda>(sh, m).
     let round = saturating_add_1 (ps_feedback_open_round_id m) in
     (clear_quorum_feedback_wait sh,
      m\<lparr>ps_feedback_open_round_id := round, ps_current_burst_id := round,
        ps_feedback_round_open := False, ps_round_reports := [], ps_required_blocks := {},
        ps_emitted_blocks := {}, ps_queued_retransmit_blocks := {},
        ps_next_burst_nonempty := False\<rparr>))"

definition send_block :: "SenderShared \<Rightarrow> u64 \<Rightarrow> (outputs \<times> SenderShared) may_panic" where
  "send_block sh block_id =
     (case block_span (ss_plan sh) block_id of
        None \<Rightarrow> Some ([], sh)
      | Some span \<Rightarrow>
          let payload = block_payload (ss_source sh) span in
          map_option (\<lambda>frame. (send_frame (sender_route sh None) frame, mark_payload_emitted sh))
            (encode_block_data (ss_session_id sh) block_id payload))"

definition send_source_block ::
    "SenderShared \<times> PlainSender \<Rightarrow> u64 \<Rightarrow> (outputs \<times> (SenderShared \<times> PlainSender)) may_panic" where
  "send_source_block st block_id =
     map_option (\<lambda>(out, sh). (out, (sh, snd st))) (send_block (fst st) block_id)"

definition send_retransmit_block ::
    "SenderShared \<times> PlainSender \<Rightarrow> u64 \<Rightarrow> (outputs \<times> (SenderShared \<times> PlainSender)) may_panic" where
  "send_retransmit_block st block_id =
     map_option (\<lambda>(out, sh). (out, (sh, (snd st)\<lparr>ps_emitted_blocks :=
         insert block_id (ps_emitted_blocks (snd st))\<rparr>)))
       (send_block (fst st) block_id)"

text \<open>What one iteration observes: the frames it drains, the clock, and the event (with the
  clock then) that ends its wait, if it waits.\<close>

record TurnInput =
  ti_drained :: "InboundFrame list"
  ti_now :: nat
  ti_wake :: Wake
  ti_wake_now :: nat

datatype 'm Turn =
    TurnContinue "SenderShared \<times> 'm"
  | TurnFinished SessionOutcome "SenderShared \<times> 'm"

definition plain_wait :: "TurnInput \<Rightarrow> SenderShared \<times> PlainSender \<Rightarrow>
    (outputs \<times> PlainSender Turn) may_panic" where
  "plain_wait inp st =
     map_option (\<lambda>(out, outcome, st').
         (out, if outcome = WaitTimedOut \<or> outcome = WaitClosed then TurnFinished Aborted st'
               else if ps_protocol_error (snd st') then TurnFinished Aborted st'
               else TurnContinue st'))
       (wait_for_quorum_feedback plain_on_need (ps_feedback_open_round_id (snd st))
          (ti_wake inp) (ti_wake_now inp) st)"

text \<open>The part of the iteration after the payload work: \<open>SourceDone\<close>, the close of the
  round, the wait.\<close>

definition plain_feedback :: "TurnInput \<Rightarrow> SenderShared \<times> PlainSender \<Rightarrow>
    (outputs \<times> PlainSender Turn) may_panic" where
  "plain_feedback inp = (\<lambda>(sh, m).
     if \<not> ps_feedback_round_open m then
       map_option (\<lambda>out.
           let m' = m\<lparr>ps_feedback_round_open := True\<rparr> in
           (out, if active_quorum_is_empty sh then
               TurnFinished Completed (sh, m'\<lparr>ps_complete := True\<rparr>)
             else TurnContinue (start_quorum_feedback_wait (ti_now inp) sh, m')))
         (send_source_done sh (ps_feedback_open_round_id m))
     else if round_can_close sh m then
       if list_all (\<lambda>(_, report). report = NeedComplete) (ps_round_reports m) then
         Some ([], TurnFinished Completed
           (clear_quorum_feedback_wait sh, m\<lparr>ps_complete := True\<rparr>))
       else if ps_next_burst_nonempty m then Some ([], TurnContinue (advance_round (sh, m)))
       else plain_wait inp (sh, m)
     else plain_wait inp (sh, m))"

definition plain_turn :: "TurnInput \<Rightarrow> SenderShared \<times> PlainSender \<Rightarrow>
    (outputs \<times> PlainSender Turn) may_panic" where
  "plain_turn inp st =
     (if ps_complete (snd st) then Some ([], TurnFinished Completed st)
      else
        let st = drain_controls plain_on_need (ti_drained inp) st; sh = fst st; m = snd st in
        if ps_protocol_error m then Some ([], TurnFinished Aborted st)
        else if ps_complete m then Some ([], TurnFinished Completed st)
        else case next_source_block m of
          Some (block_id, m') \<Rightarrow>
            map_option (\<lambda>(out, st'). (out, TurnContinue st')) (send_source_block (sh, m') block_id)
        | None \<Rightarrow>
            (case next_retransmit_block m of
               Some (block_id, m') \<Rightarrow>
                 map_option (\<lambda>(out, st'). (out, TurnContinue st'))
                   (send_retransmit_block (sh, m') block_id)
             | None \<Rightarrow> plain_feedback inp (sh, m)))"

text \<open>The whole loop over the inputs of its iterations; a list that ends leaves it running.\<close>

fun plain_loop :: "TurnInput list \<Rightarrow> SenderShared \<times> PlainSender \<Rightarrow>
    (outputs \<times> PlainSender Turn) may_panic" where
  "plain_loop [] st = Some ([], TurnContinue st)"
| "plain_loop (inp # inps) st =
     (case plain_turn inp st of
        None \<Rightarrow> None
      | Some (out, TurnContinue st') \<Rightarrow>
          map_option (\<lambda>(out', r). (out @ out', r)) (plain_loop inps st')
      | Some (out, TurnFinished oc st') \<Rightarrow> Some (out, TurnFinished oc st'))"

definition plain_run :: "TurnInput list \<Rightarrow> SenderShared \<times> PlainSender \<Rightarrow>
    (outputs \<times> PlainSender Turn) may_panic" where
  "plain_run inps st = plain_loop inps (fst st, ensure_initial_round (fst st) (snd st))"

section \<open>Feedback as set algebra\<close>

lemma set_missing_block_ids: "set (missing_block_ids rs) = word_of_nat ` missing_blocks rs"
  by (auto simp: missing_block_ids_def missing_blocks_def block_range_def image_iff)

lemma missing_block_ids_nonempty:
  assumes "ranges_canonical rs" "rs \<noteq> []"
  shows "set (missing_block_ids rs) \<noteq> {}"
proof -
  from assms(2) obtain r rest where rs: "rs = r # rest" by (cases rs) auto
  then have "unat (start_block_id r) \<in> block_range r"
    using assms(1) by (simp add: ranges_canonical_Cons block_range_def word_less_nat_alt)
  then show ?thesis by (auto simp: set_missing_block_ids rs)
qed

lemma require_block_step:
  "require_block b (m, u) =
     (m\<lparr>ps_required_blocks := insert b (ps_required_blocks m),
        ps_queued_retransmit_blocks := ps_queued_retransmit_blocks m \<union>
          ({b} - ps_required_blocks m - ps_emitted_blocks m)\<rparr>,
      u \<or> b \<notin> ps_required_blocks m)"
  unfolding require_block_def Let_def prod.case
  by (intro prod_eqI PlainSender.equality) auto

lemma fold_require_block:
  "fold require_block ids (m, u) =
     (m\<lparr>ps_required_blocks := ps_required_blocks m \<union> set ids,
        ps_queued_retransmit_blocks := ps_queued_retransmit_blocks m \<union>
          (set ids - ps_required_blocks m - ps_emitted_blocks m)\<rparr>,
      u \<or> \<not> set ids \<subseteq> ps_required_blocks m)"
proof (induction ids arbitrary: m u)
  case (Cons b ids)
  show ?case
    unfolding fold.simps comp_apply require_block_step Cons.IH
    by (intro prod_eqI PlainSender.equality) auto
qed simp

section \<open>The invariant of a feedback round\<close>

text \<open>The blocks the reports of the round ask for.\<close>

definition wanted :: "(usize \<times> NeedReport) list \<Rightarrow> u64 set" where
  "wanted reports = (\<Union>(p, r)\<in>set reports. case r of
     NeedPlain rs \<Rightarrow> set (missing_block_ids rs) | _ \<Rightarrow> {})"

definition plain_report :: "NeedReport \<Rightarrow> bool" where
  "plain_report r \<longleftrightarrow> (case r of
     NeedComplete \<Rightarrow> True | NeedPlain rs \<Rightarrow> rs \<noteq> [] \<and> ranges_canonical rs | NeedFec _ \<Rightarrow> False)"

definition plain_inv :: "(usize \<Rightarrow> u32 \<Rightarrow> NeedReport \<Rightarrow> bool) \<Rightarrow> SenderShared \<Rightarrow> PlainSender \<Rightarrow> bool" where
  "plain_inv ok sh m \<longleftrightarrow>
     distinct (map fst (ps_round_reports m)) \<and>
     fst ` set (ps_round_reports m) \<subseteq> q_active (ss_quorum sh) \<and>
     (\<forall>(p, r)\<in>set (ps_round_reports m). ok p (ps_feedback_open_round_id m) r) \<and>
     (\<forall>(p, r)\<in>set (ps_round_reports m). plain_report r \<or> ps_protocol_error m) \<and>
     ps_required_blocks m = wanted (ps_round_reports m) \<and>
     ps_emitted_blocks m \<union> ps_queued_retransmit_blocks m = wanted (ps_round_reports m) \<and>
     (ps_next_burst_nonempty m \<longleftrightarrow> ps_required_blocks m \<noteq> {}) \<and>
     (\<not> ps_feedback_round_open m \<longrightarrow> ps_round_reports m = []) \<and> \<not> ps_complete m"

lemma wanted_Nil [simp]: "wanted [] = {}"
  by (simp add: wanted_def)

lemma update_fresh:
  "map_of rs p = None \<Longrightarrow> AList.update p r rs = rs @ [(p, r)]"
  by (induction rs) (auto split: if_splits)

lemma wanted_snoc:
  "wanted (rs @ [(p, r)]) = wanted rs \<union> (case r of NeedPlain xs \<Rightarrow> set (missing_block_ids xs) | _ \<Rightarrow> {})"
  by (auto simp: wanted_def)

lemma plain_on_need_shared: "fst (plain_on_need sh p r rep m) = sh"
  by (auto simp: plain_on_need_def Let_def split: option.splits NeedReport.splits prod.splits)

lemma canonical_plain_report:
  "canonical_report rep = rep \<Longrightarrow> report_ok rep \<Longrightarrow> (\<forall>bs. rep \<noteq> NeedFec bs) \<Longrightarrow> plain_report rep"
  by (cases rep) (auto simp: plain_report_def)

lemma plain_inv_on_need:
  assumes "plain_inv ok sh m" "p \<in> q_active (ss_quorum sh)"
    and "validate_need_report (ss_manifest sh) rep = Inr ()" "canonical_report rep = rep" "ok p r rep"
  shows "plain_inv ok sh (snd (plain_on_need sh p r rep m))"
proof -
  consider "\<not> ps_feedback_round_open m \<or> r \<noteq> ps_feedback_open_round_id m"
    | existing where "ps_feedback_round_open m" "r = ps_feedback_open_round_id m"
      "map_of (ps_round_reports m) p = Some existing"
    | "ps_feedback_round_open m" "r = ps_feedback_open_round_id m"
      "map_of (ps_round_reports m) p = None"
    by (cases "map_of (ps_round_reports m) p") auto
  then show ?thesis
  proof cases
    case 1
    then show ?thesis using assms(1) by (auto simp: plain_on_need_def)
  next
    case 2
    then show ?thesis using assms(1) by (auto simp: plain_on_need_def plain_inv_def)
  next
    case 3
    have fresh: "p \<notin> fst ` set (ps_round_reports m)" using 3(3) by (simp add: map_of_eq_None_iff)
    have ok: "report_ok rep" using assms(3) by (simp add: validate_need_report_iff)
    show ?thesis
    proof (cases rep)
      case NeedComplete
      then show ?thesis
        using assms 3 fresh
        by (auto simp: plain_on_need_def plain_inv_def update_fresh wanted_snoc plain_report_def)
    next
      case (NeedFec bs)
      then show ?thesis
        using assms 3 fresh
        by (auto simp: plain_on_need_def plain_inv_def update_fresh wanted_snoc)
    next
      case (NeedPlain rs)
      then have "plain_report rep" using canonical_plain_report [OF assms(4) ok] by simp
      moreover have "set (missing_block_ids rs) \<noteq> {}"
        using \<open>plain_report rep\<close> NeedPlain missing_block_ids_nonempty by (simp add: plain_report_def)
      moreover define m' where "m' = snd (plain_on_need sh p r rep m)"
      let ?W = "set (missing_block_ids rs)"
      have f: "ps_round_reports m' = ps_round_reports m @ [(p, rep)]"
        "ps_required_blocks m' = ps_required_blocks m \<union> ?W"
        "ps_emitted_blocks m' = ps_emitted_blocks m"
        "ps_queued_retransmit_blocks m' =
          ps_queued_retransmit_blocks m \<union> (?W - ps_required_blocks m - ps_emitted_blocks m)"
        "ps_feedback_open_round_id m' = ps_feedback_open_round_id m"
        "ps_feedback_round_open m' = ps_feedback_round_open m"
        "ps_protocol_error m' = ps_protocol_error m" "ps_complete m' = ps_complete m"
        "ps_next_burst_nonempty m' \<longleftrightarrow>
          ps_next_burst_nonempty m \<or> \<not> ?W \<subseteq> ps_required_blocks m"
        using 3 NeedPlain
        by (simp_all add: m'_def plain_on_need_def update_fresh fold_require_block Let_def)
      have inv: "ps_required_blocks m = wanted (ps_round_reports m)"
        "ps_emitted_blocks m \<union> ps_queued_retransmit_blocks m = wanted (ps_round_reports m)"
        "ps_next_burst_nonempty m \<longleftrightarrow> ps_required_blocks m \<noteq> {}"
        using assms(1) unfolding plain_inv_def by blast+
      have "ps_required_blocks m' = wanted (ps_round_reports m')"
        using inv(1) NeedPlain by (simp add: f wanted_snoc)
      moreover have "ps_emitted_blocks m' \<union> ps_queued_retransmit_blocks m' = wanted (ps_round_reports m')"
        using inv NeedPlain by (auto simp: f wanted_snoc)
      moreover have "ps_next_burst_nonempty m' \<longleftrightarrow> ps_required_blocks m' \<noteq> {}"
        using inv(3) \<open>?W \<noteq> {}\<close> by (auto simp: f)
      moreover have "distinct (map fst (ps_round_reports m'))"
        "fst ` set (ps_round_reports m') \<subseteq> q_active (ss_quorum sh)"
        "\<forall>(p, r)\<in>set (ps_round_reports m'). ok p (ps_feedback_open_round_id m') r"
        using assms(1,2,5) 3 fresh by (auto simp: f plain_inv_def)
      moreover have "\<forall>(p, r)\<in>set (ps_round_reports m'). plain_report r \<or> ps_protocol_error m'"
        using assms(1) \<open>plain_report rep\<close> by (auto simp: f plain_inv_def)
      ultimately have "plain_inv ok sh m'"
        using 3(1) assms(1) by (simp add: plain_inv_def f(6,8))
      then show ?thesis by (simp add: m'_def)
    qed
  qed
qed

interpretation plain_hooks: mode_hooks plain_on_need ok "plain_inv ok"
  for ok :: "usize \<Rightarrow> u32 \<Rightarrow> NeedReport \<Rightarrow> bool"
proof
  show "\<exists>l. fst (plain_on_need sh p r rep m) = sh\<lparr>ss_liveness := l\<rparr>" for sh p r rep m
    by (rule exI [of _ "ss_liveness sh"]) (simp add: plain_on_need_shared)
  show "plain_inv ok (sh\<lparr>ss_liveness := l\<rparr>) m \<longleftrightarrow> plain_inv ok sh m" for sh l m
    by (simp add: plain_inv_def)
  show "plain_inv ok (sh\<lparr>ss_quorum := record_ready p (ss_quorum sh)\<rparr>) m \<and>
      plain_inv ok (sh\<lparr>ss_quorum := freeze (ss_quorum sh)\<rparr>) m"
    if "plain_inv ok sh m" "\<not> q_frozen (ss_quorum sh)" for sh m p
    using that by (auto simp: plain_inv_def record_ready_def)
qed (rule plain_inv_on_need)

section \<open>One iteration of the loop\<close>

text \<open>The frames the loop of a plain sender may emit: \<open>SourceDone\<close>, and blocks of its
  own plan with the payload the source has for them.\<close>

definition own_block_frame :: "SenderShared \<Rightarrow> u64 \<Rightarrow> bytes \<Rightarrow> bool" where
  "own_block_frame sh b f \<longleftrightarrow> (\<exists>span. block_span (ss_plan sh) b = Some span \<and>
     unat (sp_len span) < 2 ^ 32 - 8 \<and>
     f = block_data_bytes (ss_session_id sh) b (block_payload (ss_source sh) span))"

definition sender_frame :: "SenderShared \<Rightarrow> bytes \<Rightarrow> bool" where
  "sender_frame sh f \<longleftrightarrow>
     (\<exists>r. f = control_frame (ss_session_id sh) (SourceDone r)) \<or> (\<exists>b. own_block_frame sh b f)"

definition sender_outputs :: "SenderShared \<Rightarrow> outputs \<Rightarrow> bool" where
  "sender_outputs sh out \<longleftrightarrow> (\<forall>(route, f)\<in>set out. route = sender_route sh None \<and> sender_frame sh f)"

lemma sender_outputs_simps [simp]:
  "sender_outputs sh []"
  "sender_outputs sh (xs @ ys) \<longleftrightarrow> sender_outputs sh xs \<and> sender_outputs sh ys"
  by (auto simp: sender_outputs_def)

lemma sender_outputs_shell: "same_shell sh sh' \<Longrightarrow> sender_outputs sh' out \<longleftrightarrow> sender_outputs sh out"
  by (simp add: sender_outputs_def sender_frame_def own_block_frame_def sender_route_def same_shell_def)

lemma send_source_done_outputs: "send_source_done sh r = Some out \<Longrightarrow> sender_outputs sh out"
  by (auto simp: send_source_done_def sender_route_def send_control_eq sender_outputs_def
      sender_frame_def)

lemma encode_block_data_Some:
  "encode_block_data s b p = Some f \<Longrightarrow> length p < 2 ^ 32 - 8 \<and> f = block_data_bytes s b p"
  using encode_block_data_layout [of p s b] encode_block_data_panics [of p s b]
  by (cases "length p < 2 ^ 32 - 8") auto

lemma send_block_Some:
  assumes "send_block sh b = Some (out, sh')"
  shows "sender_outputs sh out" "same_shell sh sh'" "ss_quorum sh' = ss_quorum sh"
    "\<exists>span. block_span (ss_plan sh) b = Some span \<Longrightarrow> \<exists>f. out = [(sender_route sh None, f)] \<and> own_block_frame sh b f"
proof -
  consider "block_span (ss_plan sh) b = None" "out = []" "sh' = sh"
    | span where "block_span (ss_plan sh) b = Some span" "sh' = mark_payload_emitted sh"
      "out = [(sender_route sh None,
        block_data_bytes (ss_session_id sh) b (block_payload (ss_source sh) span))]"
      "unat (sp_len span) < 2 ^ 32 - 8"
    using assms
    by (auto simp: send_block_def Let_def send_frame_def dest!: encode_block_data_Some
        split: option.splits)
  then have "(out = [] \<and> sh' = sh \<and> block_span (ss_plan sh) b = None) \<or>
      (\<exists>f. out = [(sender_route sh None, f)] \<and> own_block_frame sh b f \<and> sh' = mark_payload_emitted sh)"
    by cases (auto simp: own_block_frame_def)
  then show "sender_outputs sh out" "same_shell sh sh'" "ss_quorum sh' = ss_quorum sh"
    "\<exists>span. block_span (ss_plan sh) b = Some span \<Longrightarrow>
      \<exists>f. out = [(sender_route sh None, f)] \<and> own_block_frame sh b f"
    by (auto simp: sender_outputs_def sender_frame_def mark_payload_emitted_def)
qed

lemma plain_inv_shell_fields:
  "ss_quorum sh' = ss_quorum sh \<Longrightarrow> plain_inv ok sh' m \<longleftrightarrow> plain_inv ok sh m"
  by (simp add: plain_inv_def)

lemma plain_inv_cursor [simp]:
  "plain_inv ok sh (m\<lparr>ps_source_cursor := c\<rparr>) \<longleftrightarrow> plain_inv ok sh m"
  by (simp add: plain_inv_def)

lemma plain_inv_open:
  "plain_inv ok sh m \<Longrightarrow> plain_inv ok sh (m\<lparr>ps_feedback_round_open := True\<rparr>)"
  by (simp add: plain_inv_def)

lemma plain_inv_retransmit:
  assumes "plain_inv ok sh m" "b \<in> ps_queued_retransmit_blocks m"
  shows "plain_inv ok sh (m\<lparr>ps_queued_retransmit_blocks := ps_queued_retransmit_blocks m - {b},
    ps_emitted_blocks := insert b (ps_emitted_blocks m)\<rparr>)"
  using assms unfolding plain_inv_def by auto

lemma plain_inv_advance:
  "plain_inv ok sh m \<Longrightarrow> plain_inv ok (fst (advance_round (sh, m))) (snd (advance_round (sh, m)))"
  by (simp add: plain_inv_def advance_round_def Let_def)

text \<open>An open round whose reports are all in, with every wanted block sent, is never stuck:
  it completes or advances.\<close>

lemma round_close_progress:
  assumes "plain_inv ok sh m" "\<not> ps_protocol_error m"
  shows "list_all (\<lambda>(_, r). r = NeedComplete) (ps_round_reports m) \<or> ps_next_burst_nonempty m"
proof (rule disjCI)
  assume no: "\<not> ps_next_burst_nonempty m"
  have r: "\<forall>(p, r)\<in>set (ps_round_reports m). plain_report r"
    "ps_required_blocks m = wanted (ps_round_reports m)"
    "ps_next_burst_nonempty m \<longleftrightarrow> ps_required_blocks m \<noteq> {}"
    using assms unfolding plain_inv_def by blast+
  then have "wanted (ps_round_reports m) = {}" using no by blast
  then have "rep = NeedComplete" if "(p, rep) \<in> set (ps_round_reports m)" for p rep
    using that r(1) missing_block_ids_nonempty
    by (cases rep) (fastforce simp: wanted_def plain_report_def)+
  then show "list_all (\<lambda>(_, r). r = NeedComplete) (ps_round_reports m)"
    by (auto simp: list_all_iff)
qed

lemma all_complete_satisfied:
  assumes "plain_inv ok sh m" "round_can_close sh m"
    and "list_all (\<lambda>(_, r). r = NeedComplete) (ps_round_reports m)" "p \<in> q_active (ss_quorum sh)"
  shows "ok p (ps_feedback_open_round_id m) NeedComplete"
proof -
  let ?K = "fst ` set (ps_round_reports m)"
  have "card ?K = length (ps_round_reports m)"
    using assms(1) distinct_card [of "map fst (ps_round_reports m)"] by (simp add: plain_inv_def)
  then have "?K = q_active (ss_quorum sh)"
    using assms(1,2) card_subset_eq [of "q_active (ss_quorum sh)" ?K]
    by (simp add: plain_inv_def round_can_close_def)
  then obtain r where "(p, r) \<in> set (ps_round_reports m)" using assms(4) by fastforce
  then show ?thesis
    using assms(1,3) by (auto simp: plain_inv_def list_all_iff)
qed

definition round_satisfied :: "(usize \<Rightarrow> u32 \<Rightarrow> NeedReport \<Rightarrow> bool) \<Rightarrow> SenderShared \<Rightarrow> PlainSender \<Rightarrow> bool" where
  "round_satisfied ok sh m \<longleftrightarrow>
     (\<forall>p\<in>q_active (ss_quorum sh). ok p (ps_feedback_open_round_id m) NeedComplete)"

definition turn_good :: "(usize \<Rightarrow> u32 \<Rightarrow> NeedReport \<Rightarrow> bool) \<Rightarrow> SenderShared \<Rightarrow>
    outputs \<times> PlainSender Turn \<Rightarrow> bool" where
  "turn_good ok sh r \<longleftrightarrow> sender_outputs sh (fst r) \<and>
     (case snd r of
        TurnContinue (sh', m') \<Rightarrow> same_shell sh sh' \<and> plain_inv ok sh' m'
      | TurnFinished oc (sh', m') \<Rightarrow> same_shell sh sh' \<and> (oc = Completed \<longrightarrow> round_satisfied ok sh' m'))"

lemma wait_outputs:
  assumes "wait_for_quorum_feedback h r w now (sh, m) = Some (out, oc, st')"
  shows "sender_outputs sh out"
  using assms
  by (cases w) (auto simp: wait_for_quorum_feedback_def dest: send_source_done_outputs split: if_splits)

lemma plain_wait_good:
  assumes "plain_inv ok sh m" "wake_supports ok (ti_wake inp)" "plain_wait inp (sh, m) = Some r"
  shows "turn_good ok sh r"
proof -
  obtain out oc sh' m' where w:
    "wait_for_quorum_feedback plain_on_need (ps_feedback_open_round_id m) (ti_wake inp)
       (ti_wake_now inp) (sh, m) = Some (out, oc, (sh', m'))"
    and r: "fst r = out" "snd r = TurnFinished Aborted (sh', m') \<or> snd r = TurnContinue (sh', m')"
    using assms(3) by (auto simp: plain_wait_def split: if_splits)
  have "same_shell sh sh'" "plain_inv ok sh' m'" "sender_outputs sh out"
    using plain_hooks.wait_shell [OF w] plain_hooks.wait_inv [OF w assms(1,2)] wait_outputs [OF w]
    by blast+
  then show ?thesis using r by (auto simp: turn_good_def)
qed

lemma plain_feedback_good:
  assumes inv: "plain_inv ok sh m" and ne: "\<not> ps_protocol_error m"
    and w: "wake_supports ok (ti_wake inp)" and turn: "plain_feedback inp (sh, m) = Some r"
  shows "turn_good ok sh r"
proof (cases "ps_feedback_round_open m")
  case False
  then obtain out where sd: "send_source_done sh (ps_feedback_open_round_id m) = Some out"
    and r: "r = (out, if active_quorum_is_empty sh then
        TurnFinished Completed (sh, m\<lparr>ps_feedback_round_open := True, ps_complete := True\<rparr>)
      else TurnContinue (start_quorum_feedback_wait (ti_now inp) sh,
        m\<lparr>ps_feedback_round_open := True\<rparr>))"
    using turn by (auto simp: plain_feedback_def Let_def)
  have "plain_inv ok (start_quorum_feedback_wait (ti_now inp) sh) (m\<lparr>ps_feedback_round_open := True\<rparr>)"
    using plain_inv_open [OF inv] plain_inv_shell_fields [of "start_quorum_feedback_wait (ti_now inp) sh" sh]
    by (simp add: start_quorum_feedback_wait_def)
  then show ?thesis
    using send_source_done_outputs [OF sd]
    by (simp add: turn_good_def r round_satisfied_def active_quorum_is_empty_def)
next
  case open': True
  show ?thesis
  proof (cases "round_can_close sh m")
    case False
    then show ?thesis
      using turn open' plain_wait_good [OF inv w] by (simp add: plain_feedback_def)
  next
    case close: True
    show ?thesis
    proof (cases "list_all (\<lambda>(_, r). r = NeedComplete) (ps_round_reports m)")
      case True
      then show ?thesis
        using turn open' close all_complete_satisfied [OF inv close True]
        by (auto simp: plain_feedback_def turn_good_def round_satisfied_def
            clear_quorum_feedback_wait_def)
    next
      case False
      then have "ps_next_burst_nonempty m" using round_close_progress [OF inv ne] by blast
      then show ?thesis
        using turn open' close False plain_inv_advance [OF inv]
        by (auto simp: plain_feedback_def turn_good_def advance_round_def Let_def)
    qed
  qed
qed

lemma plain_turn_cases:
  assumes "plain_turn inp (sh, m) = Some r" "\<not> ps_complete m"
    and "drain_controls plain_on_need (ti_drained inp) (sh, m) = (sh1, m1)" "\<not> ps_complete m1"
  obtains (error) "ps_protocol_error m1" "r = ([], TurnFinished Aborted (sh1, m1))"
  | (source) b out sh2 where "\<not> ps_protocol_error m1" "ps_source_cursor m1 < length (ps_source_blocks m1)"
      "b = ps_source_blocks m1 ! ps_source_cursor m1" "send_block sh1 b = Some (out, sh2)"
      "r = (out, TurnContinue (sh2, m1\<lparr>ps_source_cursor := ps_source_cursor m1 + 1\<rparr>))"
  | (repair) b out sh2 where "\<not> ps_protocol_error m1" "length (ps_source_blocks m1) \<le> ps_source_cursor m1"
      "b \<in> ps_queued_retransmit_blocks m1" "send_block sh1 b = Some (out, sh2)"
      "r = (out, TurnContinue (sh2, m1\<lparr>ps_queued_retransmit_blocks := ps_queued_retransmit_blocks m1 - {b},
        ps_emitted_blocks := insert b (ps_emitted_blocks m1)\<rparr>))"
  | (feedback) "\<not> ps_protocol_error m1" "length (ps_source_blocks m1) \<le> ps_source_cursor m1"
      "ps_queued_retransmit_blocks m1 = {}" "plain_feedback inp (sh1, m1) = Some r"
proof -
  have t: "plain_turn inp (sh, m) =
     (if ps_protocol_error m1 then Some ([], TurnFinished Aborted (sh1, m1))
      else case next_source_block m1 of
        Some (b, m') \<Rightarrow> map_option (\<lambda>(out, st'). (out, TurnContinue st')) (send_source_block (sh1, m') b)
      | None \<Rightarrow> (case next_retransmit_block m1 of
          Some (b, m') \<Rightarrow>
            map_option (\<lambda>(out, st'). (out, TurnContinue st')) (send_retransmit_block (sh1, m') b)
        | None \<Rightarrow> plain_feedback inp (sh1, m1)))"
    using assms(2-4) by (simp add: plain_turn_def)
  have Min: "ps_queued_retransmit_blocks m1 \<noteq> {} \<Longrightarrow>
      Min (ps_queued_retransmit_blocks m1) \<in> ps_queued_retransmit_blocks m1"
    by (rule Min_in) simp_all
  show thesis
    using assms(1) error source repair [of "Min (ps_queued_retransmit_blocks m1)"] feedback Min
    unfolding t
    by (auto simp: next_source_block_def next_retransmit_block_def send_source_block_def
        send_retransmit_block_def Let_def not_le split: if_splits)
qed

lemma plain_turn_good:
  assumes inv: "plain_inv ok sh m" and d: "\<forall>f\<in>set (ti_drained inp). frame_supports ok f"
    and w: "wake_supports ok (ti_wake inp)" and turn: "plain_turn inp (sh, m) = Some r"
  shows "turn_good ok sh r"
proof -
  obtain sh1 m1 where dr: "drain_controls plain_on_need (ti_drained inp) (sh, m) = (sh1, m1)"
    by fastforce
  have shell: "same_shell sh sh1" and inv1: "plain_inv ok sh1 m1"
    using plain_hooks.drain_controls_shell [of sh "ti_drained inp" m]
      plain_hooks.drain_controls_inv [OF inv d] dr by simp_all
  have nc: "\<not> ps_complete m" "\<not> ps_complete m1" using inv inv1 by (simp_all add: plain_inv_def)
  have sent: "turn_good ok sh1 (out, TurnContinue (sh2, m2))"
    if "send_block sh1 b = Some (out, sh2)" "plain_inv ok sh1 m2" for b out sh2 m2
    using send_block_Some [OF that(1)] that(2) plain_inv_shell_fields [of sh2 sh1 ok m2]
    by (simp add: turn_good_def)
  have "turn_good ok sh1 r"
    using turn nc(1) dr nc(2)
  proof (cases rule: plain_turn_cases)
    case error
    then show ?thesis by (simp add: turn_good_def)
  next
    case (source b out sh2)
    then show ?thesis using sent inv1 by simp
  next
    case (repair b out sh2)
    then show ?thesis using sent plain_inv_retransmit [OF inv1] by simp
  next
    case feedback
    then show ?thesis using plain_feedback_good [OF inv1 _ w] by simp
  qed
  then show ?thesis
    using shell
    by (auto simp: turn_good_def sender_outputs_shell [OF shell] split: Turn.splits
        intro: same_shell_trans)
qed

section \<open>What the control path changes in the mode\<close>

text \<open>\<open>same_round\<close>: the sweep and the round stand where they were; reports, errors and
  the recorded blocks only grow.\<close>

definition same_round :: "PlainSender \<Rightarrow> PlainSender \<Rightarrow> bool" where
  "same_round m m' \<longleftrightarrow>
     ps_source_blocks m' = ps_source_blocks m \<and> ps_source_cursor m' = ps_source_cursor m \<and>
     ps_feedback_open_round_id m' = ps_feedback_open_round_id m \<and>
     ps_feedback_round_open m' = ps_feedback_round_open m \<and>
     ps_emitted_blocks m' = ps_emitted_blocks m \<and> ps_complete m' = ps_complete m \<and>
     (ps_protocol_error m \<longrightarrow> ps_protocol_error m') \<and>
     (\<forall>p r. map_of (ps_round_reports m) p = Some r \<longrightarrow> map_of (ps_round_reports m') p = Some r)"

lemma same_round_refl [simp]: "same_round m m"
  by (simp add: same_round_def)

lemma same_round_trans: "same_round a b \<Longrightarrow> same_round b c \<Longrightarrow> same_round a c"
  by (simp add: same_round_def)

lemma plain_on_need_same_round: "same_round m (snd (plain_on_need sh p r rep m))"
proof (cases "map_of (ps_round_reports m) p")
  case None
  then show ?thesis
    by (cases rep) (auto simp: plain_on_need_def same_round_def update_fresh fold_require_block
        map_add_Some_iff Let_def)
qed (simp add: plain_on_need_def same_round_def)

lemma handle_control_same_round: "same_round m (snd (handle_control plain_on_need f (sh, m)))"
proof (cases "handle_control plain_on_need f (sh, m)")
  case (Pair sh' m')
  then show ?thesis
  proof (cases rule: handle_control_cases)
    case (3 p hdr r rep)
    then show ?thesis using Pair plain_on_need_same_round [of m sh p r rep] by simp
  qed (use Pair in simp_all)
qed

lemma drain_same_round: "same_round m (snd (drain_controls plain_on_need fs (sh, m)))"
proof (induction fs arbitrary: sh m)
  case (Cons f fs)
  obtain sh1 m1 where 1: "handle_control plain_on_need f (sh, m) = (sh1, m1)" by fastforce
  then have "same_round m m1" using handle_control_same_round [of m f sh] by simp
  then show ?case
    using Cons [of m1 sh1] 1 by (auto simp: drain_controls_def intro: same_round_trans)
qed (simp add: drain_controls_def)

lemma wait_same_round:
  assumes "wait_for_quorum_feedback plain_on_need r w now (sh, m) = Some (out, oc, (sh', m'))"
  shows "same_round m m'"
proof (cases w)
  case (RecvFrame f)
  then show ?thesis
    using assms handle_control_same_round [of m f sh]
    by (auto simp: wait_for_quorum_feedback_def split: if_splits)
qed (use assms in \<open>auto simp: wait_for_quorum_feedback_def split: if_splits\<close>)

section \<open>The blocks a run has sent\<close>

definition block_sent :: "SenderShared \<Rightarrow> outputs \<Rightarrow> u64 \<Rightarrow> bool" where
  "block_sent sh out b \<longleftrightarrow> (\<exists>f. (sender_route sh None, f) \<in> set out \<and> own_block_frame sh b f)"

lemma block_sent_append: "block_sent sh (xs @ ys) b \<longleftrightarrow> block_sent sh xs b \<or> block_sent sh ys b"
  by (auto simp: block_sent_def)

lemma block_sent_shell: "same_shell sh sh' \<Longrightarrow> block_sent sh' out b \<longleftrightarrow> block_sent sh out b"
  by (simp add: block_sent_def own_block_frame_def sender_route_def same_shell_def)

text \<open>\<open>sweep_ok sh m sent\<close>: every block before the cursor, and every block recorded as
  emitted in the round, satisfies \<open>sent\<close>; the sweep ranges over the blocks of the plan.\<close>

definition sweep_ok :: "SenderShared \<Rightarrow> PlainSender \<Rightarrow> (u64 \<Rightarrow> bool) \<Rightarrow> bool" where
  "sweep_ok sh m sent \<longleftrightarrow>
     set (ps_source_blocks m) = {b. b < bp_total_blocks (ss_plan sh)} \<and>
     (\<forall>i < ps_source_cursor m. i < length (ps_source_blocks m) \<longrightarrow> sent (ps_source_blocks m ! i)) \<and>
     (\<forall>b \<in> ps_emitted_blocks m. b < bp_total_blocks (ss_plan sh) \<longrightarrow> sent b)"

lemma sweep_ok_same_round:
  "same_shell sh sh' \<Longrightarrow> same_round m m' \<Longrightarrow> sweep_ok sh m sent \<Longrightarrow> sweep_ok sh' m' sent"
  by (simp add: sweep_ok_def same_shell_def same_round_def)

lemma sweep_ok_mono: "sweep_ok sh m P \<Longrightarrow> (\<And>b. P b \<Longrightarrow> Q b) \<Longrightarrow> sweep_ok sh m Q"
  by (simp add: sweep_ok_def)

definition turn_state :: "'m Turn \<Rightarrow> SenderShared \<times> 'm" where
  "turn_state t = (case t of TurnContinue st \<Rightarrow> st | TurnFinished _ st \<Rightarrow> st)"

lemma turn_state_simps [simp]:
  "turn_state (TurnContinue st) = st" "turn_state (TurnFinished oc st) = st"
  by (simp_all add: turn_state_def)

text \<open>The plan of the session is a well-formed one, so every block below the total has a span.\<close>

lemma send_block_sent:
  assumes "send_block sh b = Some (out, sh')" "plan_ok (ss_plan sh)" "b < bp_total_blocks (ss_plan sh)"
  shows "block_sent sh out b"
proof -
  obtain span where "block_span (ss_plan sh) b = Some span" by (rule block_span_eq [OF assms(2,3)])
  then obtain f where "out = [(sender_route sh None, f)]" "own_block_frame sh b f"
    using send_block_Some(4) [OF assms(1)] by blast
  then show ?thesis by (simp add: block_sent_def)
qed

lemma plain_feedback_sweep:
  assumes "plain_feedback inp (sh, m) = Some (out, t)" "sweep_ok sh m sent" "turn_state t = (sh', m')"
  shows "sweep_ok sh' m' sent \<and> (\<forall>oc. t = TurnFinished oc (sh', m') \<and> oc = Completed \<longrightarrow>
    ps_source_cursor m' = ps_source_cursor m \<and> ps_source_blocks m' = ps_source_blocks m)"
proof -
  have wait: "sweep_ok sh' m' sent \<and> t \<noteq> TurnFinished Completed (sh', m')"
    if "plain_wait inp (sh, m) = Some (out, t)"
  proof -
    from that obtain w3 where w3: "wait_for_quorum_feedback plain_on_need
        (ps_feedback_open_round_id m) (ti_wake inp) (ti_wake_now inp) (sh, m) = Some w3"
      "t = TurnFinished Aborted (snd (snd w3)) \<or> t = TurnContinue (snd (snd w3))"
      unfolding plain_wait_def by (auto split: if_splits prod.splits)
    moreover obtain out' oc a b where "w3 = (out', oc, (a, b))" by (metis prod.exhaust)
    ultimately have w: "wait_for_quorum_feedback plain_on_need
        (ps_feedback_open_round_id m) (ti_wake inp) (ti_wake_now inp) (sh, m) = Some (out', oc, (a, b))"
      "t = TurnFinished Aborted (a, b) \<or> t = TurnContinue (a, b)"
      by auto
    then have "a = sh'" "b = m'" using assms(3) by auto
    then show ?thesis
      using w sweep_ok_same_round [OF plain_hooks.wait_shell wait_same_round assms(2)] by auto
  qed
  show ?thesis
    using assms wait
    by (auto simp: plain_feedback_def Let_def sweep_ok_def advance_round_def
        start_quorum_feedback_wait_def clear_quorum_feedback_wait_def split: if_splits)
qed

lemma plain_turn_sweep:
  assumes turn: "plain_turn inp (sh, m) = Some (out, t)" and nc: "\<not> ps_complete m"
    and plan: "plan_ok (ss_plan sh)" and sw: "sweep_ok sh m sent" and st: "turn_state t = (sh', m')"
  shows "sweep_ok sh' m' (\<lambda>b. sent b \<or> block_sent sh out b) \<and>
    (t = TurnFinished Completed (sh', m') \<longrightarrow> length (ps_source_blocks m') \<le> ps_source_cursor m')"
proof -
  obtain sh1 m1 where dr: "drain_controls plain_on_need (ti_drained inp) (sh, m) = (sh1, m1)"
    by fastforce
  have shell: "same_shell sh sh1" and rnd: "same_round m m1"
    using plain_hooks.drain_controls_shell [of sh "ti_drained inp" m]
      drain_same_round [of m "ti_drained inp" sh] dr by simp_all
  have nc1: "\<not> ps_complete m1" and plan1: "plan_ok (ss_plan sh1)"
    using nc rnd plan shell by (simp_all add: same_round_def same_shell_def)
  have sw1: "sweep_ok sh1 m1 sent" by (rule sweep_ok_same_round [OF shell rnd sw])
  have same: "block_sent sh out b \<longleftrightarrow> block_sent sh1 out b" for out b
    by (simp add: block_sent_shell [OF shell])
  have plan2: "ss_plan sh2 = ss_plan sh1" if "send_block sh1 b = Some (out, sh2)" for b out sh2
    using send_block_Some(2) [OF that] by (simp add: same_shell_def)
  from turn nc dr nc1 show ?thesis
  proof (cases rule: plain_turn_cases)
    case error
    then show ?thesis using st sw1 by (auto simp: sweep_ok_def)
  next
    case (source b out' sh2)
    then have "b \<in> set (ps_source_blocks m1)" by simp
    then have "b < bp_total_blocks (ss_plan sh1)" using sw1 unfolding sweep_ok_def by blast
    then have "block_sent sh1 out' b" using send_block_sent source(4) plan1 by blast
    then show ?thesis
      using source st sw1 plan2 by (auto simp: sweep_ok_def same less_Suc_eq)
  next
    case (repair b out' sh2)
    have "b < bp_total_blocks (ss_plan sh1) \<Longrightarrow> block_sent sh1 out' b"
      using send_block_sent repair(4) plan1 by blast
    then show ?thesis using repair st sw1 plan2 by (auto simp: sweep_ok_def same)
  next
    case feedback
    then show ?thesis
      using plain_feedback_sweep [OF _ sw1 st] by (auto intro: sweep_ok_mono)
  qed
qed

lemma plain_loop_good:
  assumes "plain_loop inps (sh, m) = Some (out, t)" "plain_inv ok sh m"
    and "\<forall>inp\<in>set inps. (\<forall>f\<in>set (ti_drained inp). frame_supports ok f) \<and> wake_supports ok (ti_wake inp)"
    and "plan_ok (ss_plan sh)" "sweep_ok sh m sent" "turn_state t = (sh', m')"
  shows "turn_good ok sh (out, t) \<and> sweep_ok sh' m' (\<lambda>b. sent b \<or> block_sent sh out b) \<and>
    (t = TurnFinished Completed (sh', m') \<longrightarrow> length (ps_source_blocks m') \<le> ps_source_cursor m')"
  using assms
proof (induction inps arbitrary: sh m out sent)
  case Nil
  then show ?case by (auto simp: turn_good_def intro: sweep_ok_mono)
next
  case (Cons inp inps)
  have nc: "\<not> ps_complete m" using Cons.prems(2) by (simp add: plain_inv_def)
  obtain out1 t1 where 1: "plain_turn inp (sh, m) = Some (out1, t1)"
    using Cons.prems(1) by (auto split: option.splits)
  have good: "turn_good ok sh (out1, t1)"
    using plain_turn_good [OF Cons.prems(2) _ _ 1] Cons.prems(3) by simp
  show ?case
  proof (cases t1)
    case (TurnFinished oc st)
    then have "out = out1" "t = t1" using Cons.prems(1) 1 by auto
    then show ?thesis
      using good plain_turn_sweep [OF 1 nc Cons.prems(4,5)] Cons.prems(6) by simp
  next
    case (TurnContinue st)
    obtain sh1 m1 where st: "st = (sh1, m1)" by fastforce
    have g: "same_shell sh sh1" "plain_inv ok sh1 m1" "sender_outputs sh out1"
      using good by (simp_all add: turn_good_def TurnContinue st)
    obtain out2 where 2: "plain_loop inps (sh1, m1) = Some (out2, t)" "out = out1 @ out2"
      using Cons.prems(1) 1 TurnContinue st by auto
    have sw1: "sweep_ok sh1 m1 (\<lambda>b. sent b \<or> block_sent sh out1 b)"
      using plain_turn_sweep [OF 1 nc Cons.prems(4,5)] by (simp add: TurnContinue st)
    have plan1: "plan_ok (ss_plan sh1)" using Cons.prems(4) g(1) by (simp add: same_shell_def)
    note IH = Cons.IH [OF 2(1) g(2) _ plan1 sw1 Cons.prems(6)]
    have "turn_good ok sh1 (out2, t)" using IH Cons.prems(3) by simp
    then have "turn_good ok sh (out, t)"
      using g by (auto simp: turn_good_def 2(2) sender_outputs_shell [OF g(1)] split: Turn.splits
          intro: same_shell_trans)
    moreover have "sweep_ok sh' m' (\<lambda>b. sent b \<or> block_sent sh out b)"
      using IH Cons.prems(3)
      by (auto simp: 2(2) block_sent_append block_sent_shell [OF g(1)] intro: sweep_ok_mono)
    ultimately show ?thesis using IH Cons.prems(3) by simp
  qed
qed

section \<open>Properties\<close>

definition input_frames :: "TurnInput \<Rightarrow> InboundFrame list" where
  "input_frames inp = ti_drained inp @
     (case ti_wake inp of RecvFrame f \<Rightarrow> [f] | RecvClosed \<Rightarrow> [] | TimerFired \<Rightarrow> [])"

text \<open>The sender was handed this report of this peer for this round.\<close>

definition need_received :: "TurnInput list \<Rightarrow> usize \<Rightarrow> u32 \<Rightarrow> NeedReport \<Rightarrow> bool" where
  "need_received inps p r rep \<longleftrightarrow> (\<exists>inp\<in>set inps. \<exists>f\<in>set (input_frames inp).
     if_peer_id f = Some p \<and> (\<exists>hdr. decode_control (if_bytes f) = Some (hdr, Need r rep)))"

lemma inputs_support_received:
  "\<forall>inp\<in>set inps. (\<forall>f\<in>set (ti_drained inp). frame_supports (need_received inps) f) \<and>
     wake_supports (need_received inps) (ti_wake inp)"
proof
  fix inp assume inp: "inp \<in> set inps"
  have "frame_supports (need_received inps) f" if "f \<in> set (input_frames inp)" for f
    using inp that by (auto simp: frame_supports_def need_received_def)
  then show "(\<forall>f\<in>set (ti_drained inp). frame_supports (need_received inps) f) \<and>
      wake_supports (need_received inps) (ti_wake inp)"
    by (auto simp: wake_supports_def input_frames_def split: Wake.splits)
qed

lemma plain_start:
  "plain_inv ok sh (ensure_initial_round sh plain_sender_default)"
  "sweep_ok sh (ensure_initial_round sh plain_sender_default) (\<lambda>_. False)"
proof -
  let ?n = "unat (bp_total_blocks (ss_plan sh))"
  have "set (map word_of_nat [0 ..< ?n] :: u64 list) = {b. b < bp_total_blocks (ss_plan sh)}"
  proof (intro set_eqI iffI)
    fix b :: u64 assume "b \<in> set (map word_of_nat [0 ..< ?n])"
    then obtain k where k: "k < ?n" "b = word_of_nat k" by auto
    then have "unat b = k" using less_trans [OF k(1) unat_u64_bound] by (simp add: unat_of_nat_small)
    then show "b \<in> {b. b < bp_total_blocks (ss_plan sh)}" using k by (simp add: word_less_nat_alt)
  next
    fix b :: u64 assume "b \<in> {b. b < bp_total_blocks (ss_plan sh)}"
    then have "unat b < ?n" "b = word_of_nat (unat b)" by (simp_all add: word_less_nat_alt)
    then show "b \<in> set (map word_of_nat [0 ..< ?n])" by (metis atLeast0LessThan image_eqI lessThan_iff set_map set_upt)
  qed
  then show "sweep_ok sh (ensure_initial_round sh plain_sender_default) (\<lambda>_. False)"
    by (simp add: sweep_ok_def ensure_initial_round_def plain_sender_default_def)
  show "plain_inv ok sh (ensure_initial_round sh plain_sender_default)"
    by (simp add: plain_inv_def ensure_initial_round_def plain_sender_default_def)
qed

lemma plain_run_good:
  assumes "plain_run inps (sh, plain_sender_default) = Some (out, t)" "plan_ok (ss_plan sh)"
    and "turn_state t = (sh', m')"
  shows "turn_good (need_received inps) sh (out, t)"
    "sweep_ok sh' m' (block_sent sh out)"
    "t = TurnFinished Completed (sh', m') \<Longrightarrow> length (ps_source_blocks m') \<le> ps_source_cursor m'"
  using plain_loop_good [OF _ plain_start(1) inputs_support_received assms(2) plain_start(2) assms(3)] assms(1)
  by (simp_all add: plain_run_def)

text \<open>C4. A plain sender that finishes as completed was told Complete, for one and the same
  round, by every member of its frozen quorum; it has sent every block of its plan; and all it
  ever submitted were \<open>SourceDone\<close> frames and blocks of its own source.\<close>

theorem plain_sender_completion:
  assumes "plain_run inps (sh, plain_sender_default) = Some (out, TurnFinished Completed (sh', m'))"
    and "plan_ok (ss_plan sh)" "q_frozen (ss_quorum sh)"
  shows "(\<exists>r. \<forall>p\<in>q_active (ss_quorum sh). need_received inps p r NeedComplete) \<and>
    (\<forall>b < bp_total_blocks (ss_plan sh). block_sent sh out b) \<and> sender_outputs sh out"
proof -
  note g = plain_run_good [OF assms(1,2), of sh' m', simplified]
  then have shell: "same_shell sh sh'" "round_satisfied (need_received inps) sh' m'"
    "sender_outputs sh out"
    by (simp_all add: turn_good_def)
  then have "\<forall>p\<in>q_active (ss_quorum sh). need_received inps p (ps_feedback_open_round_id m') NeedComplete"
    using assms(3) by (simp add: round_satisfied_def same_shell_def)
  moreover have "block_sent sh out b" if "b < bp_total_blocks (ss_plan sh)" for b
  proof -
    have "b \<in> set (ps_source_blocks m')"
      using that g(2) shell(1) by (simp add: sweep_ok_def same_shell_def)
    then obtain i where "i < length (ps_source_blocks m')" "ps_source_blocks m' ! i = b"
      by (auto simp: in_set_conv_nth)
    then show ?thesis using g(2,3) by (auto simp: sweep_ok_def)
  qed
  ultimately show ?thesis using shell(3) by blast
qed

text \<open>No request is forgotten: at any point of a run, every block of the plan that an
  accepted report of the open round asks for is still queued or its frame has been sent.\<close>

theorem plain_sender_repairs_requested:
  assumes "plain_run inps (sh, plain_sender_default) = Some (out, TurnContinue (sh', m'))"
    and "plan_ok (ss_plan sh)" "(p, NeedPlain rs) \<in> set (ps_round_reports m')"
    and "b \<in> missing_blocks rs" "b < unat (bp_total_blocks (ss_plan sh))"
  shows "word_of_nat b \<in> ps_queued_retransmit_blocks m' \<or> block_sent sh out (word_of_nat b)"
proof -
  note g = plain_run_good [OF assms(1,2), of sh' m', simplified]
  then have inv: "plain_inv (need_received inps) sh' m'" and shell: "same_shell sh sh'"
    by (simp_all add: turn_good_def)
  have lt: "word_of_nat b < bp_total_blocks (ss_plan sh')"
    using assms(5) less_trans [OF assms(5) unat_u64_bound] shell
    by (simp add: word_less_nat_alt unat_of_nat_small same_shell_def)
  have "word_of_nat b \<in> wanted (ps_round_reports m')"
    using assms(3,4) by (auto simp: wanted_def set_missing_block_ids intro!: bexI)
  then have "word_of_nat b \<in> ps_emitted_blocks m' \<union> ps_queued_retransmit_blocks m'"
    using inv by (simp add: plain_inv_def)
  then show ?thesis using g(2) lt by (auto simp: sweep_ok_def)
qed

text \<open>Round reports are immutable: once a quorum member's report for the open round is
  recorded, a different report of that member for that round aborts the session.\<close>

theorem changed_report_aborts:
  assumes "\<not> ps_complete m" "ps_feedback_round_open m"
    and "map_of (ps_round_reports m) p = Some rep" "q_frozen (ss_quorum sh)" "p \<in> q_active (ss_quorum sh)"
    and "f \<in> set (ti_drained inp)" "if_peer_id f = Some p"
    and "decode_control (if_bytes f) = Some (hdr, Need (ps_feedback_open_round_id m) rep')" "rep' \<noteq> rep"
    and "validate_control (ss_manifest sh) (Need (ps_feedback_open_round_id m) rep') = Inr ()"
  shows "\<exists>st. plain_turn inp (sh, m) = Some ([], TurnFinished Aborted st)"
proof -
  obtain xs ys where fs: "ti_drained inp = xs @ f # ys" using assms(6) by (meson split_list)
  obtain sh1 m1 where 1: "drain_controls plain_on_need xs (sh, m) = (sh1, m1)" by fastforce
  obtain sh3 m3 where 3: "drain_controls plain_on_need (ti_drained inp) (sh, m) = (sh3, m3)"
    by fastforce
  have s1: "same_shell sh sh1" "same_round m m1"
    using plain_hooks.drain_controls_shell [of sh xs m] drain_same_round [of m xs sh] 1 by simp_all
  then have "snd (handle_control plain_on_need f (sh1, m1)) = m1\<lparr>ps_protocol_error := True\<rparr>"
    using assms by (simp add: handle_control_def plain_on_need_def same_shell_def same_round_def)
  moreover have "drain_controls plain_on_need ys (handle_control plain_on_need f (sh1, m1)) = (sh3, m3)"
    using 1 3 by (simp add: fs drain_controls_def)
  ultimately have "same_round (m1\<lparr>ps_protocol_error := True\<rparr>) m3"
    using drain_same_round [of "m1\<lparr>ps_protocol_error := True\<rparr>" ys
        "fst (handle_control plain_on_need f (sh1, m1))"]
    by (metis prod.collapse snd_conv)
  then have "ps_protocol_error m3" by (simp add: same_round_def)
  then show ?thesis using assms(1) 3 by (auto simp: plain_turn_def)
qed

text \<open>\<open>complete_report sh m f\<close>: the frame is a Complete report for the open round from a
  quorum member.\<close>

definition complete_report :: "SenderShared \<Rightarrow> PlainSender \<Rightarrow> InboundFrame \<Rightarrow> bool" where
  "complete_report sh m f \<longleftrightarrow> (\<exists>p hdr. if_peer_id f = Some p \<and> p \<in> q_active (ss_quorum sh) \<and>
     decode_control (if_bytes f) = Some (hdr, Need (ps_feedback_open_round_id m) NeedComplete))"

abbreviation (input) all_complete :: "PlainSender \<Rightarrow> bool" where
  "all_complete m \<equiv> list_all (\<lambda>(_, r). r = NeedComplete) (ps_round_reports m)"

lemma complete_report_step:
  assumes "complete_report sh m f" "manifest_ok (ss_manifest sh)" "ps_feedback_round_open m" "all_complete m"
  obtains R where "handle_control plain_on_need f (sh, m) = (sh, m\<lparr>ps_round_reports := R\<rparr>)"
    "list_all (\<lambda>(_, r). r = NeedComplete) R"
    "fst ` set R = fst ` set (ps_round_reports m) \<union> {p. if_peer_id f = Some p}"
proof -
  obtain p hdr where f: "if_peer_id f = Some p" "p \<in> q_active (ss_quorum sh)"
    "decode_control (if_bytes f) = Some (hdr, Need (ps_feedback_open_round_id m) NeedComplete)"
    using assms(1) by (auto simp: complete_report_def)
  have v: "validate_control (ss_manifest sh) (Need r NeedComplete) = Inr ()" for r
    using assms(2)
    by (simp add: validate_control_def and_then_eq_Inr manifest_validate_iff
        validate_need_report_iff report_within_def report_fits_mode_def)
  show ?thesis
  proof (cases "map_of (ps_round_reports m) p")
    case None
    then show ?thesis
      using f v assms(3,4)
      by (intro that [of "ps_round_reports m @ [(p, NeedComplete)]"])
        (auto simp: handle_control_def plain_on_need_def update_fresh)
  next
    case (Some r)
    then have "r = NeedComplete" "p \<in> fst ` set (ps_round_reports m)"
      using assms(4) map_of_SomeD [OF Some] by (force simp: list_all_iff)+
    then show ?thesis
      using f v assms(3,4) Some
      by (intro that [of "ps_round_reports m"])
        (auto simp: handle_control_def plain_on_need_def)
  qed
qed

lemma complete_reports_drained:
  assumes "\<forall>f\<in>set fs. complete_report sh m f" "manifest_ok (ss_manifest sh)"
    "ps_feedback_round_open m" "all_complete m"
  shows "\<exists>R. drain_controls plain_on_need fs (sh, m) = (sh, m\<lparr>ps_round_reports := R\<rparr>) \<and>
    list_all (\<lambda>(_, r). r = NeedComplete) R \<and>
    fst ` set R = fst ` set (ps_round_reports m) \<union> {p. \<exists>f\<in>set fs. if_peer_id f = Some p}"
  using assms
proof (induction fs arbitrary: m)
  case Nil
  then show ?case
    by (intro exI [of _ "ps_round_reports m"]) (simp add: drain_controls_def)
next
  case (Cons f fs)
  have "complete_report sh m f" using Cons.prems(1) by simp
  from complete_report_step [OF this Cons.prems(2-4)]
  obtain R where R: "handle_control plain_on_need f (sh, m) = (sh, m\<lparr>ps_round_reports := R\<rparr>)"
    "list_all (\<lambda>(_, r). r = NeedComplete) R"
    "fst ` set R = fst ` set (ps_round_reports m) \<union> {p. if_peer_id f = Some p}"
    by blast
  have "\<forall>g\<in>set fs. complete_report sh (m\<lparr>ps_round_reports := R\<rparr>) g"
    using Cons.prems(1) by (simp add: complete_report_def)
  from Cons.IH [OF this] obtain R' where R':
    "drain_controls plain_on_need fs (sh, m\<lparr>ps_round_reports := R\<rparr>) = (sh, m\<lparr>ps_round_reports := R'\<rparr>)"
    "list_all (\<lambda>(_, r). r = NeedComplete) R'"
    "fst ` set R' = fst ` set R \<union> {p. \<exists>f\<in>set fs. if_peer_id f = Some p}"
    using Cons.prems(2,3) R(2) by auto
  show ?case
    using R R' by (intro exI [of _ R']) (auto simp: drain_controls_def)
qed

text \<open>C38. Progress: when the sweep is over, the round is open and every report so far is
  Complete, an iteration that drains a Complete report of each remaining quorum member (in any
  order, duplicates included) finishes the session as completed, without another frame.\<close>

theorem all_complete_finishes:
  assumes "plain_inv (\<lambda>_ _ _. True) sh m" "\<not> ps_protocol_error m" "manifest_ok (ss_manifest sh)"
    and "length (ps_source_blocks m) \<le> ps_source_cursor m" "ps_feedback_round_open m" "all_complete m"
    and "\<forall>f\<in>set (ti_drained inp). complete_report sh m f"
    and "\<forall>p\<in>q_active (ss_quorum sh). p \<in> fst ` set (ps_round_reports m) \<or>
      (\<exists>f\<in>set (ti_drained inp). if_peer_id f = Some p)"
  shows "\<exists>st. plain_turn inp (sh, m) = Some ([], TurnFinished Completed st)"
proof -
  obtain R where R: "drain_controls plain_on_need (ti_drained inp) (sh, m) = (sh, m\<lparr>ps_round_reports := R\<rparr>)"
    "list_all (\<lambda>(_, r). r = NeedComplete) R"
    "fst ` set R = fst ` set (ps_round_reports m) \<union> {p. \<exists>f\<in>set (ti_drained inp). if_peer_id f = Some p}"
    using complete_reports_drained [OF assms(7,3,5,6)] by blast
  let ?m = "m\<lparr>ps_round_reports := R\<rparr>"
  have sup: "\<forall>f\<in>set (ti_drained inp). frame_supports (\<lambda>_ _ _. True) f" by (simp add: frame_supports_def)
  have inv: "plain_inv (\<lambda>_ _ _. True) sh ?m"
    using plain_hooks.drain_controls_inv [OF assms(1) sup] R(1) by simp
  have "wanted R = {}" using R(2) by (force simp: wanted_def list_all_iff split: NeedReport.splits)
  then have e: "ps_required_blocks m = {}" "ps_queued_retransmit_blocks m = {}"
    using inv by (simp_all add: plain_inv_def)
  have "fst ` set R = q_active (ss_quorum sh)"
    using R(3) assms(8) inv by (auto simp: plain_inv_def)
  moreover have "card (fst ` set R) = length R"
    using inv distinct_card [of "map fst R"] by (simp add: plain_inv_def)
  ultimately have "round_can_close sh ?m" using e by (simp add: round_can_close_def)
  then show ?thesis
    using R(1,2) assms(2,4,5) e assms(1)
    by (simp add: plain_turn_def plain_inv_def next_source_block_def next_retransmit_block_def
        plain_feedback_def)
qed

section \<open>A concrete session\<close>

text \<open>One receiver (node 7), one block of two bytes.\<close>

definition demo_plan :: BlockPlan where
  "demo_plan = \<lparr>bp_total_bytes = 2, bp_block_size = 2, bp_total_blocks = 1\<rparr>"

definition demo_manifest :: LosslessSessionManifest where
  "demo_manifest = \<lparr>mf_block_size = 2, mf_total_bytes = 2, mf_total_blocks = 1, mf_mode = ModePlain\<rparr>"

definition demo_shared :: SenderShared where
  "demo_shared = \<lparr>ss_session_id = 9,
     ss_route = \<lparr>tr_src_ip = 1, tr_dst_ip = 2, tr_src_port = 3, tr_dst_port = 4\<rparr>,
     ss_manifest = demo_manifest, ss_receiver_ids = [7],
     ss_quorum = \<lparr>q_configured = {7}, q_active = {7}, q_frozen = True\<rparr>,
     ss_liveness = liveness_new 250 1000, ss_plan = demo_plan, ss_source = [1, 2],
     ss_ready_grace = 0, ss_payload_emitted = False\<rparr>"

definition demo_complete :: InboundFrame where
  "demo_complete = \<lparr>if_bytes = control_frame 9 (Need 0 NeedComplete), if_peer_id = Some 7\<rparr>"

definition demo_request :: InboundFrame where
  "demo_request = \<lparr>if_bytes = control_frame 9
     (Need 0 (NeedPlain [\<lparr>start_block_id = 0, end_block_id = 1\<rparr>])), if_peer_id = Some 7\<rparr>"

definition demo_input :: "InboundFrame list \<Rightarrow> TurnInput" where
  "demo_input fs = \<lparr>ti_drained = fs, ti_now = 0, ti_wake = TimerFired, ti_wake_now = 0\<rparr>"

lemma demo_span: "block_span demo_plan 0 = Some \<lparr>sp_offset = 0, sp_len = 2\<rparr>"
  by (simp add: demo_plan_def block_span_def block_offset_def block_len_def contains_block_def
      checked_mul_def last_block_id_def checked_sub_def)

lemma demo_plan_ok: "plan_ok (ss_plan demo_shared)"
  by (simp add: demo_shared_def demo_plan_def plan_ok_def nat_div_ceil_def)

lemma demo_manifest_ok: "manifest_ok demo_manifest"
  by (simp add: demo_manifest_def manifest_ok_def nat_div_ceil_def)

lemma demo_frames:
  "decode_control (if_bytes demo_complete) =
     Some (session_header KindControl 6 9 (word_of_nat (control_body_len (Need 0 NeedComplete))),
       Need 0 NeedComplete)"
  "decode_control (if_bytes demo_request) =
     Some (session_header KindControl 6 9 (word_of_nat (control_body_len
         (Need 0 (NeedPlain [\<lparr>start_block_id = 0, end_block_id = 1\<rparr>])))),
       Need 0 (NeedPlain [\<lparr>start_block_id = 0, end_block_id = 1\<rparr>]))"
  using decode_control_frame [of "Need 0 NeedComplete" 9]
    decode_control_frame [of "Need 0 (NeedPlain [\<lparr>start_block_id = 0, end_block_id = 1\<rparr>])" 9]
  by (simp_all add: demo_complete_def demo_request_def ranges_canonical_def MAX_NEED_RANGES_def)

lemma demo_shared_simps [simp]:
  "ss_plan demo_shared = demo_plan" "ss_session_id demo_shared = 9"
  "ss_quorum demo_shared = \<lparr>q_configured = {7}, q_active = {7}, q_frozen = True\<rparr>"
  "ss_source demo_shared = [1, 2]" "ss_manifest demo_shared = demo_manifest"
  "bp_total_blocks demo_plan = 1"
  by (simp_all add: demo_shared_def demo_plan_def)

definition demo_start :: PlainSender where
  "demo_start = ensure_initial_round demo_shared plain_sender_default"

lemma demo_start_eq:
  "demo_start = plain_sender_default\<lparr>ps_source_blocks := [0], ps_initialized := True\<rparr>"
  by (simp add: demo_start_def ensure_initial_round_def plain_sender_default_def)

definition demo_sent :: SenderShared where "demo_sent = mark_payload_emitted demo_shared"

definition demo_waiting :: SenderShared where
  "demo_waiting = start_quorum_feedback_wait 0 demo_sent"

lemma demo_sent_simps [simp]:
  "ss_quorum demo_sent = \<lparr>q_configured = {7}, q_active = {7}, q_frozen = True\<rparr>"
  "ss_quorum demo_waiting = \<lparr>q_configured = {7}, q_active = {7}, q_frozen = True\<rparr>"
  "ss_manifest demo_waiting = demo_manifest" "ss_plan demo_waiting = demo_plan"
  by (simp_all add: demo_sent_def demo_waiting_def mark_payload_emitted_def
      start_quorum_feedback_wait_def)

lemma demo_turn_1:
  "\<exists>out. plain_turn (demo_input []) (demo_shared, demo_start) =
     Some (out, TurnContinue (demo_sent, demo_start\<lparr>ps_source_cursor := 1\<rparr>))"
proof -
  have "encode_block_data 9 0 (block_payload [1, 2] \<lparr>sp_offset = 0, sp_len = 2\<rparr>) \<noteq> None"
    by (subst encode_block_data_layout) simp_all
  then have "\<exists>out. send_block demo_shared 0 = Some (out, demo_sent)"
    by (auto simp: send_block_def demo_span demo_sent_def)
  then show ?thesis
    by (auto simp: plain_turn_def demo_input_def drain_controls_def demo_start_eq
        plain_sender_default_def next_source_block_def send_source_block_def)
qed

lemma demo_turn_2:
  "\<exists>out. plain_turn (demo_input []) (demo_sent, demo_start\<lparr>ps_source_cursor := 1\<rparr>) =
     Some (out, TurnContinue (demo_waiting,
       demo_start\<lparr>ps_source_cursor := 1, ps_feedback_round_open := True\<rparr>))"
  by (simp add: plain_turn_def demo_input_def drain_controls_def demo_start_eq
      plain_sender_default_def next_source_block_def next_retransmit_block_def plain_feedback_def
      send_source_done_def sender_route_def send_control_eq active_quorum_is_empty_def demo_waiting_def)

lemma demo_validate:
  "control_ok (Need 0 rep) \<Longrightarrow> validate_need_report demo_manifest rep = Inr () \<Longrightarrow>
     validate_control demo_manifest (Need 0 rep) = Inr ()"
  using demo_manifest_ok
  by (simp add: validate_control_def and_then_eq_Inr manifest_validate_iff control_validate_iff
      del: control_ok.simps control_validate.simps)

lemma demo_turn_3:
  "\<exists>sh m. plain_turn (demo_input [demo_complete])
     (demo_waiting, demo_start\<lparr>ps_source_cursor := 1, ps_feedback_round_open := True\<rparr>) =
     Some ([], TurnFinished Completed (sh, m))"
proof -
  have v: "validate_control demo_manifest (Need 0 NeedComplete) = Inr ()"
    using demo_manifest_ok
    by (intro demo_validate) (simp_all add: validate_need_report_iff report_within_def report_fits_mode_def)
  have p: "if_peer_id demo_complete = Some 7" by (simp add: demo_complete_def)
  show ?thesis
    by (simp add: plain_turn_def demo_input_def drain_controls_def handle_control_def demo_frames p v
        demo_start_eq plain_sender_default_def plain_on_need_def next_source_block_def
        next_retransmit_block_def plain_feedback_def round_can_close_def)
qed

lemma demo_run:
  "\<exists>out sh m. plain_run [demo_input [], demo_input [], demo_input [demo_complete]]
     (demo_shared, plain_sender_default) = Some (out, TurnFinished Completed (sh, m))"
  using demo_turn_1 demo_turn_2 demo_turn_3 by (auto simp: plain_run_def demo_start_def)

lemma plain_sender_completion_witness:
  "\<exists>out sh m. plain_run [demo_input [], demo_input [], demo_input [demo_complete]]
     (demo_shared, plain_sender_default) = Some (out, TurnFinished Completed (sh, m)) \<and>
     block_sent demo_shared out 0"
proof -
  obtain out sh m where run: "plain_run [demo_input [], demo_input [], demo_input [demo_complete]]
     (demo_shared, plain_sender_default) = Some (out, TurnFinished Completed (sh, m))"
    using demo_run by blast
  from plain_sender_completion [OF run demo_plan_ok] this show ?thesis by auto
qed

lemma demo_request_valid:
  "validate_control demo_manifest (Need 0 (NeedPlain [\<lparr>start_block_id = 0, end_block_id = 1\<rparr>])) = Inr ()"
  using demo_manifest_ok
  by (intro demo_validate)
    (simp_all add: validate_need_report_iff report_within_def report_fits_mode_def
      ranges_canonical_def MAX_NEED_RANGES_def, simp add: demo_manifest_def)

lemma demo_request_peer: "if_peer_id demo_request = Some 7" "if_peer_id demo_complete = Some 7"
  by (simp_all add: demo_request_def demo_complete_def)

lemma demo_turn_repair:
  "\<exists>out sh m. plain_turn (demo_input [demo_request])
     (demo_waiting, demo_start\<lparr>ps_source_cursor := 1, ps_feedback_round_open := True\<rparr>) =
     Some (out, TurnContinue (sh, m)) \<and>
     ps_round_reports m = [(7, NeedPlain [\<lparr>start_block_id = 0, end_block_id = 1\<rparr>])] \<and>
     ps_queued_retransmit_blocks m = {}"
proof -
  have ids: "missing_block_ids [\<lparr>start_block_id = 0, end_block_id = 1\<rparr>] = [0]"
    by (simp add: missing_block_ids_def)
  have sess: "ss_session_id demo_waiting = 9" "ss_source demo_waiting = [1, 2]"
    by (simp_all add: demo_waiting_def demo_sent_def mark_payload_emitted_def
        start_quorum_feedback_wait_def)
  have "encode_block_data 9 0 (block_payload [1, 2] \<lparr>sp_offset = 0, sp_len = 2\<rparr>) \<noteq> None"
    by (subst encode_block_data_layout) simp_all
  then have "\<exists>out sh. send_block demo_waiting 0 = Some (out, sh)"
    by (auto simp: send_block_def demo_span sess)
  then show ?thesis
    by (auto simp: plain_turn_def demo_input_def drain_controls_def handle_control_def demo_frames
        demo_request_peer demo_request_valid demo_start_eq plain_sender_default_def plain_on_need_def
        require_block_step ids next_source_block_def next_retransmit_block_def
        send_retransmit_block_def Let_def)
qed

lemma plain_sender_repairs_requested_witness:
  "\<exists>out sh m. plain_run [demo_input [], demo_input [], demo_input [demo_request]]
     (demo_shared, plain_sender_default) = Some (out, TurnContinue (sh, m)) \<and>
     block_sent demo_shared out 0 \<and> ps_queued_retransmit_blocks m = {}"
proof -
  obtain out sh m where run: "plain_run [demo_input [], demo_input [], demo_input [demo_request]]
     (demo_shared, plain_sender_default) = Some (out, TurnContinue (sh, m))"
    "ps_round_reports m = [(7, NeedPlain [\<lparr>start_block_id = 0, end_block_id = 1\<rparr>])]"
    "ps_queued_retransmit_blocks m = {}"
    using demo_turn_1 demo_turn_2 demo_turn_repair
    by (fastforce simp: plain_run_def demo_start_def)
  have "word_of_nat 0 \<in> ps_queued_retransmit_blocks m \<or> block_sent demo_shared out (word_of_nat 0)"
    by (rule plain_sender_repairs_requested [OF run(1) demo_plan_ok,
          of 7 "[\<lparr>start_block_id = 0, end_block_id = 1\<rparr>]"])
      (simp_all add: run(2) block_range_def)
  then show ?thesis using run by auto
qed

lemma changed_report_aborts_witness:
  "\<exists>st. plain_turn (demo_input [demo_request]) (demo_waiting, demo_start\<lparr>ps_source_cursor := 1,
     ps_feedback_round_open := True, ps_round_reports := [(7, NeedComplete)]\<rparr>) =
     Some ([], TurnFinished Aborted st)"
  by (rule changed_report_aborts [where p = 7 and f = demo_request and rep = NeedComplete
        and rep' = "NeedPlain [\<lparr>start_block_id = 0, end_block_id = 1\<rparr>]"])
    (simp_all add: demo_start_eq plain_sender_default_def demo_input_def demo_frames
      demo_request_peer demo_request_valid)

lemma all_complete_finishes_witness:
  "\<exists>st. plain_turn (demo_input [demo_complete])
     (demo_waiting, demo_start\<lparr>ps_source_cursor := 1, ps_feedback_round_open := True\<rparr>) =
     Some ([], TurnFinished Completed st)"
  by (rule all_complete_finishes)
    (simp_all add: plain_inv_def demo_start_eq plain_sender_default_def demo_input_def demo_frames
      demo_request_peer demo_manifest_ok complete_report_def)

end
