(* ===== verification/Fec_Sender.thy ===== *)
theory Fec_Sender
  imports Plain_Sender Session_Fec Wire_Blocks
begin

text \<open>
  The FEC-mode sender (\<open>src/dataplane/src/node/session/sender/fec.rs\<close>), one definition
  per method; \<open>fec_turn\<close> is one iteration of its loop.  What the processor pool answers
  to the submissions of an iteration is part of the iteration's input; \<open>repair\<close> is the
  codec.  Arithmetic on machine integers wraps, as in a release build.
\<close>

datatype SendOutcome = Queued | WouldBlock | SendClosed

datatype RoundPhase = SendingData | WaitingForReports

record FecSendBlock =
  fs_next_source_symbol :: u32
  fs_next_fountain_symbol :: u32
  fs_required_extra_symbols :: u16
  fs_emitted_extra_symbols :: u16
  fs_encoder :: "Encoder option"

record FecSender =
  fe_blocks :: "FecSendBlock list"
  fe_symbols_per_block :: u16
  fe_tree_ids :: "u16 list"
  fe_geometry :: SymbolGeometry
  fe_next_tree_rr :: nat
  fe_current_source_cache :: "(u64 \<times> bytes list) option"
  fe_frame_scratch :: bytes
  fe_round_source_done_sent :: bool
  fe_current_round_id :: u32
  fe_phase :: RoundPhase
  fe_round_complete :: bool
  fe_round_reports :: "(usize \<times> NeedReport) list"
  fe_repair_window_symbols :: u32
  fe_protocol_error :: bool

definition fec_sender_new :: "LosslessSessionManifest \<Rightarrow> BlockPlan \<Rightarrow> string + FecSender" where
  "fec_sender_new manifest plan =
     (case mf_mode manifest of
        ModePlain \<Rightarrow> Inl ''attempted to build fec sender for plain manifest''
      | ModeFec fec \<Rightarrow>
          (case symbol_geometry plan (fm_symbols_per_block fec) of
             Inl _ \<Rightarrow> Inl ''invalid symbol geometry for fec sender''
           | Inr geometry \<Rightarrow>
               Inr \<lparr>fe_blocks = replicate (unat (bp_total_blocks plan))
                  \<lparr>fs_next_source_symbol = 0, fs_next_fountain_symbol = ucast (fm_symbols_per_block fec),
                   fs_required_extra_symbols = 0, fs_emitted_extra_symbols = 0, fs_encoder = None\<rparr>,
                 fe_symbols_per_block = fm_symbols_per_block fec, fe_tree_ids = fm_tree_ids fec,
                 fe_geometry = geometry, fe_next_tree_rr = 0, fe_current_source_cache = None,
                 fe_frame_scratch = [], fe_round_source_done_sent = False, fe_current_round_id = 0,
                 fe_phase = SendingData, fe_round_complete = False, fe_round_reports = [],
                 fe_repair_window_symbols = 0, fe_protocol_error = False\<rparr>))"

text \<open>\<open>fec_block_mut\<close>: update a block that exists.\<close>

definition fec_block_update :: "u64 \<Rightarrow> (FecSendBlock \<Rightarrow> FecSendBlock) \<Rightarrow> FecSender \<Rightarrow> FecSender" where
  "fec_block_update block_id f m =
     (let i = unat block_id in
      if i < length (fe_blocks m) then m\<lparr>fe_blocks := (fe_blocks m)[i := f (fe_blocks m ! i)]\<rparr> else m)"

definition fec_block_ref :: "FecSender \<Rightarrow> u64 \<Rightarrow> FecSendBlock option" where
  "fec_block_ref m block_id =
     (let i = unat block_id in if i < length (fe_blocks m) then Some (fe_blocks m ! i) else None)"

section \<open>Repair accounting\<close>

definition has_pending_repair_work :: "FecSender \<Rightarrow> bool" where
  "has_pending_repair_work m \<longleftrightarrow>
     list_ex (\<lambda>b. fs_emitted_extra_symbols b < fs_required_extra_symbols b) (fe_blocks m)"

definition total_required_extra_symbols :: "FecSender \<Rightarrow> u32" where
  "total_required_extra_symbols m = sum_list (map (\<lambda>b. ucast (fs_required_extra_symbols b)) (fe_blocks m))"

definition total_emitted_extra_symbols :: "FecSender \<Rightarrow> u32" where
  "total_emitted_extra_symbols m = sum_list (map (\<lambda>b. ucast (fs_emitted_extra_symbols b)) (fe_blocks m))"

definition recalculate_repair_window :: "SenderShared \<Rightarrow> FecSender \<Rightarrow> FecSender" where
  "recalculate_repair_window sh m =
     (let total_required = total_required_extra_symbols m in
      if total_required = 0 then m\<lparr>fe_repair_window_symbols := 0\<rparr>
      else
        let report_count = u32_clamp (length (fe_round_reports m));
            quorum_size = u32_clamp (card (q_active (ss_quorum sh))) in
        if report_count = 0 \<or> quorum_size = 0 then m\<lparr>fe_repair_window_symbols := 0\<rparr>
        else
          let speculative_window =
                max (word_div_ceil (saturating_mul total_required report_count) quorum_size) 1
          in m\<lparr>fe_repair_window_symbols := min speculative_window total_required\<rparr>)"

definition raise_required :: "NeedBlock list \<Rightarrow> FecSender \<Rightarrow> FecSender" where
  "raise_required = fold (\<lambda>nb. fec_block_update (nb_block_id nb) (\<lambda>b.
     b\<lparr>fs_required_extra_symbols := max (fs_required_extra_symbols b) (nb_deficit_symbols nb)\<rparr>))"

section \<open>Rounds\<close>

text \<open>The fold over the recorded reports: whether all were Complete, or a plain report was met.\<close>

fun absorb_reports :: "(usize \<times> NeedReport) list \<Rightarrow> bool \<Rightarrow> FecSender \<Rightarrow> bool option \<times> FecSender" where
  "absorb_reports [] every m = (Some every, m)"
| "absorb_reports ((_, NeedComplete) # rs) every m = absorb_reports rs every m"
| "absorb_reports ((_, NeedFec blocks) # rs) every m =
     absorb_reports rs False (raise_required blocks m)"
| "absorb_reports ((_, NeedPlain _) # rs) every m = (None, m\<lparr>fe_protocol_error := True\<rparr>)"

definition reopen_round :: "FecSender \<Rightarrow> FecSender" where
  "reopen_round m =
     m\<lparr>fe_round_reports := [], fe_repair_window_symbols := 0, fe_phase := SendingData,
       fe_current_round_id := saturating_add_1 (fe_current_round_id m),
       fe_round_source_done_sent := False,
       fe_blocks := map (\<lambda>b. b\<lparr>fs_required_extra_symbols := 0, fs_emitted_extra_symbols := 0\<rparr>) (fe_blocks m)\<rparr>"

definition finish_report_round :: "SenderShared \<times> FecSender \<Rightarrow> SenderShared \<times> FecSender" where
  "finish_report_round = (\<lambda>(sh, m).
     case absorb_reports (fe_round_reports m) True m of
       (None, m) \<Rightarrow> (sh, m)
     | (Some every, m) \<Rightarrow>
         if every then (sh, m\<lparr>fe_round_complete := True\<rparr>)
         else if has_pending_repair_work m then (sh, m)
         else (clear_quorum_feedback_wait sh, reopen_round m))"

definition all_reported :: "SenderShared \<Rightarrow> FecSender \<Rightarrow> bool" where
  "all_reported sh m \<longleftrightarrow> length (fe_round_reports m) = card (q_active (ss_quorum sh))"

definition fec_on_need :: "FecSender on_need" where
  "fec_on_need sh peer_id round_id report m =
     (if fe_phase m \<noteq> WaitingForReports then (sh, m)
      else if round_id \<noteq> fe_current_round_id m then (sh, m)
      else case map_of (fe_round_reports m) peer_id of
          Some existing \<Rightarrow> (sh, if existing \<noteq> report then m\<lparr>fe_protocol_error := True\<rparr> else m)
        | None \<Rightarrow>
            let m = m\<lparr>fe_round_reports := btree_insert peer_id report (fe_round_reports m)\<rparr> in
            case (case report of
                NeedComplete \<Rightarrow> Some m
              | NeedFec blocks \<Rightarrow> Some (raise_required blocks m)
              | NeedPlain _ \<Rightarrow> None) of
              None \<Rightarrow> (sh, m\<lparr>fe_protocol_error := True\<rparr>)
            | Some m \<Rightarrow>
                let m = recalculate_repair_window sh m in
                if all_reported sh m \<and> \<not> has_pending_repair_work m then finish_report_round (sh, m)
                else (sh, m))"

definition fec_pending_feedback_peers :: "SenderShared \<Rightarrow> FecSender \<Rightarrow> usize set" where
  "fec_pending_feedback_peers sh m =
     {p \<in> q_active (ss_quorum sh). map_of (fe_round_reports m) p = None}"

definition begin_report_round :: "SenderShared \<Rightarrow> FecSender \<Rightarrow> (outputs \<times> FecSender) may_panic" where
  "begin_report_round sh m =
     (if fe_phase m = WaitingForReports then Some ([], m)
      else map_option (\<lambda>out. (out, m\<lparr>fe_round_reports := [], fe_phase := WaitingForReports\<rparr>))
        (send_source_done sh (fe_current_round_id m)))"

section \<open>Choosing and sending symbols\<close>

text \<open>The first block, with its index, that satisfies a condition.\<close>

fun first_block :: "(FecSendBlock \<Rightarrow> bool) \<Rightarrow> nat \<Rightarrow> FecSendBlock list \<Rightarrow> (u64 \<times> FecSendBlock) option" where
  "first_block P i [] = None"
| "first_block P i (b # bs) = (if P b then Some (word_of_nat i, b) else first_block P (Suc i) bs)"

definition next_source_symbol :: "FecSender \<Rightarrow> (u64 \<times> u32) option" where
  "next_source_symbol m =
     map_option (\<lambda>(i, b). (i, fs_next_source_symbol b))
       (first_block (\<lambda>b. fs_next_source_symbol b < ucast (fe_symbols_per_block m) \<and>
          fe_phase m = SendingData) 0 (fe_blocks m))"

definition next_extra_symbol :: "FecSender \<Rightarrow> (u64 \<times> u32) option" where
  "next_extra_symbol m =
     (if fe_repair_window_symbols m \<le> total_emitted_extra_symbols m then None
      else map_option (\<lambda>(i, b). (i, fs_next_fountain_symbol b))
        (first_block (\<lambda>b. fs_emitted_extra_symbols b < fs_required_extra_symbols b) 0 (fe_blocks m)))"

text \<open>The trees are tried in turn from the round-robin cursor; \<open>admit k\<close> is the answer to the
  \<open>k\<close>-th submission.  Outside: the scratch frame did not accept the patch.\<close>

fun try_trees :: "(nat \<Rightarrow> SendOutcome) \<Rightarrow> SenderShared \<Rightarrow> u16 list \<Rightarrow> nat \<Rightarrow> nat \<Rightarrow> bytes \<Rightarrow> nat list \<Rightarrow>
    (outputs \<times> bytes \<times> nat option) may_panic" where
  "try_trees admit sh tree_ids tree_count start_idx scratch [] = Some ([], scratch, None)"
| "try_trees admit sh tree_ids tree_count start_idx scratch (offset # offsets) =
     (let idx = (start_idx + offset) mod tree_count; tree_id = tree_ids ! idx in
      case (if 0 < offset then patch_tree_id scratch tree_id else Some scratch) of
        None \<Rightarrow> None
      | Some scratch \<Rightarrow>
          (case admit offset of
             Queued \<Rightarrow> Some ([(sender_route sh (Some tree_id), scratch)], scratch, Some ((idx + 1) mod tree_count))
           | _ \<Rightarrow> try_trees admit sh tree_ids tree_count start_idx scratch offsets))"

definition try_send_symbol :: "(nat \<Rightarrow> SendOutcome) \<Rightarrow> SenderShared \<Rightarrow> u64 \<Rightarrow> u32 \<Rightarrow> bytes \<Rightarrow>
    FecSender \<Rightarrow> (outputs \<times> bool \<times> FecSender) may_panic" where
  "try_send_symbol admit sh block_id symbol_id payload m =
     (if fe_tree_ids m = [] then Some ([], False, m)
      else
        let tree_count = length (fe_tree_ids m); start_idx = fe_next_tree_rr m in
        if tree_count \<le> start_idx then None
        else
          let scratch = scratch_encode_into (fe_frame_scratch m) (ss_session_id sh) block_id symbol_id
                (fe_tree_ids m ! start_idx) payload
          in map_option (\<lambda>(out, scratch, sent).
              (case sent of
                 Some rr \<Rightarrow> (out, True, m\<lparr>fe_frame_scratch := scratch, fe_next_tree_rr := rr\<rparr>)
               | None \<Rightarrow> (out, False, m\<lparr>fe_frame_scratch := scratch\<rparr>)))
            (try_trees admit sh (fe_tree_ids m) tree_count start_idx scratch [0 ..< tree_count]))"

definition ensure_source_symbol_cache :: "SenderShared \<Rightarrow> u64 \<Rightarrow> FecSender \<Rightarrow> FecSender option" where
  "ensure_source_symbol_cache sh block_id m =
     (if (case fe_current_source_cache m of Some (cached, _) \<Rightarrow> cached = block_id | None \<Rightarrow> False)
      then Some m
      else map_option (\<lambda>span. m\<lparr>fe_current_source_cache :=
              Some (block_id, block_source_symbols (ss_source sh) span (fe_geometry m))\<rparr>)
        (block_span (ss_plan sh) block_id))"

definition source_symbol_payload :: "SenderShared \<Rightarrow> u64 \<Rightarrow> u32 \<Rightarrow> FecSender \<Rightarrow> bytes option \<times> FecSender" where
  "source_symbol_payload sh block_id symbol_id m =
     (case ensure_source_symbol_cache sh block_id m of
        None \<Rightarrow> (None, m)
      | Some m \<Rightarrow>
          (case fe_current_source_cache m of
             None \<Rightarrow> (None, m)
           | Some (_, symbols) \<Rightarrow>
               (if unat symbol_id < length symbols then Some (symbols ! unat symbol_id) else None, m)))"

text \<open>\<open>ensure_encoder\<close>: the encoder of a block is built with its first repair symbol.  Outside, the
  codec panicked; inside, the block has no span.\<close>

definition ensure_encoder :: "SenderShared \<Rightarrow> u64 \<Rightarrow> FecSendBlock \<Rightarrow> FecSender \<Rightarrow> FecSender option may_panic" where
  "ensure_encoder sh block_id block m =
     (if fs_encoder block = None then
        (case block_span (ss_plan sh) block_id of
           None \<Rightarrow> Some None
         | Some span \<Rightarrow>
             let source_block = padded_symbol_bytes (ss_source sh) span (fe_geometry m);
                 params = block_params_new (unat (fe_symbols_per_block m))
                   (symbol_size (fe_geometry m)) (block_seed (ss_session_id sh) block_id)
             in map_option (\<lambda>encoder. Some (fec_block_update block_id (\<lambda>b. b\<lparr>fs_encoder := encoder\<rparr>) m))
                  (encoder_from_block params source_block))
      else Some (Some m))"

definition extra_symbol_payload :: "repair \<Rightarrow> SenderShared \<Rightarrow> u64 \<Rightarrow> u32 \<Rightarrow> FecSender \<Rightarrow>
    (bytes option \<times> FecSender) may_panic" where
  "extra_symbol_payload repair sh block_id symbol_id m =
     (case fec_block_ref m block_id of
        None \<Rightarrow> Some (None, m)
      | Some block \<Rightarrow>
          (case ensure_encoder sh block_id block m of
             None \<Rightarrow> None
           | Some None \<Rightarrow> Some (None, m)
           | Some (Some m) \<Rightarrow>
               (case Option.bind (fec_block_ref m block_id) fs_encoder of
                  None \<Rightarrow> Some (None, m)
                | Some encoder \<Rightarrow>
                    map_option (\<lambda>payload. (Some payload, m)) (encoder_coded_symbol repair encoder symbol_id))))"

definition send_source_symbol :: "(nat \<Rightarrow> SendOutcome) \<Rightarrow> u64 \<Rightarrow> u32 \<Rightarrow> SenderShared \<times> FecSender \<Rightarrow>
    (outputs \<times> bool \<times> (SenderShared \<times> FecSender)) may_panic" where
  "send_source_symbol admit block_id symbol_id = (\<lambda>(sh, m).
     case source_symbol_payload sh block_id symbol_id m of
       (None, m) \<Rightarrow> Some ([], False, (sh, m))
     | (Some payload, m) \<Rightarrow>
         map_option (\<lambda>(out, sent, m).
             if \<not> sent then (out, False, (sh, m))
             else (out, True, (mark_payload_emitted sh,
               fec_block_update block_id
                 (\<lambda>b. b\<lparr>fs_next_source_symbol := fs_next_source_symbol b + 1\<rparr>) m)))
           (try_send_symbol admit sh block_id symbol_id payload m))"

definition send_extra_symbol :: "repair \<Rightarrow> (nat \<Rightarrow> SendOutcome) \<Rightarrow> u64 \<Rightarrow> u32 \<Rightarrow>
    SenderShared \<times> FecSender \<Rightarrow> (outputs \<times> bool \<times> (SenderShared \<times> FecSender)) may_panic" where
  "send_extra_symbol repair admit block_id symbol_id = (\<lambda>(sh, m).
     case extra_symbol_payload repair sh block_id symbol_id m of
       None \<Rightarrow> None
     | Some (None, m) \<Rightarrow> Some ([], False, (sh, m))
     | Some (Some payload, m) \<Rightarrow>
         map_option (\<lambda>(out, sent, m).
             if \<not> sent then (out, False, (sh, m))
             else (out, True, (mark_payload_emitted sh,
               fec_block_update block_id
                 (\<lambda>b. b\<lparr>fs_emitted_extra_symbols := saturating_add_1 (fs_emitted_extra_symbols b),
                        fs_next_fountain_symbol := fs_next_fountain_symbol b + 1\<rparr>) m)))
           (try_send_symbol admit sh block_id symbol_id payload m))"

section \<open>The loop\<close>

record FecTurnInput = TurnInput +
  fti_admit :: "nat \<Rightarrow> SendOutcome"

text \<open>After an attempt to send: on, or wait for a signal first.\<close>

definition fec_after_send :: "FecTurnInput \<Rightarrow> outputs \<times> bool \<times> (SenderShared \<times> FecSender) \<Rightarrow>
    outputs \<times> FecSender Turn" where
  "fec_after_send inp = (\<lambda>(out, sent, st).
     if sent then (out, TurnContinue st)
     else
       let (open', st) = wait_for_signal fec_on_need (ti_wake inp) st
       in (out, if open' then TurnContinue st else TurnFinished Aborted st))"

definition fec_feedback :: "FecTurnInput \<Rightarrow> SenderShared \<times> FecSender \<Rightarrow>
    (outputs \<times> FecSender Turn) may_panic" where
  "fec_feedback inp = (\<lambda>(sh, m).
     if \<not> fe_round_source_done_sent m then
       map_option (\<lambda>(out, m).
           let m = m\<lparr>fe_round_source_done_sent := True\<rparr> in
           (out, if active_quorum_is_empty sh then
               TurnFinished Completed (sh, m\<lparr>fe_round_complete := True\<rparr>)
             else TurnContinue (start_quorum_feedback_wait (ti_now inp) sh, m)))
         (begin_report_round sh m)
     else if fe_phase m = WaitingForReports \<and> all_reported sh m then
       Some ([], TurnContinue (finish_report_round (sh, m)))
     else
       map_option (\<lambda>(out, outcome, st).
           (out, if outcome = WaitTimedOut \<or> outcome = WaitClosed then TurnFinished Aborted st
                 else TurnContinue st))
         (wait_for_quorum_feedback fec_on_need (fe_current_round_id m) (ti_wake inp)
            (ti_wake_now inp) (sh, m)))"

definition fec_turn :: "repair \<Rightarrow> FecTurnInput \<Rightarrow> SenderShared \<times> FecSender \<Rightarrow>
    (outputs \<times> FecSender Turn) may_panic" where
  "fec_turn repair inp st =
     (if fe_round_complete (snd st) then Some ([], TurnFinished Completed st)
      else
        let st = drain_controls fec_on_need (ti_drained inp) st; m = snd st in
        if fe_protocol_error m then Some ([], TurnFinished Aborted st)
        else case next_source_symbol m of
          Some (block_id, symbol_id) \<Rightarrow>
            map_option (\<lambda>(out, sent, st).
                fec_after_send inp (out, sent,
                  if sent then (fst st, (snd st)\<lparr>fe_round_source_done_sent := False\<rparr>) else st))
              (send_source_symbol (fti_admit inp) block_id symbol_id st)
        | None \<Rightarrow>
            (case next_extra_symbol m of
               Some (block_id, symbol_id) \<Rightarrow>
                 map_option (fec_after_send inp) (send_extra_symbol repair (fti_admit inp) block_id symbol_id st)
             | None \<Rightarrow>
                 (case (if has_pending_repair_work m then next_extra_symbol m else None) of
                    Some (block_id, symbol_id) \<Rightarrow>
                      map_option (fec_after_send inp)
                        (send_extra_symbol repair (fti_admit inp) block_id symbol_id st)
                  | None \<Rightarrow> fec_feedback inp st)))"

fun fec_loop :: "repair \<Rightarrow> FecTurnInput list \<Rightarrow> SenderShared \<times> FecSender \<Rightarrow>
    (outputs \<times> FecSender Turn) may_panic" where
  "fec_loop repair [] st = Some ([], TurnContinue st)"
| "fec_loop repair (inp # inps) st =
     (case fec_turn repair inp st of
        None \<Rightarrow> None
      | Some (out, TurnContinue st') \<Rightarrow>
          map_option (\<lambda>(out', r). (out @ out', r)) (fec_loop repair inps st')
      | Some (out, TurnFinished oc st') \<Rightarrow> Some (out, TurnFinished oc st'))"

definition fec_run :: "repair \<Rightarrow> FecTurnInput list \<Rightarrow> SenderShared \<times> FecSender \<Rightarrow>
    (outputs \<times> FecSender Turn) may_panic" where
  "fec_run = fec_loop"

section \<open>What feedback leaves alone\<close>

text \<open>The part of a block only the send path writes.\<close>

definition send_view :: "FecSendBlock \<Rightarrow> u32 \<times> u32 \<times> Encoder option" where
  "send_view b = (fs_next_source_symbol b, fs_next_fountain_symbol b, fs_encoder b)"

definition same_send :: "FecSender \<Rightarrow> FecSender \<Rightarrow> bool" where
  "same_send m m' \<longleftrightarrow>
     map send_view (fe_blocks m') = map send_view (fe_blocks m) \<and>
     fe_symbols_per_block m' = fe_symbols_per_block m \<and> fe_tree_ids m' = fe_tree_ids m \<and>
     fe_geometry m' = fe_geometry m \<and> fe_next_tree_rr m' = fe_next_tree_rr m \<and>
     fe_current_source_cache m' = fe_current_source_cache m \<and>
     (fe_phase m' = WaitingForReports \<longrightarrow> fe_phase m = WaitingForReports)"

lemma same_send_refl [simp]: "same_send m m"
  by (simp add: same_send_def)

lemma same_send_trans: "same_send a b \<Longrightarrow> same_send b c \<Longrightarrow> same_send a c"
  by (simp add: same_send_def)

lemma same_send_updates [simp]:
  "same_send m (m\<lparr>fe_round_reports := R\<rparr>)" "same_send m (m\<lparr>fe_repair_window_symbols := w\<rparr>)"
  "same_send m (m\<lparr>fe_protocol_error := e\<rparr>)" "same_send m (m\<lparr>fe_round_complete := c\<rparr>)"
  "same_send m (reopen_round m)" "same_send m (recalculate_repair_window sh m)"
  by (simp_all add: same_send_def reopen_round_def recalculate_repair_window_def Let_def
      send_view_def comp_def)

lemma fec_block_update_fields [simp]:
  "fe_round_reports (fec_block_update b f m) = fe_round_reports m"
  "fe_phase (fec_block_update b f m) = fe_phase m"
  "fe_round_complete (fec_block_update b f m) = fe_round_complete m"
  "fe_current_round_id (fec_block_update b f m) = fe_current_round_id m"
  "fe_protocol_error (fec_block_update b f m) = fe_protocol_error m"
  "fe_symbols_per_block (fec_block_update b f m) = fe_symbols_per_block m"
  "fe_tree_ids (fec_block_update b f m) = fe_tree_ids m"
  "fe_geometry (fec_block_update b f m) = fe_geometry m"
  "fe_next_tree_rr (fec_block_update b f m) = fe_next_tree_rr m"
  "fe_current_source_cache (fec_block_update b f m) = fe_current_source_cache m"
  "fe_round_source_done_sent (fec_block_update b f m) = fe_round_source_done_sent m"
  "length (fe_blocks (fec_block_update b f m)) = length (fe_blocks m)"
  by (simp_all add: fec_block_update_def Let_def)

lemma same_send_block_update:
  "(\<And>b. send_view (f b) = send_view b) \<Longrightarrow> same_send m (fec_block_update i f m)"
  by (simp add: same_send_def) (simp add: fec_block_update_def Let_def map_update list_update_same_conv)

lemma raise_required_simps [simp]:
  "raise_required [] m = m"
  "raise_required (nb # nbs) m = raise_required nbs (fec_block_update (nb_block_id nb) (\<lambda>b.
     b\<lparr>fs_required_extra_symbols := max (fs_required_extra_symbols b) (nb_deficit_symbols nb)\<rparr>) m)"
  by (simp_all add: raise_required_def)

lemma raise_required_fields [simp]:
  "fe_round_reports (raise_required nbs m) = fe_round_reports m"
  "fe_phase (raise_required nbs m) = fe_phase m"
  "fe_round_complete (raise_required nbs m) = fe_round_complete m"
  "fe_current_round_id (raise_required nbs m) = fe_current_round_id m"
  "fe_protocol_error (raise_required nbs m) = fe_protocol_error m"
  by (induction nbs arbitrary: m) simp_all

lemma same_send_raise_required [simp]: "same_send m (raise_required nbs m)"
proof (induction nbs arbitrary: m)
  case (Cons nb nbs)
  show ?case
    unfolding raise_required_simps
    by (rule same_send_trans [OF same_send_block_update Cons]) (simp add: send_view_def)
qed simp

lemma recalculate_fields [simp]:
  "fe_round_reports (recalculate_repair_window sh m) = fe_round_reports m"
  "fe_phase (recalculate_repair_window sh m) = fe_phase m"
  "fe_round_complete (recalculate_repair_window sh m) = fe_round_complete m"
  "fe_current_round_id (recalculate_repair_window sh m) = fe_current_round_id m"
  "fe_protocol_error (recalculate_repair_window sh m) = fe_protocol_error m"
  "fe_blocks (recalculate_repair_window sh m) = fe_blocks m"
  by (simp_all add: recalculate_repair_window_def Let_def)

lemma absorb_reports_keeps:
  assumes "absorb_reports rs a m = (r, m')"
  shows "same_send m m'" "fe_round_reports m' = fe_round_reports m" "fe_phase m' = fe_phase m"
    "fe_round_complete m' = fe_round_complete m" "fe_current_round_id m' = fe_current_round_id m"
  using assms
  by (induction rs a m rule: absorb_reports.induct)
    (auto intro: same_send_trans [OF same_send_raise_required])

lemma absorb_reports_True:
  assumes "absorb_reports rs a m = (Some True, m')"
  shows "a \<and> (\<forall>(p, r)\<in>set rs. r = NeedComplete) \<and> m' = m"
  using assms by (induction rs a m rule: absorb_reports.induct) auto

lemma absorb_reports_complete:
  "\<forall>(p, r)\<in>set rs. r = NeedComplete \<Longrightarrow> absorb_reports rs a m = (Some a, m)"
  by (induction rs a m rule: absorb_reports.induct) auto

text \<open>The three ways a report round ends: completion, reopening, or not yet.\<close>

lemma finish_report_round_cases:
  assumes "finish_report_round (sh, m) = (sh', m')"
  obtains (complete) "sh' = sh" "m' = m\<lparr>fe_round_complete := True\<rparr>"
      "\<forall>(p, r)\<in>set (fe_round_reports m). r = NeedComplete"
  | (more) a where "sh' = sh" "absorb_reports (fe_round_reports m) True m = (a, m')"
  | (reopen) m1 where "sh' = clear_quorum_feedback_wait sh" "m' = reopen_round m1"
      "absorb_reports (fe_round_reports m) True m = (Some False, m1)" "\<not> has_pending_repair_work m1"
proof -
  obtain a m1 where ab: "absorb_reports (fe_round_reports m) True m = (a, m1)" by fastforce
  then show thesis
    using assms complete more reopen absorb_reports_True [of "fe_round_reports m" True m m1]
    by (cases a) (auto simp: finish_report_round_def split: if_splits)
qed

lemma finish_report_round_same_send:
  assumes "finish_report_round (sh, m) = (sh', m')"
  shows "same_send m m'" "same_shell sh sh'"
  using assms
  by (cases rule: finish_report_round_cases;
      auto dest: absorb_reports_keeps(1) intro: same_send_trans)+

text \<open>The ways a Need acts on the sender.\<close>

lemma fec_on_need_cases:
  assumes "fec_on_need sh p r rep m = (sh', m')"
  obtains (drop) "sh' = sh" "m' = m"
  | (changed) "sh' = sh" "m' = m\<lparr>fe_protocol_error := True\<rparr>"
  | (mismatch) "fe_phase m = WaitingForReports" "r = fe_current_round_id m"
      "map_of (fe_round_reports m) p = None" "sh' = sh"
      "m' = m\<lparr>fe_round_reports := btree_insert p rep (fe_round_reports m), fe_protocol_error := True\<rparr>"
  | (recorded) m1 where "fe_phase m = WaitingForReports" "r = fe_current_round_id m"
      "map_of (fe_round_reports m) p = None" "same_send m m1"
      "fe_round_reports m1 = btree_insert p rep (fe_round_reports m)"
      "fe_phase m1 = WaitingForReports" "fe_round_complete m1 = fe_round_complete m"
      "fe_current_round_id m1 = fe_current_round_id m"
      "(sh', m') = (sh, m1) \<or> all_reported sh m1 \<and> finish_report_round (sh, m1) = (sh', m')"
proof -
  let ?m = "m\<lparr>fe_round_reports := btree_insert p rep (fe_round_reports m)\<rparr>"
  consider "fe_phase m \<noteq> WaitingForReports \<or> r \<noteq> fe_current_round_id m"
    | existing where "fe_phase m = WaitingForReports" "r = fe_current_round_id m"
      "map_of (fe_round_reports m) p = Some existing"
    | "fe_phase m = WaitingForReports" "r = fe_current_round_id m"
      "map_of (fe_round_reports m) p = None"
    by (cases "map_of (fe_round_reports m) p") auto
  then show thesis
  proof cases
    case 1
    then have "fec_on_need sh p r rep m = (sh, m)"
      by (cases "fe_phase m = WaitingForReports") (simp_all add: fec_on_need_def)
    then show thesis using assms drop by simp
  next
    case 2
    then have "fec_on_need sh p r rep m =
        (sh, if existing \<noteq> rep then m\<lparr>fe_protocol_error := True\<rparr> else m)"
      by (simp add: fec_on_need_def)
    then have "(sh', m') = (sh, m) \<or> (sh', m') = (sh, m\<lparr>fe_protocol_error := True\<rparr>)"
      using assms by (cases "existing \<noteq> rep") (simp_all only: simp_thms if_True if_False)
    then show thesis using drop changed by blast
  next
    case 3
    define act where "act bs = (let m = recalculate_repair_window sh (raise_required bs ?m) in
        if all_reported sh m \<and> \<not> has_pending_repair_work m then finish_report_round (sh, m)
        else (sh, m))" for bs
    have rec: thesis if a: "act bs = (sh', m')" for bs
    proof -
      let ?m1 = "recalculate_repair_window sh (raise_required bs ?m)"
      have same: "same_send m ?m1"
        by (rule same_send_trans [OF same_send_updates(1)
              same_send_trans [OF same_send_raise_required same_send_updates(6)]])
      have "(sh', m') = (sh, ?m1) \<or> all_reported sh ?m1 \<and> finish_report_round (sh, ?m1) = (sh', m')"
        using a unfolding act_def Let_def by (auto split: if_split_asm)
      then show thesis
        by (rule recorded [OF 3 same, rotated -1]) (simp_all add: 3)
    qed
    show thesis
    proof (cases rep)
      case NeedComplete
      then show thesis using assms 3 rec [of "[]"] by (simp add: fec_on_need_def act_def Let_def)
    next
      case (NeedPlain rs)
      then show thesis using assms 3 mismatch by (simp add: fec_on_need_def Let_def)
    next
      case (NeedFec bs)
      then show thesis using assms 3 rec [of bs] by (simp add: fec_on_need_def act_def Let_def)
    qed
  qed
qed

section \<open>The invariant\<close>

text \<open>The reports recorded are those of distinct quorum members for the open round; a
  completed round has a Complete report of each member.  The quorum is frozen when a mode
  starts to run.\<close>

definition fec_round_inv :: "(usize \<Rightarrow> u32 \<Rightarrow> NeedReport \<Rightarrow> bool) \<Rightarrow> SenderShared \<Rightarrow> FecSender \<Rightarrow> bool" where
  "fec_round_inv ok sh m \<longleftrightarrow>
     q_frozen (ss_quorum sh) \<and> distinct (map fst (fe_round_reports m)) \<and>
     fst ` set (fe_round_reports m) \<subseteq> q_active (ss_quorum sh) \<and>
     (\<forall>(p, r)\<in>set (fe_round_reports m). ok p (fe_current_round_id m) r) \<and>
     (fe_round_complete m \<longrightarrow> all_reported sh m \<and> fe_phase m = WaitingForReports \<and>
        (\<forall>(p, r)\<in>set (fe_round_reports m). r = NeedComplete))"

text \<open>What the send path maintains, \<open>n\<close> repair symbols of one block into the run.\<close>

definition fec_block_inv :: "SenderShared \<Rightarrow> FecSender \<Rightarrow> nat \<Rightarrow> u64 \<Rightarrow> u32 \<times> u32 \<times> Encoder option \<Rightarrow> bool" where
  "fec_block_inv sh m n b = (\<lambda>(src, fountain, encoder).
     unat src \<le> unat (fe_symbols_per_block m) \<and>
     (fe_phase m = WaitingForReports \<longrightarrow> unat src = unat (fe_symbols_per_block m)) \<and>
     unat (fe_symbols_per_block m) \<le> unat fountain \<and>
     unat fountain \<le> unat (fe_symbols_per_block m) + n \<and>
     (\<forall>e. encoder = Some e \<longrightarrow> (\<exists>span. block_span (ss_plan sh) b = Some span \<and>
        Some encoder = encoder_from_block
          (block_params_new (unat (fe_symbols_per_block m)) (symbol_size (fe_geometry m))
             (block_seed (ss_session_id sh) b))
          (padded_symbol_bytes (ss_source sh) span (fe_geometry m)))))"

definition fec_send_inv :: "nat \<Rightarrow> SenderShared \<Rightarrow> FecSender \<Rightarrow> bool" where
  "fec_send_inv n sh m \<longleftrightarrow>
     plan_ok (ss_plan sh) \<and>
     symbol_geometry (ss_plan sh) (fe_symbols_per_block m) = Inr (fe_geometry m) \<and>
     symbol_size (fe_geometry m) < 2 ^ 16 \<and>
     (fe_tree_ids m \<noteq> [] \<longrightarrow> fe_next_tree_rr m < length (fe_tree_ids m)) \<and>
     (\<forall>b syms. fe_current_source_cache m = Some (b, syms) \<longrightarrow>
        (\<exists>span. block_span (ss_plan sh) b = Some span \<and>
          syms = block_source_symbols (ss_source sh) span (fe_geometry m))) \<and>
     length (map send_view (fe_blocks m)) = unat (bp_total_blocks (ss_plan sh)) \<and>
     (\<forall>i < length (map send_view (fe_blocks m)).
        fec_block_inv sh m n (word_of_nat i) (map send_view (fe_blocks m) ! i))"

definition fec_inv :: "(usize \<Rightarrow> u32 \<Rightarrow> NeedReport \<Rightarrow> bool) \<Rightarrow> nat \<Rightarrow> SenderShared \<Rightarrow> FecSender \<Rightarrow> bool" where
  "fec_inv ok n sh m \<longleftrightarrow> fec_round_inv ok sh m \<and> fec_send_inv n sh m"

lemma fec_block_inv_same_send:
  "same_send m m' \<Longrightarrow> fec_block_inv sh m n b v \<Longrightarrow> fec_block_inv sh m' n b v"
  by (auto simp: fec_block_inv_def same_send_def)

lemma fec_send_inv_same_send:
  assumes "same_send m m'" "fec_send_inv n sh m"
  shows "fec_send_inv n sh m'"
  using assms(2) fec_block_inv_same_send [OF assms(1)] assms(1)
  by (simp only: fec_send_inv_def same_send_def) simp

lemma fec_send_inv_shell:
  assumes "same_shell sh sh'" shows "fec_send_inv n sh' m \<longleftrightarrow> fec_send_inv n sh m"
  using assms by (simp only: fec_send_inv_def fec_block_inv_def same_shell_def)

lemma fec_inv_liveness [simp]: "fec_inv ok n (sh\<lparr>ss_liveness := l\<rparr>) m \<longleftrightarrow> fec_inv ok n sh m"
  using fec_send_inv_shell [OF same_shell_updates(1) [of sh l]]
  by (simp add: fec_inv_def fec_round_inv_def all_reported_def)

lemma all_reported_members:
  assumes "fec_round_inv ok sh m" "all_reported sh m"
  shows "fst ` set (fe_round_reports m) = q_active (ss_quorum sh)"
proof -
  have "card (fst ` set (fe_round_reports m)) = length (fe_round_reports m)"
    using assms(1) distinct_card [of "map fst (fe_round_reports m)"] by (simp add: fec_round_inv_def)
  then show ?thesis
    using assms card_subset_eq [of "q_active (ss_quorum sh)" "fst ` set (fe_round_reports m)"]
    by (simp add: fec_round_inv_def all_reported_def)
qed

lemma complete_round_told:
  assumes "fec_round_inv ok sh m" "fe_round_complete m" "p \<in> q_active (ss_quorum sh)"
  shows "ok p (fe_current_round_id m) NeedComplete"
proof -
  have "p \<in> fst ` set (fe_round_reports m)"
    using all_reported_members [OF assms(1)] assms by (simp add: fec_round_inv_def)
  then obtain r where "(p, r) \<in> set (fe_round_reports m)" by fastforce
  then show ?thesis using assms by (auto simp: fec_round_inv_def)
qed

lemma fec_round_inv_finish:
  assumes "fec_round_inv ok sh m" "all_reported sh m" "fe_phase m = WaitingForReports"
    and "finish_report_round (sh, m) = (sh', m')"
  shows "fec_round_inv ok sh' m'"
  using assms(4)
proof (cases rule: finish_report_round_cases)
  case complete
  then show ?thesis using assms(1-3) by (simp add: fec_round_inv_def all_reported_def)
next
  case (more a)
  then show ?thesis
    using assms(1) absorb_reports_keeps [OF more(2)] by (simp add: fec_round_inv_def all_reported_def)
next
  case (reopen m1)
  have nc: "\<not> fe_round_complete m"
  proof
    assume "fe_round_complete m"
    then have "\<forall>(p, r)\<in>set (fe_round_reports m). r = NeedComplete"
      using assms(1) by (simp add: fec_round_inv_def)
    then have "absorb_reports (fe_round_reports m) True m = (Some True, m)"
      by (rule absorb_reports_complete)
    then show False using reopen(3) by simp
  qed
  then show ?thesis
    using assms(1) absorb_reports_keeps [OF reopen(3)] reopen(1,2)
    by (simp add: fec_round_inv_def reopen_round_def clear_quorum_feedback_wait_def)
qed

lemma distinct_btree_insert:
  "distinct (map fst m) \<Longrightarrow> map_of m k = None \<Longrightarrow> distinct (map fst (btree_insert k v m))"
  by (induction m) (auto simp: map_of_eq_None_iff_btree [symmetric] split: if_splits)

lemma fec_inv_on_need:
  assumes inv: "fec_inv ok n sh m" and p: "p \<in> q_active (ss_quorum sh)" and ok: "ok p r rep"
    and need: "fec_on_need sh p r rep m = (sh', m')"
  shows "fec_inv ok n sh' m' \<and> same_shell sh sh'"
proof -
  have send: "fec_send_inv n sh m" and rnd: "fec_round_inv ok sh m"
    using inv by (simp_all add: fec_inv_def)
  have ins: "set (btree_insert p rep (fe_round_reports m)) \<subseteq> insert (p, rep) (set (fe_round_reports m))"
    by (rule set_btree_insert)
  have fresh: "\<not> fe_round_complete m" if "map_of (fe_round_reports m) p = None"
    using all_reported_members [OF rnd] p that rnd
    by (auto simp: fec_round_inv_def map_of_eq_None_iff_btree)
  have extended: "fec_round_inv ok sh m1"
    if "map_of (fe_round_reports m) p = None" "r = fe_current_round_id m"
      "fe_round_reports m1 = btree_insert p rep (fe_round_reports m)"
      "fe_round_complete m1 = fe_round_complete m" "fe_current_round_id m1 = fe_current_round_id m" for m1
    using rnd that ins ok p fresh [OF that(1)] distinct_btree_insert [OF _ that(1)]
    by (auto simp: fec_round_inv_def)
  from need show "fec_inv ok n sh' m' \<and> same_shell sh sh'"
  proof (cases rule: fec_on_need_cases)
    case drop
    then show ?thesis using inv by simp_all
  next
    case changed
    have "fec_round_inv ok sh m'" using rnd changed by (simp add: fec_round_inv_def all_reported_def)
    moreover have "fec_send_inv n sh m'" by (rule fec_send_inv_same_send [OF _ send]) (simp add: changed)
    ultimately show ?thesis using changed(1) by (simp_all add: fec_inv_def)
  next
    case mismatch
    have "same_send m m'" by (simp add: mismatch(5) same_send_def)
    then have "fec_send_inv n sh m'" by (rule fec_send_inv_same_send [OF _ send])
    moreover have "fec_round_inv ok sh m'" by (rule extended) (use mismatch in simp_all)
    ultimately show ?thesis using mismatch(4) by (simp_all add: fec_inv_def)
  next
    case (recorded m1)
    have s1: "fec_send_inv n sh m1" by (rule fec_send_inv_same_send [OF recorded(4) send])
    have r1: "fec_round_inv ok sh m1" by (rule extended) (use recorded in simp_all)
    from recorded(9) show "fec_inv ok n sh' m' \<and> same_shell sh sh'"
    proof (elim disjE conjE)
      assume "(sh', m') = (sh, m1)"
      then show ?thesis using s1 r1 by (simp_all add: fec_inv_def)
    next
      assume all: "all_reported sh m1" and fin: "finish_report_round (sh, m1) = (sh', m')"
      note keep = finish_report_round_same_send [OF fin]
      have "fec_send_inv n sh' m'"
        using fec_send_inv_same_send [OF keep(1) s1] by (simp only: fec_send_inv_shell [OF keep(2)])
      then show ?thesis
        using fec_round_inv_finish [OF r1 all recorded(6) fin] keep(2) by (simp_all add: fec_inv_def)
    qed
  qed
qed

lemma fec_on_need_shell: "\<exists>l. fst (fec_on_need sh p r rep m) = sh\<lparr>ss_liveness := l\<rparr>"
proof -
  obtain sh' m' where need: "fec_on_need sh p r rep m = (sh', m')" by fastforce
  have fin: "sh' = sh \<or> sh' = clear_quorum_feedback_wait sh"
    if "finish_report_round (sh, m1) = (sh', m')" for m1
    using that by (cases rule: finish_report_round_cases) blast+
  from need have "sh' = sh \<or> sh' = clear_quorum_feedback_wait sh"
  proof (cases rule: fec_on_need_cases)
    case (recorded m1)
    from recorded(9) show ?thesis using fin by blast
  qed blast+
  moreover have "sh = sh\<lparr>ss_liveness := ss_liveness sh\<rparr>" by simp
  ultimately show ?thesis unfolding need fst_conv clear_quorum_feedback_wait_def by blast
qed

lemma fec_on_need_same_send: "same_send m (snd (fec_on_need sh p r rep m))"
proof -
  obtain sh' m' where need: "fec_on_need sh p r rep m = (sh', m')" by fastforce
  then have "same_send m m'"
  proof (cases rule: fec_on_need_cases)
    case (recorded m1)
    from recorded(9) show ?thesis
      using recorded(4) finish_report_round_same_send(1) [of sh m1 sh' m']
      by (auto intro: same_send_trans)
  qed (auto simp: same_send_def)
  then show ?thesis by (simp add: need)
qed

text \<open>The sender keeps its invariant under feedback, and feedback leaves the send path of the
  mode \<open>m0\<close> it started from alone.\<close>

interpretation fec_hooks: mode_hooks fec_on_need ok "\<lambda>sh m. fec_inv ok n sh m \<and> same_send m0 m"
  for ok :: "usize \<Rightarrow> u32 \<Rightarrow> NeedReport \<Rightarrow> bool" and n m0
proof
  show "\<exists>l. fst (fec_on_need sh p r rep m) = sh\<lparr>ss_liveness := l\<rparr>" for sh p r rep m
    by (rule fec_on_need_shell)
  show "fec_inv ok n (sh\<lparr>ss_liveness := l\<rparr>) m \<and> same_send m0 m \<longleftrightarrow>
      fec_inv ok n sh m \<and> same_send m0 m" for sh l m
    by simp
  show "(fec_inv ok n (sh\<lparr>ss_quorum := record_ready p (ss_quorum sh)\<rparr>) m \<and> same_send m0 m) \<and>
      fec_inv ok n (sh\<lparr>ss_quorum := freeze (ss_quorum sh)\<rparr>) m \<and> same_send m0 m"
    if "fec_inv ok n sh m \<and> same_send m0 m" "\<not> q_frozen (ss_quorum sh)" for sh m p
    using that by (simp add: fec_inv_def fec_round_inv_def)
  fix sh m p rep r
  assume inv: "fec_inv ok n sh m \<and> same_send m0 m" and "p \<in> q_active (ss_quorum sh)" "ok p r rep"
  moreover obtain sh' m' where need: "fec_on_need sh p r rep m = (sh', m')" by fastforce
  ultimately have "fec_inv ok n sh' m'" "same_shell sh sh'" using fec_inv_on_need by blast+
  moreover obtain l where "sh' = sh\<lparr>ss_liveness := l\<rparr>" using fec_on_need_shell [of sh p r rep m] need by auto
  ultimately have "fec_inv ok n sh m'"
    by simp
  moreover have "same_send m m'" using fec_on_need_same_send [of m sh p r rep] need by simp
  ultimately show "fec_inv ok n sh (snd (fec_on_need sh p r rep m)) \<and>
      same_send m0 (snd (fec_on_need sh p r rep m))"
    using inv same_send_trans unfolding need snd_conv by blast
qed

section \<open>What an attempt to send does\<close>

text \<open>\<open>own_symbol\<close>: the payload is the symbol of the block with that index, cut from the
  sender's source or coded from it.\<close>

definition own_symbol :: "repair \<Rightarrow> SenderShared \<Rightarrow> FecSender \<Rightarrow> u64 \<Rightarrow> u32 \<Rightarrow> bytes \<Rightarrow> bool" where
  "own_symbol repair sh m b i p \<longleftrightarrow> (\<exists>span. block_span (ss_plan sh) b = Some span \<and>
     genuine_symbol repair (unat (fe_symbols_per_block m)) (symbol_size (fe_geometry m))
       (padded_symbol_bytes (ss_source sh) span (fe_geometry m)) i p)"

definition own_symbol_output :: "repair \<Rightarrow> SenderShared \<Rightarrow> FecSender \<Rightarrow> u64 \<Rightarrow> u32 \<Rightarrow> FrameRoute \<times> bytes \<Rightarrow> bool" where
  "own_symbol_output repair sh m b i = (\<lambda>(route, f). \<exists>tree p. tree \<in> set (fe_tree_ids m) \<and>
     own_symbol repair sh m b i p \<and> route = sender_route sh (Some tree) \<and>
     f = encode_block_symbol (ss_session_id sh) b i tree p)"

definition source_done_output :: "SenderShared \<Rightarrow> FrameRoute \<times> bytes \<Rightarrow> bool" where
  "source_done_output sh = (\<lambda>(route, f). route = sender_route sh None \<and>
     (\<exists>r. f = control_frame (ss_session_id sh) (SourceDone r)))"

definition fec_outputs :: "repair \<Rightarrow> SenderShared \<Rightarrow> FecSender \<Rightarrow> outputs \<Rightarrow> bool" where
  "fec_outputs repair sh m out \<longleftrightarrow>
     (\<forall>o'\<in>set out. source_done_output sh o' \<or> (\<exists>b i. own_symbol_output repair sh m b i o'))"

definition symbol_sent :: "repair \<Rightarrow> SenderShared \<Rightarrow> FecSender \<Rightarrow> outputs \<Rightarrow> u64 \<Rightarrow> u32 \<Rightarrow> bool" where
  "symbol_sent repair sh m out b i \<longleftrightarrow> (\<exists>o'\<in>set out. own_symbol_output repair sh m b i o')"

definition same_code :: "FecSender \<Rightarrow> FecSender \<Rightarrow> bool" where
  "same_code m m' \<longleftrightarrow> fe_tree_ids m' = fe_tree_ids m \<and> fe_geometry m' = fe_geometry m \<and>
     fe_symbols_per_block m' = fe_symbols_per_block m"

lemma same_send_code: "same_send m m' \<Longrightarrow> same_code m m'"
  by (simp add: same_send_def same_code_def)

lemma own_symbol_output_same:
  "same_shell sh sh' \<Longrightarrow> same_code m m' \<Longrightarrow> own_symbol_output repair sh' m' = own_symbol_output repair sh m"
  "same_shell sh sh' \<Longrightarrow> source_done_output sh' = source_done_output sh"
  by (simp_all add: own_symbol_output_def own_symbol_def source_done_output_def same_shell_def
      same_code_def sender_route_def fun_eq_iff)

lemma own_symbol_length:
  assumes "own_symbol repair sh m b i p" "repair_sized repair" "fec_send_inv n sh m"
  shows "length p < 2 ^ 32 - 16"
proof -
  obtain span where span: "block_span (ss_plan sh) b = Some span" and
    gen: "genuine_symbol repair (unat (fe_symbols_per_block m)) (symbol_size (fe_geometry m))
      (padded_symbol_bytes (ss_source sh) span (fe_geometry m)) i p"
    using assms(1) by (auto simp: own_symbol_def)
  have "length p \<le> symbol_size (fe_geometry m) \<or> length p < 2 ^ 16"
    using gen assms(2) unat_u16_bound oti_fields by (auto simp: genuine_symbol_def repair_sized_def length_slice split: if_splits)
  then show ?thesis using assms(3) by (auto simp: fec_send_inv_def)
qed

text \<open>One pass over the trees: nothing was accepted, or one frame was, with its tree's id.\<close>

definition attempted :: "SenderShared \<Rightarrow> u16 list \<Rightarrow> u64 \<Rightarrow> u32 \<Rightarrow> bytes \<Rightarrow> outputs \<Rightarrow> nat option \<Rightarrow> bool" where
  "attempted sh ids b i p out sent \<longleftrightarrow> (case sent of
     None \<Rightarrow> out = []
   | Some rr \<Rightarrow> rr < length ids \<and> (\<exists>tree\<in>set ids.
       out = [(sender_route sh (Some tree), encode_block_symbol (ss_session_id sh) b i tree p)]))"

lemma try_trees_later:
  assumes "\<forall>k\<in>set offs. 0 < k" "ids \<noteq> []" "length p < 2 ^ 32 - 16"
  shows "\<exists>out scratch' sent. try_trees admit sh ids (length ids) start
      (encode_block_symbol (ss_session_id sh) b i t p) offs = Some (out, scratch', sent) \<and>
    attempted sh ids b i p out sent"
  using assms(1)
proof (induction offs arbitrary: t)
  case Nil
  show ?case by (simp add: attempted_def)
next
  case (Cons k offs)
  let ?idx = "(start + k) mod length ids"
  have idx: "?idx < length ids" "ids ! ?idx \<in> set ids" using assms(2) by simp_all
  note patch = patch_tree_id_encode [OF assms(3)]
  have pos: "\<forall>k\<in>set offs. 0 < k" using Cons.prems by simp
  obtain out scratch' sent where IH: "try_trees admit sh ids (length ids) start
      (encode_block_symbol (ss_session_id sh) b i (ids ! ?idx) p) offs = Some (out, scratch', sent)"
    "attempted sh ids b i p out sent"
    using Cons.IH [OF pos, of "ids ! ?idx"] by blast
  show ?case
  proof (cases "admit k")
    case Queued
    then show ?thesis using Cons.prems idx assms(2) by (auto simp: patch Let_def attempted_def)
  qed (use Cons.prems IH in \<open>simp_all add: patch Let_def\<close>)
qed

lemma try_trees_all:
  assumes "start < length ids" "length p < 2 ^ 32 - 16"
  shows "\<exists>out scratch' sent. try_trees admit sh ids (length ids) start
      (encode_block_symbol (ss_session_id sh) b i (ids ! start) p) [0 ..< length ids] =
        Some (out, scratch', sent) \<and>
    attempted sh ids b i p out sent"
proof -
  have ids: "ids \<noteq> []" "[0 ..< length ids] = 0 # [1 ..< length ids]" "start mod length ids = start"
    using assms(1) by (auto simp: upt_rec [of 0])
  have "\<forall>k\<in>set [1 ..< length ids]. 0 < k" by simp
  note later = try_trees_later [OF this ids(1) assms(2), of admit sh start b i "ids ! start"]
  show ?thesis
  proof (cases "admit 0")
    case Queued
    then show ?thesis using nth_mem [OF assms(1)] ids(1,3) by (auto simp: ids(2) Let_def attempted_def)
  qed (use later ids(3) in \<open>simp_all add: ids(2) Let_def\<close>)
qed

lemma scratch_encode_symbol:
  "length p < 2 ^ 32 - 16 \<Longrightarrow> scratch_encode_into buf s b i t p = encode_block_symbol s b i t p"
  by (rule block_symbol_encode(1))

lemma try_send_symbol_spec:
  assumes "fec_send_inv n sh m" "own_symbol repair sh m b i p" "repair_sized repair"
  shows "\<exists>out sent scratch rr. try_send_symbol admit sh b i p m =
      Some (out, sent, m\<lparr>fe_frame_scratch := scratch, fe_next_tree_rr := rr\<rparr>) \<and>
    (fe_tree_ids m \<noteq> [] \<longrightarrow> rr < length (fe_tree_ids m)) \<and>
    (\<not> sent \<and> out = [] \<or> sent \<and> (\<exists>o'. out = [o'] \<and> own_symbol_output repair sh m b i o'))"
proof (cases "fe_tree_ids m = []")
  case True
  then have "try_send_symbol admit sh b i p m =
      Some ([], False, m\<lparr>fe_frame_scratch := fe_frame_scratch m, fe_next_tree_rr := fe_next_tree_rr m\<rparr>)"
    by (simp add: try_send_symbol_def)
  then show ?thesis using True by blast
next
  case False
  note len = own_symbol_length [OF assms(2,3,1)]
  have start: "fe_next_tree_rr m < length (fe_tree_ids m)" using assms(1) False by (simp add: fec_send_inv_def)
  let ?scratch = "encode_block_symbol (ss_session_id sh) b i (fe_tree_ids m ! fe_next_tree_rr m) p"
  obtain out scratch' sent where tt: "try_trees admit sh (fe_tree_ids m) (length (fe_tree_ids m))
        (fe_next_tree_rr m) ?scratch [0 ..< length (fe_tree_ids m)] = Some (out, scratch', sent)"
    and res: "attempted sh (fe_tree_ids m) b i p out sent"
    using try_trees_all [OF start len, of admit sh b i] by blast
  have run: "try_send_symbol admit sh b i p m = Some (case sent of
      Some rr \<Rightarrow> (out, True, m\<lparr>fe_frame_scratch := scratch', fe_next_tree_rr := rr\<rparr>)
    | None \<Rightarrow> (out, False, m\<lparr>fe_frame_scratch := scratch'\<rparr>))"
    using False start tt by (simp add: try_send_symbol_def Let_def scratch_encode_symbol [OF len])
  show ?thesis
  proof (cases sent)
    case None
    have "m\<lparr>fe_frame_scratch := scratch'\<rparr> = m\<lparr>fe_frame_scratch := scratch', fe_next_tree_rr := fe_next_tree_rr m\<rparr>"
      by simp
    then have "try_send_symbol admit sh b i p m =
        Some (out, False, m\<lparr>fe_frame_scratch := scratch', fe_next_tree_rr := fe_next_tree_rr m\<rparr>)"
      using run unfolding None by simp
    moreover have "out = []" using res by (simp add: None attempted_def)
    ultimately show ?thesis using start by blast
  next
    case (Some rr)
    then obtain tree where "rr < length (fe_tree_ids m)" "tree \<in> set (fe_tree_ids m)"
      and out: "out = [(sender_route sh (Some tree), encode_block_symbol (ss_session_id sh) b i tree p)]"
      using res by (auto simp: attempted_def)
    moreover have "own_symbol_output repair sh m b i
        (sender_route sh (Some tree), encode_block_symbol (ss_session_id sh) b i tree p)"
      using assms(2) calculation(2) by (auto simp: own_symbol_output_def)
    ultimately show ?thesis using run unfolding Some option.case by blast
  qed
qed

section \<open>The symbols sent\<close>

lemma fec_send_inv_block:
  assumes "fec_send_inv n sh m" "unat b < length (fe_blocks m)"
  shows "fec_block_inv sh m n b (send_view (fe_blocks m ! unat b))"
  using assms by (force simp: fec_send_inv_def)

lemma fec_block_inv_mono: "fec_block_inv sh m n b v \<Longrightarrow> n \<le> n' \<Longrightarrow> fec_block_inv sh m n' b v"
  by (auto simp: fec_block_inv_def)

lemma fec_block_inv_code:
  assumes "same_code m m'" "fe_phase m' = fe_phase m"
  shows "fec_block_inv sh m' n b v \<longleftrightarrow> fec_block_inv sh m n b v"
  using assms by (simp add: fec_block_inv_def same_code_def)

lemma same_code_simps [simp]:
  "same_code m m" "same_code m (fec_block_update b f m)" "same_code m (m\<lparr>fe_phase := ph\<rparr>)"
  "same_code m (m\<lparr>fe_current_source_cache := c\<rparr>)" "same_code m (m\<lparr>fe_next_tree_rr := rr\<rparr>)"
  "same_code m (m\<lparr>fe_frame_scratch := x\<rparr>)" "same_code m (m\<lparr>fe_round_source_done_sent := d\<rparr>)"
  by (simp_all add: same_code_def)

lemma same_code_trans: "same_code a b \<Longrightarrow> same_code b c \<Longrightarrow> same_code a c"
  by (simp add: same_code_def)

lemma fec_send_inv_mono: "fec_send_inv n sh m \<Longrightarrow> n \<le> n' \<Longrightarrow> fec_send_inv n' sh m"
  by (auto simp: fec_send_inv_def intro: fec_block_inv_mono)

lemma fec_block_update_nth:
  "i < length (fe_blocks m) \<Longrightarrow> fe_blocks (fec_block_update b f m) ! i =
     (if i = unat b then f (fe_blocks m ! i) else fe_blocks m ! i)"
  by (auto simp: fec_block_update_def Let_def)

lemma fec_send_inv_update:
  assumes inv: "fec_send_inv n sh m" and le: "n \<le> n'"
    and new: "unat b < length (fe_blocks m) \<Longrightarrow>
      fec_block_inv sh m n' b (send_view (f (fe_blocks m ! unat b)))"
  shows "fec_send_inv n' sh (fec_block_update b f m)"
proof -
  have "fec_block_inv sh m n' (word_of_nat i) (send_view (fe_blocks (fec_block_update b f m) ! i))"
    if i: "i < length (fe_blocks m)" for i
  proof (cases "i = unat b")
    case True
    then show ?thesis using new i by (simp add: fec_block_update_nth)
  next
    case False
    have "fec_block_inv sh m n (word_of_nat i) (send_view (fe_blocks m ! i))"
      using inv i by (simp add: fec_send_inv_def)
    then show ?thesis using False i le by (auto simp: fec_block_update_nth intro: fec_block_inv_mono)
  qed
  then show ?thesis
    using inv fec_block_inv_code [of m "fec_block_update b f m"] by (simp add: fec_send_inv_def)
qed

text \<open>Every symbol below the source cursor of its block satisfies \<open>sent\<close>.\<close>

definition fec_sweep :: "FecSender \<Rightarrow> (u64 \<Rightarrow> u32 \<Rightarrow> bool) \<Rightarrow> bool" where
  "fec_sweep m sent \<longleftrightarrow> (\<forall>i < length (map send_view (fe_blocks m)).
     \<forall>s < fst (map send_view (fe_blocks m) ! i). sent (word_of_nat i) s)"

lemma fec_sweep_mono: "fec_sweep m P \<Longrightarrow> (\<And>b s. P b s \<Longrightarrow> Q b s) \<Longrightarrow> fec_sweep m Q"
  by (simp add: fec_sweep_def)

lemma fec_sweep_same: "map send_view (fe_blocks m') = map send_view (fe_blocks m) \<Longrightarrow>
    fec_sweep m' P \<longleftrightarrow> fec_sweep m P"
  by (simp only: fec_sweep_def)

definition fec_step :: "repair \<Rightarrow> (usize \<Rightarrow> u32 \<Rightarrow> NeedReport \<Rightarrow> bool) \<Rightarrow> nat \<Rightarrow> (u64 \<Rightarrow> u32 \<Rightarrow> bool) \<Rightarrow>
    SenderShared \<Rightarrow> FecSender \<Rightarrow> outputs \<Rightarrow> SenderShared \<Rightarrow> FecSender \<Rightarrow> bool" where
  "fec_step repair ok n sent sh m out sh' m' \<longleftrightarrow>
     fec_outputs repair sh m out \<and> same_shell sh sh' \<and> same_code m m' \<and> fec_inv ok n sh' m' \<and>
     fec_sweep m' (\<lambda>b i. sent b i \<or> symbol_sent repair sh m out b i)"

lemma fec_outputs_simps [simp]:
  "fec_outputs repair sh m []"
  "fec_outputs repair sh m (xs @ ys) \<longleftrightarrow> fec_outputs repair sh m xs \<and> fec_outputs repair sh m ys"
  "symbol_sent repair sh m (xs @ ys) b i \<longleftrightarrow> symbol_sent repair sh m xs b i \<or> symbol_sent repair sh m ys b i"
  by (auto simp: fec_outputs_def symbol_sent_def)

lemma fec_outputs_same:
  assumes "same_shell sh sh'" "same_code m m'"
  shows "fec_outputs repair sh' m' out \<longleftrightarrow> fec_outputs repair sh m out"
    "symbol_sent repair sh' m' out b i \<longleftrightarrow> symbol_sent repair sh m out b i"
  using own_symbol_output_same(1) [OF assms] own_symbol_output_same(2) [OF assms(1)]
  by (simp_all add: fec_outputs_def symbol_sent_def)

lemma fec_inv_mono: "fec_inv ok n sh m \<Longrightarrow> n \<le> n' \<Longrightarrow> fec_inv ok n' sh m"
  by (auto simp: fec_inv_def intro: fec_send_inv_mono)

lemma fec_step_trans:
  assumes "fec_step repair ok n sent sh m out1 sh1 m1"
    and "fec_step repair ok n' (\<lambda>b i. sent b i \<or> symbol_sent repair sh m out1 b i) sh1 m1 out2 sh2 m2"
  shows "fec_step repair ok n' sent sh m (out1 @ out2) sh2 m2"
proof -
  have same: "same_shell sh sh1" "same_code m m1" using assms(1) by (simp_all add: fec_step_def)
  note same' = fec_outputs_same [OF same]
  have "fec_sweep m2 (\<lambda>b i. sent b i \<or> symbol_sent repair sh m (out1 @ out2) b i)"
    using assms(2) unfolding fec_step_def
    by (elim conjE fec_sweep_mono) (auto simp: same'(2))
  moreover have "same_shell sh sh2" "same_code m m2"
    using assms same_shell_trans same_code_trans unfolding fec_step_def by blast+
  ultimately show ?thesis using assms by (simp add: fec_step_def same'(1))
qed

text \<open>A step of the control path: at most \<open>SourceDone\<close> frames are sent.\<close>

lemma fec_step_feedback:
  assumes "fec_inv ok n sh' m'" "fec_sweep m sent" "same_shell sh sh'" "same_code m m'"
    and "map send_view (fe_blocks m') = map send_view (fe_blocks m)" "fec_outputs repair sh m out"
  shows "fec_step repair ok n sent sh m out sh' m'"
proof -
  have "fec_sweep m' sent" using assms(2) by (simp only: fec_sweep_same [OF assms(5)])
  then have "fec_sweep m' (\<lambda>b i. sent b i \<or> symbol_sent repair sh m out b i)"
    by (rule fec_sweep_mono) blast
  then show ?thesis using assms unfolding fec_step_def by blast
qed

lemma fec_round_inv_fields:
  assumes "fe_round_reports m' = fe_round_reports m" "fe_phase m' = fe_phase m"
    "fe_round_complete m' = fe_round_complete m" "fe_current_round_id m' = fe_current_round_id m"
    "ss_quorum sh' = ss_quorum sh"
  shows "fec_round_inv ok sh' m' \<longleftrightarrow> fec_round_inv ok sh m"
  using assms by (simp add: fec_round_inv_def all_reported_def)

lemma first_block_Some:
  assumes "first_block P k bs = Some (i, b)"
  shows "\<exists>j < length bs. i = word_of_nat (k + j) \<and> b = bs ! j \<and> P b"
  using assms
proof (induction bs arbitrary: k)
  case (Cons a bs)
  show ?case
  proof (cases "P a")
    case True
    then show ?thesis using Cons.prems by (intro exI [of _ 0]) simp
  next
    case False
    then have "first_block P (Suc k) bs = Some (i, b)" using Cons.prems by simp
    then obtain j where "j < length bs" "i = word_of_nat (Suc k + j)" "b = bs ! j" "P b"
      using Cons.IH by blast
    then show ?thesis by (intro exI [of _ "Suc j"]) simp
  qed
qed simp

lemma first_block_None: "first_block P k bs = None \<longleftrightarrow> (\<forall>b\<in>set bs. \<not> P b)"
  by (induction bs arbitrary: k) auto

lemma chosen_block:
  assumes "fec_send_inv n sh m" "first_block P 0 (fe_blocks m) = Some (i, b)"
  shows "unat i < length (fe_blocks m)" "b = fe_blocks m ! unat i" "P b"
proof -
  obtain j where j: "j < length (fe_blocks m)" "i = word_of_nat j" "b = fe_blocks m ! j" "P b"
    using first_block_Some [OF assms(2)] by auto
  have "j < unat (bp_total_blocks (ss_plan sh))" using j(1) assms(1) by (simp add: fec_send_inv_def)
  then have "unat i = j"
    using less_trans [OF _ unat_u64_bound] j(2) by (simp add: unat_of_nat_small)
  then show "unat i < length (fe_blocks m)" "b = fe_blocks m ! unat i" "P b" using j by simp_all
qed

text \<open>The payloads: a source symbol is cut from the block, a repair symbol coded from it.\<close>

lemma source_symbol_payload_spec:
  assumes "fec_send_inv n sh m" "source_symbol_payload sh b i m = (r, m')"
  shows "\<exists>c. m' = m\<lparr>fe_current_source_cache := c\<rparr>" "fec_send_inv n sh m'"
    "r = Some p \<Longrightarrow> own_symbol repair sh m b i p"
proof -
  let ?c = "\<lambda>c. m\<lparr>fe_current_source_cache := c\<rparr>"
  consider (none) "r = None" "m' = m"
    | (cached) syms where "m' = ?c (Some (b, syms))"
        "r = (if unat i < length syms then Some (syms ! unat i) else None)"
        "\<exists>span. block_span (ss_plan sh) b = Some span \<and>
          syms = block_source_symbols (ss_source sh) span (fe_geometry m)"
  proof (cases "\<exists>syms. fe_current_source_cache m = Some (b, syms)")
    case True
    then obtain syms where c: "fe_current_source_cache m = Some (b, syms)" by blast
    moreover have "\<exists>span. block_span (ss_plan sh) b = Some span \<and>
        syms = block_source_symbols (ss_source sh) span (fe_geometry m)"
      using assms(1) c by (simp add: fec_send_inv_def)
    moreover have "m' = m" "r = (if unat i < length syms then Some (syms ! unat i) else None)"
      using assms(2) c by (simp_all add: source_symbol_payload_def ensure_source_symbol_cache_def)
    ultimately show thesis using cached [of syms] by simp
  next
    case False
    then have e: "ensure_source_symbol_cache sh b m = map_option (\<lambda>span.
        ?c (Some (b, block_source_symbols (ss_source sh) span (fe_geometry m)))) (block_span (ss_plan sh) b)"
      by (auto simp: ensure_source_symbol_cache_def split: option.splits)
    then show thesis
      using assms(2) none cached
      by (cases "block_span (ss_plan sh) b") (auto simp: source_symbol_payload_def)
  qed
  then have "(\<exists>c. m' = ?c c) \<and> fec_send_inv n sh m' \<and> (r = Some p \<longrightarrow> own_symbol repair sh m b i p)"
  proof cases
    case none
    then have "m' = ?c (fe_current_source_cache m)" by simp
    then have "\<exists>c. m' = ?c c" by (rule exI)
    moreover have "fec_send_inv n sh m'" using none assms(1) by simp
    ultimately show ?thesis using none(1) by simp
  next
    case (cached syms)
    then obtain span where span: "block_span (ss_plan sh) b = Some span"
      "syms = block_source_symbols (ss_source sh) span (fe_geometry m)" by blast
    have geo: "symbol_geometry (ss_plan sh) (fe_symbols_per_block m) = Inr (fe_geometry m)"
      using assms(1) by (simp add: fec_send_inv_def)
    note g = symbol_geometry_new_Inr [OF geo [unfolded symbol_geometry_def]]
    have syms: "syms = map (\<lambda>i. slice (i * symbol_size (fe_geometry m)) (symbol_size (fe_geometry m))
        (padded_symbol_bytes (ss_source sh) span (fe_geometry m))) [0 ..< unat (fe_symbols_per_block m)]"
      by (simp add: span(2) block_source_symbols_def g(1) Let_def)
    have "own_symbol repair sh m b i p" if "r = Some p"
      using that cached(2) span(1) syms
      by (auto simp: own_symbol_def genuine_symbol_def split: if_splits)
    moreover have "fec_send_inv n sh m'"
      using assms(1) cached(1,3) by (simp add: fec_send_inv_def fec_block_inv_def)
    ultimately show ?thesis using cached(1) by blast
  qed
  then show "\<exists>c. m' = ?c c" "fec_send_inv n sh m'" "r = Some p \<Longrightarrow> own_symbol repair sh m b i p"
    by blast+
qed

lemma encoder_from_block_fields:
  assumes "encoder_from_block (block_params_new k n seed) block = Some (Some e)"
  obtains oti where "params_oti (block_params_new k n 0) = Some oti"
    "e = \<lparr>en_oti = oti, en_block = block, en_k = k\<rparr>"
  using assms params_oti_seed [of k n seed]
  by (auto simp: encoder_from_block_def split: if_splits) (simp add: block_params_new_def)

lemma coded_symbol_genuine:
  assumes "encoder_from_block (block_params_new k n seed) block = Some (Some e)" "k \<le> unat i"
  shows "encoder_coded_symbol repair e i = Some p \<Longrightarrow> genuine_symbol repair k n block i p"
    and "encoder_coded_symbol repair e i = None \<Longrightarrow> ESI_LIMIT \<le> unat i"
  using assms(2)
  by (rule_tac [!] encoder_from_block_fields [OF assms(1)])
    (auto simp: genuine_symbol_def encoder_coded_symbol_def Let_def split: if_splits)

text \<open>What makes the codec panic: too many source symbols for a block, or an id out of its range.\<close>

definition codec_exceeded :: "FecSender \<Rightarrow> nat \<Rightarrow> bool" where
  "codec_exceeded m n \<longleftrightarrow> MAX_SOURCE_SYMBOLS_PER_BLOCK < unat (fe_symbols_per_block m) \<or>
     ESI_LIMIT < unat (fe_symbols_per_block m) + n"

lemma codec_exceeded_code: "same_code m m' \<Longrightarrow> codec_exceeded m' n \<longleftrightarrow> codec_exceeded m n"
  by (simp add: codec_exceeded_def same_code_def)

lemma codec_exceeded_mono: "codec_exceeded m n \<Longrightarrow> n \<le> n' \<Longrightarrow> codec_exceeded m n'"
  by (auto simp: codec_exceeded_def)

lemma ensure_encoder_cases:
  assumes "fec_send_inv n sh m" "fec_block_ref m b = Some block"
  obtains "ensure_encoder sh b block m = Some None"
  | e where "ensure_encoder sh b block m = Some (Some (fec_block_update b (\<lambda>b. b\<lparr>fs_encoder := e\<rparr>) m))"
      "fec_send_inv n sh (fec_block_update b (\<lambda>b. b\<lparr>fs_encoder := e\<rparr>) m)"
  | "ensure_encoder sh b block m = Some (Some m)"
  | "ensure_encoder sh b block m = None" "MAX_SOURCE_SYMBOLS_PER_BLOCK < unat (fe_symbols_per_block m)"
proof -
  let ?params = "block_params_new (unat (fe_symbols_per_block m)) (symbol_size (fe_geometry m))
    (block_seed (ss_session_id sh) b)"
  note none = that(1) and built = that(2) and kept = that(3) and panics = that(4)
  have i: "unat b < length (fe_blocks m)" "block = fe_blocks m ! unat b"
    using assms(2) by (auto simp: fec_block_ref_def Let_def split: if_splits)
  note binv = fec_send_inv_block [OF assms(1) i(1)]
  show thesis
  proof (cases "fs_encoder block")
    case (Some e)
    then show thesis by (intro kept) (simp add: ensure_encoder_def)
  next
    case enc: None
    show thesis
    proof (cases "block_span (ss_plan sh) b")
      case None
      then show thesis using enc by (intro none) (simp add: ensure_encoder_def)
    next
      case (Some span)
      let ?block = "padded_symbol_bytes (ss_source sh) span (fe_geometry m)"
      show thesis
      proof (cases "encoder_from_block ?params ?block")
        case None
        then have "params_oti ?params = None" by (auto simp: encoder_from_block_def split: if_splits)
        then have "MAX_SOURCE_SYMBOLS_PER_BLOCK < unat (fe_symbols_per_block m)"
          using assms(1) unat_u16_bound by (intro params_oti_None) (auto simp: fec_send_inv_def)
        then show thesis using enc Some None by (intro panics) (simp_all add: ensure_encoder_def Let_def)
      next
        case e: (Some e)
        have "fec_send_inv n sh (fec_block_update b (\<lambda>b. b\<lparr>fs_encoder := e\<rparr>) m)"
          using binv Some e
          by (intro fec_send_inv_update [OF assms(1)]) (auto simp: fec_block_inv_def send_view_def)
        then show thesis using enc Some e by (intro built) (simp_all add: ensure_encoder_def Let_def)
      qed
    qed
  qed
qed

lemma extra_symbol_payload_spec:
  assumes "fec_send_inv n sh m" "unat (fe_symbols_per_block m) \<le> unat i"
  shows "extra_symbol_payload repair sh b i m = Some (r, m') \<Longrightarrow>
      (\<exists>e. m' = m \<or> m' = fec_block_update b (\<lambda>b. b\<lparr>fs_encoder := e\<rparr>) m) \<and> fec_send_inv n sh m' \<and>
      (\<forall>p. r = Some p \<longrightarrow> own_symbol repair sh m b i p)"
    and "extra_symbol_payload repair sh b i m = None \<Longrightarrow>
      MAX_SOURCE_SYMBOLS_PER_BLOCK < unat (fe_symbols_per_block m) \<or> ESI_LIMIT \<le> unat i"
proof -
  text \<open>With the encoder in place.\<close>
  have coded: "case (case Option.bind (fec_block_ref m1 b) fs_encoder of
        None \<Rightarrow> Some (None, m1)
      | Some encoder \<Rightarrow> map_option (\<lambda>payload. (Some payload, m1)) (encoder_coded_symbol repair encoder i)) of
        None \<Rightarrow> ESI_LIMIT \<le> unat i
      | Some (r, m') \<Rightarrow> m' = m1 \<and> (\<forall>p. r = Some p \<longrightarrow> own_symbol repair sh m b i p)"
    if inv: "fec_send_inv n sh m1" and code: "same_code m m1" for m1
  proof (cases "Option.bind (fec_block_ref m1 b) fs_encoder")
    case (Some e)
    then obtain block where "fec_block_ref m1 b = Some block" "fs_encoder block = Some e"
      by (cases "fec_block_ref m1 b") simp_all
    then have len: "unat b < length (fe_blocks m1)" and e: "fs_encoder (fe_blocks m1 ! unat b) = Some e"
      by (auto simp: fec_block_ref_def Let_def split: if_splits)
    obtain span where span: "block_span (ss_plan sh) b = Some span"
      and enc: "encoder_from_block (block_params_new (unat (fe_symbols_per_block m1)) (symbol_size (fe_geometry m1))
          (block_seed (ss_session_id sh) b)) (padded_symbol_bytes (ss_source sh) span (fe_geometry m1)) = Some (Some e)"
      using fec_send_inv_block [OF inv len] e by (auto simp: fec_block_inv_def send_view_def)
    have k: "unat (fe_symbols_per_block m1) \<le> unat i" using assms(2) code by (simp add: same_code_def)
    show ?thesis
      using coded_symbol_genuine [OF enc k, of repair] Some span code
      by (auto simp: own_symbol_def same_code_def split: option.splits)
  qed simp
  have "case extra_symbol_payload repair sh b i m of
      None \<Rightarrow> MAX_SOURCE_SYMBOLS_PER_BLOCK < unat (fe_symbols_per_block m) \<or> ESI_LIMIT \<le> unat i
    | Some (r, m') \<Rightarrow> (\<exists>e. m' = m \<or> m' = fec_block_update b (\<lambda>b. b\<lparr>fs_encoder := e\<rparr>) m) \<and> fec_send_inv n sh m' \<and>
        (\<forall>p. r = Some p \<longrightarrow> own_symbol repair sh m b i p)"
  proof (cases "fec_block_ref m b")
    case None
    then show ?thesis using assms(1) by (auto simp: extra_symbol_payload_def)
  next
    case (Some block)
    show ?thesis
    proof (rule ensure_encoder_cases [OF assms(1) Some])
      fix e
      let ?m = "fec_block_update b (\<lambda>b. b\<lparr>fs_encoder := e\<rparr>) m"
      assume "ensure_encoder sh b block m = Some (Some ?m)" "fec_send_inv n sh ?m"
      then show ?thesis
        using coded [OF _ same_code_simps(2), of b "\<lambda>b. b\<lparr>fs_encoder := e\<rparr>"] Some
        by (auto simp: extra_symbol_payload_def split: option.splits)
    next
      assume "ensure_encoder sh b block m = Some (Some m)"
      then show ?thesis
        using coded [OF assms(1) same_code_simps(1)] Some assms(1)
        by (auto simp: extra_symbol_payload_def split: option.splits)
    qed (use assms(1) Some in \<open>auto simp: extra_symbol_payload_def\<close>)
  qed
  then show "extra_symbol_payload repair sh b i m = Some (r, m') \<Longrightarrow>
      (\<exists>e. m' = m \<or> m' = fec_block_update b (\<lambda>b. b\<lparr>fs_encoder := e\<rparr>) m) \<and> fec_send_inv n sh m' \<and>
      (\<forall>p. r = Some p \<longrightarrow> own_symbol repair sh m b i p)"
    and "extra_symbol_payload repair sh b i m = None \<Longrightarrow>
      MAX_SOURCE_SYMBOLS_PER_BLOCK < unat (fe_symbols_per_block m) \<or> ESI_LIMIT \<le> unat i"
    by auto
qed

section \<open>One iteration of the loop\<close>

text \<open>An attempt to send the symbol \<open>i\<close> of block \<open>b\<close> from the mode \<open>m1\<close>, with \<open>m1\<close>
  equal to \<open>m\<close> up to cached data.\<close>

lemma fec_send_inv_scratch:
  assumes "fec_send_inv n sh m" "fe_tree_ids m \<noteq> [] \<longrightarrow> rr < length (fe_tree_ids m)"
  shows "fec_send_inv n sh (m\<lparr>fe_frame_scratch := x, fe_next_tree_rr := rr\<rparr>)"
  using assms by (simp add: fec_send_inv_def fec_block_inv_def)

lemma send_attempt:
  assumes "fec_inv ok n sh m1" "fec_sweep m1 sent" "own_symbol repair sh m1 b i p" "repair_sized repair"
    and "try_send_symbol admit sh b i p m1 = Some (out, flag, m2)"
  shows "fec_inv ok n sh m2" "fec_sweep m2 sent" "same_code m1 m2" "fe_blocks m2 = fe_blocks m1"
    "fe_phase m2 = fe_phase m1" "fec_outputs repair sh m1 out"
    "flag \<Longrightarrow> symbol_sent repair sh m1 out b i" "\<not> flag \<Longrightarrow> out = []"
proof -
  have send: "fec_send_inv n sh m1" and rnd: "fec_round_inv ok sh m1" using assms(1) by (simp_all add: fec_inv_def)
  obtain scratch rr where m2: "m2 = m1\<lparr>fe_frame_scratch := scratch, fe_next_tree_rr := rr\<rparr>"
    "fe_tree_ids m1 \<noteq> [] \<longrightarrow> rr < length (fe_tree_ids m1)"
    and out: "\<not> flag \<and> out = [] \<or> flag \<and> (\<exists>o'. out = [o'] \<and> own_symbol_output repair sh m1 b i o')"
    using try_send_symbol_spec [OF send assms(3,4), of admit] assms(5) by auto
  show "fec_inv ok n sh m2"
    using fec_send_inv_scratch [OF send m2(2)] rnd fec_round_inv_fields [of m2 m1 sh sh ok]
    by (simp add: fec_inv_def m2(1))
  show "fec_sweep m2 sent" using assms(2) by (simp add: fec_sweep_def m2(1))
  show "same_code m1 m2" "fe_blocks m2 = fe_blocks m1" "fe_phase m2 = fe_phase m1"
    by (simp_all add: m2(1) same_code_def)
  show "fec_outputs repair sh m1 out" "flag \<Longrightarrow> symbol_sent repair sh m1 out b i" "\<not> flag \<Longrightarrow> out = []"
    using out by (auto simp: fec_outputs_def symbol_sent_def)
qed

text \<open>A queued symbol advances the counters of its block.\<close>

lemma advance_block:
  assumes inv: "fec_inv ok n sh m2" and "n \<le> n'" and i: "unat b < length (fe_blocks m2)"
    and new: "fec_block_inv sh m2 n' b (send_view (f (fe_blocks m2 ! unat b)))"
    and sw: "fec_sweep m2 sent"
    and src: "\<And>s. s < fst (send_view (f (fe_blocks m2 ! unat b))) \<Longrightarrow>
      s < fst (send_view (fe_blocks m2 ! unat b)) \<or> sent' b s"
  shows "fec_inv ok n' (mark_payload_emitted sh) (fec_block_update b f m2)"
    "fec_sweep (fec_block_update b f m2) (\<lambda>b s. sent b s \<or> sent' b s)"
proof -
  have send: "fec_send_inv n sh m2" and rnd: "fec_round_inv ok sh m2" using inv by (simp_all add: fec_inv_def)
  have "fec_send_inv n' sh (fec_block_update b f m2)"
    by (rule fec_send_inv_update [where f = f, OF send assms(2) new])
  moreover have "fec_round_inv ok (mark_payload_emitted sh) (fec_block_update b f m2)"
    using rnd by (subst fec_round_inv_fields [where m = m2 and sh = sh]) (simp_all add: mark_payload_emitted_def)
  ultimately show "fec_inv ok n' (mark_payload_emitted sh) (fec_block_update b f m2)"
    using fec_send_inv_shell [OF same_shell_updates(5) [of sh]] by (simp add: fec_inv_def)
  have "sent (word_of_nat k) s \<or> sent' (word_of_nat k) s"
    if "k < length (fe_blocks m2)" "s < fst (send_view (fe_blocks (fec_block_update b f m2) ! k))" for k s
  proof (cases "k = unat b")
    case True
    then show ?thesis using that src [of s] sw i by (force simp: fec_block_update_nth fec_sweep_def)
  next
    case False
    then show ?thesis using that sw by (simp add: fec_block_update_nth fec_sweep_def)
  qed
  then show "fec_sweep (fec_block_update b f m2) (\<lambda>b s. sent b s \<or> sent' b s)"
    by (simp add: fec_sweep_def)
qed

lemma send_source_symbol_spec:
  assumes inv: "fec_inv ok n sh m" and sw: "fec_sweep m sent" and rs: "repair_sized repair"
    and next': "next_source_symbol m = Some (b, i)"
  obtains out flag sh' m' where "send_source_symbol admit b i (sh, m) = Some (out, flag, (sh', m'))"
    "fec_step repair ok n sent sh m out sh' m'" "\<not> flag \<Longrightarrow> out = []"
proof -
  obtain block where fb: "first_block (\<lambda>b. fs_next_source_symbol b < ucast (fe_symbols_per_block m) \<and>
      fe_phase m = SendingData) 0 (fe_blocks m) = Some (b, block)" "i = fs_next_source_symbol block"
    using next' by (auto simp: next_source_symbol_def)
  have send: "fec_send_inv n sh m" using inv by (simp add: fec_inv_def)
  note ch = chosen_block [OF send fb(1)]
  obtain r m1 where pay: "source_symbol_payload sh b i m = (r, m1)" by fastforce
  obtain c where m1: "m1 = m\<lparr>fe_current_source_cache := c\<rparr>"
    using source_symbol_payload_spec(1) [OF send pay] by blast
  have inv1: "fec_inv ok n sh m1"
    using source_symbol_payload_spec(2) [OF send pay] inv fec_round_inv_fields [of m1 m sh sh ok]
    by (simp add: fec_inv_def m1)
  have sw1: "fec_sweep m1 sent" using sw by (simp add: fec_sweep_def m1)
  have code1: "same_code m m1" by (simp add: m1)
  show thesis
  proof (cases r)
    case None
    have "send_source_symbol admit b i (sh, m) = Some ([], False, (sh, m1))"
      using None by (simp add: send_source_symbol_def pay)
    moreover have "fec_step repair ok n sent sh m [] sh m1"
      using fec_step_feedback [OF inv1 sw same_shell_refl code1] by (simp add: m1)
    ultimately show thesis using that by blast
  next
    case (Some p)
    have own: "own_symbol repair sh m b i p" by (rule source_symbol_payload_spec(3) [OF send pay Some])
    then have own1: "own_symbol repair sh m1 b i p" by (simp add: own_symbol_def m1)
    obtain out flag m2 where ts: "try_send_symbol admit sh b i p m1 = Some (out, flag, m2)"
      using try_send_symbol_spec [OF _ own1 rs, of n admit] inv1 by (auto simp: fec_inv_def)
    note at = send_attempt [OF inv1 sw1 own1 rs ts]
    have code2: "same_code m m2" by (rule same_code_trans [OF code1 at(3)])
    have outs: "fec_outputs repair sh m out" "symbol_sent repair sh m out b' s \<longleftrightarrow> symbol_sent repair sh m1 out b' s" for b' s
      using at(6) fec_outputs_same [OF same_shell_refl code1] by simp_all
    have run: "send_source_symbol admit b i (sh, m) = Some (if \<not> flag then (out, False, (sh, m2))
        else (out, True, (mark_payload_emitted sh,
          fec_block_update b (\<lambda>b. b\<lparr>fs_next_source_symbol := fs_next_source_symbol b + 1\<rparr>) m2)))"
      using Some ts by (simp add: send_source_symbol_def pay)
    show thesis
    proof (cases flag)
      case False
      have "fec_step repair ok n sent sh m out sh m2"
        using outs at code2 False by (auto simp: fec_step_def elim!: fec_sweep_mono)
      then show thesis using that run False at(8) by simp
    next
      case True
      let ?f = "\<lambda>b :: FecSendBlock. b\<lparr>fs_next_source_symbol := fs_next_source_symbol b + 1\<rparr>"
      have blocks: "fe_blocks m2 = fe_blocks m" using at(4) by (simp add: m1)
      have len: "unat b < length (fe_blocks m2)" using ch(1) blocks by simp
      have cur: "fs_next_source_symbol (fe_blocks m2 ! unat b) = i" using fb(2) ch(2) blocks by simp
      have i: "i < ucast (fe_symbols_per_block m2)" "fe_phase m2 = SendingData"
        using ch(3) fb(2) code2 at(5) by (simp_all add: same_code_def m1)
      then have ui: "unat (i + 1) = Suc (unat i)" "unat i < unat (fe_symbols_per_block m2)"
        by (simp_all add: unat_Suc_word [OF i(1)] word_less_nat_alt)
      have "fec_send_inv n sh m2" using at(1) by (simp add: fec_inv_def)
      note binv = fec_send_inv_block [OF this len]
      have new: "fec_block_inv sh m2 n b (send_view (?f (fe_blocks m2 ! unat b)))"
        using binv ui i(2) cur by (simp add: fec_block_inv_def send_view_def)
      have "s < i \<or> s = i" if "s < i + 1" for s
        using that ui(1) by (auto simp: word_less_nat_alt word_unat_eq_iff)
      then have "fec_step repair ok n sent sh m out (mark_payload_emitted sh) (fec_block_update b ?f m2)"
        using advance_block [where f = ?f, OF at(1) order_refl len new at(2), where sent' = "symbol_sent repair sh m out"]
          at(7) True outs cur same_code_trans [OF code2 same_code_simps(2)]
        by (auto simp: fec_step_def send_view_def)
      then show thesis using that run True by simp
    qed
  qed
qed

lemma send_extra_payload:
  assumes inv: "fec_inv ok n sh m" and sw: "fec_sweep m sent" and rs: "repair_sized repair"
    and len: "unat b < length (fe_blocks m)" and pay: "extra_symbol_payload repair sh b i m = Some (r, m1)"
    and ib: "unat (fe_symbols_per_block m) \<le> unat i" and ui: "unat (i + 1) = Suc (unat i)"
    and cur: "fs_next_fountain_symbol (fe_blocks m ! unat b) = i"
  obtains out flag sh' m' where "send_extra_symbol repair admit b i (sh, m) = Some (out, flag, (sh', m'))"
    "fec_step repair ok (Suc n) sent sh m out sh' m'" "\<not> flag \<Longrightarrow> out = []"
proof -
  have send: "fec_send_inv n sh m" using inv by (simp add: fec_inv_def)
  note spec = extra_symbol_payload_spec(1) [OF send ib pay]
  obtain e where m1: "m1 = m \<or> m1 = fec_block_update b (\<lambda>b. b\<lparr>fs_encoder := e\<rparr>) m"
    using spec by blast
  have m1_fields: "fe_round_reports m1 = fe_round_reports m" "fe_phase m1 = fe_phase m"
    "fe_round_complete m1 = fe_round_complete m" "fe_current_round_id m1 = fe_current_round_id m"
    "same_code m m1" "length (fe_blocks m1) = length (fe_blocks m)"
    "fs_next_fountain_symbol (fe_blocks m1 ! unat b) = i"
    using m1 cur len by (auto simp: fec_block_update_nth)
  have inv1: "fec_inv ok n sh m1"
    using spec inv fec_round_inv_fields [OF m1_fields(1-4)] by (simp add: fec_inv_def)
  have sw1: "fec_sweep m1 sent"
    using m1
  proof
    assume "m1 = fec_block_update b (\<lambda>b. b\<lparr>fs_encoder := e\<rparr>) m"
    then show ?thesis using sw by (auto simp: fec_sweep_def fec_block_update_nth send_view_def split: if_splits)
  qed (use sw in simp)
  show thesis
  proof (cases r)
    case None
    have "send_extra_symbol repair admit b i (sh, m) = Some ([], False, (sh, m1))"
      using None by (simp add: send_extra_symbol_def pay)
    moreover have "fec_sweep m1 (\<lambda>b i. sent b i \<or> symbol_sent repair sh m [] b i)"
      using sw1 by (rule fec_sweep_mono) blast
    then have "fec_step repair ok (Suc n) sent sh m [] sh m1"
      using fec_inv_mono [OF inv1, of "Suc n"] m1_fields(5) by (simp add: fec_step_def)
    ultimately show thesis using that by blast
  next
    case (Some p)
    have own: "own_symbol repair sh m b i p" using spec Some by blast
    then have own1: "own_symbol repair sh m1 b i p"
      using m1_fields(5) by (simp add: own_symbol_def same_code_def)
    obtain out flag m2 where ts: "try_send_symbol admit sh b i p m1 = Some (out, flag, m2)"
      using try_send_symbol_spec [OF _ own1 rs, of n admit] spec by auto
    note at = send_attempt [OF inv1 sw1 own1 rs ts]
    have code2: "same_code m m2" by (rule same_code_trans [OF m1_fields(5) at(3)])
    have outs: "fec_outputs repair sh m out" using at(6) fec_outputs_same [OF same_shell_refl m1_fields(5)] by simp
    let ?f = "\<lambda>b :: FecSendBlock. b\<lparr>fs_emitted_extra_symbols := saturating_add_1 (fs_emitted_extra_symbols b),
      fs_next_fountain_symbol := fs_next_fountain_symbol b + 1\<rparr>"
    have run: "send_extra_symbol repair admit b i (sh, m) = Some (if \<not> flag then (out, False, (sh, m2))
        else (out, True, (mark_payload_emitted sh, fec_block_update b ?f m2)))"
      using Some ts by (simp add: send_extra_symbol_def pay)
    show thesis
    proof (cases flag)
      case False
      have "fec_sweep m2 (\<lambda>b i. sent b i \<or> symbol_sent repair sh m out b i)"
        using at(2) by (rule fec_sweep_mono) blast
      then have "fec_step repair ok (Suc n) sent sh m out sh m2"
        using outs fec_inv_mono [OF at(1), of "Suc n"] code2 by (simp add: fec_step_def)
      then show thesis using that run False at(8) by simp
    next
      case True
      have len2: "unat b < length (fe_blocks m2)" using len at(4) m1_fields(6) by simp
      have cur2: "fs_next_fountain_symbol (fe_blocks m2 ! unat b) = i" using m1_fields(7) at(4) by simp
      have "fec_send_inv n sh m2" using at(1) by (simp add: fec_inv_def)
      note binv = fec_send_inv_block [OF this len2]
      have new: "fec_block_inv sh m2 (Suc n) b (send_view (?f (fe_blocks m2 ! unat b)))"
        using binv ui cur2 by (simp add: fec_block_inv_def send_view_def)
      have "fec_step repair ok (Suc n) sent sh m out (mark_payload_emitted sh) (fec_block_update b ?f m2)"
        using advance_block [where f = ?f, OF at(1) _ len2 new at(2), where sent' = "symbol_sent repair sh m out"]
          outs same_code_trans [OF code2 same_code_simps(2)]
        by (auto simp: fec_step_def send_view_def)
      then show thesis using that run True by simp
    qed
  qed
qed

lemma send_extra_symbol_spec:
  assumes inv: "fec_inv ok n sh m" and n: "n < 2 ^ 31" and sw: "fec_sweep m sent"
    and rs: "repair_sized repair" and next': "next_extra_symbol m = Some (b, i)"
  obtains out flag sh' m' where "send_extra_symbol repair admit b i (sh, m) = Some (out, flag, (sh', m'))"
    "fec_step repair ok (Suc n) sent sh m out sh' m'" "\<not> flag \<Longrightarrow> out = []"
  | "send_extra_symbol repair admit b i (sh, m) = None" "codec_exceeded m (Suc n)"
proof -
  note sends = that(1) and panics = that(2)
  obtain block where fb: "first_block (\<lambda>b. fs_emitted_extra_symbols b < fs_required_extra_symbols b) 0
      (fe_blocks m) = Some (b, block)" "i = fs_next_fountain_symbol block"
    using next' by (auto simp: next_extra_symbol_def split: if_splits)
  have send: "fec_send_inv n sh m" using inv by (simp add: fec_inv_def)
  note ch = chosen_block [OF send fb(1)]
  have cur: "fs_next_fountain_symbol (fe_blocks m ! unat b) = i" using fb(2) ch(2) by simp
  have ib: "unat (fe_symbols_per_block m) \<le> unat i" "unat i \<le> unat (fe_symbols_per_block m) + n"
    using fec_send_inv_block [OF send ch(1)] cur by (simp_all add: fec_block_inv_def send_view_def)
  then have "Suc (unat i) < 2 ^ 32" using n unat_u16_bound [of "fe_symbols_per_block m"] by simp
  then have ui: "unat (i + 1) = Suc (unat i)" by (simp add: unat_word_ariths)
  show thesis
  proof (cases "extra_symbol_payload repair sh b i m")
    case None
    then have "codec_exceeded m (Suc n)"
      using extra_symbol_payload_spec(2) [OF send ib(1) None] ib(2) by (auto simp: codec_exceeded_def)
    then show thesis using None by (intro panics) (simp_all add: send_extra_symbol_def)
  next
    case (Some rm)
    obtain r m1 where pay: "extra_symbol_payload repair sh b i m = Some (r, m1)" using Some by (cases rm) simp
    show thesis by (rule send_extra_payload [OF inv sw rs ch(1) pay ib(1) ui cur sends])
  qed
qed
lemma fec_step_mono:
  "fec_step repair ok n sent sh m out sh' m' \<Longrightarrow> fec_step repair ok (Suc n) sent sh m out sh' m'"
  using fec_inv_mono [of ok n sh' m' "Suc n"] by (simp add: fec_step_def)

text \<open>A control-path step from a state of the invariant: frames handled, no output.\<close>

lemma fec_step_same_send:
  assumes "fec_inv ok n sh' m'" "fec_sweep m sent" "same_shell sh sh'" "same_send m m'"
    and "fec_outputs repair sh m out"
  shows "fec_step repair ok n sent sh m out sh' m'"
  using fec_step_feedback [OF assms(1-3) same_send_code [OF assms(4)] _ assms(5)] assms(4)
  by (simp add: same_send_def)

lemma fec_step_idle: "fec_inv ok n sh m \<Longrightarrow> fec_sweep m sent \<Longrightarrow> fec_step repair ok n sent sh m [] sh m"
  by (rule fec_step_same_send) simp_all

lemma fec_drain_step:
  assumes "fec_inv ok n sh m" "fec_sweep m sent" "\<forall>f\<in>set fs. frame_supports ok f"
    and "drain_controls fec_on_need fs (sh, m) = (sh', m')"
  shows "fec_step repair ok n sent sh m [] sh' m'" "same_send m m'"
proof -
  have "fec_inv ok n sh' m' \<and> same_send m m'"
    using fec_hooks.drain_controls_inv [of ok n sh m m fs] assms by simp
  moreover have "same_shell sh sh'" using fec_hooks.drain_controls_shell [of sh fs m] assms(4) by simp
  ultimately show "fec_step repair ok n sent sh m [] sh' m'" "same_send m m'"
    using fec_step_same_send [OF _ assms(2)] by simp_all
qed

lemma fec_signal_step:
  assumes "fec_inv ok n sh m" "fec_sweep m sent" "wake_supports ok w"
    and "wait_for_signal fec_on_need w (sh, m) = (open', (sh', m'))"
  shows "fec_step repair ok n sent sh m [] sh' m'"
proof (cases w)
  case (RecvFrame f)
  then have "drain_controls fec_on_need [f] (sh, m) = (sh', m')"
    using assms(4) by (simp add: wait_for_signal_def drain_controls_def)
  then show ?thesis
    using fec_drain_step(1) [OF assms(1,2), of "[f]"] assms(3) RecvFrame by (simp add: wake_supports_def)
qed (use assms fec_step_idle in \<open>simp_all add: wait_for_signal_def\<close>)

lemma fec_quorum_wait_step:
  assumes inv: "fec_inv ok n sh m" and sw: "fec_sweep m sent" and w: "wake_supports ok w"
  obtains out oc sh' m' where "wait_for_quorum_feedback fec_on_need r w now (sh, m) = Some (out, oc, (sh', m'))"
    "fec_step repair ok n sent sh m out sh' m'"
proof -
  have sd: "send_source_done sh r = Some [(sender_route sh None, control_frame (ss_session_id sh) (SourceDone r))]"
    by (simp add: send_source_done_def sender_route_def send_control_eq)
  have "wait_for_quorum_feedback fec_on_need r w now (sh, m) \<noteq> None"
    by (cases w) (simp_all add: wait_for_quorum_feedback_def sd)
  then obtain out oc sh' m' where wt:
    "wait_for_quorum_feedback fec_on_need r w now (sh, m) = Some (out, oc, (sh', m'))"
    by (metis not_None_eq prod.exhaust)
  have "fec_inv ok n sh' m' \<and> same_send m m'"
    using fec_hooks.wait_inv [OF wt, of ok n m] inv w by simp
  moreover have "fec_outputs repair sh m out"
    using wt by (cases w)
      (auto simp: wait_for_quorum_feedback_def sd fec_outputs_def source_done_output_def split: if_splits)
  ultimately show thesis
    using that [OF wt] fec_step_same_send [OF _ sw fec_hooks.wait_shell [OF wt]] by blast
qed

text \<open>A turn ends in a panic only when the codec's limits are exceeded; any other keeps the invariant.\<close>

definition fec_turn_ok :: "repair \<Rightarrow> (usize \<Rightarrow> u32 \<Rightarrow> NeedReport \<Rightarrow> bool) \<Rightarrow> nat \<Rightarrow> (u64 \<Rightarrow> u32 \<Rightarrow> bool) \<Rightarrow>
    SenderShared \<Rightarrow> FecSender \<Rightarrow> (outputs \<times> FecSender Turn) may_panic \<Rightarrow> bool" where
  "fec_turn_ok repair ok n sent sh m r \<longleftrightarrow> (case r of
     None \<Rightarrow> codec_exceeded m n
   | Some (out, t) \<Rightarrow> \<exists>sh' m'. turn_state t = (sh', m') \<and>
     fec_step repair ok n sent sh m out sh' m' \<and>
     (t = TurnFinished Completed (sh', m') \<longrightarrow> fe_round_complete m'))"

lemma fec_turn_ok_continue:
  "fec_step repair ok n sent sh m out sh' m' \<Longrightarrow>
     fec_turn_ok repair ok n sent sh m (Some (out, TurnContinue (sh', m')))"
  "fec_step repair ok n sent sh m out sh' m' \<Longrightarrow>
     fec_turn_ok repair ok n sent sh m (Some (out, TurnFinished Aborted (sh', m')))"
  by (simp_all add: fec_turn_ok_def)

lemma fec_after_send_ok:
  assumes "fec_step repair ok n sent sh m out sh' m'" "\<not> flag \<Longrightarrow> out = []" "wake_supports ok (ti_wake inp)"
  shows "fec_turn_ok repair ok n sent sh m (Some (fec_after_send inp (out, flag, (sh', m'))))"
proof (cases flag)
  case True
  then show ?thesis using fec_turn_ok_continue(1) [OF assms(1)] by (simp add: fec_after_send_def)
next
  case False
  obtain open' sh2 m2 where ws: "wait_for_signal fec_on_need (ti_wake inp) (sh', m') = (open', (sh2, m2))"
    by (metis prod.exhaust)
  have "fec_inv ok n sh' m'" "fec_sweep m' (\<lambda>b i. sent b i \<or> symbol_sent repair sh m out b i)"
    using assms(1) by (simp_all add: fec_step_def)
  from fec_step_trans [OF assms(1) fec_signal_step [OF this assms(3) ws]]
  have "fec_step repair ok n sent sh m out sh2 m2" by simp
  then show ?thesis
    using fec_turn_ok_continue [of repair ok n sent sh m out sh2 m2] False ws
    by (cases open') (simp_all add: fec_after_send_def)
qed

lemma fec_round_flag [simp]:
  "fec_inv ok n sh (m\<lparr>fe_round_source_done_sent := d\<rparr>) \<longleftrightarrow> fec_inv ok n sh m"
  "fec_step repair ok n sent sh m out sh' (m'\<lparr>fe_round_source_done_sent := d\<rparr>) \<longleftrightarrow>
     fec_step repair ok n sent sh m out sh' m'"
  by (simp_all add: fec_step_def fec_inv_def fec_round_inv_def fec_send_inv_def fec_block_inv_def
      all_reported_def fec_sweep_def same_code_def)

text \<open>The phase change of a round: every source symbol has been sent by then.\<close>

lemma next_source_none:
  assumes "next_source_symbol m = None" "fe_phase m = SendingData" "b \<in> set (fe_blocks m)"
  shows "unat (fe_symbols_per_block m) \<le> unat (fs_next_source_symbol b)"
  using assms by (auto simp: next_source_symbol_def first_block_None word_less_nat_alt not_less)

lemma begin_round_inv:
  assumes inv: "fec_inv ok n sh m" and none: "next_source_symbol m = None" and ph: "fe_phase m = SendingData"
  shows "fec_inv ok n sh (m\<lparr>fe_round_reports := [], fe_phase := WaitingForReports\<rparr>)"
proof -
  have send: "fec_send_inv n sh m" and rnd: "fec_round_inv ok sh m" using inv by (simp_all add: fec_inv_def)
  have "fec_block_inv sh (m\<lparr>fe_round_reports := [], fe_phase := WaitingForReports\<rparr>) n (word_of_nat i)
      (send_view (fe_blocks m ! i))" if i: "i < length (fe_blocks m)" for i
    using send i next_source_none [OF none ph nth_mem [OF i]]
    by (auto simp: fec_send_inv_def fec_block_inv_def send_view_def)
  then have "fec_send_inv n sh (m\<lparr>fe_round_reports := [], fe_phase := WaitingForReports\<rparr>)"
    using send by (simp add: fec_send_inv_def)
  then show ?thesis using rnd ph by (simp add: fec_inv_def fec_round_inv_def)
qed

lemma fec_feedback_ok:
  assumes inv: "fec_inv ok n sh m" and sw: "fec_sweep m sent" and w: "wake_supports ok (ti_wake inp)"
    and none: "next_source_symbol m = None"
  shows "fec_turn_ok repair ok n sent sh m (fec_feedback inp (sh, m))"
proof (cases "fe_round_source_done_sent m")
  case False
  have sd: "send_source_done sh r = Some [(sender_route sh None, control_frame (ss_session_id sh) (SourceDone r))]" for r
    by (simp add: send_source_done_def sender_route_def send_control_eq)
  obtain out m1 where br: "begin_report_round sh m = Some (out, m1)" and ph: "fe_phase m1 = WaitingForReports"
    and step: "fec_step repair ok n sent sh m out sh m1"
  proof (cases "fe_phase m = WaitingForReports")
    case True
    then show thesis using that fec_step_idle [OF inv sw] by (simp add: begin_report_round_def)
  next
    case False
    then have ph: "fe_phase m = SendingData" by (cases "fe_phase m") auto
    let ?m = "m\<lparr>fe_round_reports := [], fe_phase := WaitingForReports\<rparr>"
    let ?out = "[(sender_route sh None, control_frame (ss_session_id sh) (SourceDone (fe_current_round_id m)))]"
    have "fec_step repair ok n sent sh m ?out sh ?m"
      by (rule fec_step_feedback [OF begin_round_inv [OF inv none ph] sw])
        (auto simp: same_code_def fec_outputs_def source_done_output_def)
    then show thesis using that [of ?out ?m] False by (simp add: begin_report_round_def sd)
  qed
  have inv1: "fec_inv ok n sh m1" using step by (simp add: fec_step_def)
  let ?d = "m1\<lparr>fe_round_source_done_sent := True\<rparr>"
  show ?thesis
  proof (cases "active_quorum_is_empty sh")
    case True
    then have "fe_round_reports m1 = []" "card (q_active (ss_quorum sh)) = 0"
      using inv1 by (auto simp: fec_inv_def fec_round_inv_def active_quorum_is_empty_def)
    then have "fec_inv ok n sh (?d\<lparr>fe_round_complete := True\<rparr>)"
      using inv1 ph by (simp add: fec_inv_def fec_round_inv_def fec_send_inv_def fec_block_inv_def all_reported_def)
    then have "fec_step repair ok n sent sh m out sh (?d\<lparr>fe_round_complete := True\<rparr>)"
      using step by (simp add: fec_step_def fec_sweep_def same_code_def)
    then show ?thesis using True False by (simp add: fec_feedback_def br fec_turn_ok_def Let_def)
  next
    case ne: False
    have "fec_inv ok n (start_quorum_feedback_wait (ti_now inp) sh) m1"
      using inv1 by (simp add: start_quorum_feedback_wait_def)
    then have "fec_step repair ok n sent sh m out (start_quorum_feedback_wait (ti_now inp) sh) m1"
      using step same_shell_updates(6) by (simp add: fec_step_def)
    then have "fec_step repair ok n sent sh m out (start_quorum_feedback_wait (ti_now inp) sh) ?d" by simp
    then show ?thesis using fec_turn_ok_continue(1) ne False by (simp add: fec_feedback_def br Let_def)
  qed
next
  case True
  show ?thesis
  proof (cases "fe_phase m = WaitingForReports \<and> all_reported sh m")
    case all: True
    obtain sh' m' where fin: "finish_report_round (sh, m) = (sh', m')" by fastforce
    note keep = finish_report_round_same_send [OF fin]
    have "fec_inv ok n sh' m'"
      using fec_round_inv_finish [OF _ _ _ fin, of ok] all inv fec_send_inv_same_send [OF keep(1), of n sh]
        fec_send_inv_shell [OF keep(2)] by (simp add: fec_inv_def)
    then have "fec_step repair ok n sent sh m [] sh' m'"
      using fec_step_same_send [OF _ sw keep(2,1)] by simp
    then show ?thesis using all True fin fec_turn_ok_continue(1) by (simp add: fec_feedback_def)
  next
    case False
    obtain out oc sh' m' where "wait_for_quorum_feedback fec_on_need (fe_current_round_id m) (ti_wake inp)
        (ti_wake_now inp) (sh, m) = Some (out, oc, (sh', m'))"
      and step: "fec_step repair ok n sent sh m out sh' m'"
      using fec_quorum_wait_step [OF inv sw w] by blast
    then have "fec_feedback inp (sh, m) = Some (out,
        if oc = WaitTimedOut \<or> oc = WaitClosed then TurnFinished Aborted (sh', m') else TurnContinue (sh', m'))"
      using True False by (auto simp: fec_feedback_def)
    then show ?thesis using fec_turn_ok_continue [OF step] by simp
  qed
qed

lemma fec_turn_good:
  assumes inv: "fec_inv ok n sh m" and n: "n < 2 ^ 31" and sw: "fec_sweep m sent" and rs: "repair_sized repair"
    and d: "\<forall>f\<in>set (ti_drained inp). frame_supports ok f" and w: "wake_supports ok (ti_wake inp)"
  shows "fec_turn_ok repair ok (Suc n) sent sh m (fec_turn repair inp (sh, m))"
proof (cases "fe_round_complete m")
  case True
  then show ?thesis
    using fec_step_idle [OF fec_inv_mono [OF inv] sw, of "Suc n"] by (simp add: fec_turn_def fec_turn_ok_def)
next
  case False
  obtain sh1 m1 where dr: "drain_controls fec_on_need (ti_drained inp) (sh, m) = (sh1, m1)" by fastforce
  note step1 = fec_drain_step(1) [OF inv sw d dr, of repair]
  let ?s1 = "\<lambda>b i. sent b i \<or> symbol_sent repair sh m [] b i"
  have inv1: "fec_inv ok n sh1 m1" and sw1: "fec_sweep m1 ?s1" using step1 by (simp_all add: fec_step_def)
  have later: "fec_turn_ok repair ok (Suc n) sent sh m r" if "fec_turn_ok repair ok (Suc n) ?s1 sh1 m1 r" for r
    using that fec_step_trans [OF step1] codec_exceeded_code [of m m1 "Suc n"] step1
    by (fastforce simp: fec_turn_ok_def fec_step_def split: option.splits)
  have extra: "fec_turn_ok repair ok (Suc n) sent sh m
      (map_option (fec_after_send inp) (send_extra_symbol repair (fti_admit inp) b i (sh1, m1)))"
    if next': "next_extra_symbol m1 = Some (b, i)" for b i
  proof -
    show ?thesis
    proof (rule send_extra_symbol_spec [OF inv1 n sw1 rs next', of "fti_admit inp"])
      fix out flag sh' m'
      assume "send_extra_symbol repair (fti_admit inp) b i (sh1, m1) = Some (out, flag, (sh', m'))"
        "fec_step repair ok (Suc n) ?s1 sh1 m1 out sh' m'" "\<not> flag \<Longrightarrow> out = []"
      then show ?thesis using fec_after_send_ok [OF _ _ w] later by simp
    next
      assume "send_extra_symbol repair (fti_admit inp) b i (sh1, m1) = None" "codec_exceeded m1 (Suc n)"
      then show ?thesis by (intro later) (simp add: fec_turn_ok_def)
    qed
  qed
  show ?thesis
  proof (cases "fe_protocol_error m1")
    case True
    have "fec_step repair ok (Suc n) ?s1 sh1 m1 [] sh1 m1"
      by (rule fec_step_idle [OF fec_inv_mono [OF inv1] sw1]) simp
    then show ?thesis
      using later [OF fec_turn_ok_continue(2)] False dr True by (simp add: fec_turn_def)
  next
    case ne: False
    show ?thesis
    proof (cases "next_source_symbol m1")
      case (Some bi)
      obtain b i where bi: "bi = (b, i)" by fastforce
      obtain out flag sh' m' where ss: "send_source_symbol (fti_admit inp) b i (sh1, m1) = Some (out, flag, (sh', m'))"
        "fec_step repair ok n ?s1 sh1 m1 out sh' m'" "\<not> flag \<Longrightarrow> out = []"
        using send_source_symbol_spec [OF inv1 sw1 rs, of b i "fti_admit inp"] Some bi by blast
      have "fec_step repair ok (Suc n) ?s1 sh1 m1 out sh'
          (if flag then m'\<lparr>fe_round_source_done_sent := False\<rparr> else m')"
        using fec_step_mono [OF ss(2)] by simp
      note ok' = later [OF fec_after_send_ok [OF this ss(3) w]]
      have "fec_turn repair inp (sh, m) = Some (fec_after_send inp (out, flag,
          (sh', if flag then m'\<lparr>fe_round_source_done_sent := False\<rparr> else m')))"
        using False ne dr Some bi ss(1) by (cases flag) (simp_all add: fec_turn_def)
      then show ?thesis using ok' by simp
    next
      case None
      show ?thesis
      proof (cases "next_extra_symbol m1")
        case (Some bi)
        then show ?thesis
          using extra [of "fst bi" "snd bi"] False ne dr None by (simp add: fec_turn_def case_prod_unfold)
      next
        case none: None
        have "fec_turn_ok repair ok (Suc n) ?s1 sh1 m1 (fec_feedback inp (sh1, m1))"
          by (rule fec_feedback_ok [OF fec_inv_mono [OF inv1] sw1 w None]) simp
        then show ?thesis using later False ne dr None none by (simp add: fec_turn_def)
      qed
    qed
  qed
qed

section \<open>The whole run\<close>

lemma fec_loop_good:
  assumes "fec_inv ok n sh m" "n + length inps \<le> 2 ^ 31" "fec_sweep m sent" "repair_sized repair"
    and "\<forall>inp\<in>set inps. (\<forall>f\<in>set (ti_drained inp). frame_supports ok f) \<and> wake_supports ok (ti_wake inp)"
  shows "\<exists>n' \<le> n + length inps. fec_turn_ok repair ok n' sent sh m (fec_loop repair inps (sh, m))"
  using assms
proof (induction inps arbitrary: n sh m sent)
  case Nil
  then show ?case using fec_turn_ok_continue(1) [OF fec_step_idle [OF Nil.prems(1,3)]] by auto
next
  case (Cons inp inps)
  have good: "fec_turn_ok repair ok (Suc n) sent sh m (fec_turn repair inp (sh, m))"
    using fec_turn_good [OF Cons.prems(1) _ Cons.prems(3,4)] Cons.prems(2,5) by simp
  show ?case
  proof (cases "fec_turn repair inp (sh, m)")
    case None
    then show ?thesis using good by (intro exI [of _ "Suc n"]) (simp add: fec_turn_ok_def)
  next
    case (Some r)
    then obtain out1 t1 sh1 m1 where 1: "fec_turn repair inp (sh, m) = Some (out1, t1)"
      "turn_state t1 = (sh1, m1)" and step: "fec_step repair ok (Suc n) sent sh m out1 sh1 m1"
      and fin: "t1 = TurnFinished Completed (sh1, m1) \<longrightarrow> fe_round_complete m1"
      using good by (cases r) (auto simp: fec_turn_ok_def)
    show ?thesis
    proof (cases t1)
      case (TurnFinished oc st)
      then have "fec_loop repair (inp # inps) (sh, m) = Some (out1, t1)" using 1 by simp
      then show ?thesis using 1(2) step fin by (intro exI [of _ "Suc n"]) (simp add: fec_turn_ok_def)
    next
      case (TurnContinue st)
      then have st: "t1 = TurnContinue (sh1, m1)" using 1(2) by simp
      let ?sent = "\<lambda>b i. sent b i \<or> symbol_sent repair sh m out1 b i"
      have "fec_inv ok (Suc n) sh1 m1" "fec_sweep m1 ?sent" and code: "same_code m m1"
        using step by (simp_all add: fec_step_def)
      from Cons.IH [OF this(1) _ this(2) Cons.prems(4)] obtain n' where n': "n' \<le> Suc n + length inps"
        and rest: "fec_turn_ok repair ok n' ?sent sh1 m1 (fec_loop repair inps (sh1, m1))"
        using Cons.prems(2,5) by auto
      have "fec_turn_ok repair ok n' sent sh m (fec_loop repair (inp # inps) (sh, m))"
      proof (cases "fec_loop repair inps (sh1, m1)")
        case None
        then show ?thesis
          using rest codec_exceeded_code [OF code, of n'] by (simp add: 1(1) st fec_turn_ok_def)
      next
        case (Some r2)
        then obtain out2 t sh' m' where 2: "fec_loop repair inps (sh1, m1) = Some (out2, t)"
          "turn_state t = (sh', m')" "fec_step repair ok n' ?sent sh1 m1 out2 sh' m'"
          "t = TurnFinished Completed (sh', m') \<longrightarrow> fe_round_complete m'"
          using rest by (cases r2) (auto simp: fec_turn_ok_def)
        then show ?thesis using fec_step_trans [OF step 2(3)] by (simp add: 1(1) st fec_turn_ok_def)
      qed
      then show ?thesis using n' by auto
    qed
  qed
qed

lemma fec_sender_new_Inr:
  assumes "fec_sender_new manifest plan = Inr m"
  shows "symbol_geometry plan (fe_symbols_per_block m) = Inr (fe_geometry m)" "fe_next_tree_rr m = 0"
    "fe_current_source_cache m = None" "fe_phase m = SendingData" "fe_round_reports m = []"
    "\<not> fe_round_complete m"
    "map send_view (fe_blocks m) =
      replicate (unat (bp_total_blocks plan)) (0, ucast (fe_symbols_per_block m), None)"
    "list_all (\<lambda>b. fs_emitted_extra_symbols b \<le> fs_required_extra_symbols b) (fe_blocks m)"
  using assms
  by (auto simp: fec_sender_new_def send_view_def list_all_iff split: LosslessSessionMode.splits sum.splits)

lemma fec_start:
  assumes "fec_sender_new (ss_manifest sh) (ss_plan sh) = Inr m" "plan_ok (ss_plan sh)"
    "q_frozen (ss_quorum sh)" "symbol_size (fe_geometry m) < 2 ^ 16"
  shows "fec_inv ok 0 sh m" "fec_sweep m (\<lambda>_ _. False)"
proof -
  note m = fec_sender_new_Inr [OF assms(1)] and view = fec_sender_new_Inr(7) [OF assms(1)]
  have "length (map send_view (fe_blocks m)) = unat (bp_total_blocks (ss_plan sh))"
    unfolding view by simp
  moreover have "fec_block_inv sh m 0 (word_of_nat i) (map send_view (fe_blocks m) ! i)"
    if "i < length (map send_view (fe_blocks m))" for i
    using that m(4) unfolding view by (simp add: fec_block_inv_def)
  ultimately show "fec_inv ok 0 sh m"
    using m assms(2-4) by (simp add: fec_inv_def fec_round_inv_def fec_send_inv_def)
  show "fec_sweep m (\<lambda>_ _. False)" unfolding fec_sweep_def view by simp
qed

lemma fec_run_good:
  assumes "fec_sender_new (ss_manifest sh) (ss_plan sh) = Inr m"
    and "plan_ok (ss_plan sh)" "q_frozen (ss_quorum sh)" "symbol_size (fe_geometry m) < 2 ^ 16"
    and "repair_sized repair" "length inps \<le> 2 ^ 31"
  obtains n where "n \<le> length inps"
    "fec_turn_ok repair (need_received (map TurnInput.truncate inps)) n (\<lambda>_ _. False) sh m (fec_run repair inps (sh, m))"
proof -
  let ?ok = "need_received (map TurnInput.truncate inps)"
  note start = fec_start [OF assms(1-4)]
  have sup: "\<forall>inp\<in>set inps. (\<forall>f\<in>set (ti_drained inp). frame_supports ?ok f) \<and> wake_supports ?ok (ti_wake inp)"
    using inputs_support_received [of "map TurnInput.truncate inps"] by (simp add: TurnInput.truncate_def)
  show thesis
    using fec_loop_good [OF start(1) _ start(2) assms(5) sup] assms(6) that by (auto simp: fec_run_def)
qed

text \<open>What a completed sender has been told and has sent.\<close>

lemma fec_complete_sound:
  assumes step: "fec_step repair ok n (\<lambda>_ _. False) sh m out sh' m'" and "q_frozen (ss_quorum sh)"
    and complete: "fe_round_complete m'"
  shows "(\<exists>r. \<forall>p\<in>q_active (ss_quorum sh). ok p r NeedComplete) \<and>
    (\<forall>b < bp_total_blocks (ss_plan sh). \<forall>i. unat i < unat (fe_symbols_per_block m) \<longrightarrow> symbol_sent repair sh m out b i)"
proof (intro conjI exI ballI allI impI)
  have inv: "fec_round_inv ok sh' m'" "fec_send_inv n sh' m'" and shell: "same_shell sh sh'"
    and code: "same_code m m'" and sw: "fec_sweep m' (symbol_sent repair sh m out)"
    using step by (simp_all add: fec_step_def fec_inv_def)
  show "ok p (fe_current_round_id m') NeedComplete" if "p \<in> q_active (ss_quorum sh)" for p
    using complete_round_told [OF inv(1) complete] that shell assms(2) by (simp add: same_shell_def)
  fix b :: u64 and i :: u32 assume b: "b < bp_total_blocks (ss_plan sh)" and i: "unat i < unat (fe_symbols_per_block m)"
  have len: "unat b < length (fe_blocks m')"
    using b inv(2) shell by (simp add: fec_send_inv_def same_shell_def word_less_nat_alt)
  have "fe_phase m' = WaitingForReports" using inv(1) complete by (simp add: fec_round_inv_def)
  then have "unat (fs_next_source_symbol (fe_blocks m' ! unat b)) = unat (fe_symbols_per_block m)"
    using fec_send_inv_block [OF inv(2) len] code
    by (simp add: fec_block_inv_def send_view_def same_code_def)
  then show "symbol_sent repair sh m out b i"
    using sw len i by (force simp: fec_sweep_def send_view_def word_less_nat_alt)
qed

text \<open>C5. An FEC sender panics only when the codec's limits are exceeded: more than 56403 symbols in a
  block, or more iterations than there are 24-bit ids for repair symbols.  As long as it does not,
  everything it submits is \<open>SourceDone\<close> or a symbol of its own source on one of its trees.  If it
  finishes as completed, every member of its quorum told it Complete for one and the same round, and
  every source symbol of every block was submitted.  This holds whatever the processors accept and
  whatever feedback arrives, for runs of at most \<open>2 ^ 31\<close> iterations (the fountain ids are 32-bit)
  and symbol sizes that fit the codec's 16-bit field.\<close>

theorem fec_sender_completion:
  assumes new: "fec_sender_new (ss_manifest sh) (ss_plan sh) = Inr m"
    and ok: "plan_ok (ss_plan sh)" "q_frozen (ss_quorum sh)" "symbol_size (fe_geometry m) < 2 ^ 16"
    and rs: "repair_sized repair" and len: "length inps \<le> 2 ^ 31"
  shows "(fec_run repair inps (sh, m) = None \<longrightarrow>
      MAX_SOURCE_SYMBOLS_PER_BLOCK < unat (fe_symbols_per_block m) \<or>
      ESI_LIMIT < unat (fe_symbols_per_block m) + length inps) \<and>
    (\<forall>out t. fec_run repair inps (sh, m) = Some (out, t) \<longrightarrow> fec_outputs repair sh m out \<and>
      (\<forall>st. t = TurnFinished Completed st \<longrightarrow>
        (\<exists>r. \<forall>p\<in>q_active (ss_quorum sh). need_received (map TurnInput.truncate inps) p r NeedComplete) \<and>
        (\<forall>b < bp_total_blocks (ss_plan sh). \<forall>i. unat i < unat (fe_symbols_per_block m) \<longrightarrow>
          symbol_sent repair sh m out b i)))"
proof -
  let ?ok = "need_received (map TurnInput.truncate inps)"
  obtain n where n: "n \<le> length inps"
    and good: "fec_turn_ok repair ?ok n (\<lambda>_ _. False) sh m (fec_run repair inps (sh, m))"
    by (rule fec_run_good [OF assms])
  show ?thesis
  proof (cases "fec_run repair inps (sh, m)")
    case None
    then show ?thesis using good codec_exceeded_mono [OF _ n] by (simp add: fec_turn_ok_def codec_exceeded_def)
  next
    case (Some r)
    then obtain out t sh' m' where r: "r = (out, t)" "turn_state t = (sh', m')"
      and step: "fec_step repair ?ok n (\<lambda>_ _. False) sh m out sh' m'"
      and fin: "t = TurnFinished Completed (sh', m') \<longrightarrow> fe_round_complete m'"
      using good by (cases r) (auto simp: fec_turn_ok_def)
    have outs: "fec_outputs repair sh m out" using step by (simp add: fec_step_def)
    have "fe_round_complete m'" if "t = TurnFinished Completed st" for st
      using that r(2) fin by simp
    then show ?thesis using fec_complete_sound [OF step ok(2)] outs by (simp add: Some r(1)) blast
  qed
qed

section \<open>The repair window\<close>

lemma unat_sum_list:
  fixes f :: "'b \<Rightarrow> 'a::len word"
  assumes "sum_list (map (\<lambda>x. unat (f x)) xs) < 2 ^ LENGTH('a)"
  shows "unat (sum_list (map f xs)) = sum_list (map (\<lambda>x. unat (f x)) xs)"
  using assms
proof (induction xs)
  case (Cons x xs)
  then show ?case by (simp add: unat_word_ariths)
qed simp

text \<open>The deficits the reports of a round ask for, in symbols.\<close>

definition required_symbols :: "FecSender \<Rightarrow> nat" where
  "required_symbols m = sum_list (map (\<lambda>b. unat (fs_required_extra_symbols b)) (fe_blocks m))"

definition emitted_symbols :: "FecSender \<Rightarrow> nat" where
  "emitted_symbols m = sum_list (map (\<lambda>b. unat (fs_emitted_extra_symbols b)) (fe_blocks m))"

lemma unat_total_required:
  "required_symbols m < 2 ^ 32 \<Longrightarrow> unat (total_required_extra_symbols m) = required_symbols m"
  using unat_sum_list [of "\<lambda>b. ucast (fs_required_extra_symbols b) :: u32" "fe_blocks m"]
  by (simp add: total_required_extra_symbols_def required_symbols_def)

lemma unat_total_emitted:
  "emitted_symbols m < 2 ^ 32 \<Longrightarrow> unat (total_emitted_extra_symbols m) = emitted_symbols m"
  using unat_sum_list [of "\<lambda>b. ucast (fs_emitted_extra_symbols b) :: u32" "fe_blocks m"]
  by (simp add: total_emitted_extra_symbols_def emitted_symbols_def)

lemma unat_u32_clamp: "n < 2 ^ 32 \<Longrightarrow> unat (u32_clamp n) = n"
  by (simp add: u32_clamp_def unat_of_nat_small)

lemma unat_saturating_mul:
  fixes a b :: "'a::len word"
  assumes "unat a * unat b < 2 ^ LENGTH('a)"
  shows "unat (saturating_mul a b) = unat a * unat b"
  using assms by (simp add: saturating_mul_def unat_word_ariths)

lemma repair_window_value:
  fixes sh :: SenderShared
  assumes "required_symbols m * length (fe_round_reports m) < 2 ^ 32" "0 < length (fe_round_reports m)"
    and "length (fe_round_reports m) \<le> card (q_active (ss_quorum sh))" "card (q_active (ss_quorum sh)) < 2 ^ 32"
  shows "unat (fe_repair_window_symbols (recalculate_repair_window sh m)) =
    min (nat_div_ceil (required_symbols m * length (fe_round_reports m)) (card (q_active (ss_quorum sh))))
      (required_symbols m)"
proof -
  let ?R = "required_symbols m" and ?n = "length (fe_round_reports m)" and ?q = "card (q_active (ss_quorum sh))"
  let ?w = "word_div_ceil (saturating_mul (total_required_extra_symbols m) (u32_clamp ?n)) (u32_clamp ?q)"
  have R: "?R < 2 ^ 32"
    using assms(1,2) by (cases ?n) (auto intro: le_less_trans [of _ "?R * ?n"])
  have un: "unat (total_required_extra_symbols m) = ?R" "unat (u32_clamp ?n) = ?n" "unat (u32_clamp ?q) = ?q"
    using unat_total_required [OF R] assms(3,4) unat_u32_clamp by simp_all
  have nz: "u32_clamp ?n \<noteq> 0" "u32_clamp ?q \<noteq> 0"
    using un(2,3) assms(2,3) by (auto simp: unat_eq_0 [symmetric] simp del: unat_eq_0)
  show ?thesis
  proof (cases "?R = 0")
    case True
    then have "total_required_extra_symbols m = 0" using un(1) by (simp add: unat_eq_0)
    then show ?thesis using True by (simp add: recalculate_repair_window_def)
  next
    case False
    then have tz: "total_required_extra_symbols m \<noteq> 0" using un(1) by auto
    have sm: "unat (saturating_mul (total_required_extra_symbols m) (u32_clamp ?n)) = ?R * ?n"
      using unat_saturating_mul [of "total_required_extra_symbols m" "u32_clamp ?n"] un assms(1) by simp
    have w: "unat ?w = nat_div_ceil (?R * ?n) ?q"
      using nz(2) by (simp add: unat_word_div_ceil sm un)
    have "0 < nat_div_ceil (?R * ?n) ?q"
      using less_nat_div_ceil_iff [of ?q 0 "?R * ?n"] assms(2,3) False by simp
    then have "1 \<le> ?w" using w by (simp add: word_le_nat_alt)
    then have "max ?w 1 = ?w" by (rule max_absorb1)
    then have "fe_repair_window_symbols (recalculate_repair_window sh m) = min ?w (total_required_extra_symbols m)"
      using tz nz by (simp add: recalculate_repair_window_def Let_def)
    then show ?thesis
      using w un(1) by (auto simp: min_def word_le_nat_alt)
  qed
qed

text \<open>What the reports of a round ask for block \<open>i\<close>: the largest deficit any of them names.\<close>

fun asked :: "NeedBlock list \<Rightarrow> nat \<Rightarrow> nat" where
  "asked [] i = 0"
| "asked (nb # nbs) i = max (if unat (nb_block_id nb) = i then unat (nb_deficit_symbols nb) else 0) (asked nbs i)"

definition report_asks :: "NeedReport \<Rightarrow> nat \<Rightarrow> nat" where
  "report_asks rep i = (case rep of NeedFec blocks \<Rightarrow> asked blocks i | _ \<Rightarrow> 0)"

fun demand :: "(usize \<times> NeedReport) list \<Rightarrow> nat \<Rightarrow> nat" where
  "demand [] i = 0"
| "demand ((p, rep) # rs) i = max (report_asks rep i) (demand rs i)"

lemma demand_insert:
  "map_of rs p = None \<Longrightarrow> demand (btree_insert p rep rs) i = max (report_asks rep i) (demand rs i)"
  by (induction rs) (auto split: if_splits)

lemma asked_le_demand: "(p, NeedFec blocks) \<in> set rs \<Longrightarrow> asked blocks i \<le> demand rs i"
  by (induction rs) (auto simp: report_asks_def le_max_iff_disj)

lemma raise_required_asked:
  "i < length (fe_blocks m) \<Longrightarrow> unat (fs_required_extra_symbols (fe_blocks (raise_required nbs m) ! i)) =
     max (unat (fs_required_extra_symbols (fe_blocks m ! i))) (asked nbs i)"
proof (induction nbs arbitrary: m)
  case (Cons nb nbs)
  then show ?case by (auto simp: fec_block_update_nth max_def word_le_nat_alt)
qed simp

lemma raise_required_length [simp]: "length (fe_blocks (raise_required nbs m)) = length (fe_blocks m)"
  by (induction nbs arbitrary: m) simp_all

lemma raise_required_same:
  "\<forall>i < length (fe_blocks m). asked nbs i \<le> unat (fs_required_extra_symbols (fe_blocks m ! i)) \<Longrightarrow>
     raise_required nbs m = m"
proof (induction nbs arbitrary: m)
  case (Cons nb nbs)
  have "fec_block_update (nb_block_id nb) (\<lambda>b. b\<lparr>fs_required_extra_symbols :=
      max (fs_required_extra_symbols b) (nb_deficit_symbols nb)\<rparr>) m = m"
  proof (cases "unat (nb_block_id nb) < length (fe_blocks m)")
    case True
    then have "nb_deficit_symbols nb \<le> fs_required_extra_symbols (fe_blocks m ! unat (nb_block_id nb))"
      using Cons.prems by (auto simp: word_le_nat_alt)
    then show ?thesis using True by (simp add: fec_block_update_def Let_def max_absorb1)
  qed (simp add: fec_block_update_def)
  then show ?case using Cons by simp
qed simp

text \<open>\<open>demand_ok\<close>: no block has been sent more repair symbols than were asked for it.  \<open>window_ok\<close>: the
  blocks owe what the reports ask for, and the sender's window is the one these numbers give.\<close>

definition demand_ok :: "FecSender \<Rightarrow> bool" where
  "demand_ok m \<longleftrightarrow> list_all (\<lambda>b. fs_emitted_extra_symbols b \<le> fs_required_extra_symbols b) (fe_blocks m)"

definition window_ok :: "SenderShared \<Rightarrow> FecSender \<Rightarrow> bool" where
  "window_ok sh m \<longleftrightarrow>
     fe_repair_window_symbols m = fe_repair_window_symbols (recalculate_repair_window sh m) \<and>
     (\<forall>i < length (fe_blocks m).
        unat (fs_required_extra_symbols (fe_blocks m ! i)) = demand (fe_round_reports m) i) \<and>
     (fe_phase m = SendingData \<longrightarrow> fe_round_reports m = [])"

definition repair_ok :: "SenderShared \<Rightarrow> FecSender \<Rightarrow> bool" where
  "repair_ok sh m \<longleftrightarrow> q_frozen (ss_quorum sh) \<and> demand_ok m \<and> (\<not> fe_protocol_error m \<longrightarrow> window_ok sh m)"

lemmas window_simps = recalculate_repair_window_def total_required_extra_symbols_def Let_def

lemma repair_ok_shell:
  assumes "same_shell sh sh'" "repair_ok sh m" shows "repair_ok sh' m"
proof -
  have "ss_quorum sh' = ss_quorum sh" using assms by (auto simp: repair_ok_def same_shell_def quorum_ok_def)
  then show ?thesis using assms(2) by (simp add: repair_ok_def window_ok_def window_simps)
qed

lemma repair_ok_updates [simp]:
  "repair_ok sh (m\<lparr>fe_round_complete := c\<rparr>) \<longleftrightarrow> repair_ok sh m"
  "repair_ok sh (m\<lparr>fe_round_source_done_sent := d\<rparr>) \<longleftrightarrow> repair_ok sh m"
  "repair_ok sh (m\<lparr>fe_current_source_cache := x\<rparr>) \<longleftrightarrow> repair_ok sh m"
  "repair_ok sh (m\<lparr>fe_frame_scratch := y\<rparr>) \<longleftrightarrow> repair_ok sh m"
  "repair_ok sh (m\<lparr>fe_next_tree_rr := rr\<rparr>) \<longleftrightarrow> repair_ok sh m"
  by (simp_all add: repair_ok_def demand_ok_def window_ok_def window_simps)

lemma repair_ok_error:
  "repair_ok sh m \<Longrightarrow> fe_blocks m' = fe_blocks m \<Longrightarrow> fe_protocol_error m' \<Longrightarrow> repair_ok sh m'"
  by (simp add: repair_ok_def demand_ok_def)

lemma repair_ok_reopen:
  "repair_ok sh m \<Longrightarrow> repair_ok (clear_quorum_feedback_wait sh) (reopen_round m1)"
  by (simp add: repair_ok_def demand_ok_def window_ok_def window_simps reopen_round_def list_all_iff comp_def
      clear_quorum_feedback_wait_def)

text \<open>An update of a block that leaves what it owes.\<close>

lemma repair_ok_block:
  assumes "repair_ok sh m"
    and "\<And>block. fs_required_extra_symbols (f block) = fs_required_extra_symbols block"
    and "unat b < length (fe_blocks m) \<Longrightarrow>
      fs_emitted_extra_symbols (f (fe_blocks m ! unat b)) \<le> fs_required_extra_symbols (fe_blocks m ! unat b)"
  shows "repair_ok sh (fec_block_update b f m)"
proof -
  have r: "map fs_required_extra_symbols (fe_blocks (fec_block_update b f m)) = map fs_required_extra_symbols (fe_blocks m)"
    by (rule nth_equalityI) (auto simp: fec_block_update_nth assms(2))
  have "demand_ok (fec_block_update b f m)"
    using assms by (auto simp: repair_ok_def demand_ok_def list_all_length fec_block_update_nth)
  moreover have "total_required_extra_symbols (fec_block_update b f m) = total_required_extra_symbols m"
    using arg_cong [OF r, of "\<lambda>xs. sum_list (map ucast xs)"]
    by (simp add: total_required_extra_symbols_def comp_def)
  moreover have "fs_required_extra_symbols (fe_blocks (fec_block_update b f m) ! i) = fs_required_extra_symbols (fe_blocks m ! i)"
    if "i < length (fe_blocks m)" for i
    using that by (simp add: fec_block_update_nth assms(2))
  moreover have "fe_repair_window_symbols (fec_block_update b f m) = fe_repair_window_symbols m"
    by (simp add: fec_block_update_def Let_def)
  ultimately show ?thesis
    using assms(1) by (simp add: repair_ok_def window_ok_def recalculate_repair_window_def Let_def)
qed

text \<open>The reports of a round ask for nothing that has not been taken over already.\<close>

lemma absorb_reports_same:
  assumes "absorb_reports rs a m = (r, m')" "set rs \<subseteq> set (fe_round_reports m)"
    and "\<forall>i < length (fe_blocks m).
      unat (fs_required_extra_symbols (fe_blocks m ! i)) = demand (fe_round_reports m) i"
  shows "m' = m \<or> m' = m\<lparr>fe_protocol_error := True\<rparr>"
  using assms
proof (induction rs a m rule: absorb_reports.induct)
  case (3 p blocks rs every m)
  have "raise_required blocks m = m"
    using 3(3,4) asked_le_demand [of p blocks "fe_round_reports m"] by (intro raise_required_same) auto
  then show ?case using 3 by simp
qed auto

lemma demand_ok_raise: "demand_ok m \<Longrightarrow> demand_ok (raise_required nbs m)"
proof (induction nbs arbitrary: m)
  case (Cons nb nbs)
  then show ?case by (auto simp: demand_ok_def list_all_length fec_block_update_nth le_max_iff_disj)
qed simp

lemma absorb_reports_demand:
  "absorb_reports rs a m = (r, m') \<Longrightarrow> demand_ok m \<Longrightarrow>
     demand_ok m' \<and> (fe_protocol_error m \<longrightarrow> fe_protocol_error m')"
  by (induction rs a m rule: absorb_reports.induct) (auto simp: demand_ok_raise, simp_all add: demand_ok_def)

lemma repair_ok_finish:
  assumes "repair_ok sh m" "finish_report_round (sh, m) = (sh', m')"
  shows "repair_ok sh' m'"
proof (cases "fe_protocol_error m")
  case True
  show ?thesis
    using assms(2)
  proof (cases rule: finish_report_round_cases)
    case (more a)
    have "demand_ok m' \<and> fe_protocol_error m'"
      using absorb_reports_demand [OF more(2)] assms(1) True by (simp add: repair_ok_def)
    then show ?thesis using assms(1) more(1) by (simp add: repair_ok_def)
  next
    case (reopen m1)
    then show ?thesis using assms(1) by (simp add: repair_ok_reopen)
  qed (use assms(1) in simp)
next
  case False
  then have w: "window_ok sh m" using assms(1) by (simp add: repair_ok_def)
  show ?thesis
    using assms(2)
  proof (cases rule: finish_report_round_cases)
    case (more a)
    then have "m' = m \<or> m' = m\<lparr>fe_protocol_error := True\<rparr>"
      using absorb_reports_same [of "fe_round_reports m" True m a m'] w by (auto simp: window_ok_def)
    then show ?thesis using assms(1) more(1) repair_ok_error [of sh m m'] by auto
  next
    case (reopen m1)
    then show ?thesis using assms(1) by (simp add: repair_ok_reopen)
  qed (use assms(1) in simp)
qed

lemma repair_ok_on_need:
  assumes "repair_ok sh m"
  shows "repair_ok sh (snd (fec_on_need sh p r rep m))"
proof -
  obtain sh' m' where need: "fec_on_need sh p r rep m = (sh', m')" by fastforce
  have "\<exists>l. sh' = sh\<lparr>ss_liveness := l\<rparr>" using fec_on_need_shell [of sh p r rep m] need by auto
  then have same: "repair_ok sh m'" if "repair_ok sh' m'" using that by (auto simp: repair_ok_def window_ok_def window_simps)
  show ?thesis
  proof (cases "fe_phase m = WaitingForReports \<and> r = fe_current_round_id m \<and> map_of (fe_round_reports m) p = None")
    case False
    then have "m' = m \<or> m' = m\<lparr>fe_protocol_error := True\<rparr>"
      using need by (auto simp: fec_on_need_def split: if_splits option.splits)
    then show ?thesis using assms repair_ok_error [of sh m m'] by (auto simp: need)
  next
    case True
    let ?m = "m\<lparr>fe_round_reports := btree_insert p rep (fe_round_reports m)\<rparr>"
    show ?thesis
    proof (cases "\<exists>rs. rep = NeedPlain rs")
      case plain: True
      then have "m' = ?m\<lparr>fe_protocol_error := True\<rparr>" using need True by (auto simp: fec_on_need_def Let_def)
      then show ?thesis using assms repair_ok_error [of sh m m'] by (simp add: need)
    next
      case False
      define nbs where "nbs = (case rep of NeedFec blocks \<Rightarrow> blocks | _ \<Rightarrow> [])"
      let ?r = "recalculate_repair_window sh (raise_required nbs ?m)"
      have asks: "report_asks rep i = asked nbs i" for i
        using False by (cases rep) (simp_all add: report_asks_def nbs_def)
      have "window_ok sh ?r" if "window_ok sh m"
      proof -
        have "unat (fs_required_extra_symbols (fe_blocks (raise_required nbs ?m) ! i)) =
            demand (btree_insert p rep (fe_round_reports m)) i" if "i < length (fe_blocks m)" for i
          using that \<open>window_ok sh m\<close> True raise_required_asked [of i ?m nbs] demand_insert [of "fe_round_reports m" p rep i]
          by (simp add: window_ok_def asks max.commute)
        then show ?thesis using True by (simp add: window_ok_def) (simp add: window_simps)
      qed
      moreover have "demand_ok ?r"
      proof -
        have "demand_ok (raise_required nbs ?m)"
          using assms by (intro demand_ok_raise) (simp add: repair_ok_def demand_ok_def)
        then show ?thesis by (simp add: demand_ok_def)
      qed
      ultimately have ok: "repair_ok sh ?r" using assms by (simp add: repair_ok_def)
      have "(if all_reported sh ?r \<and> \<not> has_pending_repair_work ?r then finish_report_round (sh, ?r) else (sh, ?r)) = (sh', m')"
        using need True False by (cases rep) (auto simp: fec_on_need_def nbs_def Let_def split: if_splits)
      then have "repair_ok sh' m'" using ok repair_ok_finish [OF ok, of sh' m'] by (auto split: if_splits)
      then show ?thesis using same by (simp add: need)
    qed
  qed
qed

interpretation fec_demand: mode_hooks fec_on_need "\<lambda>_ _ _. True" repair_ok
proof
  show "repair_ok (sh\<lparr>ss_liveness := l\<rparr>) m \<longleftrightarrow> repair_ok sh m" for sh l m
    by (simp add: repair_ok_def window_ok_def window_simps)
  show "repair_ok (sh\<lparr>ss_quorum := record_ready p (ss_quorum sh)\<rparr>) m \<and>
      repair_ok (sh\<lparr>ss_quorum := freeze (ss_quorum sh)\<rparr>) m"
    if "repair_ok sh m" "\<not> q_frozen (ss_quorum sh)" for sh m p
    using that by (simp add: repair_ok_def)
qed (simp_all add: fec_on_need_shell repair_ok_on_need)

lemma frames_support_anything: "frame_supports (\<lambda>_ _ _. True) f" "wake_supports (\<lambda>_ _ _. True) w"
  by (auto simp: frame_supports_def wake_supports_def split: Wake.splits)

lemma repair_ok_try_send:
  "try_send_symbol admit sh b i p m = Some (out, flag, m') \<Longrightarrow> repair_ok sh m \<Longrightarrow> repair_ok sh m'"
  by (auto simp: try_send_symbol_def Let_def split: if_splits option.splits)

lemma repair_ok_send_source:
  assumes "send_source_symbol admit b i (sh, m) = Some (out, flag, (sh', m'))" "repair_ok sh m"
  shows "repair_ok sh' m'"
proof -
  obtain r m1 where pay: "source_symbol_payload sh b i m = (r, m1)" by fastforce
  then have m1: "repair_ok sh m1" using assms(2)
    by (auto simp: source_symbol_payload_def ensure_source_symbol_cache_def split: option.splits if_splits)
  show ?thesis
  proof (cases r)
    case None
    then show ?thesis using assms(1) m1 by (simp add: send_source_symbol_def pay)
  next
    case (Some p)
    then obtain m2 where m2: "try_send_symbol admit sh b i p m1 = Some (out, flag, m2)"
      "(sh', m') = (if \<not> flag then (sh, m2) else (mark_payload_emitted sh, fec_block_update b
        (\<lambda>b. b\<lparr>fs_next_source_symbol := fs_next_source_symbol b + 1\<rparr>) m2))"
      using assms(1) by (auto simp: send_source_symbol_def pay split: if_splits)
    have r2: "repair_ok sh m2" by (rule repair_ok_try_send [OF m2(1) m1])
    have "repair_ok sh (fec_block_update b (\<lambda>b. b\<lparr>fs_next_source_symbol := fs_next_source_symbol b + 1\<rparr>) m2)"
      using r2 by (intro repair_ok_block) (auto simp: repair_ok_def demand_ok_def list_all_length)
    then show ?thesis
      using m2(2) r2 repair_ok_shell [OF same_shell_updates(5) [of sh]] by (auto split: if_splits)
  qed
qed

lemma try_send_symbol_blocks:
  "try_send_symbol admit sh b i p m = Some (out, flag, m') \<Longrightarrow> fe_blocks m' = fe_blocks m"
  by (auto simp: try_send_symbol_def Let_def split: if_splits option.splits)

text \<open>The repair symbol sent is one that was missing.\<close>

lemma repair_ok_send_extra:
  assumes "send_extra_symbol repair admit b i (sh, m) = Some (out, flag, (sh', m'))" "repair_ok sh m"
    and lacking: "unat b < length (fe_blocks m)"
      "fs_emitted_extra_symbols (fe_blocks m ! unat b) < fs_required_extra_symbols (fe_blocks m ! unat b)"
  shows "repair_ok sh' m'"
proof -
  obtain r m1 where pay: "extra_symbol_payload repair sh b i m = Some (r, m1)"
    using assms(1) by (cases "extra_symbol_payload repair sh b i m") (auto simp: send_extra_symbol_def)
  obtain e where m1: "m1 = m \<or> m1 = fec_block_update b (\<lambda>b. b\<lparr>fs_encoder := e\<rparr>) m"
    using pay by (auto simp: extra_symbol_payload_def ensure_encoder_def Let_def split: option.splits if_splits)
  have d1: "repair_ok sh m1"
    using m1 assms(2) lacking(2) repair_ok_block [of sh m "\<lambda>b. b\<lparr>fs_encoder := e\<rparr>" b] by auto
  have l1: "unat b < length (fe_blocks m1)" "fs_emitted_extra_symbols (fe_blocks m1 ! unat b) < fs_required_extra_symbols (fe_blocks m1 ! unat b)"
    using m1 lacking by (auto simp: fec_block_update_nth)
  show ?thesis
  proof (cases r)
    case None
    then show ?thesis using assms(1) d1 by (simp add: send_extra_symbol_def pay)
  next
    case (Some p)
    let ?f = "\<lambda>b :: FecSendBlock. b\<lparr>fs_emitted_extra_symbols := saturating_add_1 (fs_emitted_extra_symbols b),
          fs_next_fountain_symbol := fs_next_fountain_symbol b + 1\<rparr>"
    obtain m2 where m2: "try_send_symbol admit sh b i p m1 = Some (out, flag, m2)"
      "(sh', m') = (if \<not> flag then (sh, m2) else (mark_payload_emitted sh, fec_block_update b ?f m2))"
      using assms(1) Some by (auto simp: send_extra_symbol_def pay split: if_splits)
    have d2: "repair_ok sh m2" and blocks: "fe_blocks m2 = fe_blocks m1"
      using repair_ok_try_send [OF m2(1) d1] try_send_symbol_blocks [OF m2(1)] by simp_all
    let ?e = "fs_emitted_extra_symbols (fe_blocks m2 ! unat b)"
      and ?r = "fs_required_extra_symbols (fe_blocks m2 ! unat b)"
    have "?e < ?r" using l1(2) by (simp add: blocks)
    then have "saturating_add_1 ?e \<le> ?r"
      using unat_Suc_word [of ?e ?r] by (auto simp: saturating_add_1_def word_le_nat_alt word_less_nat_alt)
    then have "repair_ok sh (fec_block_update b ?f m2)" by (intro repair_ok_block [OF d2]) simp_all
    then show ?thesis
      using m2(2) d2 repair_ok_shell [OF same_shell_updates(5) [of sh]] by (auto split: if_splits)
  qed
qed

lemma repair_ok_signal:
  assumes "repair_ok sh m" "wait_for_signal fec_on_need w (sh, m) = (open', (sh', m'))"
  shows "repair_ok sh' m'"
proof (cases w)
  case (RecvFrame f)
  then show ?thesis
    using assms(2) fec_demand.handle_control_inv [OF assms(1) frames_support_anything(1), of f]
    by (simp add: wait_for_signal_def)
qed (use assms in \<open>simp_all add: wait_for_signal_def\<close>)

lemma repair_ok_after_send:
  assumes "repair_ok sh m" "fec_after_send inp (out, flag, (sh, m)) = (out', t)" "turn_state t = (sh', m')"
  shows "repair_ok sh' m'"
  using assms repair_ok_signal [OF assms(1), of "ti_wake inp"]
  by (cases flag) (auto simp: fec_after_send_def split: prod.splits if_splits)

lemma repair_ok_feedback:
  assumes "repair_ok sh m" "fec_feedback inp (sh, m) = Some (out, t)" "turn_state t = (sh', m')"
  shows "repair_ok sh' m'"
proof (cases "fe_round_source_done_sent m")
  case False
  have "repair_ok sh (m\<lparr>fe_round_reports := [], fe_phase := WaitingForReports\<rparr>)" if "fe_phase m \<noteq> WaitingForReports"
    using that assms(1) by (cases "fe_phase m") (simp_all add: repair_ok_def demand_ok_def window_ok_def window_simps)
  then have begun: "repair_ok sh m1" if "begin_report_round sh m = Some (o1, m1)" for o1 m1
    using that assms(1) by (auto simp: begin_report_round_def split: if_splits)
  have start: "same_shell sh (start_quorum_feedback_wait (ti_now inp) sh)" by simp
  show ?thesis
    using assms(2,3) False begun repair_ok_shell [OF start]
    by (auto simp: fec_feedback_def Let_def split: if_splits)
next
  case True
  show ?thesis
  proof (cases "fe_phase m = WaitingForReports \<and> all_reported sh m")
    case all: True
    then show ?thesis using assms True repair_ok_finish [OF assms(1), of sh' m'] by (auto simp: fec_feedback_def)
  next
    case False
    then have "map_option (\<lambda>(out, outcome, st).
         (out, if outcome = WaitTimedOut \<or> outcome = WaitClosed then TurnFinished Aborted st
               else TurnContinue st))
       (wait_for_quorum_feedback fec_on_need (fe_current_round_id m) (ti_wake inp)
          (ti_wake_now inp) (sh, m)) = Some (out, t)"
      using assms(2)
      by (simp only: fec_feedback_def prod.case False True if_False not_True_eq_False)
    then obtain o1 oc st where w3: "wait_for_quorum_feedback fec_on_need (fe_current_round_id m)
        (ti_wake inp) (ti_wake_now inp) (sh, m) = Some (o1, oc, st)" "st = turn_state t"
      by (auto split: if_splits)
    then show ?thesis
      using assms(3) fec_demand.wait_inv [OF _ assms(1) frames_support_anything(2)] by (cases st) simp
  qed
qed

lemma repair_ok_turn:
  assumes "repair_ok sh m" "fec_inv (\<lambda>_ _ _. True) n sh m" "fec_turn repair inp (sh, m) = Some (out, t)"
    and st: "turn_state t = (sh', m')"
  shows "repair_ok sh' m'"
proof (cases "fe_round_complete m")
  case True
  then show ?thesis using assms by (auto simp: fec_turn_def)
next
  case False
  obtain sh1 m1 where dr: "drain_controls fec_on_need (ti_drained inp) (sh, m) = (sh1, m1)" by fastforce
  have d1: "repair_ok sh1 m1"
    using fec_demand.drain_controls_inv [OF assms(1), of "ti_drained inp"] dr
    by (simp add: frames_support_anything)
  have "fec_inv (\<lambda>_ _ _. True) n sh1 m1"
    using fec_hooks.drain_controls_inv [of "\<lambda>_ _ _. True" n sh m m "ti_drained inp"] dr assms(2)
    by (simp add: frames_support_anything)
  then have send1: "fec_send_inv n sh1 m1" by (simp add: fec_inv_def)
  have extra: "repair_ok sh' m'"
    if next': "next_extra_symbol m1 = Some (b, i)"
      and se: "map_option (fec_after_send inp) (send_extra_symbol repair (fti_admit inp) b i (sh1, m1)) = Some (out, t)" for b i
  proof -
    obtain block where fb: "first_block (\<lambda>b. fs_emitted_extra_symbols b < fs_required_extra_symbols b) 0
        (fe_blocks m1) = Some (b, block)"
      using next' by (auto simp: next_extra_symbol_def split: if_splits)
    note ch = chosen_block [OF send1 fb]
    obtain o1 flag sh2 m2 where se2: "send_extra_symbol repair (fti_admit inp) b i (sh1, m1) = Some (o1, flag, (sh2, m2))"
      "fec_after_send inp (o1, flag, (sh2, m2)) = (out, t)"
      using se by auto
    then have "repair_ok sh2 m2" using repair_ok_send_extra [OF se2(1) d1 ch(1)] ch(2,3) by simp
    then show ?thesis using repair_ok_after_send se2(2) st by blast
  qed
  show ?thesis
  proof (cases "fe_protocol_error m1")
    case True
    then show ?thesis using assms(3) False dr d1 st by (auto simp: fec_turn_def)
  next
    case ne: False
    show ?thesis
    proof (cases "next_source_symbol m1")
      case (Some bi)
      obtain b i where bi: "bi = (b, i)" by fastforce
      obtain o1 flag sh2 m2 where ss: "send_source_symbol (fti_admit inp) b i (sh1, m1) = Some (o1, flag, (sh2, m2))"
        "fec_after_send inp (o1, flag, (sh2, if flag then m2\<lparr>fe_round_source_done_sent := False\<rparr> else m2)) = (out, t)"
        using assms(3) False ne dr Some bi by (auto simp: fec_turn_def split: if_splits)
      have "repair_ok sh2 m2" by (rule repair_ok_send_source [OF ss(1) d1])
      then have "repair_ok sh2 (if flag then m2\<lparr>fe_round_source_done_sent := False\<rparr> else m2)" by simp
      then show ?thesis using ss(2) st by (rule repair_ok_after_send)
    next
      case None
      show ?thesis
      proof (cases "next_extra_symbol m1")
        case none: None
        then have "fec_feedback inp (sh1, m1) = Some (out, t)"
          using assms(3) False ne dr None
          by (cases "has_pending_repair_work m1") (simp_all add: fec_turn_def)
        then show ?thesis using st by (rule repair_ok_feedback [OF d1])
      next
        case (Some bi)
        then show ?thesis
          using assms(3) False ne dr None extra [of "fst bi" "snd bi"]
          by (simp add: fec_turn_def case_prod_unfold)
      qed
    qed
  qed
qed

lemma repair_ok_loop:
  assumes "fec_inv (\<lambda>_ _ _. True) n sh m" "fec_sweep m sent" "n + length inps \<le> 2 ^ 31" "repair_sized repair"
    and "repair_ok sh m" "fec_loop repair inps (sh, m) = Some (out, t)" "turn_state t = (sh', m')"
  shows "repair_ok sh' m'"
  using assms
proof (induction inps arbitrary: n sh m sent out)
  case (Cons inp inps)
  have good: "fec_turn_ok repair (\<lambda>_ _ _. True) (Suc n) sent sh m (fec_turn repair inp (sh, m))"
    using fec_turn_good [OF Cons.prems(1) _ Cons.prems(2,4)] Cons.prems(3) by (simp add: frames_support_anything)
  obtain out1 t1 where turn: "fec_turn repair inp (sh, m) = Some (out1, t1)"
    using Cons.prems(6) by (cases "fec_turn repair inp (sh, m)") auto
  then obtain sh1 m1 where 1: "turn_state t1 = (sh1, m1)"
    and step: "fec_step repair (\<lambda>_ _ _. True) (Suc n) sent sh m out1 sh1 m1"
    using good by (auto simp: fec_turn_ok_def)
  have d1: "repair_ok sh1 m1" by (rule repair_ok_turn [OF Cons.prems(5,1) turn 1])
  show ?case
  proof (cases t1)
    case (TurnFinished oc st)
    then show ?thesis using Cons.prems(6,7) turn 1 d1 by auto
  next
    case (TurnContinue st)
    then obtain out2 where rest: "fec_loop repair inps (sh1, m1) = Some (out2, t)"
      using Cons.prems(6) turn 1 by auto
    have "fec_inv (\<lambda>_ _ _. True) (Suc n) sh1 m1"
      "fec_sweep m1 (\<lambda>b i. sent b i \<or> symbol_sent repair sh m out1 b i)"
      using step by (simp_all add: fec_step_def)
    from Cons.IH [OF this _ Cons.prems(4) d1 rest Cons.prems(7)] Cons.prems(3) show ?thesis by simp
  qed
qed auto

text \<open>Once every report is in, pending repair is within the window.\<close>

lemma pending_below_required:
  assumes "demand_ok m" "has_pending_repair_work m"
  shows "emitted_symbols m < required_symbols m"
proof -
  have "sum_list (map (\<lambda>b. unat (fs_emitted_extra_symbols b)) bs) <
      sum_list (map (\<lambda>b. unat (fs_required_extra_symbols b)) bs)"
    if "list_all (\<lambda>b. fs_emitted_extra_symbols b \<le> fs_required_extra_symbols b) bs"
      "list_ex (\<lambda>b. fs_emitted_extra_symbols b < fs_required_extra_symbols b) bs" for bs :: "FecSendBlock list"
    using that
  proof (induction bs)
    case (Cons b bs)
    have le: "sum_list (map (\<lambda>b. unat (fs_emitted_extra_symbols b)) bs) \<le>
        sum_list (map (\<lambda>b. unat (fs_required_extra_symbols b)) bs)"
      using Cons.prems(1) by (intro sum_list_mono) (auto simp: list_all_iff word_le_nat_alt)
    show ?case
    proof (cases "fs_emitted_extra_symbols b < fs_required_extra_symbols b")
      case True
      then show ?thesis using le by (simp add: word_less_nat_alt add_less_le_mono)
    next
      case False
      then show ?thesis using Cons by (simp add: word_le_nat_alt add_le_less_mono)
    qed
  qed simp
  then show ?thesis
    using assms by (simp add: demand_ok_def has_pending_repair_work_def emitted_symbols_def required_symbols_def)
qed

lemma repair_ok_start:
  assumes "fec_sender_new (ss_manifest sh) (ss_plan sh) = Inr m" "q_frozen (ss_quorum sh)"
  shows "repair_ok sh m"
proof -
  have "fe_blocks m = replicate (unat (bp_total_blocks (ss_plan sh))) \<lparr>fs_next_source_symbol = 0,
      fs_next_fountain_symbol = ucast (fe_symbols_per_block m), fs_required_extra_symbols = 0,
      fs_emitted_extra_symbols = 0, fs_encoder = None\<rparr>"
    "fe_round_reports m = []" "fe_repair_window_symbols m = 0"
    using assms(1) by (auto simp: fec_sender_new_def split: LosslessSessionMode.splits sum.splits)
  then show ?thesis
    using assms(2) by (simp add: repair_ok_def demand_ok_def window_ok_def window_simps sum_list_replicate list_all_length)
qed

text \<open>The window of a sender whose numbers are in order, when the product does not saturate.\<close>

lemma window_ok_no_reports:
  assumes "window_ok sh m" "fe_round_reports m = []"
  shows "required_symbols m = 0"
proof -
  have "\<forall>i < length (fe_blocks m). unat (fs_required_extra_symbols (fe_blocks m ! i)) = 0"
    using assms by (simp add: window_ok_def)
  then have z: "map (\<lambda>b. unat (fs_required_extra_symbols b)) (fe_blocks m) = replicate (length (fe_blocks m)) 0"
    by (intro nth_equalityI) simp_all
  show ?thesis unfolding required_symbols_def z by (simp add: sum_list_replicate)
qed

lemma window_ok_value:
  assumes "window_ok sh m" "required_symbols m * length (fe_round_reports m) < 2 ^ 32"
    and "length (fe_round_reports m) \<le> card (q_active (ss_quorum sh))" "card (q_active (ss_quorum sh)) < 2 ^ 32"
  shows "unat (fe_repair_window_symbols m) =
    min (nat_div_ceil (required_symbols m * length (fe_round_reports m)) (card (q_active (ss_quorum sh))))
      (required_symbols m)"
proof (cases "fe_round_reports m = []")
  case True
  then have "unat (fe_repair_window_symbols m) = 0"
    using assms(1) by (simp add: window_ok_def window_simps u32_clamp_def)
  then show ?thesis using window_ok_no_reports [OF assms(1) True] by simp
next
  case False
  then have "fe_repair_window_symbols m = fe_repair_window_symbols (recalculate_repair_window sh m)"
    "0 < length (fe_round_reports m)"
    using assms(1) by (simp_all add: window_ok_def)
  then show ?thesis using repair_window_value [OF assms(2) _ assms(3,4)] by simp
qed

lemma pending_in_window:
  assumes "demand_ok m" "has_pending_repair_work m" "unat (fe_repair_window_symbols m) = required_symbols m"
  shows "next_extra_symbol m \<noteq> None"
proof -
  note lt = pending_below_required [OF assms(1,2)]
  have "required_symbols m < 2 ^ 32" using assms(3) unat_u32_bound by metis
  then have "unat (total_emitted_extra_symbols m) = emitted_symbols m"
    using unat_total_emitted lt by simp
  then have "\<not> fe_repair_window_symbols m \<le> total_emitted_extra_symbols m"
    using lt assms(3) by (simp add: word_le_nat_alt)
  moreover have "first_block (\<lambda>b. fs_emitted_extra_symbols b < fs_required_extra_symbols b) 0 (fe_blocks m) \<noteq> None"
    using assms(2) by (auto simp: first_block_None has_pending_repair_work_def list_ex_iff)
  ultimately show ?thesis by (simp add: next_extra_symbol_def)
qed

text \<open>C36. Repair is bounded by the demand and paced by the reports.  At every point of a run no
  block has been sent more repair symbols than it owes.  Unless the sender has seen a report of the
  wrong kind, after which it stops, a block owes the largest deficit that the reports of the round
  name for it; the sender's window is the part of the sum of these that corresponds to the part of the
  quorum that has reported, rounded up; and when all of it has reported, pending work is never blocked
  by the window.  The product is assumed to fit 32 bits, as \<open>saturating_mul\<close> would otherwise close
  the window early.\<close>

theorem fec_repair_follows_demand:
  assumes new: "fec_sender_new (ss_manifest sh) (ss_plan sh) = Inr m"
    and ok: "plan_ok (ss_plan sh)" "q_frozen (ss_quorum sh)" "symbol_size (fe_geometry m) < 2 ^ 16"
    and rs: "repair_sized repair" and len: "length inps \<le> 2 ^ 31"
    and run: "fec_run repair inps (sh, m) = Some (out, TurnContinue (sh', m'))"
    and fits: "required_symbols m' * length (fe_round_reports m') < 2 ^ 32" "card (q_active (ss_quorum sh')) < 2 ^ 32"
  shows "list_all (\<lambda>b. fs_emitted_extra_symbols b \<le> fs_required_extra_symbols b) (fe_blocks m') \<and>
    (\<not> fe_protocol_error m' \<longrightarrow>
      (\<forall>i < length (fe_blocks m').
        unat (fs_required_extra_symbols (fe_blocks m' ! i)) = demand (fe_round_reports m') i) \<and>
      unat (fe_repair_window_symbols m') =
        min (nat_div_ceil (required_symbols m' * length (fe_round_reports m')) (card (q_active (ss_quorum sh'))))
          (required_symbols m') \<and>
      (all_reported sh' m' \<and> has_pending_repair_work m' \<longrightarrow> next_extra_symbol m' \<noteq> None))"
proof -
  let ?T = "\<lambda>_ _ _. True"
  have start: "fec_inv ?T 0 sh m" "fec_sweep m (\<lambda>_ _. False)" by (rule fec_start [OF new ok])+
  have r: "repair_ok sh' m'"
    using repair_ok_loop [OF start _ rs repair_ok_start [OF new ok(2)] run [unfolded fec_run_def]] len by simp
  obtain n where "fec_turn_ok repair ?T n (\<lambda>_ _. False) sh m (fec_loop repair inps (sh, m))"
    using fec_loop_good [OF start(1) _ start(2) rs] len by (auto simp: frames_support_anything)
  then have "fec_round_inv ?T sh' m'"
    using run by (auto simp: fec_turn_ok_def fec_run_def fec_step_def fec_inv_def)
  then have le: "length (fe_round_reports m') \<le> card (q_active (ss_quorum sh'))"
    using card_mono [of "q_active (ss_quorum sh')" "fst ` set (fe_round_reports m')"]
      distinct_card [of "map fst (fe_round_reports m')"] by (simp add: fec_round_inv_def)
  have d: "demand_ok m'" using r by (simp add: repair_ok_def)
  have "unat (fe_repair_window_symbols m') = required_symbols m'"
    if "all_reported sh' m'" "has_pending_repair_work m'" "window_ok sh' m'"
  proof -
    have "fe_round_reports m' \<noteq> []"
      using window_ok_no_reports [OF that(3)] pending_below_required [OF d that(2)] by auto
    then have "0 < card (q_active (ss_quorum sh'))"
      using that(1) by (metis all_reported_def length_greater_0_conv)
    then have "nat_div_ceil (required_symbols m' * card (q_active (ss_quorum sh'))) (card (q_active (ss_quorum sh'))) =
        required_symbols m'"
      by (auto simp: nat_div_ceil_def)
    then show ?thesis
      using window_ok_value [OF that(3) fits(1) le fits(2)] that(1) by (simp add: all_reported_def)
  qed
  then show ?thesis
    using d r window_ok_value [OF _ fits(1) le fits(2)] pending_in_window [OF d]
    unfolding repair_ok_def demand_ok_def [symmetric] by (auto simp: window_ok_def)
qed

section \<open>Examples\<close>

definition fec_sender_manifest :: LosslessSessionManifest where
  "fec_sender_manifest = \<lparr>mf_block_size = 4, mf_total_bytes = 4, mf_total_blocks = 1,
     mf_mode = ModeFec (new_raptorq 2 [7])\<rparr>"

definition fec_sender_demo :: "usize set \<Rightarrow> SenderShared" where
  "fec_sender_demo A = demo_shared\<lparr>ss_manifest := fec_sender_manifest,
     ss_plan := \<lparr>bp_total_bytes = 4, bp_block_size = 4, bp_total_blocks = 1\<rparr>,
     ss_source := [1, 2, 3, 4], ss_quorum := \<lparr>q_configured = {7}, q_active = A, q_frozen = True\<rparr>\<rparr>"

definition fecs_input :: FecTurnInput where
  "fecs_input = \<lparr>ti_drained = [], ti_now = 0, ti_wake = TimerFired, ti_wake_now = 0,
     fti_admit = (\<lambda>_. Queued)\<rparr>"

definition fecs_mode :: "u32 \<Rightarrow> (u64 \<times> bytes list) option \<Rightarrow> bytes \<Rightarrow> FecSender" where
  "fecs_mode i cache scratch = \<lparr>fe_blocks = [\<lparr>fs_next_source_symbol = i, fs_next_fountain_symbol = 2,
       fs_required_extra_symbols = 0, fs_emitted_extra_symbols = 0, fs_encoder = None\<rparr>],
     fe_symbols_per_block = 2, fe_tree_ids = [7],
     fe_geometry = \<lparr>sg_symbols_per_block = 2, sg_symbol_size = 2\<rparr>, fe_next_tree_rr = 0,
     fe_current_source_cache = cache, fe_frame_scratch = scratch, fe_round_source_done_sent = False,
     fe_current_round_id = 0, fe_phase = SendingData, fe_round_complete = False, fe_round_reports = [],
     fe_repair_window_symbols = 0, fe_protocol_error = False\<rparr>"

lemma fecs_new:
  "fec_sender_new (ss_manifest (fec_sender_demo A)) (ss_plan (fec_sender_demo A)) = Inr (fecs_mode 0 None [])"
  by (simp add: fec_sender_new_def fec_sender_demo_def fec_sender_manifest_def new_raptorq_def
      symbol_geometry_def symbol_geometry_new_def fecs_mode_def word_div_ceil_def)

lemma fec_sender_demo_facts:
  "plan_ok (ss_plan (fec_sender_demo A))" "q_frozen (ss_quorum (fec_sender_demo A))"
  "symbol_size (fe_geometry (fecs_mode 0 None [])) < 2 ^ 16"
  "bp_total_blocks (ss_plan (fec_sender_demo A)) = 1" "q_active (ss_quorum (fec_sender_demo A)) = A"
  by (simp_all add: fec_sender_demo_def plan_ok_def nat_div_ceil_def fecs_mode_def symbol_size_def)

lemma fecs_symbols: "block_source_symbols [1, 2, 3, 4] \<lparr>sp_offset = 0, sp_len = 4\<rparr>
    \<lparr>sg_symbols_per_block = 2, sg_symbol_size = 2\<rparr> = [[1, 2], [3, 4]]"
proof -
  have "[0 ..< 2] = [0, 1 :: nat]" by (simp add: numeral_2_eq_2)
  moreover have "padded_symbol_bytes [1, 2, 3, 4] \<lparr>sp_offset = 0, sp_len = 4\<rparr>
    \<lparr>sg_symbols_per_block = 2, sg_symbol_size = 2\<rparr> = [1, 2, 3, 4]"
    by (simp add: padded_symbol_bytes_def block_payload_def source_symbols_def symbol_size_def slice_def put_def)
  ultimately show ?thesis
    by (simp add: block_source_symbols_def source_symbols_def symbol_size_def slice_def)
qed

lemma fecs_span: "block_span (ss_plan (fec_sender_demo A)) 0 = Some \<lparr>sp_offset = 0, sp_len = 4\<rparr>"
  by (simp add: fec_sender_demo_def block_span_def block_offset_def block_len_def contains_block_def
      checked_mul_def last_block_id_def checked_sub_def)

lemma fecs_payload:
  assumes "cache = None \<or> cache = Some (0, [[1, 2], [3, 4]])" "i < 2"
  shows "source_symbol_payload (fec_sender_demo A\<lparr>ss_payload_emitted := e\<rparr>) 0 i (fecs_mode i cache scratch) =
    (Some ([[1, 2], [3, 4]] ! unat i), fecs_mode i (Some (0, [[1, 2], [3, 4]])) scratch)"
  using assms fecs_symbols fecs_span
  by (auto simp: source_symbol_payload_def ensure_source_symbol_cache_def fecs_mode_def
      fec_sender_demo_def word_less_nat_alt)

lemma fecs_send:
  "\<exists>out scratch'. try_send_symbol (\<lambda>_. Queued) sh b s p (fecs_mode i cache scratch) =
     Some (out, True, fecs_mode i cache scratch')"
  by (simp add: try_send_symbol_def fecs_mode_def Let_def)

lemma fecs_fields [simp]:
  "\<not> fe_round_complete (fecs_mode i c s)" "\<not> fe_protocol_error (fecs_mode i c s)"
  "(fecs_mode i c s)\<lparr>fe_round_source_done_sent := False\<rparr> = fecs_mode i c s"
  by (simp_all add: fecs_mode_def)

lemma fecs_turn:
  assumes "cache = None \<or> cache = Some (0, [[1, 2], [3, 4]])" "i < 2"
  shows "\<exists>out scratch'. fec_turn plain_repair fecs_input
      (fec_sender_demo A\<lparr>ss_payload_emitted := e\<rparr>, fecs_mode i cache scratch) =
    Some (out, TurnContinue (fec_sender_demo A\<lparr>ss_payload_emitted := True\<rparr>,
      fecs_mode (i + 1) (Some (0, [[1, 2], [3, 4]])) scratch'))"
proof -
  let ?sh = "fec_sender_demo A\<lparr>ss_payload_emitted := e\<rparr>"
  obtain out scratch' where sent: "try_send_symbol (\<lambda>_. Queued) ?sh 0 i ([[1, 2], [3, 4]] ! unat i)
      (fecs_mode i (Some (0, [[1, 2], [3, 4]])) scratch) =
    Some (out, True, fecs_mode i (Some (0, [[1, 2], [3, 4]])) scratch')"
    using fecs_send by blast
  have "next_source_symbol (fecs_mode i cache scratch) = Some (0, i)"
    using assms(2) by (simp add: next_source_symbol_def fecs_mode_def)
  moreover have "send_source_symbol (\<lambda>_. Queued) 0 i (?sh, fecs_mode i cache scratch) =
      Some (out, True, (fec_sender_demo A\<lparr>ss_payload_emitted := True\<rparr>,
        fecs_mode (i + 1) (Some (0, [[1, 2], [3, 4]])) scratch'))"
    using sent fecs_payload [OF assms]
    by (simp add: send_source_symbol_def mark_payload_emitted_def)
      (simp add: fecs_mode_def fec_block_update_def)
  ultimately have "fec_turn plain_repair fecs_input (?sh, fecs_mode i cache scratch) =
      Some (out, TurnContinue (fec_sender_demo A\<lparr>ss_payload_emitted := True\<rparr>,
        fecs_mode (i + 1) (Some (0, [[1, 2], [3, 4]])) scratch'))"
    by (simp add: fec_turn_def fecs_input_def drain_controls_def fec_after_send_def)
  then show ?thesis by blast
qed

text \<open>Two turns send the block; the third sends \<open>SourceDone\<close>.\<close>

lemma fecs_two_turns:
  obtains out scratch where "fec_loop plain_repair (fecs_input # fecs_input # inps)
      (fec_sender_demo A, fecs_mode 0 None []) =
    map_option (\<lambda>(out', r). (out @ out', r)) (fec_loop plain_repair inps
      (fec_sender_demo A\<lparr>ss_payload_emitted := True\<rparr>, fecs_mode 2 (Some (0, [[1, 2], [3, 4]])) scratch))"
proof -
  have start: "fec_sender_demo A = fec_sender_demo A\<lparr>ss_payload_emitted := False\<rparr>"
    by (simp add: fec_sender_demo_def demo_shared_def)
  obtain o1 s1 where 1: "fec_turn plain_repair fecs_input (fec_sender_demo A, fecs_mode 0 None []) =
      Some (o1, TurnContinue (fec_sender_demo A\<lparr>ss_payload_emitted := True\<rparr>,
        fecs_mode 1 (Some (0, [[1, 2], [3, 4]])) s1))"
    using fecs_turn [where cache = None and i = 0 and A = A and e = False and scratch = "[]"] unfolding start [symmetric] by auto
  obtain o2 s2 where 2: "fec_turn plain_repair fecs_input (fec_sender_demo A\<lparr>ss_payload_emitted := True\<rparr>,
        fecs_mode 1 (Some (0, [[1, 2], [3, 4]])) s1) =
      Some (o2, TurnContinue (fec_sender_demo A\<lparr>ss_payload_emitted := True\<rparr>,
        fecs_mode 2 (Some (0, [[1, 2], [3, 4]])) s2))"
    using fecs_turn [where cache = "Some (0, [[1, 2], [3, 4]])" and i = 1 and A = A and e = True and scratch = s1] by auto
  show thesis
    by (rule that [of "o1 @ o2" s2]) (simp add: 1 2 option.map_comp comp_def case_prod_unfold)
qed

definition fecs_waiting :: "(u64 \<times> bytes list) option \<Rightarrow> bytes \<Rightarrow> FecSender" where
  "fecs_waiting c s = (fecs_mode 2 c s)\<lparr>fe_phase := WaitingForReports, fe_round_source_done_sent := True\<rparr>"

lemma fecs_third_turn:
  "\<exists>out. fec_turn plain_repair fecs_input (fec_sender_demo A\<lparr>ss_payload_emitted := True\<rparr>, fecs_mode 2 c s) =
    Some (out, if A = {} then TurnFinished Completed (fec_sender_demo A\<lparr>ss_payload_emitted := True\<rparr>,
        (fecs_waiting c s)\<lparr>fe_round_complete := True\<rparr>)
      else TurnContinue (start_quorum_feedback_wait 0 (fec_sender_demo A\<lparr>ss_payload_emitted := True\<rparr>),
        fecs_waiting c s))"
  by (auto simp: fec_turn_def fecs_input_def drain_controls_def fecs_mode_def next_source_symbol_def
      next_extra_symbol_def has_pending_repair_work_def fec_feedback_def begin_report_round_def
      send_source_done_def sender_route_def send_control_eq active_quorum_is_empty_def
      fec_sender_demo_def fecs_waiting_def)

lemma fec_sender_completion_witness:
  "\<exists>out st. fec_run plain_repair [fecs_input, fecs_input, fecs_input]
     (fec_sender_demo {}, fecs_mode 0 None []) = Some (out, TurnFinished Completed st) \<and>
     symbol_sent plain_repair (fec_sender_demo {}) (fecs_mode 0 None []) out 0 1"
proof -
  obtain out st where run: "fec_run plain_repair [fecs_input, fecs_input, fecs_input]
     (fec_sender_demo {}, fecs_mode 0 None []) = Some (out, TurnFinished Completed st)"
  proof (rule fecs_two_turns [of "[fecs_input]" "{}"])
    fix out scratch
    assume 2: "fec_loop plain_repair [fecs_input, fecs_input, fecs_input] (fec_sender_demo {}, fecs_mode 0 None []) =
      map_option (\<lambda>(out', r). (out @ out', r)) (fec_loop plain_repair [fecs_input]
        (fec_sender_demo {}\<lparr>ss_payload_emitted := True\<rparr>, fecs_mode 2 (Some (0, [[1, 2], [3, 4]])) scratch))"
    obtain out3 where "fec_turn plain_repair fecs_input (fec_sender_demo {}\<lparr>ss_payload_emitted := True\<rparr>,
        fecs_mode 2 (Some (0, [[1, 2], [3, 4]])) scratch) = Some (out3, TurnFinished Completed
          (fec_sender_demo {}\<lparr>ss_payload_emitted := True\<rparr>,
          (fecs_waiting (Some (0, [[1, 2], [3, 4]])) scratch)\<lparr>fe_round_complete := True\<rparr>))"
      using fecs_third_turn [of "{}" "Some (0, [[1, 2], [3, 4]])" scratch] by auto
    then show thesis using that 2 by (simp add: fec_run_def)
  qed
  have sent: "\<forall>b < bp_total_blocks (ss_plan (fec_sender_demo {})).
      \<forall>i. unat i < unat (fe_symbols_per_block (fecs_mode 0 None [])) \<longrightarrow>
        symbol_sent plain_repair (fec_sender_demo {}) (fecs_mode 0 None []) out b i"
    using fec_sender_completion [OF fecs_new fec_sender_demo_facts(1-3) plain_repair_sized,
        of "[fecs_input, fecs_input, fecs_input]" "{}"] run by simp
  have "unat (1 :: u32) < unat (fe_symbols_per_block (fecs_mode 0 None []))"
    "(0 :: u64) < bp_total_blocks (ss_plan (fec_sender_demo {}))"
    by (simp_all add: fecs_mode_def fec_sender_demo_facts(4))
  then have "symbol_sent plain_repair (fec_sender_demo {}) (fecs_mode 0 None []) out 0 1"
    using sent by blast
  then show ?thesis using run by blast
qed

text \<open>A fourth turn in which the only quorum member asks for a repair symbol.\<close>

definition fecs_request :: InboundFrame where
  "fecs_request = \<lparr>if_bytes = control_frame 9
     (Need 0 (NeedFec [\<lparr>nb_block_id = 0, nb_deficit_symbols = 1\<rparr>])), if_peer_id = Some 7\<rparr>"

definition fecs_request_input :: FecTurnInput where
  "fecs_request_input = fecs_input\<lparr>ti_wake := RecvFrame fecs_request\<rparr>"

lemma fecs_request_valid:
  "validate_control fec_sender_manifest (Need 0 (NeedFec [\<lparr>nb_block_id = 0, nb_deficit_symbols = 1\<rparr>])) = Inr ()"
proof -
  have "manifest_ok fec_sender_manifest"
    by (simp add: manifest_ok_def fec_sender_manifest_def new_raptorq_def nat_div_ceil_def
        fec_mode_ok_def scheme_kind_def scheme_from_wire_def MAX_MANIFEST_TREE_IDS_def)
  moreover have "control_ok (Need 0 (NeedFec [\<lparr>nb_block_id = 0, nb_deficit_symbols = 1\<rparr>]))"
    by (simp add: MAX_NEED_BLOCKS_def need_blocks_ok_def)
  ultimately show ?thesis
    by (simp add: validate_control_def and_then_eq_Inr manifest_validate_iff control_validate_iff
        validate_need_report_iff report_within_def report_fits_mode_def MAX_NEED_BLOCKS_def
        need_blocks_ok_def fec_sender_manifest_def new_raptorq_def
        del: control_ok.simps control_validate.simps)
qed

lemma fecs_request_turn:
  fixes sh :: SenderShared
  assumes "sh = fec_sender_demo {7}\<lparr>ss_payload_emitted := True\<rparr>"
  shows "fec_turn plain_repair fecs_request_input (start_quorum_feedback_wait 0 sh, fecs_waiting c s) =
    Some ([], TurnContinue (start_quorum_feedback_wait 0 sh, (fecs_waiting c s)
      \<lparr>fe_blocks := [\<lparr>fs_next_source_symbol = 2, fs_next_fountain_symbol = 2,
         fs_required_extra_symbols = 1, fs_emitted_extra_symbols = 0, fs_encoder = None\<rparr>],
       fe_round_reports := [(7, NeedFec [\<lparr>nb_block_id = 0, nb_deficit_symbols = 1\<rparr>])],
       fe_repair_window_symbols := 1\<rparr>))"
proof -
  have dec: "decode_control (if_bytes fecs_request) =
     Some (session_header KindControl 6 9 (word_of_nat (control_body_len
         (Need 0 (NeedFec [\<lparr>nb_block_id = 0, nb_deficit_symbols = 1\<rparr>])))),
       Need 0 (NeedFec [\<lparr>nb_block_id = 0, nb_deficit_symbols = 1\<rparr>]))"
    using decode_control_frame [of "Need 0 (NeedFec [\<lparr>nb_block_id = 0, nb_deficit_symbols = 1\<rparr>])" 9]
    by (simp add: fecs_request_def MAX_NEED_BLOCKS_def need_blocks_ok_def)
  have peer: "if_peer_id fecs_request = Some 7" by (simp add: fecs_request_def)
  have sh: "ss_manifest sh = fec_sender_manifest" "q_active (ss_quorum sh) = {7}"
    by (simp_all add: assms fec_sender_demo_def)
  have need: "handle_control fec_on_need fecs_request (start_quorum_feedback_wait 0 sh, fecs_waiting c s) =
      fec_on_need (start_quorum_feedback_wait 0 sh) 7 0
        (NeedFec [\<lparr>nb_block_id = 0, nb_deficit_symbols = 1\<rparr>]) (fecs_waiting c s)"
    using fecs_request_valid by (simp add: handle_control_def dec peer sh start_quorum_feedback_wait_def)
  have on: "fec_on_need (start_quorum_feedback_wait 0 sh) 7 0
        (NeedFec [\<lparr>nb_block_id = 0, nb_deficit_symbols = 1\<rparr>]) (fecs_waiting c s) =
     (start_quorum_feedback_wait 0 sh, (fecs_waiting c s)
      \<lparr>fe_blocks := [\<lparr>fs_next_source_symbol = 2, fs_next_fountain_symbol = 2,
         fs_required_extra_symbols = 1, fs_emitted_extra_symbols = 0, fs_encoder = None\<rparr>],
       fe_round_reports := [(7, NeedFec [\<lparr>nb_block_id = 0, nb_deficit_symbols = 1\<rparr>])],
       fe_repair_window_symbols := 1\<rparr>)"
    by (simp add: fec_on_need_def fecs_waiting_def fecs_mode_def fec_block_update_def Let_def
        recalculate_repair_window_def total_required_extra_symbols_def start_quorum_feedback_wait_def
        sh u32_clamp_def saturating_mul_def word_div_ceil_def all_reported_def has_pending_repair_work_def)
  have "timeout_at (ss_liveness (start_quorum_feedback_wait 0 sh)) \<noteq> None"
    by (simp add: start_quorum_feedback_wait_def liveness_start_def timeout_at_def)
  then have "wait_for_quorum_feedback fec_on_need 0 (RecvFrame fecs_request) 0
      (start_quorum_feedback_wait 0 sh, fecs_waiting c s) =
    Some ([], WaitControl, handle_control fec_on_need fecs_request (start_quorum_feedback_wait 0 sh, fecs_waiting c s))"
    by (auto simp: wait_for_quorum_feedback_def)
  moreover have "fe_current_round_id (fecs_waiting c s) = 0" "\<not> fe_round_complete (fecs_waiting c s)"
    "\<not> fe_protocol_error (fecs_waiting c s)" "fe_round_source_done_sent (fecs_waiting c s)"
    "next_source_symbol (fecs_waiting c s) = None" "next_extra_symbol (fecs_waiting c s) = None"
    "\<not> all_reported (start_quorum_feedback_wait 0 sh) (fecs_waiting c s)"
    "\<not> has_pending_repair_work (fecs_waiting c s)"
    by (simp_all add: has_pending_repair_work_def fecs_waiting_def fecs_mode_def next_source_symbol_def next_extra_symbol_def
        all_reported_def start_quorum_feedback_wait_def sh)
  ultimately show ?thesis
    by (simp add: fec_turn_def fecs_request_input_def fecs_input_def drain_controls_def fec_feedback_def need on)
qed

lemma fec_repair_follows_demand_witness:
  "\<exists>out sh m. fec_run plain_repair [fecs_input, fecs_input, fecs_input, fecs_request_input]
     (fec_sender_demo {7}, fecs_mode 0 None []) = Some (out, TurnContinue (sh, m)) \<and>
     \<not> fe_protocol_error m \<and> required_symbols m = 1 \<and> demand (fe_round_reports m) 0 = 1 \<and>
     unat (fe_repair_window_symbols m) = 1"
proof (rule fecs_two_turns [of "[fecs_input, fecs_request_input]" "{7}"])
  fix out scratch
  let ?sh = "fec_sender_demo {7}\<lparr>ss_payload_emitted := True\<rparr>" and ?c = "Some (0, [[1, 2], [3, 4]]) :: (u64 \<times> bytes list) option"
  let ?m = "(fecs_waiting ?c scratch)
      \<lparr>fe_blocks := [\<lparr>fs_next_source_symbol = 2, fs_next_fountain_symbol = 2,
         fs_required_extra_symbols = 1, fs_emitted_extra_symbols = 0, fs_encoder = None\<rparr>],
       fe_round_reports := [(7, NeedFec [\<lparr>nb_block_id = 0, nb_deficit_symbols = 1\<rparr>])],
       fe_repair_window_symbols := 1\<rparr>"
  assume 2: "fec_loop plain_repair [fecs_input, fecs_input, fecs_input, fecs_request_input]
      (fec_sender_demo {7}, fecs_mode 0 None []) =
    map_option (\<lambda>(out', r). (out @ out', r)) (fec_loop plain_repair [fecs_input, fecs_request_input]
      (?sh, fecs_mode 2 ?c scratch))"
  obtain out3 where 3: "fec_turn plain_repair fecs_input (?sh, fecs_mode 2 ?c scratch) =
      Some (out3, TurnContinue (start_quorum_feedback_wait 0 ?sh, fecs_waiting ?c scratch))"
    using fecs_third_turn [of "{7}" ?c scratch] by auto
  have run: "fec_run plain_repair [fecs_input, fecs_input, fecs_input, fecs_request_input]
      (fec_sender_demo {7}, fecs_mode 0 None []) =
    Some (out @ out3, TurnContinue (start_quorum_feedback_wait 0 ?sh, ?m))"
    unfolding fec_run_def 2 by (simp add: 3 fecs_request_turn)
  let ?sh' = "start_quorum_feedback_wait 0 ?sh"
  have m: "required_symbols ?m = 1" "length (fe_round_reports ?m) = 1" "\<not> fe_protocol_error ?m"
    "card (q_active (ss_quorum ?sh')) = 1" "length (fe_blocks ?m) = 1"
    "unat (fs_required_extra_symbols (fe_blocks ?m ! 0)) = 1"
    by (simp_all add: required_symbols_def start_quorum_feedback_wait_def fec_sender_demo_def fecs_waiting_def
        fecs_mode_def)
  have len: "length [fecs_input, fecs_input, fecs_input, fecs_request_input] \<le> 2 ^ 31"
    and fits: "required_symbols ?m * length (fe_round_reports ?m) < 2 ^ 32"
      "card (q_active (ss_quorum ?sh')) < 2 ^ 32"
    by (simp_all only: m) simp_all
  note follows = fec_repair_follows_demand [OF fecs_new fec_sender_demo_facts(1-3) plain_repair_sized len run fits]
  have "unat (fs_required_extra_symbols (fe_blocks ?m ! 0)) = demand (fe_round_reports ?m) 0"
    using conjunct2 [OF follows] m(3,5) by (metis less_one)
  moreover have "unat (fe_repair_window_symbols ?m) =
      min (nat_div_ceil (required_symbols ?m * length (fe_round_reports ?m)) (card (q_active (ss_quorum ?sh'))))
        (required_symbols ?m)"
    using conjunct2 [OF follows] m(3) by blast
  ultimately have "demand (fe_round_reports ?m) 0 = 1 \<and> unat (fe_repair_window_symbols ?m) = 1"
    unfolding m by (simp add: nat_div_ceil_def)
  then show ?thesis using run m(1,3) by blast
qed

end
