(* ===== verification/Protocol.thy ===== *)
theory Protocol
  imports Fec_Sender Receiver
begin

text \<open>
  A whole session: the sender task (\<open>sender/mod.rs\<close>: handshake, then the loop of the mode),
  one receiver task per node (\<open>receiver/mod.rs\<close>) and the network between them.  The network
  may lose, duplicate, delay and reorder frames, but every frame a task reads was written by the
  task it is attributed to.  \<open>world_step\<close> interleaves the iterations of all tasks in any order.
  What a mode owes the session is the locale \<open>sender_protocol\<close>, interpreted for both modes.
\<close>

section \<open>A receiver never forgets\<close>

lemma complete_block_grows:
  "complete_block b block (m, sh) = (m', sh') \<Longrightarrow> rs_complete_blocks sh \<subseteq> rs_complete_blocks sh'"
  by (auto simp: complete_block_def Let_def)

lemma try_decode_grows:
  assumes "try_decode_fec_block can_reserve solve b fec (m, sh) = Some (ok, m', sh')"
  shows "rs_complete_blocks sh \<subseteq> rs_complete_blocks sh'"
  using assms
  by (auto simp: try_decode_fec_block_def Let_def dest!: complete_block_grows
      split: option.splits if_splits)

lemma handle_block_symbol_frame_grows:
  assumes "handle_block_symbol_frame can_reserve solve f (m, sh) = Some (m', sh')"
  shows "rs_complete_blocks sh \<subseteq> rs_complete_blocks sh'"
proof (cases "\<exists>manifest fec. rs_manifest sh = Some manifest \<and> mf_mode manifest = ModeFec fec")
  case False
  then show ?thesis
    using assms by (auto simp: handle_block_symbol_frame_def
        split: option.splits LosslessSessionMode.splits)
next
  case True
  then obtain manifest fec where "rs_manifest sh = Some manifest" "mf_mode manifest = ModeFec fec"
    by blast
  then show ?thesis
  proof (cases rule: handle_block_symbol_frame_cases
      [where f = f and m = m and can_reserve = can_reserve and solve = solve])
    case 1
    then show ?thesis using assms by simp
  next
    case (2 hdr sym p)
    obtain ok where "try_decode_fec_block can_reserve solve (bs_block_id sym) fec
        (hold_symbol (bs_block_id sym) (bs_symbol_id sym) p m, mark_first_payload_unit sh) =
          Some (ok, m', sh')"
      using assms 2(4) by auto
    from try_decode_grows [OF this] show ?thesis by simp
  qed
qed

definition receiver_grows :: "SessionReceiver \<Rightarrow> SessionReceiver \<Rightarrow> bool" where
  "receiver_grows s s' \<longleftrightarrow>
     rs_complete_blocks (sr_shared s) \<subseteq> rs_complete_blocks (sr_shared s') \<and>
     (sr_mode s \<noteq> None \<longrightarrow> sr_mode s' \<noteq> None)"

lemma receiver_grows_simps [simp]:
  "receiver_grows s s"
  "receiver_grows s (finish_receiver s)"
  "receiver_grows s (enter_passive_complete s') \<longleftrightarrow> receiver_grows s s'"
  by (simp_all add: receiver_grows_def finish_receiver_def enter_passive_complete_def
      mark_object_complete_def)

lemma handle_control_frame_grows:
  assumes "handle_control_frame can_reserve f s = Some (out, s')" "mode_wf s"
  shows "receiver_grows s s'"
proof -
  have install: "receiver_grows s s'" if i: "install_manifest can_reserve m s = Some (out, s')" for m
    using i
  proof (cases rule: install_manifest_cases)
    case (3 plan mode sh)
    then show ?thesis
      using assms(2) ensure_sink_fields(2) [OF 3(4)] by (simp add: receiver_grows_def)
  qed simp_all
  have "receiver_grows s s'" if "mode_source_done r s = Some (out, s')" for r
    using that by (auto simp: mode_source_done_def receiver_grows_def
        split: option.splits ReceiverMode.splits)
  then show ?thesis
    using assms(1) install
    by (auto simp: handle_control_frame_def split: option.splits LosslessSessionControl.splits)
qed

lemma receiver_turn_grows:
  assumes "receiver_turn can_reserve solve w s = Some (out, s', fin)" "mode_wf s"
  shows "receiver_grows s s'"
proof -
  have data: "receiver_grows s (handle_block_data_frame f s)" for f
    using plain_handle_block_data_grows(1) [of "sr_shared s" f]
    by (simp add: handle_block_data_frame_def receiver_grows_def split: option.split ReceiverMode.split)
  have symbol: "receiver_grows s s2" if "handle_symbol_frame can_reserve solve f s = Some s2" for f s2
    using that
    by (auto simp: handle_symbol_frame_def receiver_grows_def dest!: handle_block_symbol_frame_grows
        split: option.splits ReceiverMode.splits)
  have dispatch: "receiver_grows s s2" if "receiver_dispatch can_reserve solve f s = Some (o', s2)" for f o' s2
    using that assms(2) data symbol
    by (auto simp: receiver_dispatch_def split: if_splits dest!: handle_control_frame_grows)
  show ?thesis
    using assms(1) dispatch
    by (auto simp: receiver_turn_def receiver_frame_dispatch split: Wake.splits if_splits)
qed

text \<open>Outside FEC mode the RaptorQ solver is never called.\<close>

lemma receiver_turn_solver:
  assumes "\<forall>m. sr_mode s \<noteq> Some (FecMode m)"
  shows "receiver_turn can_reserve solve w s = receiver_turn can_reserve solve' w s"
proof -
  have "handle_symbol_frame can_reserve x f s = Some s" for x f
    using assms by (auto simp: handle_symbol_frame_def split: option.splits ReceiverMode.splits)
  then show ?thesis by (simp add: receiver_turn_def receiver_frame_def split: Wake.split)
qed

section \<open>What an answer proves\<close>

definition object_delivered :: "SessionReceiver \<Rightarrow> bool" where
  "object_delivered s \<longleftrightarrow> sr_mode s \<noteq> None \<and> object_held (sr_shared s)"

lemma receiver_turn_session_inv:
  assumes "repair_sized repair" "symbols_small mf plan" "is_fec (mf_mode mf) \<Longrightarrow> raptorq_sound repair solve"
    and mf: "block_plan_new (mf_total_bytes mf) (ucast (mf_block_size mf)) = Inr plan" "manifest_ok mf"
    and inv: "session_inv repair src mf plan s" and w: "wake_genuine repair src mf plan w"
    and turn: "receiver_turn can_reserve solve w s = Some (out, s', fin)"
  shows "session_inv repair src mf plan s'"
proof (cases "is_fec (mf_mode mf)")
  case True
  then show ?thesis
    using receiver_turn_inv [OF assms(3,1,2) mf inv w, of can_reserve] turn by blast
next
  case False
  have "\<forall>m. sr_mode s \<noteq> Some (FecMode m)"
    using inv False by (auto simp: session_inv_def fec_receiver_inv_def)
  from receiver_turn_solver [OF this]
  have "receiver_turn can_reserve (\<lambda>_ _ _. None) w s = Some (out, s', fin)" using turn by metis
  moreover have "raptorq_sound repair (\<lambda>_ _ _. None)" by (simp add: raptorq_sound_def)
  ultimately show ?thesis
    using receiver_turn_inv [OF _ assms(1,2) mf inv w, of "\<lambda>_ _ _. None" can_reserve] by blast
qed

lemma object_delivered_grows:
  assumes "object_delivered s" "receiver_grows s s'"
    and "session_inv repair src mf plan s" "session_inv repair src mf plan s'"
  shows "object_delivered s'"
proof -
  have "sr_mode s' \<noteq> None" using assms(1,2) by (simp add: object_delivered_def receiver_grows_def)
  then show ?thesis
    using assms object_held_mono [of "sr_shared s" "sr_shared s'"]
      session_inv_bounded [OF assms(3)] session_inv_bounded [OF assms(4)]
    by (simp add: object_delivered_def receiver_grows_def session_inv_def)
qed

lemma need_of_in_needs:
  "f \<in> snd ` set out \<Longrightarrow> need_of f = Some x \<Longrightarrow> x \<in> set (needs out)"
  by (force simp: needs_def List.map_filter_def)

lemma complete_answer_delivered:
  assumes "answers_step s out s'" "session_inv repair src mf plan s'"
    and "f \<in> snd ` set out" "need_of f = Some (r, NeedComplete)"
  shows "object_delivered s'"
proof -
  have "(r, NeedComplete) \<in> set (needs out)" using assms(3,4) by (rule need_of_in_needs)
  then obtain rep where rep: "canonical_report rep = NeedComplete" "mode_last s' = Some (r, rep)"
    using assms(1) by (auto simp: answers_step_def)
  then have "object_held (sr_shared s')" using assms(2) unfolding session_inv_def by blast
  moreover have "sr_mode s' \<noteq> None" using rep(2) by (auto simp: mode_last_def split: option.splits)
  ultimately show ?thesis by (simp add: object_delivered_def)
qed

text \<open>The object in the sink.\<close>

definition sink_correct :: "bytes \<Rightarrow> LosslessSessionManifest \<Rightarrow> SessionReceiver \<Rightarrow> bool" where
  "sink_correct src mf s \<longleftrightarrow> (case rs_sink_buffer (sr_shared s) of
     None \<Rightarrow> True
   | Some sink \<Rightarrow> take (unat (mf_total_bytes mf)) sink = padded_source (unat (mf_total_bytes mf)) src)"

lemma delivered_sink:
  assumes "object_delivered s" "session_inv repair src mf plan s"
  shows "sink_correct src mf s"
proof -
  have st: "rs_plan (sr_shared s) = Some plan" "rs_manifest (sr_shared s) = Some mf"
    "receiver_inv src (sr_shared s)"
    using assms by (simp_all add: object_delivered_def session_inv_def)
  have "rs_complete_blocks (sr_shared s) = {b. b < bp_total_blocks plan}"
    using assms object_held_iff [OF session_inv_bounded [OF assms(2)] st(1)]
    by (simp add: object_delivered_def)
  then have all: "\<forall>b < bp_total_blocks plan. b \<in> rs_complete_blocks (sr_shared s)" by simp
  obtain m where "rs_manifest (sr_shared s) = Some m" "bp_total_bytes plan = mf_total_bytes m"
    by (rule receiver_inv_plan [OF st(3,1)])
  then have "bp_total_bytes plan = mf_total_bytes mf" using st(2) by simp
  then show ?thesis
    using receiver_inv_all_blocks [OF st(3,1) _ all] by (simp add: sink_correct_def split: option.split)
qed

section \<open>Frames of the sender are genuine\<close>

lemma block_frames_not_control [simp]:
  "decode_control (block_data_bytes s b p) = None"
  "decode_control (encode_block_symbol s b i t p) = None"
  "decode_block_symbol (block_data_bytes s b p) = None"
  by (simp_all add: decode_control_def decode_block_symbol_def decode_from_block_bytes
      encode_block_symbol_def encode_block_symbol_into_layout session_header_def)

lemma source_done_genuine: "frame_genuine repair src mf plan (control_frame s (SourceDone r))"
  using decode_control_frame [of "SourceDone r" s]
  by (simp add: frame_genuine_def genuine_data_def genuine_symbol_frame_def)

lemma manifest_genuine:
  "manifest_ok mf \<Longrightarrow> frame_genuine repair src mf plan (control_frame s (Manifest mf))"
  using decode_control_frame [of "Manifest mf" s]
  by (simp add: frame_genuine_def genuine_data_def genuine_symbol_frame_def)

lemma block_frame_genuine:
  assumes "own_block_frame sh b f"
  shows "frame_genuine repair (ss_source sh) mf (ss_plan sh) f"
proof -
  obtain span where span: "block_span (ss_plan sh) b = Some span"
    and f: "f = block_data_bytes (ss_session_id sh) b (block_payload (ss_source sh) span)"
    and len: "unat (sp_len span) < 2 ^ 32 - 8"
    using assms by (auto simp: own_block_frame_def)
  have "length (block_payload (ss_source sh) span) < 2 ^ 32 - 8"
    using len by simp
  from decode_block_data_bytes [OF this] show ?thesis
    by (simp add: f frame_genuine_def genuine_data_def genuine_symbol_frame_def span)
qed

lemma symbol_frame_genuine:
  assumes "own_symbol repair sh m b i p" "length p < 2 ^ 32 - 16"
    and "mf_mode mf = ModeFec fec" "fm_symbols_per_block fec = fe_symbols_per_block m"
    and "symbol_geometry (ss_plan sh) (fe_symbols_per_block m) = Inr (fe_geometry m)"
  shows "frame_genuine repair (ss_source sh) mf (ss_plan sh) (encode_block_symbol s b i t p)"
  using assms block_symbol_encode(2,3) [OF assms(2)]
  by (auto simp: frame_genuine_def genuine_data_def genuine_symbol_frame_def genuine_symbols_def
      own_symbol_def)

lemma send_manifest_genuine:
  "send_manifest sh = Some out \<Longrightarrow>
     \<forall>f\<in>snd ` set out. frame_genuine repair (ss_source sh) (ss_manifest sh) (ss_plan sh) f"
  by (auto simp: send_manifest_def sender_route_def send_control_eq manifest_genuine split: if_splits)

lemma sender_frame_genuine:
  "sender_frame sh f \<Longrightarrow> frame_genuine repair (ss_source sh) (ss_manifest sh) (ss_plan sh) f"
  by (auto simp: sender_frame_def source_done_genuine block_frame_genuine)

section \<open>The world\<close>

text \<open>\<open>Handshake next\<close> is the loop of \<open>negotiate_ready\<close> with the time of the next manifest;
  \<open>Sending\<close> the loop of the mode; \<open>SenderOver\<close> the task after its return.  \<open>w_sent\<close> and
  \<open>w_answers p\<close> are the frames the sender and receiver \<open>p\<close> ever wrote, \<open>w_turns\<close> counts the
  iterations of the mode's loop.\<close>

datatype 'm SenderPhase =
    Handshake nat "SenderShared \<times> 'm"
  | Sending "SenderShared \<times> 'm"
  | SenderOver SessionOutcome SenderShared

record 'm World =
  w_sender :: "'m SenderPhase"
  w_sent :: "bytes set"
  w_turns :: nat
  w_receivers :: "usize \<Rightarrow> SessionReceiver"
  w_answers :: "usize \<Rightarrow> bytes set"

type_synonym 'm turns = "TurnInput \<Rightarrow> SenderShared \<times> 'm \<Rightarrow> outputs \<Rightarrow> 'm Turn \<Rightarrow> bool"

definition plain_turns :: "PlainSender turns" where
  "plain_turns inp st out t \<longleftrightarrow> plain_turn inp st = Some (out, t)"

definition fec_turns :: "repair \<Rightarrow> FecSender turns" where
  "fec_turns repair inp st out t \<longleftrightarrow> (\<exists>admit.
     fec_turn repair (TurnInput.extend inp (FecTurnInput.fields admit)) st = Some (out, t))"

definition plain_open :: "SenderShared \<times> PlainSender \<Rightarrow> SenderShared \<times> PlainSender" where
  "plain_open st = (fst st, ensure_initial_round (fst st) (snd st))"

definition frame_authentic :: "'m World \<Rightarrow> InboundFrame \<Rightarrow> bool" where
  "frame_authentic w f \<longleftrightarrow> (\<forall>p. if_peer_id f = Some p \<longrightarrow> if_bytes f \<in> w_answers w p)"

definition wake_authentic :: "'m World \<Rightarrow> Wake \<Rightarrow> bool" where
  "wake_authentic w wake \<longleftrightarrow>
     (case wake of RecvFrame f \<Rightarrow> frame_authentic w f | RecvClosed \<Rightarrow> True | TimerFired \<Rightarrow> True)"

definition wake_delivers :: "'m World \<Rightarrow> Wake \<Rightarrow> bool" where
  "wake_delivers w wake \<longleftrightarrow>
     (case wake of RecvFrame f \<Rightarrow> if_bytes f \<in> w_sent w | RecvClosed \<Rightarrow> True | TimerFired \<Rightarrow> True)"

definition after_turn :: "'m Turn \<Rightarrow> 'm SenderPhase" where
  "after_turn t = (case t of TurnContinue st \<Rightarrow> Sending st | TurnFinished oc st \<Rightarrow> SenderOver oc (fst st))"

definition sender_wrote :: "outputs \<Rightarrow> 'm SenderPhase \<Rightarrow> 'm World \<Rightarrow> 'm World" where
  "sender_wrote out ph w = w\<lparr>w_sender := ph, w_sent := w_sent w \<union> snd ` set out\<rparr>"

definition receiver_wrote :: "usize \<Rightarrow> outputs \<Rightarrow> SessionReceiver \<Rightarrow> 'm World \<Rightarrow> 'm World" where
  "receiver_wrote p out s w = w\<lparr>w_receivers := (w_receivers w)(p := s),
     w_answers := (w_answers w)(p := w_answers w p \<union> snd ` set out)\<rparr>"

inductive world_step :: "'m on_need \<Rightarrow> 'm turns \<Rightarrow> (SenderShared \<times> 'm \<Rightarrow> SenderShared \<times> 'm) \<Rightarrow>
    nat \<Rightarrow> solve \<Rightarrow> 'm World \<Rightarrow> 'm World \<Rightarrow> bool"
  for on_need turns start deadline solve where
  handshake_wait: "w_sender w = Handshake next st \<Longrightarrow> wake_authentic w wake \<Longrightarrow>
    negotiate_turn on_need deadline next now wake st = Some (out, NegotiateWait next' st') \<Longrightarrow>
    world_step on_need turns start deadline solve w (sender_wrote out (Handshake next' st') w)"
| handshake_open: "w_sender w = Handshake next st \<Longrightarrow> wake_authentic w wake \<Longrightarrow>
    negotiate_turn on_need deadline next now wake st = Some (out, NegotiateOpen st') \<Longrightarrow>
    world_step on_need turns start deadline solve w (sender_wrote out (Sending (start st')) w)"
| handshake_closed: "w_sender w = Handshake next st \<Longrightarrow> wake_authentic w wake \<Longrightarrow>
    negotiate_turn on_need deadline next now wake st = Some (out, NegotiateClosed) \<Longrightarrow>
    world_step on_need turns start deadline solve w (sender_wrote out (SenderOver Aborted (fst st)) w)"
| sender_turn: "w_sender w = Sending st \<Longrightarrow> turns inp st out t \<Longrightarrow>
    list_all (frame_authentic w) (ti_drained inp) \<Longrightarrow> wake_authentic w (ti_wake inp) \<Longrightarrow>
    world_step on_need turns start deadline solve w
      (sender_wrote out (after_turn t) w\<lparr>w_turns := Suc (w_turns w)\<rparr>)"
| receiver_step: "sr_lifecycle (w_receivers w p) \<noteq> SessionFinished \<Longrightarrow> wake_delivers w wake \<Longrightarrow>
    receiver_turn can_reserve solve wake (w_receivers w p) = Some (out, s, fin) \<Longrightarrow>
    world_step on_need turns start deadline solve w (receiver_wrote p out s w)"

text \<open>The session before its first step.\<close>

definition world_start :: "SenderShared \<times> 'm \<Rightarrow> (usize \<Rightarrow> ReceiverConfig) \<Rightarrow> 'm World" where
  "world_start st cfg =
     \<lparr>w_sender = Handshake 0 st, w_sent = {}, w_turns = 0,
      w_receivers = (\<lambda>p. session_receiver_new (cfg p)), w_answers = (\<lambda>_. {})\<rparr>"

definition told :: "'m World \<Rightarrow> usize \<Rightarrow> u32 \<Rightarrow> NeedReport \<Rightarrow> bool" where
  "told w p r rep \<longleftrightarrow> (\<exists>f\<in>w_answers w p. need_of f = Some (r, rep))"

lemma need_of_decode: "decode_control bs = Some (hdr, Need r rep) \<Longrightarrow> need_of bs = Some (r, rep)"
  by (simp add: need_of_def)

lemma authentic_supports:
  "frame_authentic w f \<Longrightarrow> frame_supports (told w) f"
  "wake_authentic w wake \<Longrightarrow> wake_supports (told w) wake"
  unfolding frame_authentic_def wake_authentic_def frame_supports_def wake_supports_def told_def
  by (blast intro: need_of_decode, cases wake) (auto intro: need_of_decode)

lemma sender_wrote_simps [simp]:
  "w_sender (sender_wrote out ph w) = ph" "w_sent (sender_wrote out ph w) = w_sent w \<union> snd ` set out"
  "w_turns (sender_wrote out ph w) = w_turns w" "w_receivers (sender_wrote out ph w) = w_receivers w"
  "w_answers (sender_wrote out ph w) = w_answers w" "told (sender_wrote out ph w) = told w"
  by (simp_all add: sender_wrote_def told_def fun_eq_iff)

lemma told_fields [simp]: "told (w\<lparr>w_turns := n\<rparr>) = told w" "told (w\<lparr>w_sender := ph\<rparr>) = told w"
  by (simp_all add: told_def fun_eq_iff)

lemma receiver_wrote_simps [simp]:
  "w_sender (receiver_wrote p out s w) = w_sender w" "w_sent (receiver_wrote p out s w) = w_sent w"
  "w_turns (receiver_wrote p out s w) = w_turns w"
  "w_receivers (receiver_wrote p out s w) q = (if q = p then s else w_receivers w q)"
  "told (receiver_wrote p out s w) q r rep \<longleftrightarrow>
     told w q r rep \<or> q = p \<and> (\<exists>f\<in>snd ` set out. need_of f = Some (r, rep))"
  by (auto simp: receiver_wrote_def told_def)

text \<open>What the session is built on: a valid manifest with its plan, a sound codec when the mode
  is FEC, and symbols whose size fits the codec's 16 bits.\<close>

definition session_ok :: "repair \<Rightarrow> solve \<Rightarrow> SenderShared \<Rightarrow> bool" where
  "session_ok repair solve sh \<longleftrightarrow>
     repair_sized repair \<and> (is_fec (mf_mode (ss_manifest sh)) \<longrightarrow> raptorq_sound repair solve) \<and>
     symbols_small (ss_manifest sh) (ss_plan sh) \<and> manifest_ok (ss_manifest sh) \<and>
     block_plan_new (mf_total_bytes (ss_manifest sh)) (ucast (mf_block_size (ss_manifest sh))) =
       Inr (ss_plan sh)"

section \<open>What a mode owes the session\<close>

text \<open>\<open>begun\<close> describes the mode as it is built, \<open>inv ok n\<close> the mode after \<open>n\<close> iterations
  of its loop when every report it was given satisfies \<open>ok\<close>.  The laws: a mode ignores reports
  before its loop begins; each of its iterations keeps the shell and the invariant and writes
  genuine frames only; it returns \<open>Completed\<close> only when one round has Complete of every member
  of the quorum.\<close>

locale sender_protocol =
  fixes on_need :: "'m on_need"
    and turns :: "'m turns"
    and start :: "SenderShared \<times> 'm \<Rightarrow> SenderShared \<times> 'm"
    and repair :: repair
    and begun :: "SenderShared \<Rightarrow> 'm \<Rightarrow> bool"
    and inv :: "(usize \<Rightarrow> u32 \<Rightarrow> NeedReport \<Rightarrow> bool) \<Rightarrow> nat \<Rightarrow> SenderShared \<Rightarrow> 'm \<Rightarrow> bool"
    and bound :: nat
  assumes idle: "begun sh m \<Longrightarrow> on_need sh p r rep m = (sh, m)"
    and begun_shell: "begun sh m \<Longrightarrow> same_shell sh sh' \<Longrightarrow> begun sh' m"
    and opened: "begun sh m \<Longrightarrow> q_frozen (ss_quorum sh) \<Longrightarrow> \<exists>m'. start (sh, m) = (sh, m') \<and> inv ok 0 sh m'"
    and inv_mono: "inv ok n sh m \<Longrightarrow> (\<And>p r rep. ok p r rep \<Longrightarrow> ok' p r rep) \<Longrightarrow> inv ok' n sh m"
    and turn_shell: "inv ok n sh m \<Longrightarrow> n < bound \<Longrightarrow> list_all (frame_supports ok) (ti_drained inp) \<Longrightarrow>
      wake_supports ok (ti_wake inp) \<Longrightarrow> turns inp (sh, m) out t \<Longrightarrow> same_shell sh (fst (turn_state t))"
    and turn_continue: "inv ok n sh m \<Longrightarrow> n < bound \<Longrightarrow> list_all (frame_supports ok) (ti_drained inp) \<Longrightarrow>
      wake_supports ok (ti_wake inp) \<Longrightarrow> turns inp (sh, m) out (TurnContinue (sh', m')) \<Longrightarrow>
      inv ok (Suc n) sh' m'"
    and turn_completed: "inv ok n sh m \<Longrightarrow> n < bound \<Longrightarrow> list_all (frame_supports ok) (ti_drained inp) \<Longrightarrow>
      wake_supports ok (ti_wake inp) \<Longrightarrow> turns inp (sh, m) out (TurnFinished Completed (sh', m')) \<Longrightarrow>
      \<exists>r. \<forall>p\<in>q_active (ss_quorum sh'). ok p r NeedComplete"
    and turn_genuine: "inv ok n sh m \<Longrightarrow> n < bound \<Longrightarrow> list_all (frame_supports ok) (ti_drained inp) \<Longrightarrow>
      wake_supports ok (ti_wake inp) \<Longrightarrow> turns inp (sh, m) out t \<Longrightarrow> f \<in> snd ` set out \<Longrightarrow>
      frame_genuine repair (ss_source sh) (ss_manifest sh) (ss_plan sh) f"
begin

definition sender_inv :: "SenderShared \<Rightarrow> 'm World \<Rightarrow> bool" where
  "sender_inv sh0 w \<longleftrightarrow> (case w_sender w of
     Handshake next (sh, m) \<Rightarrow> same_shell sh0 sh \<and> begun sh m \<and> w_turns w = 0
   | Sending (sh, m) \<Rightarrow> same_shell sh0 sh \<and> inv (told w) (w_turns w) sh m
   | SenderOver oc sh \<Rightarrow> same_shell sh0 sh \<and>
       (oc = Completed \<longrightarrow> (\<exists>r. \<forall>p\<in>q_active (ss_quorum sh). told w p r NeedComplete)))"

definition world_inv :: "SenderShared \<Rightarrow> 'm World \<Rightarrow> bool" where
  "world_inv sh0 w \<longleftrightarrow> sender_inv sh0 w \<and>
     (\<forall>f\<in>w_sent w. frame_genuine repair (ss_source sh0) (ss_manifest sh0) (ss_plan sh0) f) \<and>
     (\<forall>p. session_inv repair (ss_source sh0) (ss_manifest sh0) (ss_plan sh0) (w_receivers w p)) \<and>
     (\<forall>p r. told w p r NeedComplete \<longrightarrow> object_delivered (w_receivers w p))"

lemma handle_control_begun:
  assumes "begun sh m" "handle_control on_need f (sh, m) = (sh', m')"
  shows "begun sh' m'" "same_shell sh sh'"
proof -
  have "m' = m \<and> same_shell sh sh'"
    using assms(2)
  proof (cases rule: handle_control_cases)
    case (3 p hdr r rep)
    then show ?thesis using idle [OF assms(1)] by simp
  qed simp_all
  then show "begun sh' m'" "same_shell sh sh'" using begun_shell [OF assms(1)] by blast+
qed

lemma negotiate_begun:
  assumes "begun sh m" "manifest_ok (ss_manifest sh)"
    and "negotiate_turn on_need deadline next now wake (sh, m) = Some (out, r)"
  shows "\<forall>f\<in>snd ` set out. frame_genuine repair (ss_source sh) (ss_manifest sh) (ss_plan sh) f"
    and "r = NegotiateWait next' (sh', m') \<Longrightarrow> begun sh' m' \<and> same_shell sh sh'"
    and "r = NegotiateOpen (sh', m') \<Longrightarrow> sh' = freeze_active_quorum sh \<and> m' = m"
proof -
  show "\<forall>f\<in>snd ` set out. frame_genuine repair (ss_source sh) (ss_manifest sh) (ss_plan sh) f"
    using assms(3) send_manifest_genuine [of sh]
    by (auto simp: negotiate_turn_def Let_def split: if_splits option.splits Wake.splits)
  show "begun sh' m' \<and> same_shell sh sh'" if "r = NegotiateWait next' (sh', m')"
    using assms(1,3) that handle_control_begun
    by (auto simp: negotiate_turn_def Let_def split: if_splits option.splits Wake.splits)
  show "sh' = freeze_active_quorum sh \<and> m' = m" if "r = NegotiateOpen (sh', m')"
    using assms(3) that
    by (auto simp: negotiate_turn_def Let_def split: if_splits option.splits Wake.splits)
qed

lemma sender_wrote_inv:
  assumes "world_inv sh0 w" "w' = sender_wrote out ph w \<or> w' = sender_wrote out ph w\<lparr>w_turns := n\<rparr>"
    and "\<forall>f\<in>snd ` set out. frame_genuine repair (ss_source sh0) (ss_manifest sh0) (ss_plan sh0) f"
    and "sender_inv sh0 w'"
  shows "world_inv sh0 w'"
  using assms unfolding world_inv_def by (elim disjE conjE) (auto simp del: split_paired_All split_paired_Ex)

lemma shell_frames:
  "same_shell sh0 sh \<Longrightarrow> frame_genuine repair (ss_source sh) (ss_manifest sh) (ss_plan sh) f \<longleftrightarrow>
     frame_genuine repair (ss_source sh0) (ss_manifest sh0) (ss_plan sh0) f"
  by (simp add: same_shell_def)

lemma handshake_inv:
  assumes inv: "world_inv sh0 w" and ok: "manifest_ok (ss_manifest sh0)"
    and ph: "w_sender w = Handshake next st"
    and turn: "negotiate_turn on_need deadline next now wake st = Some (out, r)"
    and ph': "case r of
        NegotiateWait next' st' \<Rightarrow> ph' = Handshake next' st'
      | NegotiateOpen st' \<Rightarrow> ph' = Sending (start st')
      | NegotiateClosed \<Rightarrow> ph' = SenderOver Aborted (fst st)"
  shows "world_inv sh0 (sender_wrote out ph' w)"
proof (rule sender_wrote_inv [OF inv disjI1 [OF refl]])
  obtain sh m where st: "st = (sh, m)" by (cases st)
  have sh: "same_shell sh0 sh" and b: "begun sh m" and z: "w_turns w = 0"
    using inv ph by (simp_all add: world_inv_def sender_inv_def st)
  have ok': "manifest_ok (ss_manifest sh)" using ok sh by (simp add: same_shell_def)
  note n = negotiate_begun [OF b ok' turn [unfolded st]]
  show "\<forall>f\<in>snd ` set out. frame_genuine repair (ss_source sh0) (ss_manifest sh0) (ss_plan sh0) f"
    using n(1) shell_frames [OF sh] by blast
  show "sender_inv sh0 (sender_wrote out ph' w)"
  proof (cases r)
    case (NegotiateWait next' st')
    obtain sh' m' where st': "st' = (sh', m')" by (cases st')
    then show ?thesis
      using n(2) [of next' sh' m'] NegotiateWait ph' same_shell_trans [OF sh, of sh'] z
      by (simp add: sender_inv_def)
  next
    case (NegotiateOpen st')
    obtain sh' m' where st': "st' = (sh', m')" by (cases st')
    then have new: "sh' = freeze_active_quorum sh" "m' = m" using n(3) NegotiateOpen by blast+
    then have sh': "same_shell sh sh'" by simp
    have "\<exists>m1. start (sh', m') = (sh', m1) \<and> inv (told w) 0 sh' m1"
      using opened [OF begun_shell [OF b sh']] new by simp
    then show ?thesis
      using NegotiateOpen ph' st' same_shell_trans [OF sh sh'] z by (auto simp: sender_inv_def)
  next
    case NegotiateClosed
    then show ?thesis using ph' sh by (simp add: sender_inv_def st)
  qed
qed

lemma sender_turn_inv:
  assumes inv: "world_inv sh0 w" and ph: "w_sender w = Sending st" and turn: "turns inp st out t"
    and drained: "list_all (frame_authentic w) (ti_drained inp)"
    and wake: "wake_authentic w (ti_wake inp)" and n: "w_turns w < bound"
  shows "world_inv sh0 (sender_wrote out (after_turn t) w\<lparr>w_turns := Suc (w_turns w)\<rparr>)"
proof (rule sender_wrote_inv [OF inv disjI2 [OF refl]])
  obtain sh m where st: "st = (sh, m)" by (cases st)
  have sh: "same_shell sh0 sh" and i: "inv (told w) (w_turns w) sh m"
    using inv ph by (simp_all add: world_inv_def sender_inv_def st)
  have d: "list_all (frame_supports (told w)) (ti_drained inp)"
    using drained authentic_supports(1) by (auto simp: list_all_iff)
  note law = i n d authentic_supports(2) [OF wake]
  note turn' = turn [unfolded st]
  show "\<forall>f\<in>snd ` set out. frame_genuine repair (ss_source sh0) (ss_manifest sh0) (ss_plan sh0) f"
    using turn_genuine [OF law turn'] shell_frames [OF sh] by blast
  obtain sh' m' where st': "turn_state t = (sh', m')" by (cases "turn_state t")
  then have sh': "same_shell sh0 sh'"
    using turn_shell [OF law turn'] same_shell_trans [OF sh] by simp
  show "sender_inv sh0 (sender_wrote out (after_turn t) w\<lparr>w_turns := Suc (w_turns w)\<rparr>)"
  proof (cases t)
    case (TurnContinue x)
    then have t: "t = TurnContinue (sh', m')" using st' by simp
    show ?thesis
      using turn_continue [OF law turn' [unfolded t]] sh' by (simp add: t sender_inv_def after_turn_def)
  next
    case (TurnFinished oc x)
    then have t: "t = TurnFinished oc (sh', m')" using st' by simp
    have "\<exists>r. \<forall>p\<in>q_active (ss_quorum sh'). told w p r NeedComplete" if "oc = Completed"
      using turn_completed [OF law, of out sh' m'] turn' t that by blast
    then show ?thesis using sh' by (simp add: t sender_inv_def after_turn_def)
  qed
qed

lemma receiver_step_inv:
  assumes inv: "world_inv sh0 w" and ok: "session_ok repair solve sh0"
    and w: "wake_delivers w wake"
    and turn: "receiver_turn can_reserve solve wake (w_receivers w p) = Some (out, s, fin)"
  shows "world_inv sh0 (receiver_wrote p out s w)"
proof -
  let ?src = "ss_source sh0" and ?mf = "ss_manifest sh0" and ?plan = "ss_plan sh0"
  let ?w = "receiver_wrote p out s w"
  have i: "session_inv repair ?src ?mf ?plan (w_receivers w q)" for q
    using inv by (simp add: world_inv_def)
  have g: "wake_genuine repair ?src ?mf ?plan wake"
    using w inv by (auto simp: wake_delivers_def wake_genuine_def world_inv_def split: Wake.splits)
  have i': "session_inv repair ?src ?mf ?plan s"
    using ok by (intro receiver_turn_session_inv [OF _ _ _ _ _ i g turn]) (simp_all add: session_ok_def)
  have wf: "mode_wf (w_receivers w p)" using i by (simp add: session_inv_def)
  have old: "object_delivered s" if "object_delivered (w_receivers w p)"
    by (rule object_delivered_grows [OF that receiver_turn_grows [OF turn wf] i i'])
  have new: "object_delivered s" if "f \<in> snd ` set out" "need_of f = Some (r, NeedComplete)" for f r
    by (rule complete_answer_delivered [OF receiver_turn_answers [OF turn wf] i' that])
  have "sender_inv sh0 ?w"
  proof (cases "w_sender w")
    case (Sending st)
    obtain sh m where st: "st = (sh, m)" by (cases st)
    then have "same_shell sh0 sh" "inv (told w) (w_turns w) sh m"
      using inv Sending by (simp_all add: world_inv_def sender_inv_def)
    moreover have "inv (told ?w) (w_turns w) sh m"
      by (rule inv_mono [OF calculation(2)]) simp
    ultimately show ?thesis by (simp add: sender_inv_def Sending st)
  qed (use inv in \<open>auto simp: world_inv_def sender_inv_def\<close>)
  then show ?thesis
    using inv i' old new by (auto simp: world_inv_def)
qed

lemma world_step_inv:
  assumes "world_step on_need turns start deadline solve w w'" "session_ok repair solve sh0"
    and "world_inv sh0 w" "w_turns w' \<le> bound"
  shows "world_inv sh0 w'"
  using assms(1)
proof (cases rule: world_step.cases)
  case (handshake_wait "next" st wake now out next' st')
  then show ?thesis
    using handshake_inv [OF assms(3) _ handshake_wait(2,4)] assms(2) by (simp add: session_ok_def)
next
  case (handshake_open "next" st wake now out st')
  then show ?thesis
    using handshake_inv [OF assms(3) _ handshake_open(2,4)] assms(2) by (simp add: session_ok_def)
next
  case (handshake_closed "next" st wake now out)
  then show ?thesis
    using handshake_inv [OF assms(3) _ handshake_closed(2,4)] assms(2) by (simp add: session_ok_def)
next
  case (sender_turn st inp out t)
  then show ?thesis
    using sender_turn_inv [OF assms(3) sender_turn(2-5)] assms(4) by simp
next
  case (receiver_step p wake can_reserve out s fin)
  then show ?thesis using receiver_step_inv [OF assms(3,2)] by blast
qed

lemma world_turns_mono:
  assumes "world_step on_need turns start deadline solve w w'"
  shows "w_turns w \<le> w_turns w'"
  using assms by (cases rule: world_step.cases) simp_all

lemma world_reach_inv:
  assumes "(world_step on_need turns start deadline solve)\<^sup>*\<^sup>* (world_start (sh0, m0) cfg) w"
    and "session_ok repair solve sh0" "begun sh0 m0" "w_turns w \<le> bound"
  shows "world_inv sh0 w"
  using assms(1,4)
proof (induction rule: rtranclp_induct)
  case base
  show ?case
    using assms(3) by (simp add: world_inv_def sender_inv_def world_start_def told_def session_inv_new)
next
  case (step w1 w2)
  then have "w_turns w1 \<le> bound" using world_turns_mono le_trans by blast
  then show ?case using world_step_inv [OF step(2) assms(2)] step by blast
qed

text \<open>The contract of a session: completion means every member of the quorum holds the object.\<close>

lemma completed_delivered:
  assumes "(world_step on_need turns start deadline solve)\<^sup>*\<^sup>* (world_start (sh0, m0) cfg) w"
    and "session_ok repair solve sh0" "begun sh0 m0" "w_turns w \<le> bound"
  shows "(\<forall>p r. told w p r NeedComplete \<longrightarrow> sink_correct (ss_source sh0) (ss_manifest sh0) (w_receivers w p)) \<and>
    (\<forall>sh. w_sender w = SenderOver Completed sh \<longrightarrow> same_shell sh0 sh \<and> (\<forall>p\<in>q_active (ss_quorum sh).
      object_delivered (w_receivers w p) \<and>
      sink_correct (ss_source sh0) (ss_manifest sh0) (w_receivers w p)))"
proof -
  have inv: "world_inv sh0 w" by (rule world_reach_inv [OF assms])
  have sink: "sink_correct (ss_source sh0) (ss_manifest sh0) (w_receivers w p)"
    if "object_delivered (w_receivers w p)" for p
    using inv delivered_sink [OF that] unfolding world_inv_def by blast
  have told: "object_delivered (w_receivers w p)" if "told w p r NeedComplete" for p r
    using inv that by (auto simp: world_inv_def)
  moreover have "same_shell sh0 sh \<and> (\<exists>r. \<forall>p\<in>q_active (ss_quorum sh). told w p r NeedComplete)"
    if "w_sender w = SenderOver Completed sh" for sh
    using inv that by (simp add: world_inv_def sender_inv_def)
  ultimately show ?thesis using sink by blast
qed

end

section \<open>Plain mode keeps the contract\<close>

lemma plain_inv_mono:
  assumes "plain_inv ok sh m" "\<And>p r rep. ok p r rep \<Longrightarrow> ok' p r rep"
  shows "plain_inv ok' sh m"
  using assms unfolding plain_inv_def by (auto split: prod.splits)

lemma plain_turns_good:
  assumes "plain_inv ok sh m" "list_all (frame_supports ok) (ti_drained inp)"
    "wake_supports ok (ti_wake inp)" "plain_turns inp (sh, m) out t"
  shows "turn_good ok sh (out, t)"
  using assms plain_turn_good [of ok sh m inp "(out, t)"] by (simp add: plain_turns_def list_all_iff)

interpretation plain_protocol: sender_protocol plain_on_need plain_turns plain_open plain_repair
  "\<lambda>_ m. m = plain_sender_default" "\<lambda>ok n. plain_inv ok" bound
  for bound
proof
  fix sh sh' :: SenderShared and m m' :: PlainSender and ok ok' :: "usize \<Rightarrow> u32 \<Rightarrow> NeedReport \<Rightarrow> bool"
    and inp :: TurnInput and out t f p r rep
  show "m = plain_sender_default \<Longrightarrow> plain_on_need sh p r rep m = (sh, m)"
    by (simp add: plain_on_need_def plain_sender_default_def)
  show "m = plain_sender_default \<Longrightarrow> \<exists>m'. plain_open (sh, m) = (sh, m') \<and> plain_inv ok sh m'"
    using plain_start(1) by (simp add: plain_open_def)
  show "plain_inv ok sh m \<Longrightarrow> (\<And>p r rep. ok p r rep \<Longrightarrow> ok' p r rep) \<Longrightarrow> plain_inv ok' sh m"
    by (rule plain_inv_mono)
  assume inv: "plain_inv ok sh m" and d: "list_all (frame_supports ok) (ti_drained inp)"
    "wake_supports ok (ti_wake inp)"
  note good = plain_turns_good [OF inv d]
  show "plain_turns inp (sh, m) out t \<Longrightarrow> same_shell sh (fst (turn_state t))"
    using good [of out t] by (cases t) (auto simp: turn_good_def)
  show "plain_turns inp (sh, m) out (TurnContinue (sh', m')) \<Longrightarrow> plain_inv ok sh' m'"
    using good by (fastforce simp: turn_good_def)
  show "plain_turns inp (sh, m) out (TurnFinished Completed (sh', m')) \<Longrightarrow>
      \<exists>r. \<forall>p\<in>q_active (ss_quorum sh'). ok p r NeedComplete"
    using good by (fastforce simp: turn_good_def round_satisfied_def)
  show "plain_turns inp (sh, m) out t \<Longrightarrow> f \<in> snd ` set out \<Longrightarrow>
      frame_genuine plain_repair (ss_source sh) (ss_manifest sh) (ss_plan sh) f"
    using good sender_frame_genuine by (fastforce simp: turn_good_def sender_outputs_def)
qed simp_all

section \<open>FEC mode keeps the contract\<close>

definition fec_begun :: "repair \<Rightarrow> SenderShared \<Rightarrow> FecSender \<Rightarrow> bool" where
  "fec_begun repair sh m \<longleftrightarrow> fec_sender_new (ss_manifest sh) (ss_plan sh) = Inr m \<and>
     plan_ok (ss_plan sh) \<and> symbol_size (fe_geometry m) < 2 ^ 16 \<and> repair_sized repair"

definition fec_session :: "repair \<Rightarrow> (usize \<Rightarrow> u32 \<Rightarrow> NeedReport \<Rightarrow> bool) \<Rightarrow> nat \<Rightarrow> SenderShared \<Rightarrow>
    FecSender \<Rightarrow> bool" where
  "fec_session repair ok n sh m \<longleftrightarrow> fec_inv ok n sh m \<and> repair_sized repair \<and>
     (\<exists>fec. mf_mode (ss_manifest sh) = ModeFec fec \<and> fm_symbols_per_block fec = fe_symbols_per_block m)"

lemma fec_inv_ok_mono:
  assumes "fec_inv ok n sh m" "\<And>p r rep. ok p r rep \<Longrightarrow> ok' p r rep"
  shows "fec_inv ok' n sh m"
  using assms unfolding fec_inv_def fec_round_inv_def by (auto split: prod.splits)

lemma fec_turns_ok:
  assumes "fec_session repair ok n sh m" "n < 2 ^ 31" "list_all (frame_supports ok) (ti_drained inp)"
    "wake_supports ok (ti_wake inp)" "fec_turns repair inp (sh, m) out t"
  shows "\<exists>sh' m'. turn_state t = (sh', m') \<and>
    fec_step repair ok (Suc n) (\<lambda>_ _. True) sh m out sh' m' \<and>
    (t = TurnFinished Completed (sh', m') \<longrightarrow> fe_round_complete m')"
proof -
  obtain admit where turn: "fec_turn repair (TurnInput.extend inp (FecTurnInput.fields admit)) (sh, m) = Some (out, t)"
    using assms(5) by (auto simp: fec_turns_def)
  have "fec_sweep m (\<lambda>_ _. True)" by (simp add: fec_sweep_def)
  from fec_turn_good [OF _ assms(2) this, of ok sh repair "TurnInput.extend inp (FecTurnInput.fields admit)"]
  have "fec_turn_ok repair ok (Suc n) (\<lambda>_ _. True) sh m (Some (out, t))"
    using assms(1,3,4) turn
    by (simp add: fec_session_def list_all_iff TurnInput.defs FecTurnInput.defs)
  then show ?thesis by (simp add: fec_turn_ok_def)
qed

lemma fec_outputs_genuine:
  assumes "fec_session repair ok n sh m" "fec_outputs repair sh m out" "f \<in> snd ` set out"
  shows "frame_genuine repair (ss_source sh) (ss_manifest sh) (ss_plan sh) f"
proof -
  obtain route where "(route, f) \<in> set out" using assms(3) by auto
  then have o': "source_done_output sh (route, f) \<or> (\<exists>b i. own_symbol_output repair sh m b i (route, f))"
    using assms(2) unfolding fec_outputs_def by blast
  obtain fec where fec: "mf_mode (ss_manifest sh) = ModeFec fec" "fm_symbols_per_block fec = fe_symbols_per_block m"
    using assms(1) by (auto simp: fec_session_def)
  have send: "fec_send_inv n sh m" "repair_sized repair"
    using assms(1) by (simp_all add: fec_session_def fec_inv_def)
  then have geometry: "symbol_geometry (ss_plan sh) (fe_symbols_per_block m) = Inr (fe_geometry m)"
    by (simp add: fec_send_inv_def)
  from o' show ?thesis
  proof
    assume "source_done_output sh (route, f)"
    then show ?thesis by (auto simp: source_done_output_def source_done_genuine)
  next
    assume "\<exists>b i. own_symbol_output repair sh m b i (route, f)"
    then obtain b i tree p where p: "own_symbol repair sh m b i p"
      and f: "f = encode_block_symbol (ss_session_id sh) b i tree p"
      by (auto simp: own_symbol_output_def)
    from symbol_frame_genuine [OF p own_symbol_length [OF p send(2,1)] fec geometry]
    show ?thesis by (simp add: f)
  qed
qed

lemma fec_session_step:
  assumes "fec_session repair ok n sh m" "fec_step repair ok n' sent sh m out sh' m'"
  shows "fec_session repair ok n' sh' m'"
  using assms by (auto simp: fec_session_def fec_step_def same_code_def same_shell_def)

interpretation fec_protocol: sender_protocol fec_on_need "fec_turns repair" "\<lambda>st. st" repair
  "fec_begun repair" "fec_session repair" "2 ^ 31"
  for repair
proof
  fix sh sh' :: SenderShared and m m' :: FecSender and ok ok' :: "usize \<Rightarrow> u32 \<Rightarrow> NeedReport \<Rightarrow> bool"
    and inp :: TurnInput and out t f p r rep n
  show "fec_begun repair sh m \<Longrightarrow> fec_on_need sh p r rep m = (sh, m)"
    using fec_sender_new_Inr(4) by (auto simp: fec_begun_def fec_on_need_def)
  show "fec_begun repair sh m \<Longrightarrow> same_shell sh sh' \<Longrightarrow> fec_begun repair sh' m"
    by (simp add: fec_begun_def same_shell_def)
  show "\<exists>m'. (sh, m) = (sh, m') \<and> fec_session repair ok 0 sh m'"
    if "fec_begun repair sh m" "q_frozen (ss_quorum sh)"
  proof -
    have new: "fec_sender_new (ss_manifest sh) (ss_plan sh) = Inr m" using that(1) by (simp add: fec_begun_def)
    then have "\<exists>fec. mf_mode (ss_manifest sh) = ModeFec fec \<and> fm_symbols_per_block fec = fe_symbols_per_block m"
      by (auto simp: fec_sender_new_def split: LosslessSessionMode.splits sum.splits)
    then show ?thesis
      using that fec_start(1) [OF new] by (simp add: fec_session_def fec_begun_def)
  qed
  show "fec_session repair ok n sh m \<Longrightarrow> (\<And>p r rep. ok p r rep \<Longrightarrow> ok' p r rep) \<Longrightarrow> fec_session repair ok' n sh m"
    using fec_inv_ok_mono unfolding fec_session_def by blast
  assume inv: "fec_session repair ok n sh m" and n: "n < 2 ^ 31"
    and d: "list_all (frame_supports ok) (ti_drained inp)" "wake_supports ok (ti_wake inp)"
  note good = fec_turns_ok [OF inv n d]
  show "fec_turns repair inp (sh, m) out t \<Longrightarrow> same_shell sh (fst (turn_state t))"
    using good by (fastforce simp: fec_step_def)
  show "fec_turns repair inp (sh, m) out (TurnContinue (sh', m')) \<Longrightarrow> fec_session repair ok (Suc n) sh' m'"
    using good [of out "TurnContinue (sh', m')"] fec_session_step [OF inv] by auto
  show "\<exists>r. \<forall>p\<in>q_active (ss_quorum sh'). ok p r NeedComplete"
    if turn: "fec_turns repair inp (sh, m) out (TurnFinished Completed (sh', m'))"
  proof -
    have "fe_round_complete m'" "fec_round_inv ok sh' m'"
      using good [OF turn] by (auto simp: fec_step_def fec_inv_def)
    then show ?thesis using complete_round_told by blast
  qed
  show "fec_turns repair inp (sh, m) out t \<Longrightarrow> f \<in> snd ` set out \<Longrightarrow>
      frame_genuine repair (ss_source sh) (ss_manifest sh) (ss_plan sh) f"
    using good fec_outputs_genuine [OF inv] unfolding fec_step_def by blast
qed

section \<open>Sessions deliver\<close>

lemma sender_shared_new_Inr:
  assumes "sender_shared_new cfg = Inr sh"
  shows "ss_manifest sh = sc_manifest cfg" "ss_source sh = sc_source_buffer cfg"
    "block_plan_new (mf_total_bytes (sc_manifest cfg)) (ucast (mf_block_size (sc_manifest cfg))) = Inr (ss_plan sh)"
    "ss_quorum sh = quorum_new (sc_receiver_ids cfg)"
  using assms by (auto simp: sender_shared_new_def Let_def split: sum.splits)

lemma shell_quorum:
  "same_shell sh sh' \<Longrightarrow> ss_quorum sh = quorum_new ids \<Longrightarrow> q_active (ss_quorum sh') \<subseteq> set ids"
  by (auto simp: same_shell_def quorum_ok_def quorum_new_def)

text \<open>C1. A plain session delivers.  In every state that the sender, its receivers and a network
  that loses, repeats, delays and reorders frames can reach together, a receiver that ever
  answered Complete has the object in its sink (the source, cut or padded to the manifest's
  length); and once the sender has returned \<open>Completed\<close>, every member of the quorum it froze,
  which is a subset of the configured receivers, holds the object.\<close>

theorem plain_session_delivers:
  assumes new: "sender_shared_new cfg = Inr sh" and valid: "manifest_validate (sc_manifest cfg) = Inr ()"
    and plain: "mf_mode (sc_manifest cfg) = ModePlain"
    and reach: "(world_step plain_on_need plain_turns plain_open deadline solve)\<^sup>*\<^sup>*
      (world_start (sh, plain_sender_default) rcfg) w"
  shows "(\<forall>p r. told w p r NeedComplete \<longrightarrow>
      sink_correct (sc_source_buffer cfg) (sc_manifest cfg) (w_receivers w p)) \<and>
    (\<forall>sh'. w_sender w = SenderOver Completed sh' \<longrightarrow>
      q_active (ss_quorum sh') \<subseteq> set (sc_receiver_ids cfg) \<and>
      (\<forall>p\<in>q_active (ss_quorum sh'). object_delivered (w_receivers w p) \<and>
        sink_correct (sc_source_buffer cfg) (sc_manifest cfg) (w_receivers w p)))"
proof -
  note f = sender_shared_new_Inr [OF new]
  have "session_ok plain_repair solve sh"
    using f valid plain plain_repair_sized
    by (simp add: session_ok_def symbols_small_def manifest_validate_iff)
  from plain_protocol.completed_delivered [OF reach this, of "w_turns w"] f(1,2) shell_quorum [OF _ f(4)]
  show ?thesis by auto
qed

text \<open>C2. An FEC session delivers, with any RaptorQ codec whose solver returns nothing but the
  block its symbols were made from, as long as the sender's loop makes at most \<open>2 ^ 31\<close>
  iterations (the 32-bit fountain counters do not wrap before) and a symbol's size fits the 16
  bits the codec's parameters give it.\<close>

theorem fec_session_delivers:
  assumes new: "sender_shared_new cfg = Inr sh" "fec_sender_new (ss_manifest sh) (ss_plan sh) = Inr m"
    and valid: "manifest_validate (sc_manifest cfg) = Inr ()" "symbol_size (fe_geometry m) < 2 ^ 16"
    and codec: "raptorq_sound repair solve" "repair_sized repair"
    and reach: "(world_step fec_on_need (fec_turns repair) (\<lambda>st. st) deadline solve)\<^sup>*\<^sup>*
      (world_start (sh, m) rcfg) w"
    and turns: "w_turns w \<le> 2 ^ 31"
  shows "(\<forall>p r. told w p r NeedComplete \<longrightarrow>
      sink_correct (sc_source_buffer cfg) (sc_manifest cfg) (w_receivers w p)) \<and>
    (\<forall>sh'. w_sender w = SenderOver Completed sh' \<longrightarrow>
      q_active (ss_quorum sh') \<subseteq> set (sc_receiver_ids cfg) \<and>
      (\<forall>p\<in>q_active (ss_quorum sh'). object_delivered (w_receivers w p) \<and>
        sink_correct (sc_source_buffer cfg) (sc_manifest cfg) (w_receivers w p)))"
proof -
  note f = sender_shared_new_Inr [OF new(1)]
  obtain fec where fec: "mf_mode (ss_manifest sh) = ModeFec fec" "fe_symbols_per_block m = fm_symbols_per_block fec"
    using new(2) by (auto simp: fec_sender_new_def split: LosslessSessionMode.splits sum.splits)
  have "symbols_small (ss_manifest sh) (ss_plan sh)"
    using fec fec_sender_new_Inr(1) [OF new(2)] valid(2) by (simp add: symbols_small_def)
  then have ok: "session_ok repair solve sh"
    using f valid codec by (simp add: session_ok_def manifest_validate_iff)
  have begun: "fec_begun repair sh m"
    using new(2) valid(2) codec(2) block_plan_new_ok(1) [OF f(3)] by (simp add: fec_begun_def)
  from fec_protocol.completed_delivered [OF reach ok begun turns] f(1,2) shell_quorum [OF _ f(4)]
  show ?thesis by auto
qed

section \<open>Two concrete sessions\<close>

text \<open>One receiver (node 7); first a plain session of one block.\<close>


definition demo_sender_config :: SenderConfig where
  "demo_sender_config = \<lparr>sc_session_id = 9, sc_block_size = 2,
     sc_route = \<lparr>tr_src_ip = 1, tr_dst_ip = 2, tr_src_port = 3, tr_dst_port = 4\<rparr>,
     sc_receiver_ids = [7], sc_source_buffer = [1, 2], sc_manifest = demo_manifest,
     sc_ready_grace_ms = 0, sc_peer_report_timeout_ms = 1000\<rparr>"

definition demo_fresh :: SenderShared where
  "demo_fresh = demo_shared\<lparr>ss_quorum := quorum_new [7]\<rparr>"

lemma demo_fresh_new: "sender_shared_new demo_sender_config = Inr demo_fresh"
  by (simp add: sender_shared_new_def demo_sender_config_def demo_fresh_def demo_shared_def demo_manifest_def
      block_plan_new_def demo_plan_def word_div_ceil_def QUORUM_SOLICITATION_INTERVAL_def)

definition demo_sink :: "bytes \<Rightarrow> u64 set \<Rightarrow> PlainReceiver \<Rightarrow> SessionReceiver" where
  "demo_sink sink done m = \<lparr>sr_shared = \<lparr>rs_session_id = 9, rs_route = rc_route run_config,
     rs_local_node_id = 5, rs_sink_buffer = Some sink, rs_progress = None,
     rs_peer_report_timeout_ms = 100, rs_fec_enabled = True, rs_manifest = Some demo_manifest,
     rs_plan = Some demo_plan, rs_complete_blocks = done\<rparr>,
     sr_mode = Some (PlainMode m), sr_lifecycle = Active\<rparr>"

definition heard :: "bytes \<Rightarrow> Wake" where
  "heard f = RecvFrame \<lparr>if_bytes = f, if_peer_id = None\<rparr>"

lemma demo_decode:
  "decode_control (control_frame 9 (Manifest demo_manifest)) = Some (session_header KindControl
     (ctrl_kind_byte CtrlManifest) 9 (word_of_nat (control_body_len (Manifest demo_manifest))), Manifest demo_manifest)"
  "decode_control (control_frame 9 Ready) = Some (session_header KindControl
     (ctrl_kind_byte CtrlReady) 9 (word_of_nat (control_body_len Ready)), Ready)"
  "decode_control (control_frame 9 (SourceDone 0)) = Some (session_header KindControl
     (ctrl_kind_byte CtrlSourceDone) 9 (word_of_nat (control_body_len (SourceDone 0))), SourceDone 0)"
  using decode_control_frame [of "Manifest demo_manifest" 9] decode_control_frame [of Ready 9]
    decode_control_frame [of "SourceDone 0" 9] demo_manifest_ok
  by simp_all

lemma demo_installs:
  "\<exists>route. install_manifest (\<lambda>_. True) demo_manifest (session_receiver_new run_config) =
     Some ([(route, control_frame 9 Ready)], demo_sink [0, 0] {} plain_receiver_default)"
proof -
  have "resize_zero 2 [] = [0, 0]" by (simp add: resize_zero_def numeral_2_eq_2)
  then show ?thesis
    by (simp add: install_manifest_def session_receiver_new_def run_config_def demo_manifest_def
        is_fec_def block_plan_new_def word_div_ceil_def mode_new_def ensure_sink_buffer_len_def
        demo_sink_def demo_plan_def send_ready_def receiver_route_def send_control_eq)
qed

lemma demo_receives_manifest:
  "\<exists>route. receiver_turn (\<lambda>_. True) solve (heard (control_frame 9 (Manifest demo_manifest)))
     (session_receiver_new run_config) =
   Some ([(route, control_frame 9 Ready)], demo_sink [0, 0] {} plain_receiver_default, False)"
proof -
  have "\<not> reported_complete (demo_sink [0, 0] {} plain_receiver_default)"
    by (simp add: reported_complete_def demo_sink_def plain_receiver_default_def)
  then show ?thesis
    using demo_installs
    by (auto simp: receiver_turn_def heard_def receiver_frame_def handle_control_frame_def demo_decode)
qed

lemma demo_receives_block:
  "receiver_turn (\<lambda>_. True) solve (heard (block_data_bytes 9 0 [1, 2])) (demo_sink [0, 0] {} plain_receiver_default) =
   Some ([], demo_sink [1, 2] {0} plain_receiver_default, False)"
proof -
  have d: "decode_block_data (block_data_bytes 9 0 [1, 2]) =
      Some (session_header KindBlockData 0 9 (word_of_nat 10), \<lparr>bd_block_id = 0\<rparr>, [1, 2])"
    using decode_block_data_bytes [of "[1, 2]" 9 0] by simp
  have e: "expected_block_payload_len demo_manifest 0 = Inr 2"
    by (simp add: expected_len_Inr demo_manifest_ok) (simp add: demo_manifest_def block_bytes_def)
  have mode: "mf_mode demo_manifest = ModePlain" by (simp add: demo_manifest_def)
  have v: "validate_block_data demo_manifest \<lparr>bd_block_id = 0\<rparr> (Suc (Suc 0)) = Inr ()"
    by (simp add: validate_block_data_def e mode u32_clamp_def)
  have w: "write_span 2 \<lparr>sp_offset = 0, sp_len = 2\<rparr> [1, 2] [0, 0] = [1, 2]"
    by (simp add: write_span_def put_def)
  have "bp_total_bytes demo_plan = 2" by (simp add: demo_plan_def)
  then have "handle_block_data_frame \<lparr>if_bytes = block_data_bytes 9 0 [1, 2], if_peer_id = None\<rparr>
      (demo_sink [0, 0] {} plain_receiver_default) = demo_sink [1, 2] {0} plain_receiver_default"
    by (simp add: handle_block_data_frame_def demo_sink_def plain_handle_block_data_def d v mode
        write_block_def mark_first_payload_unit_def demo_span w)
  moreover have "\<not> reported_complete (demo_sink [1, 2] {0} plain_receiver_default)"
    by (simp add: reported_complete_def demo_sink_def plain_receiver_default_def)
  ultimately show ?thesis by (simp add: receiver_turn_def heard_def receiver_frame_def d)
qed

definition demo_told :: PlainReceiver where
  "demo_told = \<lparr>pr_complete_reported = True, pr_last_source_done_round_id = Some 0,
     pr_last_round_need = Some NeedComplete\<rparr>"

lemma demo_answers_complete:
  "\<exists>route. receiver_turn (\<lambda>_. True) solve (heard (control_frame 9 (SourceDone 0)))
     (demo_sink [1, 2] {0} plain_receiver_default) =
   Some ([(route, control_frame 9 (Need 0 NeedComplete))],
     enter_passive_complete (demo_sink [1, 2] {0} demo_told), False)"
  by (simp add: receiver_turn_def heard_def receiver_frame_def demo_decode handle_control_frame_def
      mode_source_done_def demo_sink_def plain_handle_source_done_def plain_receiver_default_def
      plain_need_def demo_plan_def send_need_def receiver_route_def send_control_eq demo_told_def
      reported_complete_def)

lemma demo_sends_block:
  "\<exists>route. plain_turn (demo_input []) (demo_shared, demo_start) =
     Some ([(route, block_data_bytes 9 0 [1, 2])],
       TurnContinue (demo_sent, demo_start\<lparr>ps_source_cursor := 1\<rparr>))"
proof -
  have "block_payload [1, 2] \<lparr>sp_offset = 0, sp_len = 2\<rparr> = [1, 2 :: u8]"
    by (simp add: block_payload_def slice_def)
  then have "\<exists>route. send_block demo_shared 0 = Some ([(route, block_data_bytes 9 0 [1, 2])], demo_sent)"
    by (simp add: send_block_def demo_span demo_sent_def encode_block_data_layout send_frame_def)
  then show ?thesis
    by (auto simp: plain_turn_def demo_input_def drain_controls_def demo_start_eq
        plain_sender_default_def next_source_block_def send_source_block_def)
qed

lemma demo_sends_source_done:
  "\<exists>route. plain_turn (demo_input []) (demo_sent, demo_start\<lparr>ps_source_cursor := 1\<rparr>) =
     Some ([(route, control_frame 9 (SourceDone 0))], TurnContinue (demo_waiting,
       demo_start\<lparr>ps_source_cursor := 1, ps_feedback_round_open := True\<rparr>))"
  by (simp add: plain_turn_def demo_input_def drain_controls_def demo_start_eq
      plain_sender_default_def next_source_block_def next_retransmit_block_def plain_feedback_def
      send_source_done_def sender_route_def send_control_eq active_quorum_is_empty_def demo_waiting_def
      demo_sent_def mark_payload_emitted_def)

text \<open>The whole session, step by step.\<close>

definition world_at :: "('m World \<Rightarrow> 'm World \<Rightarrow> bool) \<Rightarrow> 'm World \<Rightarrow> 'm SenderPhase \<Rightarrow> bytes set \<Rightarrow>
    SessionReceiver \<Rightarrow> bytes set \<Rightarrow> nat \<Rightarrow> bool" where
  "world_at step w0 ph sent s answers n \<longleftrightarrow> (\<exists>w. step\<^sup>*\<^sup>* w0 w \<and> w_sender w = ph \<and> sent \<subseteq> w_sent w \<and>
     w_receivers w 7 = s \<and> answers \<subseteq> w_answers w 7 \<and> w_turns w = n)"

lemma world_at_start:
  "world_at step (world_start st (\<lambda>_. cfg)) (Handshake 0 st) {} (session_receiver_new cfg) {} 0"
  unfolding world_at_def by (rule exI [of _ "world_start st (\<lambda>_. cfg)"]) (simp add: world_start_def)

lemma world_at_turn:
  assumes "world_at (world_step on_need turns start deadline solve) w0 (Sending st) sent s answers n"
    and "turns inp st out t"
    and "list_all (\<lambda>f. if_peer_id f = Some 7 \<and> if_bytes f \<in> answers) (ti_drained inp)"
    and "ti_wake inp = TimerFired"
  shows "world_at (world_step on_need turns start deadline solve) w0 (after_turn t)
    (sent \<union> snd ` set out) s answers (Suc n)"
proof -
  let ?step = "world_step on_need turns start deadline solve"
  obtain w where w: "?step\<^sup>*\<^sup>* w0 w" "w_sender w = Sending st"
    "sent \<subseteq> w_sent w" "w_receivers w 7 = s" "answers \<subseteq> w_answers w 7" "w_turns w = n"
    using assms(1) by (auto simp: world_at_def)
  have "list_all (frame_authentic w) (ti_drained inp)"
    using assms(3) w(5) by (auto simp: list_all_iff frame_authentic_def)
  moreover have "wake_authentic w (ti_wake inp)" by (simp add: wake_authentic_def assms(4))
  ultimately have "?step w (sender_wrote out (after_turn t) w\<lparr>w_turns := Suc (w_turns w)\<rparr>)"
    by (rule world_step.sender_turn [where turns = turns, OF w(2) assms(2)])
  from rtranclp.rtrancl_into_rtrancl [OF w(1) this] show ?thesis
    using w(3-6) unfolding world_at_def
    by (intro exI [of _ "sender_wrote out (after_turn t) w\<lparr>w_turns := Suc (w_turns w)\<rparr>"]) auto
qed

lemma world_at_handshake:
  assumes "world_at (world_step on_need turns start deadline solve) w0 (Handshake next st) sent s answers n"
    and "negotiate_turn on_need deadline next now wake st = Some (out, r)"
    and "r = NegotiateWait next' st' \<and> ph = Handshake next' st' \<or>
      r = NegotiateOpen st' \<and> ph = Sending (start st')"
    and "wake = TimerFired \<or> (\<exists>f. wake = RecvFrame \<lparr>if_bytes = f, if_peer_id = Some 7\<rparr> \<and> f \<in> answers)"
  shows "world_at (world_step on_need turns start deadline solve) w0 ph (sent \<union> snd ` set out) s answers n"
proof -
  let ?step = "world_step on_need turns start deadline solve"
  obtain w where w: "?step\<^sup>*\<^sup>* w0 w" "w_sender w = Handshake next st"
    "sent \<subseteq> w_sent w" "w_receivers w 7 = s" "answers \<subseteq> w_answers w 7" "w_turns w = n"
    using assms(1) by (auto simp: world_at_def)
  have wake: "wake_authentic w wake"
    using assms(4) w(5) by (auto simp: wake_authentic_def frame_authentic_def)
  have "?step w (sender_wrote out ph w)"
    using assms(3)
  proof
    assume "r = NegotiateWait next' st' \<and> ph = Handshake next' st'"
    then show ?thesis using world_step.handshake_wait [OF w(2) wake] assms(2) by blast
  next
    assume "r = NegotiateOpen st' \<and> ph = Sending (start st')"
    then show ?thesis using world_step.handshake_open [OF w(2) wake] assms(2) by blast
  qed
  from rtranclp.rtrancl_into_rtrancl [OF w(1) this] show ?thesis
    using w(3-6) unfolding world_at_def by (intro exI [of _ "sender_wrote out ph w"]) auto
qed

lemma world_at_receiver:
  assumes "world_at (world_step on_need turns start deadline solve) w0 ph sent s answers n"
    and "receiver_turn (\<lambda>_. True) solve (heard f) s = Some (out, s', fin)" "f \<in> sent"
    and "sr_lifecycle s \<noteq> SessionFinished"
  shows "world_at (world_step on_need turns start deadline solve) w0 ph sent s' (answers \<union> snd ` set out) n"
proof -
  let ?step = "world_step on_need turns start deadline solve"
  obtain w where w: "?step\<^sup>*\<^sup>* w0 w" "w_sender w = ph"
    "sent \<subseteq> w_sent w" "w_receivers w 7 = s" "answers \<subseteq> w_answers w 7" "w_turns w = n"
    using assms(1) by (auto simp: world_at_def)
  have "?step w (receiver_wrote 7 out s' w)"
    using w assms(2-4) by (intro world_step.receiver_step) (auto simp: wake_delivers_def heard_def)
  from rtranclp.rtrancl_into_rtrancl [OF w(1) this] show ?thesis
    using w(2-6) unfolding world_at_def
    by (intro exI [of _ "receiver_wrote 7 out s' w"]) (auto simp: receiver_wrote_def)
qed

text \<open>The whole plain session, step by step.\<close>

abbreviation (input) demo_step :: "solve \<Rightarrow> PlainSender World \<Rightarrow> PlainSender World \<Rightarrow> bool" where
  "demo_step solve \<equiv> world_step plain_on_need plain_turns plain_open 1000 solve"

lemma demo_handshake_turns:
  "\<exists>route. negotiate_turn plain_on_need 1000 0 0 TimerFired (demo_fresh, plain_sender_default) =
     Some ([(route, control_frame 9 (Manifest demo_manifest))],
       NegotiateWait 250 (demo_fresh, plain_sender_default))"
  "negotiate_turn plain_on_need 1000 250 0
     (RecvFrame \<lparr>if_bytes = control_frame 9 Ready, if_peer_id = Some 7\<rparr>) (demo_fresh, plain_sender_default) =
   Some ([], NegotiateWait 250
     (demo_fresh\<lparr>ss_quorum := record_ready 7 (quorum_new [7])\<rparr>, plain_sender_default))"
  "negotiate_turn plain_on_need 1000 250 0 TimerFired
     (demo_fresh\<lparr>ss_quorum := record_ready 7 (quorum_new [7])\<rparr>, plain_sender_default) =
   Some ([], NegotiateOpen (demo_shared, plain_sender_default))"
  using demo_manifest_ok
  by (simp_all add: negotiate_turn_def ready_missing_def demo_fresh_def quorum_new_def record_ready_def
      send_manifest_def sender_route_def send_control_eq MANIFEST_RETRY_INTERVAL_def
      handle_control_def demo_decode freeze_active_quorum_def freeze_def demo_shared_def)

lemma demo_session:
  "\<exists>sh. world_at (demo_step solve) (world_start (demo_fresh, plain_sender_default) (\<lambda>_. run_config))
     (SenderOver Completed sh) {} (enter_passive_complete (demo_sink [1, 2] {0} demo_told)) {} 3 \<and>
     q_active (ss_quorum sh) = {7}"
proof -
  let ?at = "world_at (demo_step solve) (world_start (demo_fresh, plain_sender_default) (\<lambda>_. run_config))"
  let ?M = "control_frame 9 (Manifest demo_manifest)" and ?R = "control_frame 9 Ready"
    and ?D = "block_data_bytes 9 0 [1, 2]" and ?S = "control_frame 9 (SourceDone 0)"
    and ?N = "control_frame 9 (Need 0 NeedComplete)"
  have 1: "?at (Handshake 250 (demo_fresh, plain_sender_default)) {?M} (session_receiver_new run_config) {} 0"
    using demo_handshake_turns(1) world_at_handshake [OF world_at_start] by fastforce
  have 2: "?at (Handshake 250 (demo_fresh, plain_sender_default)) {?M} (demo_sink [0, 0] {} plain_receiver_default) {?R} 0"
    using demo_receives_manifest world_at_receiver [OF 1]
    by (fastforce simp: session_receiver_new_def)
  have 3: "?at (Handshake 250 (demo_fresh\<lparr>ss_quorum := record_ready 7 (quorum_new [7])\<rparr>, plain_sender_default))
      {?M} (demo_sink [0, 0] {} plain_receiver_default) {?R} 0"
    using world_at_handshake [OF 2 demo_handshake_turns(2)] by simp
  have 4: "?at (Sending (demo_shared, demo_start)) {?M} (demo_sink [0, 0] {} plain_receiver_default) {?R} 0"
    using world_at_handshake [OF 3 demo_handshake_turns(3)] by (simp add: plain_open_def demo_start_def)
  let ?m = "demo_start\<lparr>ps_source_cursor := 1\<rparr>"
  have 5: "?at (Sending (demo_sent, ?m)) {?M, ?D} (demo_sink [0, 0] {} plain_receiver_default) {?R} 1"
    using demo_sends_block world_at_turn [OF 4, of "demo_input []"]
    by (fastforce simp: plain_turns_def after_turn_def demo_input_def insert_commute)
  let ?m = "demo_start\<lparr>ps_source_cursor := 1, ps_feedback_round_open := True\<rparr>"
  have 6: "?at (Sending (demo_waiting, ?m)) {?M, ?D, ?S} (demo_sink [0, 0] {} plain_receiver_default) {?R} 2"
    using demo_sends_source_done world_at_turn [OF 5, of "demo_input []"]
    by (fastforce simp: plain_turns_def after_turn_def demo_input_def insert_commute numeral_2_eq_2)
  have 7: "?at (Sending (demo_waiting, ?m)) {?M, ?D, ?S} (demo_sink [1, 2] {0} plain_receiver_default) {?R} 2"
    using world_at_receiver [OF 6 demo_receives_block] by (simp add: demo_sink_def)
  have 8: "?at (Sending (demo_waiting, ?m)) {?M, ?D, ?S} (enter_passive_complete (demo_sink [1, 2] {0} demo_told)) {?R, ?N} 2"
    using demo_answers_complete world_at_receiver [OF 7, of ?S]
    by (fastforce simp: demo_sink_def insert_commute)
  obtain sh m where turn: "plain_turn (demo_input [demo_complete]) (demo_waiting, ?m) =
      Some ([], TurnFinished Completed (sh, m))" and q: "q_active (ss_quorum sh) = {7}"
  proof -
    obtain sh m where turn: "plain_turn (demo_input [demo_complete]) (demo_waiting, ?m) =
        Some ([], TurnFinished Completed (sh, m))"
      using demo_turn_3 by blast
    have "plain_inv (\<lambda>_ _ _. True) demo_waiting ?m"
      by (simp add: plain_inv_def demo_start_eq plain_sender_default_def)
    from plain_protocol.turn_shell [OF this, of 0 1 "demo_input [demo_complete]"] turn
    have "same_shell demo_waiting sh"
      by (simp add: plain_turns_def frame_supports_def wake_supports_def demo_input_def list_all_iff)
    then show thesis using that [OF turn] by (simp add: same_shell_def)
  qed
  have 9: "?at (SenderOver Completed sh) {?M, ?D, ?S} (enter_passive_complete (demo_sink [1, 2] {0} demo_told)) {?R, ?N} 3"
    using world_at_turn [OF 8, of "demo_input [demo_complete]"] turn
    by (simp add: plain_turns_def after_turn_def demo_input_def demo_complete_def numeral_3_eq_3)
  then show ?thesis using q by (auto simp: world_at_def)
qed

lemma plain_session_delivers_witness:
  "\<exists>w sh. (world_step plain_on_need plain_turns plain_open 1000 plain_solve)\<^sup>*\<^sup>*
       (world_start (demo_fresh, plain_sender_default) (\<lambda>_. run_config)) w \<and>
     w_sender w = SenderOver Completed sh \<and> q_active (ss_quorum sh) = {7} \<and>
     object_delivered (w_receivers w 7) \<and> sink_correct [1, 2] demo_manifest (w_receivers w 7)"
proof -
  obtain w sh where w: "(demo_step plain_solve)\<^sup>*\<^sup>* (world_start (demo_fresh, plain_sender_default) (\<lambda>_. run_config)) w"
    "w_sender w = SenderOver Completed sh" "q_active (ss_quorum sh) = {7}"
    using demo_session [of plain_solve] by (auto simp: world_at_def)
  have cfg: "manifest_validate (sc_manifest demo_sender_config) = Inr ()" "mf_mode (sc_manifest demo_sender_config) = ModePlain"
    "sc_source_buffer demo_sender_config = [1, 2]" "sc_manifest demo_sender_config = demo_manifest"
    by (simp_all add: demo_sender_config_def manifest_validate_iff demo_manifest_ok) (simp add: demo_manifest_def)
  have "object_delivered (w_receivers w 7) \<and> sink_correct [1, 2] demo_manifest (w_receivers w 7)"
    using plain_session_delivers [OF demo_fresh_new cfg(1,2) w(1)] w(2,3) by (simp add: cfg(3,4))
  then show ?thesis using w by blast
qed

text \<open>An FEC session whose object is empty.\<close>

definition void_manifest :: LosslessSessionManifest where
  "void_manifest = \<lparr>mf_block_size = 4, mf_total_bytes = 0, mf_total_blocks = 0,
     mf_mode = ModeFec (new_raptorq 2 [7])\<rparr>"

definition void_plan :: BlockPlan where
  "void_plan = \<lparr>bp_total_bytes = 0, bp_block_size = 4, bp_total_blocks = 0\<rparr>"

definition void_fresh :: SenderShared where
  "void_fresh = demo_fresh\<lparr>ss_manifest := void_manifest, ss_plan := void_plan, ss_source := []\<rparr>"

definition void_config :: SenderConfig where
  "void_config = demo_sender_config\<lparr>sc_manifest := void_manifest, sc_source_buffer := []\<rparr>"

definition void_mode :: FecSender where
  "void_mode = \<lparr>fe_blocks = [], fe_symbols_per_block = 2, fe_tree_ids = [7],
     fe_geometry = \<lparr>sg_symbols_per_block = 2, sg_symbol_size = 2\<rparr>, fe_next_tree_rr = 0,
     fe_current_source_cache = None, fe_frame_scratch = [], fe_round_source_done_sent = False,
     fe_current_round_id = 0, fe_phase = SendingData, fe_round_complete = False,
     fe_round_reports = [], fe_repair_window_symbols = 0, fe_protocol_error = False\<rparr>"

lemma void_manifest_ok: "manifest_ok void_manifest"
  by (simp add: void_manifest_def manifest_ok_def nat_div_ceil_def new_raptorq_def fec_mode_ok_def
      MAX_MANIFEST_TREE_IDS_def)

lemma void_new:
  "sender_shared_new void_config = Inr void_fresh"
  "fec_sender_new (ss_manifest void_fresh) (ss_plan void_fresh) = Inr void_mode"
  by (simp_all add: sender_shared_new_def void_config_def demo_sender_config_def void_fresh_def demo_fresh_def
      demo_shared_def void_manifest_def block_plan_new_def void_plan_def QUORUM_SOLICITATION_INTERVAL_def
      fec_sender_new_def new_raptorq_def symbol_geometry_def symbol_geometry_new_def word_div_ceil_def
      void_mode_def)


definition void_sink :: "FecReceiver \<Rightarrow> SessionReceiver" where
  "void_sink m = \<lparr>sr_shared = \<lparr>rs_session_id = 9, rs_route = rc_route run_config,
     rs_local_node_id = 5, rs_sink_buffer = Some [], rs_progress = None,
     rs_peer_report_timeout_ms = 100, rs_fec_enabled = True, rs_manifest = Some void_manifest,
     rs_plan = Some void_plan, rs_complete_blocks = {}\<rparr>,
     sr_mode = Some (FecMode m), sr_lifecycle = Active\<rparr>"

definition void_receiver :: FecReceiver where
  "void_receiver = fec_receiver_new \<lparr>sg_symbols_per_block = 2, sg_symbol_size = 2\<rparr>"

definition void_told :: FecReceiver where
  "void_told = void_receiver\<lparr>fr_last_source_done_round_id := Some 0,
     fr_last_round_need := Some NeedComplete, fr_complete_reported := True\<rparr>"

lemma void_decode:
  "\<exists>hdr. decode_control (control_frame 9 (Manifest void_manifest)) = Some (hdr, Manifest void_manifest)"
  using decode_control_frame [of "Manifest void_manifest" 9] void_manifest_ok by simp

lemma void_receives_manifest:
  "\<exists>route. receiver_turn (\<lambda>_. True) solve (heard (control_frame 9 (Manifest void_manifest)))
     (session_receiver_new run_config) =
   Some ([(route, control_frame 9 Ready)], void_sink void_receiver, False)"
proof -
  have "\<exists>route. install_manifest (\<lambda>_. True) void_manifest (session_receiver_new run_config) =
     Some ([(route, control_frame 9 Ready)], void_sink void_receiver)"
    by (simp add: install_manifest_def session_receiver_new_def run_config_def void_manifest_def
        is_fec_def block_plan_new_def word_div_ceil_def mode_new_def ensure_sink_buffer_len_def
        new_raptorq_def symbol_geometry_def symbol_geometry_new_def void_sink_def void_plan_def
        void_receiver_def send_ready_def receiver_route_def send_control_eq)
  then obtain route where install: "install_manifest (\<lambda>_. True) void_manifest
      (session_receiver_new run_config) = Some ([(route, control_frame 9 Ready)], void_sink void_receiver)"
    by blast
  have "\<not> reported_complete (void_sink void_receiver)"
    by (simp add: reported_complete_def void_sink_def void_receiver_def fec_receiver_new_def)
  then show ?thesis
    using void_decode install
    by (auto simp: receiver_turn_def heard_def receiver_frame_def handle_control_frame_def
        intro!: exI [of _ route])
qed

lemma void_answers_complete:
  "\<exists>route. receiver_turn (\<lambda>_. True) solve (heard (control_frame 9 (SourceDone 0))) (void_sink void_receiver) =
   Some ([(route, control_frame 9 (Need 0 NeedComplete))], enter_passive_complete (void_sink void_told), False)"
  by (simp add: receiver_turn_def heard_def receiver_frame_def demo_decode handle_control_frame_def
      mode_source_done_def void_sink_def fec_handle_source_done_def void_receiver_def fec_receiver_new_def
      fec_need_report_def void_plan_def send_need_def receiver_route_def send_control_eq void_told_def
      reported_complete_def)

definition void_open :: SenderShared where
  "void_open = void_fresh\<lparr>ss_quorum := \<lparr>q_configured = {7}, q_active = {7}, q_frozen = True\<rparr>\<rparr>"

lemma void_handshake_turns:
  "\<exists>route. negotiate_turn fec_on_need 1000 0 0 TimerFired (void_fresh, void_mode) =
     Some ([(route, control_frame 9 (Manifest void_manifest))], NegotiateWait 250 (void_fresh, void_mode))"
  "negotiate_turn fec_on_need 1000 250 0
     (RecvFrame \<lparr>if_bytes = control_frame 9 Ready, if_peer_id = Some 7\<rparr>) (void_fresh, void_mode) =
   Some ([], NegotiateWait 250 (void_fresh\<lparr>ss_quorum := record_ready 7 (quorum_new [7])\<rparr>, void_mode))"
  "negotiate_turn fec_on_need 1000 250 0 TimerFired
     (void_fresh\<lparr>ss_quorum := record_ready 7 (quorum_new [7])\<rparr>, void_mode) =
   Some ([], NegotiateOpen (void_open, void_mode))"
  using void_manifest_ok
  by (simp_all add: negotiate_turn_def ready_missing_def void_fresh_def void_open_def demo_fresh_def
      quorum_new_def record_ready_def send_manifest_def sender_route_def send_control_eq
      MANIFEST_RETRY_INTERVAL_def handle_control_def demo_decode freeze_active_quorum_def freeze_def
      demo_shared_def)

definition void_input :: "InboundFrame list \<Rightarrow> FecTurnInput" where
  "void_input fs = \<lparr>ti_drained = fs, ti_now = 0, ti_wake = TimerFired, ti_wake_now = 0,
     fti_admit = (\<lambda>_. Queued)\<rparr>"

definition void_waiting :: "(usize \<times> NeedReport) list \<Rightarrow> bool \<Rightarrow> FecSender" where
  "void_waiting reports complete = void_mode\<lparr>fe_phase := WaitingForReports,
     fe_round_source_done_sent := True, fe_round_reports := reports, fe_round_complete := complete\<rparr>"

lemma void_open_simps [simp]:
  "ss_session_id void_open = 9" "ss_manifest void_open = void_manifest"
  "ss_quorum void_open = \<lparr>q_configured = {7}, q_active = {7}, q_frozen = True\<rparr>"
  "ss_quorum (start_quorum_feedback_wait 0 void_open) = \<lparr>q_configured = {7}, q_active = {7}, q_frozen = True\<rparr>"
  "ss_manifest (start_quorum_feedback_wait 0 void_open) = void_manifest"
  by (simp_all add: void_open_def void_fresh_def demo_fresh_def demo_shared_def start_quorum_feedback_wait_def)

lemma void_reported:
  "handle_control fec_on_need demo_complete (start_quorum_feedback_wait 0 void_open, void_waiting [] False) =
     (start_quorum_feedback_wait 0 void_open, void_waiting [(7, NeedComplete)] True)"
proof -
  have v: "validate_control void_manifest (Need 0 NeedComplete) = Inr ()"
    using void_manifest_ok
    by (simp add: validate_control_def and_then_eq_Inr manifest_validate_iff control_validate_iff
        validate_need_report_iff report_within_def report_fits_mode_def)
  have p: "if_peer_id demo_complete = Some 7" by (simp add: demo_complete_def)
  show ?thesis
    by (simp add: handle_control_def demo_frames p v fec_on_need_def void_waiting_def void_mode_def
        recalculate_repair_window_def total_required_extra_symbols_def
        all_reported_def has_pending_repair_work_def finish_report_round_def)
qed

lemma void_turns:
  "\<exists>route. fec_turn plain_repair (void_input []) (void_open, void_mode) =
     Some ([(route, control_frame 9 (SourceDone 0))],
       TurnContinue (start_quorum_feedback_wait 0 void_open, void_waiting [] False))"
  "fec_turn plain_repair (void_input [demo_complete]) (start_quorum_feedback_wait 0 void_open, void_waiting [] False) =
     Some ([], TurnContinue (start_quorum_feedback_wait 0 void_open, void_waiting [(7, NeedComplete)] True))"
  "fec_turn plain_repair (void_input []) (start_quorum_feedback_wait 0 void_open, void_waiting [(7, NeedComplete)] True) =
     Some ([], TurnFinished Completed (start_quorum_feedback_wait 0 void_open, void_waiting [(7, NeedComplete)] True))"
proof -
  note turn = fec_turn_def void_input_def drain_controls_def next_source_symbol_def next_extra_symbol_def
    total_emitted_extra_symbols_def has_pending_repair_work_def fec_feedback_def Let_def
  show "\<exists>route. fec_turn plain_repair (void_input []) (void_open, void_mode) =
     Some ([(route, control_frame 9 (SourceDone 0))],
       TurnContinue (start_quorum_feedback_wait 0 void_open, void_waiting [] False))"
    by (simp add: turn void_mode_def void_waiting_def begin_report_round_def send_source_done_def
        sender_route_def send_control_eq active_quorum_is_empty_def)
  have idle: "next_source_symbol (void_waiting R c) = None" "next_extra_symbol (void_waiting R c) = None"
    "\<not> has_pending_repair_work (void_waiting R c)" "\<not> fe_protocol_error (void_waiting R c)"
    "fe_round_complete (void_waiting R c) = c" for R c
    by (simp_all add: void_waiting_def void_mode_def turn)
  have fb: "fec_feedback inp (start_quorum_feedback_wait 0 void_open, void_waiting [(7, NeedComplete)] True) =
      Some ([], TurnContinue (start_quorum_feedback_wait 0 void_open, void_waiting [(7, NeedComplete)] True))" for inp
    by (simp add: fec_feedback_def void_waiting_def void_mode_def all_reported_def finish_report_round_def)
  show "fec_turn plain_repair (void_input [demo_complete]) (start_quorum_feedback_wait 0 void_open, void_waiting [] False) =
     Some ([], TurnContinue (start_quorum_feedback_wait 0 void_open, void_waiting [(7, NeedComplete)] True))"
    by (simp add: fec_turn_def void_input_def drain_controls_def void_reported idle fb)
  show "fec_turn plain_repair (void_input []) (start_quorum_feedback_wait 0 void_open, void_waiting [(7, NeedComplete)] True) =
     Some ([], TurnFinished Completed (start_quorum_feedback_wait 0 void_open, void_waiting [(7, NeedComplete)] True))"
    by (simp add: fec_turn_def void_waiting_def)
qed

abbreviation (input) void_step :: "FecSender World \<Rightarrow> FecSender World \<Rightarrow> bool" where
  "void_step \<equiv> world_step fec_on_need (fec_turns plain_repair) (\<lambda>st. st) 1000 plain_solve"

lemma fec_turns_input:
  "fec_turn plain_repair (void_input fs) st = Some (out, t) \<Longrightarrow> fec_turns plain_repair (demo_input fs) st out t"
  by (auto simp: fec_turns_def void_input_def demo_input_def TurnInput.defs FecTurnInput.defs intro!: exI [of _ "\<lambda>_. Queued"])

lemma void_session:
  "world_at void_step (world_start (void_fresh, void_mode) (\<lambda>_. run_config))
     (SenderOver Completed (start_quorum_feedback_wait 0 void_open)) {}
     (enter_passive_complete (void_sink void_told)) {} 3"
proof -
  let ?at = "world_at void_step (world_start (void_fresh, void_mode) (\<lambda>_. run_config))"
  let ?M = "control_frame 9 (Manifest void_manifest)" and ?R = "control_frame 9 Ready"
    and ?S = "control_frame 9 (SourceDone 0)" and ?N = "control_frame 9 (Need 0 NeedComplete)"
    and ?sh = "start_quorum_feedback_wait 0 void_open"
  have 1: "?at (Handshake 250 (void_fresh, void_mode)) {?M} (session_receiver_new run_config) {} 0"
    using void_handshake_turns(1) world_at_handshake [OF world_at_start] by fastforce
  have 2: "?at (Handshake 250 (void_fresh, void_mode)) {?M} (void_sink void_receiver) {?R} 0"
    using void_receives_manifest world_at_receiver [OF 1] by (fastforce simp: session_receiver_new_def)
  have 3: "?at (Handshake 250 (void_fresh\<lparr>ss_quorum := record_ready 7 (quorum_new [7])\<rparr>, void_mode))
      {?M} (void_sink void_receiver) {?R} 0"
    using world_at_handshake [OF 2 void_handshake_turns(2)] by simp
  have 4: "?at (Sending (void_open, void_mode)) {?M} (void_sink void_receiver) {?R} 0"
    using world_at_handshake [OF 3 void_handshake_turns(3)] by simp
  have 5: "?at (Sending (?sh, void_waiting [] False)) {?M, ?S} (void_sink void_receiver) {?R} 1"
    using void_turns(1) world_at_turn [OF 4 fec_turns_input, of "[]"]
    by (fastforce simp: after_turn_def demo_input_def insert_commute)
  have 6: "?at (Sending (?sh, void_waiting [] False)) {?M, ?S}
      (enter_passive_complete (void_sink void_told)) {?R, ?N} 1"
    using void_answers_complete world_at_receiver [OF 5, of ?S]
    by (fastforce simp: void_sink_def insert_commute)
  have 7: "?at (Sending (?sh, void_waiting [(7, NeedComplete)] True)) {?M, ?S}
      (enter_passive_complete (void_sink void_told)) {?R, ?N} 2"
    using world_at_turn [OF 6 fec_turns_input [OF void_turns(2)]]
    by (simp add: after_turn_def demo_input_def demo_complete_def numeral_2_eq_2)
  have 8: "?at (SenderOver Completed ?sh) {?M, ?S} (enter_passive_complete (void_sink void_told)) {?R, ?N} 3"
    using world_at_turn [OF 7 fec_turns_input [OF void_turns(3)]]
    by (simp add: after_turn_def demo_input_def numeral_3_eq_3)
  then show ?thesis by (auto simp: world_at_def)
qed

lemma fec_session_delivers_witness:
  "\<exists>w sh. (world_step fec_on_need (fec_turns plain_repair) (\<lambda>st. st) 1000 plain_solve)\<^sup>*\<^sup>*
       (world_start (void_fresh, void_mode) (\<lambda>_. run_config)) w \<and>
     w_sender w = SenderOver Completed sh \<and> q_active (ss_quorum sh) = {7} \<and>
     object_delivered (w_receivers w 7) \<and> sink_correct [] void_manifest (w_receivers w 7)"
proof -
  let ?sh = "start_quorum_feedback_wait 0 void_open"
  obtain w where w: "void_step\<^sup>*\<^sup>* (world_start (void_fresh, void_mode) (\<lambda>_. run_config)) w"
    "w_sender w = SenderOver Completed ?sh" "w_turns w = 3"
    using void_session by (auto simp: world_at_def)
  have cfg: "manifest_validate (sc_manifest void_config) = Inr ()" "symbol_size (fe_geometry void_mode) < 2 ^ 16"
    "sc_source_buffer void_config = []" "sc_manifest void_config = void_manifest"
    by (simp_all add: void_config_def manifest_validate_iff void_manifest_ok void_mode_def symbol_size_def)
  have "w_turns w \<le> 2 ^ 31" by (simp add: w(3))
  from fec_session_delivers [OF void_new cfg(1,2) plain_codec_sound plain_repair_sized w(1) this] w(2)
  have "object_delivered (w_receivers w 7) \<and> sink_correct [] void_manifest (w_receivers w 7)"
    by (simp add: cfg(3,4))
  then show ?thesis using w by auto
qed

end
