(* ===== verification/Mettle_Params.thy ===== *)
theory Mettle_Params
  imports Prelude
begin

unbundle bit_operations_syntax

text \<open>
  The bin geometry of the Mettle erasure code (\<open>src/mettle/src/params.rs\<close>): the overhead
  ratio, the top-left edge (TLE) of a source, its coupling window with the compressed tail of a
  terminated stream, and the four edges drawn from the seeded generator.  Source ids and bin ids
  are natural numbers: with ids below \<open>2 ^ 64\<close> and 32-bit ratios no \<open>u128\<close> product
  overflows, and the checked operations of \<open>latest_source_id_for_bin\<close>, which reads bin ids
  from the network, have their limits written out.
\<close>

section \<open>Overhead\<close>

datatype ParamsError = ZeroDenominator | ZeroOverhead

record OverheadRatio =
  or_numerator :: u32
  or_denominator :: u32

function gcd_loop :: "u32 \<Rightarrow> u32 \<Rightarrow> u32" where
  "gcd_loop lhs rhs = (if rhs = 0 then lhs else gcd_loop rhs (lhs mod rhs))"
  by pat_completeness auto

termination gcd_loop
  by (relation "measure (\<lambda>(lhs, rhs). unat rhs)")
    (auto simp: unat_mod unat_eq_0 [symmetric] simp del: unat_eq_0)

declare gcd_loop.simps [simp del]

definition overhead_new :: "u32 \<Rightarrow> u32 \<Rightarrow> ParamsError + OverheadRatio" where
  "overhead_new numerator denominator =
     (if denominator = 0 then Inl ZeroDenominator
      else if numerator = 0 then Inl ZeroOverhead
      else
        let divisor = gcd_loop numerator denominator
        in Inr \<lparr>or_numerator = numerator div divisor, or_denominator = denominator div divisor\<rparr>)"

record MettleParams =
  mp_overhead :: OverheadRatio

definition EDGE_COUNT :: nat where "EDGE_COUNT = 4"
definition COUPLING_WINDOW :: nat where "COUPLING_WINDOW = 600"
definition NON_TLE_PROFILE :: "(u32 \<times> u32) list" where
  "NON_TLE_PROFILE = [(1, 2), (1, 4), (1, 8)]"

definition overhead_denominator :: "MettleParams \<Rightarrow> nat" where
  "overhead_denominator p = unat (or_denominator (mp_overhead p))"

definition expansion_numerator :: "MettleParams \<Rightarrow> nat" where
  "expansion_numerator p =
     unat (or_numerator (mp_overhead p)) + unat (or_denominator (mp_overhead p))"

section \<open>Bins and windows\<close>

definition tle_bin_id :: "MettleParams \<Rightarrow> nat \<Rightarrow> nat" where
  "tle_bin_id p source_id = source_id * expansion_numerator p div overhead_denominator p"

definition departure_frontier_after_source_count :: "MettleParams \<Rightarrow> nat \<Rightarrow> nat" where
  "departure_frontier_after_source_count p source_count = tle_bin_id p source_count"

definition latest_source_id_for_bin :: "MettleParams \<Rightarrow> nat \<Rightarrow> nat option" where
  "latest_source_id_for_bin p bin_id =
     (if 2 ^ 128 \<le> bin_id + 1 then None
      else if 2 ^ 128 \<le> (bin_id + 1) * overhead_denominator p then None
      else if (bin_id + 1) * overhead_denominator p < 1 then None
      else
        let scaled = (bin_id + 1) * overhead_denominator p - 1;
            source_id = scaled div expansion_numerator p
        in if source_id < 2 ^ 64 then Some source_id else None)"

definition div_ceil :: "nat \<Rightarrow> nat \<Rightarrow> nat" where
  "div_ceil lhs rhs = (let quotient = lhs div rhs in if lhs mod rhs = 0 then quotient else quotient + 1)"

definition window_end_exclusive :: "MettleParams \<Rightarrow> nat \<Rightarrow> nat" where
  "window_end_exclusive p source_id =
     (let scaled = (source_id + COUPLING_WINDOW) * expansion_numerator p;
          denominator = overhead_denominator p
      in scaled div denominator + (if scaled mod denominator = 0 then 0 else 1))"

text \<open>Every caller passes a terminal count above zero.\<close>

definition tail_compression_factor :: "nat \<Rightarrow> nat option \<Rightarrow> (nat \<times> nat) option" where
  "tail_compression_factor source_id terminal =
     (case terminal of
        None \<Rightarrow> None
      | Some source_count \<Rightarrow>
          let tail_source_count = min source_count COUPLING_WINDOW;
              tail_start = source_count - tail_source_count
          in if source_id < tail_start then None
             else if tail_source_count = 1 then Some (2, 1)
             else
               let factor_denominator = tail_source_count - 1;
                   factor_numerator = factor_denominator + (source_id - tail_start)
               in Some (factor_numerator, factor_denominator))"

definition window_width :: "MettleParams \<Rightarrow> nat \<Rightarrow> nat option \<Rightarrow> nat" where
  "window_width p source_id terminal =
     (let uncompressed = window_end_exclusive p source_id - tle_bin_id p source_id
      in case tail_compression_factor source_id terminal of
           None \<Rightarrow> uncompressed
         | Some (factor_numerator, factor_denominator) \<Rightarrow>
             div_ceil (uncompressed * factor_denominator) factor_numerator)"

definition window_end_exclusive_with_terminal :: "MettleParams \<Rightarrow> nat \<Rightarrow> nat option \<Rightarrow> nat" where
  "window_end_exclusive_with_terminal p source_id terminal =
     tle_bin_id p source_id + window_width p source_id terminal"

definition terminal_departure_end_exclusive :: "MettleParams \<Rightarrow> nat \<Rightarrow> nat" where
  "terminal_departure_end_exclusive p source_count =
     (if source_count = 0 then 0
      else
        let tail_source_count = min source_count COUPLING_WINDOW;
            tail_start = source_count - tail_source_count;
            first = (if tail_start = 0 then 0 else window_end_exclusive p (tail_start - 1))
        in fold (\<lambda>source_id. max (window_end_exclusive_with_terminal p source_id (Some source_count)))
             [tail_start ..< source_count] first)"

definition source_window_contains_bin :: "MettleParams \<Rightarrow> nat \<Rightarrow> nat \<Rightarrow> nat option \<Rightarrow> bool" where
  "source_window_contains_bin p source_id bin_id terminal \<longleftrightarrow>
     tle_bin_id p source_id \<le> bin_id \<and> bin_id < window_end_exclusive_with_terminal p source_id terminal"

definition possible_source_id_range_for_bin ::
    "MettleParams \<Rightarrow> nat \<Rightarrow> nat option \<Rightarrow> (nat \<times> nat) option" where
  "possible_source_id_range_for_bin p bin_id terminal =
     (case latest_source_id_for_bin p bin_id of
        None \<Rightarrow> None
      | Some latest \<Rightarrow>
          if terminal = Some 0 then None
          else
            let latest = (case terminal of None \<Rightarrow> latest | Some source_count \<Rightarrow> min latest (source_count - 1));
                earliest_candidate = latest - COUPLING_WINDOW;
                inside = filter (\<lambda>source_id. source_window_contains_bin p source_id bin_id terminal)
                  [earliest_candidate ..< latest + 1]
            in if inside = [] then None else Some (hd inside, last inside))"

section \<open>Edges\<close>

definition nominal_non_tle_trials :: "MettleParams \<Rightarrow> nat" where
  "nominal_non_tle_trials p = COUPLING_WINDOW * expansion_numerator p div overhead_denominator p"

definition non_tle_trials :: "MettleParams \<Rightarrow> nat \<Rightarrow> nat option \<Rightarrow> nat" where
  "non_tle_trials p source_id terminal =
     (let uncompressed = nominal_non_tle_trials p
      in case tail_compression_factor source_id terminal of
           None \<Rightarrow> uncompressed
         | Some (factor_numerator, factor_denominator) \<Rightarrow>
             div_ceil (uncompressed * factor_denominator) factor_numerator)"

definition mix_entropy :: "u64 \<Rightarrow> u64 \<Rightarrow> u64 \<Rightarrow> u64" where
  "mix_entropy seed source_id edge_index =
     (seed XOR word_rotl 21 source_id) XOR word_rotl 42 edge_index"

text \<open>The value drawn, with the state left behind.\<close>

definition next_entropy :: "u64 \<Rightarrow> u64 \<times> u64" where
  "next_entropy state =
     (let state = state + 0x9E3779B97F4A7C15;
          value = state;
          value = (value XOR drop_bit 30 value) * 0xBF58476D1CE4E5B9;
          value = (value XOR drop_bit 27 value) * 0x94D049BB133111EB
      in (value XOR drop_bit 31 value, state))"

fun sample_loop :: "nat \<Rightarrow> u64 \<Rightarrow> u64 \<Rightarrow> nat \<Rightarrow> nat" where
  "sample_loop remaining low_bits state successes =
     (if remaining = 0 then successes
      else case next_entropy state of (value, state) \<Rightarrow>
        sample_loop (remaining - 1) low_bits state
          (if value AND low_bits = 0 then successes + 1 else successes))"

declare sample_loop.simps [simp del]

definition sample_power_of_two_binomial :: "nat \<Rightarrow> u32 \<Rightarrow> u64 \<Rightarrow> nat" where
  "sample_power_of_two_binomial trials denominator state =
     sample_loop trials (ucast (denominator - 1)) state 0"

definition non_tle_edge_bin_id_for_eta :: "MettleParams \<Rightarrow> nat \<Rightarrow> nat \<Rightarrow> nat option \<Rightarrow> nat" where
  "non_tle_edge_bin_id_for_eta p source_id eta terminal =
     (let rightmost_bin = window_end_exclusive_with_terminal p source_id terminal - 1;
          nominal_rightmost_bin = tle_bin_id p source_id + non_tle_trials p source_id terminal
      in min (nominal_rightmost_bin - eta) rightmost_bin)"

definition non_tle_edge_bin_id ::
    "MettleParams \<Rightarrow> nat \<Rightarrow> u64 \<Rightarrow> u64 \<Rightarrow> u32 \<Rightarrow> nat option \<Rightarrow> nat" where
  "non_tle_edge_bin_id p source_id seed edge_index denominator terminal =
     (let eta = sample_power_of_two_binomial (non_tle_trials p source_id terminal) denominator
            (mix_entropy seed (word_of_nat source_id) edge_index)
      in non_tle_edge_bin_id_for_eta p source_id eta terminal)"

definition non_tle_edge_bin_id_for_profile_index ::
    "MettleParams \<Rightarrow> nat \<Rightarrow> u64 \<Rightarrow> nat \<Rightarrow> nat option \<Rightarrow> nat" where
  "non_tle_edge_bin_id_for_profile_index p source_id seed profile_index terminal =
     (let edge_index = word_of_nat profile_index + 2;
          denominator = snd (NON_TLE_PROFILE ! profile_index)
      in non_tle_edge_bin_id p source_id seed edge_index denominator terminal)"

definition edge_bin_ids :: "MettleParams \<Rightarrow> nat \<Rightarrow> u64 \<Rightarrow> nat option \<Rightarrow> nat list" where
  "edge_bin_ids p source_id seed terminal =
     tle_bin_id p source_id #
     map (\<lambda>profile_index. non_tle_edge_bin_id_for_profile_index p source_id seed profile_index terminal)
       [0 ..< length NON_TLE_PROFILE]"

section \<open>The overhead ratio\<close>

lemma unat_gcd_loop: "unat (gcd_loop lhs rhs) = gcd (unat lhs) (unat rhs)"
proof (induction lhs rhs rule: gcd_loop.induct)
  case (1 lhs rhs)
  show ?case
  proof (cases "rhs = 0")
    case True
    then show ?thesis by (simp add: gcd_loop.simps [of lhs 0])
  next
    case False
    then have "unat (gcd_loop lhs rhs) = gcd (unat rhs) (unat (lhs mod rhs))"
      using 1 by (simp add: gcd_loop.simps [of lhs rhs])
    then show ?thesis by (simp add: unat_mod gcd_red_nat [symmetric])
  qed
qed

lemma cross_scaled:
  fixes g h :: nat
  assumes "0 < g" "0 < h"
  shows "(x * g) * (y' * h) = (x' * h) * (y * g) \<longleftrightarrow> x * y' = x' * y"
proof -
  have "(x * g) * (y' * h) = (x * y') * (g * h)" "(x' * h) * (y * g) = (x' * y) * (g * h)"
    by (simp_all add: mult.commute mult.left_commute)
  then show ?thesis using assms by simp
qed

lemma overhead_new_Inr:
  assumes "overhead_new a b = Inr r"
  shows "unat (or_numerator r) = unat a div gcd (unat a) (unat b)"
    "unat (or_denominator r) = unat b div gcd (unat a) (unat b)"
    "0 < unat a" "0 < unat b" "0 < unat (or_numerator r)" "0 < unat (or_denominator r)"
proof -
  have nz: "a \<noteq> 0" "b \<noteq> 0" and r: "r = \<lparr>or_numerator = a div gcd_loop a b, or_denominator = b div gcd_loop a b\<rparr>"
    using assms by (auto simp: overhead_new_def Let_def split: if_splits)
  show pos: "0 < unat a" "0 < unat b" using nz by (simp_all add: unat_gt_0)
  show "unat (or_numerator r) = unat a div gcd (unat a) (unat b)"
    "unat (or_denominator r) = unat b div gcd (unat a) (unat b)"
    by (simp_all add: r unat_div unat_gcd_loop)
  then show "0 < unat (or_numerator r)" "0 < unat (or_denominator r)"
    using pos by (simp_all add: div_greater_zero_iff gcd_le1_nat gcd_le2_nat)
qed

text \<open>The overhead ratio is canonical: \<open>new\<close> refuses exactly the ratios with a zero part
  (the denominator first), and two accepted ratios are stored equal exactly when they are equal
  as fractions; Euclid's loop computes the greatest common divisor.\<close>

theorem overhead_canonical:
  "(overhead_new a b = Inl ZeroDenominator \<longleftrightarrow> b = 0) \<and>
   (overhead_new a b = Inl ZeroOverhead \<longleftrightarrow> b \<noteq> 0 \<and> a = 0) \<and>
   (\<forall>r r'. overhead_new a b = Inr r \<longrightarrow> overhead_new c d = Inr r' \<longrightarrow>
      coprime (unat (or_numerator r)) (unat (or_denominator r)) \<and>
      (r = r' \<longleftrightarrow> unat a * unat d = unat c * unat b))"
proof (intro conjI allI impI)
  show "overhead_new a b = Inl ZeroDenominator \<longleftrightarrow> b = 0"
    "overhead_new a b = Inl ZeroOverhead \<longleftrightarrow> b \<noteq> 0 \<and> a = 0"
    by (auto simp: overhead_new_def Let_def)
  fix r r' assume r: "overhead_new a b = Inr r" "overhead_new c d = Inr r'"
  note n = overhead_new_Inr [OF r(1)] and n' = overhead_new_Inr [OF r(2)]
  have cop: "coprime (unat (or_numerator r)) (unat (or_denominator r))"
    "coprime (unat (or_numerator r')) (unat (or_denominator r'))"
    unfolding n(1,2) n'(1,2) using n(3) n'(3) by (simp_all add: div_gcd_coprime)
  then show "coprime (unat (or_numerator r)) (unat (or_denominator r))" by simp
  let ?g = "gcd (unat a) (unat b)" and ?h = "gcd (unat c) (unat d)"
  have fields: "unat a = unat (or_numerator r) * ?g" "unat b = unat (or_denominator r) * ?g"
    "unat c = unat (or_numerator r') * ?h" "unat d = unat (or_denominator r') * ?h"
    by (simp_all add: n(1,2) n'(1,2))
  have "0 < ?g" "0 < ?h" using n(3) n'(3) by (simp_all add: gcd_pos_nat)
  then have "unat a * unat d = unat c * unat b \<longleftrightarrow>
      unat (or_numerator r) * unat (or_denominator r') = unat (or_numerator r') * unat (or_denominator r)"
    using cross_scaled [of ?g ?h "unat (or_numerator r)" "unat (or_denominator r')" "unat (or_numerator r')"
      "unat (or_denominator r)"] fields by simp
  also have "\<dots> \<longleftrightarrow> unat (or_numerator r) = unat (or_numerator r') \<and>
      unat (or_denominator r) = unat (or_denominator r')"
    using coprime_crossproduct_nat [OF cop] by (auto simp: mult.commute)
  also have "\<dots> \<longleftrightarrow> r = r'"
    by (cases r; cases r') (simp add: word_unat_eq_iff)
  finally show "r = r' \<longleftrightarrow> unat a * unat d = unat c * unat b" by simp
qed

section \<open>Bins against windows\<close>

definition params_ok :: "MettleParams \<Rightarrow> bool" where
  "params_ok p \<longleftrightarrow> 0 < overhead_denominator p \<and> overhead_denominator p < expansion_numerator p"

lemma overhead_params_ok: "overhead_new a b = Inr r \<Longrightarrow> params_ok \<lparr>mp_overhead = r\<rparr>"
  using overhead_new_Inr [of a b r]
  by (simp add: params_ok_def overhead_denominator_def expansion_numerator_def)

lemma params_bounds:
  "overhead_denominator p < 2 ^ 32" "expansion_numerator p < 2 ^ 33"
  using unat_u32_bound [of "or_numerator (mp_overhead p)"] unat_u32_bound [of "or_denominator (mp_overhead p)"]
  by (simp_all add: overhead_denominator_def expansion_numerator_def)

lemma tle_le_iff:
  assumes "params_ok p"
  shows "tle_bin_id p i \<le> b \<longleftrightarrow> i * expansion_numerator p < (b + 1) * overhead_denominator p"
  using assms by (simp add: tle_bin_id_def params_ok_def less_mult_imp_div_less div_less_iff_less_mult
      less_Suc_eq_le [symmetric])

lemma tle_strict_mono:
  assumes "params_ok p" "i < j"
  shows "tle_bin_id p i < tle_bin_id p j"
proof -
  let ?E = "expansion_numerator p" and ?D = "overhead_denominator p"
  have pos: "0 < ?D" and le: "?D \<le> ?E" using assms(1) by (simp_all add: params_ok_def)
  have "tle_bin_id p i + 1 = (i * ?E + ?D) div ?D" using pos by (simp add: tle_bin_id_def div_add_self2)
  also have "\<dots> \<le> Suc i * ?E div ?D" using le by (intro div_le_mono) simp
  also have "\<dots> \<le> j * ?E div ?D" using assms(2) by (intro div_le_mono mult_le_mono1) simp
  finally show ?thesis by (simp add: tle_bin_id_def)
qed

lemma tle_less_iff [simp]:
  assumes "params_ok p" shows "tle_bin_id p i < tle_bin_id p j \<longleftrightarrow> i < j"
  using tle_strict_mono [OF assms] by (metis linorder_neqE_nat order_less_asym order_less_irrefl)

lemma tle_le_mono [simp]:
  assumes "params_ok p" shows "tle_bin_id p i \<le> tle_bin_id p j \<longleftrightarrow> i \<le> j"
  using tle_less_iff [OF assms, of j i] by (simp add: not_less [symmetric] del: tle_less_iff)

lemma tle_eq_iff [simp]:
  assumes "params_ok p" shows "tle_bin_id p i = tle_bin_id p j \<longleftrightarrow> i = j"
  using tle_le_mono [OF assms, of i j] tle_le_mono [OF assms, of j i]
  by (auto simp del: tle_le_mono)

lemma le_tle: "params_ok p \<Longrightarrow> i \<le> tle_bin_id p i"
  by (simp add: tle_bin_id_def params_ok_def less_eq_div_iff_mult_less_eq)

lemma latest_source_le_iff:
  assumes "params_ok p" "latest_source_id_for_bin p b = Some q"
  shows "tle_bin_id p i \<le> b \<longleftrightarrow> i \<le> q"
proof -
  let ?E = "expansion_numerator p" and ?D = "overhead_denominator p"
  have q: "q = ((b + 1) * ?D - 1) div ?E"
    using assms(2) by (auto simp: latest_source_id_for_bin_def Let_def split: if_splits)
  have pos: "0 < (b + 1) * ?D" "0 < ?E" using assms(1) by (simp_all add: params_ok_def)
  have "tle_bin_id p i \<le> b \<longleftrightarrow> i * ?E \<le> (b + 1) * ?D - 1"
    using pos(1) by (simp only: tle_le_iff [OF assms(1)]) linarith
  also have "\<dots> \<longleftrightarrow> i \<le> q" using pos(2) by (simp add: q less_eq_div_iff_mult_less_eq)
  finally show ?thesis .
qed

text \<open>The ids the decoder accepts include every bin of a stream of 64-bit source ids.\<close>

lemma latest_source_id_for_bin_Some:
  assumes "params_ok p" "b < tle_bin_id p n" "n \<le> 2 ^ 64"
  shows "\<exists>q. latest_source_id_for_bin p b = Some q"
proof -
  let ?E = "expansion_numerator p" and ?D = "overhead_denominator p"
  have pos: "0 < ?D" "0 < ?E" using assms(1) by (simp_all add: params_ok_def)
  have "(b + 1) * ?D \<le> tle_bin_id p n * ?D" using assms(2) by (intro mult_le_mono1) simp
  also have "\<dots> \<le> n * ?E" by (simp add: tle_bin_id_def)
  finally have lim: "(b + 1) * ?D \<le> n * ?E" .
  have "n * ?E \<le> 2 ^ 64 * 2 ^ 33" using assms(3) params_bounds(2) [of p] by (intro mult_le_mono) simp_all
  then have small: "(b + 1) * ?D < 2 ^ 128" using lim by simp
  have "b + 1 \<le> (b + 1) * ?D" using mult_le_mono [of "b + 1" "b + 1" 1 ?D] pos(1) by simp
  then have "b + 1 < 2 ^ 128" using small by (rule le_less_trans)
  moreover have "((b + 1) * ?D - 1) div ?E < 2 ^ 64"
  proof -
    have "(b + 1) * ?D - 1 < n * ?E" using lim pos by (simp add: less_eq_Suc_le [symmetric])
    then have "((b + 1) * ?D - 1) div ?E < n" using pos(2) by (simp add: div_less_iff_less_mult)
    then show ?thesis using assms(3) by linarith
  qed
  moreover have "\<not> (b + 1) * ?D < 1" using pos by simp
  ultimately show ?thesis using small by (simp add: latest_source_id_for_bin_def Let_def)
qed

lemma div_ceil_nat: "div_ceil a b = nat_div_ceil a b"
  by (simp add: div_ceil_def nat_div_ceil_def Let_def)

lemma window_end_nat:
  "window_end_exclusive p i = nat_div_ceil ((i + COUPLING_WINDOW) * expansion_numerator p) (overhead_denominator p)"
  by (simp add: window_end_exclusive_def nat_div_ceil_def Let_def)

lemma below_window_end_iff:
  assumes "params_ok p"
  shows "b < window_end_exclusive p i \<longleftrightarrow>
    b * overhead_denominator p < (i + COUPLING_WINDOW) * expansion_numerator p"
  using assms by (simp add: window_end_nat less_nat_div_ceil_iff params_ok_def)

lemma tle_below_window_end:
  assumes "params_ok p"
  shows "tle_bin_id p i < window_end_exclusive p i"
proof -
  let ?E = "expansion_numerator p" and ?D = "overhead_denominator p"
  have "tle_bin_id p i * ?D \<le> i * ?E" by (simp add: tle_bin_id_def)
  also have "\<dots> < (i + COUPLING_WINDOW) * ?E" using assms by (simp add: COUPLING_WINDOW_def params_ok_def)
  finally show ?thesis by (simp add: below_window_end_iff [OF assms])
qed

lemma window_end_mono:
  assumes "params_ok p" "i \<le> j"
  shows "window_end_exclusive p i \<le> window_end_exclusive p j"
proof -
  let ?D = "overhead_denominator p"
  have D: "0 < ?D" using assms(1) by (simp add: params_ok_def)
  have "(i + COUPLING_WINDOW) * expansion_numerator p \<le> (j + COUPLING_WINDOW) * expansion_numerator p"
    using assms(2) by (intro mult_le_mono1) simp
  also have "\<dots> \<le> window_end_exclusive p j * ?D"
    using nat_div_ceil_le_iff [OF D, of "(j + COUPLING_WINDOW) * expansion_numerator p" "window_end_exclusive p j"]
    by (simp add: window_end_nat)
  finally show ?thesis by (simp only: window_end_nat nat_div_ceil_le_iff [OF D])
qed

text \<open>Tail compression divides by at least one and at most two, so no window closes.\<close>

definition terminal_ok :: "nat option \<Rightarrow> bool" where
  "terminal_ok terminal \<longleftrightarrow> terminal \<noteq> Some 0"

lemma tail_factor_bounds:
  assumes "tail_compression_factor i terminal = Some (fnum, fden)" "terminal_ok terminal"
  shows "0 < fden" "fden \<le> fnum"
proof -
  obtain n where n: "terminal = Some n" "0 < n"
    using assms by (cases terminal) (auto simp: tail_compression_factor_def terminal_ok_def)
  define tail where "tail = min n COUPLING_WINDOW"
  have "0 < tail" using n(2) by (simp add: tail_def COUPLING_WINDOW_def)
  moreover have "(tail = 1 \<and> fnum = 2 \<and> fden = 1) \<or>
      (tail \<noteq> 1 \<and> fden = tail - 1 \<and> fnum = fden + (i - (n - tail)))"
    using assms(1) unfolding tail_compression_factor_def n(1) option.case Let_def tail_def [symmetric]
    by (auto split: if_splits)
  ultimately show "0 < fden" "fden \<le> fnum" by auto
qed

lemma div_ceil_shrinks:
  assumes "0 < fden" "fden \<le> fnum"
  shows "div_ceil (w * fden) fnum \<le> w" "0 < w \<Longrightarrow> 0 < div_ceil (w * fden) fnum"
proof -
  have "0 < fnum" using assms by simp
  then show "div_ceil (w * fden) fnum \<le> w" "0 < w \<Longrightarrow> 0 < div_ceil (w * fden) fnum"
    using assms by (simp_all add: div_ceil_nat nat_div_ceil_le_iff less_nat_div_ceil_iff)
qed

lemma window_width_bounds:
  assumes "params_ok p" "terminal_ok terminal"
  shows "0 < window_width p i terminal"
    "window_width p i terminal \<le> window_end_exclusive p i - tle_bin_id p i"
  using tle_below_window_end [OF assms(1), of i] tail_factor_bounds [OF _ assms(2), of i] div_ceil_shrinks
  by (auto simp: window_width_def Let_def split: option.split)

lemma window_end_terminal_le:
  assumes "params_ok p" "terminal_ok terminal"
  shows "window_end_exclusive_with_terminal p i terminal \<le> window_end_exclusive p i"
  using window_width_bounds(2) [OF assms, of i] tle_below_window_end [OF assms(1), of i]
  by (simp add: window_end_exclusive_with_terminal_def)

section \<open>Edges stay inside the window\<close>

lemma sample_loop_bounds: "k \<le> sample_loop n l s k \<and> sample_loop n l s k \<le> k + n"
proof (induction n arbitrary: s k)
  case 0
  then show ?case by (simp add: sample_loop.simps)
next
  case (Suc n)
  obtain v s' where v: "next_entropy s = (v, s')" by fastforce
  show ?case using Suc [where s = s' and k = k] Suc [where s = s' and k = "k + 1"]
    by (simp add: sample_loop.simps [of "Suc n"] v)
qed

text \<open>One failed draw keeps the count of successes below the number of trials.\<close>

lemma sample_less_trials:
  assumes "fst (next_entropy s) AND ucast (d - 1) \<noteq> 0" "0 < n"
  shows "sample_power_of_two_binomial n d s < n"
proof -
  obtain v s' where v: "next_entropy s = (v, s')" by fastforce
  have "sample_power_of_two_binomial n d s = sample_loop (n - 1) (ucast (d - 1)) s' 0"
    using assms by (simp add: sample_power_of_two_binomial_def sample_loop.simps [of n] v)
  then show ?thesis using sample_loop_bounds [of 0 "n - 1" "ucast (d - 1)" s'] assms(2) by simp
qed

lemma sample_le_trials: "sample_power_of_two_binomial n d s \<le> n"
  using sample_loop_bounds [of 0 n] by (simp add: sample_power_of_two_binomial_def)

lemma window_end_terminal_pos:
  assumes "params_ok p" "terminal_ok terminal"
  shows "tle_bin_id p i < window_end_exclusive_with_terminal p i terminal"
  using window_width_bounds(1) [OF assms, of i] by (simp add: window_end_exclusive_with_terminal_def)

lemma edge_for_eta_in_window:
  assumes "params_ok p" "terminal_ok terminal" "eta \<le> non_tle_trials p i terminal"
  shows "source_window_contains_bin p i (non_tle_edge_bin_id_for_eta p i eta terminal) terminal"
  using window_end_terminal_pos [OF assms(1,2), of i] assms(3)
  by (auto simp: source_window_contains_bin_def non_tle_edge_bin_id_for_eta_def Let_def)

lemma edge_in_window:
  assumes "params_ok p" "terminal_ok terminal" "b \<in> set (edge_bin_ids p i seed terminal)"
  shows "source_window_contains_bin p i b terminal"
  using assms(3) window_end_terminal_pos [OF assms(1,2), of i]
  by (auto simp: edge_bin_ids_def non_tle_edge_bin_id_for_profile_index_def non_tle_edge_bin_id_def
      Let_def source_window_contains_bin_def [of p i "tle_bin_id p i"]
      intro!: edge_for_eta_in_window assms(1,2) sample_le_trials)

lemma length_edge_bin_ids: "length (edge_bin_ids p i seed terminal) = EDGE_COUNT"
  by (simp add: edge_bin_ids_def NON_TLE_PROFILE_def EDGE_COUNT_def)

lemma tle_in_edges [simp]: "tle_bin_id p i \<in> set (edge_bin_ids p i seed terminal)"
  by (simp add: edge_bin_ids_def)

lemma edge_ge_tle:
  "params_ok p \<Longrightarrow> terminal_ok terminal \<Longrightarrow> b \<in> set (edge_bin_ids p i seed terminal) \<Longrightarrow> tle_bin_id p i \<le> b"
  using edge_in_window by (simp add: source_window_contains_bin_def)

section \<open>The candidate sources of a bin\<close>

lemma window_reaches_back:
  assumes ok: "params_ok p" "terminal_ok terminal"
    and i: "source_window_contains_bin p i b terminal" and j: "tle_bin_id p j \<le> b"
  shows "j \<le> i + COUPLING_WINDOW"
proof -
  let ?E = "expansion_numerator p" and ?D = "overhead_denominator p"
  have "b < window_end_exclusive p i"
    using i window_end_terminal_le [OF ok, of i] by (simp add: source_window_contains_bin_def)
  then have "b * ?D < (i + COUPLING_WINDOW) * ?E" by (simp add: below_window_end_iff [OF ok(1)])
  moreover have "j * ?E < (b + 1) * ?D" using j by (simp only: tle_le_iff [OF ok(1)])
  moreover have "?D \<le> ?E" using ok(1) by (simp add: params_ok_def)
  ultimately have "j * ?E < (i + COUPLING_WINDOW + 1) * ?E" by (simp add: algebra_simps)
  then have "j < i + COUPLING_WINDOW + 1" by (simp only: mult_less_cancel2)
  then show ?thesis by simp
qed

lemma filter_upt_widen:
  assumes "\<And>i. i \<in> {a ..< c} \<Longrightarrow> P i \<Longrightarrow> i \<in> {b ..< d}" "\<And>i. i \<in> {b ..< d} \<Longrightarrow> P i \<Longrightarrow> i \<in> {a ..< c}"
  shows "filter P [a ..< c] = filter P [b ..< d]"
proof (rule sorted_distinct_set_unique)
  show "set (filter P [a ..< c]) = set (filter P [b ..< d])"
    unfolding set_filter set_upt using assms by blast
qed (simp_all add: sorted_wrt_filter)

text \<open>The reference: every source of a window that holds the bin, over the whole stream.\<close>

definition touching_sources :: "MettleParams \<Rightarrow> nat \<Rightarrow> nat \<Rightarrow> nat list" where
  "touching_sources p b n =
     filter (\<lambda>i. tle_bin_id p i \<le> b \<and> b < window_end_exclusive_with_terminal p i (Some n)) [0 ..< n]"

definition brute_force_possible_source_id_range :: "MettleParams \<Rightarrow> nat \<Rightarrow> nat \<Rightarrow> (nat \<times> nat) option" where
  "brute_force_possible_source_id_range p b n =
     (let touching = touching_sources p b n
      in if touching = [] then None else Some (hd touching, last touching))"

text \<open>C12. The candidates of a bin: for every bin id of the accepted range and every terminated
  stream, the range of sources found by inverting the top-left edge and scanning back one
  coupling window is the range of all sources whose compressed window holds the bin.\<close>

theorem possible_range_is_brute_force:
  assumes "params_ok p" "latest_source_id_for_bin p b \<noteq> None"
  shows "possible_source_id_range_for_bin p b (Some n) = brute_force_possible_source_id_range p b n"
proof (cases "n = 0")
  case True
  then show ?thesis using assms(2)
    by (auto simp: possible_source_id_range_for_bin_def brute_force_possible_source_id_range_def
        touching_sources_def)
next
  case False
  then have ok: "terminal_ok (Some n)" by (simp add: terminal_ok_def)
  obtain q where q: "latest_source_id_for_bin p b = Some q" using assms(2) by auto
  let ?l = "min q (n - 1)" and ?P = "\<lambda>i. source_window_contains_bin p i b (Some n)"
  have "filter ?P [?l - COUPLING_WINDOW ..< ?l + 1] = filter ?P [0 ..< n]"
  proof (rule filter_upt_widen)
    fix i assume "i \<in> {?l - COUPLING_WINDOW ..< ?l + 1}"
    then show "i \<in> {0 ..< n}" using False by auto
  next
    fix i assume i: "i \<in> {0 ..< n}" "?P i"
    then have "i \<le> q" using latest_source_le_iff [OF assms(1) q, of i]
      by (simp add: source_window_contains_bin_def)
    moreover have "tle_bin_id p ?l \<le> b" using latest_source_le_iff [OF assms(1) q, of ?l] by simp
    then have "?l \<le> i + COUPLING_WINDOW" using window_reaches_back [OF assms(1) ok i(2)] by simp
    ultimately show "i \<in> {?l - COUPLING_WINDOW ..< ?l + 1}" using i(1) by auto
  qed
  moreover have "touching_sources p b n = filter ?P [0 ..< n]"
    by (simp add: touching_sources_def source_window_contains_bin_def)
  ultimately show ?thesis
    using False q unfolding possible_source_id_range_for_bin_def brute_force_possible_source_id_range_def Let_def
    by (simp del: upt_Suc)
qed

text \<open>Bin 1 of a stream of three sources with an overhead of one twentieth.\<close>

theorem possible_range_is_brute_force_witness:
  "possible_source_id_range_for_bin \<lparr>mp_overhead = \<lparr>or_numerator = 1, or_denominator = 20\<rparr>\<rparr> 1 (Some 3) =
    brute_force_possible_source_id_range \<lparr>mp_overhead = \<lparr>or_numerator = 1, or_denominator = 20\<rparr>\<rparr> 1 3"
  by (rule possible_range_is_brute_force)
    (simp_all add: params_ok_def latest_source_id_for_bin_def expansion_numerator_def overhead_denominator_def Let_def)

section \<open>The end of a terminated stream\<close>

lemma fold_max_ge: "(x :: nat) \<le> fold (\<lambda>i. max (f i)) xs x"
  by (induction xs arbitrary: x) (auto intro: order_trans [OF max.cobounded2])

lemma fold_max_ge_each: "i \<in> set xs \<Longrightarrow> (f i :: nat) \<le> fold (\<lambda>i. max (f i)) xs x"
proof (induction xs arbitrary: x)
  case (Cons a xs)
  then show ?case using fold_max_ge [of "max (f a) x" f xs] by auto
qed simp

lemma fold_max_attained: "fold (\<lambda>i. max (f i)) xs (x :: nat) \<in> insert x (f ` set xs)"
proof (induction xs arbitrary: x)
  case (Cons a xs)
  then show ?case using Cons [of "max (f a) x"] by (auto simp: max_def split: if_splits)
qed simp

lemma untailed_window_end:
  assumes "i < n - min n COUPLING_WINDOW"
  shows "window_end_exclusive_with_terminal p i (Some n) = window_end_exclusive_with_terminal p i None"
proof -
  have "tail_compression_factor i (Some n) = None"
    using assms unfolding tail_compression_factor_def Let_def option.case by (rule if_P)
  then show ?thesis
    by (simp add: window_end_exclusive_with_terminal_def window_width_def)
      (simp add: tail_compression_factor_def)
qed

lemma window_end_unterminated:
  "params_ok p \<Longrightarrow> window_end_exclusive_with_terminal p i None = window_end_exclusive p i"
  using tle_below_window_end [of p i]
  by (simp add: window_end_exclusive_with_terminal_def window_width_def tail_compression_factor_def Let_def)

lemma terminal_end_ge_window:
  assumes "params_ok p" "i < n"
  shows "window_end_exclusive_with_terminal p i (Some n) \<le> terminal_departure_end_exclusive p n"
proof (cases "i < n - min n COUPLING_WINDOW")
  case True
  then have "window_end_exclusive_with_terminal p i (Some n) \<le> window_end_exclusive p (n - min n COUPLING_WINDOW - 1)"
    using untailed_window_end [OF True, of p] window_end_unterminated [OF assms(1), of i]
    by (simp add: window_end_mono [OF assms(1)])
  also have "\<dots> \<le> terminal_departure_end_exclusive p n"
    using True fold_max_ge [of "window_end_exclusive p (n - min n COUPLING_WINDOW - 1)"]
    by (auto simp: terminal_departure_end_exclusive_def Let_def)
  finally show ?thesis .
next
  case False
  then show ?thesis using assms(2)
    by (auto simp: terminal_departure_end_exclusive_def Let_def intro!: fold_max_ge_each)
qed

lemma edge_below_terminal_end:
  assumes "params_ok p" "i < n" "b \<in> set (edge_bin_ids p i seed (Some n))"
  shows "b < terminal_departure_end_exclusive p n"
proof -
  have "terminal_ok (Some n)" using assms(2) by (simp add: terminal_ok_def)
  then have "b < window_end_exclusive_with_terminal p i (Some n)"
    using edge_in_window [OF assms(1) _ assms(3)] by (simp add: source_window_contains_bin_def)
  then show ?thesis using terminal_end_ge_window [OF assms(1,2)] by (rule less_le_trans)
qed

text \<open>Compression at most halves a window, so the stream ends after its last top-left edge.\<close>

lemma tail_factor_at_most_two:
  assumes "tail_compression_factor i (Some n) = Some (fnum, fden)" "i < n"
  shows "fnum \<le> 2 * fden"
proof -
  define tail where "tail = min n COUPLING_WINDOW"
  have "(tail = 1 \<and> fnum = 2 \<and> fden = 1) \<or>
      (tail \<noteq> 1 \<and> fden = tail - 1 \<and> fnum = fden + (i - (n - tail)))"
    using assms(1) unfolding tail_compression_factor_def option.case Let_def tail_def [symmetric]
    by (auto split: if_splits)
  moreover have "i - (n - tail) \<le> tail - 1" using assms(2) by (simp add: tail_def)
  ultimately show ?thesis by auto
qed

lemma window_width_half:
  assumes "params_ok p" "i < n"
  shows "window_end_exclusive p i - tle_bin_id p i \<le> 2 * window_width p i (Some n)"
proof (cases "tail_compression_factor i (Some n)")
  case None
  then show ?thesis by (simp add: window_width_def)
next
  case (Some fac)
  obtain fnum fden where fac: "fac = (fnum, fden)" by fastforce
  let ?w = "window_end_exclusive p i - tle_bin_id p i"
  have t: "terminal_ok (Some n)" using assms(2) by (simp add: terminal_ok_def)
  note b = tail_factor_bounds [OF Some [unfolded fac] t] tail_factor_at_most_two [OF Some [unfolded fac] assms(2)]
  let ?x = "div_ceil (?w * fden) fnum"
  have "?w * fden \<le> ?x * fnum"
    using b nat_div_ceil_le_iff [of fnum "?w * fden" ?x] by (simp add: div_ceil_nat)
  also have "\<dots> \<le> ?x * (2 * fden)" using b by (intro mult_le_mono2)
  finally have "?w * fden \<le> (2 * ?x) * fden" by (simp add: mult.commute mult.left_commute)
  then have "?w \<le> 2 * ?x" using b(1) by simp
  then show ?thesis using Some fac by (simp add: window_width_def Let_def)
qed

lemma window_span:
  assumes "params_ok p"
  shows "COUPLING_WINDOW * expansion_numerator p
    \<le> (window_end_exclusive p i - tle_bin_id p i) * overhead_denominator p"
proof -
  let ?E = "expansion_numerator p" and ?D = "overhead_denominator p"
  have D: "0 < ?D" using assms by (simp add: params_ok_def)
  have "(i + COUPLING_WINDOW) * ?E \<le> window_end_exclusive p i * ?D"
    using nat_div_ceil_le_iff [OF D, of "(i + COUPLING_WINDOW) * ?E" "window_end_exclusive p i"]
    by (simp add: window_end_nat)
  moreover have "tle_bin_id p i * ?D \<le> i * ?E" by (simp add: tle_bin_id_def)
  ultimately show ?thesis by (simp add: diff_mult_distrib algebra_simps)
qed

lemma tle_le_terminal_end:
  assumes "params_ok p"
  shows "tle_bin_id p n \<le> terminal_departure_end_exclusive p n"
proof (cases n)
  case 0
  then show ?thesis by (simp add: tle_bin_id_def)
next
  case (Suc i)
  let ?E = "expansion_numerator p" and ?D = "overhead_denominator p" and ?w = "window_width p i (Some n)"
  have "COUPLING_WINDOW * ?E \<le> (2 * ?w) * ?D"
    using window_span [OF assms, of i] mult_le_mono1 [OF window_width_half [OF assms, of i n], of ?D] Suc
    by linarith
  then have "?E \<le> ?w * ?D" unfolding COUPLING_WINDOW_def by linarith
  moreover have "i * ?E < (tle_bin_id p i + 1) * ?D"
    using tle_le_iff [OF assms, of i "tle_bin_id p i"] by simp
  ultimately have "n * ?E < (tle_bin_id p i + ?w + 1) * ?D" by (simp add: Suc algebra_simps)
  then have "tle_bin_id p n \<le> tle_bin_id p i + ?w" by (simp only: tle_le_iff [OF assms])
  also have "\<dots> \<le> terminal_departure_end_exclusive p n"
    using terminal_end_ge_window [OF assms, of i n] Suc by (simp add: window_end_exclusive_with_terminal_def)
  finally show ?thesis .
qed

text \<open>A compressed window keeps at least half of the nominal trials, and an edge whose first draw
  fails lies after the top-left bin.\<close>

lemma window_width_large:
  assumes "params_ok p" "i < n"
  shows "1 < window_width p i (Some n)"
proof -
  let ?E = "expansion_numerator p" and ?D = "overhead_denominator p" and ?w = "window_width p i (Some n)"
  have "COUPLING_WINDOW * ?E \<le> (2 * ?w) * ?D"
    using window_span [OF assms(1), of i] mult_le_mono1 [OF window_width_half [OF assms], of ?D] by linarith
  then have "300 * ?E \<le> ?w * ?D" unfolding COUPLING_WINDOW_def by linarith
  moreover have "?D < ?E" "0 < ?D" using assms(1) by (simp_all add: params_ok_def)
  ultimately have "1 * ?D < ?w * ?D" by linarith
  then show ?thesis by (simp only: mult_less_cancel2)
qed

lemma non_tle_trials_pos:
  assumes "params_ok p" "terminal_ok t"
  shows "0 < non_tle_trials p i t"
proof -
  have "0 < nominal_non_tle_trials p"
    using assms(1) by (simp add: nominal_non_tle_trials_def params_ok_def div_greater_zero_iff COUPLING_WINDOW_def)
  then show ?thesis
    using tail_factor_bounds [OF _ assms(2), of i] div_ceil_shrinks(2)
    by (auto simp: non_tle_trials_def Let_def split: option.split)
qed

lemma edge_after_tle:
  assumes "params_ok p" "i < n" "fst (next_entropy (mix_entropy seed (word_of_nat i) e)) AND ucast (d - 1) \<noteq> 0"
  shows "tle_bin_id p i \<noteq> non_tle_edge_bin_id p i seed e d (Some n)"
proof -
  have t: "terminal_ok (Some n)" using assms(2) by (simp add: terminal_ok_def)
  show ?thesis
    using sample_less_trials [OF assms(3) non_tle_trials_pos [OF assms(1) t, of i]] window_width_large [OF assms(1,2)]
    by (simp add: non_tle_edge_bin_id_def non_tle_edge_bin_id_for_eta_def window_end_exclusive_with_terminal_def Let_def)
qed

end
