(* ===== verification/Mettle_Encoder.thy ===== *)
theory Mettle_Encoder
  imports Mettle_Params
begin

text \<open>
  The Mettle encoder (\<open>src/mettle/src/encoder.rs\<close>): every source is XORed into the bins of
  its four edges, bins leave in order once no later source can touch them, and \<open>finish\<close>
  releases the rest.  The \<open>BTreeMap\<close> of open bins is an association list with increasing
  keys.  The second part says what a payload combines: \<open>mixes\<close> reads a payload bit by bit as
  the parity of the sources that were XORed into it, each with its multiplicity.
\<close>

section \<open>Payloads\<close>

definition xor_payload :: "bytes \<Rightarrow> bytes \<Rightarrow> bytes" where
  "xor_payload dst src =
     map (\<lambda>(dst_byte, src_byte). dst_byte XOR src_byte) (zip dst src) @ drop (length src) dst"

definition padded_payload :: "nat \<Rightarrow> bytes \<Rightarrow> bytes" where
  "padded_payload n payload = put 0 payload (replicate n 0)"

section \<open>The encoder\<close>

record MettleBin =
  mb_bin_id :: nat
  mb_payload :: bytes

record MettleEncoder =
  me_params :: MettleParams
  me_source_symbol_bytes :: nat
  me_next_source_id :: nat
  me_next_departure_bin_id :: nat
  me_seed :: u64
  me_terminal_source_count :: "nat option"
  me_open_bins :: "(nat \<times> bytes) list"

definition encoder_new :: "MettleParams \<Rightarrow> nat \<Rightarrow> u64 \<Rightarrow> nat option \<Rightarrow> MettleEncoder" where
  "encoder_new params source_symbol_bytes seed terminal =
     \<lparr>me_params = params, me_source_symbol_bytes = source_symbol_bytes, me_next_source_id = 0,
      me_next_departure_bin_id = 0, me_seed = seed, me_terminal_source_count = terminal,
      me_open_bins = []\<rparr>"

definition encoder_edge_bin_ids :: "MettleEncoder \<Rightarrow> nat \<Rightarrow> nat list" where
  "encoder_edge_bin_ids e source_id =
     edge_bin_ids (me_params e) source_id (me_seed e) (me_terminal_source_count e)"

definition xor_open_bin :: "nat \<Rightarrow> bytes \<Rightarrow> nat \<Rightarrow> (nat \<times> bytes) list \<Rightarrow> (nat \<times> bytes) list" where
  "xor_open_bin n padded bin_id open_bins =
     (let entry = (case map_of open_bins bin_id of None \<Rightarrow> replicate n 0 | Some entry \<Rightarrow> entry)
      in btree_insert bin_id (xor_payload entry padded) open_bins)"

text \<open>The departure loop: the finalized bins are consumed in step with the bin ids.\<close>

fun emit_bins :: "nat \<Rightarrow> nat list \<Rightarrow> (nat \<times> bytes) list \<Rightarrow> MettleBin list" where
  "emit_bins n [] finalized = []"
| "emit_bins n (bin_id # bin_ids) finalized =
     (case finalized of
        (finalized_bin_id, payload) # rest \<Rightarrow>
          if finalized_bin_id = bin_id
          then \<lparr>mb_bin_id = bin_id, mb_payload = payload\<rparr> # emit_bins n bin_ids rest
          else \<lparr>mb_bin_id = bin_id, mb_payload = replicate n 0\<rparr> # emit_bins n bin_ids finalized
      | [] \<Rightarrow> \<lparr>mb_bin_id = bin_id, mb_payload = replicate n 0\<rparr> # emit_bins n bin_ids [])"

definition take_finalized_bins_until :: "nat \<Rightarrow> MettleEncoder \<Rightarrow> MettleBin list \<times> MettleEncoder" where
  "take_finalized_bins_until end_exclusive e =
     (let future_bins = filter (\<lambda>(bin_id, _). end_exclusive \<le> bin_id) (me_open_bins e);
          finalized = filter (\<lambda>(bin_id, _). bin_id < end_exclusive) (me_open_bins e)
      in (emit_bins (me_source_symbol_bytes e) [me_next_departure_bin_id e ..< end_exclusive] finalized,
          e\<lparr>me_open_bins := future_bins, me_next_departure_bin_id := end_exclusive\<rparr>))"

definition push_source :: "bytes \<Rightarrow> MettleEncoder \<Rightarrow> (MettleBin list \<times> MettleEncoder) may_panic" where
  "push_source payload e =
     (if \<not> length payload \<le> me_source_symbol_bytes e then None
      else if (case me_terminal_source_count e of
                 None \<Rightarrow> False | Some source_count \<Rightarrow> \<not> me_next_source_id e < source_count) then None
      else
        let padded = padded_payload (me_source_symbol_bytes e) payload;
            e = e\<lparr>me_open_bins := fold (xor_open_bin (me_source_symbol_bytes e) padded)
                   (encoder_edge_bin_ids e (me_next_source_id e)) (me_open_bins e)\<rparr>;
            e = e\<lparr>me_next_source_id := me_next_source_id e + 1\<rparr>
        in Some (take_finalized_bins_until
             (departure_frontier_after_source_count (me_params e) (me_next_source_id e)) e))"

definition flush_open_bins :: "MettleEncoder \<Rightarrow> MettleBin list" where
  "flush_open_bins e =
     map (\<lambda>(bin_id, payload). \<lparr>mb_bin_id = bin_id, mb_payload = payload\<rparr>) (me_open_bins e)"

definition finish_encoder :: "MettleEncoder \<Rightarrow> MettleBin list" where
  "finish_encoder e =
     (case me_terminal_source_count e of
        Some source_count \<Rightarrow>
          fst (take_finalized_bins_until (terminal_departure_end_exclusive (me_params e) source_count) e)
      | None \<Rightarrow> flush_open_bins e)"

text \<open>The loop of the validation harness: every source is pushed, then the stream is finished.\<close>

fun push_sources :: "bytes list \<Rightarrow> MettleEncoder \<Rightarrow> (MettleBin list \<times> MettleEncoder) may_panic" where
  "push_sources [] e = Some ([], e)"
| "push_sources (source # sources) e =
     (case push_source source e of
        None \<Rightarrow> None
      | Some (bins, e) \<Rightarrow>
          (case push_sources sources e of
             None \<Rightarrow> None
           | Some (later, e) \<Rightarrow> Some (bins @ later, e)))"

definition encode_stream :: "MettleParams \<Rightarrow> nat \<Rightarrow> u64 \<Rightarrow> bytes list \<Rightarrow> MettleBin list may_panic" where
  "encode_stream params source_symbol_bytes seed sources =
     (case push_sources sources (encoder_new params source_symbol_bytes seed (Some (length sources))) of
        None \<Rightarrow> None
      | Some (bins, e) \<Rightarrow> Some (bins @ finish_encoder e))"

section \<open>What a payload combines\<close>

definition mixes :: "nat \<Rightarrow> nat \<Rightarrow> (nat \<Rightarrow> bytes) \<Rightarrow> (nat \<Rightarrow> nat) \<Rightarrow> bytes \<Rightarrow> bool" where
  "mixes L N f w xs \<longleftrightarrow> length xs = L \<and>
     (\<forall>k<L. \<forall>i. bit (xs ! k) i = odd (\<Sum>j<N. w j * of_bool (bit (f j ! k) i)))"

lemma length_xor_payload [simp]: "length (xor_payload x y) = length x"
  by (simp add: xor_payload_def)

lemma nth_xor_payload:
  "length x = length y \<Longrightarrow> k < length x \<Longrightarrow> xor_payload x y ! k = x ! k XOR y ! k"
  by (simp add: xor_payload_def)

lemma length_padded [simp]: "length xs \<le> n \<Longrightarrow> length (padded_payload n xs) = n"
  by (simp add: padded_payload_def)

lemma mixes_length: "mixes L N f w x \<Longrightarrow> length x = L"
  by (simp add: mixes_def)

lemma mixes_none: "(\<And>j. j < N \<Longrightarrow> even (w j)) \<Longrightarrow> mixes L N f w (replicate L 0)"
  by (simp add: mixes_def) (auto intro!: dvd_sum)

lemma mixes_xor:
  assumes "mixes L N f w x" "mixes L N f w' y"
  shows "mixes L N f (\<lambda>j. w j + w' j) (xor_payload x y)"
proof -
  have "length x = L" "length y = L" using assms by (simp_all add: mixes_def)
  then show ?thesis using assms
    by (auto simp: mixes_def nth_xor_payload bit_xor_iff add_mult_distrib sum.distrib)
qed

lemma mixes_parity:
  assumes "mixes L N f w x" "\<And>j. j < N \<Longrightarrow> even (w j) \<longleftrightarrow> even (w' j)"
  shows "mixes L N f w' x"
proof -
  have "odd (\<Sum>j<N. w j * of_bool (P j)) \<longleftrightarrow> odd (\<Sum>j<N. w' j * of_bool (P j))" for P
  proof -
    have "even (\<Sum>j<N. w j * of_bool (P j) + w' j * of_bool (P j))"
      using assms(2) by (intro dvd_sum) (auto simp: add_mult_distrib [symmetric])
    then show ?thesis by (auto simp: sum.distrib)
  qed
  then show ?thesis using assms(1) by (simp add: mixes_def)
qed

lemma mixes_single:
  assumes "j < N" "length (f j) = L"
  shows "mixes L N f (\<lambda>i. of_bool (i = j)) (f j)"
  using assms by (simp add: mixes_def of_bool_def if_distrib [where f = "\<lambda>x. x * _"] cong: if_cong)

lemma mixes_unique:
  assumes "mixes L N f w x" "mixes L N f w y"
  shows "x = y"
proof (rule nth_equalityI)
  show "length x = length y" using assms by (simp add: mixes_def)
  show "x ! k = y ! k" if "k < length x" for k
    using assms that by (intro bit_eqI) (simp add: mixes_def)
qed

text \<open>A payload into which a single source is XORed an odd number of times is that source.\<close>

lemma mixes_decodes:
  assumes "mixes L N f w x" "j < N" "length (f j) = L"
    and "\<And>i. i < N \<Longrightarrow> odd (w i) \<longleftrightarrow> i = j"
  shows "x = f j"
proof (rule mixes_unique)
  show "mixes L N f (\<lambda>i. of_bool (i = j)) x" using assms(4) by (intro mixes_parity [OF assms(1)]) auto
  show "mixes L N f (\<lambda>i. of_bool (i = j)) (f j)" by (rule mixes_single [where j = j and f = f, OF assms(2,3)])
qed

text \<open>The reference payload of a bin: every source XORed in once per edge that reaches the bin.\<close>

definition combined_payload :: "nat \<Rightarrow> nat \<Rightarrow> (nat \<Rightarrow> bytes) \<Rightarrow> (nat \<Rightarrow> nat) \<Rightarrow> bytes" where
  "combined_payload L N f w =
     foldr (\<lambda>j acc. (xor_payload (f j) ^^ w j) acc) [0 ..< N] (replicate L 0)"

lemma mixes_funpow:
  assumes "mixes L N f w x" "j < N" "length (f j) = L"
  shows "mixes L N f (\<lambda>i. w i + (if i = j then n else 0)) ((xor_payload (f j) ^^ n) x)"
proof (induction n)
  case 0
  then show ?case using assms(1) by simp
next
  case (Suc n)
  have "mixes L N f (\<lambda>i. of_bool (i = j) + (w i + (if i = j then n else 0)))
      (xor_payload (f j) ((xor_payload (f j) ^^ n) x))"
    by (rule mixes_xor [OF mixes_single [where j = j and f = f, OF assms(2,3)] Suc.IH])
  then show ?case by (auto elim!: mixes_parity)
qed

lemma mixes_combined:
  assumes "\<And>j. j < N \<Longrightarrow> length (f j) = L"
  shows "mixes L N f w (combined_payload L N f w)"
proof -
  have "mixes L N f (\<lambda>j. if j \<in> set xs then w j else 0)
      (foldr (\<lambda>j. xor_payload (f j) ^^ w j) xs (replicate L 0))"
    if "distinct xs" "set xs \<subseteq> {..<N}" for xs
    using that
  proof (induction xs)
    case Nil
    then show ?case by (simp add: mixes_none)
  next
    case (Cons a xs)
    let ?rest = "foldr (\<lambda>j. xor_payload (f j) ^^ w j) xs (replicate L 0)"
    have "mixes L N f (\<lambda>j. (if j \<in> set xs then w j else 0) + (if j = a then w a else 0))
        ((xor_payload (f a) ^^ w a) ?rest)"
      using Cons assms by (intro mixes_funpow) auto
    then show ?case using Cons.prems(1)
      by (auto elim!: mixes_parity split: if_splits)
  qed
  from this [of "[0 ..< N]"] have "mixes L N f (\<lambda>j. if j \<in> set [0 ..< N] then w j else 0) (combined_payload L N f w)"
    by (simp add: combined_payload_def lessThan_atLeast0)
  then show ?thesis by (rule mixes_parity) simp
qed

section \<open>Departures\<close>

lemma emit_bins_sorted:
  assumes "btree_wf fin" "fst ` set fin \<subseteq> {a ..< e}"
  shows "emit_bins n [a ..< e] fin =
    map (\<lambda>b. \<lparr>mb_bin_id = b, mb_payload = (case map_of fin b of None \<Rightarrow> replicate n 0 | Some x \<Rightarrow> x)\<rparr>) [a ..< e]"
  using assms
proof (induction "e - a" arbitrary: a fin)
  case 0
  then show ?case by simp
next
  case (Suc d)
  then have e: "[a ..< e] = a # [Suc a ..< e]" by (simp add: upt_conv_Cons)
  have d: "d = e - Suc a" using Suc.hyps(2) by simp
  show ?case
  proof (cases fin)
    case Nil
    then show ?thesis using Suc.hyps(1) [OF d, of "[]"] by (simp add: e btree_wf_def)
  next
    case (Cons kv rest)
    obtain k v where kv: "kv = (k, v)" by fastforce
    have rest: "btree_wf rest" "\<And>x. x \<in> fst ` set rest \<Longrightarrow> k < x"
      using Suc.prems(1) by (auto simp: Cons kv btree_wf_def)
    have k: "a \<le> k" "k < e" using Suc.prems(2) by (auto simp: Cons kv)
    have sub: "fst ` set rest \<subseteq> {Suc a ..< e}"
      using rest(2) k Suc.prems(2) by (fastforce simp: Cons kv)
    show ?thesis
    proof (cases "k = a")
      case True
      have "emit_bins n [Suc a ..< e] rest = map (\<lambda>b. \<lparr>mb_bin_id = b, mb_payload =
          (case map_of rest b of None \<Rightarrow> replicate n 0 | Some x \<Rightarrow> x)\<rparr>) [Suc a ..< e]"
        using Suc.hyps(1) [OF d rest(1) sub] .
      then show ?thesis by (simp add: e Cons kv True)
    next
      case False
      have "fst ` set fin \<subseteq> {Suc a ..< e}" using sub k False by (auto simp: Cons kv)
      then have "emit_bins n [Suc a ..< e] fin = map (\<lambda>b. \<lparr>mb_bin_id = b, mb_payload =
          (case map_of fin b of None \<Rightarrow> replicate n 0 | Some x \<Rightarrow> x)\<rparr>) [Suc a ..< e]"
        using Suc.hyps(1) [OF d Suc.prems(1)] by simp
      moreover have "map_of fin a = None" using rest(2) k False by (force simp: Cons kv map_of_eq_None_iff)
      ultimately show ?thesis using False by (simp add: e Cons kv)
    qed
  qed
qed

definition bin_or_zero :: "nat \<Rightarrow> (nat \<times> bytes) list \<Rightarrow> nat \<Rightarrow> bytes" where
  "bin_or_zero n m b = (case map_of m b of None \<Rightarrow> replicate n 0 | Some x \<Rightarrow> x)"

lemma xor_open_bin_lookup:
  "btree_wf m \<Longrightarrow> bin_or_zero n (xor_open_bin n x b m) b' =
    (if b' = b then xor_payload (bin_or_zero n m b) x else bin_or_zero n m b')"
  by (simp add: bin_or_zero_def xor_open_bin_def Let_def)

lemma xor_open_bin_wf: "btree_wf m \<Longrightarrow> btree_wf (xor_open_bin n x b m)"
  by (simp add: xor_open_bin_def Let_def btree_insert_wf)

lemma xor_open_bin_keys: "fst ` set (xor_open_bin n x b m) = insert b (fst ` set m)"
  by (simp add: xor_open_bin_def Let_def)

lemma fold_xor_open_bin:
  assumes "btree_wf m"
  shows "btree_wf (fold (xor_open_bin n x) bs m) \<and>
    fst ` set (fold (xor_open_bin n x) bs m) = set bs \<union> fst ` set m"
  using assms by (induction bs arbitrary: m) (auto simp: xor_open_bin_wf xor_open_bin_keys)

lemma fold_xor_open_bin_mixes:
  assumes "btree_wf m" "mixes L N f w (bin_or_zero L m b)" "j < N" "length (f j) = L"
  shows "mixes L N f (\<lambda>i. w i + (if i = j then count_list bs b else 0))
    (bin_or_zero L (fold (xor_open_bin L (f j)) bs m) b)"
  using assms(1,2)
proof (induction bs arbitrary: m w)
  case Nil
  show ?case by (rule mixes_parity [where w = w]) (simp_all add: Nil)
next
  case (Cons a bs)
  show ?case
  proof (cases "a = b")
    case True
    have "mixes L N f (\<lambda>i. w i + of_bool (i = j)) (bin_or_zero L (xor_open_bin L (f j) a m) b)"
      using mixes_xor [OF Cons.prems(2) mixes_single [where j = j and f = f, OF assms(3,4)]] Cons.prems(1)
      by (simp add: xor_open_bin_lookup True)
    from Cons.IH [OF xor_open_bin_wf [OF Cons.prems(1)] this] show ?thesis
      by (auto simp: True elim!: mixes_parity)
  next
    case False
    have "mixes L N f w (bin_or_zero L (xor_open_bin L (f j) a m) b)"
      using Cons.prems False by (simp add: xor_open_bin_lookup)
    from Cons.IH [OF xor_open_bin_wf [OF Cons.prems(1)] this] show ?thesis
      using False by (auto elim!: mixes_parity split: if_splits)
  qed
qed

section \<open>The emitted stream\<close>

definition stream_bin :: "MettleParams \<Rightarrow> nat \<Rightarrow> u64 \<Rightarrow> nat \<Rightarrow> (nat \<Rightarrow> bytes) \<Rightarrow> nat \<Rightarrow> MettleBin" where
  "stream_bin p L seed n f b =
     \<lparr>mb_bin_id = b,
      mb_payload = combined_payload L n f (\<lambda>j. count_list (edge_bin_ids p j seed (Some n)) b)\<rparr>"

text \<open>The open bins when the first \<open>m\<close> sources are in and the bins below \<open>a\<close> have left.\<close>

definition open_bins_inv ::
    "MettleParams \<Rightarrow> nat \<Rightarrow> u64 \<Rightarrow> nat \<Rightarrow> (nat \<Rightarrow> bytes) \<Rightarrow> nat \<Rightarrow> nat \<Rightarrow> (nat \<times> bytes) list \<Rightarrow> bool" where
  "open_bins_inv p L seed n f a m bins \<longleftrightarrow> btree_wf bins \<and>
     (\<forall>b \<in> fst ` set bins. a \<le> b) \<and>
     (\<forall>b. a \<le> b \<longrightarrow>
        mixes L n f (\<lambda>j. if j < m then count_list (edge_bin_ids p j seed (Some n)) b else 0)
          (bin_or_zero L bins b))"

definition encoder_inv ::
    "MettleParams \<Rightarrow> nat \<Rightarrow> u64 \<Rightarrow> nat \<Rightarrow> (nat \<Rightarrow> bytes) \<Rightarrow> nat \<Rightarrow> MettleEncoder \<Rightarrow> bool" where
  "encoder_inv p L seed n f m e \<longleftrightarrow>
     me_params e = p \<and> me_source_symbol_bytes e = L \<and> me_seed e = seed \<and>
     me_terminal_source_count e = Some n \<and> me_next_source_id e = m \<and>
     me_next_departure_bin_id e = tle_bin_id p m \<and>
     open_bins_inv p L seed n f (tle_bin_id p m) m (me_open_bins e)"

lemma encoder_inv_new:
  "encoder_inv p L seed n f 0 (encoder_new p L seed (Some n))"
  by (simp add: encoder_inv_def open_bins_inv_def encoder_new_def tle_bin_id_def btree_wf_def
      bin_or_zero_def mixes_none)

lemma untouched_count:
  assumes "params_ok p" "terminal_ok t" "b < tle_bin_id p j"
  shows "count_list (edge_bin_ids p j seed t) b = 0"
  using edge_ge_tle [OF assms(1,2), of b j seed] assms(3) by (auto simp: count_list_0_iff not_le)

lemma take_finalized_stream:
  assumes inv: "open_bins_inv p L seed n f (me_next_departure_bin_id e) m (me_open_bins e)"
    and L: "me_source_symbol_bytes e = L"
    and len: "\<And>j. j < n \<Longrightarrow> length (f j) = L"
    and untouched: "\<And>b j. b < E \<Longrightarrow> m \<le> j \<Longrightarrow> j < n \<Longrightarrow>
      count_list (edge_bin_ids p j seed (Some n)) b = 0"
  shows "fst (take_finalized_bins_until E e) =
    map (stream_bin p L seed n f) [me_next_departure_bin_id e ..< E]"
proof -
  let ?a = "me_next_departure_bin_id e" and ?edges = "\<lambda>j. edge_bin_ids p j seed (Some n)"
  let ?fin = "filter (\<lambda>(b, _). b < E) (me_open_bins e)"
  have fin: "btree_wf ?fin" "fst ` set ?fin \<subseteq> {?a ..< E}"
    using inv by (auto simp: open_bins_inv_def btree_wf_filter)
  have "(case map_of ?fin b of None \<Rightarrow> replicate L 0 | Some x \<Rightarrow> x) =
      combined_payload L n f (\<lambda>j. count_list (?edges j) b)"
    if b: "?a \<le> b" "b < E" for b
  proof (rule mixes_unique)
    show "mixes L n f (\<lambda>j. count_list (?edges j) b) (combined_payload L n f (\<lambda>j. count_list (?edges j) b))"
      by (rule mixes_combined [OF len])
    have "mixes L n f (\<lambda>j. if j < m then count_list (?edges j) b else 0) (bin_or_zero L (me_open_bins e) b)"
      using inv b(1) by (simp add: open_bins_inv_def)
    then have "mixes L n f (\<lambda>j. count_list (?edges j) b) (bin_or_zero L (me_open_bins e) b)"
      by (rule mixes_parity) (simp add: untouched [OF b(2)])
    then show "mixes L n f (\<lambda>j. count_list (?edges j) b) (case map_of ?fin b of None \<Rightarrow> replicate L 0 | Some x \<Rightarrow> x)"
      using b(2) by (simp add: map_of_filter_key bin_or_zero_def)
  qed
  then show ?thesis using emit_bins_sorted [OF fin, of L]
    by (simp add: take_finalized_bins_until_def L stream_bin_def Let_def)
qed

lemma take_finalized_open:
  assumes "open_bins_inv p L seed n f a m (me_open_bins e)" "a \<le> E"
  shows "open_bins_inv p L seed n f E m (me_open_bins (snd (take_finalized_bins_until E e)))"
proof -
  have "bin_or_zero L (filter (\<lambda>(b, _). E \<le> b) (me_open_bins e)) b = bin_or_zero L (me_open_bins e) b"
    if "E \<le> b" for b
    using that by (simp add: bin_or_zero_def map_of_filter_key)
  then show ?thesis using assms
    by (auto simp: take_finalized_bins_until_def open_bins_inv_def btree_wf_filter Let_def)
qed

lemma push_open_bins:
  assumes inv: "open_bins_inv p L seed n f (tle_bin_id p m) m bins" and ok: "params_ok p" "m < n"
    and len: "length (f m) = L"
  shows "open_bins_inv p L seed n f (tle_bin_id p m) (m + 1)
    (fold (xor_open_bin L (f m)) (edge_bin_ids p m seed (Some n)) bins)"
proof -
  let ?edges = "\<lambda>j. edge_bin_ids p j seed (Some n)"
  let ?bins = "fold (xor_open_bin L (f m)) (?edges m) bins"
  have t: "terminal_ok (Some n)" using ok(2) by (simp add: terminal_ok_def)
  have wf: "btree_wf bins" using inv by (simp add: open_bins_inv_def)
  note bins = fold_xor_open_bin [OF wf, of L "f m" "?edges m"]
  have mix: "mixes L n f (\<lambda>j. if j < m + 1 then count_list (?edges j) b else 0) (bin_or_zero L ?bins b)"
    if "tle_bin_id p m \<le> b" for b
  proof -
    have "mixes L n f (\<lambda>j. if j < m then count_list (?edges j) b else 0) (bin_or_zero L bins b)"
      using inv that by (simp add: open_bins_inv_def)
    from fold_xor_open_bin_mixes [where j = m, OF wf this ok(2) len, of "?edges m"] show ?thesis
      by (rule mixes_parity) (auto simp: less_Suc_eq)
  qed
  have keys: "tle_bin_id p m \<le> b" if "b \<in> fst ` set ?bins" for b
    using that bins inv edge_ge_tle [OF ok(1) t, of b m seed] unfolding open_bins_inv_def by blast
  show ?thesis unfolding open_bins_inv_def using bins mix keys by blast
qed

lemma push_source_stream:
  assumes inv: "encoder_inv p L seed n f m e" and ok: "params_ok p" "m < n"
    and len: "\<And>j. j < n \<Longrightarrow> length (f j) = L"
    and payload: "length x \<le> L" "padded_payload L x = f m"
  shows "\<exists>e'. push_source x e = Some (map (stream_bin p L seed n f) [tle_bin_id p m ..< tle_bin_id p (m + 1)], e') \<and>
    encoder_inv p L seed n f (m + 1) e'"
proof -
  let ?bins = "fold (xor_open_bin L (f m)) (edge_bin_ids p m seed (Some n)) (me_open_bins e)"
  let ?F = "tle_bin_id p (m + 1)"
  define e1 where "e1 = e\<lparr>me_open_bins := ?bins, me_next_source_id := m + 1\<rparr>"
  have push: "push_source x e = Some (take_finalized_bins_until ?F e1)"
    using inv ok(2) payload
    by (simp add: push_source_def encoder_inv_def e1_def Let_def encoder_edge_bin_ids_def
        departure_frontier_after_source_count_def)
  have "open_bins_inv p L seed n f (tle_bin_id p m) (m + 1) ?bins"
    using inv by (intro push_open_bins ok len) (simp add: encoder_inv_def)
  then have e1: "open_bins_inv p L seed n f (me_next_departure_bin_id e1) (m + 1) (me_open_bins e1)"
    "me_source_symbol_bytes e1 = L" "me_next_departure_bin_id e1 = tle_bin_id p m"
    using inv by (simp_all add: e1_def encoder_inv_def)
  have t: "terminal_ok (Some n)" using ok(2) by (simp add: terminal_ok_def)
  have out: "fst (take_finalized_bins_until ?F e1) = map (stream_bin p L seed n f) [tle_bin_id p m ..< ?F]"
    unfolding e1(3) [symmetric]
  proof (rule take_finalized_stream [OF e1(1,2) len])
    fix b j assume "b < ?F" "m + 1 \<le> j"
    then have "b < tle_bin_id p j" using tle_le_mono [OF ok(1), of "m + 1" j] by linarith
    then show "count_list (edge_bin_ids p j seed (Some n)) b = 0" by (rule untouched_count [OF ok(1) t])
  qed simp
  have "open_bins_inv p L seed n f ?F (m + 1) (me_open_bins (snd (take_finalized_bins_until ?F e1)))"
    using e1 ok(1) by (intro take_finalized_open [where a = "tle_bin_id p m"]) simp_all
  then have "encoder_inv p L seed n f (m + 1) (snd (take_finalized_bins_until ?F e1))"
    using inv by (simp add: encoder_inv_def take_finalized_bins_until_def e1_def Let_def)
  then show ?thesis unfolding push by (metis out prod.collapse)
qed

lemma push_sources_stream:
  assumes "encoder_inv p L seed n f m e" "params_ok p" "m + length xs = n"
    and "\<And>j. j < n \<Longrightarrow> length (f j) = L"
    and "\<And>k. k < length xs \<Longrightarrow> length (xs ! k) \<le> L \<and> padded_payload L (xs ! k) = f (m + k)"
  shows "\<exists>e'. push_sources xs e = Some (map (stream_bin p L seed n f) [tle_bin_id p m ..< tle_bin_id p n], e') \<and>
    encoder_inv p L seed n f n e'"
  using assms(1,3,5)
proof (induction xs arbitrary: m e)
  case Nil
  then show ?case by simp
next
  case (Cons x xs)
  have "m < n" "length x \<le> L" "padded_payload L x = f m" using Cons.prems(2) Cons.prems(3) [of 0] by auto
  from push_source_stream [OF Cons.prems(1) assms(2) this(1) assms(4) this(2,3)] obtain e1 where
    e1: "push_source x e = Some (map (stream_bin p L seed n f) [tle_bin_id p m ..< tle_bin_id p (m + 1)], e1)"
      "encoder_inv p L seed n f (m + 1) e1" by blast
  have "length (xs ! k) \<le> L \<and> padded_payload L (xs ! k) = f (m + 1 + k)" if "k < length xs" for k
    using Cons.prems(3) [of "Suc k"] that by simp
  then obtain e2 where
    e2: "push_sources xs e1 = Some (map (stream_bin p L seed n f) [tle_bin_id p (m + 1) ..< tle_bin_id p n], e2)"
      "encoder_inv p L seed n f n e2"
    using Cons.IH [OF e1(2)] Cons.prems(2) by auto
  have "[tle_bin_id p m ..< tle_bin_id p n] =
      [tle_bin_id p m ..< tle_bin_id p (m + 1)] @ [tle_bin_id p (m + 1) ..< tle_bin_id p n]"
    using Cons.prems(2) assms(2) by (intro upt_split) simp_all
  then show ?case using e1(1) e2 by simp
qed

text \<open>What the encoder sends: over a terminated stream of sources that fit the symbol size,
  the encoder never panics and emits every bin from zero up to the end of the last window once,
  in order, and the payload of a bin is the XOR of the padded sources, each taken once per edge
  that reaches the bin.\<close>

lemma encode_stream_bins:
  assumes "params_ok p" "\<forall>x \<in> set sources. length x \<le> L"
  shows "encode_stream p L seed sources = Some (map
    (stream_bin p L seed (length sources) (\<lambda>j. padded_payload L (sources ! j)))
    [0 ..< terminal_departure_end_exclusive p (length sources)])"
proof -
  let ?n = "length sources" and ?f = "\<lambda>j. padded_payload L (sources ! j)"
  let ?e = "encoder_new p L seed (Some ?n)" and ?E = "terminal_departure_end_exclusive p ?n"
  have len: "length (?f j) = L" if "j < ?n" for j using assms(2) that by simp
  have fits: "length (sources ! k) \<le> L \<and> padded_payload L (sources ! k) = ?f (0 + k)" if "k < ?n" for k
    using assms(2) that by simp
  obtain e' where e': "push_sources sources ?e = Some (map (stream_bin p L seed ?n ?f) [tle_bin_id p 0 ..< tle_bin_id p ?n], e')"
      "encoder_inv p L seed ?n ?f ?n e'"
    using push_sources_stream [where m = 0 and f = ?f and xs = sources and n = ?n,
        OF encoder_inv_new assms(1) _ len fits] unfolding add_0 by blast
  have fin: "finish_encoder e' = map (stream_bin p L seed ?n ?f) [tle_bin_id p ?n ..< ?E]"
    using e'(2) take_finalized_stream [where e = e' and m = ?n and f = ?f and E = ?E, OF _ _ len]
    by (simp add: finish_encoder_def encoder_inv_def)
  have "[0 ..< ?E] = [0 ..< tle_bin_id p ?n] @ [tle_bin_id p ?n ..< ?E]"
    using tle_le_terminal_end [OF assms(1)] by (intro upt_split) simp_all
  then show ?thesis using e'(1) fin by (simp add: encode_stream_def tle_bin_id_def [of p 0])
qed

end
