(* ===== verification/Mettle_Decoder.thy ===== *)
theory Mettle_Decoder
  imports Mettle_Encoder
begin

text \<open>
  The Mettle decoder (\<open>src/mettle/src/decoder.rs\<close>): a bin whose sources are all decoded but
  one gives that source; a decoded source is peeled out of every buffered bin it touches; sources
  leave in order, so one decoded early waits in \<open>decoded_future_payloads\<close>.  The
  \<open>BTreeMap\<close>s are association lists with increasing keys, the \<open>HashMap\<close> is a map and the
  \<open>VecDeque\<close> of the last \<open>DECODED_PREFIX_WINDOW\<close> payloads is a list.  The loop over the
  decodable bins is a recursive function with its termination proof; taking a bin that is not
  buffered would be the panic of \<open>expect\<close>.
\<close>

section \<open>State\<close>

record DecodedSource =
  ds_source_id :: nat
  ds_payload :: bytes

record BufferedBin =
  bb_payload :: bytes
  bb_remaining_touchers :: nat

record MettleDecoder =
  md_params :: MettleParams
  md_source_symbol_bytes :: nat
  md_next_decoded_source_id :: nat
  md_seed :: u64
  md_terminal_source_count :: "nat option"
  md_decoded_prefix_start_source_id :: nat
  md_decoded_prefix_payloads :: "bytes list"
  md_decoded_future_payloads :: "(nat \<times> bytes) list"
  md_decoded_tle_prefix_xors :: "nat \<rightharpoonup> bytes"
  md_seen_bin_ids :: "nat set"
  md_received_bins :: "(nat \<times> BufferedBin) list"

definition DECODED_PREFIX_WINDOW :: nat where
  "DECODED_PREFIX_WINDOW = COUPLING_WINDOW + 1"

definition decoder_new :: "MettleParams \<Rightarrow> nat \<Rightarrow> u64 \<Rightarrow> nat option \<Rightarrow> MettleDecoder" where
  "decoder_new params source_symbol_bytes seed terminal =
     \<lparr>md_params = params, md_source_symbol_bytes = source_symbol_bytes, md_next_decoded_source_id = 0,
      md_seed = seed, md_terminal_source_count = terminal, md_decoded_prefix_start_source_id = 0,
      md_decoded_prefix_payloads = [], md_decoded_future_payloads = [],
      md_decoded_tle_prefix_xors = Map.empty, md_seen_bin_ids = {}, md_received_bins = []\<rparr>"

section \<open>Queries\<close>

definition decoder_edge_bin_ids :: "MettleDecoder \<Rightarrow> nat \<Rightarrow> nat list" where
  "decoder_edge_bin_ids d source_id =
     edge_bin_ids (md_params d) source_id (md_seed d) (md_terminal_source_count d)"

definition decoder_possible_range :: "MettleDecoder \<Rightarrow> nat \<Rightarrow> (nat \<times> nat) option" where
  "decoder_possible_range d bin_id =
     possible_source_id_range_for_bin (md_params d) bin_id (md_terminal_source_count d)"

definition tle_source_id_for_bin :: "MettleDecoder \<Rightarrow> nat \<Rightarrow> nat option" where
  "tle_source_id_for_bin d bin_id =
     (case latest_source_id_for_bin (md_params d) bin_id of
        None \<Rightarrow> None
      | Some source_id \<Rightarrow>
          if (case md_terminal_source_count d of None \<Rightarrow> True | Some source_count \<Rightarrow> source_id < source_count)
            \<and> tle_bin_id (md_params d) source_id = bin_id
          then Some source_id else None)"

definition is_tle_bin_id :: "MettleDecoder \<Rightarrow> nat \<Rightarrow> bool" where
  "is_tle_bin_id d bin_id \<longleftrightarrow> tle_source_id_for_bin d bin_id \<noteq> None"

definition decoder_complete :: "MettleDecoder \<Rightarrow> bool" where
  "decoder_complete d \<longleftrightarrow>
     (case md_terminal_source_count d of
        None \<Rightarrow> False | Some source_count \<Rightarrow> source_count \<le> md_next_decoded_source_id d)"

definition bin_has_no_undecoded_touchers :: "MettleDecoder \<Rightarrow> nat \<Rightarrow> bool" where
  "bin_has_no_undecoded_touchers d bin_id \<longleftrightarrow>
     (if decoder_complete d then True
      else bin_id < tle_bin_id (md_params d) (md_next_decoded_source_id d))"

definition decoded_prefix_payload :: "MettleDecoder \<Rightarrow> nat \<Rightarrow> bytes option" where
  "decoded_prefix_payload d source_id =
     (if source_id < md_decoded_prefix_start_source_id d then None
      else
        let index = source_id - md_decoded_prefix_start_source_id d
        in if index < length (md_decoded_prefix_payloads d)
           then Some (md_decoded_prefix_payloads d ! index) else None)"

definition decoded_source_payload :: "MettleDecoder \<Rightarrow> nat \<Rightarrow> bytes option" where
  "decoded_source_payload d source_id =
     (case decoded_prefix_payload d source_id of
        Some payload \<Rightarrow> Some payload
      | None \<Rightarrow> map_of (md_decoded_future_payloads d) source_id)"

definition source_is_decoded :: "MettleDecoder \<Rightarrow> nat \<Rightarrow> bool" where
  "source_is_decoded d source_id \<longleftrightarrow>
     source_id < md_next_decoded_source_id d \<or> map_of (md_decoded_future_payloads d) source_id \<noteq> None"

definition count_remaining_touchers :: "MettleDecoder \<Rightarrow> nat \<Rightarrow> nat" where
  "count_remaining_touchers d bin_id =
     (case decoder_possible_range d bin_id of
        None \<Rightarrow> 0
      | Some (earliest, latest) \<Rightarrow>
          length (filter (\<lambda>source_id. \<not> source_is_decoded d source_id \<and>
              bin_id \<in> set (decoder_edge_bin_ids d source_id))
            [max earliest (md_next_decoded_source_id d) ..< latest + 1]))"

text \<open>The loop returns \<open>None\<close> at a second toucher.\<close>

fun unique_toucher_loop :: "MettleDecoder \<Rightarrow> nat \<Rightarrow> nat list \<Rightarrow> nat option \<Rightarrow> nat option" where
  "unique_toucher_loop d bin_id [] unique = unique"
| "unique_toucher_loop d bin_id (source_id # source_ids) unique =
     (if source_is_decoded d source_id \<or> bin_id \<notin> set (decoder_edge_bin_ids d source_id)
      then unique_toucher_loop d bin_id source_ids unique
      else if unique \<noteq> None then None
      else unique_toucher_loop d bin_id source_ids (Some source_id))"

definition unique_undecoded_toucher_for_bin :: "MettleDecoder \<Rightarrow> nat \<Rightarrow> nat option" where
  "unique_undecoded_toucher_for_bin d bin_id =
     (case decoder_possible_range d bin_id of
        None \<Rightarrow> None
      | Some (earliest, latest) \<Rightarrow>
          unique_toucher_loop d bin_id [max earliest (md_next_decoded_source_id d) ..< latest + 1] None)"

definition find_unique_bin_for_next_source :: "MettleDecoder \<Rightarrow> nat option" where
  "find_unique_bin_for_next_source d =
     List.find (\<lambda>bin_id.
         case map_of (md_received_bins d) bin_id of
           None \<Rightarrow> False | Some bin \<Rightarrow> bb_remaining_touchers bin = 1)
       (decoder_edge_bin_ids d (md_next_decoded_source_id d))"

fun find_future_loop :: "MettleDecoder \<Rightarrow> (nat \<times> BufferedBin) list \<Rightarrow> (nat \<times> nat) option" where
  "find_future_loop d [] = None"
| "find_future_loop d ((bin_id, bin) # bins) =
     (if bb_remaining_touchers bin \<noteq> 1 then find_future_loop d bins
      else case unique_undecoded_toucher_for_bin d bin_id of
             None \<Rightarrow> find_future_loop d bins
           | Some source_id \<Rightarrow>
               if md_next_decoded_source_id d < source_id then Some (source_id, bin_id)
               else find_future_loop d bins)"

definition find_unique_future_bin :: "MettleDecoder \<Rightarrow> (nat \<times> nat) option" where
  "find_unique_future_bin d = find_future_loop d (md_received_bins d)"

section \<open>Peeling and releasing\<close>

definition peel_known_prefix_from_bin :: "MettleDecoder \<Rightarrow> nat \<Rightarrow> bytes \<Rightarrow> bytes" where
  "peel_known_prefix_from_bin d bin_id payload =
     (case tle_source_id_for_bin d bin_id of
        Some tle_source_id \<Rightarrow>
          (case md_decoded_tle_prefix_xors d tle_source_id of
             Some peeled_prefix \<Rightarrow> xor_payload payload peeled_prefix
           | None \<Rightarrow> payload)
      | None \<Rightarrow>
          (case decoder_possible_range d bin_id of
             None \<Rightarrow> payload
           | Some (earliest, latest) \<Rightarrow>
               fold (\<lambda>source_id payload.
                   case decoded_source_payload d source_id of
                     Some decoded_payload \<Rightarrow>
                       if bin_id \<in> set (decoder_edge_bin_ids d source_id)
                       then xor_payload payload decoded_payload else payload
                   | None \<Rightarrow> payload)
                 [earliest ..< latest + 1] payload))"

definition peel_buffered :: "bytes \<Rightarrow> BufferedBin \<Rightarrow> BufferedBin" where
  "peel_buffered payload bin =
     \<lparr>bb_payload = xor_payload (bb_payload bin) payload,
      bb_remaining_touchers = bb_remaining_touchers bin - 1\<rparr>"

definition apply_decoded_edge :: "nat \<Rightarrow> bytes \<Rightarrow> nat \<Rightarrow> MettleDecoder \<Rightarrow> MettleDecoder" where
  "apply_decoded_edge source_id payload bin_id d =
     (let d = d\<lparr>md_received_bins :=
            map (\<lambda>(b, bin). if b = bin_id then (b, peel_buffered payload bin) else (b, bin))
              (md_received_bins d)\<rparr>
      in case tle_source_id_for_bin d bin_id of
           None \<Rightarrow> d
         | Some tle_source_id \<Rightarrow>
             if tle_source_id \<le> source_id then d
             else
               let peeled_prefix = (case md_decoded_tle_prefix_xors d tle_source_id of
                      None \<Rightarrow> replicate (md_source_symbol_bytes d) 0 | Some peeled \<Rightarrow> peeled)
               in d\<lparr>md_decoded_tle_prefix_xors :=
                    (md_decoded_tle_prefix_xors d)(tle_source_id \<mapsto> xor_payload peeled_prefix payload)\<rparr>)"

definition apply_decoded_source_edges :: "nat \<Rightarrow> bytes \<Rightarrow> MettleDecoder \<Rightarrow> MettleDecoder" where
  "apply_decoded_source_edges source_id payload d =
     fold (apply_decoded_edge source_id payload) (decoder_edge_bin_ids d source_id) d"

definition push_decoded_prefix_payload :: "bytes \<Rightarrow> MettleDecoder \<Rightarrow> MettleDecoder" where
  "push_decoded_prefix_payload payload d =
     (let d = d\<lparr>md_decoded_prefix_payloads := md_decoded_prefix_payloads d @ [payload]\<rparr>
      in if DECODED_PREFIX_WINDOW < length (md_decoded_prefix_payloads d)
         then d\<lparr>md_decoded_prefix_payloads := tl (md_decoded_prefix_payloads d),
                md_decoded_prefix_start_source_id := md_decoded_prefix_start_source_id d + 1\<rparr>
         else d)"

definition drop_bins_closed_by_prefix :: "MettleDecoder \<Rightarrow> MettleDecoder" where
  "drop_bins_closed_by_prefix d =
     (if decoder_complete d
      then d\<lparr>md_received_bins := [], md_decoded_tle_prefix_xors := Map.empty, md_seen_bin_ids := {}\<rparr>
      else
        let frontier = tle_bin_id (md_params d) (md_next_decoded_source_id d)
        in d\<lparr>md_received_bins := filter (\<lambda>(bin_id, _). frontier \<le> bin_id) (md_received_bins d),
             md_seen_bin_ids := {bin_id \<in> md_seen_bin_ids d. frontier \<le> bin_id},
             md_decoded_tle_prefix_xors := (\<lambda>source_id.
               if md_next_decoded_source_id d \<le> source_id
               then md_decoded_tle_prefix_xors d source_id else None)\<rparr>)"

definition release_prefix_source :: "nat \<Rightarrow> bytes \<Rightarrow> MettleDecoder \<Rightarrow> DecodedSource \<times> MettleDecoder" where
  "release_prefix_source source_id payload d =
     (let d = push_decoded_prefix_payload payload d;
          d = d\<lparr>md_next_decoded_source_id := md_next_decoded_source_id d + 1\<rparr>;
          d = drop_bins_closed_by_prefix d
      in (\<lparr>ds_source_id = source_id, ds_payload = payload\<rparr>, d))"

text \<open>The \<open>while let\<close> over the sources that wait for the prefix.\<close>

function release_waiting :: "MettleDecoder \<Rightarrow> DecodedSource list \<times> MettleDecoder" where
  "release_waiting d =
     (case map_of (md_decoded_future_payloads d) (md_next_decoded_source_id d) of
        None \<Rightarrow> ([], d)
      | Some payload \<Rightarrow>
          (case release_prefix_source (md_next_decoded_source_id d) payload
                  (d\<lparr>md_decoded_future_payloads :=
                     btree_remove (md_next_decoded_source_id d) (md_decoded_future_payloads d)\<rparr>) of
             (released, d) \<Rightarrow>
               (case release_waiting d of (rest, d) \<Rightarrow> (released # rest, d))))"
  by pat_completeness auto

lemma release_prefix_frame [simp]:
  "md_params (snd (release_prefix_source s x d)) = md_params d"
  "md_source_symbol_bytes (snd (release_prefix_source s x d)) = md_source_symbol_bytes d"
  "md_seed (snd (release_prefix_source s x d)) = md_seed d"
  "md_terminal_source_count (snd (release_prefix_source s x d)) = md_terminal_source_count d"
  "md_decoded_future_payloads (snd (release_prefix_source s x d)) = md_decoded_future_payloads d"
  "md_next_decoded_source_id (snd (release_prefix_source s x d)) = md_next_decoded_source_id d + 1"
  "fst (release_prefix_source s x d) = \<lparr>ds_source_id = s, ds_payload = x\<rparr>"
  by (simp_all add: release_prefix_source_def push_decoded_prefix_payload_def drop_bins_closed_by_prefix_def Let_def)

termination release_waiting
  by (relation "measure (\<lambda>d. length (md_decoded_future_payloads d))")
    (auto simp: prod_eq_iff btree_remove_shorter)

declare release_waiting.simps [simp del]

definition decode_source_and_release ::
    "nat \<Rightarrow> bytes \<Rightarrow> MettleDecoder \<Rightarrow> DecodedSource list \<times> MettleDecoder" where
  "decode_source_and_release source_id payload d =
     (let d = apply_decoded_source_edges source_id payload d
      in if source_id = md_next_decoded_source_id d
         then
           case release_prefix_source source_id payload d of
             (released, d) \<Rightarrow>
               (case release_waiting d of (rest, d) \<Rightarrow> (released # rest, d))
         else
           ([], d\<lparr>md_decoded_future_payloads :=
                 btree_insert source_id payload (md_decoded_future_payloads d)\<rparr>))"

text \<open>The bin taken in one turn of the drain loop, with the source it decodes; the bin is removed
  from the buffer, and its absence is the panic of \<open>expect\<close>.\<close>

definition next_decodable_bin :: "MettleDecoder \<Rightarrow> (nat \<times> nat) option" where
  "next_decodable_bin d =
     (case find_unique_bin_for_next_source d of
        Some bin_id \<Rightarrow> Some (md_next_decoded_source_id d, bin_id)
      | None \<Rightarrow> find_unique_future_bin d)"

definition decode_buffered_bin ::
    "nat \<Rightarrow> nat \<Rightarrow> MettleDecoder \<Rightarrow> (DecodedSource list \<times> MettleDecoder) may_panic" where
  "decode_buffered_bin source_id bin_id d =
     (case map_of (md_received_bins d) bin_id of
        None \<Rightarrow> None
      | Some bin \<Rightarrow>
          Some (decode_source_and_release source_id (bb_payload bin)
            (d\<lparr>md_received_bins := btree_remove bin_id (md_received_bins d)\<rparr>)))"

section \<open>The drain loop ends\<close>

lemma length_apply_decoded_edge [simp]:
  "length (md_received_bins (apply_decoded_edge s x b d)) = length (md_received_bins d)"
  by (simp add: apply_decoded_edge_def Let_def split: option.split)

lemma length_apply_decoded_edges [simp]:
  "length (md_received_bins (apply_decoded_source_edges s x d)) = length (md_received_bins d)"
proof -
  have "length (md_received_bins (fold (apply_decoded_edge s x) bs d)) = length (md_received_bins d)" for bs
    by (induction bs arbitrary: d) simp_all
  then show ?thesis by (simp add: apply_decoded_source_edges_def)
qed

lemma apply_decoded_edges_none [simp]:
  "md_received_bins d = [] \<Longrightarrow> md_received_bins (apply_decoded_source_edges s x d) = []"
  using length_apply_decoded_edges [of s x d] by (simp del: length_apply_decoded_edges)

lemma release_prefix_shrinks:
  "length (md_received_bins (snd (release_prefix_source s x d))) \<le> length (md_received_bins d)"
  by (simp add: release_prefix_source_def push_decoded_prefix_payload_def drop_bins_closed_by_prefix_def Let_def)

lemma release_waiting_shrinks:
  "length (md_received_bins (snd (release_waiting d))) \<le> length (md_received_bins d)"
proof (induction d rule: release_waiting.induct)
  case (1 d)
  show ?case
  proof (cases "map_of (md_decoded_future_payloads d) (md_next_decoded_source_id d)")
    case None
    then show ?thesis by (simp add: release_waiting.simps [of d])
  next
    case (Some x)
    let ?r = "release_prefix_source (md_next_decoded_source_id d) x (d\<lparr>md_decoded_future_payloads :=
      btree_remove (md_next_decoded_source_id d) (md_decoded_future_payloads d)\<rparr>)"
    have "snd (release_waiting d) = snd (release_waiting (snd ?r))"
      by (simp add: release_waiting.simps [of d] Some split_beta)
    also have "length (md_received_bins \<dots>) \<le> length (md_received_bins (snd ?r))"
      by (rule 1 [OF Some prod.collapse])
    finally show ?thesis by (rule order_trans [OF _ release_prefix_shrinks [THEN order_trans]]) simp
  qed
qed

lemma decode_source_shrinks:
  "length (md_received_bins (snd (decode_source_and_release s x d))) \<le> length (md_received_bins d)"
proof -
  let ?d = "apply_decoded_source_edges s x d"
  have "length (md_received_bins (snd (release_waiting (snd (release_prefix_source s x ?d)))))
      \<le> length (md_received_bins ?d)"
    by (rule order_trans [OF release_waiting_shrinks release_prefix_shrinks])
  then show ?thesis by (simp add: decode_source_and_release_def Let_def split_beta)
qed

lemma decode_buffered_bin_shrinks:
  assumes "decode_buffered_bin s b d = Some (rs, d')"
  shows "length (md_received_bins d') < length (md_received_bins d)"
proof -
  obtain bin where bin: "map_of (md_received_bins d) b = Some bin"
    using assms by (auto simp: decode_buffered_bin_def split: option.splits)
  then have "length (btree_remove b (md_received_bins d)) < length (md_received_bins d)"
    by (rule btree_remove_shorter)
  moreover have "(rs, d') = decode_source_and_release s (bb_payload bin)
      (d\<lparr>md_received_bins := btree_remove b (md_received_bins d)\<rparr>)"
    using assms bin by (simp add: decode_buffered_bin_def)
  then have "length (md_received_bins d') \<le> length (btree_remove b (md_received_bins d))"
    using decode_source_shrinks [of s "bb_payload bin" "d\<lparr>md_received_bins := btree_remove b (md_received_bins d)\<rparr>"]
    by (simp add: prod_eq_iff)
  ultimately show ?thesis by simp
qed

function drain_decodable_sources :: "MettleDecoder \<Rightarrow> (DecodedSource list \<times> MettleDecoder) may_panic" where
  "drain_decodable_sources d =
     (case next_decodable_bin d of
        None \<Rightarrow> Some ([], d)
      | Some (source_id, bin_id) \<Rightarrow>
          (case decode_buffered_bin source_id bin_id d of
             None \<Rightarrow> None
           | Some (decoded, d) \<Rightarrow>
               (case drain_decodable_sources d of
                  None \<Rightarrow> None
                | Some (rest, d) \<Rightarrow> Some (decoded @ rest, d))))"
  by pat_completeness auto

termination drain_decodable_sources
  by (relation "measure (\<lambda>d. length (md_received_bins d))") (auto dest: decode_buffered_bin_shrinks)

declare drain_decodable_sources.simps [simp del]

section \<open>Pushing a bin\<close>

definition push_bin :: "MettleBin \<Rightarrow> MettleDecoder \<Rightarrow> (DecodedSource list \<times> MettleDecoder) may_panic" where
  "push_bin bin d =
     (let bin_id = mb_bin_id bin;
          payload = mb_payload bin;
          next = md_next_decoded_source_id d
      in if decoder_complete d then Some ([], d)
         else if length payload \<noteq> md_source_symbol_bytes d \<or>
             latest_source_id_for_bin (md_params d) bin_id = None then Some ([], d)
         else if bin_id \<in> md_seen_bin_ids d then Some ([], d)
         else
           let d = d\<lparr>md_seen_bin_ids := insert bin_id (md_seen_bin_ids d)\<rparr>
           in if bin_id = tle_bin_id (md_params d) next \<and> md_received_bins d = []
              then
                let peeled = (case md_decoded_tle_prefix_xors d next of
                       Some peeled_prefix \<Rightarrow> xor_payload payload peeled_prefix | None \<Rightarrow> payload);
                    d = d\<lparr>md_decoded_tle_prefix_xors := (md_decoded_tle_prefix_xors d)(next := None)\<rparr>
                in Some (decode_source_and_release next peeled d)
              else if \<not> is_tle_bin_id d bin_id \<and> bin_has_no_undecoded_touchers d bin_id then Some ([], d)
              else
                let payload = peel_known_prefix_from_bin d bin_id payload
                in if bin_id = tle_bin_id (md_params d) next
                   then
                     case decode_source_and_release next payload d of
                       (decoded, d) \<Rightarrow>
                         (case drain_decodable_sources d of
                            None \<Rightarrow> None
                          | Some (rest, d) \<Rightarrow> Some (decoded @ rest, d))
                   else
                     let remaining_touchers = count_remaining_touchers d bin_id
                     in if remaining_touchers = 0 then Some ([], d)
                        else drain_decodable_sources
                          (d\<lparr>md_received_bins := btree_insert bin_id
                               \<lparr>bb_payload = payload, bb_remaining_touchers = remaining_touchers\<rparr>
                               (md_received_bins d)\<rparr>))"

definition skip_next_source_without_edges ::
    "MettleDecoder \<Rightarrow> (DecodedSource list \<times> MettleDecoder) may_panic" where
  "skip_next_source_without_edges d =
     (case release_prefix_source (md_next_decoded_source_id d)
             (replicate (md_source_symbol_bytes d) 0) d of
        (released, d) \<Rightarrow>
          (case drain_decodable_sources d of
             None \<Rightarrow> None
           | Some (rest, d) \<Rightarrow> Some (released # rest, d)))"

text \<open>The loop of the validation harness.\<close>

fun decode_all_bins :: "MettleBin list \<Rightarrow> MettleDecoder \<Rightarrow> (DecodedSource list \<times> MettleDecoder) may_panic" where
  "decode_all_bins [] d = Some ([], d)"
| "decode_all_bins (bin # bins) d =
     (case push_bin bin d of
        None \<Rightarrow> None
      | Some (decoded, d) \<Rightarrow>
          (case decode_all_bins bins d of
             None \<Rightarrow> None
           | Some (rest, d) \<Rightarrow> Some (decoded @ rest, d)))"

section \<open>Decoding a stream\<close>

definition decoder_for :: "MettleParams \<Rightarrow> nat \<Rightarrow> u64 \<Rightarrow> nat \<Rightarrow> MettleDecoder \<Rightarrow> bool" where
  "decoder_for p L seed n d \<longleftrightarrow>
     md_params d = p \<and> md_source_symbol_bytes d = L \<and> md_seed d = seed \<and> md_terminal_source_count d = Some n"

definition xor_or_zero :: "nat \<Rightarrow> (nat \<rightharpoonup> bytes) \<Rightarrow> nat \<Rightarrow> bytes" where
  "xor_or_zero L xors t = (case xors t of None \<Rightarrow> replicate L 0 | Some x \<Rightarrow> x)"

lemma tle_source_id_for_bin_iff:
  assumes "decoder_for p L seed n d" "params_ok p" "n \<le> 2 ^ 64"
  shows "tle_source_id_for_bin d b = Some t \<longleftrightarrow> t < n \<and> b = tle_bin_id p t"
proof
  assume "tle_source_id_for_bin d b = Some t"
  then show "t < n \<and> b = tle_bin_id p t"
    using assms(1) by (auto simp: tle_source_id_for_bin_def decoder_for_def split: option.splits if_splits)
next
  assume t: "t < n \<and> b = tle_bin_id p t"
  then have "b < tle_bin_id p n" using assms(2) by simp
  then obtain q where q: "latest_source_id_for_bin p b = Some q"
    using latest_source_id_for_bin_Some assms(2,3) by blast
  then have "\<And>i. i \<le> t \<longleftrightarrow> i \<le> q" using latest_source_le_iff [OF assms(2) q] t assms(2) by simp
  then have "q = t" by (meson order_antisym order_refl)
  then show "tle_source_id_for_bin d b = Some t"
    using q t assms(1) by (simp add: tle_source_id_for_bin_def decoder_for_def)
qed

lemma decoder_for_edge [simp]:
  "decoder_for p L seed n (apply_decoded_edge s x b d) = decoder_for p L seed n d"
  by (simp add: apply_decoded_edge_def decoder_for_def Let_def split: option.split)

lemma apply_decoded_edge_frame [simp]:
  "md_next_decoded_source_id (apply_decoded_edge s x b d) = md_next_decoded_source_id d"
  "md_decoded_future_payloads (apply_decoded_edge s x b d) = md_decoded_future_payloads d"
  "md_decoded_prefix_payloads (apply_decoded_edge s x b d) = md_decoded_prefix_payloads d"
  "md_decoded_prefix_start_source_id (apply_decoded_edge s x b d) = md_decoded_prefix_start_source_id d"
  "md_seen_bin_ids (apply_decoded_edge s x b d) = md_seen_bin_ids d"
  by (simp_all add: apply_decoded_edge_def Let_def split: option.split)

lemma apply_decoded_edge_tle:
  assumes "decoder_for p L seed n d" "params_ok p" "n \<le> 2 ^ 64" "t < n" "s < t"
  shows "xor_or_zero L (md_decoded_tle_prefix_xors (apply_decoded_edge s x b d)) t =
    (if b = tle_bin_id p t then xor_payload (xor_or_zero L (md_decoded_tle_prefix_xors d) t) x else xor_or_zero L (md_decoded_tle_prefix_xors d) t)"
proof -
  define d1 where "d1 = d\<lparr>md_received_bins :=
            map (\<lambda>(b', bin). if b' = b then (b', peel_buffered x bin) else (b', bin)) (md_received_bins d)\<rparr>"
  have d1: "decoder_for p L seed n d1" "md_decoded_tle_prefix_xors d1 = md_decoded_tle_prefix_xors d"
    "md_source_symbol_bytes d1 = md_source_symbol_bytes d"
    using assms(1) by (simp_all add: d1_def decoder_for_def)
  note iff = tle_source_id_for_bin_iff [OF d1(1) assms(2,3)]
  have L: "md_source_symbol_bytes d = L" using assms(1) by (simp add: decoder_for_def)
  show ?thesis
  proof (cases "tle_source_id_for_bin d1 b")
    case None
    then have "b \<noteq> tle_bin_id p t" using iff [of b t] assms(4) by auto
    then show ?thesis using None
      unfolding apply_decoded_edge_def Let_def d1_def [symmetric] by (simp add: xor_or_zero_def d1)
  next
    case (Some t')
    then have "b = tle_bin_id p t'" using iff by simp
    then show ?thesis using Some assms(2,5)
      unfolding apply_decoded_edge_def Let_def d1_def [symmetric]
      by (cases "md_decoded_tle_prefix_xors d t'") (auto simp: xor_or_zero_def d1 L)
  qed
qed

lemma decoder_for_edges [simp]:
  "decoder_for p L seed n (apply_decoded_source_edges s x d) = decoder_for p L seed n d"
proof -
  have "decoder_for p L seed n (fold (apply_decoded_edge s x) bs d) = decoder_for p L seed n d" for bs
    by (induction bs arbitrary: d) simp_all
  then show ?thesis by (simp add: apply_decoded_source_edges_def)
qed

lemma apply_decoded_edges_frame [simp]:
  "md_next_decoded_source_id (apply_decoded_source_edges s x d) = md_next_decoded_source_id d"
  "md_decoded_future_payloads (apply_decoded_source_edges s x d) = md_decoded_future_payloads d"
  "md_decoded_prefix_payloads (apply_decoded_source_edges s x d) = md_decoded_prefix_payloads d"
  "md_decoded_prefix_start_source_id (apply_decoded_source_edges s x d) = md_decoded_prefix_start_source_id d"
  "md_seen_bin_ids (apply_decoded_source_edges s x d) = md_seen_bin_ids d"
proof -
  have "md_next_decoded_source_id (fold (apply_decoded_edge s x) bs d) = md_next_decoded_source_id d \<and>
    md_decoded_future_payloads (fold (apply_decoded_edge s x) bs d) = md_decoded_future_payloads d \<and>
    md_decoded_prefix_payloads (fold (apply_decoded_edge s x) bs d) = md_decoded_prefix_payloads d \<and>
    md_decoded_prefix_start_source_id (fold (apply_decoded_edge s x) bs d) = md_decoded_prefix_start_source_id d \<and>
    md_seen_bin_ids (fold (apply_decoded_edge s x) bs d) = md_seen_bin_ids d" for bs
    by (induction bs arbitrary: d) simp_all
  then show "md_next_decoded_source_id (apply_decoded_source_edges s x d) = md_next_decoded_source_id d"
    "md_decoded_future_payloads (apply_decoded_source_edges s x d) = md_decoded_future_payloads d"
    "md_decoded_prefix_payloads (apply_decoded_source_edges s x d) = md_decoded_prefix_payloads d"
    "md_decoded_prefix_start_source_id (apply_decoded_source_edges s x d) = md_decoded_prefix_start_source_id d"
    "md_seen_bin_ids (apply_decoded_source_edges s x d) = md_seen_bin_ids d"
    by (simp_all add: apply_decoded_source_edges_def)
qed

lemma apply_decoded_edges_tle:
  assumes "decoder_for p L seed n d" "params_ok p" "n \<le> 2 ^ 64" "t < n" "s < t" "length (f s) = L"
    and "mixes L n f w (xor_or_zero L (md_decoded_tle_prefix_xors d) t)"
  shows "mixes L n f (\<lambda>i. w i + (if i = s then count_list (edge_bin_ids p s seed (Some n)) (tle_bin_id p t) else 0))
    (xor_or_zero L (md_decoded_tle_prefix_xors (apply_decoded_source_edges s (f s) d)) t)"
proof -
  have s: "s < n" using assms(4,5) by simp
  have "mixes L n f (\<lambda>i. w i + (if i = s then count_list bs (tle_bin_id p t) else 0))
      (xor_or_zero L (md_decoded_tle_prefix_xors (fold (apply_decoded_edge s (f s)) bs d)) t)" for bs
    using assms(1,7)
  proof (induction bs arbitrary: d w)
    case Nil
    show ?case by (rule mixes_parity [where w = w]) (simp_all add: Nil)
  next
    case (Cons b bs)
    have d: "decoder_for p L seed n (apply_decoded_edge s (f s) b d)" using Cons.prems(1) by simp
    note tle = apply_decoded_edge_tle [OF Cons.prems(1) assms(2-5), of "f s" b]
    show ?case
    proof (cases "b = tle_bin_id p t")
      case True
      have "mixes L n f (\<lambda>i. w i + of_bool (i = s)) (xor_or_zero L (md_decoded_tle_prefix_xors (apply_decoded_edge s (f s) b d)) t)"
        unfolding tle if_P [OF True]
        by (rule mixes_xor [OF Cons.prems(2) mixes_single [where j = s and f = f, OF s assms(6)]])
      from Cons.IH [OF d this] show ?thesis by (auto simp: True elim!: mixes_parity)
    next
      case False
      have "mixes L n f w (xor_or_zero L (md_decoded_tle_prefix_xors (apply_decoded_edge s (f s) b d)) t)"
        using Cons.prems(2) False by (simp add: tle)
      from Cons.IH [OF d this] show ?thesis using False by (auto elim!: mixes_parity split: if_splits)
    qed
  qed
  then show ?thesis using assms(1)
    by (simp add: apply_decoded_source_edges_def decoder_edge_bin_ids_def decoder_for_def)
qed

section \<open>A stream without losses\<close>

text \<open>After the bins below \<open>b\<close>: the sources whose top-left edge is below \<open>b\<close> have been
  released, nothing is buffered, and the prefix sums of the top-left bins to come are kept.\<close>

definition lossless_inv ::
    "MettleParams \<Rightarrow> nat \<Rightarrow> u64 \<Rightarrow> nat \<Rightarrow> (nat \<Rightarrow> bytes) \<Rightarrow> nat \<Rightarrow> nat \<Rightarrow> MettleDecoder \<Rightarrow> bool" where
  "lossless_inv p L seed n f b m d \<longleftrightarrow>
     decoder_for p L seed n d \<and> md_next_decoded_source_id d = m \<and> m \<le> n \<and>
     md_decoded_future_payloads d = [] \<and> md_received_bins d = [] \<and> md_seen_bin_ids d \<subseteq> {..<b} \<and>
     (\<forall>t<m. tle_bin_id p t < b) \<and> (m < n \<longrightarrow> b \<le> tle_bin_id p m) \<and>
     (\<forall>t<n. m \<le> t \<longrightarrow>
        mixes L n f (\<lambda>j. if j < m then count_list (edge_bin_ids p j seed (Some n)) (tle_bin_id p t) else 0)
          (xor_or_zero L (md_decoded_tle_prefix_xors d) t))"

text \<open>No source draws its own top-left bin again.\<close>

definition own_tle_once :: "MettleParams \<Rightarrow> u64 \<Rightarrow> nat \<Rightarrow> bool" where
  "own_tle_once p seed n \<longleftrightarrow>
     (\<forall>j<n. tle_bin_id p j \<notin> set (tl (edge_bin_ids p j seed (Some n))))"

lemma own_tle_onceI:
  assumes ok: "params_ok p"
    and draw: "\<And>j k. j < n \<Longrightarrow> k < 3 \<Longrightarrow>
      fst (next_entropy (mix_entropy seed (word_of_nat j) (word_of_nat k + 2))) AND
        ucast (snd (NON_TLE_PROFILE ! k) - 1) \<noteq> 0"
  shows "own_tle_once p seed n"
proof -
  have "tle_bin_id p j \<noteq> non_tle_edge_bin_id_for_profile_index p j seed k (Some n)" if "j < n" "k < 3" for j k
    using edge_after_tle [OF ok that(1) draw [OF that]] by (simp add: non_tle_edge_bin_id_for_profile_index_def Let_def)
  then show ?thesis by (auto simp: own_tle_once_def edge_bin_ids_def NON_TLE_PROFILE_def)
qed

lemma own_tle_once_count:
  "own_tle_once p seed n \<Longrightarrow> j < n \<Longrightarrow> count_list (edge_bin_ids p j seed (Some n)) (tle_bin_id p j) = 1"
  by (simp add: own_tle_once_def edge_bin_ids_def)

lemma release_waiting_none [simp]:
  "md_decoded_future_payloads d = [] \<Longrightarrow> release_waiting d = ([], d)"
  by (simp add: release_waiting.simps [of d])

lemma release_prefix_more [simp]:
  "md_received_bins d = [] \<Longrightarrow> md_received_bins (snd (release_prefix_source s x d)) = []"
  "md_seen_bin_ids (snd (release_prefix_source s x d)) \<subseteq> md_seen_bin_ids d"
  by (auto simp: release_prefix_source_def push_decoded_prefix_payload_def drop_bins_closed_by_prefix_def Let_def)

lemma decoder_for_release [simp]:
  "decoder_for p L seed n (snd (release_prefix_source s x d)) = decoder_for p L seed n d"
  by (simp add: decoder_for_def)

lemma push_decoded_prefix_frame [simp]:
  "md_params (push_decoded_prefix_payload x d) = md_params d"
  "md_next_decoded_source_id (push_decoded_prefix_payload x d) = md_next_decoded_source_id d"
  "md_terminal_source_count (push_decoded_prefix_payload x d) = md_terminal_source_count d"
  "md_received_bins (push_decoded_prefix_payload x d) = md_received_bins d"
  "md_seen_bin_ids (push_decoded_prefix_payload x d) = md_seen_bin_ids d"
  "md_decoded_tle_prefix_xors (push_decoded_prefix_payload x d) = md_decoded_tle_prefix_xors d"
  by (simp_all add: push_decoded_prefix_payload_def Let_def)

lemma release_prefix_tle:
  assumes "decoder_for p L seed n d" "md_next_decoded_source_id d < t" "t < n"
  shows "xor_or_zero L (md_decoded_tle_prefix_xors (snd (release_prefix_source s x d))) t =
    xor_or_zero L (md_decoded_tle_prefix_xors d) t"
  using assms by (simp add: release_prefix_source_def drop_bins_closed_by_prefix_def
      Let_def xor_or_zero_def decoder_complete_def decoder_for_def)

text \<open>The branches of \<open>push_bin\<close> once a bin is accepted.\<close>

definition accepts :: "MettleBin \<Rightarrow> MettleDecoder \<Rightarrow> bool" where
  "accepts bin d \<longleftrightarrow> \<not> decoder_complete d \<and> length (mb_payload bin) = md_source_symbol_bytes d \<and>
     latest_source_id_for_bin (md_params d) (mb_bin_id bin) \<noteq> None \<and> mb_bin_id bin \<notin> md_seen_bin_ids d"

definition mark_seen :: "nat \<Rightarrow> MettleDecoder \<Rightarrow> MettleDecoder" where
  "mark_seen b d = d\<lparr>md_seen_bin_ids := insert b (md_seen_bin_ids d)\<rparr>"

lemma mark_seen_simps [simp]:
  "md_params (mark_seen b d) = md_params d"
  "md_source_symbol_bytes (mark_seen b d) = md_source_symbol_bytes d"
  "md_next_decoded_source_id (mark_seen b d) = md_next_decoded_source_id d"
  "md_seed (mark_seen b d) = md_seed d"
  "md_terminal_source_count (mark_seen b d) = md_terminal_source_count d"
  "md_decoded_prefix_start_source_id (mark_seen b d) = md_decoded_prefix_start_source_id d"
  "md_decoded_prefix_payloads (mark_seen b d) = md_decoded_prefix_payloads d"
  "md_decoded_future_payloads (mark_seen b d) = md_decoded_future_payloads d"
  "md_decoded_tle_prefix_xors (mark_seen b d) = md_decoded_tle_prefix_xors d"
  "md_received_bins (mark_seen b d) = md_received_bins d"
  "md_seen_bin_ids (mark_seen b d) = insert b (md_seen_bin_ids d)"
  by (simp_all add: mark_seen_def)

definition fast_decoder :: "MettleDecoder \<Rightarrow> MettleDecoder" where
  "fast_decoder d = d\<lparr>md_decoded_tle_prefix_xors :=
     (md_decoded_tle_prefix_xors d)(md_next_decoded_source_id d := None)\<rparr>"

lemma push_bin_complete: "decoder_complete d \<Longrightarrow> push_bin bin d = Some ([], d)"
  by (simp add: push_bin_def)

lemma push_bin_fast:
  assumes "accepts bin d" "mb_bin_id bin = tle_bin_id (md_params d) (md_next_decoded_source_id d)"
    "md_received_bins d = []"
  shows "push_bin bin d = Some (decode_source_and_release (md_next_decoded_source_id d)
    (case md_decoded_tle_prefix_xors d (md_next_decoded_source_id d) of
       Some peeled_prefix \<Rightarrow> xor_payload (mb_payload bin) peeled_prefix | None \<Rightarrow> mb_payload bin)
    (fast_decoder (mark_seen (mb_bin_id bin) d)))"
proof -
  obtain q where "latest_source_id_for_bin (md_params d) (mb_bin_id bin) = Some q"
    using assms(1) by (auto simp: accepts_def)
  then show ?thesis using assms unfolding push_bin_def Let_def accepts_def
    by (simp add: fast_decoder_def mark_seen_def)
qed

lemma fast_decoder_next [simp]: "md_next_decoded_source_id (fast_decoder d) = md_next_decoded_source_id d"
  by (simp add: fast_decoder_def)

lemma accepts_latest: "accepts bin d \<Longrightarrow> \<exists>q. latest_source_id_for_bin (md_params d) (mb_bin_id bin) = Some q"
  by (auto simp: accepts_def)

lemma push_bin_closed:
  assumes "accepts bin d"
    "\<not> (mb_bin_id bin = tle_bin_id (md_params d) (md_next_decoded_source_id d) \<and> md_received_bins d = [])"
    "\<not> is_tle_bin_id (mark_seen (mb_bin_id bin) d) (mb_bin_id bin)"
    "bin_has_no_undecoded_touchers (mark_seen (mb_bin_id bin) d) (mb_bin_id bin)"
  shows "push_bin bin d = Some ([], mark_seen (mb_bin_id bin) d)"
  using accepts_latest [OF assms(1)] assms
  unfolding push_bin_def Let_def accepts_def mark_seen_def by auto

lemma push_bin_next:
  assumes "accepts bin d"
    "\<not> (mb_bin_id bin = tle_bin_id (md_params d) (md_next_decoded_source_id d) \<and> md_received_bins d = [])"
    "is_tle_bin_id (mark_seen (mb_bin_id bin) d) (mb_bin_id bin) \<or>
     \<not> bin_has_no_undecoded_touchers (mark_seen (mb_bin_id bin) d) (mb_bin_id bin)"
    "mb_bin_id bin = tle_bin_id (md_params d) (md_next_decoded_source_id d)"
  shows "push_bin bin d =
    (case decode_source_and_release (md_next_decoded_source_id d)
        (peel_known_prefix_from_bin (mark_seen (mb_bin_id bin) d) (mb_bin_id bin) (mb_payload bin))
        (mark_seen (mb_bin_id bin) d) of
       (decoded, d) \<Rightarrow>
         (case drain_decodable_sources d of
            None \<Rightarrow> None
          | Some (rest, d) \<Rightarrow> Some (decoded @ rest, d)))"
  using accepts_latest [OF assms(1)] assms
  unfolding push_bin_def Let_def accepts_def mark_seen_def by auto

lemma push_bin_other:
  assumes "accepts bin d"
    "is_tle_bin_id (mark_seen (mb_bin_id bin) d) (mb_bin_id bin) \<or>
     \<not> bin_has_no_undecoded_touchers (mark_seen (mb_bin_id bin) d) (mb_bin_id bin)"
    "mb_bin_id bin \<noteq> tle_bin_id (md_params d) (md_next_decoded_source_id d)"
  shows "push_bin bin d =
    (if count_remaining_touchers (mark_seen (mb_bin_id bin) d) (mb_bin_id bin) = 0
     then Some ([], mark_seen (mb_bin_id bin) d)
     else drain_decodable_sources
       ((mark_seen (mb_bin_id bin) d)\<lparr>md_received_bins := btree_insert (mb_bin_id bin)
          \<lparr>bb_payload = peel_known_prefix_from_bin (mark_seen (mb_bin_id bin) d) (mb_bin_id bin) (mb_payload bin),
           bb_remaining_touchers = count_remaining_touchers (mark_seen (mb_bin_id bin) d) (mb_bin_id bin)\<rparr>
          (md_received_bins d)\<rparr>))"
  using accepts_latest [OF assms(1)] assms
  unfolding push_bin_def Let_def accepts_def mark_seen_def by auto

lemma xor_payload_zero [simp]: "length x = L \<Longrightarrow> xor_payload x (replicate L 0) = x"
  by (intro nth_equalityI) (simp_all add: nth_xor_payload)

lemma peel_or_zero:
  "length x = L \<Longrightarrow> (case m t of Some y \<Rightarrow> xor_payload x y | None \<Rightarrow> x) = xor_payload x (xor_or_zero L m t)"
  by (simp add: xor_or_zero_def split: option.split)

lemma push_lossless_bin:
  assumes inv: "lossless_inv p L seed n f b m d" and ok: "params_ok p" "n \<le> 2 ^ 64"
    and len: "\<And>j. j < n \<Longrightarrow> length (f j) = L" and once: "own_tle_once p seed n"
  shows "\<exists>d' m'. push_bin (stream_bin p L seed n f b) d =
      Some (map (\<lambda>j. \<lparr>ds_source_id = j, ds_payload = f j\<rparr>) [m ..< m'], d') \<and> m \<le> m' \<and>
      lossless_inv p L seed n f (b + 1) m' d'"
proof -
  let ?edges = "\<lambda>j. edge_bin_ids p j seed (Some n)"
  let ?bin = "stream_bin p L seed n f b"
  let ?d1 = "mark_seen b d"
  have for_d: "decoder_for p L seed n d" and m: "md_next_decoded_source_id d = m" "m \<le> n"
    and empty: "md_decoded_future_payloads d = []" "md_received_bins d = []"
    and seen: "md_seen_bin_ids d \<subseteq> {..<b}" and done_: "\<And>t. t < m \<Longrightarrow> tle_bin_id p t < b"
    and next_: "m < n \<Longrightarrow> b \<le> tle_bin_id p m"
    and xors: "\<And>t. t < n \<Longrightarrow> m \<le> t \<Longrightarrow> mixes L n f (\<lambda>j. if j < m then count_list (?edges j) (tle_bin_id p t) else 0)
          (xor_or_zero L (md_decoded_tle_prefix_xors d) t)"
    using inv by (simp_all add: lossless_inv_def)
  have for_d1: "decoder_for p L seed n ?d1" using for_d by (simp add: decoder_for_def)
  have mix: "mixes L n f (\<lambda>j. count_list (?edges j) b) (mb_payload ?bin)"
    using mixes_combined [OF len] by (simp add: stream_bin_def)
  have id: "mb_bin_id ?bin = b" by (simp add: stream_bin_def)
  show ?thesis
  proof (cases "m < n")
    case False
    then have "push_bin ?bin d = Some ([], d)" using for_d m
      by (intro push_bin_complete) (simp add: decoder_complete_def decoder_for_def)
    moreover have "lossless_inv p L seed n f (b + 1) m d" using inv False
      by (auto simp: lossless_inv_def less_Suc_eq)
    ultimately show ?thesis by (intro exI [of _ d] exI [of _ m]) simp
  next
    case True
    have t: "terminal_ok (Some n)" using True by (simp add: terminal_ok_def)
    have "b < tle_bin_id p n" using next_ [OF True] tle_less_iff [OF ok(1), of m n] True by linarith
    then have "latest_source_id_for_bin p b \<noteq> None" using latest_source_id_for_bin_Some ok by blast
    then have acc: "accepts ?bin d"
      using for_d m True mixes_length [OF mix] seen
      by (auto simp: accepts_def decoder_complete_def decoder_for_def id)
    show ?thesis
    proof (cases "b = tle_bin_id p m")
      case False
      then have below: "b < tle_bin_id p m" using next_ [OF True] by simp
      have "tle_source_id_for_bin ?d1 b \<noteq> Some s" for s
        using tle_source_id_for_bin_iff [OF for_d1 ok, of b s] below done_ [of s] ok(1) by auto
      then have "\<not> is_tle_bin_id ?d1 b" by (auto simp: is_tle_bin_id_def)
      moreover have "bin_has_no_undecoded_touchers ?d1 b" using for_d m below
        by (simp add: bin_has_no_undecoded_touchers_def decoder_for_def)
      ultimately have "push_bin ?bin d = Some ([], ?d1)"
        using push_bin_closed [OF acc] for_d m False by (simp add: id decoder_for_def)
      moreover have "lossless_inv p L seed n f (b + 1) m ?d1" using inv for_d1 below
        by (auto simp: lossless_inv_def less_Suc_eq)
      ultimately show ?thesis by (intro exI [of _ ?d1] exI [of _ m]) simp
    next
      case here: True
      let ?peeled = "xor_payload (mb_payload ?bin) (xor_or_zero L (md_decoded_tle_prefix_xors d) m)"
      define d2 where "d2 = apply_decoded_source_edges m (f m) (fast_decoder ?d1)"
      define d3 where "d3 = snd (release_prefix_source m (f m) d2)"
      have "mb_bin_id ?bin = tle_bin_id (md_params d) (md_next_decoded_source_id d)"
        using for_d m(1) unfolding id by (simp add: here decoder_for_def)
      from push_bin_fast [OF acc this empty(2)]
      have push: "push_bin ?bin d = Some (decode_source_and_release m ?peeled (fast_decoder ?d1))"
        by (simp only: id m(1) peel_or_zero [OF mixes_length [OF mix]])
      have "mixes L n f (\<lambda>j. count_list (?edges j) b + (if j < m then count_list (?edges j) b else 0)) ?peeled"
        using mixes_xor [OF mix xors [OF True order_refl, folded here]] .
      then have peeled: "?peeled = f m"
      proof (rule mixes_decodes [where j = m and f = f, OF _ True len [OF True]])
        fix j assume "j < n"
        have "count_list (?edges j) b = 0" if "m < j"
          using that ok(1) by (intro untouched_count [OF ok(1) t]) (simp add: here)
        moreover have "count_list (?edges m) b = 1" using own_tle_once_count [OF once True] by (simp add: here)
        ultimately show "odd (count_list (?edges j) b + (if j < m then count_list (?edges j) b else 0)) \<longleftrightarrow> j = m"
          by (cases j m rule: linorder_cases) auto
      qed
      have for_f: "decoder_for p L seed n (fast_decoder ?d1)"
        using for_d1 by (simp add: fast_decoder_def decoder_for_def)
      have d2: "decoder_for p L seed n d2" "md_next_decoded_source_id d2 = m" "md_received_bins d2 = []"
        "md_decoded_future_payloads d2 = []" "md_seen_bin_ids d2 \<subseteq> {..<b + 1}"
        using for_f m empty seen by (auto simp: d2_def fast_decoder_def)
      have d3: "decoder_for p L seed n d3" "md_next_decoded_source_id d3 = m + 1" "md_received_bins d3 = []"
        "md_decoded_future_payloads d3 = []" "md_seen_bin_ids d3 \<subseteq> {..<b + 1}"
        using d2 order_trans [OF release_prefix_more(2) [of m "f m" d2]]
        by (simp_all add: d3_def del: release_prefix_more(2))
      have out: "push_bin ?bin d = Some ([\<lparr>ds_source_id = m, ds_payload = f m\<rparr>], d3)"
        using d2(2) d3(4) unfolding push peeled decode_source_and_release_def Let_def d2_def [symmetric]
        by (simp add: split_beta d3_def [symmetric])
      have mixed: "mixes L n f (\<lambda>j. if j < m + 1 then count_list (?edges j) (tle_bin_id p s) else 0)
          (xor_or_zero L (md_decoded_tle_prefix_xors d3) s)" if s: "s < n" "m + 1 \<le> s" for s
      proof -
        have "xor_or_zero L (md_decoded_tle_prefix_xors (fast_decoder ?d1)) s =
            xor_or_zero L (md_decoded_tle_prefix_xors d) s"
          using s m by (simp add: fast_decoder_def xor_or_zero_def)
        then have "mixes L n f (\<lambda>j. if j < m then count_list (?edges j) (tle_bin_id p s) else 0)
            (xor_or_zero L (md_decoded_tle_prefix_xors (fast_decoder ?d1)) s)"
          using xors [of s] s by simp
        from apply_decoded_edges_tle [OF for_f ok s(1) _ len [OF True] this] s(2)
        have "mixes L n f (\<lambda>j. (if j < m then count_list (?edges j) (tle_bin_id p s) else 0) +
            (if j = m then count_list (?edges m) (tle_bin_id p s) else 0))
            (xor_or_zero L (md_decoded_tle_prefix_xors d2) s)" by (simp add: d2_def)
        then have "mixes L n f (\<lambda>j. if j < m + 1 then count_list (?edges j) (tle_bin_id p s) else 0)
            (xor_or_zero L (md_decoded_tle_prefix_xors d2) s)"
          by (rule mixes_parity) (auto simp: less_Suc_eq)
        then show ?thesis using release_prefix_tle [OF d2(1)] d2(2) s by (simp add: d3_def)
      qed
      have "lossless_inv p L seed n f (b + 1) (m + 1) d3"
        using d3 True mixed done_ here tle_strict_mono [OF ok(1) lessI, of m]
        by (auto simp: lossless_inv_def less_Suc_eq)
      then show ?thesis using out by (intro exI [of _ d3] exI [of _ "m + 1"]) simp
    qed
  qed
qed

lemma decode_lossless_bins:
  assumes inv: "lossless_inv p L seed n f b m d" and ok: "params_ok p" "n \<le> 2 ^ 64"
    and len: "\<And>j. j < n \<Longrightarrow> length (f j) = L" and once: "own_tle_once p seed n" and be: "b \<le> e"
  shows "\<exists>d' m'. decode_all_bins (map (stream_bin p L seed n f) [b ..< e]) d =
      Some (map (\<lambda>j. \<lparr>ds_source_id = j, ds_payload = f j\<rparr>) [m ..< m'], d') \<and> m \<le> m' \<and>
      lossless_inv p L seed n f e m' d'"
  using inv be
proof (induction "e - b" arbitrary: b m d)
  case 0
  then show ?case by (intro exI [of _ d] exI [of _ m]) simp
next
  case (Suc k)
  then have e: "[b ..< e] = b # [b + 1 ..< e]" "b + 1 \<le> e" "k = e - (b + 1)"
    by (simp_all add: upt_conv_Cons)
  obtain d1 m1 where d1: "push_bin (stream_bin p L seed n f b) d =
      Some (map (\<lambda>j. \<lparr>ds_source_id = j, ds_payload = f j\<rparr>) [m ..< m1], d1)" "m \<le> m1"
      "lossless_inv p L seed n f (b + 1) m1 d1"
    using push_lossless_bin [OF Suc.prems(1) ok len once] by blast
  obtain d2 m2 where d2: "decode_all_bins (map (stream_bin p L seed n f) [b + 1 ..< e]) d1 =
      Some (map (\<lambda>j. \<lparr>ds_source_id = j, ds_payload = f j\<rparr>) [m1 ..< m2], d2)" "m1 \<le> m2"
      "lossless_inv p L seed n f e m2 d2"
    using Suc.hyps(1) [OF e(3) d1(3) e(2)] by blast
  show ?case using d1 d2 upt_split [OF d1(2) d2(2)]
    by (intro exI [of _ d2] exI [of _ m2]) (simp add: e(1))
qed

lemma lossless_inv_new:
  "params_ok p \<Longrightarrow> lossless_inv p L seed n f 0 0 (decoder_new p L seed (Some n))"
  by (simp add: lossless_inv_def decoder_new_def decoder_for_def xor_or_zero_def mixes_none)

text \<open>C10. Encoding then decoding gives the sources back: when no bin is lost or reordered, the
  decoder of a terminated stream releases every source, in order and padded to the symbol size,
  whatever the other edges collide with; the only requirement on the drawn edges is that no
  source draws its own top-left bin again.\<close>

theorem mettle_round_trip:
  assumes "overhead_new a c = Inr ratio" "length sources \<le> 2 ^ 64"
    and "\<forall>x \<in> set sources. length x \<le> L"
    and "own_tle_once \<lparr>mp_overhead = ratio\<rparr> seed (length sources)"
  shows "\<exists>bins d. encode_stream \<lparr>mp_overhead = ratio\<rparr> L seed sources = Some bins \<and>
    decode_all_bins bins (decoder_new \<lparr>mp_overhead = ratio\<rparr> L seed (Some (length sources))) =
      Some (map (\<lambda>j. \<lparr>ds_source_id = j, ds_payload = padded_payload L (sources ! j)\<rparr>)
        [0 ..< length sources], d)"
proof -
  let ?p = "\<lparr>mp_overhead = ratio\<rparr>" and ?n = "length sources" and ?f = "\<lambda>j. padded_payload L (sources ! j)"
  have ok: "params_ok ?p" by (rule overhead_params_ok [OF assms(1)])
  have len: "length (?f j) = L" if "j < ?n" for j using assms(3) that by simp
  obtain d m where d: "decode_all_bins (map (stream_bin ?p L seed ?n ?f) [0 ..< terminal_departure_end_exclusive ?p ?n])
        (decoder_new ?p L seed (Some ?n)) = Some (map (\<lambda>j. \<lparr>ds_source_id = j, ds_payload = ?f j\<rparr>) [0 ..< m], d)"
      "lossless_inv ?p L seed ?n ?f (terminal_departure_end_exclusive ?p ?n) m d"
    using decode_lossless_bins [where f = ?f, OF lossless_inv_new [OF ok] ok assms(2) len assms(4) le0] by blast
  have "m = ?n"
  proof (rule ccontr)
    assume "m \<noteq> ?n"
    then have m: "m < ?n" "terminal_departure_end_exclusive ?p ?n \<le> tle_bin_id ?p m"
      using d(2) by (auto simp: lossless_inv_def)
    then show False using edge_below_terminal_end [OF ok m(1) tle_in_edges] by (simp add: not_le [symmetric])
  qed
  then show ?thesis using d(1) encode_stream_bins [OF ok assms(3)] by blast
qed

text \<open>A stream of two sources, from a seed whose first draws all fail.\<close>

lemma demo_overhead: "overhead_new 1 20 = Inr \<lparr>or_numerator = 1, or_denominator = 20\<rparr>"
  by (simp add: overhead_new_def gcd_loop.simps)

lemma demo_own_tle_once:
  "own_tle_once \<lparr>mp_overhead = \<lparr>or_numerator = 1, or_denominator = 20\<rparr>\<rparr> 1 2"
proof (rule own_tle_onceI [OF overhead_params_ok [OF demo_overhead]])
  fix j k :: nat assume jk: "j < 2" "k < 3"
  consider "j = 0" | "j = 1" using jk(1) by linarith
  then show "fst (next_entropy (mix_entropy 1 (word_of_nat j) (word_of_nat k + 2))) AND
      ucast (snd (NON_TLE_PROFILE ! k) - 1) \<noteq> 0"
  proof cases
    case 1
    have "k = 0 \<or> k = 1 \<or> k = 2" using jk(2) by linarith
    then show ?thesis unfolding 1 by (elim disjE; hypsubst; code_simp)
  next
    case 2
    have "k = 0 \<or> k = 1 \<or> k = 2" using jk(2) by linarith
    then show ?thesis unfolding 2 by (elim disjE; hypsubst; code_simp)
  qed
qed

theorem mettle_round_trip_witness:
  "\<exists>bins d. encode_stream \<lparr>mp_overhead = \<lparr>or_numerator = 1, or_denominator = 20\<rparr>\<rparr> 2 1 [[1, 2], [3]] = Some bins \<and>
    decode_all_bins bins (decoder_new \<lparr>mp_overhead = \<lparr>or_numerator = 1, or_denominator = 20\<rparr>\<rparr> 2 1 (Some 2)) =
      Some ([\<lparr>ds_source_id = 0, ds_payload = [1, 2]\<rparr>, \<lparr>ds_source_id = 1, ds_payload = [3, 0]\<rparr>], d)"
  using mettle_round_trip [OF demo_overhead, of "[[1, 2], [3]]" 2 1] demo_own_tle_once
  by (simp add: numeral_2_eq_2 [symmetric] upt_conv_Cons padded_payload_def put_def)

end
