(* ===== verification/Mettle_Losses.thy ===== *)
theory Mettle_Losses
  imports Mettle_Decoder "HOL-Library.Sublist"
begin

text \<open>
  The Mettle decoder on a stream with losses: what holds of the buffered bins, the prefix sums of
  the top-left bins and the payloads kept for peeling, for every set of bins that arrives in
  order, and that peeling goes on until every buffered bin touches zero or several sources still
  undecoded.
\<close>

section \<open>Any sequence of bins\<close>

text \<open>Whatever arrives, released sources carry consecutive ids.\<close>

lemma release_waiting_ids:
  "map ds_source_id (fst (release_waiting d)) =
     [md_next_decoded_source_id d ..< md_next_decoded_source_id (snd (release_waiting d))] \<and>
   md_next_decoded_source_id d \<le> md_next_decoded_source_id (snd (release_waiting d))"
proof (induction d rule: release_waiting.induct)
  case (1 d)
  show ?case
  proof (cases "map_of (md_decoded_future_payloads d) (md_next_decoded_source_id d)")
    case None
    then show ?thesis by (simp add: release_waiting.simps [of d])
  next
    case (Some x)
    let ?r = "release_prefix_source (md_next_decoded_source_id d) x (d\<lparr>md_decoded_future_payloads :=
      btree_remove (md_next_decoded_source_id d) (md_decoded_future_payloads d)\<rparr>)"
    have "release_waiting d = (fst ?r # fst (release_waiting (snd ?r)), snd (release_waiting (snd ?r)))"
      by (simp add: release_waiting.simps [of d] Some split_beta)
    then show ?thesis using 1 [OF Some prod.collapse] by (simp add: upt_conv_Cons)
  qed
qed

lemma decode_source_ids:
  "map ds_source_id (fst (decode_source_and_release s x d)) =
     [md_next_decoded_source_id d ..< md_next_decoded_source_id (snd (decode_source_and_release s x d))] \<and>
   md_next_decoded_source_id d \<le> md_next_decoded_source_id (snd (decode_source_and_release s x d))"
proof (cases "s = md_next_decoded_source_id d")
  case True
  let ?r = "release_prefix_source s x (apply_decoded_source_edges s x d)"
  have "decode_source_and_release s x d =
      (fst ?r # fst (release_waiting (snd ?r)), snd (release_waiting (snd ?r)))"
    using True by (simp add: decode_source_and_release_def Let_def split_beta)
  then show ?thesis using release_waiting_ids [of "snd ?r"] True by (simp add: upt_conv_Cons)
next
  case False
  then show ?thesis by (simp add: decode_source_and_release_def Let_def)
qed

lemma next_decodable_buffered:
  assumes "next_decodable_bin d = Some (s, b)"
  shows "map_of (md_received_bins d) b \<noteq> None"
proof (cases "find_unique_bin_for_next_source d")
  case None
  have "b \<in> fst ` set bins" if "find_future_loop d bins = Some (s, b)" for bins
    using that by (induction d bins rule: find_future_loop.induct) (auto split: if_splits option.splits)
  then show ?thesis using assms None by (auto simp: next_decodable_bin_def find_unique_future_bin_def map_of_eq_None_iff)
next
  case (Some b')
  then have "b' = b" using assms by (simp add: next_decodable_bin_def)
  then show ?thesis using Some
    by (auto simp: find_unique_bin_for_next_source_def find_Some_iff split: option.splits)
qed

text \<open>The drain loop ends: from every state of the decoder the loop over the decodable bins
  returns without reaching the panic of \<open>expect\<close>, in a state where no further bin is decodable,
  with no bin added, and the sources it releases are the next ones in order.\<close>

lemma drain_returns:
  "\<exists>out d'. drain_decodable_sources d = Some (out, d') \<and> next_decodable_bin d' = None \<and>
     length (md_received_bins d') \<le> length (md_received_bins d) \<and>
     map ds_source_id out = [md_next_decoded_source_id d ..< md_next_decoded_source_id d'] \<and>
     md_next_decoded_source_id d \<le> md_next_decoded_source_id d'"
proof (induction d rule: drain_decodable_sources.induct)
  case (1 d)
  show ?case
  proof (cases "next_decodable_bin d")
    case None
    then show ?thesis by (simp add: drain_decodable_sources.simps [of d])
  next
    case (Some sb)
    obtain s b where sb: "sb = (s, b)" by fastforce
    obtain bin where bin: "map_of (md_received_bins d) b = Some bin"
      using next_decodable_buffered Some sb by blast
    let ?r = "decode_source_and_release s (bb_payload bin)
      (d\<lparr>md_received_bins := btree_remove b (md_received_bins d)\<rparr>)"
    have r: "decode_buffered_bin s b d = Some (fst ?r, snd ?r)"
      by (simp add: decode_buffered_bin_def bin)
    obtain out d' where d': "drain_decodable_sources (snd ?r) = Some (out, d')" "next_decodable_bin d' = None"
      "length (md_received_bins d') \<le> length (md_received_bins (snd ?r))"
      "map ds_source_id out = [md_next_decoded_source_id (snd ?r) ..< md_next_decoded_source_id d']"
      "md_next_decoded_source_id (snd ?r) \<le> md_next_decoded_source_id d'"
      using 1 [OF Some sb [symmetric] r refl] by blast
    have "drain_decodable_sources d = Some (fst ?r @ out, d')"
      by (simp add: drain_decodable_sources.simps [of d] Some sb r d'(1) split_beta)
    moreover have "length (md_received_bins (snd ?r)) < length (md_received_bins d)"
      by (rule decode_buffered_bin_shrinks [OF r])
    ultimately show ?thesis
      using d' decode_source_ids [of s "bb_payload bin" "d\<lparr>md_received_bins := btree_remove b (md_received_bins d)\<rparr>"]
        upt_split [of "md_next_decoded_source_id d" "md_next_decoded_source_id (snd ?r)" "md_next_decoded_source_id d'"]
      by (intro exI [of _ "fst ?r @ out"] exI [of _ d']) auto
  qed
qed

lemma decode_then_drain:
  assumes "decode_source_and_release s x d = (decoded, d1)" "drain_decodable_sources d1 = Some (out, d2)"
    "map ds_source_id out = [md_next_decoded_source_id d1 ..< md_next_decoded_source_id d2]"
    "md_next_decoded_source_id d1 \<le> md_next_decoded_source_id d2"
  shows "map ds_source_id (decoded @ out) = [md_next_decoded_source_id d ..< md_next_decoded_source_id d2] \<and>
    md_next_decoded_source_id d \<le> md_next_decoded_source_id d2"
  using decode_source_ids [of s x d] assms
    upt_split [of "md_next_decoded_source_id d" "md_next_decoded_source_id d1" "md_next_decoded_source_id d2"]
  by simp

lemma push_bin_returns:
  "\<exists>out d'. push_bin bin d = Some (out, d') \<and>
     map ds_source_id out = [md_next_decoded_source_id d ..< md_next_decoded_source_id d'] \<and>
     md_next_decoded_source_id d \<le> md_next_decoded_source_id d'"
proof (cases "accepts bin d")
  case False
  then have "push_bin bin d = Some ([], d)"
    unfolding push_bin_def accepts_def Let_def by (auto split: option.split)
  then show ?thesis by simp
next
  case True
  let ?d1 = "mark_seen (mb_bin_id bin) d" and ?b = "mb_bin_id bin" and ?m = "md_next_decoded_source_id d"
  consider (fast) "?b = tle_bin_id (md_params d) ?m" "md_received_bins d = []"
    | (closed) "\<not> (?b = tle_bin_id (md_params d) ?m \<and> md_received_bins d = [])"
        "\<not> is_tle_bin_id ?d1 ?b" "bin_has_no_undecoded_touchers ?d1 ?b"
    | (slow) "\<not> (?b = tle_bin_id (md_params d) ?m \<and> md_received_bins d = [])"
        "is_tle_bin_id ?d1 ?b \<or> \<not> bin_has_no_undecoded_touchers ?d1 ?b"
    by blast
  then show ?thesis
  proof cases
    case fast
    then show ?thesis using push_bin_fast [OF True fast] decode_source_ids [of ?m _ "fast_decoder ?d1"]
      by (metis fast_decoder_next mark_seen_simps(3) prod.collapse)
  next
    case closed
    then show ?thesis using push_bin_closed [OF True closed] by simp
  next
    case slow
    let ?x = "peel_known_prefix_from_bin ?d1 ?b (mb_payload bin)"
    show ?thesis
    proof (cases "?b = tle_bin_id (md_params d) ?m")
      case here: True
      obtain decoded d2 where d2: "decode_source_and_release ?m ?x ?d1 = (decoded, d2)" by fastforce
      obtain out d3 where d3: "drain_decodable_sources d2 = Some (out, d3)"
        "map ds_source_id out = [md_next_decoded_source_id d2 ..< md_next_decoded_source_id d3]"
        "md_next_decoded_source_id d2 \<le> md_next_decoded_source_id d3"
        using drain_returns by blast
      then show ?thesis using push_bin_next [OF True slow here] d2 decode_then_drain [OF d2 d3] by simp
    next
      case False
      let ?d2 = "?d1\<lparr>md_received_bins := btree_insert ?b
        \<lparr>bb_payload = ?x, bb_remaining_touchers = count_remaining_touchers ?d1 ?b\<rparr> (md_received_bins d)\<rparr>"
      obtain out d3 where "drain_decodable_sources ?d2 = Some (out, d3)"
        "map ds_source_id out = [md_next_decoded_source_id ?d2 ..< md_next_decoded_source_id d3]"
        "md_next_decoded_source_id ?d2 \<le> md_next_decoded_source_id d3"
        using drain_returns by blast
      then show ?thesis using push_bin_other [OF True slow(2) False] by simp
    qed
  qed
qed

text \<open>C11. Decoding ends on any input: whatever bins arrive, in whatever order and with whatever
  payloads, the decoder returns (its peeling and release loops end and no \<open>expect\<close> is reached),
  and the sources it releases carry the next ids, each once and in order.\<close>

theorem any_bins_decode_in_order:
  "\<exists>out d'. decode_all_bins bins d = Some (out, d') \<and>
     map ds_source_id out = [md_next_decoded_source_id d ..< md_next_decoded_source_id d'] \<and>
     md_next_decoded_source_id d \<le> md_next_decoded_source_id d'"
proof (induction bins arbitrary: d)
  case Nil
  then show ?case by simp
next
  case (Cons bin bins)
  obtain out1 d1 where 1: "push_bin bin d = Some (out1, d1)"
      "map ds_source_id out1 = [md_next_decoded_source_id d ..< md_next_decoded_source_id d1]"
      "md_next_decoded_source_id d \<le> md_next_decoded_source_id d1"
    using push_bin_returns by blast
  obtain out2 d2 where 2: "decode_all_bins bins d1 = Some (out2, d2)"
      "map ds_source_id out2 = [md_next_decoded_source_id d1 ..< md_next_decoded_source_id d2]"
      "md_next_decoded_source_id d1 \<le> md_next_decoded_source_id d2"
    using Cons.IH by blast
  show ?case using 1 2 upt_split [OF 1(3) 2(3)]
    by (intro exI [of _ "out1 @ out2"] exI [of _ d2]) simp
qed

section \<open>Buffered bins and prefix sums\<close>

definition undecoded_touchers :: "MettleParams \<Rightarrow> u64 \<Rightarrow> nat \<Rightarrow> nat set \<Rightarrow> nat \<Rightarrow> nat set" where
  "undecoded_touchers p seed n D b = {j. j < n \<and> j \<notin> D \<and> b \<in> set (edge_bin_ids p j seed (Some n))}"

definition single_edges :: "MettleParams \<Rightarrow> u64 \<Rightarrow> nat \<Rightarrow> nat \<Rightarrow> bool" where
  "single_edges p seed n b \<longleftrightarrow> (\<forall>j<n. count_list (edge_bin_ids p j seed (Some n)) b \<le> 1)"

text \<open>A buffered bin combines its undecoded sources, and counts them.\<close>

definition bin_holds ::
    "MettleParams \<Rightarrow> nat \<Rightarrow> u64 \<Rightarrow> nat \<Rightarrow> (nat \<Rightarrow> bytes) \<Rightarrow> nat set \<Rightarrow> nat \<Rightarrow> BufferedBin \<Rightarrow> bool" where
  "bin_holds p L seed n f D b bin \<longleftrightarrow>
     mixes L n f (\<lambda>j. if j \<in> D then 0 else count_list (edge_bin_ids p j seed (Some n)) b) (bb_payload bin) \<and>
     bb_remaining_touchers bin = card (undecoded_touchers p seed n D b) \<and> single_edges p seed n b \<and>
     latest_source_id_for_bin p b \<noteq> None"

definition bins_hold ::
    "MettleParams \<Rightarrow> nat \<Rightarrow> u64 \<Rightarrow> nat \<Rightarrow> (nat \<Rightarrow> bytes) \<Rightarrow> nat set \<Rightarrow> (nat \<times> BufferedBin) list \<Rightarrow> bool" where
  "bins_hold p L seed n f D bins \<longleftrightarrow> (\<forall>(b, bin) \<in> set bins. bin_holds p L seed n f D b bin)"

text \<open>The prefix sums of the top-left bins of the sources outside \<open>T\<close>.\<close>

definition xors_hold ::
    "MettleParams \<Rightarrow> nat \<Rightarrow> u64 \<Rightarrow> nat \<Rightarrow> (nat \<Rightarrow> bytes) \<Rightarrow> nat set \<Rightarrow> nat set \<Rightarrow> (nat \<rightharpoonup> bytes) \<Rightarrow> bool" where
  "xors_hold p L seed n f D T xors \<longleftrightarrow>
     (\<forall>t<n. t \<notin> T \<longrightarrow>
        mixes L n f (\<lambda>j. if j \<in> D then count_list (edge_bin_ids p j seed (Some n)) (tle_bin_id p t) else 0)
          (xor_or_zero L xors t))"

lemma apply_decoded_edges_received:
  "md_received_bins (fold (apply_decoded_edge s x) bs d) =
     map (\<lambda>(b, bin). (b, (peel_buffered x ^^ count_list bs b) bin)) (md_received_bins d)"
proof (induction bs arbitrary: d)
  case (Cons a bs)
  have "md_received_bins (apply_decoded_edge s x a d) =
      map (\<lambda>(b, bin). if b = a then (b, peel_buffered x bin) else (b, bin)) (md_received_bins d)"
    by (simp add: apply_decoded_edge_def Let_def split: option.split)
  then show ?case using Cons.IH [of "apply_decoded_edge s x a d"]
    by (auto simp: funpow_swap1)
qed simp

lemma apply_decoded_edges_tle_skip:
  assumes "decoder_for p L seed n d" "params_ok p" "n \<le> 2 ^ 64" "t \<le> s"
  shows "md_decoded_tle_prefix_xors (apply_decoded_source_edges s x d) t = md_decoded_tle_prefix_xors d t"
proof -
  have "md_decoded_tle_prefix_xors (fold (apply_decoded_edge s x) bs d) t = md_decoded_tle_prefix_xors d t" for bs
  proof (induction bs arbitrary: d)
    case (Cons a bs)
    have "md_decoded_tle_prefix_xors (apply_decoded_edge s x a d) t = md_decoded_tle_prefix_xors d t"
      using assms(4) by (auto simp: apply_decoded_edge_def Let_def split: option.split)
    then show ?case using Cons.IH by simp
  qed simp
  then show ?thesis by (simp add: apply_decoded_source_edges_def)
qed

lemma bin_holds_peeled:
  assumes hold: "bin_holds p L seed n f D b bin" and s: "s < n" "s \<notin> D" "length (f s) = L"
  shows "bin_holds p L seed n f (insert s D) b
    ((peel_buffered (f s) ^^ count_list (edge_bin_ids p s seed (Some n)) b) bin)"
proof -
  let ?edges = "\<lambda>j. edge_bin_ids p j seed (Some n)"
  have mix: "mixes L n f (\<lambda>j. if j \<in> D then 0 else count_list (?edges j) b) (bb_payload bin)"
    and count: "bb_remaining_touchers bin = card (undecoded_touchers p seed n D b)"
    and single: "single_edges p seed n b" and latest: "latest_source_id_for_bin p b \<noteq> None"
    using hold by (simp_all add: bin_holds_def)
  have fin: "finite (undecoded_touchers p seed n D b)" by (simp add: undecoded_touchers_def)
  have touch: "undecoded_touchers p seed n (insert s D) b = undecoded_touchers p seed n D b - {s}"
    by (auto simp: undecoded_touchers_def)
  have "count_list (?edges s) b \<le> 1" using single s(1) by (simp add: single_edges_def)
  then consider (touched) "count_list (?edges s) b = 1" | (free) "count_list (?edges s) b = 0" by linarith
  then show ?thesis
  proof cases
    case touched
    then have "b \<in> set (?edges s)" by (metis count_notin zero_neq_one)
    then have "s \<in> undecoded_touchers p seed n D b" using s by (simp add: undecoded_touchers_def)
    then have "card (undecoded_touchers p seed n (insert s D) b) = card (undecoded_touchers p seed n D b) - 1"
      using fin by (simp add: touch)
    moreover have "mixes L n f (\<lambda>j. if j \<in> insert s D then 0 else count_list (?edges j) b)
        (xor_payload (bb_payload bin) (f s))"
      by (rule mixes_parity [OF mixes_xor [OF mix mixes_single [where j = s and f = f, OF s(1,3)]]])
        (use touched s(2) in auto)
    ultimately show ?thesis using count single latest touched by (simp add: bin_holds_def peel_buffered_def)
  next
    case free
    then have "s \<notin> undecoded_touchers p seed n D b" by (simp add: undecoded_touchers_def count_list_0_iff)
    then have "undecoded_touchers p seed n (insert s D) b = undecoded_touchers p seed n D b" by (simp add: touch)
    moreover have "mixes L n f (\<lambda>j. if j \<in> insert s D then 0 else count_list (?edges j) b) (bb_payload bin)"
      by (rule mixes_parity [OF mix]) (use free in auto)
    ultimately show ?thesis using count single latest free by (simp add: bin_holds_def)
  qed
qed

lemma apply_edges_bins_hold:
  assumes "decoder_for p L seed n d" "bins_hold p L seed n f D (md_received_bins d)"
    and s: "s < n" "s \<notin> D" "length (f s) = L"
  shows "bins_hold p L seed n f (insert s D) (md_received_bins (apply_decoded_source_edges s (f s) d))"
    "fst ` set (md_received_bins (apply_decoded_source_edges s (f s) d)) = fst ` set (md_received_bins d)"
    "map fst (md_received_bins (apply_decoded_source_edges s (f s) d)) = map fst (md_received_bins d)"
proof -
  have bins: "md_received_bins (apply_decoded_source_edges s (f s) d) =
      map (\<lambda>(b, bin). (b, (peel_buffered (f s) ^^ count_list (edge_bin_ids p s seed (Some n)) b) bin))
        (md_received_bins d)"
    using assms(1) apply_decoded_edges_received [of s "f s" "edge_bin_ids p s seed (Some n)" d]
    by (simp add: apply_decoded_source_edges_def decoder_edge_bin_ids_def decoder_for_def)
  show "bins_hold p L seed n f (insert s D) (md_received_bins (apply_decoded_source_edges s (f s) d))"
    using assms(2) bin_holds_peeled [where s = s and f = f, OF _ s] unfolding bins bins_hold_def by auto
  show *: "map fst (md_received_bins (apply_decoded_source_edges s (f s) d)) = map fst (md_received_bins d)"
    by (simp add: bins split_beta comp_def)
  show "fst ` set (md_received_bins (apply_decoded_source_edges s (f s) d)) = fst ` set (md_received_bins d)"
    using arg_cong [OF *, of set] by simp
qed

lemma apply_edges_xors_hold:
  assumes d: "decoder_for p L seed n d" and ok: "params_ok p" "n \<le> 2 ^ 64"
    and hold: "xors_hold p L seed n f D (insert s D) (md_decoded_tle_prefix_xors d)"
    and s: "s < n" "s \<notin> D" "length (f s) = L"
  shows "xors_hold p L seed n f (insert s D) (insert s D)
    (md_decoded_tle_prefix_xors (apply_decoded_source_edges s (f s) d))"
  unfolding xors_hold_def
proof (intro allI impI)
  fix t assume t: "t < n" "t \<notin> insert s D"
  let ?w = "\<lambda>j. count_list (edge_bin_ids p j seed (Some n)) (tle_bin_id p t)"
  have old: "mixes L n f (\<lambda>j. if j \<in> D then ?w j else 0) (xor_or_zero L (md_decoded_tle_prefix_xors d) t)"
    using hold t by (simp add: xors_hold_def)
  show "mixes L n f (\<lambda>j. if j \<in> insert s D then ?w j else 0)
      (xor_or_zero L (md_decoded_tle_prefix_xors (apply_decoded_source_edges s (f s) d)) t)"
  proof (cases "s < t")
    case True
    show ?thesis
      by (rule mixes_parity [OF apply_decoded_edges_tle [OF d ok t(1) True s(3) old]]) (use s(2) in auto)
  next
    case False
    have tn: "terminal_ok (Some n)" using t(1) by (simp add: terminal_ok_def)
    have "?w s = 0" using False t(2) ok(1) by (intro untouched_count [OF ok(1) tn]) simp
    then have "mixes L n f (\<lambda>j. if j \<in> insert s D then ?w j else 0) (xor_or_zero L (md_decoded_tle_prefix_xors d) t)"
      by (intro mixes_parity [OF old]) auto
    then show ?thesis using apply_decoded_edges_tle_skip [OF d ok, of t s "f s"] False by (simp add: xor_or_zero_def)
  qed
qed

section \<open>The decoder under losses\<close>

definition decoded_set :: "MettleDecoder \<Rightarrow> nat set" where
  "decoded_set d = {..<md_next_decoded_source_id d} \<union> dom (map_of (md_decoded_future_payloads d))"

lemma decoded_set_iff: "j \<in> decoded_set d \<longleftrightarrow> source_is_decoded d j"
  by (auto simp: decoded_set_def source_is_decoded_def)

text \<open>\<open>B\<close> bounds the bins that have arrived, \<open>k\<close> the sources that wait, and \<open>T\<close> holds the sources
  whose prefix sum has already been taken.\<close>

definition loss_inv ::
    "MettleParams \<Rightarrow> nat \<Rightarrow> u64 \<Rightarrow> nat \<Rightarrow> (nat \<Rightarrow> bytes) \<Rightarrow> nat \<Rightarrow> nat \<Rightarrow> nat set \<Rightarrow> nat set \<Rightarrow> MettleDecoder \<Rightarrow> bool" where
  "loss_inv p L seed n f B k T D d \<longleftrightarrow>
     decoder_for p L seed n d \<and> md_next_decoded_source_id d \<le> n \<and>
     btree_wf (md_decoded_future_payloads d) \<and>
     (\<forall>j x. map_of (md_decoded_future_payloads d) j = Some x \<longrightarrow> k \<le> j \<and> j < n \<and> x = f j) \<and>
     md_decoded_prefix_start_source_id d = md_next_decoded_source_id d - DECODED_PREFIX_WINDOW \<and>
     md_decoded_prefix_payloads d =
       map f [md_next_decoded_source_id d - DECODED_PREFIX_WINDOW ..< md_next_decoded_source_id d] \<and>
     btree_wf (md_received_bins d) \<and> bins_hold p L seed n f D (md_received_bins d) \<and>
     xors_hold p L seed n f D (D \<union> T) (md_decoded_tle_prefix_xors d) \<and>
     (\<forall>b \<in> fst ` set (md_received_bins d). b < B) \<and> md_seen_bin_ids d \<subseteq> {..<B} \<and>
     (\<forall>j \<in> D. tle_bin_id p j < B)"

lemma loss_inv_new:
  "loss_inv p L seed n f 0 1 {} (decoded_set (decoder_new p L seed (Some n))) (decoder_new p L seed (Some n))"
  by (simp add: loss_inv_def decoder_new_def decoder_for_def xor_or_zero_def mixes_none bins_hold_def
      xors_hold_def decoded_set_def btree_wf_def)

lemma push_prefix_window:
  assumes "md_decoded_prefix_start_source_id d = m - DECODED_PREFIX_WINDOW"
    "md_decoded_prefix_payloads d = map f [m - DECODED_PREFIX_WINDOW ..< m]"
  shows "md_decoded_prefix_start_source_id (push_decoded_prefix_payload (f m) d) = m + 1 - DECODED_PREFIX_WINDOW"
    "md_decoded_prefix_payloads (push_decoded_prefix_payload (f m) d) =
       map f [m + 1 - DECODED_PREFIX_WINDOW ..< m + 1]"
proof -
  have more: "md_decoded_prefix_payloads d @ [f m] = map f [m - DECODED_PREFIX_WINDOW ..< m + 1]"
    using assms(2) by simp
  have "tl [m - DECODED_PREFIX_WINDOW ..< m + 1] = [m + 1 - DECODED_PREFIX_WINDOW ..< m + 1]"
    if "DECODED_PREFIX_WINDOW \<le> m"
    using that by (simp add: tl_upt Suc_diff_le del: upt_Suc)
  then show "md_decoded_prefix_start_source_id (push_decoded_prefix_payload (f m) d) = m + 1 - DECODED_PREFIX_WINDOW"
    "md_decoded_prefix_payloads (push_decoded_prefix_payload (f m) d) =
       map f [m + 1 - DECODED_PREFIX_WINDOW ..< m + 1]"
    using assms(1) unfolding push_decoded_prefix_payload_def Let_def
    by (auto simp: more map_tl [symmetric] not_le not_less Suc_diff_le simp del: upt_Suc)
qed

text \<open>Releasing the next source, already counted in \<open>D\<close>.\<close>

lemma release_step:
  assumes inv: "loss_inv p L seed n f B (m + 1) {} D d" and m: "md_next_decoded_source_id d = m" "m < n"
    and D: "D = {..<m + 1} \<union> dom (map_of (md_decoded_future_payloads d))"
  shows "loss_inv p L seed n f B (m + 1) {} D (snd (release_prefix_source m (f m) d))"
    "decoded_set (snd (release_prefix_source m (f m) d)) = D"
    "fst ` set (md_received_bins (snd (release_prefix_source m (f m) d))) \<subseteq> fst ` set (md_received_bins d)"
proof -
  let ?d = "snd (release_prefix_source m (f m) d)"
  have for_d: "decoder_for p L seed n d" using inv by (simp add: loss_inv_def)
  have prefix: "md_decoded_prefix_start_source_id d = m - DECODED_PREFIX_WINDOW"
    "md_decoded_prefix_payloads d = map f [m - DECODED_PREFIX_WINDOW ..< m]"
    using inv m(1) by (simp_all add: loss_inv_def)
  have prefix': "md_decoded_prefix_start_source_id ?d = m + 1 - DECODED_PREFIX_WINDOW"
    "md_decoded_prefix_payloads ?d = map f [m + 1 - DECODED_PREFIX_WINDOW ..< m + 1]"
    using push_prefix_window [OF prefix]
    by (simp_all add: release_prefix_source_def drop_bins_closed_by_prefix_def Let_def)
  show D': "decoded_set ?d = D" using m(1) by (simp add: decoded_set_def D)
  have sub: "set (md_received_bins ?d) \<subseteq> set (md_received_bins d)" "btree_wf (md_received_bins ?d)"
    using inv by (auto simp: loss_inv_def release_prefix_source_def drop_bins_closed_by_prefix_def Let_def
        btree_wf_filter) (simp add: btree_wf_def)
  then show "fst ` set (md_received_bins ?d) \<subseteq> fst ` set (md_received_bins d)" by (intro image_mono)
  have "xor_or_zero L (md_decoded_tle_prefix_xors ?d) t = xor_or_zero L (md_decoded_tle_prefix_xors d) t"
    if "t < n" "t \<notin> D" for t
    using that D m(1) by (intro release_prefix_tle [OF for_d]) auto
  then have "xors_hold p L seed n f D D (md_decoded_tle_prefix_xors ?d)"
    using inv by (simp add: loss_inv_def xors_hold_def)
  moreover have "bins_hold p L seed n f D (md_received_bins ?d)"
    using inv sub(1) by (auto simp: loss_inv_def bins_hold_def)
  moreover have "md_seen_bin_ids ?d \<subseteq> {..<B}"
    using inv by (intro order_trans [OF release_prefix_more(2)]) (simp add: loss_inv_def)
  moreover have "\<forall>b \<in> fst ` set (md_received_bins ?d). b < B"
    using inv sub(1) by (auto simp: loss_inv_def)
  ultimately show "loss_inv p L seed n f B (m + 1) {} D ?d"
    using inv m prefix' sub(2) unfolding loss_inv_def by simp
qed

definition delivered :: "(nat \<Rightarrow> bytes) \<Rightarrow> nat \<Rightarrow> nat \<Rightarrow> DecodedSource list" where
  "delivered f m m' = map (\<lambda>j. \<lparr>ds_source_id = j, ds_payload = f j\<rparr>) [m ..< m']"

lemma delivered_append: "m \<le> m' \<Longrightarrow> m' \<le> m'' \<Longrightarrow> delivered f m m' @ delivered f m' m'' = delivered f m m''"
  by (simp add: delivered_def upt_split [of m m' m''])

lemma delivered_Cons: "m < m' \<Longrightarrow> delivered f m m' = \<lparr>ds_source_id = m, ds_payload = f m\<rparr> # delivered f (Suc m) m'"
  by (simp add: delivered_def upt_conv_Cons)

lemma loss_inv_next_le: "loss_inv p L seed n f B k T D d \<Longrightarrow> md_next_decoded_source_id d \<le> n"
  by (simp add: loss_inv_def)

lemma release_waiting_sound:
  assumes "loss_inv p L seed n f B (md_next_decoded_source_id d) {} (decoded_set d) d"
  shows "\<exists>d'. release_waiting d = (delivered f (md_next_decoded_source_id d) (md_next_decoded_source_id d'), d') \<and>
    md_next_decoded_source_id d \<le> md_next_decoded_source_id d' \<and> decoded_set d' = decoded_set d \<and>
    fst ` set (md_received_bins d') \<subseteq> fst ` set (md_received_bins d) \<and>
    loss_inv p L seed n f B (md_next_decoded_source_id d' + 1) {} (decoded_set d') d'"
  using assms
proof (induction d rule: release_waiting.induct)
  case (1 d)
  let ?m = "md_next_decoded_source_id d"
  show ?case
  proof (cases "map_of (md_decoded_future_payloads d) ?m")
    case None
    have fut: "?m \<le> j \<and> j < n \<and> x = f j" if "map_of (md_decoded_future_payloads d) j = Some x" for j x
      using 1(2) that unfolding loss_inv_def by blast
    have "?m + 1 \<le> j \<and> j < n \<and> x = f j" if x: "map_of (md_decoded_future_payloads d) j = Some x" for j x
    proof -
      have "j \<noteq> ?m" using x None by auto
      then show ?thesis using fut [OF x] by simp
    qed
    then have "loss_inv p L seed n f B (?m + 1) {} (decoded_set d) d"
      using 1(2) unfolding loss_inv_def by simp
    moreover have "release_waiting d = (delivered f ?m ?m, d)"
      using None by (simp add: release_waiting.simps [of d] delivered_def)
    ultimately show ?thesis by blast
  next
    case (Some x)
    let ?d0 = "d\<lparr>md_decoded_future_payloads := btree_remove ?m (md_decoded_future_payloads d)\<rparr>"
    let ?r = "release_prefix_source ?m x ?d0"
    have x: "x = f ?m" "?m < n" using 1(2) Some by (auto simp: loss_inv_def)
    have D: "decoded_set d = {..<?m + 1} \<union> dom (map_of (md_decoded_future_payloads ?d0))"
      using Some by (auto simp: decoded_set_def less_Suc_eq split: if_splits)
    have later: "?m + 1 \<le> j \<and> j < n \<and> y = f j"
      if y: "map_of (md_decoded_future_payloads ?d0) j = Some y" for j y
    proof -
      have "j \<noteq> ?m" "map_of (md_decoded_future_payloads d) j = Some y" using y by (auto split: if_splits)
      moreover from this have "?m \<le> j \<and> j < n \<and> y = f j" using 1(2) unfolding loss_inv_def by blast
      ultimately show ?thesis by auto
    qed
    have "btree_wf (btree_remove ?m (md_decoded_future_payloads d))"
      using 1(2) by (simp add: btree_remove_def btree_wf_filter loss_inv_def)
    then have "loss_inv p L seed n f B (?m + 1) {} (decoded_set d) ?d0"
      using 1(2) later unfolding loss_inv_def by (simp add: decoder_for_def del: map_of_btree_remove)
    note step = release_step [OF this _ x(2) D, folded x(1)]
    have step: "loss_inv p L seed n f B (?m + 1) {} (decoded_set d) (snd ?r)" "decoded_set (snd ?r) = decoded_set d"
      "fst ` set (md_received_bins (snd ?r)) \<subseteq> fst ` set (md_received_bins d)"
      using step by simp_all
    then obtain d' where d': "release_waiting (snd ?r) =
        (delivered f (?m + 1) (md_next_decoded_source_id d'), d')"
        "?m + 1 \<le> md_next_decoded_source_id d'" "decoded_set d' = decoded_set d"
        "fst ` set (md_received_bins d') \<subseteq> fst ` set (md_received_bins d)"
        "loss_inv p L seed n f B (md_next_decoded_source_id d' + 1) {} (decoded_set d') d'"
      using 1(1) [OF Some prod.collapse] by auto
    have "release_waiting d = (fst ?r # fst (release_waiting (snd ?r)), snd (release_waiting (snd ?r)))"
      by (simp add: release_waiting.simps [of d] Some split_beta)
    then show ?thesis using d' by (intro exI [of _ d']) (simp add: x(1) delivered_Cons)
  qed
qed

text \<open>Decoding one more source.\<close>

lemma decode_source_sound:
  assumes inv: "loss_inv p L seed n f B (md_next_decoded_source_id d + 1) {s} (decoded_set d) d"
    and ok: "params_ok p" "n \<le> 2 ^ 64" and s: "s < n" "s \<notin> decoded_set d" "length (f s) = L" "tle_bin_id p s < B"
  shows "\<exists>d'. decode_source_and_release s (f s) d =
      (delivered f (md_next_decoded_source_id d) (md_next_decoded_source_id d'), d') \<and>
    md_next_decoded_source_id d \<le> md_next_decoded_source_id d' \<and>
    decoded_set d' = insert s (decoded_set d) \<and>
    fst ` set (md_received_bins d') \<subseteq> fst ` set (md_received_bins d) \<and>
    loss_inv p L seed n f B (md_next_decoded_source_id d' + 1) {} (decoded_set d') d'"
proof -
  let ?m = "md_next_decoded_source_id d" and ?d = "apply_decoded_source_edges s (f s) d"
  let ?D = "insert s (decoded_set d)"
  have for_d: "decoder_for p L seed n d" using inv by (simp add: loss_inv_def)
  have bins: "bins_hold p L seed n f (decoded_set d) (md_received_bins d)"
    "xors_hold p L seed n f (decoded_set d) (insert s (decoded_set d)) (md_decoded_tle_prefix_xors d)"
    using inv by (simp_all add: loss_inv_def)
  note applied = apply_edges_bins_hold [where f = f and s = s, OF for_d bins(1) s(1-3)]
    apply_edges_xors_hold [where f = f and s = s, OF for_d ok bins(2) s(1-3)]
  have "btree_wf (md_received_bins ?d)" using inv applied(3) by (simp add: loss_inv_def btree_wf_def)
  then have inv1: "loss_inv p L seed n f B (?m + 1) {} ?D ?d"
    using inv applied s(4) unfolding loss_inv_def by simp
  show ?thesis
  proof (cases "s = ?m")
    case True
    let ?r = "release_prefix_source s (f s) ?d"
    have D: "?D = {..<s + 1} \<union> dom (map_of (md_decoded_future_payloads ?d))"
      using True by (auto simp: decoded_set_def)
    note step = release_step [where m = s and d = ?d, OF _ _ s(1) D]
    have step: "loss_inv p L seed n f B (s + 1) {} ?D (snd ?r)" "decoded_set (snd ?r) = ?D"
      "fst ` set (md_received_bins (snd ?r)) \<subseteq> fst ` set (md_received_bins d)"
      using step inv1 applied(2) True by simp_all
    obtain d' where d': "release_waiting (snd ?r) = (delivered f (s + 1) (md_next_decoded_source_id d'), d')"
        "s + 1 \<le> md_next_decoded_source_id d'" "decoded_set d' = ?D"
        "fst ` set (md_received_bins d') \<subseteq> fst ` set (md_received_bins d)"
        "loss_inv p L seed n f B (md_next_decoded_source_id d' + 1) {} (decoded_set d') d'"
      using release_waiting_sound [of p L seed n f B "snd ?r"] step True by auto
    have "decode_source_and_release s (f s) d =
        (fst ?r # fst (release_waiting (snd ?r)), snd (release_waiting (snd ?r)))"
      using True by (simp add: decode_source_and_release_def Let_def split_beta)
    then show ?thesis using d' True by (intro exI [of _ d']) (simp add: delivered_Cons)
  next
    case False
    let ?d' = "?d\<lparr>md_decoded_future_payloads := btree_insert s (f s) (md_decoded_future_payloads d)\<rparr>"
    have wf: "btree_wf (md_decoded_future_payloads d)" using inv by (simp add: loss_inv_def)
    have "?m \<le> s" using s(2) by (auto simp: decoded_set_def not_less)
    then have later: "?m + 1 \<le> s" using False by simp
    have D: "decoded_set ?d' = ?D" using wf by (auto simp: decoded_set_def)
    have "loss_inv p L seed n f B (?m + 1) {} ?D ?d'"
      using inv1 wf s(1) later unfolding loss_inv_def
      by (simp add: decoder_for_def btree_insert_wf)
    moreover have "decode_source_and_release s (f s) d = ([], ?d')"
      using False by (simp add: decode_source_and_release_def Let_def)
    ultimately show ?thesis using applied(2) D
      by (intro exI [of _ ?d']) (simp add: delivered_def)
  qed
qed

section \<open>The touchers the decoder finds\<close>

lemma sorted_hd_le: "sorted xs \<Longrightarrow> x \<in> set xs \<Longrightarrow> hd xs \<le> (x :: nat)"
  by (cases xs) auto

lemma sorted_le_last: "sorted xs \<Longrightarrow> x \<in> set xs \<Longrightarrow> (x :: nat) \<le> last xs"
  by (induction xs) auto

lemma possible_range_holds:
  assumes ok: "params_ok p" "terminal_ok (Some n)" and j: "j < n" "b \<in> set (edge_bin_ids p j seed (Some n))"
    and latest: "latest_source_id_for_bin p b \<noteq> None"
  shows "\<exists>e l. possible_source_id_range_for_bin p b (Some n) = Some (e, l) \<and> e \<le> j \<and> j \<le> l \<and> l < n"
proof -
  obtain q where q: "latest_source_id_for_bin p b = Some q" using latest by auto
  let ?l = "min q (n - 1)" and ?P = "\<lambda>i. source_window_contains_bin p i b (Some n)"
  let ?xs = "filter ?P [?l - COUPLING_WINDOW ..< ?l + 1]"
  have w: "?P j" using edge_in_window [OF ok j(2)] .
  have "j \<le> q" using w latest_source_le_iff [OF ok(1) q, of j] by (simp add: source_window_contains_bin_def)
  moreover have "tle_bin_id p ?l \<le> b" using latest_source_le_iff [OF ok(1) q, of ?l] by simp
  then have "?l \<le> j + COUPLING_WINDOW" using window_reaches_back [OF ok w] by simp
  ultimately have "?l - COUPLING_WINDOW \<le> j" "j < ?l + 1" using j(1) by (linarith, simp)
  then have mem: "j \<in> set ?xs" using w unfolding set_filter set_upt atLeastLessThan_iff mem_Collect_eq by blast
  then have ne: "?xs \<noteq> []" by (metis empty_iff list.set(1))
  have srt: "sorted ?xs" by (simp add: sorted_wrt_filter del: upt_Suc)
  have "last ?xs \<in> set ?xs" using ne by (rule last_in_set)
  then have "last ?xs < ?l + 1" unfolding set_filter set_upt atLeastLessThan_iff mem_Collect_eq by blast
  then have "last ?xs < n" using j(1) by linarith
  moreover have "possible_source_id_range_for_bin p b (Some n) = Some (hd ?xs, last ?xs)"
    using q j(1) ne unfolding possible_source_id_range_for_bin_def Let_def by (simp del: upt_Suc)
  ultimately show ?thesis using sorted_hd_le [OF srt mem] sorted_le_last [OF srt mem] by blast
qed

text \<open>Over a decoder that satisfies the invariant, the counted and the unique undecoded touchers
  are those of the set of all undecoded touchers.\<close>

lemma unique_toucher_loop_Some:
  assumes "unique_toucher_loop d b xs u = Some s"
  shows "u = Some s \<or> s \<in> set xs \<and> \<not> source_is_decoded d s \<and> b \<in> set (decoder_edge_bin_ids d s)"
  using assms by (induction d b xs u rule: unique_toucher_loop.induct) (auto split: if_splits)

lemma unique_toucher_loop_none:
  "(\<And>j. j \<in> set xs \<Longrightarrow> source_is_decoded d j \<or> b \<notin> set (decoder_edge_bin_ids d j)) \<Longrightarrow>
     unique_toucher_loop d b xs u = u"
  by (induction d b xs u rule: unique_toucher_loop.induct) auto

lemma unique_toucher_loop_finds:
  assumes "distinct xs" "s \<in> set xs" "\<not> source_is_decoded d s" "b \<in> set (decoder_edge_bin_ids d s)"
    and "\<And>j. j \<in> set xs \<Longrightarrow> j \<noteq> s \<Longrightarrow> source_is_decoded d j \<or> b \<notin> set (decoder_edge_bin_ids d j)"
  shows "unique_toucher_loop d b xs None = Some s"
  using assms
proof (induction xs)
  case (Cons a xs)
  show ?case
  proof (cases "a = s")
    case True
    have "source_is_decoded d j \<or> b \<notin> set (decoder_edge_bin_ids d j)" if "j \<in> set xs" for j
      using Cons.prems(1,5) that True by auto
    then show ?thesis using Cons.prems(3,4) True unique_toucher_loop_none [of xs d b "Some s"] by simp
  next
    case False
    then have "source_is_decoded d a \<or> b \<notin> set (decoder_edge_bin_ids d a)" using Cons.prems(5) by simp
    then show ?thesis using Cons.IH Cons.prems False by simp
  qed
qed simp

lemma decoder_edges:
  "decoder_for p L seed n d \<Longrightarrow> decoder_edge_bin_ids d j = edge_bin_ids p j seed (Some n)"
  "decoder_for p L seed n d \<Longrightarrow> decoder_possible_range d b = possible_source_id_range_for_bin p b (Some n)"
  by (simp_all add: decoder_edge_bin_ids_def decoder_possible_range_def decoder_for_def)

lemma possible_range_below:
  assumes "possible_source_id_range_for_bin p b (Some n) = Some (e, l)"
  shows "l < n"
proof -
  obtain q where q: "latest_source_id_for_bin p b = Some q" and n: "n \<noteq> 0"
    using assms by (auto simp: possible_source_id_range_for_bin_def split: option.splits if_splits)
  let ?xs = "filter (\<lambda>i. source_window_contains_bin p i b (Some n)) [min q (n - 1) - COUPLING_WINDOW ..< min q (n - 1) + 1]"
  have ne: "?xs \<noteq> []" and l: "l = last ?xs"
    using assms q n unfolding possible_source_id_range_for_bin_def Let_def by (auto simp del: upt_Suc split: if_splits)
  have "l \<in> set ?xs" unfolding l by (rule last_in_set [OF ne])
  then have "l < min q (n - 1) + 1" unfolding set_filter set_upt atLeastLessThan_iff mem_Collect_eq by blast
  then show ?thesis using n by linarith
qed

lemma undecoded_toucher_in_range:
  assumes "decoder_for p L seed n d" "params_ok p" "latest_source_id_for_bin p b \<noteq> None"
    and "j \<in> undecoded_touchers p seed n (decoded_set d) b"
  shows "\<exists>e l. possible_source_id_range_for_bin p b (Some n) = Some (e, l) \<and> l < n \<and>
    j \<in> set [max e (md_next_decoded_source_id d) ..< l + 1]"
proof -
  have j: "j < n" "j \<notin> decoded_set d" "b \<in> set (edge_bin_ids p j seed (Some n))"
    using assms(4) by (simp_all add: undecoded_touchers_def)
  have "md_next_decoded_source_id d \<le> j" using j(2) by (auto simp: decoded_set_def not_less)
  moreover have "terminal_ok (Some n)" using j(1) by (simp add: terminal_ok_def)
  ultimately show ?thesis using possible_range_holds [OF assms(2) _ j(1,3) assms(3)] by fastforce
qed

lemma count_remaining_is_card:
  assumes d: "decoder_for p L seed n d" and ok: "params_ok p" "latest_source_id_for_bin p b \<noteq> None"
  shows "count_remaining_touchers d b = card (undecoded_touchers p seed n (decoded_set d) b)"
proof (cases "possible_source_id_range_for_bin p b (Some n)")
  case None
  then have "undecoded_touchers p seed n (decoded_set d) b = {}"
    using undecoded_toucher_in_range [OF d ok] by fastforce
  then show ?thesis using None by (simp add: count_remaining_touchers_def decoder_edges [OF d])
next
  case (Some r)
  obtain e l where r: "r = (e, l)" by fastforce
  let ?xs = "filter (\<lambda>j. \<not> source_is_decoded d j \<and> b \<in> set (decoder_edge_bin_ids d j))
    [max e (md_next_decoded_source_id d) ..< l + 1]"
  have "set ?xs = undecoded_touchers p seed n (decoded_set d) b"
  proof
    show "set ?xs \<subseteq> undecoded_touchers p seed n (decoded_set d) b"
      using possible_range_below [OF Some [unfolded r]]
      by (auto simp: undecoded_touchers_def decoded_set_iff decoder_edges [OF d])
    show "undecoded_touchers p seed n (decoded_set d) b \<subseteq> set ?xs"
    proof
      fix j assume j: "j \<in> undecoded_touchers p seed n (decoded_set d) b"
      then have "j \<in> set [max e (md_next_decoded_source_id d) ..< l + 1]"
        using undecoded_toucher_in_range [OF d ok j] Some r by simp
      then show "j \<in> set ?xs" using j
        by (simp add: undecoded_touchers_def decoded_set_iff decoder_edges [OF d] del: upt_Suc)
    qed
  qed
  moreover have "length ?xs = card (set ?xs)" by (rule distinct_card [symmetric]) (simp del: upt_Suc)
  ultimately show ?thesis using Some r
    by (simp add: count_remaining_touchers_def decoder_edges [OF d] del: upt_Suc set_filter)
qed

lemma unique_undecoded_toucher_Some:
  assumes d: "decoder_for p L seed n d" and "unique_undecoded_toucher_for_bin d b = Some s"
  shows "s \<in> undecoded_touchers p seed n (decoded_set d) b"
proof -
  obtain e l where r: "possible_source_id_range_for_bin p b (Some n) = Some (e, l)"
    and u: "unique_toucher_loop d b [max e (md_next_decoded_source_id d) ..< l + 1] None = Some s"
    using assms by (auto simp: unique_undecoded_toucher_for_bin_def decoder_edges [OF d] split: option.splits)
  then show ?thesis using unique_toucher_loop_Some [OF u] possible_range_below [OF r]
    by (auto simp: undecoded_touchers_def decoded_set_iff decoder_edges [OF d])
qed

lemma unique_undecoded_toucher_finds:
  assumes d: "decoder_for p L seed n d" and ok: "params_ok p" "latest_source_id_for_bin p b \<noteq> None"
    and one: "undecoded_touchers p seed n (decoded_set d) b = {s}"
  shows "unique_undecoded_toucher_for_bin d b = Some s"
proof -
  obtain e l where r: "possible_source_id_range_for_bin p b (Some n) = Some (e, l)" "l < n"
    "s \<in> set [max e (md_next_decoded_source_id d) ..< l + 1]"
    using undecoded_toucher_in_range [OF d ok, of s] one by auto
  have s: "\<not> source_is_decoded d s" "b \<in> set (decoder_edge_bin_ids d s)"
    using one by (auto simp: undecoded_touchers_def decoded_set_iff decoder_edges [OF d])
  have others: "source_is_decoded d j \<or> b \<notin> set (decoder_edge_bin_ids d j)"
    if "j \<in> set [max e (md_next_decoded_source_id d) ..< l + 1]" "j \<noteq> s" for j
  proof -
    have "j \<notin> undecoded_touchers p seed n (decoded_set d) b" using that(2) one by simp
    moreover have "j < n" using that(1) r(2) by (simp del: upt_Suc)
    ultimately show ?thesis by (simp add: undecoded_touchers_def decoded_set_iff decoder_edges [OF d])
  qed
  show ?thesis using unique_toucher_loop_finds [OF distinct_upt r(3) s others]
    by (simp add: unique_undecoded_toucher_for_bin_def decoder_edges [OF d] r(1) del: upt_Suc)
qed

section \<open>Draining under losses\<close>

lemma single_toucher_payload:
  assumes hold: "bin_holds p L seed n f D b bin" and one: "undecoded_touchers p seed n D b = {s}"
    and len: "length (f s) = L"
  shows "bb_payload bin = f s"
proof (rule mixes_decodes [where j = s and f = f, OF _ _ len])
  let ?edges = "\<lambda>j. edge_bin_ids p j seed (Some n)"
  show "mixes L n f (\<lambda>j. if j \<in> D then 0 else count_list (?edges j) b) (bb_payload bin)"
    using hold by (simp add: bin_holds_def)
  have s: "s < n" "s \<notin> D" "b \<in> set (?edges s)" using one by (auto simp: undecoded_touchers_def)
  show "s < n" by (rule s)
  fix i assume i: "i < n"
  have le: "count_list (?edges i) b \<le> 1" using hold i by (simp add: bin_holds_def single_edges_def)
  have mem: "i \<in> undecoded_touchers p seed n D b \<longleftrightarrow> i \<notin> D \<and> count_list (?edges i) b \<noteq> 0"
    using i by (simp add: undecoded_touchers_def count_list_0_iff)
  then have "i = s \<longleftrightarrow> i \<notin> D \<and> count_list (?edges i) b \<noteq> 0" using one by simp
  then show "odd (if i \<in> D then 0 else count_list (?edges i) b) \<longleftrightarrow> i = s"
    using le by (cases "count_list (?edges i) b") auto
qed

lemma next_undecoded:
  assumes "loss_inv p L seed n f B (md_next_decoded_source_id d + 1) T D d"
  shows "md_next_decoded_source_id d \<notin> decoded_set d"
proof -
  have "map_of (md_decoded_future_payloads d) (md_next_decoded_source_id d) = None"
  proof (rule ccontr)
    assume "map_of (md_decoded_future_payloads d) (md_next_decoded_source_id d) \<noteq> None"
    then obtain x where "map_of (md_decoded_future_payloads d) (md_next_decoded_source_id d) = Some x" by auto
    then have "md_next_decoded_source_id d + 1 \<le> md_next_decoded_source_id d"
      using assms unfolding loss_inv_def by blast
    then show False by simp
  qed
  then show ?thesis by (simp add: decoded_set_def dom_def)
qed

text \<open>A bin found by the drain loop has one undecoded toucher, the source it decodes.\<close>

lemma next_decodable_single:
  assumes inv: "loss_inv p L seed n f B (md_next_decoded_source_id d + 1) T (decoded_set d) d"
    and found: "next_decodable_bin d = Some (s, b)"
  shows "\<exists>bin. (b, bin) \<in> set (md_received_bins d) \<and> map_of (md_received_bins d) b = Some bin \<and>
    bin_holds p L seed n f (decoded_set d) b bin \<and> undecoded_touchers p seed n (decoded_set d) b = {s}"
proof -
  have d: "decoder_for p L seed n d" using inv by (simp add: loss_inv_def)
  have wf: "btree_wf (md_received_bins d)" using inv by (simp add: loss_inv_def)
  have holds: "bin_holds p L seed n f (decoded_set d) b bin" if "(b, bin) \<in> set (md_received_bins d)" for b bin
    using inv that by (auto simp: loss_inv_def bins_hold_def)
  have single: "undecoded_touchers p seed n (decoded_set d) b = {s}"
    if "bin_holds p L seed n f (decoded_set d) b bin" "bb_remaining_touchers bin = 1"
      "s \<in> undecoded_touchers p seed n (decoded_set d) b" for bin
  proof -
    have "card (undecoded_touchers p seed n (decoded_set d) b) = 1" using that(1,2) by (simp add: bin_holds_def)
    then show ?thesis using that(3) by (auto simp: card_1_singleton_iff)
  qed
  show ?thesis
  proof (cases "find_unique_bin_for_next_source d")
    case (Some b')
    then have s: "s = md_next_decoded_source_id d" "b' = b" using found by (simp_all add: next_decodable_bin_def)
    then obtain bin where bin: "map_of (md_received_bins d) b = Some bin" "bb_remaining_touchers bin = 1"
      "b \<in> set (decoder_edge_bin_ids d s)"
      using Some by (auto simp: find_unique_bin_for_next_source_def find_Some_iff split: option.splits)
    have mem: "(b, bin) \<in> set (md_received_bins d)" by (rule map_of_SomeD [OF bin(1)])
    have "card (undecoded_touchers p seed n (decoded_set d) b) = 1"
      using holds [OF mem] bin(2) by (simp add: bin_holds_def)
    then obtain j where "j \<in> undecoded_touchers p seed n (decoded_set d) b" by (auto simp: card_1_singleton_iff)
    then have "s < n" using s(1) by (auto simp: undecoded_touchers_def decoded_set_def not_less)
    moreover have "s \<notin> decoded_set d" using next_undecoded [OF inv] s(1) by simp
    ultimately have "s \<in> undecoded_touchers p seed n (decoded_set d) b"
      using bin(3) by (simp add: undecoded_touchers_def decoder_edges [OF d])
    then show ?thesis using single [OF holds [OF mem] bin(2)] mem bin(1) holds [OF mem] by blast
  next
    case None
    have loop: "\<exists>bin. (b, bin) \<in> set bins \<and> bb_remaining_touchers bin = 1 \<and>
        unique_undecoded_toucher_for_bin d b = Some s" if "find_future_loop d bins = Some (s, b)" for bins
      using that by (induction d bins rule: find_future_loop.induct) (auto split: if_splits option.splits)
    then obtain bin where bin: "(b, bin) \<in> set (md_received_bins d)" "bb_remaining_touchers bin = 1"
      "unique_undecoded_toucher_for_bin d b = Some s"
      using found None by (auto simp: next_decodable_bin_def find_unique_future_bin_def)
    have "map_of (md_received_bins d) b = Some bin"
      using wf bin(1) by (intro map_of_is_SomeI) (auto simp: btree_wf_def strict_sorted_iff)
    then show ?thesis
      using single [OF holds [OF bin(1)] bin(2) unique_undecoded_toucher_Some [OF d bin(3)]] bin(1) holds by blast
  qed
qed

lemma remove_bin_inv:
  assumes "loss_inv p L seed n f B k T (decoded_set d) d"
  shows "loss_inv p L seed n f B k T (decoded_set d)
      (d\<lparr>md_received_bins := btree_remove b (md_received_bins d)\<rparr>)"
    "fst ` set (btree_remove b (md_received_bins d)) \<subseteq> fst ` set (md_received_bins d)"
proof -
  have sub: "set (btree_remove b (md_received_bins d)) \<subseteq> set (md_received_bins d)"
    "btree_wf (btree_remove b (md_received_bins d))"
    using assms by (auto simp: btree_remove_def btree_wf_filter loss_inv_def)
  then show keys: "fst ` set (btree_remove b (md_received_bins d)) \<subseteq> fst ` set (md_received_bins d)"
    by (intro image_mono)
  have "bins_hold p L seed n f (decoded_set d) (btree_remove b (md_received_bins d))"
    using assms sub(1) unfolding loss_inv_def bins_hold_def by blast
  moreover have "\<forall>b' \<in> fst ` set (md_received_bins d). b' < B" using assms by (simp add: loss_inv_def)
  then have "\<forall>b' \<in> fst ` set (btree_remove b (md_received_bins d)). b' < B" using keys by (meson subsetD)
  ultimately show "loss_inv p L seed n f B k T (decoded_set d)
      (d\<lparr>md_received_bins := btree_remove b (md_received_bins d)\<rparr>)"
    using assms sub(2) unfolding loss_inv_def by (simp add: decoder_for_def)
qed

lemma loss_inv_weaken: "loss_inv p L seed n f B k {} D d \<Longrightarrow> loss_inv p L seed n f B k T D d"
  by (auto simp: loss_inv_def xors_hold_def)

lemma drain_sound:
  assumes "loss_inv p L seed n f B (md_next_decoded_source_id d + 1) {} (decoded_set d) d"
    and ok: "params_ok p" "n \<le> 2 ^ 64" and len: "\<And>j. j < n \<Longrightarrow> length (f j) = L"
  shows "\<exists>d'. drain_decodable_sources d =
      Some (delivered f (md_next_decoded_source_id d) (md_next_decoded_source_id d'), d') \<and>
    md_next_decoded_source_id d \<le> md_next_decoded_source_id d' \<and> next_decodable_bin d' = None \<and>
    loss_inv p L seed n f B (md_next_decoded_source_id d' + 1) {} (decoded_set d') d'"
  using assms(1)
proof (induction d rule: drain_decodable_sources.induct)
  case (1 d)
  show ?case
  proof (cases "next_decodable_bin d")
    case None
    then have "drain_decodable_sources d = Some (delivered f (md_next_decoded_source_id d) (md_next_decoded_source_id d), d)"
      by (simp add: drain_decodable_sources.simps [of d] delivered_def)
    then show ?thesis using 1(2) None by blast
  next
    case (Some sb)
    obtain s b where sb: "sb = (s, b)" by fastforce
    obtain bin where bin: "(b, bin) \<in> set (md_received_bins d)" "map_of (md_received_bins d) b = Some bin"
      "bin_holds p L seed n f (decoded_set d) b bin" "undecoded_touchers p seed n (decoded_set d) b = {s}"
      using next_decodable_single [OF 1(2) Some [unfolded sb]] by blast
    let ?d0 = "d\<lparr>md_received_bins := btree_remove b (md_received_bins d)\<rparr>"
    let ?r = "decode_source_and_release s (bb_payload bin) ?d0"
    have s: "s < n" "s \<notin> decoded_set d" "b \<in> set (edge_bin_ids p s seed (Some n))"
      using bin(4) by (auto simp: undecoded_touchers_def)
    have payload: "bb_payload bin = f s" by (rule single_toucher_payload [OF bin(3,4) len [OF s(1)]])
    have "b < B" using 1(2) bin(1) by (force simp: loss_inv_def)
    moreover have "terminal_ok (Some n)" using s(1) by (simp add: terminal_ok_def)
    ultimately have below: "tle_bin_id p s < B" using edge_ge_tle [OF ok(1) _ s(3)] by (meson le_less_trans)
    have D0: "decoded_set ?d0 = decoded_set d" by (simp add: decoded_set_def)
    have inv0: "loss_inv p L seed n f B (md_next_decoded_source_id ?d0 + 1) {s} (decoded_set ?d0) ?d0"
      using loss_inv_weaken [OF remove_bin_inv(1) [OF 1(2), of b]] by (simp add: D0)
    obtain d1 where d1: "?r = (delivered f (md_next_decoded_source_id d) (md_next_decoded_source_id d1), d1)"
      "md_next_decoded_source_id d \<le> md_next_decoded_source_id d1"
      "loss_inv p L seed n f B (md_next_decoded_source_id d1 + 1) {} (decoded_set d1) d1"
      using decode_source_sound [OF inv0 ok s(1) _ len [OF s(1)] below] s(2) by (auto simp: payload D0)
    have r: "decode_buffered_bin s b d = Some (fst ?r, snd ?r)" by (simp add: decode_buffered_bin_def bin(2))
    obtain d2 where d2: "drain_decodable_sources d1 =
        Some (delivered f (md_next_decoded_source_id d1) (md_next_decoded_source_id d2), d2)"
      "md_next_decoded_source_id d1 \<le> md_next_decoded_source_id d2" "next_decodable_bin d2 = None"
      "loss_inv p L seed n f B (md_next_decoded_source_id d2 + 1) {} (decoded_set d2) d2"
      using 1(1) [OF Some sb [symmetric] r refl] d1 by auto
    have "drain_decodable_sources d =
        Some (delivered f (md_next_decoded_source_id d) (md_next_decoded_source_id d2), d2)"
      using d1 d2 by (simp add: drain_decodable_sources.simps [of d] Some sb r delivered_append)
    then show ?thesis using d1(2) d2 by (meson order_trans)
  qed
qed

section \<open>Peeling an arriving bin\<close>

lemma decoded_source_payload_known:
  assumes inv: "loss_inv p L seed n f B k T (decoded_set d) d"
    and j: "md_next_decoded_source_id d \<le> j + COUPLING_WINDOW"
  shows "decoded_source_payload d j = (if j \<in> decoded_set d then Some (f j) else None)"
proof -
  let ?m = "md_next_decoded_source_id d"
  have start: "md_decoded_prefix_start_source_id d = ?m - DECODED_PREFIX_WINDOW" "?m - DECODED_PREFIX_WINDOW \<le> j"
    and prefix: "md_decoded_prefix_payloads d = map f [?m - DECODED_PREFIX_WINDOW ..< ?m]"
    and fut: "\<And>x. map_of (md_decoded_future_payloads d) j = Some x \<Longrightarrow> x = f j"
    using inv j by (simp_all add: loss_inv_def DECODED_PREFIX_WINDOW_def)
  show ?thesis
  proof (cases "j < ?m")
    case True
    then have "decoded_prefix_payload d j = Some (f j)"
      using start by (simp add: decoded_prefix_payload_def prefix diff_less_mono)
    then show ?thesis using True by (simp add: decoded_source_payload_def decoded_set_def)
  next
    case False
    then have "decoded_prefix_payload d j = None"
      using start by (simp add: decoded_prefix_payload_def prefix Let_def not_less diff_le_mono)
    then show ?thesis using False fut
      by (auto simp: decoded_source_payload_def decoded_set_def split: option.split)
  qed
qed

definition peel_step :: "MettleDecoder \<Rightarrow> nat \<Rightarrow> nat \<Rightarrow> bytes \<Rightarrow> bytes" where
  "peel_step d b j x =
     (case decoded_source_payload d j of
        Some y \<Rightarrow> if b \<in> set (decoder_edge_bin_ids d j) then xor_payload x y else x
      | None \<Rightarrow> x)"

lemma peel_fold_mixes:
  assumes "mixes L n f w x" and len: "\<And>j. j < n \<Longrightarrow> length (f j) = L"
    and js: "distinct js" "set js \<subseteq> {..<n}"
    and known: "\<And>j. j \<in> set js \<Longrightarrow> b \<in> set (decoder_edge_bin_ids d j) \<Longrightarrow>
      decoded_source_payload d j = (if j \<in> D then Some (f j) else None)"
  shows "mixes L n f (\<lambda>i. w i + of_bool (i \<in> set js \<and> i \<in> D \<and> b \<in> set (decoder_edge_bin_ids d i)))
    (fold (peel_step d b) js x)"
  using assms(1) js known
proof (induction js arbitrary: x w)
  case Nil
  then show ?case by simp
next
  case (Cons j js)
  have known: "\<And>j. j \<in> set js \<Longrightarrow> b \<in> set (decoder_edge_bin_ids d j) \<Longrightarrow>
      decoded_source_payload d j = (if j \<in> D then Some (f j) else None)"
    using Cons.prems(4) by simp
  have js: "distinct js" "set js \<subseteq> {..<n}" "j \<notin> set js" "j < n" using Cons.prems(2,3) by auto
  show ?case
  proof (cases "j \<in> D \<and> b \<in> set (decoder_edge_bin_ids d j)")
    case True
    then have step: "peel_step d b j x = xor_payload x (f j)" using Cons.prems(4) [of j] by (simp add: peel_step_def)
    have "mixes L n f (\<lambda>i. w i + of_bool (i = j)) (peel_step d b j x)"
      unfolding step by (rule mixes_xor [OF Cons.prems(1) mixes_single [where j = j and f = f, OF js(4) len [OF js(4)]]])
    from Cons.IH [OF this js(1,2) known] show ?thesis
      using True js(3) by (auto elim!: mixes_parity)
  next
    case False
    then have "peel_step d b j x = x"
      using Cons.prems(4) [of j] by (auto simp: peel_step_def split: option.split)
    then have "mixes L n f w (peel_step d b j x)" using Cons.prems(1) by simp
    from Cons.IH [OF this js(1,2) known] show ?thesis
      using False by (auto elim!: mixes_parity)
  qed
qed

lemma peel_sound:
  assumes inv: "loss_inv p L seed n f B k {} (decoded_set d) d"
    and ok: "params_ok p" "n \<le> 2 ^ 64" and len: "\<And>j. j < n \<Longrightarrow> length (f j) = L"
    and mix: "mixes L n f (\<lambda>j. count_list (edge_bin_ids p j seed (Some n)) b) x"
    and single: "single_edges p seed n b" and latest: "latest_source_id_for_bin p b \<noteq> None"
    and fresh: "\<And>t. t < n \<Longrightarrow> b = tle_bin_id p t \<Longrightarrow> t \<notin> decoded_set d"
    and reach: "(\<forall>t<n. b \<noteq> tle_bin_id p t) \<Longrightarrow> tle_bin_id p (md_next_decoded_source_id d) \<le> b"
  shows "mixes L n f (\<lambda>j. if j \<in> decoded_set d then 0 else count_list (edge_bin_ids p j seed (Some n)) b)
    (peel_known_prefix_from_bin d b x)"
proof -
  let ?edges = "\<lambda>j. edge_bin_ids p j seed (Some n)" and ?D = "decoded_set d"
  have d: "decoder_for p L seed n d" using inv by (simp add: loss_inv_def)
  have lx: "length x = L" by (rule mixes_length [OF mix])
  show ?thesis
  proof (cases "tle_source_id_for_bin d b")
    case (Some t)
    then have t: "t < n" "b = tle_bin_id p t" using tle_source_id_for_bin_iff [OF d ok] by simp_all
    have peel: "peel_known_prefix_from_bin d b x = xor_payload x (xor_or_zero L (md_decoded_tle_prefix_xors d) t)"
      using peel_or_zero [OF lx] by (simp add: peel_known_prefix_from_bin_def Some)
    have "mixes L n f (\<lambda>j. if j \<in> ?D then count_list (?edges j) b else 0)
        (xor_or_zero L (md_decoded_tle_prefix_xors d) t)"
    proof -
      have "xors_hold p L seed n f ?D ?D (md_decoded_tle_prefix_xors d)" using inv by (simp add: loss_inv_def)
      then show ?thesis using fresh [OF t] t(1) unfolding xors_hold_def t(2) by blast
    qed
    from mixes_xor [OF mix this] show ?thesis unfolding peel by (rule mixes_parity) simp
  next
    case None
    have notle: "\<forall>t<n. b \<noteq> tle_bin_id p t" using tle_source_id_for_bin_iff [OF d ok, of b] None by auto
    note reach = reach [OF notle]
    show ?thesis
    proof (cases "possible_source_id_range_for_bin p b (Some n)")
      case no: None
      have "count_list (?edges j) b = 0" if "j < n" for j
        using possible_range_holds [OF ok(1) _ that _ latest, of seed] no that
        by (auto simp: terminal_ok_def count_list_0_iff)
      then have "mixes L n f (\<lambda>j. if j \<in> ?D then 0 else count_list (?edges j) b) x"
        by (intro mixes_parity [OF mix]) simp
      then show ?thesis using no None by (simp add: peel_known_prefix_from_bin_def decoder_edges [OF d])
    next
      case (Some r)
      obtain e l where r: "r = (e, l)" by fastforce
      have l: "l < n" by (rule possible_range_below [OF Some [unfolded r]])
      let ?js = "[e ..< l + 1]"
      have "decoded_source_payload d j = (if j \<in> ?D then Some (f j) else None)"
        if "j \<in> set ?js" "b \<in> set (decoder_edge_bin_ids d j)" for j
      proof (rule decoded_source_payload_known [OF inv])
        have "terminal_ok (Some n)" using l by (simp add: terminal_ok_def)
        then show "md_next_decoded_source_id d \<le> j + COUPLING_WINDOW"
          using that(2) reach edge_in_window [OF ok(1)]
          by (intro window_reaches_back [OF ok(1)]) (auto simp: decoder_edges [OF d])
      qed
      then have peeled: "mixes L n f (\<lambda>i. count_list (?edges i) b +
          of_bool (i \<in> set ?js \<and> i \<in> ?D \<and> b \<in> set (decoder_edge_bin_ids d i))) (fold (peel_step d b) ?js x)"
        using l by (intro peel_fold_mixes [OF mix len]) auto
      have "mixes L n f (\<lambda>j. if j \<in> ?D then 0 else count_list (?edges j) b) (fold (peel_step d b) ?js x)"
      proof (rule mixes_parity [OF peeled])
        fix j assume j: "j < n"
        have le: "count_list (?edges j) b \<le> 1" using single j by (simp add: single_edges_def)
        have "terminal_ok (Some n)" using j by (simp add: terminal_ok_def)
        then have "j \<in> set ?js" if "b \<in> set (?edges j)"
          using possible_range_holds [OF ok(1) _ j that latest] Some r by auto
        then have "b \<in> set (?edges j) \<Longrightarrow> j \<in> set ?js" .
        moreover have "b \<in> set (?edges j) \<longleftrightarrow> count_list (?edges j) b = 1"
          using le by (metis count_list_0_iff le_antisym less_one not_le zero_neq_one)
        ultimately show "even (count_list (?edges j) b +
            of_bool (j \<in> set ?js \<and> j \<in> ?D \<and> b \<in> set (decoder_edge_bin_ids d j))) \<longleftrightarrow>
          even (if j \<in> ?D then 0 else count_list (?edges j) b)"
          using le by (cases "count_list (?edges j) b") (auto simp: decoder_edges [OF d] simp del: upt_Suc set_upt)
      qed
      moreover have "peel_known_prefix_from_bin d b x = fold (peel_step d b) ?js x"
        unfolding peel_known_prefix_from_bin_def None decoder_edges(2) [OF d] Some r
        by (simp add: peel_step_def [abs_def] del: upt_Suc)
      ultimately show ?thesis by simp
    qed
  qed
qed

section \<open>Arrivals\<close>

lemma mark_seen_inv:
  assumes "loss_inv p L seed n f B k T D d" "B \<le> b"
  shows "loss_inv p L seed n f (b + 1) k T D (mark_seen b d)"
proof -
  have "md_seen_bin_ids (mark_seen b d) \<subseteq> {..<b + 1}"
    using assms by (auto simp: loss_inv_def)
  moreover have "\<forall>b' \<in> fst ` set (md_received_bins d). b' < b + 1" "\<forall>j \<in> D. tle_bin_id p j < b + 1"
    using assms unfolding loss_inv_def by (meson le_less_trans less_add_one less_le_trans order_le_less)+
  ultimately show ?thesis using assms(1) unfolding loss_inv_def by (simp add: decoder_for_def)
qed

lemma mark_seen_queries [simp]:
  "decoder_possible_range (mark_seen b d) = decoder_possible_range d"
  "decoder_edge_bin_ids (mark_seen b d) = decoder_edge_bin_ids d"
  "source_is_decoded (mark_seen b d) = source_is_decoded d"
  "decoded_set (mark_seen b d) = decoded_set d"
  by (auto simp: fun_eq_iff decoder_possible_range_def decoder_edge_bin_ids_def source_is_decoded_def decoded_set_def)

lemma mark_seen_unique [simp]: "unique_undecoded_toucher_for_bin (mark_seen b d) = unique_undecoded_toucher_for_bin d"
proof -
  have "unique_toucher_loop (mark_seen b d) b' xs u = unique_toucher_loop d b' xs u" for b' xs u
    by (induction xs arbitrary: u) auto
  then show ?thesis by (simp add: fun_eq_iff unique_undecoded_toucher_for_bin_def split: option.split)
qed

lemma mark_seen_decodable [simp]: "next_decodable_bin (mark_seen b d) = next_decodable_bin d"
proof -
  have "find_future_loop (mark_seen b d) bins = find_future_loop d bins" for bins
    by (induction bins) (auto split: option.split)
  then show ?thesis
    by (simp add: next_decodable_bin_def find_unique_future_bin_def find_unique_bin_for_next_source_def
        split: option.split)
qed

lemma no_bins_no_decodable: "md_received_bins d = [] \<Longrightarrow> next_decodable_bin d = None"
proof -
  assume "md_received_bins d = []"
  then have "find_unique_bin_for_next_source d = None" "find_unique_future_bin d = None"
    by (simp_all add: find_unique_future_bin_def find_unique_bin_for_next_source_def find_None_iff)
  then show ?thesis by (simp add: next_decodable_bin_def)
qed

definition sound_step ::
    "MettleParams \<Rightarrow> nat \<Rightarrow> u64 \<Rightarrow> nat \<Rightarrow> (nat \<Rightarrow> bytes) \<Rightarrow> nat \<Rightarrow> MettleDecoder \<Rightarrow>
     (DecodedSource list \<times> MettleDecoder) may_panic \<Rightarrow> bool" where
  "sound_step p L seed n f B d r \<longleftrightarrow>
     (\<exists>d'. r = Some (delivered f (md_next_decoded_source_id d) (md_next_decoded_source_id d'), d') \<and>
       md_next_decoded_source_id d \<le> md_next_decoded_source_id d' \<and> next_decodable_bin d' = None \<and>
       loss_inv p L seed n f B (md_next_decoded_source_id d' + 1) {} (decoded_set d') d')"

lemma sound_step_same:
  assumes "loss_inv p L seed n f B (md_next_decoded_source_id d' + 1) {} (decoded_set d') d'"
    "next_decodable_bin d' = None" "md_next_decoded_source_id d' = md_next_decoded_source_id d"
  shows "sound_step p L seed n f B d (Some ([], d'))"
  using assms by (auto simp: sound_step_def delivered_def intro!: exI [of _ d'])

text \<open>Decoding the next source from its top-left bin, then draining.\<close>

lemma decode_drain_sound:
  assumes inv: "loss_inv p L seed n f B (md_next_decoded_source_id d + 1) {md_next_decoded_source_id d} (decoded_set d) d"
    and ok: "params_ok p" "n \<le> 2 ^ 64" and len: "\<And>j. j < n \<Longrightarrow> length (f j) = L"
    and m: "md_next_decoded_source_id d < n" "tle_bin_id p (md_next_decoded_source_id d) < B"
  shows "sound_step p L seed n f B d
      (case decode_source_and_release (md_next_decoded_source_id d) (f (md_next_decoded_source_id d)) d of
         (decoded, d) \<Rightarrow>
           (case drain_decodable_sources d of
              None \<Rightarrow> None
            | Some (rest, d) \<Rightarrow> Some (decoded @ rest, d)))"
    "md_received_bins d = [] \<Longrightarrow> sound_step p L seed n f B d
      (Some (decode_source_and_release (md_next_decoded_source_id d) (f (md_next_decoded_source_id d)) d))"
proof -
  let ?m = "md_next_decoded_source_id d"
  obtain d1 where d1: "decode_source_and_release ?m (f ?m) d = (delivered f ?m (md_next_decoded_source_id d1), d1)"
    "?m \<le> md_next_decoded_source_id d1"
    "fst ` set (md_received_bins d1) \<subseteq> fst ` set (md_received_bins d)"
    "loss_inv p L seed n f B (md_next_decoded_source_id d1 + 1) {} (decoded_set d1) d1"
    using decode_source_sound [OF inv ok m(1) next_undecoded [OF inv] len [OF m(1)] m(2)] by blast
  obtain d2 where d2: "drain_decodable_sources d1 =
      Some (delivered f (md_next_decoded_source_id d1) (md_next_decoded_source_id d2), d2)"
    "md_next_decoded_source_id d1 \<le> md_next_decoded_source_id d2" "next_decodable_bin d2 = None"
    "loss_inv p L seed n f B (md_next_decoded_source_id d2 + 1) {} (decoded_set d2) d2"
    using drain_sound [OF d1(4) ok len] by blast
  show "sound_step p L seed n f B d (case decode_source_and_release ?m (f ?m) d of
         (decoded, d) \<Rightarrow>
           (case drain_decodable_sources d of
              None \<Rightarrow> None
            | Some (rest, d) \<Rightarrow> Some (decoded @ rest, d)))"
    using d1(1,2) d2 unfolding sound_step_def
    by (intro exI [of _ d2]) (simp add: delivered_append [OF d1(2) d2(2)])
  assume "md_received_bins d = []"
  then have "next_decodable_bin d1 = None" using d1(3) by (intro no_bins_no_decodable) simp
  then show "sound_step p L seed n f B d (Some (decode_source_and_release ?m (f ?m) d))"
    using d1 unfolding sound_step_def by blast
qed

lemma push_arrival_sound:
  assumes inv: "loss_inv p L seed n f B (md_next_decoded_source_id d + 1) {} (decoded_set d) d"
    and idle: "next_decodable_bin d = None"
    and ok: "params_ok p" "n \<le> 2 ^ 64" and len: "\<And>j. j < n \<Longrightarrow> length (f j) = L"
    and b: "B \<le> b" "single_edges p seed n b"
  shows "sound_step p L seed n f (b + 1) d (push_bin (stream_bin p L seed n f b) d)"
proof -
  let ?bin = "stream_bin p L seed n f b" and ?m = "md_next_decoded_source_id d" and ?d1 = "mark_seen b d"
  let ?edges = "\<lambda>j. edge_bin_ids p j seed (Some n)"
  have d: "decoder_for p L seed n d" and mn: "?m \<le> n" using inv by (simp_all add: loss_inv_def)
  have id: "mb_bin_id ?bin = b" by (simp add: stream_bin_def)
  have mix: "mixes L n f (\<lambda>j. count_list (?edges j) b) (mb_payload ?bin)"
    using mixes_combined [OF len] by (simp add: stream_bin_def)
  have inv1: "loss_inv p L seed n f (b + 1) (md_next_decoded_source_id ?d1 + 1) {} (decoded_set ?d1) ?d1"
    using mark_seen_inv [OF inv b(1)] by simp
  have d1: "decoder_for p L seed n ?d1" using inv1 by (simp add: loss_inv_def)
  have same: "sound_step p L seed n f (b + 1) d (Some ([], ?d1))"
    using inv1 idle by (intro sound_step_same) simp_all
  have step_eq: "sound_step p L seed n f (b + 1) ?d1 r = sound_step p L seed n f (b + 1) d r" for r
    by (simp add: sound_step_def)
  have fresh: "t \<notin> decoded_set d" if "b = tle_bin_id p t" for t
  proof
    assume "t \<in> decoded_set d"
    then have "tle_bin_id p t < B" using inv by (simp add: loss_inv_def)
    then show False using b(1) that by simp
  qed
  show ?thesis
  proof (cases "accepts ?bin d")
    case False
    then have "push_bin ?bin d = Some ([], d)"
      unfolding push_bin_def accepts_def Let_def by (auto split: option.split)
    moreover have "loss_inv p L seed n f (b + 1) (?m + 1) {} (decoded_set d) d"
      using inv b(1) unfolding loss_inv_def by (fastforce intro: less_le_trans)
    ultimately show ?thesis using sound_step_same [OF _ idle refl] by simp
  next
    case acc: True
    have mlt: "?m < n" using acc d mn by (auto simp: accepts_def decoder_complete_def decoder_for_def)
    have latest: "latest_source_id_for_bin p b \<noteq> None" using acc d id by (simp add: accepts_def decoder_for_def)
    have pd: "md_params d = p" using d by (simp add: decoder_for_def)
    have t: "terminal_ok (Some n)" using mlt by (simp add: terminal_ok_def)
    have single_m: "count_list (?edges ?m) b = 1" if "b = tle_bin_id p ?m"
    proof -
      have "count_list (?edges ?m) b \<noteq> 0" using that by (simp add: count_list_0_iff)
      then show ?thesis using b(2) mlt by (auto simp: single_edges_def dest!: spec [of _ ?m])
    qed
    note peel = peel_sound [OF inv1 ok len mix b(2) latest]
    have odd_iff: "odd (if j \<in> decoded_set d then 0 else count_list (?edges j) b) \<longleftrightarrow> j = ?m"
      if "b = tle_bin_id p ?m" "j < n" for j
    proof -
      have "count_list (?edges j) b = 0" if "?m < j"
        using that ok(1) by (intro untouched_count [OF ok(1) t]) (simp add: \<open>b = tle_bin_id p ?m\<close>)
      moreover have "j \<in> decoded_set d" if "j < ?m" using that by (simp add: decoded_set_def)
      ultimately show ?thesis using single_m [OF that(1)] next_undecoded [OF inv]
        by (cases j ?m rule: linorder_cases) auto
    qed
    have tle_m: "tle_bin_id p ?m < b + 1" if "b = tle_bin_id p ?m" using that by simp
    consider (fast) "b = tle_bin_id p ?m" "md_received_bins d = []"
      | (closed) "\<not> (b = tle_bin_id p ?m \<and> md_received_bins d = [])"
          "\<not> is_tle_bin_id ?d1 b" "bin_has_no_undecoded_touchers ?d1 b"
      | (slow) "\<not> (b = tle_bin_id p ?m \<and> md_received_bins d = [])"
          "is_tle_bin_id ?d1 b \<or> \<not> bin_has_no_undecoded_touchers ?d1 b" "b = tle_bin_id p ?m"
      | (other) "is_tle_bin_id ?d1 b \<or> \<not> bin_has_no_undecoded_touchers ?d1 b" "b \<noteq> tle_bin_id p ?m"
      by blast
    then show ?thesis
    proof cases
      case fast
      let ?x = "xor_payload (mb_payload ?bin) (xor_or_zero L (md_decoded_tle_prefix_xors d) ?m)"
      have "mixes L n f (\<lambda>j. if j \<in> decoded_set d then count_list (?edges j) b else 0)
          (xor_or_zero L (md_decoded_tle_prefix_xors d) ?m)"
        using inv next_undecoded [OF inv] mlt unfolding fast(1) loss_inv_def xors_hold_def by simp
      from mixes_xor [OF mix this] have "?x = f ?m"
      proof (rule mixes_decodes [where j = ?m and f = f, OF _ mlt len [OF mlt]])
        fix j assume "j < n"
        then show "odd (count_list (?edges j) b + (if j \<in> decoded_set d then count_list (?edges j) b else 0)) \<longleftrightarrow> j = ?m"
          using odd_iff [OF fast(1), of j] by (simp split: if_splits)
      qed
      then have push: "push_bin ?bin d = Some (decode_source_and_release ?m (f ?m) (fast_decoder ?d1))"
        using push_bin_fast [OF acc] fast unfolding id pd peel_or_zero [OF mixes_length [OF mix]] by simp
      have "loss_inv p L seed n f (b + 1) (md_next_decoded_source_id (fast_decoder ?d1) + 1) {?m}
          (decoded_set (fast_decoder ?d1)) (fast_decoder ?d1)"
        using inv1 by (auto simp: loss_inv_def decoder_for_def decoded_set_def fast_decoder_def xors_hold_def xor_or_zero_def)
      then have "sound_step p L seed n f (b + 1) (fast_decoder ?d1)
          (Some (decode_source_and_release ?m (f ?m) (fast_decoder ?d1)))"
        using decode_drain_sound(2) [where d = "fast_decoder ?d1", OF _ ok len] mlt tle_m [OF fast(1)] fast(2)
        by (simp add: fast_decoder_def)
      then show ?thesis by (simp add: push sound_step_def fast_decoder_def)
    next
      case closed
      then show ?thesis using push_bin_closed [OF acc] same unfolding id pd by simp
    next
      case slow
      let ?x = "peel_known_prefix_from_bin ?d1 b (mb_payload ?bin)"
      have "mixes L n f (\<lambda>j. if j \<in> decoded_set ?d1 then 0 else count_list (?edges j) b) ?x"
        using fresh slow(3) mlt by (intro peel) auto
      then have x: "?x = f ?m"
        using odd_iff [OF slow(3)] by (intro mixes_decodes [where j = ?m and f = f, OF _ mlt len [OF mlt]]) simp_all
      have "loss_inv p L seed n f (b + 1) (md_next_decoded_source_id ?d1 + 1) {?m} (decoded_set ?d1) ?d1"
        by (rule loss_inv_weaken [OF inv1])
      then have "sound_step p L seed n f (b + 1) ?d1
          (case decode_source_and_release ?m (f ?m) ?d1 of
             (decoded, d) \<Rightarrow>
               (case drain_decodable_sources d of
                  None \<Rightarrow> None
                | Some (rest, d) \<Rightarrow> Some (decoded @ rest, d)))"
        using decode_drain_sound(1) [where d = ?d1, OF _ ok len] mlt tle_m [OF slow(3)] by simp
      moreover have "push_bin ?bin d = (case decode_source_and_release ?m (f ?m) ?d1 of
             (decoded, d) \<Rightarrow>
               (case drain_decodable_sources d of
                  None \<Rightarrow> None
                | Some (rest, d) \<Rightarrow> Some (decoded @ rest, d)))"
        using push_bin_next [OF acc] slow unfolding id pd x by simp
      ultimately show ?thesis by (simp only: step_eq)
    next
      case other
      let ?x = "peel_known_prefix_from_bin ?d1 b (mb_payload ?bin)"
      let ?count = "count_remaining_touchers ?d1 b"
      let ?new = "\<lparr>bb_payload = ?x, bb_remaining_touchers = ?count\<rparr>"
      let ?d2 = "?d1\<lparr>md_received_bins := btree_insert b ?new (md_received_bins d)\<rparr>"
      have push: "push_bin ?bin d = (if ?count = 0 then Some ([], ?d1) else drain_decodable_sources ?d2)"
        using push_bin_other [OF acc] other unfolding id pd by simp
      have count: "?count = card (undecoded_touchers p seed n (decoded_set ?d1) b)"
        by (rule count_remaining_is_card [OF d1 ok(1) latest])
      have "mixes L n f (\<lambda>j. if j \<in> decoded_set ?d1 then 0 else count_list (?edges j) b) ?x"
      proof (rule peel)
        show "t \<notin> decoded_set ?d1" if "b = tle_bin_id p t" for t using fresh [OF that] by simp
        assume notle: "\<forall>t<n. b \<noteq> tle_bin_id p t"
        have "tle_source_id_for_bin ?d1 b \<noteq> Some t" for t
          using notle tle_source_id_for_bin_iff [OF d1 ok, of b t] by auto
        then have "\<not> is_tle_bin_id ?d1 b" by (auto simp: is_tle_bin_id_def)
        then have "\<not> bin_has_no_undecoded_touchers ?d1 b" using other(1) by simp
        then show "tle_bin_id p (md_next_decoded_source_id ?d1) \<le> b"
          using pd by (simp add: bin_has_no_undecoded_touchers_def split: if_splits)
      qed
      then have new: "bin_holds p L seed n f (decoded_set ?d1) b ?new"
        using count b(2) latest by (simp add: bin_holds_def)
      have bins: "set (btree_insert b ?new (md_received_bins d)) \<subseteq> insert (b, ?new) (set (md_received_bins d))"
        by (rule set_btree_insert)
      have "bins_hold p L seed n f (decoded_set ?d1) (md_received_bins d)" using inv1 by (simp add: loss_inv_def)
      then have "bins_hold p L seed n f (decoded_set ?d1) (btree_insert b ?new (md_received_bins d))"
        using new bins unfolding bins_hold_def by blast
      moreover have "btree_wf (btree_insert b ?new (md_received_bins d))"
        using inv1 by (intro btree_insert_wf) (simp add: loss_inv_def)
      moreover have "\<forall>b' \<in> fst ` set (btree_insert b ?new (md_received_bins d)). b' < b + 1"
        using inv1 by (simp add: loss_inv_def)
      ultimately have "loss_inv p L seed n f (b + 1) (md_next_decoded_source_id ?d2 + 1) {} (decoded_set ?d2) ?d2"
        using inv1 by (simp add: loss_inv_def decoder_for_def decoded_set_def)
      from drain_sound [OF this ok len] have "sound_step p L seed n f (b + 1) d (drain_decodable_sources ?d2)"
        by (auto simp: sound_step_def)
      then show ?thesis using same by (simp add: push)
    qed
  qed
qed

lemma arrivals_sound:
  assumes inv: "loss_inv p L seed n f B (md_next_decoded_source_id d + 1) {} (decoded_set d) d"
    and idle: "next_decodable_bin d = None"
    and ok: "params_ok p" "n \<le> 2 ^ 64" and len: "\<And>j. j < n \<Longrightarrow> length (f j) = L"
    and bs: "sorted_wrt (<) bs" "\<And>b. b \<in> set bs \<Longrightarrow> B \<le> b \<and> single_edges p seed n b"
  shows "\<exists>B'. sound_step p L seed n f B' d (decode_all_bins (map (stream_bin p L seed n f) bs) d)"
  using inv idle bs
proof (induction bs arbitrary: d B)
  case Nil
  then show ?case using sound_step_same [of p L seed n f B d d] by (auto simp: delivered_def)
next
  case (Cons b bs)
  have b: "B \<le> b" "single_edges p seed n b" using Cons.prems(4) by simp_all
  obtain d1 where d1: "push_bin (stream_bin p L seed n f b) d =
      Some (delivered f (md_next_decoded_source_id d) (md_next_decoded_source_id d1), d1)"
    "md_next_decoded_source_id d \<le> md_next_decoded_source_id d1" "next_decodable_bin d1 = None"
    "loss_inv p L seed n f (b + 1) (md_next_decoded_source_id d1 + 1) {} (decoded_set d1) d1"
    using push_arrival_sound [OF Cons.prems(1,2) ok len b] unfolding sound_step_def by blast
  have rest: "\<And>b'. b' \<in> set bs \<Longrightarrow> b + 1 \<le> b' \<and> single_edges p seed n b'"
    using Cons.prems(3,4) by auto
  obtain B' d2 where d2: "decode_all_bins (map (stream_bin p L seed n f) bs) d1 =
      Some (delivered f (md_next_decoded_source_id d1) (md_next_decoded_source_id d2), d2)"
    "md_next_decoded_source_id d1 \<le> md_next_decoded_source_id d2" "next_decodable_bin d2 = None"
    "loss_inv p L seed n f B' (md_next_decoded_source_id d2 + 1) {} (decoded_set d2) d2"
    using Cons.IH [OF d1(4,3) _ rest] Cons.prems(3) unfolding sound_step_def by auto
  have "sound_step p L seed n f B' d (decode_all_bins (map (stream_bin p L seed n f) (b # bs)) d)"
    using d1(1,2) d2 delivered_append [OF d1(2) d2(2), of f]
    by (auto simp: sound_step_def intro!: exI [of _ d2])
  then show ?case by blast
qed

text \<open>A decoder at rest has no buffered bin with a single undecoded source.\<close>

lemma find_future_loop_finds:
  assumes "(b, bin) \<in> set bins" "bb_remaining_touchers bin = 1"
    "unique_undecoded_toucher_for_bin d b = Some s" "md_next_decoded_source_id d < s"
  shows "find_future_loop d bins \<noteq> None"
  using assms by (induction d bins rule: find_future_loop.induct) (auto split: option.split)

lemma idle_not_single:
  assumes inv: "loss_inv p L seed n f B (md_next_decoded_source_id d + 1) {} (decoded_set d) d"
    and idle: "next_decodable_bin d = None" and ok: "params_ok p"
    and bin: "(b, bin) \<in> set (md_received_bins d)"
  shows "card (undecoded_touchers p seed n (decoded_set d) b) \<noteq> 1"
proof
  assume "card (undecoded_touchers p seed n (decoded_set d) b) = 1"
  then obtain s where s: "undecoded_touchers p seed n (decoded_set d) b = {s}" by (auto simp: card_1_singleton_iff)
  have d: "decoder_for p L seed n d" using inv by (simp add: loss_inv_def)
  have hold: "bin_holds p L seed n f (decoded_set d) b bin"
    using inv bin by (auto simp: loss_inv_def bins_hold_def)
  then have one: "bb_remaining_touchers bin = 1" and latest: "latest_source_id_for_bin p b \<noteq> None"
    using s by (simp_all add: bin_holds_def)
  have "btree_wf (md_received_bins d)" using inv by (simp add: loss_inv_def)
  then have lookup: "map_of (md_received_bins d) b = Some bin"
    using bin by (intro map_of_is_SomeI) (auto simp: btree_wf_def strict_sorted_iff)
  have "s \<notin> decoded_set d" "b \<in> set (decoder_edge_bin_ids d s)"
    using s by (auto simp: undecoded_touchers_def decoder_edges [OF d])
  then consider (next_source) "s = md_next_decoded_source_id d" | (later) "md_next_decoded_source_id d < s"
    by (auto simp: decoded_set_def le_less not_less)
  then show False
  proof cases
    case next_source
    then show ?thesis using idle \<open>b \<in> set (decoder_edge_bin_ids d s)\<close> lookup one
      by (auto simp: next_decodable_bin_def find_unique_bin_for_next_source_def find_None_iff
          split: option.splits)
  next
    case later
    then show ?thesis
      using idle find_future_loop_finds [OF bin one unique_undecoded_toucher_finds [OF d ok latest s]]
      by (auto simp: next_decodable_bin_def find_unique_future_bin_def split: option.splits)
  qed
qed

text \<open>C9. Decoding under losses: when some of the emitted bins are lost and the others arrive in
  order, the decoder neither panics nor invents data.  What it releases is an initial part of the
  sources, in order and padded to the symbol size, every source it holds back is that source, and
  it has peeled as far as the bins allow: no buffered bin is left with a single undecoded
  source.  This needs the condition \<open>single_edges\<close> on every bin that arrives: no source has two of
  its four edges on it.  For other bins the decoder can release a wrong payload, as
  \<open>double_edge_releases_zeros\<close> below shows.\<close>

theorem mettle_losses_sound:
  assumes "overhead_new a c = Inr ratio" "length sources \<le> 2 ^ 64"
    and "\<forall>x \<in> set sources. length x \<le> L"
    and "encode_stream \<lparr>mp_overhead = ratio\<rparr> L seed sources = Some bins" "subseq arrived bins"
    and "\<forall>bin \<in> set arrived. single_edges \<lparr>mp_overhead = ratio\<rparr> seed (length sources) (mb_bin_id bin)"
  shows "\<exists>out d. decode_all_bins arrived (decoder_new \<lparr>mp_overhead = ratio\<rparr> L seed (Some (length sources))) =
      Some (out, d) \<and> length out \<le> length sources \<and>
    out = map (\<lambda>j. \<lparr>ds_source_id = j, ds_payload = padded_payload L (sources ! j)\<rparr>) [0 ..< length out] \<and>
    (\<forall>j x. map_of (md_decoded_future_payloads d) j = Some x \<longrightarrow>
       length out < j \<and> j < length sources \<and> x = padded_payload L (sources ! j)) \<and>
    (\<forall>(b, bin) \<in> set (md_received_bins d).
       card {j. j < length sources \<and> \<not> source_is_decoded d j \<and>
         b \<in> set (edge_bin_ids \<lparr>mp_overhead = ratio\<rparr> j seed (Some (length sources)))} \<noteq> 1)"
proof -
  let ?p = "\<lparr>mp_overhead = ratio\<rparr>" and ?n = "length sources" and ?f = "\<lambda>j. padded_payload L (sources ! j)"
  let ?d0 = "decoder_new ?p L seed (Some ?n)"
  have ok: "params_ok ?p" by (rule overhead_params_ok [OF assms(1)])
  have len: "length (?f j) = L" if "j < ?n" for j using assms(3) that by simp
  let ?ids = "[0 ..< terminal_departure_end_exclusive ?p ?n]"
  have "bins = map (stream_bin ?p L seed ?n ?f) ?ids"
    using encode_stream_bins [OF ok assms(3)] assms(4) by simp
  then obtain N where "arrived = nths (map (stream_bin ?p L seed ?n ?f) ?ids) N"
    using assms(5) by (auto simp: subseq_conv_nths)
  then have bs: "arrived = map (stream_bin ?p L seed ?n ?f) (nths ?ids N)" by (simp only: nths_map)
  have srt: "sorted_wrt (<) (nths ?ids N)"
    by (simp add: strict_sorted_iff sorted_nths distinct_nthsI)
  have single: "0 \<le> b \<and> single_edges ?p seed ?n b" if "b \<in> set (nths ?ids N)" for b
    using assms(6) that unfolding bs by (auto simp: stream_bin_def)
  have start: "loss_inv ?p L seed ?n ?f 0 (md_next_decoded_source_id ?d0 + 1) {} (decoded_set ?d0) ?d0"
    using loss_inv_new [of ?p L seed ?n ?f] by (simp add: decoder_new_def)
  have idle: "next_decodable_bin ?d0 = None" by (intro no_bins_no_decodable) (simp add: decoder_new_def)
  obtain B' d where d: "decode_all_bins arrived ?d0 = Some (delivered ?f 0 (md_next_decoded_source_id d), d)"
      "next_decodable_bin d = None" "loss_inv ?p L seed ?n ?f B' (md_next_decoded_source_id d + 1) {} (decoded_set d) d"
    using arrivals_sound [where f = ?f, OF start idle ok assms(2) len srt single] unfolding bs sound_step_def
    by (auto simp: decoder_new_def)
  have out: "length (delivered ?f 0 (md_next_decoded_source_id d)) = md_next_decoded_source_id d"
    by (simp add: delivered_def)
  have touch: "{j. j < ?n \<and> \<not> source_is_decoded d j \<and> b \<in> set (edge_bin_ids ?p j seed (Some ?n))} =
      undecoded_touchers ?p seed ?n (decoded_set d) b" for b
    by (simp add: undecoded_touchers_def decoded_set_iff)
  have held: "md_next_decoded_source_id d < j \<and> j < ?n \<and> x = ?f j"
    if "map_of (md_decoded_future_payloads d) j = Some x" for j x
    using d(3) that unfolding loss_inv_def by (simp add: Suc_le_eq)
  have rest: "card {j. j < ?n \<and> \<not> source_is_decoded d j \<and> b \<in> set (edge_bin_ids ?p j seed (Some ?n))} \<noteq> 1"
    if "(b, bin) \<in> set (md_received_bins d)" for b bin
    unfolding touch by (rule idle_not_single [OF d(3,2) ok that])
  show ?thesis
  proof (intro exI conjI)
    show "decode_all_bins arrived ?d0 = Some (delivered ?f 0 (md_next_decoded_source_id d), d)" by (rule d(1))
    show "length (delivered ?f 0 (md_next_decoded_source_id d)) \<le> ?n"
      using loss_inv_next_le [OF d(3)] by (simp add: out)
    show "delivered ?f 0 (md_next_decoded_source_id d) = map (\<lambda>j. \<lparr>ds_source_id = j, ds_payload = ?f j\<rparr>)
        [0 ..< length (delivered ?f 0 (md_next_decoded_source_id d))]"
      unfolding out by (simp add: delivered_def)
    show "\<forall>j x. map_of (md_decoded_future_payloads d) j = Some x \<longrightarrow>
        length (delivered ?f 0 (md_next_decoded_source_id d)) < j \<and> j < ?n \<and> x = ?f j"
      unfolding out using held by blast
    show "\<forall>(b, bin) \<in> set (md_received_bins d).
        card {j. j < ?n \<and> \<not> source_is_decoded d j \<and> b \<in> set (edge_bin_ids ?p j seed (Some ?n))} \<noteq> 1"
      using rest by blast
  qed
qed

text \<open>The condition on the edges cannot be dropped.  When two edges of a source fall on one bin, the
  encoder cancels the source there, but the decoder counts and peels it as a single one.  The only
  source of a stream is then released as zeros if nothing but that bin arrives.  With the overhead
  1/20 the seed 799363 has such edges: the third and the fourth of source 0 both fall on bin 259.\<close>

lemma double_edge_releases_zeros:
  assumes ok: "overhead_new a c = Inr ratio" "length x \<le> L"
    and twice: "count_list (edge_bin_ids \<lparr>mp_overhead = ratio\<rparr> 0 seed (Some 1)) b = 2" "0 < b"
  shows "\<exists>bins bin d. encode_stream \<lparr>mp_overhead = ratio\<rparr> L seed [x] = Some bins \<and> bin \<in> set bins \<and>
    decode_all_bins [bin] (decoder_new \<lparr>mp_overhead = ratio\<rparr> L seed (Some 1)) =
      Some ([\<lparr>ds_source_id = 0, ds_payload = replicate L 0\<rparr>], d)"
proof -
  let ?p = "\<lparr>mp_overhead = ratio\<rparr>"
  let ?bin = "\<lparr>mb_bin_id = b, mb_payload = replicate L 0\<rparr>" and ?f = "\<lambda>j. padded_payload L ([x] ! j)"
  let ?d0 = "decoder_new ?p L seed (Some 1)"
  have p: "params_ok ?p" by (rule overhead_params_ok [OF ok(1)])
  have "0 < count_list (edge_bin_ids ?p 0 seed (Some 1)) b" using twice(1) by simp
  then have edge: "b \<in> set (edge_bin_ids ?p 0 seed (Some 1))" by (metis count_list_0_iff less_irrefl)
  have t: "terminal_ok (Some 1)" by (simp add: terminal_ok_def)
  have "b < window_end_exclusive_with_terminal ?p 0 (Some 1)"
    using edge_in_window [OF p t edge] by (simp add: source_window_contains_bin_def)
  also have "\<dots> \<le> window_end_exclusive ?p 0" by (rule window_end_terminal_le [OF p t])
  finally have "b * overhead_denominator ?p < COUPLING_WINDOW * expansion_numerator ?p"
    using below_window_end_iff [OF p] by simp
  then have "(b + 1) * overhead_denominator ?p \<le> 601 * expansion_numerator ?p"
    using p by (simp add: params_ok_def COUPLING_WINDOW_def)
  then have "b + 1 \<le> tle_bin_id ?p 601"
    using p by (simp add: tle_bin_id_def params_ok_def less_eq_div_iff_mult_less_eq)
  then have latest: "latest_source_id_for_bin ?p b \<noteq> None"
    using latest_source_id_for_bin_Some [OF p, of b 601] by auto
  have "xor_payload (?f 0) (xor_payload (?f 0) (replicate L 0)) = replicate L 0"
    using ok(2) by (intro nth_equalityI) (simp_all add: xor_payload_def)
  then have payload: "stream_bin ?p L seed 1 ?f b = ?bin"
    using twice(1) by (simp add: stream_bin_def combined_payload_def numeral_2_eq_2)
  have "b < terminal_departure_end_exclusive ?p 1"
    by (rule edge_below_terminal_end [OF p _ edge]) simp
  then have bins: "encode_stream ?p L seed [x] =
      Some (map (stream_bin ?p L seed 1 ?f) [0 ..< terminal_departure_end_exclusive ?p 1])"
    "?bin \<in> set (map (stream_bin ?p L seed 1 ?f) [0 ..< terminal_departure_end_exclusive ?p 1])"
    using encode_stream_bins [OF p, of "[x]" L seed] ok(2) payload by (auto simp: image_iff intro!: bexI [of _ b])
  have zero: "tle_bin_id ?p 0 = 0" by (simp add: tle_bin_id_def)
  define d1 where "d1 = ?d0\<lparr>md_seen_bin_ids := {b}\<rparr>"
  have d: "decoder_for ?p L seed 1 d1" by (simp add: d1_def decoder_for_def decoder_new_def)
  have d1: "md_next_decoded_source_id d1 = 0" "md_decoded_future_payloads d1 = []" "md_received_bins d1 = []"
    "md_decoded_prefix_payloads d1 = []" "md_params d1 = ?p"
    by (simp_all add: d1_def decoder_new_def)
  have "undecoded_touchers ?p seed 1 (decoded_set d1) b = {0}"
    using edge by (auto simp: undecoded_touchers_def decoded_set_def d1)
  then have count: "count_remaining_touchers d1 b = 1"
    using count_remaining_is_card [OF d p latest] by simp
  have tle: "tle_source_id_for_bin d1 b = None"
    using zero twice(2) by (auto simp: tle_source_id_for_bin_def d1_def decoder_new_def split: option.splits)
  have "decoded_source_payload d1 = (\<lambda>_. None)"
    by (auto simp: decoded_source_payload_def decoded_prefix_payload_def d1)
  moreover have "fold (\<lambda>_ y. y) xs z = z" for xs :: "nat list" and z :: bytes by (induction xs) simp_all
  ultimately have peel: "peel_known_prefix_from_bin d1 b z = z" for z
    by (simp add: peel_known_prefix_from_bin_def tle del: upt_Suc split: option.split)
  define d2 where "d2 = d1\<lparr>md_received_bins := [(b, \<lparr>bb_payload = replicate L 0, bb_remaining_touchers = 1\<rparr>)]\<rparr>"
  have edges2: "decoder_edge_bin_ids d2 (md_next_decoded_source_id d2) = edge_bin_ids ?p 0 seed (Some 1)"
    by (simp add: decoder_edge_bin_ids_def d2_def d1_def decoder_new_def)
  have bins2: "map_of (md_received_bins d2) b' =
      (if b' = b then Some \<lparr>bb_payload = replicate L 0, bb_remaining_touchers = 1\<rparr> else None)" for b'
    by (simp add: d2_def)
  have "find_unique_bin_for_next_source d2 \<noteq> None"
    unfolding find_unique_bin_for_next_source_def edges2 bins2 using edge by (auto simp: find_None_iff)
  then obtain b' where b': "find_unique_bin_for_next_source d2 = Some b'" by auto
  then have "b' = b"
    unfolding find_unique_bin_for_next_source_def bins2 by (auto simp: find_Some_iff split: if_splits)
  then have next_bin: "next_decodable_bin d2 = Some (0, b)"
    using b' d1(1) by (simp add: next_decodable_bin_def d2_def)
  define d3 where "d3 = apply_decoded_source_edges 0 (replicate L 0) d1"
  have d3: "md_decoded_future_payloads d3 = []" "md_next_decoded_source_id d3 = 0" "md_received_bins d3 = []"
    by (simp_all add: d3_def d1)
  let ?r = "release_prefix_source 0 (replicate L 0) d3"
  have "decode_source_and_release 0 (replicate L 0) d1 = (fst ?r # fst (release_waiting (snd ?r)), snd (release_waiting (snd ?r)))"
    by (simp add: decode_source_and_release_def d3_def [symmetric] d3 case_prod_unfold)
  also have "release_waiting (snd ?r) = ([], snd ?r)" by (simp add: release_waiting.simps d3)
  finally have rel: "decode_source_and_release 0 (replicate L 0) d1 =
      ([\<lparr>ds_source_id = 0, ds_payload = replicate L 0\<rparr>], snd ?r)" by simp
  have "md_received_bins (snd ?r) = []"
    using release_prefix_shrinks [of 0 "replicate L 0" d3] d3 by simp
  then have idle: "next_decodable_bin (snd ?r) = None" by (rule no_bins_no_decodable)
  have "d2\<lparr>md_received_bins := btree_remove b (md_received_bins d2)\<rparr> = d1"
    using d1(3) by (simp add: d2_def btree_remove_def)
  then have "decode_buffered_bin 0 b d2 = Some ([\<lparr>ds_source_id = 0, ds_payload = replicate L 0\<rparr>], snd ?r)"
    using rel bins2 [of b] by (simp add: decode_buffered_bin_def)
  then have dr: "drain_decodable_sources d2 = Some ([\<lparr>ds_source_id = 0, ds_payload = replicate L 0\<rparr>], snd ?r)"
    using idle by (simp add: drain_decodable_sources.simps [of d2] drain_decodable_sources.simps [of "snd ?r"] next_bin)
  have "push_bin ?bin ?d0 = drain_decodable_sources d2"
  proof -
    define d0 where "d0 = ?d0"
    have seen: "d0\<lparr>md_seen_bin_ids := insert b (md_seen_bin_ids d0)\<rparr> = d1" by (simp add: d0_def d1_def decoder_new_def)
    have start: "\<not> decoder_complete d0" "md_source_symbol_bytes d0 = L" "md_params d0 = ?p"
      "b \<notin> md_seen_bin_ids d0" "md_next_decoded_source_id d0 = 0"
      by (simp_all add: d0_def decoder_complete_def decoder_new_def)
    have "\<not> bin_has_no_undecoded_touchers d1 b"
      using d1 zero by (simp add: bin_has_no_undecoded_touchers_def) (simp add: d1_def decoder_complete_def decoder_new_def)
    then show ?thesis
      using latest zero twice(2) start count d1
      unfolding d0_def [symmetric] push_bin_def Let_def by (auto simp: seen peel d2_def)
  qed
  then have "decode_all_bins [?bin] ?d0 = Some ([\<lparr>ds_source_id = 0, ds_payload = replicate L 0\<rparr>], snd ?r)"
    by (simp add: dr)
  then show ?thesis using bins by blast
qed

text \<open>Only the first bin of the two-source stream arrives.\<close>

theorem mettle_losses_sound_witness:
  "\<exists>out d. decode_all_bins [stream_bin \<lparr>mp_overhead = \<lparr>or_numerator = 1, or_denominator = 20\<rparr>\<rparr> 2 1 2
      (\<lambda>j. padded_payload 2 ([[1, 2], [3]] ! j)) 0]
      (decoder_new \<lparr>mp_overhead = \<lparr>or_numerator = 1, or_denominator = 20\<rparr>\<rparr> 2 1 (Some 2)) = Some (out, d) \<and>
    length out \<le> 2 \<and>
    out = map (\<lambda>j. \<lparr>ds_source_id = j, ds_payload = padded_payload 2 ([[1, 2], [3]] ! j)\<rparr>) [0 ..< length out]"
proof -
  let ?p = "\<lparr>mp_overhead = \<lparr>or_numerator = 1, or_denominator = 20\<rparr>\<rparr>" and ?sources = "[[1, 2], [3]] :: bytes list"
  let ?bin = "stream_bin ?p 2 1 2 (\<lambda>j. padded_payload 2 (?sources ! j))"
  have ok: "params_ok ?p" by (rule overhead_params_ok [OF demo_overhead])
  have n: "length ?sources = 2" by simp
  have enc: "encode_stream ?p 2 1 ?sources = Some (map ?bin [0 ..< terminal_departure_end_exclusive ?p 2])"
    using encode_stream_bins [OF ok, of ?sources 2 1] unfolding n by simp
  have zero: "tle_bin_id ?p 0 = 0" by (simp add: tle_bin_id_def)
  then have "0 < terminal_departure_end_exclusive ?p 2"
    using edge_below_terminal_end [OF ok _ tle_in_edges, of 0 2] by simp
  then have "subseq [?bin 0] (map ?bin [0 ..< terminal_departure_end_exclusive ?p 2])"
    by (simp add: subseq_singleton_left)
  moreover have "count_list (edge_bin_ids ?p 1 1 (Some 2)) 0 = 0"
    using tle_strict_mono [OF ok, of 0 1] by (intro untouched_count [OF ok]) (simp_all add: terminal_ok_def zero)
  then have "single_edges ?p 1 2 0"
    using own_tle_once_count [OF demo_own_tle_once, of 0] unfolding zero
    by (auto simp: single_edges_def less_2_cases_iff)
  ultimately show ?thesis
    using mettle_losses_sound [OF demo_overhead _ _ enc, of "[?bin 0]"] unfolding n by (auto simp: stream_bin_def)
qed

end
