(* ===== verification/Packet_Envelope.thy ===== *)
theory Packet_Envelope
  imports Session_Frames "HOL-Library.Monad_Syntax"
begin

unbundle bit_operations_syntax

text \<open>
  The packet envelope of the data plane (\<open>src/dataplane/src/node/packet.rs\<close>,
  \<open>session/control.rs\<close>, the flow id accessors of \<open>node/mod.rs\<close>): a byte buffer with the flow id
  read from its IPv4 and TCP headers, the accessors that parse it, and the synthetic packet that
  carries a session frame with its session and tree ids in a TCP option.  Indexing and slicing
  are checked: \<open>None\<close> is the panic of an index out of range.  The buffer pool and its reuse of
  allocations are not modelled.
\<close>

section \<open>Checked access\<close>

definition byte_at :: "bytes \<Rightarrow> nat \<Rightarrow> u8 may_panic" where
  "byte_at buf i = (if i < length buf then Some (buf ! i) else None)"

definition sub_slice :: "nat \<Rightarrow> nat \<Rightarrow> bytes \<Rightarrow> bytes may_panic" where
  "sub_slice a b buf = (if a \<le> b \<and> b \<le> length buf then Some (slice a (b - a) buf) else None)"

section \<open>Flow ids\<close>

type_synonym FlowId = "128 word"

definition INVALID_FLOW_ID :: FlowId where "INVALID_FLOW_ID = - 1"

definition flow_src_ip :: "FlowId \<Rightarrow> u32" where
  "flow_src_ip flow_id = ucast (drop_bit 96 flow_id)"

definition flow_dst_ip :: "FlowId \<Rightarrow> u32" where
  "flow_dst_ip flow_id = ucast (drop_bit 64 flow_id AND 0xFFFFFFFF)"

definition flow_src_port :: "FlowId \<Rightarrow> u16" where
  "flow_src_port flow_id = ucast (drop_bit 48 flow_id AND 0xFFFF)"

definition flow_dst_port :: "FlowId \<Rightarrow> u16" where
  "flow_dst_port flow_id = ucast (drop_bit 32 flow_id AND 0xFFFF)"

definition flow_reverse :: "FlowId \<Rightarrow> FlowId" where
  "flow_reverse flow_id =
     (let src_ip = flow_src_ip flow_id;
          dst_ip = flow_dst_ip flow_id;
          src_port = flow_src_port flow_id;
          dst_port = flow_dst_port flow_id
      in push_bit 96 (ucast dst_ip) OR push_bit 64 (ucast src_ip) OR push_bit 48 (ucast dst_port) OR
         push_bit 32 (ucast src_port) OR (flow_id AND 0xFFFFFFFF))"

definition flow_id_from_parts :: "u32 \<Rightarrow> u16 \<Rightarrow> u32 \<Rightarrow> u16 \<Rightarrow> FlowId" where
  "flow_id_from_parts src_ip src_port dst_ip dst_port =
     (let src_dst_ip = (from_be (to_be src_ip @ to_be dst_ip) :: u64);
          src_dst_port = (from_be (to_be src_port @ to_be dst_port) :: u32)
      in push_bit 64 (ucast src_dst_ip) OR push_bit 32 (ucast src_dst_port))"

definition get_flow_id_from_buf :: "bytes \<Rightarrow> FlowId may_panic" where
  "get_flow_id_from_buf buf =
     (if length buf < 20 then Some INVALID_FLOW_ID
      else do {
        b0 \<leftarrow> byte_at buf 0;
        if drop_bit 4 b0 \<noteq> 4 then Some INVALID_FLOW_ID
        else do {
          ips \<leftarrow> sub_slice 12 20 buf;
          let ihl = unat (b0 AND 0x0F);
          let ip_header_len = ihl * 4;
          if ip_header_len < 20 \<or> length buf < ip_header_len + 4 then Some INVALID_FLOW_ID
          else do {
            ports \<leftarrow> sub_slice ip_header_len (ip_header_len + 4) buf;
            Some (push_bit 64 (ucast (from_be ips :: u64)) OR push_bit 32 (ucast (from_be ports :: u32)))
          }
        }
      })"

section \<open>Packets\<close>

record Packet =
  pk_flow_id :: FlowId
  pk_packet_size :: nat
  pk_buffer :: bytes

definition packet_new :: "nat \<Rightarrow> bytes \<Rightarrow> Packet may_panic" where
  "packet_new packet_size buffer =
     (let buffer = (if packet_size < length buffer then take packet_size buffer else buffer);
          actual_size = min (length buffer) packet_size
      in do {
        flow_id \<leftarrow> (if buffer = [] then Some INVALID_FLOW_ID
                    else do { prefix \<leftarrow> sub_slice 0 actual_size buffer; get_flow_id_from_buf prefix });
        Some \<lparr>pk_flow_id = flow_id, pk_packet_size = actual_size, pk_buffer = buffer\<rparr>
      })"

definition packet_from_vec :: "bytes \<Rightarrow> Packet may_panic" where
  "packet_from_vec vec = packet_new (length vec) vec"

definition packet_bytes :: "Packet \<Rightarrow> bytes may_panic" where
  "packet_bytes packet = sub_slice 0 (pk_packet_size packet) (pk_buffer packet)"

definition seq_num :: "Packet \<Rightarrow> u32 may_panic" where
  "seq_num packet = do {
     buf \<leftarrow> packet_bytes packet;
     if pk_packet_size packet < 20 then Some 0
     else do {
       b0 \<leftarrow> byte_at buf 0;
       if drop_bit 4 b0 \<noteq> 4 then Some 0
       else do {
         let ip_header_len = unat (b0 AND 0x0F) * 4;
         if pk_packet_size packet < ip_header_len + 8 then Some 0
         else map_option from_be (sub_slice (ip_header_len + 4) (ip_header_len + 8) buf)
       }
     }
   }"

text \<open>The flags byte of the TCP header behind the checks both flag tests share.\<close>

definition tcp_flags_of :: "Packet \<Rightarrow> u8 option may_panic" where
  "tcp_flags_of packet = do {
     buf \<leftarrow> packet_bytes packet;
     if pk_packet_size packet < 20 then Some None
     else do {
       b9 \<leftarrow> byte_at buf 9;
       if b9 \<noteq> 6 then Some None
       else do {
         b0 \<leftarrow> byte_at buf 0;
         let tcp_offset = unat (b0 AND 0x0F) * 4;
         if pk_packet_size packet \<le> tcp_offset + 13 then Some None
         else map_option Some (byte_at buf (tcp_offset + 13))
       }
     }
   }"

definition is_tcp_syn :: "Packet \<Rightarrow> bool may_panic" where
  "is_tcp_syn packet = map_option (\<lambda>flags. case flags of
     None \<Rightarrow> False | Some tcp_flags \<Rightarrow> tcp_flags AND 0x02 \<noteq> 0) (tcp_flags_of packet)"

definition is_tcp_fin_or_rst :: "Packet \<Rightarrow> bool may_panic" where
  "is_tcp_fin_or_rst packet = map_option (\<lambda>flags. case flags of
     None \<Rightarrow> False | Some tcp_flags \<Rightarrow> tcp_flags AND 0x01 \<noteq> 0 \<or> tcp_flags AND 0x04 \<noteq> 0) (tcp_flags_of packet)"

definition tcp_payload_bounds :: "Packet \<Rightarrow> (nat \<times> nat) option may_panic" where
  "tcp_payload_bounds packet = do {
     buf \<leftarrow> packet_bytes packet;
     if pk_packet_size packet < 20 then Some None
     else do {
       b0 \<leftarrow> byte_at buf 0;
       if drop_bit 4 b0 \<noteq> 4 then Some None
       else do {
         b9 \<leftarrow> byte_at buf 9;
         if b9 \<noteq> 6 then Some None
         else do {
           let ip_header_len = unat (b0 AND 0x0F) * 4;
           if pk_packet_size packet < ip_header_len + 20 then Some None
           else do {
             len_field \<leftarrow> sub_slice 2 4 buf;
             let total_length = min (unat (from_be len_field :: u16)) (pk_packet_size packet);
             let tcp_offset = ip_header_len;
             if pk_packet_size packet \<le> tcp_offset + 12 then Some None
             else do {
               offset_byte \<leftarrow> byte_at buf (tcp_offset + 12);
               let tcp_header_len = unat (drop_bit 4 offset_byte AND 0x0F) * 4;
               if tcp_header_len < 20 \<or> total_length < ip_header_len + tcp_header_len then Some None
               else Some (Some (ip_header_len + tcp_header_len, total_length))
             }
           }
         }
       }
     }
   }"

definition tcp_payload :: "Packet \<Rightarrow> bytes option may_panic" where
  "tcp_payload packet = do {
     bounds \<leftarrow> tcp_payload_bounds packet;
     case bounds of
       None \<Rightarrow> Some None
     | Some (a, b) \<Rightarrow> do { buf \<leftarrow> packet_bytes packet; map_option Some (sub_slice a b buf) }
   }"

definition tcp_payload_len :: "Packet \<Rightarrow> nat may_panic" where
  "tcp_payload_len packet =
     map_option (\<lambda>bounds. case bounds of None \<Rightarrow> 0 | Some (a, b) \<Rightarrow> b - a) (tcp_payload_bounds packet)"

definition is_tcp_data :: "Packet \<Rightarrow> bool may_panic" where
  "is_tcp_data packet = do {
     buf \<leftarrow> packet_bytes packet;
     if pk_packet_size packet < 20 then Some False
     else do {
       b0 \<leftarrow> byte_at buf 0;
       if drop_bit 4 b0 \<noteq> 4 then Some False
       else do {
         b9 \<leftarrow> byte_at buf 9;
         if b9 \<noteq> 6 then Some False
         else map_option (\<lambda>n. 0 < n) (tcp_payload_len packet)
       }
     }
   }"

section \<open>Transport metadata\<close>

record LosslessTransportMeta =
  tm_session_id :: u64
  tm_tree_id :: "u16 option"

definition IP_HLEN :: nat where "IP_HLEN = 20"
definition TCP_BASE_HLEN :: nat where "TCP_BASE_HLEN = 20"
definition LOSSLESS_META_OPTION_KIND :: u8 where "LOSSLESS_META_OPTION_KIND = 30"
definition LOSSLESS_META_OPTION_LEN :: nat where "LOSSLESS_META_OPTION_LEN = 16"

text \<open>The scan over the TCP options; every turn moves \<open>pos\<close> forward.\<close>

function option_loop :: "bytes \<Rightarrow> nat \<Rightarrow> nat \<Rightarrow> LosslessTransportMeta option may_panic" where
  "option_loop buf pos limit =
     (if \<not> pos < limit then Some None
      else case byte_at buf pos of
        None \<Rightarrow> None
      | Some kind \<Rightarrow>
          if kind = 0 then Some None
          else if kind = 1 then option_loop buf (pos + 1) limit
          else if limit \<le> pos + 1 then Some None
          else case byte_at buf (pos + 1) of
            None \<Rightarrow> None
          | Some len_byte \<Rightarrow>
              if unat len_byte < 2 \<or> limit < pos + unat len_byte then Some None
              else if kind = LOSSLESS_META_OPTION_KIND \<and> unat len_byte = LOSSLESS_META_OPTION_LEN
              then do {
                flags \<leftarrow> byte_at buf (pos + 2);
                session_id \<leftarrow> sub_slice (pos + 4) (pos + 12) buf;
                tree_id \<leftarrow> sub_slice (pos + 12) (pos + 14) buf;
                Some (Some \<lparr>tm_session_id = from_be session_id,
                  tm_tree_id = (if flags AND 0x01 \<noteq> 0 then Some (from_be tree_id) else None)\<rparr>)
              }
              else option_loop buf (pos + unat len_byte) limit)"
  by pat_completeness auto

termination option_loop
  by (relation "measure (\<lambda>(buf, pos, limit). limit - pos)") auto

declare option_loop.simps [simp del]

definition lossless_transport_meta :: "Packet \<Rightarrow> LosslessTransportMeta option may_panic" where
  "lossless_transport_meta packet = do {
     buf \<leftarrow> packet_bytes packet;
     if pk_packet_size packet < IP_HLEN then Some None
     else do {
       b0 \<leftarrow> byte_at buf 0;
       if drop_bit 4 b0 \<noteq> 4 then Some None
       else do {
         b9 \<leftarrow> byte_at buf 9;
         if b9 \<noteq> 6 then Some None
         else do {
           let ip_header_len = unat (b0 AND 0x0F) * 4;
           if pk_packet_size packet < ip_header_len + TCP_BASE_HLEN then Some None
           else do {
             let tcp_off = ip_header_len;
             offset_byte \<leftarrow> byte_at buf (tcp_off + 12);
             let tcp_header_len = unat (drop_bit 4 offset_byte AND 0x0F) * 4;
             if tcp_header_len < TCP_BASE_HLEN \<or> pk_packet_size packet < tcp_off + tcp_header_len then Some None
             else option_loop buf (tcp_off + TCP_BASE_HLEN) (tcp_off + tcp_header_len)
           }
         }
       }
     }
   }"

definition lossless_fec_tree_id :: "Packet \<Rightarrow> u16 option may_panic" where
  "lossless_fec_tree_id packet =
     map_option (\<lambda>meta. case meta of None \<Rightarrow> None | Some m \<Rightarrow> tm_tree_id m) (lossless_transport_meta packet)"

definition lossless_session_id :: "Packet \<Rightarrow> u64 option may_panic" where
  "lossless_session_id packet =
     map_option (map_option tm_session_id) (lossless_transport_meta packet)"

section \<open>Building a packet\<close>

definition lossless_option :: "LosslessTransportMeta \<Rightarrow> bytes" where
  "lossless_option meta =
     [LOSSLESS_META_OPTION_KIND, word_of_nat LOSSLESS_META_OPTION_LEN,
      (if tm_tree_id meta \<noteq> None then 1 else 0), 0] @
     to_be (tm_session_id meta) @
     to_be (case tm_tree_id meta of Some tree_id \<Rightarrow> tree_id | None \<Rightarrow> 0) @ to_be (0 :: u16)"

definition ipv4_tcp_buffer ::
    "u32 \<Rightarrow> u16 \<Rightarrow> u32 \<Rightarrow> u16 \<Rightarrow> LosslessTransportMeta option \<Rightarrow> bytes \<Rightarrow> bytes" where
  "ipv4_tcp_buffer src_ip src_port dst_ip dst_port lossless_meta payload =
     (let tcp_hlen = TCP_BASE_HLEN + (if lossless_meta \<noteq> None then LOSSLESS_META_OPTION_LEN else 0);
          total_len = IP_HLEN + tcp_hlen + length payload;
          buf = replicate total_len 0;
          buf = put 0 [0x45] buf;
          buf = put 2 (to_be (word_of_nat total_len :: u16)) buf;
          buf = put 8 [64] buf;
          buf = put 9 [6] buf;
          buf = put 12 (to_be src_ip) buf;
          buf = put 16 (to_be dst_ip) buf;
          tcp_off = IP_HLEN;
          buf = put tcp_off (to_be src_port) buf;
          buf = put (tcp_off + 2) (to_be dst_port) buf;
          buf = put (tcp_off + 12) [push_bit 4 (word_of_nat (tcp_hlen div 4))] buf;
          buf = put (tcp_off + 13) [0x18] buf;
          buf = (case lossless_meta of
                   None \<Rightarrow> buf
                 | Some meta \<Rightarrow> put (tcp_off + TCP_BASE_HLEN) (lossless_option meta) buf)
      in put (IP_HLEN + tcp_hlen) payload buf)"

definition build_ipv4_tcp_packet_with_lossless_meta ::
    "u32 \<Rightarrow> u16 \<Rightarrow> u32 \<Rightarrow> u16 \<Rightarrow> LosslessTransportMeta option \<Rightarrow> bytes \<Rightarrow> Packet may_panic" where
  "build_ipv4_tcp_packet_with_lossless_meta src_ip src_port dst_ip dst_port lossless_meta payload =
     packet_from_vec (ipv4_tcp_buffer src_ip src_port dst_ip dst_port lossless_meta payload)"

text \<open>\<open>build_packet\<close> of the session tasks.\<close>

definition build_packet :: "FrameRoute \<Rightarrow> bytes \<Rightarrow> Packet may_panic" where
  "build_packet route payload =
     build_ipv4_tcp_packet_with_lossless_meta (fr_src_ip route) (fr_src_port route)
       (fr_dst_ip route) (fr_dst_port route)
       (Some \<lparr>tm_session_id = fr_session_id route, tm_tree_id = fr_tree_id route\<rparr>) payload"

section \<open>No accessor indexes out of range\<close>

lemma byte_at_Some [simp]: "i < length buf \<Longrightarrow> byte_at buf i = Some (buf ! i)"
  by (simp add: byte_at_def)

lemma sub_slice_Some [simp]: "a \<le> b \<Longrightarrow> b \<le> length buf \<Longrightarrow> sub_slice a b buf = Some (slice a (b - a) buf)"
  by (simp add: sub_slice_def)

lemma byte_at_None: "byte_at buf i = None \<longleftrightarrow> length buf \<le> i"
  by (auto simp: byte_at_def)

lemma sub_slice_None: "sub_slice a b buf = None \<longleftrightarrow> b < a \<or> length buf < b"
  by (auto simp: sub_slice_def)

lemma the_byte_at: "i < length buf \<Longrightarrow> the (byte_at buf i) = buf ! i"
  by simp

lemma map_option_None: "map_option f m = None \<longleftrightarrow> m = None"
  by simp

lemmas no_panic = Option.bind_eq_None_conv byte_at_None sub_slice_None Let_def

lemma get_flow_id_total: "get_flow_id_from_buf buf \<noteq> None"
  unfolding get_flow_id_from_buf_def by (auto simp: no_panic not_less simp del: not_None_eq)

definition packet_wf :: "Packet \<Rightarrow> bool" where
  "packet_wf packet \<longleftrightarrow> pk_packet_size packet = length (pk_buffer packet)"

lemma packet_new_wf: "\<exists>packet. packet_new n buf = Some packet \<and> packet_wf packet \<and> pk_buffer packet = take n buf"
proof -
  have "packet_new n buf \<noteq> None"
    using get_flow_id_total unfolding packet_new_def by (auto simp: no_panic simp del: not_None_eq)
  then obtain packet where p: "packet_new n buf = Some packet" by auto
  then have "packet_wf packet \<and> pk_buffer packet = take n buf"
    by (auto simp: packet_new_def packet_wf_def Let_def split: Option.bind_splits if_splits)
  then show ?thesis using p by blast
qed

lemma packet_bytes_wf [simp]: "packet_wf packet \<Longrightarrow> packet_bytes packet = Some (pk_buffer packet)"
  by (simp add: packet_bytes_def packet_wf_def slice_all)

lemma option_loop_total: "limit \<le> length buf \<Longrightarrow> option_loop buf pos limit \<noteq> None"
proof (induction buf pos limit rule: option_loop.induct)
  case (1 buf pos limit)
  show ?case
  proof (cases "pos < limit")
    case False
    then show ?thesis by (simp add: option_loop.simps [of buf pos limit])
  next
    case True
    then have here: "byte_at buf pos = Some (buf ! pos)" using 1(3) by simp
    show ?thesis
    proof (cases "pos + 1 < limit")
      case False
      then show ?thesis using True here 1(1) 1(3)
        by (subst option_loop.simps) auto
    next
      case more: True
      then have len: "byte_at buf (pos + 1) = Some (buf ! (pos + 1))" using 1(3) by simp
      show ?thesis using 1(1) [OF _ here] 1(2) [OF _ here _ _ _ len] 1(3) True more
        by (subst option_loop.simps) (simp add: here len no_panic LOSSLESS_META_OPTION_LEN_def)
    qed
  qed
qed

lemma tcp_payload_bounds_total: "packet_wf packet \<Longrightarrow> tcp_payload_bounds packet \<noteq> None"
  unfolding tcp_payload_bounds_def
  by (auto simp: no_panic packet_wf_def not_less not_le slice_all packet_bytes_def simp del: not_None_eq)

lemma tcp_payload_total:
  assumes wf: "packet_wf packet"
  shows "tcp_payload packet \<noteq> None"
proof -
  have "b \<le> length (pk_buffer packet) \<and> a \<le> b" if "tcp_payload_bounds packet = Some (Some (a, b))" for a b
    using that wf unfolding tcp_payload_bounds_def
    by (auto simp: packet_wf_def Let_def split: Option.bind_splits if_splits)
  then show ?thesis
    using tcp_payload_bounds_total [OF wf] wf unfolding tcp_payload_def
    by (auto simp: no_panic sub_slice_None split: option.splits simp del: not_None_eq)
qed

lemma transport_meta_total: "packet_wf packet \<Longrightarrow> lossless_transport_meta packet \<noteq> None"
  using option_loop_total unfolding lossless_transport_meta_def
  by (auto simp: no_panic packet_wf_def not_less IP_HLEN_def TCP_BASE_HLEN_def simp del: not_None_eq)

text \<open>Parsing any packet is safe: a packet built from any bytes can be asked for its flow id,
  TCP flags, sequence number, payload and transport metadata without an index or slice out of
  range, and the scan over the TCP options ends.\<close>

theorem packet_parsing_safe:
  "\<exists>packet. packet_from_vec buf = Some packet \<and> seq_num packet \<noteq> None \<and> is_tcp_syn packet \<noteq> None \<and>
     is_tcp_fin_or_rst packet \<noteq> None \<and> tcp_payload packet \<noteq> None \<and> is_tcp_data packet \<noteq> None \<and>
     lossless_transport_meta packet \<noteq> None"
proof -
  obtain packet where p: "packet_from_vec buf = Some packet" "packet_wf packet"
    using packet_new_wf by (auto simp: packet_from_vec_def)
  have size: "pk_packet_size packet = length (pk_buffer packet)" using p(2) by (simp add: packet_wf_def)
  note bounds = tcp_payload_bounds_total [OF p(2)]
  have "seq_num packet \<noteq> None"
    unfolding seq_num_def by (auto simp: no_panic p(2) size not_less simp del: not_None_eq)
  moreover have "tcp_flags_of packet \<noteq> None"
    unfolding tcp_flags_of_def by (auto simp: no_panic p(2) size not_less not_le simp del: not_None_eq)
  then have "is_tcp_syn packet \<noteq> None" "is_tcp_fin_or_rst packet \<noteq> None"
    by (simp_all add: is_tcp_syn_def is_tcp_fin_or_rst_def del: not_None_eq)
  moreover have "is_tcp_data packet \<noteq> None"
    using bounds unfolding is_tcp_data_def tcp_payload_len_def
    by (auto simp: no_panic p(2) size not_less simp del: not_None_eq)
  moreover note transport_meta_total [OF p(2)]
  moreover note tcp_payload_total [OF p(2)]
  ultimately show ?thesis using p(1) by blast
qed

section \<open>The envelope of a session frame\<close>

lemma length_lossless_option [simp]: "length (lossless_option meta) = 16"
  by (simp add: lossless_option_def)

lemma length_ipv4_tcp_buffer:
  "length (ipv4_tcp_buffer src_ip src_port dst_ip dst_port (Some meta) payload) = 56 + length payload"
  by (simp add: ipv4_tcp_buffer_def Let_def IP_HLEN_def TCP_BASE_HLEN_def LOSSLESS_META_OPTION_LEN_def)

lemma put_view:
  assumes "b' = put pos src b" "length b = n" "pos + length src \<le> n"
  shows "length b' = n" "slice pos (length src) b' = src"
    "a + m \<le> pos \<or> pos + length src \<le> a \<Longrightarrow> a + m \<le> n \<Longrightarrow> slice a m b' = slice a m b"
  using assms by (simp_all add: slice_put_inside slice_put_outside slice_all)

lemma ipv4_tcp_buffer_fields:
  fixes src_ip dst_ip :: u32 and src_port dst_port :: u16 and payload :: bytes and meta :: LosslessTransportMeta
  defines "buf \<equiv> ipv4_tcp_buffer src_ip src_port dst_ip dst_port (Some meta) payload"
  shows "buf ! 0 = 0x45" "buf ! 9 = 6" "buf ! 32 = 0x90"
    "slice 2 2 buf = to_be (word_of_nat (56 + length payload) :: u16)"
    "slice 12 4 buf = to_be src_ip" "slice 16 4 buf = to_be dst_ip"
    "slice 20 2 buf = to_be src_port" "slice 22 2 buf = to_be dst_port"
    "slice 40 16 buf = lossless_option meta" "slice 56 (length payload) buf = payload"
proof -
  define n where "n = 56 + length payload"
  define b1 :: bytes where "b1 = put 0 [0x45] (replicate n 0)"
  define b2 where "b2 = put 2 (to_be (word_of_nat n :: u16)) b1"
  define b3 where "b3 = put 8 [64] b2"
  define b4 where "b4 = put 9 [6] b3"
  define b5 where "b5 = put 12 (to_be src_ip) b4"
  define b6 where "b6 = put 16 (to_be dst_ip) b5"
  define b7 where "b7 = put 20 (to_be src_port) b6"
  define b8 where "b8 = put 22 (to_be dst_port) b7"
  define b9 where "b9 = put 32 [0x90] b8"
  define b10 where "b10 = put 33 [0x18] b9"
  define b11 where "b11 = put 40 (lossless_option meta) b10"
  define b12 where "b12 = put 56 payload b11"
  have "push_bit 4 (word_of_nat (36 div 4)) = (0x90 :: u8)" by code_simp
  then have buf: "buf = b12"
    by (simp add: buf_def ipv4_tcp_buffer_def Let_def n_def IP_HLEN_def TCP_BASE_HLEN_def LOSSLESS_META_OPTION_LEN_def
        b1_def b2_def b3_def b4_def b5_def b6_def b7_def b8_def b9_def b10_def b11_def b12_def)
  have v1: "length b1 = n" "slice 0 (length [0x45 :: u8]) b1 = [0x45]"
      "\<And>a m. a + m \<le> 0 \<or> 0 + length [0x45 :: u8] \<le> a \<Longrightarrow> a + m \<le> n \<Longrightarrow> slice a m b1 = slice a m (replicate n 0)"
    by (rule put_view [OF b1_def length_replicate]; simp add: n_def)+
  have v2: "length b2 = n" "slice 2 (length (to_be (word_of_nat n :: u16))) b2 = (to_be (word_of_nat n :: u16))"
      "\<And>a m. a + m \<le> 2 \<or> 2 + length (to_be (word_of_nat n :: u16)) \<le> a \<Longrightarrow> a + m \<le> n \<Longrightarrow> slice a m b2 = slice a m b1"
    by (rule put_view [OF b2_def v1(1)]; simp add: n_def)+
  have v3: "length b3 = n" "slice 8 (length [64 :: u8]) b3 = [64]"
      "\<And>a m. a + m \<le> 8 \<or> 8 + length [64 :: u8] \<le> a \<Longrightarrow> a + m \<le> n \<Longrightarrow> slice a m b3 = slice a m b2"
    by (rule put_view [OF b3_def v2(1)]; simp add: n_def)+
  have v4: "length b4 = n" "slice 9 (length [6 :: u8]) b4 = [6]"
      "\<And>a m. a + m \<le> 9 \<or> 9 + length [6 :: u8] \<le> a \<Longrightarrow> a + m \<le> n \<Longrightarrow> slice a m b4 = slice a m b3"
    by (rule put_view [OF b4_def v3(1)]; simp add: n_def)+
  have v5: "length b5 = n" "slice 12 (length (to_be src_ip)) b5 = (to_be src_ip)"
      "\<And>a m. a + m \<le> 12 \<or> 12 + length (to_be src_ip) \<le> a \<Longrightarrow> a + m \<le> n \<Longrightarrow> slice a m b5 = slice a m b4"
    by (rule put_view [OF b5_def v4(1)]; simp add: n_def)+
  have v6: "length b6 = n" "slice 16 (length (to_be dst_ip)) b6 = (to_be dst_ip)"
      "\<And>a m. a + m \<le> 16 \<or> 16 + length (to_be dst_ip) \<le> a \<Longrightarrow> a + m \<le> n \<Longrightarrow> slice a m b6 = slice a m b5"
    by (rule put_view [OF b6_def v5(1)]; simp add: n_def)+
  have v7: "length b7 = n" "slice 20 (length (to_be src_port)) b7 = (to_be src_port)"
      "\<And>a m. a + m \<le> 20 \<or> 20 + length (to_be src_port) \<le> a \<Longrightarrow> a + m \<le> n \<Longrightarrow> slice a m b7 = slice a m b6"
    by (rule put_view [OF b7_def v6(1)]; simp add: n_def)+
  have v8: "length b8 = n" "slice 22 (length (to_be dst_port)) b8 = (to_be dst_port)"
      "\<And>a m. a + m \<le> 22 \<or> 22 + length (to_be dst_port) \<le> a \<Longrightarrow> a + m \<le> n \<Longrightarrow> slice a m b8 = slice a m b7"
    by (rule put_view [OF b8_def v7(1)]; simp add: n_def)+
  have v9: "length b9 = n" "slice 32 (length [0x90 :: u8]) b9 = [0x90]"
      "\<And>a m. a + m \<le> 32 \<or> 32 + length [0x90 :: u8] \<le> a \<Longrightarrow> a + m \<le> n \<Longrightarrow> slice a m b9 = slice a m b8"
    by (rule put_view [OF b9_def v8(1)]; simp add: n_def)+
  have v10: "length b10 = n" "slice 33 (length [0x18 :: u8]) b10 = [0x18]"
      "\<And>a m. a + m \<le> 33 \<or> 33 + length [0x18 :: u8] \<le> a \<Longrightarrow> a + m \<le> n \<Longrightarrow> slice a m b10 = slice a m b9"
    by (rule put_view [OF b10_def v9(1)]; simp add: n_def)+
  have v11: "length b11 = n" "slice 40 (length (lossless_option meta)) b11 = (lossless_option meta)"
      "\<And>a m. a + m \<le> 40 \<or> 40 + length (lossless_option meta) \<le> a \<Longrightarrow> a + m \<le> n \<Longrightarrow> slice a m b11 = slice a m b10"
    by (rule put_view [OF b11_def v10(1)]; simp add: n_def)+
  have v12: "length b12 = n" "slice 56 (length payload) b12 = payload"
      "\<And>a m. a + m \<le> 56 \<or> 56 + length payload \<le> a \<Longrightarrow> a + m \<le> n \<Longrightarrow> slice a m b12 = slice a m b11"
    by (rule put_view [OF b12_def v11(1)]; simp add: n_def)+
  have n: "n = 56 + length payload" by (simp add: n_def)
  have le: "k \<le> n" if "k \<le> 56" for k using that by (simp add: n_def)
  note moved = v1(3) v2(3) v3(3) v4(3) v5(3) v6(3) v7(3) v8(3) v9(3) v10(3) v11(3) v12(3)
  note placed = v1(2) v2(2) v3(2) v4(2) v5(2) v6(2) v7(2) v8(2) v9(2) v10(2) v11(2) v12(2)
  show "slice 2 2 buf = to_be (word_of_nat (56 + length payload) :: u16)"
    "slice 12 4 buf = to_be src_ip" "slice 16 4 buf = to_be dst_ip"
    "slice 20 2 buf = to_be src_port" "slice 22 2 buf = to_be dst_port"
    "slice 40 16 buf = lossless_option meta" "slice 56 (length payload) buf = payload"
    unfolding buf by (simp_all add: placed [simplified] moved [simplified] le n)
  have "slice 0 1 buf = [0x45]" "slice 9 1 buf = [6]" "slice 32 1 buf = [0x90]"
    unfolding buf by (simp_all add: placed [simplified] moved [simplified] le)
  moreover have "xs ! i = x" if "slice i 1 xs = [x]" for xs i and x :: u8
    using that by (cases "drop i xs") (auto simp: slice_def nth_via_drop)
  ultimately show "buf ! 0 = 0x45" "buf ! 9 = 6" "buf ! 32 = 0x90" by blast+
qed

lemma be_value_acc: "be_value acc bs = acc * 256 ^ length bs + be_value 0 bs"
proof (induction bs arbitrary: acc)
  case (Cons b bs)
  show ?case
    using Cons [of "acc * 256 + unat b"] Cons [of "unat b"] by (simp add: algebra_simps)
qed simp

lemma be_value_to_be:
  "be_value 0 (to_be (a :: u16)) = unat a" "be_value 0 (to_be (b :: u32)) = unat b"
  using unat_u16_bound [of a] unat_u32_bound [of b] by (simp_all add: to_be_def be_value_be_digits)

lemma from_be_pair_u16: "(from_be (to_be a @ to_be b) :: u32) = push_bit 16 (ucast (a :: u16)) OR ucast (b :: u16)"
proof -
  have disj: "(push_bit 16 (ucast a) :: u32) + ucast b = push_bit 16 (ucast a) OR ucast b"
    by (rule disjunctive_add) (auto simp: bit_push_bit_iff bit_ucast_iff dest: bit_imp_le_length)
  have "be_value 0 (to_be a @ to_be b) = unat a * 2 ^ 16 + unat b"
    using be_value_acc [of "unat a" "to_be b"] by (simp add: be_value_append be_value_to_be)
  then have "(from_be (to_be a @ to_be b) :: u32) = word_of_nat (unat a) * 2 ^ 16 + word_of_nat (unat b)"
    by (simp add: from_be_def)
  also have "\<dots> = push_bit 16 (ucast a) + ucast b"
    by (simp add: push_bit_eq_mult)
  finally show ?thesis by (simp add: disj)
qed

lemma from_be_pair_u32: "(from_be (to_be a @ to_be b) :: u64) = push_bit 32 (ucast (a :: u32)) OR ucast (b :: u32)"
proof -
  have disj: "(push_bit 32 (ucast a) :: u64) + ucast b = push_bit 32 (ucast a) OR ucast b"
    by (rule disjunctive_add) (auto simp: bit_push_bit_iff bit_ucast_iff dest: bit_imp_le_length)
  have "be_value 0 (to_be a @ to_be b) = unat a * 2 ^ 32 + unat b"
    using be_value_acc [of "unat a" "to_be b"] by (simp add: be_value_append be_value_to_be)
  then have "(from_be (to_be a @ to_be b) :: u64) = word_of_nat (unat a) * 2 ^ 32 + word_of_nat (unat b)"
    by (simp add: from_be_def)
  also have "\<dots> = push_bit 32 (ucast a) + ucast b"
    by (simp add: push_bit_eq_mult)
  finally show ?thesis by (simp add: disj)
qed

lemma low_masks: "(0xFFFFFFFF :: 128 word) = mask 32" "(0xFFFF :: 128 word) = mask 16"
  by (simp_all add: mask_eq_exp_minus_1)

lemma flow_id_fields:
  "flow_src_ip (flow_id_from_parts src_ip src_port dst_ip dst_port) = src_ip"
  "flow_dst_ip (flow_id_from_parts src_ip src_port dst_ip dst_port) = dst_ip"
  "flow_src_port (flow_id_from_parts src_ip src_port dst_ip dst_port) = src_port"
  "flow_dst_port (flow_id_from_parts src_ip src_port dst_ip dst_port) = dst_port"
  unfolding flow_src_ip_def flow_dst_ip_def flow_src_port_def flow_dst_port_def
    flow_id_from_parts_def Let_def from_be_pair_u16 from_be_pair_u32 low_masks
  by (intro bit_word_eqI; auto simp: bit_simps dest: bit_imp_le_length)+

lemma packet_from_buffer:
  assumes "20 \<le> length buf" "buf ! 0 = 0x45" "24 \<le> length buf"
    "slice 12 4 buf = to_be src_ip" "slice 16 4 buf = to_be dst_ip"
    "slice 20 2 buf = to_be src_port" "slice 22 2 buf = to_be dst_port"
  shows "packet_from_vec buf = Some \<lparr>pk_flow_id = flow_id_from_parts src_ip src_port dst_ip dst_port,
    pk_packet_size = length buf, pk_buffer = buf\<rparr>"
proof -
  have ips: "slice 12 8 buf = to_be src_ip @ to_be dst_ip" and ports: "slice 20 4 buf = to_be src_port @ to_be dst_port"
    using slice_split [of 12 4 4 buf] slice_split [of 20 2 2 buf] assms by simp_all
  have ne: "buf \<noteq> []" using assms(1) by auto
  have "get_flow_id_from_buf buf = Some (flow_id_from_parts src_ip src_port dst_ip dst_port)"
    using assms ips ports ne unfolding get_flow_id_from_buf_def
    by (simp add: flow_id_from_parts_def)
  then show ?thesis using ne by (simp add: packet_from_vec_def packet_new_def slice_all)
qed

lemma built_packet:
  "\<exists>packet. build_packet route payload = Some packet \<and>
     pk_flow_id packet = flow_id_from_parts (fr_src_ip route) (fr_src_port route) (fr_dst_ip route) (fr_dst_port route) \<and>
     lossless_session_id packet = Some (Some (fr_session_id route)) \<and>
     lossless_fec_tree_id packet = Some (fr_tree_id route) \<and>
     (tcp_payload packet = Some (Some payload) \<longleftrightarrow> 56 + length payload < 2 ^ 16)"
proof -
  let ?meta = "\<lparr>tm_session_id = fr_session_id route, tm_tree_id = fr_tree_id route\<rparr>"
  define buf where "buf = ipv4_tcp_buffer (fr_src_ip route) (fr_src_port route) (fr_dst_ip route) (fr_dst_port route)
    (Some ?meta) payload"
  note f = ipv4_tcp_buffer_fields [where src_ip = "fr_src_ip route" and src_port = "fr_src_port route" and
      dst_ip = "fr_dst_ip route" and dst_port = "fr_dst_port route" and meta = ?meta and payload = payload,
      folded buf_def]
  have len: "length buf = 56 + length payload" by (simp add: buf_def length_ipv4_tcp_buffer)
  define packet where "packet = \<lparr>pk_flow_id = flow_id_from_parts (fr_src_ip route) (fr_src_port route) (fr_dst_ip route) (fr_dst_port route),
    pk_packet_size = length buf, pk_buffer = buf\<rparr>"
  have build: "build_packet route payload = Some packet"
    unfolding build_packet_def build_ipv4_tcp_packet_with_lossless_meta_def buf_def [symmetric]
      packet_def
    by (rule packet_from_buffer) (simp_all add: len f)
  have packet: "packet_bytes packet = Some buf" "pk_packet_size packet = 56 + length payload"
    by (simp_all add: packet_wf_def packet_def) (simp add: len)
  have opt_bytes: "buf ! (40 + i) = lossless_option ?meta ! i" if "i < 16" for i
    using nth_slice [OF that, of 40 buf] that by (simp add: f(9) len)
  have opt_slices: "slice (40 + a) n buf = slice a n (lossless_option ?meta)" if "a + n \<le> 16" for a n
    using that by (intro slice_eqI) (auto simp: nth_slice opt_bytes add.assoc len)
  have nibbles: "drop_bit 4 (0x45 :: u8) = 4" "(0x45 :: u8) AND 0x0F = 5" "drop_bit 4 (0x90 :: u8) AND 0x0F = 9"
    by (code_simp, code_simp, code_simp)
  have opt: "buf ! 40 = LOSSLESS_META_OPTION_KIND" "buf ! 41 = 16" "buf ! 42 = (if fr_tree_id route \<noteq> None then 1 else 0)"
    "slice 44 8 buf = to_be (fr_session_id route)"
    "slice 52 2 buf = to_be (case fr_tree_id route of Some tree_id \<Rightarrow> tree_id | None \<Rightarrow> 0)"
    using opt_bytes [of 0] opt_bytes [of 1] opt_bytes [of 2] opt_slices [of 4 8] opt_slices [of 12 2]
    by (simp_all add: lossless_option_def LOSSLESS_META_OPTION_LEN_def slice_def)
  have loop: "option_loop buf 40 56 = Some (Some ?meta)"
    using opt by (subst option_loop.simps)
      (auto simp: len LOSSLESS_META_OPTION_KIND_def LOSSLESS_META_OPTION_LEN_def split: option.split)
  have meta: "lossless_transport_meta packet = Some (Some ?meta)"
    unfolding lossless_transport_meta_def
    by (simp add: packet len f nibbles IP_HLEN_def TCP_BASE_HLEN_def loop)
  let ?total = "min ((56 + length payload) mod 2 ^ 16) (56 + length payload)"
  have bounds: "tcp_payload_bounds packet = Some (if ?total < 56 then None else Some (56, ?total))"
  proof -
    have "unat (from_be (slice 2 2 buf) :: u16) = (56 + length payload) mod 2 ^ 16"
      by (simp add: f unat_of_nat take_bit_eq_mod del: of_nat_add)
    then show ?thesis unfolding tcp_payload_bounds_def
      by (simp add: packet len f(1-3) nibbles)
  qed
  have "tcp_payload packet = Some (Some payload) \<longleftrightarrow> 56 + length payload < 2 ^ 16"
  proof (cases "56 + length payload < 2 ^ 16")
    case True
    then show ?thesis by (simp add: tcp_payload_def bounds packet len f)
  next
    case False
    then have "?total < 56 + length payload"
      using mod_less_divisor [of "2 ^ 16" "56 + length payload"] unfolding min_less_iff_disj by simp
    then have "tcp_payload packet \<noteq> Some (Some payload)"
      by (auto simp: tcp_payload_def bounds packet len dest: arg_cong [where f = length])
    then show ?thesis using False by simp
  qed
  then show ?thesis
    using build meta by (intro exI [of _ packet])
      (simp add: packet_def [THEN arg_cong, of pk_flow_id] lossless_session_id_def lossless_fec_tree_id_def)
qed

text \<open>C31. The envelope of a session frame: the packet built around a frame has the flow id of its
  route, carries its session and tree ids, and gives the frame back as its payload exactly when
  headers and frame fit the 16-bit length of the IPv4 header; a longer frame comes out cut or
  not at all.\<close>

theorem build_packet_exact:
  "\<exists>packet. build_packet route payload = Some packet \<and>
     pk_flow_id packet = flow_id_from_parts (fr_src_ip route) (fr_src_port route) (fr_dst_ip route) (fr_dst_port route) \<and>
     lossless_session_id packet = Some (Some (fr_session_id route)) \<and>
     lossless_fec_tree_id packet = Some (fr_tree_id route) \<and>
     (tcp_payload packet = Some (Some payload) \<longleftrightarrow> 56 + length payload < 2 ^ 16)"
  by (rule built_packet)

end
