(* ===== verification/Framing.thy ===== *)
theory Framing
  imports Packet_Envelope "HOL-Library.Sublist"
begin

text \<open>
  Packet framing on byte streams (\<open>src/dataplane/src/node/network/framing.rs\<close>): each packet is
  preceded by its length in four bytes.  The writer hands its slices to \<open>write_vectored\<close> again and
  again, each call taking some of the bytes; the results of the calls are an input of the model.
  The reader takes the bytes that arrived before the stream ended.
\<close>

section \<open>Writing\<close>

datatype IoError = UnexpectedEof | InvalidData nat | WriteZero

text \<open>\<open>IoSlice::advance_slices\<close>; advancing past the end is its panic.\<close>

fun advance_slices :: "nat \<Rightarrow> bytes list \<Rightarrow> bytes list may_panic" where
  "advance_slices n [] = (if n = 0 then Some [] else None)"
| "advance_slices n (s # slices) =
     (if length s \<le> n then advance_slices (n - length s) slices else Some (drop n s # slices))"

text \<open>A call of \<open>write_vectored\<close> that would take \<open>k\<close> bytes takes at most those there are.  When the
  calls of the list are used up the writer is waiting.\<close>

datatype WriteResult = Written bytes | WriteFailed IoError bytes | Writing bytes

fun write_loop :: "bytes list \<Rightarrow> (IoError + nat) list \<Rightarrow> bytes \<Rightarrow> WriteResult may_panic" where
  "write_loop slices results out =
     (if slices = [] then Some (Written out)
      else case results of
        [] \<Rightarrow> Some (Writing out)
      | Inl e # results \<Rightarrow> Some (WriteFailed e out)
      | Inr k # results \<Rightarrow>
          let written_this_call = min k (length (concat slices))
          in if written_this_call = 0 then Some (WriteFailed WriteZero out)
             else case advance_slices written_this_call slices of
               None \<Rightarrow> None
             | Some remaining \<Rightarrow>
                 write_loop remaining results (out @ take written_this_call (concat slices)))"

declare write_loop.simps [simp del]

definition frame_slices :: "Packet list \<Rightarrow> bytes list may_panic" where
  "frame_slices packets = map_option concat
     (those (map (\<lambda>packet. map_option (\<lambda>bytes. [to_be (word_of_nat (pk_packet_size packet) :: u32), bytes])
        (packet_bytes packet)) packets))"

definition write_packets :: "Packet list \<Rightarrow> (IoError + nat) list \<Rightarrow> WriteResult may_panic" where
  "write_packets packets results =
     (if packets = [] then Some (Written [])
      else case frame_slices packets of
        None \<Rightarrow> None
      | Some slices \<Rightarrow> write_loop slices results [])"

section \<open>Reading\<close>

definition MAX_FRAMED_PACKET_SIZE :: nat where "MAX_FRAMED_PACKET_SIZE = 65535"

text \<open>\<open>read_exact\<close> on the bytes that arrive before the stream ends.\<close>

definition read_exact :: "nat \<Rightarrow> bytes \<Rightarrow> (IoError + bytes) \<times> bytes" where
  "read_exact n stream =
     (if length stream < n then (Inl UnexpectedEof, []) else (Inr (take n stream), drop n stream))"

definition read_packet :: "bytes \<Rightarrow> ((IoError + Packet) \<times> bytes) may_panic" where
  "read_packet stream =
     (case read_exact 4 stream of
        (Inl e, stream) \<Rightarrow> Some (Inl e, stream)
      | (Inr len_buf, stream) \<Rightarrow>
          let msg_len = unat (from_be len_buf :: u32)
          in if \<not> (20 \<le> msg_len \<and> msg_len \<le> MAX_FRAMED_PACKET_SIZE)
             then Some (Inl (InvalidData msg_len), stream)
             else case read_exact msg_len stream of
               (Inl e, stream) \<Rightarrow> Some (Inl e, stream)
             | (Inr buf, stream) \<Rightarrow>
                 map_option (\<lambda>packet. (Inr packet, stream)) (packet_new msg_len buf))"

section \<open>The reader task\<close>

definition PROBE_FLOW_ID :: FlowId where
  "PROBE_FLOW_ID = 0x7F0000017F0000020000000000000000"

definition PROBE_HEADER_LEN :: nat where "PROBE_HEADER_LEN = 17"

datatype ReaderEvent = ProcessPacket Packet | ProbeResult u64 nat nat

text \<open>\<open>handle_probe\<close>: the bytes counted per probe; its last packet reports the sum (the bandwidth is
  this sum over the time that passed) and forgets the probe.\<close>

definition handle_probe ::
    "Packet \<Rightarrow> (u64 \<rightharpoonup> nat) \<Rightarrow> (ReaderEvent list \<times> (u64 \<rightharpoonup> nat)) may_panic" where
  "handle_probe packet active_probes =
     (case tcp_payload packet of
        None \<Rightarrow> None
      | Some None \<Rightarrow> Some ([], active_probes)
      | Some (Some payload) \<Rightarrow>
          if length payload < PROBE_HEADER_LEN then Some ([], active_probes)
          else let flags = payload ! 0;
                   probe_id = from_be (slice 1 8 payload);
                   sender_node_id = unat (from_be (slice 9 8 payload) :: u64);
                   bytes_received = (case active_probes probe_id of None \<Rightarrow> 0 | Some n \<Rightarrow> n)
                     + pk_packet_size packet
               in if flags = 1
                  then Some ([ProbeResult probe_id sender_node_id bytes_received],
                    active_probes(probe_id := None))
                  else Some ([], active_probes(probe_id \<mapsto> bytes_received)))"

text \<open>The task never leaves its loop: an error is skipped and the next turn reads on.  The events of
  the given number of turns.\<close>

fun tcp_reader_run :: "nat \<Rightarrow> bytes \<Rightarrow> (u64 \<rightharpoonup> nat) \<Rightarrow> ReaderEvent list may_panic" where
  "tcp_reader_run 0 stream active_probes = Some []"
| "tcp_reader_run (Suc turns) stream active_probes =
     (case read_packet stream of
        None \<Rightarrow> None
      | Some (Inl e, stream) \<Rightarrow> tcp_reader_run turns stream active_probes
      | Some (Inr packet, stream) \<Rightarrow>
          if pk_flow_id packet = PROBE_FLOW_ID
          then (case handle_probe packet active_probes of
                  None \<Rightarrow> None
                | Some (events, active_probes) \<Rightarrow>
                    map_option (\<lambda>later. events @ later) (tcp_reader_run turns stream active_probes))
          else map_option (\<lambda>later. ProcessPacket packet # later)
                 (tcp_reader_run turns stream active_probes))"

section \<open>What is written\<close>

lemma advance_slices_concat:
  "n \<le> length (concat slices) \<Longrightarrow> \<exists>slices'. advance_slices n slices = Some slices' \<and>
     concat slices' = drop n (concat slices)"
proof (induction n slices rule: advance_slices.induct)
  case (2 n s slices)
  then show ?case by (cases "length s \<le> n") auto
qed simp

lemma advance_slices_nonempty:
  "advance_slices n slices = Some slices' \<Longrightarrow> slices' \<noteq> [] \<Longrightarrow> concat slices' \<noteq> []"
proof (induction n slices rule: advance_slices.induct)
  case (2 n s slices)
  then show ?case by (cases "length s \<le> n") auto
qed (simp split: if_splits)

text \<open>Whatever the calls take, the bytes written so far are a prefix of the frames, and all of them
  once the loop returns.\<close>

lemma write_loop_sound:
  assumes "slices \<noteq> [] \<Longrightarrow> concat slices \<noteq> []" "\<forall>k \<in> set ks. \<exists>n > 0. k = Inr n"
  shows "(write_loop slices ks out = Some (Written (out @ concat slices)) \<or>
      (\<exists>part. write_loop slices ks out = Some (Writing (out @ part)) \<and> prefix part (concat slices))) \<and>
    (length (concat slices) \<le> length ks \<longrightarrow> write_loop slices ks out = Some (Written (out @ concat slices)))"
  using assms
proof (induction ks arbitrary: slices out)
  case Nil
  then show ?case by (simp add: write_loop.simps [of slices])
next
  case (Cons k ks)
  show ?case
  proof (cases "slices = []")
    case True
    then show ?thesis by (simp add: write_loop.simps [of "[]"])
  next
    case False
    obtain m where k: "k = Inr m" "0 < m" using Cons.prems by auto
    let ?n = "min m (length (concat slices))"
    have n: "0 < ?n" "?n \<le> length (concat slices)" using Cons.prems k False by auto
    have n0: "?n \<noteq> 0" using n(1) by linarith
    obtain slices' where adv: "advance_slices ?n slices = Some slices'" "concat slices' = drop ?n (concat slices)"
      using advance_slices_concat [OF n(2)] by blast
    have step: "write_loop slices (k # ks) out = write_loop slices' ks (out @ take ?n (concat slices))"
      using False n(1) adv(1) k
      by (subst write_loop.simps) (simp add: Let_def n0 del: length_concat concat_eq_Nil_conv)
    have whole: "(out @ take ?n (concat slices)) @ concat slices' = out @ concat slices" by (simp add: adv(2))
    have ne: "slices' \<noteq> [] \<Longrightarrow> concat slices' \<noteq> []" by (rule advance_slices_nonempty [OF adv(1)])
    have "prefix (take ?n (concat slices) @ part) (concat slices)" if "prefix part (concat slices')" for part
      using that adv(2) by (metis append_take_drop_id same_prefix_prefix)
    moreover have "length (concat slices') \<le> length ks" if "length (concat slices) \<le> length (k # ks)"
      using that n(1) unfolding adv(2) length_drop length_Cons by linarith
    ultimately show ?thesis
      using Cons.IH [OF ne, of "out @ take ?n (concat slices)"] Cons.prems(2)
      unfolding step whole by fastforce
  qed
qed


section \<open>What is read\<close>

definition frame :: "Packet \<Rightarrow> bytes" where
  "frame packet = to_be (word_of_nat (pk_packet_size packet) :: u32) @ pk_buffer packet"

lemma frame_not_Nil [simp]: "frame p \<noteq> []"
  using length_to_be_simps(2) by (metis frame_def append_is_Nil_conv list.size(3) zero_neq_numeral)

text \<open>The packets the writers of the program are given: made by \<open>Packet::new\<close>, and of a size a
  frame may have.\<close>

definition framable :: "Packet \<Rightarrow> bool" where
  "framable p \<longleftrightarrow> packet_from_vec (pk_buffer p) = Some p \<and>
     20 \<le> pk_packet_size p \<and> pk_packet_size p \<le> MAX_FRAMED_PACKET_SIZE"

lemma framable_size: "framable p \<Longrightarrow> length (pk_buffer p) = pk_packet_size p"
  using packet_new_wf [of "length (pk_buffer p)" "pk_buffer p"]
  by (auto simp: framable_def packet_from_vec_def packet_wf_def)

lemma frame_slices_frames:
  assumes "\<forall>p \<in> set packets. framable p"
  shows "\<exists>slices. frame_slices packets = Some slices \<and> concat slices = concat (map frame packets)"
proof -
  have "those (map (\<lambda>packet. map_option (\<lambda>bytes. [to_be (word_of_nat (pk_packet_size packet) :: u32), bytes])
      (packet_bytes packet)) packets) =
    Some (map (\<lambda>p. [to_be (word_of_nat (pk_packet_size p) :: u32), pk_buffer p]) packets)"
    using assms by (induction packets) (auto simp: packet_bytes_def slice_def framable_size [symmetric])
  moreover have "concat (concat (map (\<lambda>p. [to_be (word_of_nat (pk_packet_size p) :: u32), pk_buffer p]) packets)) =
      concat (map frame packets)"
    by (induction packets) (simp_all add: frame_def)
  ultimately show ?thesis by (simp add: frame_slices_def)
qed

lemma read_frame:
  assumes "framable p"
  shows "read_packet (frame p @ rest) = Some (Inr p, rest)"
proof -
  have "unat (word_of_nat (pk_packet_size p) :: u32) = pk_packet_size p"
    using assms by (simp add: framable_def MAX_FRAMED_PACKET_SIZE_def unat_of_nat_small)
  then show ?thesis using assms framable_size [OF assms]
    by (simp add: read_packet_def read_exact_def frame_def framable_def packet_from_vec_def)
qed

text \<open>A reader that is given a beginning of the frames finds the packets whose frames are whole; the
  rest is an end of stream.\<close>

lemma read_part_of_frame:
  assumes "framable p" "strict_prefix stream (frame p)"
  shows "\<exists>e. read_packet stream = Some (Inl e, [])"
proof (cases "length stream < 4")
  case True
  then show ?thesis by (simp add: read_packet_def read_exact_def)
next
  case False
  have size: "unat (word_of_nat (pk_packet_size p) :: u32) = pk_packet_size p"
    using assms(1) by (simp add: framable_def MAX_FRAMED_PACKET_SIZE_def unat_of_nat_small)
  obtain rest where rest: "frame p = stream @ rest" "rest \<noteq> []"
    using assms(2) by (auto simp: strict_prefix_def prefix_def)
  have "take 4 stream = take 4 (frame p)" using False by (simp add: rest)
  then have "take 4 stream = to_be (word_of_nat (pk_packet_size p) :: u32)" by (simp add: frame_def)
  moreover have "length stream < 4 + pk_packet_size p"
    using arg_cong [OF rest(1), of length] rest(2) framable_size [OF assms(1)] by (cases rest) (simp_all add: frame_def)
  ultimately show ?thesis using assms(1) False size
    by (simp add: read_packet_def read_exact_def framable_def Let_def)
qed

lemma read_no_panic: "read_packet stream \<noteq> None"
  using packet_new_wf unfolding read_packet_def read_exact_def
  by (auto simp: Let_def split: prod.splits sum.splits if_splits simp del: not_None_eq)

lemma reader_drained: "tcp_reader_run n [] active_probes = Some []"
  by (induction n) (simp_all add: read_packet_def read_exact_def)

definition no_probes :: "Packet list \<Rightarrow> bool" where
  "no_probes packets \<longleftrightarrow> (\<forall>p \<in> set packets. framable p \<and> pk_flow_id p \<noteq> PROBE_FLOW_ID)"

text \<open>\<open>whole_frames packets stream m\<close>: exactly the first \<open>m\<close> frames are whole in the bytes that arrived.\<close>

definition whole_frames :: "Packet list \<Rightarrow> bytes \<Rightarrow> nat \<Rightarrow> bool" where
  "whole_frames packets stream m \<longleftrightarrow> m \<le> length packets \<and>
     prefix (concat (map frame (take m packets))) stream \<and>
     (m < length packets \<longrightarrow> length stream < length (concat (map frame (take (Suc m) packets))))"

lemma whole_frames_all: "whole_frames packets (concat (map frame packets)) m \<longleftrightarrow> m = length packets"
proof
  assume m: "whole_frames packets (concat (map frame packets)) m"
  have "length (concat (map frame (take (Suc m) packets))) \<le> length (concat (map frame packets))"
    by (metis append_take_drop_id concat_append le_add1 length_append map_append)
  then show "m = length packets" using m by (auto simp: whole_frames_def simp del: length_concat)
qed (simp add: whole_frames_def)

lemma reader_frames:
  assumes "no_probes packets" "prefix stream (concat (map frame packets))" "length packets \<le> turns"
  shows "\<exists>m. whole_frames packets stream m \<and>
    tcp_reader_run turns stream active_probes = Some (map ProcessPacket (take m packets))"
  using assms
proof (induction packets arbitrary: stream turns)
  case Nil
  then show ?case by (simp add: reader_drained whole_frames_def)
next
  case (Cons p packets)
  have p: "framable p" "pk_flow_id p \<noteq> PROBE_FLOW_ID" "no_probes packets" using Cons.prems(1) by (auto simp: no_probes_def)
  obtain m where turns: "turns = Suc m" "length packets \<le> m" using Cons.prems(3) by (cases turns) auto
  show ?case
  proof (cases "prefix (frame p) stream")
    case True
    then obtain rest where rest: "stream = frame p @ rest" by (auto simp: prefix_def)
    have "prefix rest (concat (map frame packets))" using Cons.prems(2) by (simp add: rest)
    from Cons.IH [OF p(3) this turns(2)] obtain k where
      k: "whole_frames packets rest k" "tcp_reader_run m rest active_probes = Some (map ProcessPacket (take k packets))"
      by blast
    have "whole_frames (p # packets) stream (Suc k)"
      using k(1) by (simp add: whole_frames_def rest del: length_concat)
    then show ?thesis using k(2)
      by (intro exI [of _ "Suc k"]) (simp add: turns(1) rest read_frame [OF p(1)] p(2))
  next
    case False
    have "prefix stream (frame p) \<or> prefix (frame p) stream"
      using Cons.prems(2) prefix_same_cases [of stream "concat (map frame (p # packets))" "frame p"] by simp
    then have part: "strict_prefix stream (frame p)" using False by (auto simp: strict_prefix_def)
    obtain e where "read_packet stream = Some (Inl e, [])" using read_part_of_frame [OF p(1) part] ..
    moreover have "whole_frames (p # packets) stream 0"
      using prefix_length_less [OF part] by (simp add: whole_frames_def)
    ultimately show ?thesis
      by (intro exI [of _ 0]) (simp add: turns(1) reader_drained)
  qed
qed

text \<open>C30. Packets cross a byte stream whole and in order: when every call of the writer takes some
  bytes, the writer returns without error once it was called often enough, and has then written the
  frames of the packets; before that it has written a beginning of them.  Of what was written,
  whatever beginning arrives, a reader task hands over exactly the packets whose frames are whole in
  it, in order and unchanged: all of them when everything arrives, and when the stream breaks in
  the middle of a packet, every packet before that one.\<close>

theorem framing_round_trip:
  assumes "no_probes packets" "\<forall>k \<in> set ks. \<exists>n > 0. k = Inr n" "length packets \<le> turns"
  shows "(\<exists>out. (write_packets packets ks = Some (Written out) \<and> out = concat (map frame packets) \<or>
        write_packets packets ks = Some (Writing out) \<and> prefix out (concat (map frame packets))) \<and>
      (\<forall>arrived. prefix arrived out \<longrightarrow>
        (\<exists>m. whole_frames packets arrived m \<and> (arrived = concat (map frame packets) \<longrightarrow> m = length packets) \<and>
          tcp_reader_run turns arrived active_probes = Some (map ProcessPacket (take m packets))))) \<and>
    (length (concat (map frame packets)) \<le> length ks \<longrightarrow>
      write_packets packets ks = Some (Written (concat (map frame packets))))"
proof -
  let ?all = "concat (map frame packets)"
  have writes: "(\<exists>out. write_packets packets ks = Some (Written out) \<and> out = ?all \<or>
      write_packets packets ks = Some (Writing out) \<and> prefix out ?all) \<and>
    (length ?all \<le> length ks \<longrightarrow> write_packets packets ks = Some (Written ?all))"
  proof (cases "packets = []")
    case False
    have "\<forall>p \<in> set packets. framable p" using assms(1) by (simp add: no_probes_def)
    then obtain slices where slices: "frame_slices packets = Some slices" "concat slices = ?all"
      using frame_slices_frames by blast
    have "concat slices \<noteq> []" using False by (cases packets) (auto simp: slices(2))
    then show ?thesis
      using write_loop_sound [of slices ks "[]"] assms(2) False slices
      by (auto simp: write_packets_def simp del: length_concat)
  qed (simp add: write_packets_def)
  have reads: "\<exists>m. whole_frames packets arrived m \<and> (arrived = ?all \<longrightarrow> m = length packets) \<and>
      tcp_reader_run turns arrived active_probes = Some (map ProcessPacket (take m packets))"
    if "prefix arrived out" "prefix out ?all" for arrived out
    using reader_frames [OF assms(1) prefix_order.trans [OF that] assms(3), of active_probes]
      whole_frames_all [of packets] by blast
  obtain out where out: "write_packets packets ks = Some (Written out) \<and> out = ?all \<or>
      write_packets packets ks = Some (Writing out) \<and> prefix out ?all" using writes by blast
  then have "prefix out ?all" by blast
  show ?thesis
    by (rule conjI, intro exI [of _ out] conjI [OF out] allI impI)
      (rule reads [OF _ \<open>prefix out ?all\<close>], assumption, rule conjunct2 [OF writes])
qed

text \<open>The writer does not bound the size of a packet and the reader does not skip the bytes of one
  it refuses: the content of a packet longer than the bound is read as further frames.\<close>

theorem refused_content_is_parsed:
  assumes "MAX_FRAMED_PACKET_SIZE < pk_packet_size big" "pk_packet_size big < 2 ^ 32"
    "pk_buffer big = frame p @ rest" "framable p" "pk_flow_id p \<noteq> PROBE_FLOW_ID"
  shows "tcp_reader_run 2 (frame big @ stream) active_probes = Some [ProcessPacket p]"
proof -
  have "unat (word_of_nat (pk_packet_size big) :: u32) = pk_packet_size big"
    using assms(2) by (simp add: unat_of_nat_small)
  then have "read_packet (frame big @ stream) = Some (Inl (InvalidData (pk_packet_size big)), frame p @ rest @ stream)"
    using assms(1,3) by (simp add: read_packet_def read_exact_def frame_def)
  then show ?thesis by (simp add: numeral_2_eq_2 read_frame [OF assms(4)] assms(5))
qed

text \<open>A packet of the session tasks and a bare 20-byte one, written in calls that take 30 bytes each;
  the fourth call is missing.\<close>

definition witness_packets :: "Packet list" where
  "witness_packets = [the (packet_from_vec (replicate 20 0)), the (packet_from_vec (replicate 64 0))]"

lemma witness_packets_framable: "no_probes witness_packets"
  by (simp add: witness_packets_def no_probes_def framable_def packet_from_vec_def packet_new_def
      get_flow_id_from_buf_def slice_def byte_at_def sub_slice_def INVALID_FLOW_ID_def PROBE_FLOW_ID_def
      MAX_FRAMED_PACKET_SIZE_def)

lemma framing_round_trip_witness:
  "\<exists>out m. (write_packets witness_packets (replicate 92 (Inr 30)) = Some (Written out) \<or>
      write_packets witness_packets (replicate 92 (Inr 30)) = Some (Writing out)) \<and>
    whole_frames witness_packets (take 30 out) m \<and>
    tcp_reader_run 2 (take 30 out) Map.empty = Some (map ProcessPacket (take m witness_packets))"
proof -
  let ?out = "write_packets witness_packets (replicate 92 (Inr 30))"
  have ks: "\<forall>k \<in> set (replicate 92 (Inr 30)). \<exists>n > 0. k = (Inr n :: IoError + nat)" by simp
  have turns: "length witness_packets \<le> 2" by (simp add: witness_packets_def)
  obtain out where "?out = Some (Written out) \<or> ?out = Some (Writing out)"
    "\<forall>arrived. prefix arrived out \<longrightarrow> (\<exists>m. whole_frames witness_packets arrived m \<and>
      tcp_reader_run 2 arrived Map.empty = Some (map ProcessPacket (take m witness_packets)))"
    using framing_round_trip [OF witness_packets_framable ks turns, of Map.empty] by blast
  then show ?thesis using take_is_prefix [of 30 out] by blast
qed

end
