(* ===== verification/Scheduler_Queues.thy ===== *)
theory Scheduler_Queues
  imports Packet_Envelope Complex_Main
begin

text \<open>
  The queues of the packet scheduler (\<open>src/dataplane/src/node/scheduler\<close>): the trait
  \<open>SchedulerQueue\<close> of \<open>queue.rs\<close> as a record of operations, \<open>FifoQueue\<close> of \<open>fifo.rs\<close>,
  \<open>WrrQueue\<close> of \<open>wrr.rs\<close> and the drop strategies of \<open>drop.rs\<close>.

  The bounded queue \<open>ArrayQueue\<close> of the crate crossbeam is a parameter: a record of operations over
  a type of its own, with its documented behaviour as the locale \<open>array_queue\<close>.  The trait's
  contract is the locale \<open>scheduler_queue\<close>, which both queues are shown to keep.

  Other threads run between the calls of a queue's operations and, in \<open>collect_packets\<close>, between its
  turns: FIFO pops packet by packet without a lock, WRR takes the locks anew for every visit of a flow.
  So \<open>collect_packets\<close> is given as its beginning and its turns.
\<close>

section \<open>The bounded queue\<close>

record 'a ArrayQueue =
  aq_new :: "nat \<Rightarrow> 'a may_panic"
  aq_push :: "'a \<Rightarrow> Packet \<Rightarrow> (Packet + unit) \<times> 'a"
  aq_pop :: "'a \<Rightarrow> Packet option \<times> 'a"
  aq_len :: "'a \<Rightarrow> nat"
  aq_is_empty :: "'a \<Rightarrow> bool"

locale array_queue =
  fixes aq :: "'a ArrayQueue" and items :: "'a \<Rightarrow> Packet list" and bound :: "'a \<Rightarrow> nat"
  assumes new_empty: "0 < n \<Longrightarrow> \<exists>q. aq_new aq n = Some q \<and> items q = [] \<and> bound q = n"
    and new_zero: "aq_new aq 0 = None"
    and push_room: "length (items q) < bound q \<Longrightarrow>
      \<exists>q'. aq_push aq q p = (Inr (), q') \<and> items q' = items q @ [p] \<and> bound q' = bound q"
    and push_full: "\<not> length (items q) < bound q \<Longrightarrow>
      \<exists>q'. aq_push aq q p = (Inl p, q') \<and> items q' = items q \<and> bound q' = bound q"
    and pop_some: "items q = p # ps \<Longrightarrow> \<exists>q'. aq_pop aq q = (Some p, q') \<and> items q' = ps \<and> bound q' = bound q"
    and pop_none: "items q = [] \<Longrightarrow> \<exists>q'. aq_pop aq q = (None, q') \<and> items q' = [] \<and> bound q' = bound q"
    and len_items: "aq_len aq q = length (items q)"
    and is_empty_items: "aq_is_empty aq q \<longleftrightarrow> items q = []"

text \<open>A queue with these laws: a bound and a list.\<close>

definition list_queue :: "(nat \<times> Packet list) ArrayQueue" where
  "list_queue = \<lparr>
     aq_new = (\<lambda>n. if n = 0 then None else Some (n, [])),
     aq_push = (\<lambda>(n, ps) p. if length ps < n then (Inr (), (n, ps @ [p])) else (Inl p, (n, ps))),
     aq_pop = (\<lambda>(n, ps). case ps of [] \<Rightarrow> (None, (n, [])) | p # ps \<Rightarrow> (Some p, (n, ps))),
     aq_len = (\<lambda>(n, ps). length ps),
     aq_is_empty = (\<lambda>(n, ps). ps = [])\<rparr>"

interpretation list_queue: array_queue list_queue snd fst
  by unfold_locales (auto simp: list_queue_def)

section \<open>The trait\<close>

text \<open>\<open>sq_orders\<close>: the orders in which the keys of the queue's hash map may come.  A collection in
  progress is a \<open>'c\<close>; a turn gives the packets it moved to the batch and the rest of the
  collection, if any.\<close>

record ('q, 'c) SchedulerQueue =
  sq_enqueue :: "'q \<Rightarrow> Packet \<Rightarrow> ((Packet + unit) \<times> 'q) may_panic"
  sq_orders :: "'q \<Rightarrow> FlowId list \<Rightarrow> bool"
  sq_collect_begin :: "'q \<Rightarrow> FlowId list \<Rightarrow> 'c may_panic"
  sq_collect_turn :: "'q \<Rightarrow> 'c \<Rightarrow> Packet list \<times> 'q \<times> 'c option"
  sq_is_empty :: "'q \<Rightarrow> bool"
  sq_queue_len :: "'q \<Rightarrow> FlowId \<Rightarrow> nat"
  sq_set_flow_weight :: "'q \<Rightarrow> FlowId \<Rightarrow> nat \<Rightarrow> 'q"

definition of_flow :: "FlowId \<Rightarrow> Packet list \<Rightarrow> Packet list" where
  "of_flow flow_id = filter (\<lambda>p. pk_flow_id p = flow_id)"

lemma of_flow_simps [simp]:
  "of_flow f [] = []" "of_flow f (xs @ ys) = of_flow f xs @ of_flow f ys"
  "of_flow f (p # ps) = (if pk_flow_id p = f then p # of_flow f ps else of_flow f ps)"
  by (simp_all add: of_flow_def)

text \<open>The contract: the packets of each flow leave in the order in which they were accepted, none
  is lost or made up, and a packet is refused only when as many as the capacity are waiting.\<close>

locale scheduler_queue =
  fixes ops :: "('q, 'c) SchedulerQueue" and good :: "'q \<Rightarrow> bool" and capacity :: nat
    and contents :: "'q \<Rightarrow> FlowId \<Rightarrow> Packet list" and occupancy :: "'q \<Rightarrow> nat"
  assumes enqueue_result: "good q \<Longrightarrow> \<exists>r q'. sq_enqueue ops q p = Some (r, q') \<and> good q' \<and>
      (r = Inr () \<and> occupancy q' = Suc (occupancy q) \<and>
         (\<forall>f. contents q' f = contents q f @ of_flow f [p]) \<or>
       r = Inl p \<and> capacity \<le> occupancy q \<and> occupancy q' = occupancy q \<and> contents q' = contents q)"
    and collect_begins: "good q \<Longrightarrow> 0 < occupancy q \<Longrightarrow> sq_orders ops q order \<Longrightarrow>
      sq_collect_begin ops q order \<noteq> None"
    and collect_moves: "good q \<Longrightarrow> sq_collect_turn ops q c = (ps, q', c') \<Longrightarrow>
      good q' \<and> occupancy q = length ps + occupancy q' \<and> (\<forall>f. contents q f = of_flow f ps @ contents q' f)"
    and is_empty_iff: "good q \<Longrightarrow> sq_is_empty ops q \<longleftrightarrow> occupancy q = 0"
    and len_contents: "good q \<Longrightarrow> length (contents q f) \<le> sq_queue_len ops q f"
    and contents_occupancy: "good q \<Longrightarrow> length (contents q f) \<le> occupancy q"
    and weight_keeps: "good q \<Longrightarrow> good (sq_set_flow_weight ops q f w) \<and>
      contents (sq_set_flow_weight ops q f w) = contents q \<and>
      occupancy (sq_set_flow_weight ops q f w) = occupancy q"

text \<open>\<open>collect_packets\<close> without another thread in between, for a number of turns that has to be
  enough.\<close>

fun collect_turns :: "('q, 'c) SchedulerQueue \<Rightarrow> nat \<Rightarrow> 'q \<Rightarrow> 'c \<Rightarrow> (Packet list \<times> 'q) option" where
  "collect_turns ops 0 q c = None"
| "collect_turns ops (Suc turns) q c =
     (case sq_collect_turn ops q c of
        (packets, q, None) \<Rightarrow> Some (packets, q)
      | (packets, q, Some c) \<Rightarrow>
          map_option (\<lambda>(batch, q). (packets @ batch, q)) (collect_turns ops turns q c))"

definition collect_packets ::
    "('q, 'c) SchedulerQueue \<Rightarrow> nat \<Rightarrow> 'q \<Rightarrow> FlowId list \<Rightarrow> (Packet list \<times> 'q) option" where
  "collect_packets ops turns q order =
     (case sq_collect_begin ops q order of None \<Rightarrow> None | Some c \<Rightarrow> collect_turns ops turns q c)"

section \<open>FIFO\<close>

definition fifo_enqueue :: "'a ArrayQueue \<Rightarrow> 'a \<Rightarrow> Packet \<Rightarrow> ((Packet + unit) \<times> 'a) may_panic" where
  "fifo_enqueue aq queue packet = Some (aq_push aq queue packet)"

text \<open>\<open>while let Some(packet) = self.queue.pop()\<close>, a turn for each pop.\<close>

definition fifo_collect_turn :: "'a ArrayQueue \<Rightarrow> 'a \<Rightarrow> unit \<Rightarrow> Packet list \<times> 'a \<times> unit option" where
  "fifo_collect_turn aq queue _ =
     (case aq_pop aq queue of
        (Some packet, queue) \<Rightarrow> ([packet], queue, Some ())
      | (None, queue) \<Rightarrow> ([], queue, None))"

definition fifo_queue :: "'a ArrayQueue \<Rightarrow> ('a, unit) SchedulerQueue" where
  "fifo_queue aq = \<lparr>
     sq_enqueue = fifo_enqueue aq,
     sq_orders = (\<lambda>queue order. True),
     sq_collect_begin = (\<lambda>queue order. Some ()),
     sq_collect_turn = fifo_collect_turn aq,
     sq_is_empty = aq_is_empty aq,
     sq_queue_len = (\<lambda>queue flow_id. aq_len aq queue),
     sq_set_flow_weight = (\<lambda>queue flow_id weight. queue)\<rparr>"

context array_queue
begin

lemma pop_cases:
  obtains q' where "aq_pop aq q = (None, q')" "items q = []" "items q' = []" "bound q' = bound q"
  | p q' where "aq_pop aq q = (Some p, q')" "items q = p # items q'" "bound q' = bound q"
  by (metis pop_some pop_none neq_Nil_conv)

lemma push_cases:
  obtains q' where "aq_push aq q p = (Inr (), q')" "length (items q) < bound q" "items q' = items q @ [p]" "bound q' = bound q"
  | q' where "aq_push aq q p = (Inl p, q')" "bound q \<le> length (items q)" "items q' = items q" "bound q' = bound q"
  using push_room [of q p] push_full [of q p] by (cases "length (items q) < bound q") force+

lemma fifo_keeps_contract:
  "scheduler_queue (fifo_queue aq) (\<lambda>q. bound q = capacity) capacity (\<lambda>q f. of_flow f (items q)) (\<lambda>q. length (items q))"
proof (unfold_locales, goal_cases)
  case (1 q p)
  show ?case by (rule push_cases [of q p]) (use 1 in \<open>auto simp: fifo_queue_def fifo_enqueue_def\<close>)
next
  case (3 q c ps q' c')
  show ?case by (rule pop_cases [of q]) (use 3 in \<open>auto simp: fifo_queue_def fifo_collect_turn_def\<close>)
qed (simp_all add: fifo_queue_def is_empty_items len_items of_flow_def)

end

section \<open>Weighted round robin\<close>

record 'a WrrQueue =
  wq_flow_queues :: "FlowId \<rightharpoonup> 'a"
  wq_flow_weights :: "FlowId \<rightharpoonup> nat"
  wq_capacity :: nat

definition wrr_new :: "nat \<Rightarrow> 'a WrrQueue" where
  "wrr_new capacity = \<lparr>wq_flow_queues = Map.empty, wq_flow_weights = Map.empty, wq_capacity = capacity\<rparr>"

definition wrr_enqueue ::
    "'a ArrayQueue \<Rightarrow> 'a WrrQueue \<Rightarrow> Packet \<Rightarrow> ((Packet + unit) \<times> 'a WrrQueue) may_panic" where
  "wrr_enqueue aq q packet =
     (let flow_id = pk_flow_id packet
      in case (case wq_flow_queues q flow_id of
                 Some flow_queue \<Rightarrow> Some flow_queue
               | None \<Rightarrow> aq_new aq (wq_capacity q)) of
           None \<Rightarrow> None
         | Some flow_queue \<Rightarrow>
             let (result, flow_queue) = aq_push aq flow_queue packet
             in Some (result, q\<lparr>wq_flow_queues := (wq_flow_queues q)(flow_id \<mapsto> flow_queue)\<rparr>))"

definition wrr_weight :: "'a WrrQueue \<Rightarrow> FlowId \<Rightarrow> nat" where
  "wrr_weight q flow_id = max 1 (case wq_flow_weights q flow_id of None \<Rightarrow> 1 | Some w \<Rightarrow> w)"

text \<open>The scan: the flows that have packets and the number of rounds.\<close>

fun wrr_scan :: "'a ArrayQueue \<Rightarrow> 'a WrrQueue \<Rightarrow> FlowId list \<Rightarrow> nat option \<times> FlowId list \<Rightarrow> nat option \<times> FlowId list" where
  "wrr_scan aq q [] acc = acc"
| "wrr_scan aq q (flow_id # order) (min_rounds, flow_ids) =
     (case wq_flow_queues q flow_id of
        None \<Rightarrow> wrr_scan aq q order (min_rounds, flow_ids)
      | Some flow_queue \<Rightarrow>
          if \<not> aq_is_empty aq flow_queue
          then let rounds = max 1 (aq_len aq flow_queue div wrr_weight q flow_id)
               in wrr_scan aq q order
                    (Some (case min_rounds of Some current \<Rightarrow> min current rounds | None \<Rightarrow> rounds),
                     flow_ids @ [flow_id])
          else wrr_scan aq q order (min_rounds, flow_ids))"

text \<open>The visits still to make: every flow once in each round.\<close>

definition wrr_collect_begin :: "'a ArrayQueue \<Rightarrow> 'a WrrQueue \<Rightarrow> FlowId list \<Rightarrow> FlowId list may_panic" where
  "wrr_collect_begin aq q order =
     (case wrr_scan aq q order (None, []) of
        (None, _) \<Rightarrow> None
      | (Some min_rounds, flow_ids) \<Rightarrow> Some (concat (replicate min_rounds flow_ids)))"

fun pop_up_to :: "'a ArrayQueue \<Rightarrow> nat \<Rightarrow> 'a \<Rightarrow> Packet list \<times> 'a" where
  "pop_up_to aq 0 queue = ([], queue)"
| "pop_up_to aq (Suc n) queue =
     (case aq_pop aq queue of
        (Some packet, queue) \<Rightarrow> (let (packets, queue) = pop_up_to aq n queue in (packet # packets, queue))
      | (None, queue) \<Rightarrow> pop_up_to aq n queue)"

fun wrr_collect_turn ::
    "'a ArrayQueue \<Rightarrow> 'a WrrQueue \<Rightarrow> FlowId list \<Rightarrow> Packet list \<times> 'a WrrQueue \<times> FlowId list option" where
  "wrr_collect_turn aq q [] = ([], q, None)"
| "wrr_collect_turn aq q (flow_id # visits) =
     (case wq_flow_queues q flow_id of
        None \<Rightarrow> ([], q, Some visits)
      | Some flow_queue \<Rightarrow>
          let (packets, flow_queue) = pop_up_to aq (wrr_weight q flow_id) flow_queue
          in (packets, q\<lparr>wq_flow_queues := (wq_flow_queues q)(flow_id \<mapsto> flow_queue)\<rparr>, Some visits))"

definition wrr_queue :: "'a ArrayQueue \<Rightarrow> ('a WrrQueue, FlowId list) SchedulerQueue" where
  "wrr_queue aq = \<lparr>
     sq_enqueue = wrr_enqueue aq,
     sq_orders = (\<lambda>q order. distinct order \<and> set order = dom (wq_flow_queues q)),
     sq_collect_begin = wrr_collect_begin aq,
     sq_collect_turn = wrr_collect_turn aq,
     sq_is_empty = (\<lambda>q. \<forall>queue \<in> ran (wq_flow_queues q). aq_is_empty aq queue),
     sq_queue_len = (\<lambda>q flow_id. case wq_flow_queues q flow_id of None \<Rightarrow> 0 | Some queue \<Rightarrow> aq_len aq queue),
     sq_set_flow_weight = (\<lambda>q flow_id weight.
       q\<lparr>wq_flow_weights := (wq_flow_weights q)(flow_id \<mapsto> weight)\<rparr>)\<rparr>"

definition wrr_contents :: "('a \<Rightarrow> Packet list) \<Rightarrow> 'a WrrQueue \<Rightarrow> FlowId \<Rightarrow> Packet list" where
  "wrr_contents items q flow_id =
     (case wq_flow_queues q flow_id of None \<Rightarrow> [] | Some queue \<Rightarrow> items queue)"

definition wrr_occupancy :: "('a \<Rightarrow> Packet list) \<Rightarrow> 'a WrrQueue \<Rightarrow> nat" where
  "wrr_occupancy items q = (\<Sum>f \<in> dom (wq_flow_queues q). length (wrr_contents items q f))"

definition wrr_rounds :: "('a \<Rightarrow> Packet list) \<Rightarrow> 'a WrrQueue \<Rightarrow> FlowId \<Rightarrow> nat" where
  "wrr_rounds items q f = max 1 (length (wrr_contents items q f) div wrr_weight q f)"

text \<open>Every flow's queue has the capacity as its bound and holds only packets of the flow.\<close>

definition wrr_inv :: "('a \<Rightarrow> Packet list) \<Rightarrow> ('a \<Rightarrow> nat) \<Rightarrow> nat \<Rightarrow> 'a WrrQueue \<Rightarrow> bool" where
  "wrr_inv items bound capacity q \<longleftrightarrow> 0 < capacity \<and> wq_capacity q = capacity \<and> finite (dom (wq_flow_queues q)) \<and>
     (\<forall>f queue. wq_flow_queues q f = Some queue \<longrightarrow> bound queue = capacity \<and> of_flow f (items queue) = items queue)"

lemma wrr_inv_new: "0 < capacity \<Longrightarrow> wrr_inv items bound capacity (wrr_new capacity)"
  by (simp add: wrr_inv_def wrr_new_def)

lemma of_flow_other: "of_flow g ps = ps \<Longrightarrow> f \<noteq> g \<Longrightarrow> of_flow f ps = []"
  by (auto simp: of_flow_def filter_id_conv filter_empty_conv)

lemma of_flow_twice [simp]: "of_flow f (of_flow f ps) = of_flow f ps"
  by (simp add: of_flow_def)

lemma of_flow_parts: "of_flow f ps = ps \<Longrightarrow> of_flow f (take n ps) = take n ps \<and> of_flow f (drop n ps) = drop n ps"
  by (auto simp: of_flow_def filter_id_conv dest: in_set_takeD in_set_dropD)

text \<open>Replacing the queue of one flow.\<close>

lemma wrr_put:
  fixes items :: "'a \<Rightarrow> Packet list" and q :: "'a WrrQueue" and queue :: 'a and f :: FlowId
  defines "q' \<equiv> q\<lparr>wq_flow_queues := (wq_flow_queues q)(f \<mapsto> queue)\<rparr>"
  assumes inv: "wrr_inv items bound capacity q" and queue: "bound queue = capacity" "of_flow f (items queue) = items queue"
  shows "wrr_inv items bound capacity q'" "wrr_contents items q' = (wrr_contents items q)(f := items queue)"
    "length (wrr_contents items q f) + wrr_occupancy items q' = length (items queue) + wrr_occupancy items q"
proof -
  have fin: "finite (dom (wq_flow_queues q))" using inv by (simp add: wrr_inv_def)
  show "wrr_inv items bound capacity q'" using inv queue by (simp add: wrr_inv_def q'_def)
  show same: "wrr_contents items q' = (wrr_contents items q)(f := items queue)"
    by (rule ext) (simp add: wrr_contents_def q'_def)
  have "wrr_occupancy items q = (\<Sum>g \<in> insert f (dom (wq_flow_queues q)). length (wrr_contents items q g))"
    unfolding wrr_occupancy_def
    by (rule sum.mono_neutral_left) (auto simp: fin wrr_contents_def dom_def)
  also have "\<dots> = length (wrr_contents items q f) + (\<Sum>g \<in> dom (wq_flow_queues q) - {f}. length (wrr_contents items q g))"
    by (simp add: sum.insert_remove fin)
  finally have old: "wrr_occupancy items q = \<dots>" .
  have "wrr_occupancy items q' = (\<Sum>g \<in> insert f (dom (wq_flow_queues q)). length (wrr_contents items q' g))"
    by (simp add: wrr_occupancy_def q'_def)
  also have "\<dots> = length (items queue) + (\<Sum>g \<in> dom (wq_flow_queues q) - {f}. length (wrr_contents items q g))"
    by (simp add: sum.insert_remove fin same)
  finally show "length (wrr_contents items q f) + wrr_occupancy items q' = length (items queue) + wrr_occupancy items q"
    using old by simp
qed

lemma wrr_part_of_occupancy:
  assumes "wrr_inv items bound capacity q"
  shows "length (wrr_contents items q f) \<le> wrr_occupancy items q"
proof (cases "f \<in> dom (wq_flow_queues q)")
  case True
  then show ?thesis using assms unfolding wrr_occupancy_def
    by (intro member_le_sum) (auto simp: wrr_inv_def)
qed (auto simp: wrr_contents_def dom_def)

context array_queue
begin

lemma pop_up_to_items:
  "\<exists>queue'. pop_up_to aq n queue = (take n (items queue), queue') \<and> items queue' = drop n (items queue) \<and>
     bound queue' = bound queue"
proof (induction n arbitrary: queue)
  case (Suc n)
  show ?case
  proof (rule pop_cases [of queue])
    fix queue' assume "aq_pop aq queue = (None, queue')" "items queue = []" "items queue' = []" "bound queue' = bound queue"
    then show ?thesis using Suc.IH [of queue'] by auto
  next
    fix p queue' assume "aq_pop aq queue = (Some p, queue')" "items queue = p # items queue'" "bound queue' = bound queue"
    then show ?thesis using Suc.IH [of queue'] by auto
  qed
qed simp

lemma wrr_scan_acc:
  "wrr_scan aq q order (m, flow_ids) =
     (let active = filter (\<lambda>f. wrr_contents items q f \<noteq> []) order
      in (fold (\<lambda>f m. Some (case m of Some current \<Rightarrow> min current (wrr_rounds items q f) | None \<Rightarrow> wrr_rounds items q f)) active m,
          flow_ids @ active))"
  by (induction order arbitrary: m flow_ids)
    (auto simp: Let_def wrr_contents_def wrr_rounds_def is_empty_items len_items split: option.splits)

lemma wrr_scan_exact:
  fixes q order
  defines "active \<equiv> filter (\<lambda>f. wrr_contents items q f \<noteq> []) order"
  shows "wrr_scan aq q order (None, []) =
    (if active = [] then None else Some (Min (wrr_rounds items q ` set active)), active)"
proof -
  have some: "fold (\<lambda>f m. Some (case m of Some current \<Rightarrow> min current (wrr_rounds items q f) | None \<Rightarrow> wrr_rounds items q f)) fs (Some n) =
      Some (Min (insert n (wrr_rounds items q ` set fs)))" for fs n
  proof (induction fs arbitrary: n)
    case (Cons a fs)
    then show ?case by (cases "fs = []") (simp_all add: min.assoc)
  qed simp
  show ?thesis unfolding wrr_scan_acc Let_def active_def [symmetric]
    by (cases active) (auto simp: some)
qed

lemma wrr_keeps_contract:
  "scheduler_queue (wrr_queue aq) (wrr_inv items bound capacity) capacity (wrr_contents items) (wrr_occupancy items)"
proof (unfold_locales, goal_cases)
  case (1 q p)
  let ?f = "pk_flow_id p"
  obtain queue where queue: "(case wq_flow_queues q ?f of Some queue \<Rightarrow> Some queue | None \<Rightarrow> aq_new aq (wq_capacity q)) = Some queue"
    "items queue = wrr_contents items q ?f" "bound queue = capacity" "of_flow ?f (items queue) = items queue"
    using 1 new_empty [of capacity] by (cases "wq_flow_queues q ?f") (auto simp: wrr_inv_def wrr_contents_def)
  show ?case
  proof (rule push_cases [of queue p])
    fix queue' assume push: "aq_push aq queue p = (Inr (), queue')" "items queue' = items queue @ [p]" "bound queue' = bound queue"
    have flow: "of_flow ?f (items queue') = items queue'" using queue(4) by (simp add: push(2))
    note put = wrr_put [OF 1, of queue' ?f, OF _ flow]
    show ?thesis using put queue push
      by (auto simp: wrr_queue_def wrr_enqueue_def Let_def)
  next
    fix queue' assume push: "aq_push aq queue p = (Inl p, queue')" "bound queue \<le> length (items queue)"
      "items queue' = items queue" "bound queue' = bound queue"
    have flow: "of_flow ?f (items queue') = items queue'" using queue(4) by (simp add: push(3))
    note put = wrr_put [OF 1, of queue' ?f, OF _ flow]
    have "capacity \<le> wrr_occupancy items q"
      using wrr_part_of_occupancy [OF 1, of ?f] push(2) queue(2,3) by simp
    then show ?thesis using put queue push
      by (auto simp: wrr_queue_def wrr_enqueue_def Let_def)
  qed
next
  case (2 q order)
  have dom: "set order = dom (wq_flow_queues q)" using 2(3) by (simp add: wrr_queue_def)
  have "wrr_occupancy items q = 0" if "\<forall>f \<in> set order. wrr_contents items q f = []"
    using that unfolding wrr_occupancy_def dom by simp
  then have "\<exists>f \<in> set order. wrr_contents items q f \<noteq> []" using 2(2) by fastforce
  then show ?case
    by (auto simp: wrr_queue_def wrr_collect_begin_def wrr_scan_exact filter_empty_conv)
next
  case (3 q visits ps q' c')
  show ?case
  proof (cases visits)
    case Nil
    then show ?thesis using 3 by (auto simp: wrr_queue_def)
  next
    case (Cons f visits')
    show ?thesis
    proof (cases "wq_flow_queues q f")
      case None
      then show ?thesis using 3 Cons by (auto simp: wrr_queue_def)
    next
      case (Some queue)
      obtain queue' where pop: "pop_up_to aq (wrr_weight q f) queue = (take (wrr_weight q f) (items queue), queue')"
        "items queue' = drop (wrr_weight q f) (items queue)" "bound queue' = bound queue"
        using pop_up_to_items by blast
      have queue: "bound queue = capacity" "of_flow f (items queue) = items queue" "wrr_contents items q f = items queue"
        using 3(1) Some by (auto simp: wrr_inv_def wrr_contents_def)
      have res: "ps = take (wrr_weight q f) (items queue)"
        "q' = q\<lparr>wq_flow_queues := (wq_flow_queues q)(f \<mapsto> queue')\<rparr>"
        using 3(2) Cons Some pop(1) by (auto simp: wrr_queue_def)
      have flow: "of_flow f (items queue') = items queue'" "of_flow f ps = ps"
        using of_flow_parts [OF queue(2)] by (simp_all add: res(1) pop(2))
      have split: "items queue = ps @ items queue'" by (simp add: res(1) pop(2))
      have bound: "bound queue' = capacity" using pop(3) queue(1) by simp
      note put = wrr_put [OF 3(1) bound flow(1), folded res(2)]
      have "wrr_contents items q g = of_flow g ps @ wrr_contents items q' g" for g
        using flow(2) of_flow_other [OF flow(2), of g] queue(3) by (simp add: put(2) split)
      moreover have "wrr_occupancy items q = length ps + wrr_occupancy items q'"
        using put(3) queue(3) split by simp
      ultimately show ?thesis using put(1) by blast
    qed
  qed
next
  case (4 q)
  then show ?case
    by (auto simp: wrr_queue_def wrr_occupancy_def wrr_inv_def is_empty_items wrr_contents_def ran_def split: option.splits)
next
  case (5 q f)
  show ?case
    by (auto simp: wrr_queue_def wrr_contents_def len_items split: option.splits)
next
  case (6 q f)
  then show ?case by (rule wrr_part_of_occupancy)
next
  case (7 q f w)
  then show ?case
    by (auto simp: wrr_queue_def wrr_inv_def wrr_contents_def wrr_occupancy_def)
qed

lemma fifo_collects_all:
  assumes "length (items q) < turns"
  shows "\<exists>q'. collect_packets (fifo_queue aq) turns q order = Some (items q, q') \<and> items q' = [] \<and> bound q' = bound q"
proof -
  have "\<exists>q'. collect_turns (fifo_queue aq) turns q () = Some (items q, q') \<and> items q' = [] \<and> bound q' = bound q"
    using assms
  proof (induction turns arbitrary: q)
    case (Suc turns)
    show ?case
    proof (rule pop_cases [of q])
      fix q' assume "aq_pop aq q = (None, q')" "items q = []" "items q' = []" "bound q' = bound q"
      then show ?thesis by (simp add: fifo_queue_def fifo_collect_turn_def)
    next
      fix p q' assume pop: "aq_pop aq q = (Some p, q')" "items q = p # items q'" "bound q' = bound q"
      then show ?thesis using Suc.IH [of q'] Suc.prems by (auto simp: fifo_queue_def fifo_collect_turn_def)
    qed
  qed simp
  then show ?thesis by (simp add: collect_packets_def fifo_queue_def)
qed

end

text \<open>So both queues can stand wherever the trait is used.\<close>

sublocale array_queue \<subseteq> fifo: scheduler_queue "fifo_queue aq" "\<lambda>q. bound q = capacity" capacity
    "\<lambda>q f. of_flow f (items q)" "\<lambda>q. length (items q)" for capacity
  by (rule fifo_keeps_contract)

sublocale array_queue \<subseteq> wrr: scheduler_queue "wrr_queue aq" "wrr_inv items bound capacity" capacity
    "wrr_contents items" "wrr_occupancy items" for capacity
  by (rule wrr_keeps_contract)

text \<open>What a list of visits takes from the flows.\<close>

fun take_visits :: "(FlowId \<Rightarrow> nat) \<Rightarrow> FlowId list \<Rightarrow> (FlowId \<Rightarrow> 'p list) \<Rightarrow> 'p list \<times> (FlowId \<Rightarrow> 'p list)" where
  "take_visits w [] C = ([], C)"
| "take_visits w (f # visits) C =
     (let (ps, C') = take_visits w visits (C(f := drop (w f) (C f))) in (take (w f) (C f) @ ps, C'))"

lemma take_visits_append:
  "take_visits w (as @ bs) C =
    (let (ps, C') = take_visits w as C; (ps', C'') = take_visits w bs C' in (ps @ ps', C''))"
  by (induction as arbitrary: C) (auto simp: split_def Let_def)

lemma take_visits_round:
  "distinct ids \<Longrightarrow> take_visits w ids C =
    (concat (map (\<lambda>f. take (w f) (C f)) ids), \<lambda>f. if f \<in> set ids then drop (w f) (C f) else C f)"
proof (induction ids arbitrary: C)
  case (Cons f ids)
  then show ?case by (auto simp: fun_eq_iff intro!: arg_cong [where f = concat])
qed simp

lemma take_visits_rounds:
  assumes "distinct ids"
  shows "take_visits w (concat (replicate n ids)) C =
    (concat (map (\<lambda>r. concat (map (\<lambda>f. take (w f) (drop (r * w f) (C f))) ids)) [0 ..< n]),
     \<lambda>f. if f \<in> set ids then drop (n * w f) (C f) else C f)"
proof (induction n)
  case (Suc n)
  have "concat (replicate (Suc n) ids) = concat (replicate n ids) @ ids"
    by (simp add: replicate_append_same [symmetric])
  then show ?case
    by (auto simp: take_visits_append Suc.IH take_visits_round [OF assms] add.commute fun_eq_iff
        intro!: arg_cong [where f = concat] map_cong)
qed auto

context array_queue
begin

lemma wrr_turns:
  assumes "wrr_inv items bound capacity q" "length visits < turns"
  shows "\<exists>q'. collect_turns (wrr_queue aq) turns q visits =
      Some (fst (take_visits (wrr_weight q) visits (wrr_contents items q)), q') \<and>
    wrr_inv items bound capacity q' \<and>
    wrr_contents items q' = snd (take_visits (wrr_weight q) visits (wrr_contents items q))"
  using assms
proof (induction visits arbitrary: turns q)
  case Nil
  then show ?case by (cases turns) (auto simp: wrr_queue_def)
next
  case (Cons f visits)
  then obtain m where m: "turns = Suc m" "length visits < m" by (cases turns) auto
  show ?case
  proof (cases "wq_flow_queues q f")
    case None
    then have "wrr_contents items q f = []" by (simp add: wrr_contents_def)
    then have "(wrr_contents items q)(f := []) = wrr_contents items q" by auto
    then show ?thesis using Cons.IH [OF Cons.prems(1) m(2)] None \<open>wrr_contents items q f = []\<close>
      by (auto simp: m(1) wrr_queue_def split_def)
  next
    case (Some queue)
    obtain queue' where pop: "pop_up_to aq (wrr_weight q f) queue = (take (wrr_weight q f) (items queue), queue')"
      "items queue' = drop (wrr_weight q f) (items queue)" "bound queue' = bound queue"
      using pop_up_to_items by blast
    have queue: "bound queue' = capacity" "of_flow f (items queue) = items queue" "wrr_contents items q f = items queue"
      using Cons.prems(1) Some pop(3) by (auto simp: wrr_inv_def wrr_contents_def)
    let ?q = "q\<lparr>wq_flow_queues := (wq_flow_queues q)(f \<mapsto> queue')\<rparr>"
    have flow: "of_flow f (items queue') = items queue'"
      using of_flow_parts [OF queue(2)] by (simp add: pop(2))
    note put = wrr_put [OF Cons.prems(1) queue(1) flow]
    have weight: "wrr_weight ?q = wrr_weight q" by (simp add: wrr_weight_def fun_eq_iff)
    have turn: "sq_collect_turn (wrr_queue aq) q (f # visits) = (take (wrr_weight q f) (items queue), ?q, Some visits)"
      using Some pop(1) by (simp add: wrr_queue_def)
    have "take_visits (wrr_weight q) (f # visits) (wrr_contents items q) =
        (let (ps, C') = take_visits (wrr_weight q) visits (wrr_contents items ?q)
         in (take (wrr_weight q f) (items queue) @ ps, C'))"
      by (simp add: put(2) pop(2) queue(3))
    then show ?thesis using Cons.IH [OF put(1) m(2)] turn
      by (auto simp: m(1) weight split_def Let_def)
  qed
qed

end

text \<open>C15. Weighted round robin serves what its comment promises: with the flows that have packets
  as \<open>active\<close>, a collection makes as many rounds as the flow with the fewest full rounds allows, at
  least one; in each round it takes from every active flow, in one order, as many packets as its
  weight, each flow's oldest first, and leaves the others in place.  So each active flow sends
  something, and a flow with at least a round of packets sends exactly its weight per round.\<close>

theorem wrr_batch_exact:
  assumes aq: "array_queue aq items bound" and q: "wrr_inv items bound capacity q"
    and order: "sq_orders (wrr_queue aq) q order"
    and active: "active = filter (\<lambda>f. wrr_contents items q f \<noteq> []) order" "active \<noteq> []"
    and rounds: "rounds = Min (wrr_rounds items q ` set active)" and turns: "rounds * length active < turns"
  shows "(\<exists>q'. collect_packets (wrr_queue aq) turns q order =
      Some (concat (map (\<lambda>r. concat (map (\<lambda>f.
        take (wrr_weight q f) (drop (r * wrr_weight q f) (wrr_contents items q f))) active)) [0 ..< rounds]), q') \<and>
      wrr_inv items bound capacity q' \<and>
      wrr_contents items q' = (\<lambda>f. drop (rounds * wrr_weight q f) (wrr_contents items q f))) \<and>
    0 < rounds \<and>
    (\<forall>f \<in> set active. wrr_weight q f \<le> length (wrr_contents items q f) \<longrightarrow>
       rounds * wrr_weight q f \<le> length (wrr_contents items q f))"
proof -
  let ?C = "wrr_contents items q" and ?visits = "concat (replicate rounds active)"
  have order: "distinct order" "set order = dom (wq_flow_queues q)" using order by (simp_all add: wrr_queue_def)
  have "sq_collect_begin (wrr_queue aq) q order = Some ?visits"
    using active(2) array_queue.wrr_scan_exact [OF aq, of q order] unfolding active(1) [symmetric]
    by (simp add: wrr_queue_def wrr_collect_begin_def rounds)
  moreover have "length ?visits < turns"
    using turns by (simp add: length_concat sum_list_replicate)
  moreover have "take_visits (wrr_weight q) ?visits ?C =
      (concat (map (\<lambda>r. concat (map (\<lambda>f. take (wrr_weight q f) (drop (r * wrr_weight q f) (?C f))) active)) [0 ..< rounds]),
       \<lambda>f. drop (rounds * wrr_weight q f) (?C f))"
  proof -
    have "?C f = []" if "f \<notin> set active" for f
      using that order(2) by (cases "f \<in> set order") (auto simp: active(1) wrr_contents_def domIff)
    then have "(\<lambda>f. if f \<in> set active then drop (rounds * wrr_weight q f) (?C f) else ?C f) =
        (\<lambda>f. drop (rounds * wrr_weight q f) (?C f))" by auto
    then show ?thesis using order(1) by (simp add: take_visits_rounds active(1))
  qed
  moreover have "0 < rounds"
    unfolding rounds using active(2) by (subst Min_gr_iff) (auto simp: wrr_rounds_def)
  moreover have "rounds * wrr_weight q f \<le> length (?C f)" if "f \<in> set active" "wrr_weight q f \<le> length (?C f)" for f
  proof -
    have "rounds \<le> wrr_rounds items q f" unfolding rounds using that(1) by simp
    also have "\<dots> = length (?C f) div wrr_weight q f"
      using that(2) div_le_mono [OF that(2), of "wrr_weight q f"] by (simp add: wrr_rounds_def wrr_weight_def)
    finally show ?thesis by (metis div_times_less_eq_dividend le_trans mult_le_mono1)
  qed
  ultimately show ?thesis
    using array_queue.wrr_turns [OF aq q, of ?visits turns] by (simp add: collect_packets_def)
qed

text \<open>Five packets of a flow of weight 2 and three of a flow of weight 1: two rounds.\<close>

definition test_packet :: "FlowId \<Rightarrow> nat \<Rightarrow> Packet" where
  "test_packet flow_id n = \<lparr>pk_flow_id = flow_id, pk_packet_size = n, pk_buffer = []\<rparr>"

definition wrr_example :: "(nat \<times> Packet list) WrrQueue" where
  "wrr_example = \<lparr>
     wq_flow_queues = [1 \<mapsto> (6, map (test_packet 1) [0 ..< 5]), 2 \<mapsto> (6, map (test_packet 2) [0 ..< 3])],
     wq_flow_weights = [1 \<mapsto> 2], wq_capacity = 6\<rparr>"

lemma wrr_batch_exact_witness:
  "\<exists>q'. collect_packets (wrr_queue list_queue) 5 wrr_example [1, 2] =
     Some ([test_packet 1 0, test_packet 1 1, test_packet 2 0, test_packet 1 2, test_packet 1 3, test_packet 2 1], q') \<and>
     wrr_contents snd q' 1 = [test_packet 1 4] \<and> wrr_contents snd q' 2 = [test_packet 2 2]"
proof -
  have ex: "wrr_contents snd wrr_example 1 = map (test_packet 1) [0 ..< 5]"
    "wrr_contents snd wrr_example 2 = map (test_packet 2) [0 ..< 3]"
    "wrr_weight wrr_example 1 = 2" "wrr_weight wrr_example 2 = 1"
    by (simp_all add: wrr_contents_def wrr_example_def wrr_weight_def)
  have inv: "wrr_inv snd fst 6 wrr_example"
    by (simp add: wrr_inv_def wrr_example_def of_flow_def test_packet_def upt_rec)
  have order: "sq_orders (wrr_queue list_queue) wrr_example [1, 2]"
    by (auto simp: wrr_queue_def wrr_example_def)
  have active: "[1, 2] = filter (\<lambda>f. wrr_contents snd wrr_example f \<noteq> []) [1, 2]"
    by (simp add: ex)
  have rounds: "2 = Min (wrr_rounds snd wrr_example ` set [1, 2])"
    by (simp add: wrr_rounds_def ex)
  show ?thesis
    using wrr_batch_exact [OF list_queue.array_queue_axioms inv order active _ rounds, of 5]
    by (auto simp: ex upt_rec eval_nat_numeral)
qed

section \<open>Drop strategies\<close>

datatype CapacityUnit = Bytes | Packets

record TailDrop =
  td_capacity :: nat
  td_capacity_unit :: CapacityUnit

definition tail_drop_should_drop :: "TailDrop \<Rightarrow> nat \<Rightarrow> nat \<Rightarrow> nat \<Rightarrow> bool" where
  "tail_drop_should_drop d packet_size byte_size queue_length =
     (case td_capacity_unit d of
        Bytes \<Rightarrow> 0 < td_capacity d \<and> td_capacity d < byte_size + packet_size
      | Packets \<Rightarrow> 0 < td_capacity d \<and> td_capacity d < queue_length + 1)"

text \<open>Random early detection.  Floating-point numbers are rationals here; the draws of the random
  generator, numbers from 0 up to but not 1, are an input, used from the front.\<close>

record Red =
  red_capacity :: nat
  red_capacity_unit :: CapacityUnit
  red_min_threshold :: rat
  red_max_threshold :: rat
  red_max_probability :: rat
  red_weight_factor :: nat
  red_avg_queue_length :: nat

definition red_new :: "nat \<Rightarrow> CapacityUnit \<Rightarrow> rat \<Rightarrow> rat \<Rightarrow> rat \<Rightarrow> Red" where
  "red_new capacity capacity_unit min_threshold max_threshold max_probability = \<lparr>
     red_capacity = capacity, red_capacity_unit = capacity_unit,
     red_min_threshold = min_threshold, red_max_threshold = max_threshold,
     red_max_probability = max_probability, red_weight_factor = 9, red_avg_queue_length = 0\<rparr>"

definition red_should_drop :: "Red \<Rightarrow> nat \<Rightarrow> nat \<Rightarrow> nat \<Rightarrow> rat list \<Rightarrow> bool \<times> Red \<times> rat list" where
  "red_should_drop d packet_size byte_size queue_length draws =
     (if red_capacity d = 0 then (False, d, draws)
      else let
        alpha = 1 div 2 ^ red_weight_factor d;
        d = d\<lparr>red_avg_queue_length := red_avg_queue_length d * (1 - alpha) + queue_length * alpha\<rparr>;
        level = (case red_capacity_unit d of Bytes \<Rightarrow> byte_size + packet_size | Packets \<Rightarrow> queue_length + 1);
        queue_overflow = (0 < red_capacity d \<and> red_capacity d < level);
        above = (\<lambda>threshold. nat \<lfloor>threshold * of_nat (red_capacity d)\<rfloor> < level);
        (threshold_overflow, draws) =
          (if above (red_max_threshold d) then (hd draws \<le> red_max_probability d, tl draws) else (False, draws));
        (threshold_normal, draws) =
          (if above (red_min_threshold d)
           then (hd draws \<le> max 0 (of_nat (red_avg_queue_length d) - red_min_threshold d * of_nat (red_capacity d))
                   / (red_max_threshold d - red_min_threshold d) * of_nat (red_capacity d) * red_max_probability d,
                 tl draws)
           else (False, draws))
      in (queue_overflow \<or> threshold_overflow \<or> threshold_normal, d, draws))"

text \<open>The weight \<open>alpha\<close> is an integer division, so it is 0: the average queue length never leaves
  0, and between the two thresholds a packet is dropped only on a draw of exactly 0.\<close>

theorem red_never_drops_early:
  assumes "red_avg_queue_length d = 0" "red_weight_factor d = 9" "0 \<le> red_min_threshold d"
    "queue_length + 1 \<le> nat \<lfloor>red_max_threshold d * of_nat (red_capacity d)\<rfloor>" "queue_length + 1 \<le> red_capacity d"
    "red_capacity_unit d = Packets" "0 < hd draws"
  shows "fst (red_should_drop d packet_size byte_size queue_length draws) = False \<and>
    red_avg_queue_length (fst (snd (red_should_drop d packet_size byte_size queue_length draws))) = 0"
proof -
  have "max 0 (- (red_min_threshold d * of_nat (red_capacity d))) = 0"
    using assms(3) by (simp add: max_absorb1)
  then show ?thesis using assms by (simp add: red_should_drop_def Let_def not_less)
qed

end
