(* ===== verification/Token_Bucket.thy ===== *)
theory Token_Bucket
  imports Packet_Envelope "HOL-Library.Multiset"
begin

text \<open>
  The token bucket of the scheduler (\<open>scheduler/token_bucket.rs\<close>).  The clock is a function: its
  \<open>i\<close>-th value is the \<open>i\<close>-th reading of \<open>Instant::now\<close>, and the bucket counts the readings it took.
  How many tokens an elapsed time is worth is a floating-point product; it is the parameter
  \<open>refill\<close>, of the elapsed time and the rate.
\<close>

record TokenBucketSpec =
  ts_rate :: nat
  ts_bucket_size :: nat

record TokenBucket =
  tb_spec :: TokenBucketSpec
  tb_tokens :: nat
  tb_last_update :: nat
  tb_readings :: nat

definition token_bucket_new :: "(nat \<Rightarrow> nat) \<Rightarrow> nat \<Rightarrow> TokenBucketSpec \<Rightarrow> TokenBucket" where
  "token_bucket_new clock i spec =
     \<lparr>tb_spec = spec, tb_tokens = ts_bucket_size spec, tb_last_update = clock i, tb_readings = Suc i\<rparr>"

text \<open>The sum is a \<open>usize\<close> and wraps.\<close>

definition update_tokens :: "(nat \<Rightarrow> nat \<Rightarrow> nat) \<Rightarrow> (nat \<Rightarrow> nat) \<Rightarrow> TokenBucket \<Rightarrow> TokenBucket" where
  "update_tokens refill clock b =
     (let now = clock (tb_readings b);
          tokens = (tb_tokens b + refill (now - tb_last_update b) (ts_rate (tb_spec b))) mod 2 ^ 64
      in b\<lparr>tb_tokens := (if ts_bucket_size (tb_spec b) < tokens then ts_bucket_size (tb_spec b) else tokens),
           tb_last_update := now, tb_readings := Suc (tb_readings b)\<rparr>)"

definition consume_tokens :: "nat \<Rightarrow> TokenBucket \<Rightarrow> TokenBucket" where
  "consume_tokens n b = b\<lparr>tb_tokens := tb_tokens b - n\<rparr>"

definition MAX_RETRIES :: nat where "MAX_RETRIES = 3"

section \<open>Pacing by bytes\<close>

text \<open>The loop of \<open>wait_for_bytes\<close>; the result says whether the tokens were taken.  Between two turns
  it sleeps, which only moves the clock.\<close>

function wait_loop :: "(nat \<Rightarrow> nat \<Rightarrow> nat) \<Rightarrow> (nat \<Rightarrow> nat) \<Rightarrow> nat \<Rightarrow> nat \<Rightarrow> TokenBucket \<Rightarrow> bool \<times> TokenBucket" where
  "wait_loop refill clock n retry_count b =
     (let b = update_tokens refill clock b
      in if n \<le> tb_tokens b then (True, consume_tokens n b)
         else if MAX_RETRIES \<le> retry_count + 1 then (False, b)
         else wait_loop refill clock n (retry_count + 1) b)"
  by pat_completeness auto

termination wait_loop
  by (relation "measure (\<lambda>(_, _, _, retry_count, _). MAX_RETRIES - retry_count)") auto

declare wait_loop.simps [simp del]

definition wait_for_bytes :: "(nat \<Rightarrow> nat \<Rightarrow> nat) \<Rightarrow> (nat \<Rightarrow> nat) \<Rightarrow> nat \<Rightarrow> TokenBucket \<Rightarrow> bool \<times> TokenBucket" where
  "wait_for_bytes refill clock n b =
     (if n = 0 then (True, b)
      else if ts_bucket_size (tb_spec b) < n then (False, b)
      else let b = update_tokens refill clock b
           in if n \<le> tb_tokens b then (True, consume_tokens n b)
              else wait_loop refill clock n 0 b)"

section \<open>Sending packets\<close>

fun separate_packets :: "Packet list \<Rightarrow> TokenBucket \<Rightarrow> Packet list \<times> Packet list \<times> TokenBucket" where
  "separate_packets [] b = ([], [], b)"
| "separate_packets (packet # packets) b =
     (if pk_packet_size packet \<le> tb_tokens b
      then let (permitted, delayed, b) = separate_packets packets (consume_tokens (pk_packet_size packet) b)
           in (packet # permitted, delayed, b)
      else let (permitted, delayed, b) = separate_packets packets b
           in (permitted, packet # delayed, b))"

text \<open>The retry loop for a delayed packet: whether it was sent.  With the rate 0 the wait is infinite,
  on which \<open>Duration::from_secs_f64\<close> panics.\<close>

function send_delayed ::
    "(nat \<Rightarrow> nat \<Rightarrow> nat) \<Rightarrow> (nat \<Rightarrow> nat) \<Rightarrow> nat \<Rightarrow> nat \<Rightarrow> TokenBucket \<Rightarrow> (bool \<times> TokenBucket) may_panic" where
  "send_delayed refill clock packet_size retry_count b =
     (let b = update_tokens refill clock b
      in if packet_size \<le> tb_tokens b then Some (True, consume_tokens packet_size b)
         else if ts_rate (tb_spec b) = 0 then None
         else if MAX_RETRIES \<le> retry_count + 1 then Some (False, b)
         else send_delayed refill clock packet_size (retry_count + 1) b)"
  by pat_completeness auto

termination send_delayed
  by (relation "measure (\<lambda>(_, _, _, retry_count, _). MAX_RETRIES - retry_count)") auto

declare send_delayed.simps [simp del]

text \<open>The packets sent and those given up.\<close>

fun send_delayed_packets ::
    "(nat \<Rightarrow> nat \<Rightarrow> nat) \<Rightarrow> (nat \<Rightarrow> nat) \<Rightarrow> Packet list \<Rightarrow> TokenBucket \<Rightarrow>
     (Packet list \<times> Packet list \<times> TokenBucket) may_panic" where
  "send_delayed_packets refill clock [] b = Some ([], [], b)"
| "send_delayed_packets refill clock (packet # packets) b =
     (if ts_bucket_size (tb_spec b) < pk_packet_size packet
      then map_option (\<lambda>(sent, lost, b). (sent, packet # lost, b)) (send_delayed_packets refill clock packets b)
      else case send_delayed refill clock (pk_packet_size packet) 0 b of
        None \<Rightarrow> None
      | Some (True, b) \<Rightarrow>
          map_option (\<lambda>(sent, lost, b). (packet # sent, lost, b)) (send_delayed_packets refill clock packets b)
      | Some (False, b) \<Rightarrow>
          map_option (\<lambda>(sent, lost, b). (sent, packet # lost, b)) (send_delayed_packets refill clock packets b))"

text \<open>\<open>send\<close>: the packets handed to the network interface, in order, and those given up.\<close>

definition token_bucket_send ::
    "(nat \<Rightarrow> nat \<Rightarrow> nat) \<Rightarrow> (nat \<Rightarrow> nat) \<Rightarrow> Packet list \<Rightarrow> TokenBucket \<Rightarrow>
     (Packet list \<times> Packet list \<times> TokenBucket) may_panic" where
  "token_bucket_send refill clock packets b =
     (let (packets_permitted, packets_delayed, b) = separate_packets packets (update_tokens refill clock b)
      in map_option (\<lambda>(sent, lost, b). (packets_permitted @ sent, lost, b))
           (send_delayed_packets refill clock packets_delayed b))"

section \<open>The budget\<close>

text \<open>What the clock was worth between two counts of readings.\<close>

definition earned :: "(nat \<Rightarrow> nat \<Rightarrow> nat) \<Rightarrow> (nat \<Rightarrow> nat) \<Rightarrow> nat \<Rightarrow> nat \<Rightarrow> nat \<Rightarrow> nat" where
  "earned refill clock rate i j = (\<Sum>k \<leftarrow> [i ..< j]. refill (clock k - clock (k - 1)) rate)"

text \<open>The bucket is never above its size and its last update is its last reading.\<close>

definition bucket_ok :: "(nat \<Rightarrow> nat) \<Rightarrow> TokenBucket \<Rightarrow> bool" where
  "bucket_ok clock b \<longleftrightarrow> tb_tokens b \<le> ts_bucket_size (tb_spec b) \<and> 0 < tb_readings b \<and>
     tb_last_update b = clock (tb_readings b - 1)"

text \<open>From \<open>b\<close> to \<open>b'\<close> at most \<open>n\<close> bytes were paid out of the tokens and what the clock was worth.\<close>

definition pays :: "(nat \<Rightarrow> nat \<Rightarrow> nat) \<Rightarrow> (nat \<Rightarrow> nat) \<Rightarrow> TokenBucket \<Rightarrow> nat \<Rightarrow> TokenBucket \<Rightarrow> bool" where
  "pays refill clock b n b' \<longleftrightarrow> bucket_ok clock b' \<and> tb_spec b' = tb_spec b \<and> tb_readings b \<le> tb_readings b' \<and>
     n + tb_tokens b' \<le> tb_tokens b + earned refill clock (ts_rate (tb_spec b)) (tb_readings b) (tb_readings b')"

lemma bucket_ok_new: "bucket_ok clock (token_bucket_new clock i spec)"
  by (simp add: bucket_ok_def token_bucket_new_def)

lemma pays_refl: "bucket_ok clock b \<Longrightarrow> pays refill clock b 0 b"
  by (simp add: pays_def earned_def)

lemma pays_trans:
  assumes "pays refill clock b n b'" "pays refill clock b' m b''"
  shows "pays refill clock b (n + m) b''"
proof -
  have "earned refill clock r (tb_readings b) (tb_readings b'') =
      earned refill clock r (tb_readings b) (tb_readings b') + earned refill clock r (tb_readings b') (tb_readings b'')" for r
    using assms upt_add_eq_append [of "tb_readings b" "tb_readings b'" "tb_readings b'' - tb_readings b'"]
    by (simp add: pays_def earned_def)
  then show ?thesis using assms by (simp add: pays_def)
qed

lemma update_pays:
  assumes "bucket_ok clock b"
  shows "pays refill clock b 0 (update_tokens refill clock b)"
proof -
  have "n mod 2 ^ 64 \<le> n" for n :: nat by (rule mod_less_eq_dividend)
  then show ?thesis
    using assms by (auto simp: pays_def bucket_ok_def update_tokens_def earned_def Let_def intro: order_trans)
qed

lemma consume_pays:
  "bucket_ok clock b \<Longrightarrow> n \<le> tb_tokens b \<Longrightarrow> pays refill clock b n (consume_tokens n b)"
  by (auto simp: pays_def bucket_ok_def consume_tokens_def earned_def)

lemma pays_ok: "pays refill clock b n b' \<Longrightarrow> bucket_ok clock b'"
  by (simp add: pays_def)

lemma wait_loop_pays:
  "bucket_ok clock b \<Longrightarrow> wait_loop refill clock n retry_count b = (taken, b') \<Longrightarrow>
     pays refill clock b (if taken then n else 0) b'"
proof (induction refill clock n retry_count b rule: wait_loop.induct)
  case (1 refill clock n retry_count b)
  let ?u = "update_tokens refill clock b"
  note u = update_pays [OF 1(2), of refill]
  show ?case
  proof (cases "n \<le> tb_tokens ?u")
    case True
    then have "taken" "b' = consume_tokens n ?u" using 1(3) by (simp_all add: wait_loop.simps [of refill])
    then show ?thesis using pays_trans [OF u consume_pays [OF pays_ok [OF u] True]] by simp
  next
    case less: False
    show ?thesis
    proof (cases "MAX_RETRIES \<le> retry_count + 1")
      case True
      then have "\<not> taken" "b' = ?u" using 1(3) less by (simp_all add: wait_loop.simps [of refill])
      then show ?thesis using u by simp
    next
      case False
      then have "wait_loop refill clock n (retry_count + 1) ?u = (taken, b')"
        using 1(3) less by (simp add: wait_loop.simps [of refill clock n retry_count b])
      from 1(1) [OF refl less False pays_ok [OF u] this] show ?thesis
        using pays_trans [OF u] by fastforce
    qed
  qed
qed

lemma send_delayed_pays:
  "bucket_ok clock b \<Longrightarrow> send_delayed refill clock n retry_count b = Some (sent, b') \<Longrightarrow>
     pays refill clock b (if sent then n else 0) b'"
proof (induction refill clock n retry_count b rule: send_delayed.induct)
  case (1 refill clock n retry_count b)
  let ?u = "update_tokens refill clock b"
  note u = update_pays [OF 1(2), of refill]
  consider (enough) "n \<le> tb_tokens ?u" | (give_up) "\<not> n \<le> tb_tokens ?u" "ts_rate (tb_spec ?u) \<noteq> 0" "MAX_RETRIES \<le> retry_count + 1"
    | (again) "\<not> n \<le> tb_tokens ?u" "ts_rate (tb_spec ?u) \<noteq> 0" "\<not> MAX_RETRIES \<le> retry_count + 1"
    using 1(3) by (auto simp: send_delayed.simps [of refill clock n retry_count b] Let_def split: if_splits)
  then show ?case
  proof cases
    case enough
    then have "sent" "b' = consume_tokens n ?u" using 1(3) by (simp_all add: send_delayed.simps [of refill])
    then show ?thesis using pays_trans [OF u consume_pays [OF pays_ok [OF u] enough]] by simp
  next
    case give_up
    then have "\<not> sent" "b' = ?u" using 1(3) by (simp_all add: send_delayed.simps [of refill])
    then show ?thesis using u by simp
  next
    case again
    then have "send_delayed refill clock n (retry_count + 1) ?u = Some (sent, b')"
      using 1(3) by (simp add: send_delayed.simps [of refill clock n retry_count b])
    from 1(1) [OF refl again pays_ok [OF u] this] show ?thesis
      using pays_trans [OF u] by fastforce
  qed
qed

lemma send_delayed_total: "0 < ts_rate (tb_spec b) \<Longrightarrow> send_delayed refill clock n retry_count b \<noteq> None"
proof (induction refill clock n retry_count b rule: send_delayed.induct)
  case (1 refill clock n retry_count b)
  have "ts_rate (tb_spec (update_tokens refill clock b)) \<noteq> 0"
    using 1(2) by (simp add: update_tokens_def Let_def)
  then show ?case using 1(1) [OF refl] by (subst send_delayed.simps) (auto simp: Let_def simp del: not_None_eq)
qed

definition sum_of_sizes :: "Packet list \<Rightarrow> nat" where
  "sum_of_sizes packets = (\<Sum>p \<leftarrow> packets. pk_packet_size p)"

lemma sum_of_sizes_simps [simp]:
  "sum_of_sizes [] = 0" "sum_of_sizes (p # ps) = pk_packet_size p + sum_of_sizes ps"
  "sum_of_sizes (ps @ qs) = sum_of_sizes ps + sum_of_sizes qs"
  by (simp_all add: sum_of_sizes_def)

lemma separate_packets_pays:
  "bucket_ok clock b \<Longrightarrow> separate_packets packets b = (permitted, delayed, b') \<Longrightarrow>
     pays refill clock b (sum_of_sizes permitted) b' \<and> mset packets = mset permitted + mset delayed"
proof (induction packets arbitrary: b permitted delayed)
  case Nil
  then show ?case by (simp add: pays_refl)
next
  case (Cons p packets)
  show ?case
  proof (cases "pk_packet_size p \<le> tb_tokens b")
    case True
    note paid = consume_pays [OF Cons.prems(1) True, of refill]
    obtain ps where ps: "permitted = p # ps"
        "separate_packets packets (consume_tokens (pk_packet_size p) b) = (ps, delayed, b')"
      using Cons.prems(2) True by (auto split: prod.splits)
    from Cons.IH [OF pays_ok [OF paid] ps(2)] show ?thesis using pays_trans [OF paid] by (auto simp: ps(1))
  next
    case False
    obtain ds where ds: "delayed = p # ds" "separate_packets packets b = (permitted, ds, b')"
      using Cons.prems(2) False by (auto split: prod.splits)
    from Cons.IH [OF Cons.prems(1) ds(2)] show ?thesis by (auto simp: ds(1))
  qed
qed

lemma separate_packets_spends:
  "separate_packets packets b = (permitted, delayed, b') \<Longrightarrow> sum_of_sizes permitted + tb_tokens b' \<le> tb_tokens b"
proof (induction packets arbitrary: b permitted delayed)
  case (Cons p packets)
  show ?case
  proof (cases "pk_packet_size p \<le> tb_tokens b")
    case True
    obtain ps where "permitted = p # ps"
        "separate_packets packets (consume_tokens (pk_packet_size p) b) = (ps, delayed, b')"
      using Cons.prems True by (auto split: prod.splits)
    then show ?thesis using Cons.IH True by (fastforce simp: consume_tokens_def)
  next
    case False
    then show ?thesis using Cons by (auto split: prod.splits)
  qed
qed simp

text \<open>The delayed packets keep their order, and only those that fit the bucket are sent.\<close>

lemma send_delayed_packets_pays:
  assumes "bucket_ok clock b" "0 < ts_rate (tb_spec b)"
  shows "\<exists>sent lost b'. send_delayed_packets refill clock packets b = Some (sent, lost, b') \<and>
    pays refill clock b (sum_of_sizes sent) b' \<and> mset packets = mset sent + mset lost \<and>
    (\<forall>p \<in> set sent. pk_packet_size p \<le> ts_bucket_size (tb_spec b))"
  using assms
proof (induction packets arbitrary: b)
  case Nil
  then show ?case by (simp add: pays_refl)
next
  case (Cons p packets)
  show ?case
  proof (cases "ts_bucket_size (tb_spec b) < pk_packet_size p")
    case True
    from Cons.IH [OF Cons.prems] show ?thesis using True by (auto 0 4)
  next
    case False
    obtain taken b1 where one: "send_delayed refill clock (pk_packet_size p) 0 b = Some (taken, b1)"
      using send_delayed_total [OF Cons.prems(2), of refill clock "pk_packet_size p" 0] by auto
    note paid = send_delayed_pays [OF Cons.prems(1) one]
    then have "bucket_ok clock b1" "tb_spec b1 = tb_spec b" by (auto simp: pays_def)
    then obtain sent lost b' where rest: "send_delayed_packets refill clock packets b1 = Some (sent, lost, b')"
        "pays refill clock b1 (sum_of_sizes sent) b'" "mset packets = mset sent + mset lost"
        "\<forall>p \<in> set sent. pk_packet_size p \<le> ts_bucket_size (tb_spec b)"
      using Cons.IH [of b1] Cons.prems(2) by auto
    note both = pays_trans [OF paid rest(2)]
    show ?thesis
    proof (cases taken)
      case True
      then show ?thesis using rest both one False
        by (intro exI [of _ "p # sent"] exI [of _ lost] exI [of _ b']) auto
    next
      case taken: False
      then show ?thesis using rest both one False
        by (intro exI [of _ sent] exI [of _ "p # lost"] exI [of _ b']) auto
    qed
  qed
qed

text \<open>Whatever the rate, what \<open>send\<close> returns accounts for every packet; it panics only at the rate 0.\<close>

lemma send_delayed_packets_keeps:
  assumes "send_delayed_packets refill clock packets b = Some (sent, lost, b')" "bucket_ok clock b"
  shows "bucket_ok clock b' \<and> mset packets = mset sent + mset lost"
  using assms
proof (induction packets arbitrary: b sent lost)
  case (Cons p packets)
  show ?case
  proof (cases "ts_bucket_size (tb_spec b) < pk_packet_size p")
    case True
    then show ?thesis using Cons by auto
  next
    case False
    then obtain taken b1 where one: "send_delayed refill clock (pk_packet_size p) 0 b = Some (taken, b1)"
      using Cons.prems(1) by (auto split: option.splits)
    note b1 = pays_ok [OF send_delayed_pays [OF Cons.prems(2) one]]
    obtain sent' lost' where "send_delayed_packets refill clock packets b1 = Some (sent', lost', b')"
        "mset (p # sent') + mset lost' = mset sent + mset lost"
      using Cons.prems(1) False one by (cases taken) auto
    then show ?thesis using Cons.IH b1 by fastforce
  qed
qed simp

lemma token_bucket_send_keeps:
  assumes "bucket_ok clock b" "token_bucket_send refill clock packets b = Some (sent, lost, b')"
  shows "bucket_ok clock b' \<and> mset packets = mset sent + mset lost"
proof -
  obtain permitted delayed b1 where sep: "separate_packets packets (update_tokens refill clock b) = (permitted, delayed, b1)"
    by (cases rule: prod_cases3)
  note sep' = separate_packets_pays [OF pays_ok [OF update_pays [OF assms(1)]] sep]
  have b1: "bucket_ok clock b1" using sep' pays_ok by blast
  obtain sent' where "send_delayed_packets refill clock delayed b1 = Some (sent', lost, b')" "sent = permitted @ sent'"
    using assms(2) sep by (auto simp: token_bucket_send_def)
  then show ?thesis using send_delayed_packets_keeps [OF _ b1] sep' by auto
qed

lemma token_bucket_send_total:
  assumes "bucket_ok clock b" "ts_rate (tb_spec b) \<noteq> 0"
  shows "token_bucket_send refill clock packets b \<noteq> None"
proof -
  let ?u = "update_tokens refill clock b"
  obtain permitted delayed b1 where sep: "separate_packets packets ?u = (permitted, delayed, b1)"
    by (cases rule: prod_cases3)
  note paid = conjunct1 [OF separate_packets_pays [OF pays_ok [OF update_pays [OF assms(1)]] sep]]
  have "bucket_ok clock b1" "0 < ts_rate (tb_spec b1)"
    using paid [of refill] assms(2) by (simp_all add: pays_def update_tokens_def Let_def)
  from send_delayed_packets_pays [OF this, of refill delayed] show ?thesis
    using sep by (auto simp: token_bucket_send_def)
qed

text \<open>C17. The token bucket keeps its budget: a call of \<open>send\<close> on a bucket with a positive rate ends
  without panic, every packet is sent once or given up once, no packet longer than the bucket is
  sent, and the bytes sent together with the tokens left are at most the tokens there were and what
  the time that passed was worth; the tokens never exceed the size of the bucket.\<close>

theorem token_bucket_budget:
  assumes "bucket_ok clock b" "0 < ts_rate (tb_spec b)"
  shows "\<exists>sent lost b'. token_bucket_send refill clock packets b = Some (sent, lost, b') \<and>
    bucket_ok clock b' \<and> tb_spec b' = tb_spec b \<and> mset packets = mset sent + mset lost \<and>
    (\<forall>p \<in> set sent. pk_packet_size p \<le> ts_bucket_size (tb_spec b)) \<and>
    sum_of_sizes sent + tb_tokens b' \<le>
      tb_tokens b + earned refill clock (ts_rate (tb_spec b)) (tb_readings b) (tb_readings b')"
proof -
  let ?u = "update_tokens refill clock b"
  note u = update_pays [OF assms(1), of refill]
  obtain permitted delayed b1 where sep: "separate_packets packets ?u = (permitted, delayed, b1)"
    by (cases rule: prod_cases3)
  note sep' = separate_packets_pays [OF pays_ok [OF u] sep, of refill]
  note one = pays_trans [OF u conjunct1 [OF sep']]
  have b1: "bucket_ok clock b1" "tb_spec b1 = tb_spec b" using one by (auto simp: pays_def)
  obtain sent lost b' where rest: "send_delayed_packets refill clock delayed b1 = Some (sent, lost, b')"
      "pays refill clock b1 (sum_of_sizes sent) b'" "mset delayed = mset sent + mset lost"
      "\<forall>p \<in> set sent. pk_packet_size p \<le> ts_bucket_size (tb_spec b)"
    using send_delayed_packets_pays [OF b1(1), of refill delayed] assms(2) b1(2) by auto
  have "pk_packet_size p \<le> sum_of_sizes permitted" if "p \<in> set permitted" for p
    using that by (simp add: sum_of_sizes_def member_le_sum_list)
  moreover have "sum_of_sizes permitted \<le> ts_bucket_size (tb_spec b)"
    using separate_packets_spends [OF sep] u by (auto simp: pays_def bucket_ok_def)
  ultimately have "\<forall>p \<in> set (permitted @ sent). pk_packet_size p \<le> ts_bucket_size (tb_spec b)"
    using rest(4) by fastforce
  then show ?thesis using pays_trans [OF one rest(2)] sep sep' rest
    by (intro exI [of _ "permitted @ sent"] exI [of _ lost] exI [of _ b'])
      (simp add: token_bucket_send_def pays_def)
qed

text \<open>A bucket of 200 tokens refilled by one token per tick, asked for 250 bytes in two packets and
  one too long for it.\<close>

definition example_bucket :: TokenBucket where
  "example_bucket = token_bucket_new (\<lambda>i. 40 * i) 0 \<lparr>ts_rate = 1, ts_bucket_size = 200\<rparr>"

definition sized_packet :: "nat \<Rightarrow> Packet" where
  "sized_packet n = \<lparr>pk_flow_id = 1, pk_packet_size = n, pk_buffer = replicate n 0\<rparr>"

lemma token_bucket_budget_witness:
  "\<exists>sent lost b'. token_bucket_send (\<lambda>elapsed rate. elapsed * rate) (\<lambda>i. 40 * i)
      [sized_packet 130, sized_packet 120, sized_packet 201] example_bucket = Some (sent, lost, b') \<and>
    mset [sized_packet 130, sized_packet 120, sized_packet 201] = mset sent + mset lost \<and>
    (\<forall>p \<in> set sent. pk_packet_size p \<le> 200)"
proof -
  have spec: "tb_spec example_bucket = \<lparr>ts_rate = 1, ts_bucket_size = 200\<rparr>"
    by (simp add: example_bucket_def token_bucket_new_def)
  show ?thesis
    using token_bucket_budget [of "\<lambda>i. 40 * i" example_bucket "\<lambda>elapsed rate. elapsed * rate"
        "[sized_packet 130, sized_packet 120, sized_packet 201]"] bucket_ok_new spec
    by (auto simp: example_bucket_def)
qed

section \<open>What the packets of a flow see\<close>

text \<open>A packet that does not fit the tokens waits while a shorter one behind it, of the same flow, is
  sent.\<close>

theorem delayed_packet_overtaken:
  "token_bucket_send (\<lambda>elapsed rate. elapsed * rate) (\<lambda>i. 40 * i)
     [sized_packet 130, sized_packet 120, sized_packet 70] example_bucket =
   Some ([sized_packet 130, sized_packet 70, sized_packet 120], [], example_bucket\<lparr>tb_tokens := 0, tb_last_update := 160, tb_readings := 5\<rparr>)"
  by (simp add: example_bucket_def token_bucket_new_def token_bucket_send_def update_tokens_def consume_tokens_def
      sized_packet_def send_delayed.simps MAX_RETRIES_def Let_def)

text \<open>A rate of 0 ends the writer task at the first packet that does not fit.\<close>

theorem zero_rate_panics:
  assumes "ts_rate (tb_spec b) = 0" "\<And>elapsed. refill elapsed 0 = 0" "tb_tokens b \<le> ts_bucket_size (tb_spec b)"
    "tb_tokens b < pk_packet_size p" "pk_packet_size p \<le> ts_bucket_size (tb_spec b)"
  shows "token_bucket_send refill clock [p] b = None"
proof -
  have "tb_tokens b mod 2 ^ 64 \<le> tb_tokens b" by (rule mod_less_eq_dividend)
  then have "tb_tokens b mod 2 ^ 64 \<le> ts_bucket_size (tb_spec b)" "tb_tokens b mod 2 ^ 64 < pk_packet_size p"
    using assms(3,4) by linarith+
  then show ?thesis
    using assms(1,2,5) by (simp add: token_bucket_send_def update_tokens_def send_delayed.simps Let_def)
qed

end
