(* ===== verification/Scheduler.thy ===== *)
theory Scheduler
  imports Scheduler_Queues Token_Bucket "HOL-Library.Sublist"
begin

text \<open>
  The two tasks of the packet scheduler (\<open>scheduler/reader.rs\<close>, \<open>writer.rs\<close>, \<open>sched.rs\<close>).  They share
  the queue, the semaphore that counts free slots when backpressure is on, and the notification that
  wakes the writer.  A phase for each point where the other task may run; one turn of a task is
  what it does up to the next such point.  The writer hands its batches to the network interface,
  through a token bucket once a rate limit is set; as in its theory, \<open>refill\<close> says what an elapsed
  time is worth and \<open>clock\<close> gives the readings of the time.
\<close>

section \<open>State\<close>

datatype ReaderPhase =
    ReaderIdle
  | Received Packet
  | Admitted Packet
  | Measured Packet nat
  | Enqueued bool
  | ReaderPanicked

datatype 'c WriterPhase =
    Checking
  | Waiting
  | NonEmpty
  | Collecting 'c "Packet list"
  | Collected "Packet list"
  | Sending "Packet list"
  | WriterPanicked

text \<open>The last six fields record what has happened: the packets received, those the queue accepted,
  those of the batches given to \<open>send_packets\<close>, the link probes, the packets given to the network
  interface, and those the token bucket gave up.\<close>

record ('q, 'c) Scheduler =
  sc_queue :: 'q
  sc_semaphore :: "nat option"
  sc_packets_dropped :: nat
  sc_notified :: bool
  sc_reader :: ReaderPhase
  sc_writer :: "'c WriterPhase"
  sc_token_bucket :: "TokenBucket option"
  sc_received :: "Packet list"
  sc_accepted :: "Packet list"
  sc_sent :: "Packet list"
  sc_probes :: "Packet list"
  sc_transmitted :: "Packet list"
  sc_given_up :: "Packet list"

definition scheduler_new :: "'q \<Rightarrow> bool \<Rightarrow> nat \<Rightarrow> ('q, 'c) Scheduler" where
  "scheduler_new queue channel_backpressure capacity = \<lparr>
     sc_queue = queue,
     sc_semaphore = (if channel_backpressure \<and> 0 < capacity then Some capacity else None),
     sc_packets_dropped = 0, sc_notified = False, sc_reader = ReaderIdle, sc_writer = Checking,
     sc_token_bucket = None, sc_received = [], sc_accepted = [], sc_sent = [], sc_probes = [],
     sc_transmitted = [], sc_given_up = []\<rparr>"

section \<open>The reader\<close>

text \<open>\<open>enqueue\<close> in turns: the permit, the queue length with the drop decision, the push, the
  notification.  No turn while the permit is missing.\<close>

definition reader_turn ::
    "('q, 'c) SchedulerQueue \<Rightarrow> (nat \<Rightarrow> nat \<Rightarrow> nat \<Rightarrow> bool) \<Rightarrow> ('q, 'c) Scheduler \<Rightarrow> ('q, 'c) Scheduler option" where
  "reader_turn ops should_drop s =
     (case sc_reader s of
        ReaderIdle \<Rightarrow> None
      | Received packet \<Rightarrow>
          (case sc_semaphore s of
             None \<Rightarrow> Some (s\<lparr>sc_reader := Admitted packet\<rparr>)
           | Some 0 \<Rightarrow> None
           | Some (Suc permits) \<Rightarrow> Some (s\<lparr>sc_semaphore := Some permits, sc_reader := Admitted packet\<rparr>))
      | Admitted packet \<Rightarrow>
          (let queue_len = sq_queue_len ops (sc_queue s) (pk_flow_id packet)
           in if sc_semaphore s = None \<and> should_drop (pk_packet_size packet) queue_len queue_len
              then Some (s\<lparr>sc_packets_dropped := sc_packets_dropped s + 1, sc_reader := ReaderIdle\<rparr>)
              else Some (s\<lparr>sc_reader := Measured packet queue_len\<rparr>))
      | Measured packet queue_len \<Rightarrow>
          (case (is_tcp_data packet, sq_enqueue ops (sc_queue s) packet) of
             (Some tcp_data, Some (Inr _, queue)) \<Rightarrow>
               Some (s\<lparr>sc_queue := queue, sc_accepted := sc_accepted s @ [packet],
                 sc_reader := Enqueued (\<not> tcp_data \<or> queue_len = 0 \<or> 2 < queue_len + 1)\<rparr>)
           | (Some tcp_data, Some (Inl packet, queue)) \<Rightarrow>
               Some (s\<lparr>sc_queue := queue, sc_packets_dropped := sc_packets_dropped s + 1,
                 sc_semaphore := map_option Suc (sc_semaphore s), sc_reader := ReaderIdle\<rparr>)
           | _ \<Rightarrow> Some (s\<lparr>sc_reader := ReaderPanicked\<rparr>))
      | Enqueued notify \<Rightarrow>
          Some (s\<lparr>sc_notified := (sc_notified s \<or> notify), sc_reader := ReaderIdle\<rparr>)
      | ReaderPanicked \<Rightarrow> None)"

section \<open>The writer\<close>

text \<open>\<open>send_packets\<close>.  The panic of the token bucket is a phase; what the bucket had let through of
  that batch is not recorded.\<close>

definition send_packets ::
    "(nat \<Rightarrow> nat \<Rightarrow> nat) \<Rightarrow> (nat \<Rightarrow> nat) \<Rightarrow> Packet list \<Rightarrow> ('q, 'c) Scheduler \<Rightarrow> ('q, 'c) Scheduler" where
  "send_packets refill clock batch s =
     (let s = s\<lparr>sc_sent := sc_sent s @ batch\<rparr>
      in case sc_token_bucket s of
           None \<Rightarrow> s\<lparr>sc_transmitted := sc_transmitted s @ batch, sc_writer := Checking\<rparr>
         | Some token_bucket \<Rightarrow>
             (case token_bucket_send refill clock batch token_bucket of
                None \<Rightarrow> s\<lparr>sc_writer := WriterPanicked\<rparr>
              | Some (sent, lost, token_bucket) \<Rightarrow>
                  s\<lparr>sc_token_bucket := Some token_bucket, sc_transmitted := sc_transmitted s @ sent,
                    sc_given_up := sc_given_up s @ lost, sc_writer := Checking\<rparr>))"

text \<open>\<open>order\<close> is the order in which the hash map of the queue is iterated, if it is.\<close>

definition writer_turn ::
    "(nat \<Rightarrow> nat \<Rightarrow> nat) \<Rightarrow> (nat \<Rightarrow> nat) \<Rightarrow> ('q, 'c) SchedulerQueue \<Rightarrow> FlowId list \<Rightarrow>
     ('q, 'c) Scheduler \<Rightarrow> ('q, 'c) Scheduler option" where
  "writer_turn refill clock ops order s =
     (case sc_writer s of
        Checking \<Rightarrow> Some (s\<lparr>sc_writer := (if sq_is_empty ops (sc_queue s) then Waiting else NonEmpty)\<rparr>)
      | Waiting \<Rightarrow> if sc_notified s then Some (s\<lparr>sc_notified := False, sc_writer := Checking\<rparr>) else None
      | NonEmpty \<Rightarrow>
          if \<not> sq_orders ops (sc_queue s) order then None
          else (case sq_collect_begin ops (sc_queue s) order of
                  None \<Rightarrow> Some (s\<lparr>sc_writer := WriterPanicked\<rparr>)
                | Some c \<Rightarrow> Some (s\<lparr>sc_writer := Collecting c []\<rparr>))
      | Collecting c batch \<Rightarrow>
          (case sq_collect_turn ops (sc_queue s) c of
             (packets, queue, None) \<Rightarrow>
               Some (s\<lparr>sc_queue := queue, sc_writer := Collected (batch @ packets)\<rparr>)
           | (packets, queue, Some c) \<Rightarrow>
               Some (s\<lparr>sc_queue := queue, sc_writer := Collecting c (batch @ packets)\<rparr>))
      | Collected batch \<Rightarrow>
          Some (s\<lparr>sc_semaphore := map_option (\<lambda>permits. permits + length batch) (sc_semaphore s),
            sc_writer := Sending batch\<rparr>)
      | Sending batch \<Rightarrow> Some (send_packets refill clock batch s)
      | WriterPanicked \<Rightarrow> None)"

text \<open>The control messages.  Each is taken at the top of the loop or while waiting; then the queue is
  checked again.  A new token bucket reads the clock once.\<close>

datatype SchedulerWriterMessage =
    RateLimit TokenBucketSpec
  | SetFlowWeight FlowId nat
  | LinkProbePackets "Packet list"

definition control_turn ::
    "(nat \<Rightarrow> nat) \<Rightarrow> ('q, 'c) SchedulerQueue \<Rightarrow> SchedulerWriterMessage \<Rightarrow>
     ('q, 'c) Scheduler \<Rightarrow> ('q, 'c) Scheduler option" where
  "control_turn clock ops message s =
     (if sc_writer s = Checking \<or> sc_writer s = Waiting
      then let s = s\<lparr>sc_writer := Checking\<rparr>
           in Some (case message of
                RateLimit spec \<Rightarrow>
                  let readings = (case sc_token_bucket s of None \<Rightarrow> 0 | Some b \<Rightarrow> tb_readings b)
                  in s\<lparr>sc_token_bucket := Some (token_bucket_new clock readings spec)\<rparr>
              | SetFlowWeight flow_id weight \<Rightarrow>
                  s\<lparr>sc_queue := sq_set_flow_weight ops (sc_queue s) flow_id weight\<rparr>
              | LinkProbePackets packets \<Rightarrow>
                  s\<lparr>sc_probes := sc_probes s @ packets, sc_transmitted := sc_transmitted s @ packets\<rparr>)
      else None)"

text \<open>A turn of the reader carries what its drop strategy answers at that moment.\<close>

datatype SchedulerEvent =
    Receive Packet
  | ReaderTurn "nat \<Rightarrow> nat \<Rightarrow> nat \<Rightarrow> bool"
  | WriterTurn "FlowId list"
  | Control SchedulerWriterMessage

definition scheduler_step ::
    "(nat \<Rightarrow> nat \<Rightarrow> nat) \<Rightarrow> (nat \<Rightarrow> nat) \<Rightarrow> ('q, 'c) SchedulerQueue \<Rightarrow> SchedulerEvent \<Rightarrow>
     ('q, 'c) Scheduler \<Rightarrow> ('q, 'c) Scheduler option" where
  "scheduler_step refill clock ops event s =
     (case event of
        Receive packet \<Rightarrow>
          if sc_reader s = ReaderIdle \<and> packet_wf packet
          then Some (s\<lparr>sc_reader := Received packet, sc_received := sc_received s @ [packet]\<rparr>) else None
      | ReaderTurn should_drop \<Rightarrow> reader_turn ops should_drop s
      | WriterTurn order \<Rightarrow> writer_turn refill clock ops order s
      | Control message \<Rightarrow> control_turn clock ops message s)"

fun scheduler_run ::
    "(nat \<Rightarrow> nat \<Rightarrow> nat) \<Rightarrow> (nat \<Rightarrow> nat) \<Rightarrow> ('q, 'c) SchedulerQueue \<Rightarrow> SchedulerEvent list \<Rightarrow>
     ('q, 'c) Scheduler \<Rightarrow> ('q, 'c) Scheduler option" where
  "scheduler_run refill clock ops [] s = Some s"
| "scheduler_run refill clock ops (event # events) s =
     (case scheduler_step refill clock ops event s of
        None \<Rightarrow> None
      | Some s \<Rightarrow> scheduler_run refill clock ops events s)"

section \<open>The invariant\<close>

definition in_hand :: "ReaderPhase \<Rightarrow> Packet list" where
  "in_hand phase = (case phase of Received p \<Rightarrow> [p] | Admitted p \<Rightarrow> [p] | Measured p n \<Rightarrow> [p] | _ \<Rightarrow> [])"

definition batch_of :: "'c WriterPhase \<Rightarrow> Packet list" where
  "batch_of phase = (case phase of Collecting c batch \<Rightarrow> batch | Collected batch \<Rightarrow> batch | Sending batch \<Rightarrow> batch | _ \<Rightarrow> [])"

text \<open>Permits taken and not yet given back for packets that are not in the queue.\<close>

definition permits_out :: "ReaderPhase \<Rightarrow> 'c WriterPhase \<Rightarrow> nat" where
  "permits_out r w = (case r of Admitted p \<Rightarrow> 1 | Measured p n \<Rightarrow> 1 | _ \<Rightarrow> 0) +
     (case w of Collecting c batch \<Rightarrow> length batch | Collected batch \<Rightarrow> length batch | _ \<Rightarrow> 0)"

lemma subseq_left: "subseq (xs @ ys) zs \<Longrightarrow> subseq xs zs"
  using subseq_order.trans [OF subseq_rev_drop_many [OF subseq_order.refl]] .

text \<open>Whether there is a semaphore never changes.\<close>

lemma scheduler_run_semaphore:
  "scheduler_run refill clock ops events s = Some s' \<Longrightarrow> sc_semaphore s' = None \<longleftrightarrow> sc_semaphore s = None"
proof (induction events arbitrary: s)
  case (Cons event events)
  then obtain s1 where s1: "scheduler_step refill clock ops event s = Some s1" "scheduler_run refill clock ops events s1 = Some s'"
    by (auto split: option.splits)
  have "sc_semaphore s1 = None \<longleftrightarrow> sc_semaphore s = None"
    using s1(1) by (auto simp: scheduler_step_def reader_turn_def writer_turn_def send_packets_def control_turn_def Let_def
        split: SchedulerEvent.splits SchedulerWriterMessage.splits ReaderPhase.splits WriterPhase.splits option.splits nat.splits
          prod.splits sum.splits if_splits)
  then show ?case using Cons.IH [OF s1(2)] by simp
qed simp

text \<open>What was given to \<open>send_packets\<close> and the probes were transmitted or, under a rate limit, given up.\<close>

definition handed_on :: "('q, 'c) Scheduler \<Rightarrow> bool" where
  "handed_on s \<longleftrightarrow>
     (sc_writer s \<noteq> WriterPanicked \<longrightarrow>
        mset (sc_transmitted s) + mset (sc_given_up s) = mset (sc_sent s) + mset (sc_probes s)) \<and>
     (sc_token_bucket s = None \<longrightarrow> sc_given_up s = [] \<and> subseq (sc_sent s) (sc_transmitted s))"

text \<open>
  The reader runs, and the writer unless it has a rate limit of 0; each flow's accepted packets are, in order, those handed on, those of the batch
  and those queued; what was received was accepted in order or dropped.  With backpressure the
  permits account for every slot and nothing is dropped.  A measured length covers what the flow has
  queued, and a writer that waits with no wake-up under way leaves at most two packets of a flow.
\<close>

definition scheduler_inv ::
    "(nat \<Rightarrow> nat) \<Rightarrow> ('q \<Rightarrow> bool) \<Rightarrow> nat \<Rightarrow> ('q \<Rightarrow> FlowId \<Rightarrow> Packet list) \<Rightarrow> ('q \<Rightarrow> nat) \<Rightarrow> ('q, 'c) Scheduler \<Rightarrow> bool" where
  "scheduler_inv clock good capacity contents occupancy s \<longleftrightarrow>
     good (sc_queue s) \<and> sc_reader s \<noteq> ReaderPanicked \<and>
     (sc_writer s = WriterPanicked \<longrightarrow> (\<exists>b. sc_token_bucket s = Some b \<and> ts_rate (tb_spec b) = 0)) \<and>
     (\<forall>b. sc_token_bucket s = Some b \<longrightarrow> bucket_ok clock b) \<and>
     handed_on s \<and>
     (sc_writer s = NonEmpty \<longrightarrow> 0 < occupancy (sc_queue s)) \<and>
     (\<forall>p \<in> set (in_hand (sc_reader s)). packet_wf p) \<and>
     (\<forall>f. of_flow f (sc_accepted s) =
        of_flow f (sc_sent s @ batch_of (sc_writer s)) @ contents (sc_queue s) f) \<and>
     subseq (sc_accepted s @ in_hand (sc_reader s)) (sc_received s) \<and>
     length (sc_received s) = sc_packets_dropped s + length (sc_accepted s) + length (in_hand (sc_reader s)) \<and>
     (\<forall>permits. sc_semaphore s = Some permits \<longrightarrow>
        permits + occupancy (sc_queue s) + permits_out (sc_reader s) (sc_writer s) = capacity \<and>
        sc_packets_dropped s = 0) \<and>
     (\<forall>p n. sc_reader s = Measured p n \<longrightarrow> length (contents (sc_queue s) (pk_flow_id p)) \<le> n) \<and>
     (sc_writer s = Waiting \<and> \<not> sc_notified s \<and> sc_reader s \<noteq> Enqueued True \<longrightarrow>
        (\<forall>f. length (contents (sc_queue s) f) \<le> 2))"

lemma scheduler_inv_conserves:
  "scheduler_inv clock good capacity contents occupancy s \<Longrightarrow>
     sc_reader s \<noteq> ReaderPanicked \<and>
     (sc_writer s = WriterPanicked \<longrightarrow> (\<exists>b. sc_token_bucket s = Some b \<and> ts_rate (tb_spec b) = 0)) \<and>
     handed_on s \<and>
     (\<forall>f. of_flow f (sc_accepted s) =
        of_flow f (sc_sent s @ batch_of (sc_writer s)) @ contents (sc_queue s) f) \<and>
     subseq (sc_accepted s) (sc_received s) \<and>
     length (sc_received s) = sc_packets_dropped s + length (sc_accepted s) + length (in_hand (sc_reader s))"
  unfolding scheduler_inv_def using subseq_left by blast

lemmas scheduler_phase_simps = in_hand_def batch_of_def permits_out_def

lemma handed_on_updates [simp]:
  "handed_on (s\<lparr>sc_queue := q\<rparr>) = handed_on s"
  "handed_on (s\<lparr>sc_semaphore := permits\<rparr>) = handed_on s"
  "handed_on (s\<lparr>sc_packets_dropped := n\<rparr>) = handed_on s"
  "handed_on (s\<lparr>sc_notified := b\<rparr>) = handed_on s"
  "handed_on (s\<lparr>sc_reader := r\<rparr>) = handed_on s"
  "handed_on (s\<lparr>sc_received := received\<rparr>) = handed_on s"
  "handed_on (s\<lparr>sc_accepted := accepted\<rparr>) = handed_on s"
  by (simp_all add: handed_on_def)

lemma handed_on_writer [simp]:
  "sc_writer s \<noteq> WriterPanicked \<Longrightarrow> w \<noteq> WriterPanicked \<Longrightarrow> handed_on (s\<lparr>sc_writer := w\<rparr>) = handed_on s"
  by (simp add: handed_on_def)

lemma is_tcp_data_total: "packet_wf p \<Longrightarrow> is_tcp_data p \<noteq> None"
  using tcp_payload_bounds_total [of p] unfolding is_tcp_data_def tcp_payload_len_def
  by (auto simp: no_panic packet_wf_def packet_bytes_def slice_all not_less simp del: not_None_eq)

context scheduler_queue
begin

lemma scheduler_inv_new:
  assumes "good q" "\<And>f. contents q f = []" "occupancy q = 0"
  shows "scheduler_inv clock good capacity contents occupancy (scheduler_new q backpressure capacity)"
  using assms by (auto simp: scheduler_inv_def scheduler_new_def scheduler_phase_simps handed_on_def)

lemma reader_turn_good:
  assumes s: "scheduler_inv clock good capacity contents occupancy s" and step: "reader_turn ops should_drop s = Some s'"
  shows "scheduler_inv clock good capacity contents occupancy s'"
proof (cases "sc_reader s")
  case ReaderIdle
  then show ?thesis using step by (simp add: reader_turn_def)
next
  case (Received p)
  show ?thesis
  proof (cases "sc_semaphore s")
    case None
    then have s': "s' = s\<lparr>sc_reader := Admitted p\<rparr>" using step Received by (simp add: reader_turn_def)
    show ?thesis using s Received None unfolding s' by (simp add: scheduler_inv_def scheduler_phase_simps)
  next
    case (Some permits)
    then obtain m where "permits = Suc m" using step Received by (cases permits) (simp_all add: reader_turn_def)
    then have s': "s' = s\<lparr>sc_semaphore := Some m, sc_reader := Admitted p\<rparr>"
      using step Received Some by (simp add: reader_turn_def)
    show ?thesis using s Received Some \<open>permits = Suc m\<close> unfolding s'
      by (simp add: scheduler_inv_def scheduler_phase_simps)
  qed
next
  case (Admitted p)
  let ?len = "sq_queue_len ops (sc_queue s) (pk_flow_id p)"
  have sub: "subseq (sc_accepted s) (sc_received s)"
    using s Admitted subseq_left by (auto simp: scheduler_inv_def)
  have "good (sc_queue s)" using s by (simp add: scheduler_inv_def)
  note len = len_contents [OF this, of "pk_flow_id p"]
  show ?thesis
  proof (cases "sc_semaphore s = None \<and> should_drop (pk_packet_size p) ?len ?len")
    case True
    then have s': "s' = s\<lparr>sc_packets_dropped := sc_packets_dropped s + 1, sc_reader := ReaderIdle\<rparr>"
      using step Admitted by (simp add: reader_turn_def Let_def)
    show ?thesis using s Admitted sub True unfolding s' by (simp add: scheduler_inv_def scheduler_phase_simps)
  next
    case False
    then have s': "s' = s\<lparr>sc_reader := Measured p ?len\<rparr>"
      using step Admitted by (simp add: reader_turn_def Let_def split: if_splits)
    show ?thesis using s Admitted len unfolding s' by (simp add: scheduler_inv_def scheduler_phase_simps)
  qed
next
  case (Measured p n)
  have here: "good (sc_queue s)" "packet_wf p" using s Measured by (auto simp: scheduler_inv_def in_hand_def)
  obtain tcp_data where data: "is_tcp_data p = Some tcp_data" using is_tcp_data_total [OF here(2)] by auto
  obtain r q where push: "sq_enqueue ops (sc_queue s) p = Some (r, q)" "good q"
    "r = Inr () \<and> occupancy q = Suc (occupancy (sc_queue s)) \<and>
       (\<forall>f. contents q f = contents (sc_queue s) f @ of_flow f [p]) \<or>
     r = Inl p \<and> capacity \<le> occupancy (sc_queue s) \<and> occupancy q = occupancy (sc_queue s) \<and> contents q = contents (sc_queue s)"
    using enqueue_result [OF here(1), of p] by blast
  show ?thesis using push(3)
  proof
    assume ok: "r = Inr () \<and> occupancy q = Suc (occupancy (sc_queue s)) \<and>
       (\<forall>f. contents q f = contents (sc_queue s) f @ of_flow f [p])"
    then have s': "s' = s\<lparr>sc_queue := q, sc_accepted := sc_accepted s @ [p],
        sc_reader := Enqueued (\<not> tcp_data \<or> n = 0 \<or> 2 < n + 1)\<rparr>"
      using step Measured data push(1) by (simp add: reader_turn_def)
    show ?thesis using s ok push(2) Measured unfolding s'
      by (auto simp: scheduler_inv_def scheduler_phase_simps)
  next
    assume full: "r = Inl p \<and> capacity \<le> occupancy (sc_queue s) \<and> occupancy q = occupancy (sc_queue s) \<and>
      contents q = contents (sc_queue s)"
    then have s': "s' = s\<lparr>sc_queue := q, sc_packets_dropped := sc_packets_dropped s + 1,
        sc_semaphore := map_option Suc (sc_semaphore s), sc_reader := ReaderIdle\<rparr>"
      using step Measured data push(1) by (simp add: reader_turn_def)
    have "subseq (sc_accepted s) (sc_received s)"
      using s Measured subseq_left by (auto simp: scheduler_inv_def)
    then show ?thesis using s full push(2) Measured unfolding s'
      by (auto simp: scheduler_inv_def scheduler_phase_simps)
  qed
next
  case (Enqueued b)
  then show ?thesis using s step by (auto simp: reader_turn_def scheduler_inv_def scheduler_phase_simps)
next
  case ReaderPanicked
  then show ?thesis using step by (simp add: reader_turn_def)
qed

lemma send_packets_good:
  assumes s: "scheduler_inv clock good capacity contents occupancy s" and sending: "sc_writer s = Sending batch"
  shows "scheduler_inv clock good capacity contents occupancy (send_packets refill clock batch s)"
proof (cases "sc_token_bucket s")
  case None
  then show ?thesis using s sending
    by (auto simp: scheduler_inv_def scheduler_phase_simps handed_on_def send_packets_def intro!: list_emb_append_mono)
next
  case (Some b)
  then have b: "bucket_ok clock b" using s by (simp add: scheduler_inv_def)
  show ?thesis
  proof (cases "token_bucket_send refill clock batch b")
    case None
    then have "ts_rate (tb_spec b) = 0" using token_bucket_send_total [OF b] by blast
    then show ?thesis using s sending Some None
      by (auto simp: scheduler_inv_def scheduler_phase_simps handed_on_def send_packets_def)
  next
    case sent: (Some r)
    obtain xs ys b' where r: "r = (xs, ys, b')" by (cases r)
    have "bucket_ok clock b'" "mset batch = mset xs + mset ys"
      using token_bucket_send_keeps [OF b sent [unfolded r]] by simp_all
    then show ?thesis using s sending Some sent
      by (auto simp: scheduler_inv_def scheduler_phase_simps handed_on_def send_packets_def r)
  qed
qed

lemma writer_turn_good:
  assumes s: "scheduler_inv clock good capacity contents occupancy s" and step: "writer_turn refill clock ops order s = Some s'"
  shows "scheduler_inv clock good capacity contents occupancy s'"
proof -
  have here: "good (sc_queue s)" using s by (simp add: scheduler_inv_def)
  show ?thesis
  proof (cases "sc_writer s")
    case Checking
    have "length (contents (sc_queue s) f) \<le> 2" if "occupancy (sc_queue s) = 0" for f
      using that contents_occupancy [OF here, of f] by simp
    then show ?thesis using s step Checking
      by (cases "occupancy (sc_queue s) = 0")
        (auto simp: writer_turn_def scheduler_inv_def scheduler_phase_simps is_empty_iff [OF here])
  next
    case Waiting
    then show ?thesis using s step
      by (auto simp: writer_turn_def scheduler_inv_def scheduler_phase_simps split: if_splits)
  next
    case NonEmpty
    have "0 < occupancy (sc_queue s)" using s NonEmpty by (simp add: scheduler_inv_def)
    then show ?thesis using s step NonEmpty collect_begins [OF here, of order]
      by (auto simp: writer_turn_def scheduler_inv_def scheduler_phase_simps split: if_splits option.splits)
  next
    case (Collecting c batch)
    obtain ps q c' where turn: "sq_collect_turn ops (sc_queue s) c = (ps, q, c')" by (cases rule: prod_cases3)
    note moved = collect_moves [OF here turn]
    have s': "s' = s\<lparr>sc_queue := q, sc_writer :=
        (case c' of None \<Rightarrow> Collected (batch @ ps) | Some c' \<Rightarrow> Collecting c' (batch @ ps))\<rparr>"
      using step Collecting turn by (cases c') (auto simp: writer_turn_def)
    have "length (contents q f) \<le> length (contents (sc_queue s) f)" for f using moved by simp
    then have "length (contents q (pk_flow_id p)) \<le> n" if "sc_reader s = Measured p n" for p n
      using s that order.trans unfolding scheduler_inv_def by blast
    then show ?thesis using s moved Collecting unfolding s'
      by (cases c') (auto simp: scheduler_inv_def scheduler_phase_simps)
  next
    case (Collected batch)
    then show ?thesis using s step
      by (auto simp: writer_turn_def scheduler_inv_def scheduler_phase_simps)
  next
    case (Sending batch)
    then have s': "s' = send_packets refill clock batch s" using step by (simp add: writer_turn_def)
    show ?thesis unfolding s' by (rule send_packets_good [OF s Sending])
  next
    case WriterPanicked
    then show ?thesis using step by (simp add: writer_turn_def)
  qed
qed

lemma scheduler_step_good:
  assumes s: "scheduler_inv clock good capacity contents occupancy s" and step: "scheduler_step refill clock ops event s = Some s'"
  shows "scheduler_inv clock good capacity contents occupancy s'"
proof (cases event)
  case (Receive p)
  then have idle: "sc_reader s = ReaderIdle" "packet_wf p"
      and s': "s' = s\<lparr>sc_reader := Received p, sc_received := sc_received s @ [p]\<rparr>"
    using step by (simp_all add: scheduler_step_def split: if_splits)
  show ?thesis using s idle unfolding s' by (simp add: scheduler_inv_def scheduler_phase_simps)
next
  case (ReaderTurn should_drop)
  then show ?thesis using s step reader_turn_good by (simp add: scheduler_step_def)
next
  case (WriterTurn order)
  then show ?thesis using s step writer_turn_good by (simp add: scheduler_step_def)
next
  case (Control message)
  have here: "sc_writer s = Checking \<or> sc_writer s = Waiting"
    using step Control by (simp add: scheduler_step_def control_turn_def split: if_splits)
  then have top: "scheduler_inv clock good capacity contents occupancy (s\<lparr>sc_writer := Checking\<rparr>)"
    using s by (elim disjE) (simp_all add: scheduler_inv_def scheduler_phase_simps)
  show ?thesis
  proof (cases message)
    case (RateLimit spec)
    then obtain i where s': "s' = s\<lparr>sc_writer := Checking, sc_token_bucket := Some (token_bucket_new clock i spec)\<rparr>"
      using step Control here by (auto simp: scheduler_step_def control_turn_def Let_def)
    show ?thesis using top bucket_ok_new unfolding s' by (simp add: scheduler_inv_def scheduler_phase_simps handed_on_def)
  next
    case (SetFlowWeight f w)
    have "good (sc_queue s)" using s by (simp add: scheduler_inv_def)
    note keeps = weight_keeps [OF this, of f w]
    have s': "s' = s\<lparr>sc_writer := Checking, sc_queue := sq_set_flow_weight ops (sc_queue s) f w\<rparr>"
      using step Control SetFlowWeight here by (auto simp: scheduler_step_def control_turn_def Let_def)
    show ?thesis using top keeps unfolding s' by (simp add: scheduler_inv_def scheduler_phase_simps)
  next
    case (LinkProbePackets packets)
    then have s': "s' = s\<lparr>sc_writer := Checking, sc_probes := sc_probes s @ packets,
        sc_transmitted := sc_transmitted s @ packets\<rparr>"
      using step Control here by (auto simp: scheduler_step_def control_turn_def Let_def)
    have "subseq (sc_sent s) (sc_transmitted s @ packets)" if "subseq (sc_sent s) (sc_transmitted s)"
      using subseq_order.trans [OF that subseq_rev_drop_many [OF subseq_order.refl]] .
    then show ?thesis using top unfolding s' by (auto simp: scheduler_inv_def scheduler_phase_simps handed_on_def)
  qed
qed

lemma scheduler_run_good:
  assumes "scheduler_inv clock good capacity contents occupancy s" "scheduler_run refill clock ops events s = Some s'"
  shows "scheduler_inv clock good capacity contents occupancy s'"
  using assms
proof (induction events arbitrary: s)
  case (Cons event events)
  then obtain s1 where s1: "scheduler_step refill clock ops event s = Some s1" "scheduler_run refill clock ops events s1 = Some s'"
    by (auto split: option.splits)
  from scheduler_step_good [OF Cons.prems(1) s1(1)] show ?case by (rule Cons.IH [OF _ s1(2)])
qed simp

lemma scheduler_run_new:
  assumes "good q" "\<And>f. contents q f = []" "occupancy q = 0"
    "scheduler_run refill clock ops events (scheduler_new q backpressure capacity) = Some s"
  shows "scheduler_inv clock good capacity contents occupancy s"
  using scheduler_run_good [OF scheduler_inv_new [OF assms(1-3)] assms(4)] .

text \<open>With backpressure everything received is accepted, in order.\<close>

lemma nothing_dropped:
  assumes "scheduler_inv clock good capacity contents occupancy s" "sc_semaphore s \<noteq> None"
  shows "sc_packets_dropped s = 0 \<and> sc_received s = sc_accepted s @ in_hand (sc_reader s) \<and> occupancy (sc_queue s) \<le> capacity"
proof -
  obtain permits where "sc_semaphore s = Some permits" using assms(2) by auto
  then have "sc_packets_dropped s = 0" "occupancy (sc_queue s) \<le> capacity"
    using assms(1) by (auto simp: scheduler_inv_def)
  moreover have "subseq (sc_accepted s @ in_hand (sc_reader s)) (sc_received s)"
    "length (sc_received s) = length (sc_accepted s @ in_hand (sc_reader s))"
    using assms(1) calculation(1) by (auto simp: scheduler_inv_def)
  ultimately show ?thesis using subseq_same_length by metis
qed

end

section \<open>The scheduler over its two queues\<close>

text \<open>The states the scheduler can reach with the queue of either discipline.\<close>

definition fifo_reaches :: "(nat \<Rightarrow> nat \<Rightarrow> nat) \<Rightarrow> (nat \<Rightarrow> nat) \<Rightarrow> 'a ArrayQueue \<Rightarrow> bool \<Rightarrow> nat \<Rightarrow> SchedulerEvent list \<Rightarrow> ('a, unit) Scheduler \<Rightarrow> bool" where
  "fifo_reaches refill clock aq backpressure capacity events s \<longleftrightarrow>
     (\<exists>q. aq_new aq capacity = Some q \<and>
       scheduler_run refill clock (fifo_queue aq) events (scheduler_new q backpressure capacity) = Some s)"

definition wrr_reaches ::
    "(nat \<Rightarrow> nat \<Rightarrow> nat) \<Rightarrow> (nat \<Rightarrow> nat) \<Rightarrow> 'a ArrayQueue \<Rightarrow> bool \<Rightarrow> nat \<Rightarrow> SchedulerEvent list \<Rightarrow> ('a WrrQueue, FlowId list) Scheduler \<Rightarrow> bool" where
  "wrr_reaches refill clock aq backpressure capacity events s \<longleftrightarrow>
     0 < capacity \<and>
     scheduler_run refill clock (wrr_queue aq) events (scheduler_new (wrr_new capacity) backpressure capacity) = Some s"

context array_queue
begin

lemma fifo_reaches_good:
  assumes "fifo_reaches refill clock aq backpressure capacity events s"
  shows "scheduler_inv clock (\<lambda>q. bound q = capacity) capacity (\<lambda>q f. of_flow f (items q)) (\<lambda>q. length (items q)) s"
proof -
  obtain q where q: "aq_new aq capacity = Some q"
    "scheduler_run refill clock (fifo_queue aq) events (scheduler_new q backpressure capacity) = Some s"
    using assms by (auto simp: fifo_reaches_def)
  have "0 < capacity" using q(1) new_zero by (cases capacity) auto
  then have "items q = []" "bound q = capacity" using q(1) new_empty [of capacity] by auto
  then show ?thesis
    by (intro scheduler_queue.scheduler_run_new [OF fifo_keeps_contract _ _ _ q(2)]) simp_all
qed

lemma wrr_reaches_good:
  assumes "wrr_reaches refill clock aq backpressure capacity events s"
  shows "scheduler_inv clock (wrr_inv items bound capacity) capacity (wrr_contents items) (wrr_occupancy items) s"
proof -
  have "0 < capacity"
    "scheduler_run refill clock (wrr_queue aq) events (scheduler_new (wrr_new capacity) backpressure capacity) = Some s"
    using assms by (simp_all add: wrr_reaches_def)
  then show ?thesis
    by (intro scheduler_queue.scheduler_run_new [OF wrr_keeps_contract wrr_inv_new])
      (simp_all add: wrr_contents_def wrr_occupancy_def wrr_new_def)
qed

end

text \<open>C14. The scheduler keeps its packets: whatever the interleaving of its reader, its writer and
  control messages, under either queueing discipline and any drop strategy, the reader keeps running,
  and the writer ends only under a rate limit of 0.  Each flow's accepted packets are, in the order they
  were accepted, those given to \<open>send_packets\<close>, then those of the current batch, then those queued,
  and every packet received was accepted, dropped and counted, or is in hand.  While the writer runs,
  what was given to \<open>send_packets\<close> and the link probes have each been transmitted once or given up once
  by the token bucket; as long as no rate limit was set, nothing was given up and the order kept.  The
  capacity is positive: \<open>ArrayQueue\<close> cannot be created with 0, so that a FIFO scheduler cannot start
  and the reader of a WRR scheduler panics (\<open>wrr_zero_capacity_panics\<close>).\<close>

theorem scheduler_conserves:
  assumes "array_queue aq items bound"
  shows "(fifo_reaches refill clock aq backpressure capacity events s \<longrightarrow>
      sc_reader s \<noteq> ReaderPanicked \<and>
      (sc_writer s = WriterPanicked \<longrightarrow> (\<exists>b. sc_token_bucket s = Some b \<and> ts_rate (tb_spec b) = 0)) \<and>
      handed_on s \<and>
      (\<forall>f. of_flow f (sc_accepted s) =
        of_flow f (sc_sent s @ batch_of (sc_writer s) @ items (sc_queue s))) \<and>
      subseq (sc_accepted s) (sc_received s) \<and>
      length (sc_received s) = sc_packets_dropped s + length (sc_accepted s) + length (in_hand (sc_reader s))) \<and>
    (wrr_reaches refill clock aq backpressure capacity events w \<longrightarrow>
      sc_reader w \<noteq> ReaderPanicked \<and>
      (sc_writer w = WriterPanicked \<longrightarrow> (\<exists>b. sc_token_bucket w = Some b \<and> ts_rate (tb_spec b) = 0)) \<and>
      handed_on w \<and>
      (\<forall>f. of_flow f (sc_accepted w) =
        of_flow f (sc_sent w @ batch_of (sc_writer w)) @ wrr_contents items (sc_queue w) f) \<and>
      subseq (sc_accepted w) (sc_received w) \<and>
      length (sc_received w) = sc_packets_dropped w + length (sc_accepted w) + length (in_hand (sc_reader w)))"
  using scheduler_inv_conserves [OF array_queue.fifo_reaches_good [OF assms]]
    scheduler_inv_conserves [OF array_queue.wrr_reaches_good [OF assms]] by simp

text \<open>With the capacity 0 the reader of a WRR scheduler panics at the first packet its drop strategy
  lets through.\<close>

lemma wrr_zero_capacity_panics:
  assumes "array_queue aq items bound" "packet_wf p" "\<not> should_drop (pk_packet_size p) 0 0"
  shows "\<exists>s. scheduler_run refill clock (wrr_queue aq) (Receive p # replicate 3 (ReaderTurn should_drop))
      (scheduler_new (wrr_new 0) backpressure 0) = Some s \<and> sc_reader s = ReaderPanicked"
proof -
  have "aq_new aq 0 = None" by (rule array_queue.new_zero [OF assms(1)])
  then show ?thesis using assms(2,3) is_tcp_data_total [OF assms(2)]
    by (auto simp: eval_nat_numeral scheduler_new_def scheduler_step_def reader_turn_def wrr_queue_def
        wrr_enqueue_def wrr_new_def)
qed

text \<open>C13. Backpressure loses nothing: when \<open>channel_backpressure\<close> is on, no packet is ever dropped,
  everything received is accepted in order, and the queue never holds more than the capacity; free
  permits, queued packets and the packets under way between them always make up the capacity.\<close>

theorem backpressure_lossless:
  assumes "array_queue aq items bound"
  shows "(fifo_reaches refill clock aq True capacity events s \<longrightarrow>
      sc_packets_dropped s = 0 \<and> sc_received s = sc_accepted s @ in_hand (sc_reader s) \<and>
      (\<exists>permits. sc_semaphore s = Some permits \<and>
        permits + length (items (sc_queue s)) + permits_out (sc_reader s) (sc_writer s) = capacity)) \<and>
    (wrr_reaches refill clock aq True capacity events w \<longrightarrow>
      sc_packets_dropped w = 0 \<and> sc_received w = sc_accepted w @ in_hand (sc_reader w) \<and>
      (\<exists>permits. sc_semaphore w = Some permits \<and>
        permits + wrr_occupancy items (sc_queue w) + permits_out (sc_reader w) (sc_writer w) = capacity))"
proof (intro conjI impI)
  note contract = array_queue.fifo_keeps_contract [OF assms]
  assume reach: "fifo_reaches refill clock aq True capacity events s"
  note good = array_queue.fifo_reaches_good [OF assms reach]
  have "0 < capacity"
    using reach array_queue.new_zero [OF assms] by (cases capacity) (auto simp: fifo_reaches_def)
  then have some: "sc_semaphore s \<noteq> None"
    using reach scheduler_run_semaphore by (fastforce simp: fifo_reaches_def scheduler_new_def)
  then show "sc_packets_dropped s = 0" "sc_received s = sc_accepted s @ in_hand (sc_reader s)"
    using scheduler_queue.nothing_dropped [OF contract good] by auto
  show "\<exists>permits. sc_semaphore s = Some permits \<and>
      permits + length (items (sc_queue s)) + permits_out (sc_reader s) (sc_writer s) = capacity"
    using some good by (auto simp: scheduler_inv_def)
next
  note contract = array_queue.wrr_keeps_contract [OF assms]
  assume reach: "wrr_reaches refill clock aq True capacity events w"
  note good = array_queue.wrr_reaches_good [OF assms reach]
  have some: "sc_semaphore w \<noteq> None"
    using reach scheduler_run_semaphore by (fastforce simp: wrr_reaches_def scheduler_new_def)
  then show "sc_packets_dropped w = 0" "sc_received w = sc_accepted w @ in_hand (sc_reader w)"
    using scheduler_queue.nothing_dropped [OF contract good] by auto
  show "\<exists>permits. sc_semaphore w = Some permits \<and>
      permits + wrr_occupancy items (sc_queue w) + permits_out (sc_reader w) (sc_writer w) = capacity"
    using some good by (auto simp: scheduler_inv_def)
qed

text \<open>A sleeping writer leaves little behind: when the writer waits and no wake-up is stored or
  about to be sent, at most two packets of each flow are queued.\<close>

theorem sleeping_writer_bound:
  assumes "array_queue aq items bound"
  shows "(fifo_reaches refill clock aq backpressure capacity events s \<and> sc_writer s = Waiting \<and> \<not> sc_notified s \<and>
      sc_reader s \<noteq> Enqueued True \<longrightarrow> length (of_flow f (items (sc_queue s))) \<le> 2) \<and>
    (wrr_reaches refill clock aq backpressure capacity events w \<and> sc_writer w = Waiting \<and> \<not> sc_notified w \<and>
      sc_reader w \<noteq> Enqueued True \<longrightarrow> length (wrr_contents items (sc_queue w) f) \<le> 2)"
  using array_queue.fifo_reaches_good [OF assms] array_queue.wrr_reaches_good [OF assms]
  unfolding scheduler_inv_def by blast

text \<open>A TCP packet with one byte of data.\<close>

definition data_packet :: Packet where
  "data_packet = \<lparr>pk_flow_id = 1, pk_packet_size = 41,
     pk_buffer = [0x45, 0, 0, 41, 0, 0, 0, 0, 64, 6] @ replicate 22 0 @ [0x50] @ replicate 8 0\<rparr>"

lemma data_packet_wf: "packet_wf data_packet"
  by (simp add: packet_wf_def data_packet_def)

lemma data_packet_tcp: "is_tcp_data data_packet = Some True"
proof -
  have nibbles: "drop_bit 4 (0x45 :: u8) = 4" "(0x45 :: u8) AND 0x0F = 5" "drop_bit 4 (0x50 :: u8) AND 0x0F = 5"
    "unat (from_be [0, 41] :: u16) = 41"
    by (code_simp, code_simp, code_simp, code_simp)
  have fields: "pk_packet_size data_packet = 41" "length (pk_buffer data_packet) = 41"
    "pk_buffer data_packet ! 0 = 0x45" "pk_buffer data_packet ! 9 = 6" "pk_buffer data_packet ! 32 = 0x50"
    "slice 2 2 (pk_buffer data_packet) = [0, 41]"
    by (simp_all add: data_packet_def slice_def nth_append)
  show ?thesis
    by (simp add: is_tcp_data_def tcp_payload_len_def tcp_payload_bounds_def data_packet_wf fields nibbles
        min_def Let_def del: word_unat_eq_iff)
qed

text \<open>The queue length is read before the push and the wake-up decided on it, while the writer
  empties the queue in between.\<close>

definition lost_wakeup_events :: "nat \<Rightarrow> Packet \<Rightarrow> SchedulerEvent list" where
  "lost_wakeup_events capacity p =
     (let reader = ReaderTurn (tail_drop_should_drop \<lparr>td_capacity = capacity, td_capacity_unit = Packets\<rparr>)
      in [WriterTurn [], Receive p, reader, reader, reader, reader] @ [Receive p, reader, reader] @
         replicate 8 (WriterTurn []) @ [reader, reader])"

lemma lost_wakeup_run:
  assumes "array_queue aq items bound" "2 \<le> capacity" "packet_wf p" "is_tcp_data p = Some True"
  shows "\<exists>q. fifo_reaches refill clock aq False capacity (lost_wakeup_events capacity p)
      \<lparr>sc_queue = q, sc_semaphore = None, sc_packets_dropped = 0, sc_notified = False,
       sc_reader = ReaderIdle, sc_writer = Waiting, sc_token_bucket = None, sc_received = [p, p], sc_accepted = [p, p], sc_sent = [p],
       sc_probes = [], sc_transmitted = [p], sc_given_up = []\<rparr> \<and>
    items q = [p]"
proof -
  obtain q0 where q0: "aq_new aq capacity = Some q0" "items q0 = []" "bound q0 = capacity"
    using array_queue.new_empty [OF assms(1), of capacity] assms(2) by auto
  obtain q1 where q1: "aq_push aq q0 p = (Inr (), q1)" "items q1 = [p]" "bound q1 = capacity"
    using array_queue.push_room [OF assms(1), of q0 p] q0 assms(2) by auto
  obtain q2 where q2: "aq_pop aq q1 = (Some p, q2)" "items q2 = []" "bound q2 = capacity"
    using array_queue.pop_some [OF assms(1) q1(2)] q1(3) by auto
  obtain q3 where q3: "aq_pop aq q2 = (None, q3)" "items q3 = []" "bound q3 = capacity"
    using array_queue.pop_none [OF assms(1) q2(2)] q2(3) by auto
  obtain q4 where q4: "aq_push aq q3 p = (Inr (), q4)" "items q4 = [p]" "bound q4 = capacity"
    using array_queue.push_room [OF assms(1), of q3 p] q3 assms(2) by auto
  note empty = array_queue.is_empty_items [OF assms(1)] and len = array_queue.len_items [OF assms(1)]
  have "scheduler_run refill clock (fifo_queue aq) (lost_wakeup_events capacity p) (scheduler_new q0 False capacity) =
      Some \<lparr>sc_queue = q4, sc_semaphore = None, sc_packets_dropped = 0, sc_notified = False,
        sc_reader = ReaderIdle, sc_writer = Waiting, sc_token_bucket = None, sc_received = [p, p], sc_accepted = [p, p], sc_sent = [p],
       sc_probes = [], sc_transmitted = [p], sc_given_up = []\<rparr>"
    using q0 q1 q2 q3 q4 assms(2-4)
    by (simp add: lost_wakeup_events_def Let_def eval_nat_numeral scheduler_new_def scheduler_step_def
        reader_turn_def writer_turn_def send_packets_def fifo_queue_def fifo_enqueue_def fifo_collect_turn_def
        tail_drop_should_drop_def empty len)
  then show ?thesis using q0(1) q4(2) by (auto simp: fifo_reaches_def)
qed

text \<open>C16. A wake-up can be lost: there is an interleaving after which a TCP data packet is
  queued, the reader is idle, and the writer waits with no wake-up stored, so neither task can
  take a turn until something else arrives, although the reader enqueued the packet without any
  drop or error.\<close>

theorem lost_wakeup:
  assumes "array_queue aq items bound" "2 \<le> capacity" "packet_wf p" "is_tcp_data p = Some True"
  shows "\<exists>s. fifo_reaches refill clock aq False capacity (lost_wakeup_events capacity p) s \<and> items (sc_queue s) = [p] \<and>
    sc_reader s = ReaderIdle \<and> sc_writer s = Waiting \<and> sc_packets_dropped s = 0 \<and>
    (\<forall>order. writer_turn refill clock (fifo_queue aq) order s = None) \<and>
    (\<forall>should_drop. reader_turn (fifo_queue aq) should_drop s = None)"
  using lost_wakeup_run [OF assms, of refill clock] by (force simp: reader_turn_def writer_turn_def)

definition demo_refill :: "nat \<Rightarrow> nat \<Rightarrow> nat" where "demo_refill elapsed rate = elapsed * rate"
definition demo_clock :: "nat \<Rightarrow> nat" where "demo_clock i = 40 * i"

lemma lost_wakeup_witness:
  "\<exists>s. fifo_reaches demo_refill demo_clock list_queue False 2 (lost_wakeup_events 2 data_packet) s \<and> snd (sc_queue s) = [data_packet] \<and>
    sc_reader s = ReaderIdle \<and> sc_writer s = Waiting"
  using lost_wakeup [OF list_queue.array_queue_axioms _ data_packet_wf data_packet_tcp, of 2 demo_refill demo_clock]
  by auto

lemma sleeping_writer_bound_witness:
  "\<exists>s. fifo_reaches demo_refill demo_clock list_queue False 2 (lost_wakeup_events 2 data_packet) s \<and> snd (sc_queue s) = [data_packet] \<and>
    sc_writer s = Waiting \<and> length (of_flow 1 (snd (sc_queue s))) \<le> 2"
proof -
  obtain q where q: "fifo_reaches demo_refill demo_clock list_queue False 2 (lost_wakeup_events 2 data_packet)
      \<lparr>sc_queue = q, sc_semaphore = None, sc_packets_dropped = 0, sc_notified = False,
       sc_reader = ReaderIdle, sc_writer = Waiting, sc_token_bucket = None, sc_received = [data_packet, data_packet],
       sc_accepted = [data_packet, data_packet], sc_sent = [data_packet],
       sc_probes = [], sc_transmitted = [data_packet], sc_given_up = []\<rparr>" "snd q = [data_packet]"
    using lost_wakeup_run [OF list_queue.array_queue_axioms _ data_packet_wf data_packet_tcp, of 2 demo_refill demo_clock]
    by auto
  show ?thesis
    using sleeping_writer_bound [OF list_queue.array_queue_axioms] q by fastforce
qed

text \<open>A packet received with backpressure, enqueued and taken out into a batch.\<close>

definition one_packet_events :: "SchedulerEvent list" where
  "one_packet_events = Receive data_packet # replicate 4 (ReaderTurn (\<lambda>_ _ _. True)) @ replicate 3 (WriterTurn [1])"

lemma one_packet_runs:
  "fifo_reaches refill clock list_queue True 2 one_packet_events
     \<lparr>sc_queue = (2, []), sc_semaphore = Some 1, sc_packets_dropped = 0, sc_notified = True, sc_reader = ReaderIdle,
      sc_writer = Collecting () [data_packet], sc_token_bucket = None, sc_received = [data_packet], sc_accepted = [data_packet], sc_sent = [],
       sc_probes = [], sc_transmitted = [], sc_given_up = []\<rparr>"
  "wrr_reaches refill clock list_queue True 2 one_packet_events
     \<lparr>sc_queue = (wrr_new 2)\<lparr>wq_flow_queues := [1 \<mapsto> (2, [])]\<rparr>, sc_semaphore = Some 1, sc_packets_dropped = 0,
      sc_notified = True, sc_reader = ReaderIdle, sc_writer = Collecting [] [data_packet],
      sc_token_bucket = None, sc_received = [data_packet], sc_accepted = [data_packet], sc_sent = [],
       sc_probes = [], sc_transmitted = [], sc_given_up = []\<rparr>"
proof -
  have flow: "pk_flow_id data_packet = 1" by (simp add: data_packet_def)
  show "fifo_reaches refill clock list_queue True 2 one_packet_events
     \<lparr>sc_queue = (2, []), sc_semaphore = Some 1, sc_packets_dropped = 0, sc_notified = True, sc_reader = ReaderIdle,
      sc_writer = Collecting () [data_packet], sc_token_bucket = None, sc_received = [data_packet], sc_accepted = [data_packet], sc_sent = [],
       sc_probes = [], sc_transmitted = [], sc_given_up = []\<rparr>"
    by (simp add: fifo_reaches_def one_packet_events_def eval_nat_numeral scheduler_new_def scheduler_step_def
        reader_turn_def writer_turn_def send_packets_def fifo_queue_def fifo_enqueue_def fifo_collect_turn_def list_queue_def
        data_packet_wf data_packet_tcp)
  show "wrr_reaches refill clock list_queue True 2 one_packet_events
     \<lparr>sc_queue = (wrr_new 2)\<lparr>wq_flow_queues := [1 \<mapsto> (2, [])]\<rparr>, sc_semaphore = Some 1, sc_packets_dropped = 0,
      sc_notified = True, sc_reader = ReaderIdle, sc_writer = Collecting [] [data_packet],
      sc_token_bucket = None, sc_received = [data_packet], sc_accepted = [data_packet], sc_sent = [],
       sc_probes = [], sc_transmitted = [], sc_given_up = []\<rparr>"
    by (simp add: wrr_reaches_def one_packet_events_def eval_nat_numeral scheduler_new_def scheduler_step_def
        reader_turn_def writer_turn_def wrr_queue_def wrr_enqueue_def wrr_collect_begin_def wrr_weight_def wrr_new_def
        list_queue_def data_packet_wf data_packet_tcp flow)
qed

lemma scheduler_conserves_witness:
  "\<exists>s w. fifo_reaches demo_refill demo_clock list_queue True 2 one_packet_events s \<and> sc_accepted s = [data_packet] \<and>
     wrr_reaches demo_refill demo_clock list_queue True 2 one_packet_events w \<and> sc_accepted w = [data_packet] \<and>
     of_flow 1 (sc_accepted s) = of_flow 1 (sc_sent s @ batch_of (sc_writer s) @ snd (sc_queue s)) \<and>
     of_flow 1 (sc_accepted w) = of_flow 1 (sc_sent w @ batch_of (sc_writer w)) @ wrr_contents snd (sc_queue w) 1"
  using scheduler_conserves [OF list_queue.array_queue_axioms] one_packet_runs by fastforce

lemma backpressure_lossless_witness:
  "\<exists>s w. fifo_reaches demo_refill demo_clock list_queue True 2 one_packet_events s \<and> sc_packets_dropped s = 0 \<and>
     wrr_reaches demo_refill demo_clock list_queue True 2 one_packet_events w \<and> sc_packets_dropped w = 0 \<and>
     sc_received s = sc_accepted s @ in_hand (sc_reader s) \<and> sc_received w = sc_accepted w @ in_hand (sc_reader w)"
  using backpressure_lossless [OF list_queue.array_queue_axioms] one_packet_runs by fastforce

end
