(* ===== verification/Routing.thy ===== *)
theory Routing
  imports Packet_Envelope
begin

text \<open>
  The routing table of a dataplane node (\<open>src/dataplane/src/node/route.rs\<close>) and the address
  arithmetic it uses (\<open>LocalConfig::ip_to_node_id\<close> of \<open>config.rs\<close>, \<open>NodeIdExt\<close> of \<open>mod.rs\<close>).
  Node ids, group ids and route ids are \<open>usize\<close> values below \<open>2 ^ 64\<close>, given as natural numbers.

  The jump hash is a parameter: \<open>slot key n\<close>, below \<open>n\<close> for a positive \<open>n\<close>.  Where the code iterates
  over a hash map, the order of its keys is an argument.  Errors are the values of a datatype, one
  constructor per message.
\<close>

section \<open>Node ids and addresses\<close>

definition INVALID :: nat where "INVALID = 2 ^ 64 - 1"

record RouteConfig =
  rc_local_netmask :: u32
  rc_virtual_base_addr :: u32
  rc_user_space_base_addr :: u32
  rc_external_base_addr :: u32
  rc_user_space_server_port :: u16

definition ip_to_node_id :: "RouteConfig \<Rightarrow> u32 \<Rightarrow> nat" where
  "ip_to_node_id config ip_addr =
     (let netmask = rc_local_netmask config;
          tun_base = rc_virtual_base_addr config;
          user_space_base = rc_user_space_base_addr config;
          external_base = rc_external_base_addr config;
          subnet = ip_addr AND netmask
      in if subnet = tun_base AND netmask \<and> tun_base \<le> ip_addr then unat (ip_addr - tun_base)
         else if subnet = user_space_base AND netmask \<and> user_space_base \<le> ip_addr
              then unat (ip_addr - user_space_base)
         else if subnet = external_base AND netmask \<and> external_base \<le> ip_addr
              then unat (ip_addr - external_base)
         else INVALID)"

definition node_ip_addr :: "nat \<Rightarrow> u32 \<Rightarrow> u32 \<Rightarrow> u32 may_panic" where
  "node_ip_addr node_id base_ip net_mask =
     (let new_ip = base_ip + word_of_nat node_id
      in if base_ip AND net_mask \<noteq> new_ip AND net_mask then None else Some new_ip)"

definition try_extract_node_ids_from_flow :: "RouteConfig \<Rightarrow> FlowId \<Rightarrow> (nat \<times> nat) option" where
  "try_extract_node_ids_from_flow config flow_id =
     (let src_node_id = ip_to_node_id config (flow_src_ip flow_id);
          dst_node_id = ip_to_node_id config (flow_dst_ip flow_id)
      in if src_node_id = INVALID \<or> dst_node_id = INVALID then None
         else Some (src_node_id, dst_node_id))"

section \<open>The table\<close>

datatype RouteKey = Unicast nat nat | Multicast nat nat u16

record RoutingTableEntry =
  re_route_id :: nat
  re_next_hops :: "nat list"
  re_src_node_id :: nat
  re_dst_node_id :: nat

record GroupDirectoryEntry =
  gd_group_id :: nat
  gd_group_ip :: u32

record GroupRoutingTableEntry =
  ge_route_id :: nat
  ge_next_hops :: "nat list"
  ge_src_node_id :: nat
  ge_group_id :: nat

record RoutingTable =
  rt_local_id :: nat
  rt_config :: RouteConfig
  rt_available_routes :: "RouteKey \<rightharpoonup> nat list"
  rt_route_next_hop :: "nat \<rightharpoonup> nat list"
  rt_group_dir :: "u32 \<rightharpoonup> nat"
  rt_cache :: "FlowId \<rightharpoonup> nat"
  rt_multicast_tree_cache :: "(nat \<times> nat \<times> u16) \<rightharpoonup> nat"
  rt_multicast_control_tree_cache :: "(nat \<times> nat) \<rightharpoonup> u16"

definition routing_table_new :: "nat \<Rightarrow> RouteConfig \<Rightarrow> RoutingTable" where
  "routing_table_new node_id config = \<lparr>
     rt_local_id = node_id, rt_config = config, rt_available_routes = Map.empty, rt_route_next_hop = Map.empty,
     rt_group_dir = Map.empty, rt_cache = Map.empty, rt_multicast_tree_cache = Map.empty,
     rt_multicast_control_tree_cache = Map.empty\<rparr>"

definition MULTICAST_ROUTE_FLAG :: nat where "MULTICAST_ROUTE_FLAG = 2 ^ 30"
definition MULTITREE_STRIDE :: nat where "MULTITREE_STRIDE = 2 ^ 16"

definition encode_multicast_route_id :: "nat \<Rightarrow> nat" where
  "encode_multicast_route_id route_id = MULTICAST_ROUTE_FLAG OR route_id"

definition checked_mul :: "nat \<Rightarrow> nat \<Rightarrow> nat option" where
  "checked_mul a b = (if a * b < 2 ^ 64 then Some (a * b) else None)"

definition checked_add :: "nat \<Rightarrow> nat \<Rightarrow> nat option" where
  "checked_add a b = (if a + b < 2 ^ 64 then Some (a + b) else None)"

definition deterministic_multicast_route_id :: "nat \<Rightarrow> u16 \<Rightarrow> nat option" where
  "deterministic_multicast_route_id group_id tree_id =
     (let tree = unat tree_id
      in if MULTITREE_STRIDE \<le> tree then None
         else do {
           base \<leftarrow> checked_mul group_id MULTITREE_STRIDE;
           route_id \<leftarrow> checked_add base tree;
           if route_id < MULTICAST_ROUTE_FLAG then Some route_id else None
         })"

definition tree_id_from_route_id :: "nat \<Rightarrow> nat \<Rightarrow> u16 option" where
  "tree_id_from_route_id group_id route_id = do {
     base \<leftarrow> checked_mul group_id MULTITREE_STRIDE;
     if route_id < base then None
     else let tree = route_id - base
          in if MULTITREE_STRIDE \<le> tree then None
             else if tree < 2 ^ 16 then Some (word_of_nat tree) else None
   }"

section \<open>Installing routes\<close>

definition is_unicast :: "RouteKey \<Rightarrow> bool" where
  "is_unicast key = (case key of Unicast _ _ \<Rightarrow> True | Multicast _ _ _ \<Rightarrow> False)"

text \<open>Taking a key out of the table with the next hops of its routes.\<close>

definition remove_key :: "RouteKey \<Rightarrow> RoutingTable \<Rightarrow> RoutingTable" where
  "remove_key key rt =
     (case rt_available_routes rt key of
        None \<Rightarrow> rt
      | Some route_ids \<Rightarrow>
          rt\<lparr>rt_available_routes := (rt_available_routes rt)(key := None),
             rt_route_next_hop := fold (\<lambda>route_id m. m(route_id := None)) route_ids (rt_route_next_hop rt)\<rparr>)"

definition install_route :: "RoutingTableEntry \<Rightarrow> RoutingTable \<Rightarrow> RoutingTable" where
  "install_route route rt =
     (let key = Unicast (re_src_node_id route) (re_dst_node_id route);
          ids = (case rt_available_routes rt key of None \<Rightarrow> [] | Some ids \<Rightarrow> ids)
      in rt\<lparr>rt_route_next_hop := (rt_route_next_hop rt)(re_route_id route \<mapsto> re_next_hops route),
           rt_available_routes := (rt_available_routes rt)(key \<mapsto> ids @ [re_route_id route])\<rparr>)"

definition install_routes :: "RouteKey list \<Rightarrow> RoutingTableEntry list \<Rightarrow> RoutingTable \<Rightarrow> RoutingTable" where
  "install_routes order routes rt =
     (let rt = rt\<lparr>rt_cache := Map.empty\<rparr>;
          existing_unicast_keys = filter is_unicast order;
          rt = fold remove_key existing_unicast_keys rt
      in fold install_route routes rt)"

definition install_group_directory :: "GroupDirectoryEntry list \<Rightarrow> RoutingTable \<Rightarrow> RoutingTable" where
  "install_group_directory groups rt =
     rt\<lparr>rt_group_dir := fold (\<lambda>entry m. m(gd_group_ip entry \<mapsto> gd_group_id entry)) groups Map.empty\<rparr>"

definition install_group_route :: "nat \<Rightarrow> nat \<Rightarrow> GroupRoutingTableEntry \<Rightarrow> RoutingTable \<Rightarrow> RoutingTable" where
  "install_group_route group_id src_node_id route rt =
     (case tree_id_from_route_id group_id (ge_route_id route) of
        None \<Rightarrow> rt
      | Some tree_id \<Rightarrow>
          (case deterministic_multicast_route_id group_id tree_id of
             None \<Rightarrow> rt
           | Some expected_route_id \<Rightarrow>
               if expected_route_id \<noteq> ge_route_id route then rt
               else let key = Multicast src_node_id group_id tree_id;
                        encoded_id = encode_multicast_route_id (ge_route_id route)
                    in rt\<lparr>rt_route_next_hop := (rt_route_next_hop rt)(encoded_id \<mapsto> ge_next_hops route),
                          rt_available_routes := (rt_available_routes rt)(key \<mapsto> [encoded_id])\<rparr>))"

definition install_group_routes ::
    "RouteKey list \<Rightarrow> nat \<Rightarrow> nat \<Rightarrow> GroupRoutingTableEntry list \<Rightarrow> RoutingTable \<Rightarrow> RoutingTable" where
  "install_group_routes order group_id src_node_id routes rt =
     (let existing_multicast_keys = filter (\<lambda>key. case key of
            Multicast existing_src existing_group _ \<Rightarrow> existing_src = src_node_id \<and> existing_group = group_id
          | Unicast _ _ \<Rightarrow> False) order;
          rt = fold remove_key existing_multicast_keys rt;
          rt = rt\<lparr>rt_multicast_tree_cache := (\<lambda>(cached_src, cached_group, tree).
                    if cached_src \<noteq> src_node_id \<or> cached_group \<noteq> group_id
                    then rt_multicast_tree_cache rt (cached_src, cached_group, tree) else None),
                  rt_multicast_control_tree_cache := (\<lambda>(cached_src, cached_group).
                    if cached_src \<noteq> src_node_id \<or> cached_group \<noteq> group_id
                    then rt_multicast_control_tree_cache rt (cached_src, cached_group) else None)\<rparr>;
          rt = fold (install_group_route group_id src_node_id) routes rt
      in rt\<lparr>rt_cache := Map.empty\<rparr>)"

section \<open>Selecting routes\<close>

datatype RouteError =
    NoRoute
  | NoRouteKey
  | UnknownControlTree nat nat
  | UnknownTree nat nat u16
  | NoRouteIds
  | NoNextHops nat
  | InvalidRoute nat
  | RouteNotFound nat
  | RouteEmpty nat
  | InvalidNextHops nat
  | NoHop

definition key_for_flow :: "RoutingTable \<Rightarrow> FlowId \<Rightarrow> u16 option \<Rightarrow> RouteKey option" where
  "key_for_flow rt flow_id tree_id =
     (if flow_id = INVALID_FLOW_ID then None
      else case rt_group_dir rt (flow_dst_ip flow_id) of
        Some group_id \<Rightarrow>
          let src_node = ip_to_node_id (rt_config rt) (flow_src_ip flow_id)
          in if src_node = INVALID then None
             else Some (Multicast src_node group_id (case tree_id of Some t \<Rightarrow> t | None \<Rightarrow> 0))
      | None \<Rightarrow>
          map_option (\<lambda>(src_node, dst_node). Unicast src_node dst_node)
            (try_extract_node_ids_from_flow (rt_config rt) flow_id))"

text \<open>The scan over the available routes: whether tree 0 was met, which ends it, and the smallest
  tree so far.\<close>

fun control_tree_scan :: "RoutingTable \<Rightarrow> nat \<Rightarrow> nat \<Rightarrow> RouteKey list \<Rightarrow> u16 option \<Rightarrow> bool \<times> u16 option" where
  "control_tree_scan rt src_node_id group_id [] smallest = (False, smallest)"
| "control_tree_scan rt src_node_id group_id (key # order) smallest =
     (case (key, rt_available_routes rt key) of
        (Multicast route_src route_group route_tree, Some (_ # _)) \<Rightarrow>
          if route_src \<noteq> src_node_id \<or> route_group \<noteq> group_id
          then control_tree_scan rt src_node_id group_id order smallest
          else if route_tree = 0 then (True, smallest)
          else control_tree_scan rt src_node_id group_id order
                 (Some (case smallest of Some current \<Rightarrow> min current route_tree | None \<Rightarrow> route_tree))
      | _ \<Rightarrow> control_tree_scan rt src_node_id group_id order smallest)"

definition select_multicast_control_tree ::
    "RouteKey list \<Rightarrow> nat \<Rightarrow> nat \<Rightarrow> RoutingTable \<Rightarrow> u16 option \<times> RoutingTable" where
  "select_multicast_control_tree order src_node_id group_id rt =
     (let cache_key = (src_node_id, group_id);
          scan = (\<lambda>rt.
            let (has_tree_zero, smallest) = control_tree_scan rt src_node_id group_id order None
            in case (if has_tree_zero then Some 0 else smallest) of
                 None \<Rightarrow> (None, rt)
               | Some selected_tree \<Rightarrow>
                   (Some selected_tree, rt\<lparr>rt_multicast_control_tree_cache :=
                      (rt_multicast_control_tree_cache rt)(cache_key \<mapsto> selected_tree)\<rparr>))
      in case rt_multicast_control_tree_cache rt cache_key of
           None \<Rightarrow> scan rt
         | Some cached_tree_id \<Rightarrow>
             (case rt_available_routes rt (Multicast src_node_id group_id cached_tree_id) of
                Some (_ # _) \<Rightarrow> (Some cached_tree_id, rt)
              | _ \<Rightarrow> scan (rt\<lparr>rt_multicast_control_tree_cache :=
                          (rt_multicast_control_tree_cache rt)(cache_key := None)\<rparr>)))"

definition select_route_for_key ::
    "(RouteKey \<Rightarrow> u32 \<Rightarrow> u32) \<Rightarrow> RouteKey \<Rightarrow> RoutingTable \<Rightarrow> (nat option \<times> RoutingTable) may_panic" where
  "select_route_for_key slot key rt =
     (case key of
        Unicast _ _ \<Rightarrow>
          (case rt_available_routes rt key of
             None \<Rightarrow> Some (None, rt)
           | Some ids \<Rightarrow>
               if ids = [] then Some (None, rt)
               else if length ids = 1 then Some (Some (ids ! 0), rt)
               else let s = unat (slot key (word_of_nat (length ids)))
                    in if s < length ids then Some (Some (ids ! s), rt) else None)
      | Multicast src_node_id group_id tree_id \<Rightarrow>
          (let cache_key = (src_node_id, group_id, tree_id);
               fresh = (case deterministic_multicast_route_id group_id tree_id of
                 None \<Rightarrow> (None, rt)
               | Some route_id \<Rightarrow>
                   let encoded_id = encode_multicast_route_id route_id
                   in if rt_route_next_hop rt encoded_id \<noteq> None
                      then (Some encoded_id, rt\<lparr>rt_multicast_tree_cache :=
                              (rt_multicast_tree_cache rt)(cache_key \<mapsto> encoded_id)\<rparr>)
                      else (None, rt))
           in Some (case rt_multicast_tree_cache rt cache_key of
                Some cached_route_id \<Rightarrow>
                  if rt_route_next_hop rt cached_route_id \<noteq> None then (Some cached_route_id, rt) else fresh
              | None \<Rightarrow> fresh)))"

definition copy_next_hops :: "nat \<Rightarrow> nat list \<Rightarrow> RouteError + nat list" where
  "copy_next_hops route_id source =
     (if INVALID \<in> set source then Inl (InvalidRoute route_id) else Inr source)"

text \<open>The report to the controller, if one is sent.\<close>

definition report_route_assignment :: "bool \<Rightarrow> FlowId \<Rightarrow> nat \<Rightarrow> RoutingTable \<Rightarrow> (FlowId \<times> nat) list" where
  "report_route_assignment has_reporter flow_id route_id rt =
     (if \<not> has_reporter then []
      else let src_node_id = ip_to_node_id (rt_config rt) (flow_src_ip flow_id)
           in if src_node_id = INVALID then []
              else let server_port = rc_user_space_server_port (rt_config rt);
                       is_app_flow = (flow_dst_port flow_id \<noteq> server_port \<and> flow_src_port flow_id \<noteq> server_port)
                   in if src_node_id = rt_local_id rt \<and> is_app_flow then [(flow_id, route_id)] else [])"

text \<open>The lookup once the key is known: first the route the cache has for a unicast flow.\<close>

definition cached_route :: "FlowId \<Rightarrow> RouteKey \<Rightarrow> RoutingTable \<Rightarrow> (nat \<times> nat list) option" where
  "cached_route flow_id key rt =
     (if is_unicast key
      then case rt_cache rt flow_id of
             None \<Rightarrow> None
           | Some route_id \<Rightarrow> map_option (Pair route_id) (rt_route_next_hop rt route_id)
      else None)"

definition next_hops_for_key ::
    "(RouteKey \<Rightarrow> u32 \<Rightarrow> u32) \<Rightarrow> FlowId \<Rightarrow> RouteKey \<Rightarrow> bool \<Rightarrow> RoutingTable \<Rightarrow>
     ((RouteError + nat list) \<times> (FlowId \<times> nat) list \<times> RoutingTable) may_panic" where
  "next_hops_for_key slot flow_id key has_reporter rt =
     (case cached_route flow_id key rt of
        Some (route_id, next_hops) \<Rightarrow> Some (copy_next_hops route_id next_hops, [], rt)
      | None \<Rightarrow>
          (case select_route_for_key slot key rt of
             None \<Rightarrow> None
           | Some (None, rt) \<Rightarrow>
               Some (Inl (case key of Multicast s g t \<Rightarrow> UnknownTree s g t | Unicast _ _ \<Rightarrow> NoRouteIds), [], rt)
           | Some (Some route_id, rt) \<Rightarrow>
               Some (case rt_route_next_hop rt route_id of
                       None \<Rightarrow> Inl (NoNextHops route_id)
                     | Some hops \<Rightarrow> copy_next_hops route_id hops,
                     report_route_assignment has_reporter flow_id route_id rt,
                     if is_unicast key then rt\<lparr>rt_cache := (rt_cache rt)(flow_id \<mapsto> route_id)\<rparr> else rt)))"

definition get_next_hops_by_flow_and_tree ::
    "(RouteKey \<Rightarrow> u32 \<Rightarrow> u32) \<Rightarrow> RouteKey list \<Rightarrow> FlowId \<Rightarrow> u16 option \<Rightarrow> bool \<Rightarrow> RoutingTable \<Rightarrow>
     ((RouteError + nat list) \<times> (FlowId \<times> nat) list \<times> RoutingTable) may_panic" where
  "get_next_hops_by_flow_and_tree slot order flow_id tree_id has_reporter rt =
     (if flow_id = INVALID_FLOW_ID then Some (Inl NoRoute, [], rt)
      else case key_for_flow rt flow_id tree_id of
        None \<Rightarrow> Some (Inl NoRouteKey, [], rt)
      | Some key \<Rightarrow>
          (case (tree_id, key) of
             (None, Multicast src_node_id group_id _) \<Rightarrow>
               (case select_multicast_control_tree order src_node_id group_id rt of
                  (None, rt) \<Rightarrow> Some (Inl (UnknownControlTree src_node_id group_id), [], rt)
                | (Some tree, rt) \<Rightarrow>
                    next_hops_for_key slot flow_id (Multicast src_node_id group_id tree) has_reporter rt)
           | _ \<Rightarrow> next_hops_for_key slot flow_id key has_reporter rt))"

definition get_next_hops_by_flow ::
    "(RouteKey \<Rightarrow> u32 \<Rightarrow> u32) \<Rightarrow> RouteKey list \<Rightarrow> FlowId \<Rightarrow> bool \<Rightarrow> RoutingTable \<Rightarrow>
     ((RouteError + nat list) \<times> (FlowId \<times> nat) list \<times> RoutingTable) may_panic" where
  "get_next_hops_by_flow slot order flow_id has_reporter rt =
     get_next_hops_by_flow_and_tree slot order flow_id None has_reporter rt"

definition pin_route_for_flow :: "FlowId \<Rightarrow> nat \<Rightarrow> RoutingTable \<Rightarrow> (RouteError + unit) \<times> RoutingTable" where
  "pin_route_for_flow flow_id route_id rt =
     (case rt_route_next_hop rt route_id of
        None \<Rightarrow> (Inl (RouteNotFound route_id), rt)
      | Some next_hops \<Rightarrow>
          if next_hops = [] then (Inl (RouteEmpty route_id), rt)
          else if INVALID \<in> set next_hops then (Inl (InvalidNextHops route_id), rt)
          else (Inr (), rt\<lparr>rt_cache := (rt_cache rt)(flow_id \<mapsto> route_id)\<rparr>))"

text \<open>\<open>draw\<close> is the random index, below the number it is asked for.\<close>

definition pick_single_hop :: "(nat \<Rightarrow> nat) \<Rightarrow> nat list \<Rightarrow> RouteError + nat" where
  "pick_single_hop draw next_hops =
     (if next_hops = [] then Inl NoHop
      else if length next_hops = 1 then Inr (next_hops ! 0)
      else Inr (next_hops ! draw (length next_hops)))"

section \<open>What the operations leave alone\<close>

text \<open>The parts of the table a lookup reads and never changes.\<close>

definition same_routes :: "RoutingTable \<Rightarrow> RoutingTable \<Rightarrow> bool" where
  "same_routes rt rt' \<longleftrightarrow> rt_local_id rt' = rt_local_id rt \<and> rt_config rt' = rt_config rt \<and>
     rt_available_routes rt' = rt_available_routes rt \<and> rt_route_next_hop rt' = rt_route_next_hop rt \<and>
     rt_group_dir rt' = rt_group_dir rt"

text \<open>A cached route that still has next hops stays cached.\<close>

definition keeps_cache :: "RoutingTable \<Rightarrow> RoutingTable \<Rightarrow> bool" where
  "keeps_cache rt rt' \<longleftrightarrow>
     (\<forall>flow_id route_id. rt_cache rt flow_id = Some route_id \<longrightarrow> rt_route_next_hop rt route_id \<noteq> None \<longrightarrow>
        rt_cache rt' flow_id = Some route_id)"

lemma same_routes_refl [simp]: "same_routes rt rt" and keeps_cache_refl [simp]: "keeps_cache rt rt"
  by (simp_all add: same_routes_def keeps_cache_def)

lemma same_routes_trans: "same_routes a b \<Longrightarrow> same_routes b c \<Longrightarrow> same_routes a c"
  by (simp add: same_routes_def)

lemma keeps_cache_trans: "same_routes a b \<Longrightarrow> keeps_cache a b \<Longrightarrow> keeps_cache b c \<Longrightarrow> keeps_cache a c"
  by (simp add: same_routes_def keeps_cache_def)

lemma control_tree_same:
  assumes "select_multicast_control_tree order s g rt = (t, rt')"
  shows "same_routes rt rt' \<and> keeps_cache rt rt' \<and> rt_cache rt' = rt_cache rt"
  using assms unfolding select_multicast_control_tree_def
  by (auto simp: Let_def same_routes_def keeps_cache_def split: option.splits prod.splits list.splits if_splits)

lemma select_route_same:
  assumes "select_route_for_key slot key rt = Some (r, rt')"
  shows "same_routes rt rt' \<and> rt_cache rt' = rt_cache rt"
  using assms unfolding select_route_for_key_def
  by (auto simp: Let_def same_routes_def split: RouteKey.splits option.splits if_splits)

lemma next_hops_for_key_cases:
  assumes "next_hops_for_key slot flow_id key has_reporter rt = Some (r, reports, rt')"
  obtains (cached) route_id hops where "cached_route flow_id key rt = Some (route_id, hops)"
      "r = copy_next_hops route_id hops" "reports = []" "rt' = rt"
    | (unknown) "cached_route flow_id key rt = None" "select_route_for_key slot key rt = Some (None, rt')" "reports = []"
      "r = Inl (case key of Multicast s g t \<Rightarrow> UnknownTree s g t | Unicast _ _ \<Rightarrow> NoRouteIds)"
    | (selected) route_id rt1 where "cached_route flow_id key rt = None"
      "select_route_for_key slot key rt = Some (Some route_id, rt1)"
      "r = (case rt_route_next_hop rt1 route_id of
         None \<Rightarrow> Inl (NoNextHops route_id) | Some hops \<Rightarrow> copy_next_hops route_id hops)"
      "reports = report_route_assignment has_reporter flow_id route_id rt1"
      "rt' = (if is_unicast key then rt1\<lparr>rt_cache := (rt_cache rt1)(flow_id \<mapsto> route_id)\<rparr> else rt1)"
  using assms unfolding next_hops_for_key_def
  by (cases "cached_route flow_id key rt"; cases "select_route_for_key slot key rt"; simp split: prod.splits option.splits)

lemma next_hops_for_key_same:
  assumes "next_hops_for_key slot flow_id key has_reporter rt = Some (r, reports, rt')"
  shows "same_routes rt rt' \<and> keeps_cache rt rt'"
  using assms
proof (cases rule: next_hops_for_key_cases)
  case unknown
  then show ?thesis using select_route_same [OF unknown(2)] by (simp add: keeps_cache_def)
next
  case (selected route_id rt1)
  then show ?thesis using select_route_same [OF selected(2)]
    by (auto simp: same_routes_def keeps_cache_def cached_route_def split: if_splits option.splits)
qed simp

lemma lookup_cases:
  assumes "get_next_hops_by_flow_and_tree slot order flow_id tree_id has_reporter rt = Some (r, reports, rt')"
  obtains (failed) "r = Inl NoRoute \<or> r = Inl NoRouteKey" "reports = []" "rt' = rt"
    | (no_tree) s g t where "tree_id = None" "key_for_flow rt flow_id tree_id = Some (Multicast s g t)"
      "select_multicast_control_tree order s g rt = (None, rt')" "reports = []" "r = Inl (UnknownControlTree s g)"
    | (tree) s g t tree rt1 where "tree_id = None" "key_for_flow rt flow_id tree_id = Some (Multicast s g t)"
      "select_multicast_control_tree order s g rt = (Some tree, rt1)"
      "next_hops_for_key slot flow_id (Multicast s g tree) has_reporter rt1 = Some (r, reports, rt')"
    | (direct) key where "key_for_flow rt flow_id tree_id = Some key"
      "next_hops_for_key slot flow_id key has_reporter rt = Some (r, reports, rt')"
  using assms unfolding get_next_hops_by_flow_and_tree_def
  by (cases "key_for_flow rt flow_id tree_id"; cases tree_id)
    (auto split: if_splits RouteKey.splits prod.splits option.splits)

lemma lookup_same:
  assumes "get_next_hops_by_flow_and_tree slot order flow_id tree_id has_reporter rt = Some (r, reports, rt')"
  shows "same_routes rt rt' \<and> keeps_cache rt rt'"
  using assms
proof (cases rule: lookup_cases)
  case (no_tree s g t)
  then show ?thesis using control_tree_same by blast
next
  case (tree s g t tree rt1)
  then show ?thesis
    using control_tree_same [OF tree(3)] next_hops_for_key_same [OF tree(4)] same_routes_trans keeps_cache_trans by blast
next
  case (direct key)
  then show ?thesis using next_hops_for_key_same by blast
qed simp

section \<open>Results of a lookup\<close>

text \<open>What the jump hash promises; a key has fewer than \<open>2 ^ 32\<close> routes.\<close>

definition slot_ok :: "(RouteKey \<Rightarrow> u32 \<Rightarrow> u32) \<Rightarrow> bool" where
  "slot_ok slot \<longleftrightarrow> (\<forall>key n. n \<noteq> 0 \<longrightarrow> slot key n < n)"

definition table_ok :: "RoutingTable \<Rightarrow> bool" where
  "table_ok rt \<longleftrightarrow> (\<forall>key ids. rt_available_routes rt key = Some ids \<longrightarrow> length ids < 2 ^ 32)"

lemma slot_in_range:
  assumes "slot_ok slot" "ids \<noteq> []" "length ids < 2 ^ 32"
  shows "unat (slot key (word_of_nat (length ids))) < length ids"
proof -
  have n: "unat (word_of_nat (length ids) :: u32) = length ids" using assms(3) by (simp add: unat_of_nat_small)
  then have "(word_of_nat (length ids) :: u32) \<noteq> 0" using assms(2) by (metis length_0_conv unat_0)
  then have "slot key (word_of_nat (length ids)) < word_of_nat (length ids)"
    using assms(1) by (simp add: slot_ok_def)
  then show ?thesis using n by (simp add: word_less_nat_alt)
qed

lemma select_route_total:
  assumes "slot_ok slot" "table_ok rt"
  shows "select_route_for_key slot key rt \<noteq> None"
proof (cases key)
  case (Unicast s d)
  have "unat (slot key (word_of_nat (length ids))) < length ids"
    if "rt_available_routes rt key = Some ids" "ids \<noteq> []" for ids
    using slot_in_range [OF assms(1) that(2)] assms(2) that(1) by (auto simp: table_ok_def)
  then show ?thesis using Unicast by (auto simp: select_route_for_key_def Let_def split: option.splits)
qed (simp add: select_route_for_key_def Let_def)

lemma next_hops_for_key_total:
  "slot_ok slot \<Longrightarrow> table_ok rt \<Longrightarrow> next_hops_for_key slot flow_id key has_reporter rt \<noteq> None"
  using select_route_total [of slot rt key]
  by (auto simp: next_hops_for_key_def split: option.splits prod.splits)

lemma table_ok_same: "same_routes rt rt' \<Longrightarrow> table_ok rt \<Longrightarrow> table_ok rt'"
  by (simp add: same_routes_def table_ok_def)

lemma lookup_total:
  assumes "slot_ok slot" "table_ok rt"
  shows "get_next_hops_by_flow_and_tree slot order flow_id tree_id has_reporter rt \<noteq> None"
proof -
  have control: "table_ok rt1" if "select_multicast_control_tree order s g rt = (t, rt1)" for s g t rt1
    using control_tree_same [OF that] table_ok_same assms(2) by blast
  have some: "\<exists>r reports rt'. next_hops_for_key slot flow_id key has_reporter rt1 = Some (r, reports, rt')"
    if "table_ok rt1" for key rt1
    using next_hops_for_key_total [OF assms(1) that] by auto
  show ?thesis
    using some control assms(2) unfolding get_next_hops_by_flow_and_tree_def
    by (auto split: option.splits RouteKey.splits prod.splits)
qed

text \<open>Hops returned are those of an installed route, and valid; the route reported is theirs.\<close>

lemma copy_next_hops_Inr: "copy_next_hops route_id source = Inr hops \<longleftrightarrow> hops = source \<and> INVALID \<notin> set source"
  by (auto simp: copy_next_hops_def)

lemma next_hops_for_key_valid:
  assumes "next_hops_for_key slot flow_id key has_reporter rt = Some (Inr hops, reports, rt')"
  shows "\<exists>route_id. rt_route_next_hop rt route_id = Some hops \<and> INVALID \<notin> set hops \<and>
    set reports \<subseteq> {(flow_id, route_id)} \<and> (is_unicast key \<longrightarrow> rt_cache rt' flow_id = Some route_id)"
  using assms
proof (cases rule: next_hops_for_key_cases)
  case (cached route_id hops')
  then show ?thesis
    by (intro exI [of _ route_id]) (auto simp: cached_route_def copy_next_hops_Inr [symmetric] copy_next_hops_def
        split: if_splits option.splits)
next
  case (selected route_id rt1)
  have "set reports \<subseteq> {(flow_id, route_id)}"
    by (auto simp: selected(4) report_route_assignment_def Let_def)
  moreover have "rt_route_next_hop rt route_id = Some hops" "INVALID \<notin> set hops"
    using select_route_same [OF selected(2)] selected(3)
    by (auto simp: same_routes_def copy_next_hops_def split: option.splits if_splits)
  ultimately show ?thesis using selected(5) by (intro exI [of _ route_id]) auto
qed simp

text \<open>C28. A lookup never leads astray: on any table, for any flow and tree, with a jump hash that
  stays in range, the lookup returns without panic; hops it returns are those of an installed route,
  hold no invalid node, and belong to the route reported to the controller; and a lookup changes no
  route.\<close>

theorem lookup_safe:
  assumes "slot_ok slot" "table_ok rt"
  shows "\<exists>r reports rt'. get_next_hops_by_flow_and_tree slot order flow_id tree_id has_reporter rt = Some (r, reports, rt') \<and>
    same_routes rt rt' \<and>
    (\<forall>hops. r = Inr hops \<longrightarrow> (\<exists>route_id. rt_route_next_hop rt route_id = Some hops \<and> INVALID \<notin> set hops \<and>
       set reports \<subseteq> {(flow_id, route_id)}))"
proof -
  obtain r reports rt' where look:
      "get_next_hops_by_flow_and_tree slot order flow_id tree_id has_reporter rt = Some (r, reports, rt')"
    using lookup_total [OF assms] by (metis not_None_eq prod.exhaust)
  have "\<exists>route_id. rt_route_next_hop rt route_id = Some hops \<and> INVALID \<notin> set hops \<and>
      set reports \<subseteq> {(flow_id, route_id)}" if r: "r = Inr hops" for hops
    using look
  proof (cases rule: lookup_cases)
    case (tree s g t tree rt1)
    show ?thesis using next_hops_for_key_valid [OF tree(4) [unfolded r]] control_tree_same [OF tree(3)]
      by (auto simp: same_routes_def)
  next
    case (direct key)
    show ?thesis using next_hops_for_key_valid [OF direct(2) [unfolded r]] by blast
  qed (auto simp: r)
  then show ?thesis using look lookup_same [OF look] by blast
qed

section \<open>Flows stay on their route\<close>

text \<open>Lookups of any flows and trees, one after the other.\<close>

fun lookups ::
    "(RouteKey \<Rightarrow> u32 \<Rightarrow> u32) \<Rightarrow> bool \<Rightarrow> (RouteKey list \<times> FlowId \<times> u16 option) list \<Rightarrow> RoutingTable \<Rightarrow>
     RoutingTable may_panic" where
  "lookups slot has_reporter [] rt = Some rt"
| "lookups slot has_reporter ((order, flow_id, tree_id) # requests) rt =
     (case get_next_hops_by_flow_and_tree slot order flow_id tree_id has_reporter rt of
        None \<Rightarrow> None
      | Some (_, _, rt) \<Rightarrow> lookups slot has_reporter requests rt)"

lemma lookups_same: "lookups slot has_reporter requests rt = Some rt' \<Longrightarrow> same_routes rt rt' \<and> keeps_cache rt rt'"
proof (induction slot has_reporter requests rt rule: lookups.induct)
  case (2 slot has_reporter order flow_id tree_id requests rt)
  then obtain r reports rt1 where
    one: "get_next_hops_by_flow_and_tree slot order flow_id tree_id has_reporter rt = Some (r, reports, rt1)"
    and rest: "lookups slot has_reporter requests rt1 = Some rt'"
    by (auto split: option.splits)
  show ?case using lookup_same [OF one] 2(1) [OF one refl refl rest] same_routes_trans keeps_cache_trans by blast
qed simp

lemma key_for_flow_same: "same_routes rt rt' \<Longrightarrow> key_for_flow rt' flow_id tree_id = key_for_flow rt flow_id tree_id"
  by (auto simp: same_routes_def key_for_flow_def split: option.split)

text \<open>C29. A unicast flow keeps its route: once a lookup of the flow returned hops, every later lookup
  of it, after any lookups of this and other flows, returns the same hops from the cache, with no
  new report and without changing the table, until routes are installed or pinned.\<close>

theorem flow_keeps_route:
  assumes first: "get_next_hops_by_flow_and_tree slot order flow_id None has_reporter rt = Some (Inr hops, reports, rt1)"
    and unicast: "key_for_flow rt flow_id None = Some (Unicast s d)"
    and later: "lookups slot has_reporter requests rt1 = Some rt2"
  shows "get_next_hops_by_flow_and_tree slot order' flow_id None has_reporter rt2 = Some (Inr hops, [], rt2)"
proof -
  have "next_hops_for_key slot flow_id (Unicast s d) has_reporter rt = Some (Inr hops, reports, rt1)"
    using first unicast by (auto simp: get_next_hops_by_flow_and_tree_def split: if_splits)
  from next_hops_for_key_valid [OF this] obtain route_id where
    id: "rt_route_next_hop rt route_id = Some hops" "INVALID \<notin> set hops" "rt_cache rt1 flow_id = Some route_id"
    by (auto simp: is_unicast_def)
  have same: "same_routes rt rt1" "same_routes rt1 rt2" "keeps_cache rt1 rt2"
    using lookup_same [OF first] lookups_same [OF later] by auto
  have "rt_cache rt2 flow_id = Some route_id" "rt_route_next_hop rt2 route_id = Some hops"
    using id same by (auto simp: same_routes_def keeps_cache_def)
  moreover have "key_for_flow rt2 flow_id None = Some (Unicast s d)"
    using unicast key_for_flow_same same same_routes_trans by metis
  moreover have "flow_id \<noteq> INVALID_FLOW_ID" using unicast by (auto simp: key_for_flow_def)
  ultimately show ?thesis using id(2)
    by (simp add: get_next_hops_by_flow_and_tree_def next_hops_for_key_def cached_route_def is_unicast_def copy_next_hops_def)
qed

section \<open>Installed routes are used\<close>

lemma remove_key_maps [simp]:
  "rt_available_routes (remove_key key rt) = (rt_available_routes rt)(key := None)"
  "rt_config (remove_key key rt) = rt_config rt" "rt_group_dir (remove_key key rt) = rt_group_dir rt"
  "rt_cache (remove_key key rt) = rt_cache rt"
  "rt_multicast_tree_cache (remove_key key rt) = rt_multicast_tree_cache rt"
  by (simp_all add: remove_key_def fun_upd_idem split: option.split)

lemma fold_remove_keys [simp]:
  "rt_available_routes (fold remove_key keys rt) = (\<lambda>key. if key \<in> set keys then None else rt_available_routes rt key)"
  "rt_config (fold remove_key keys rt) = rt_config rt" "rt_group_dir (fold remove_key keys rt) = rt_group_dir rt"
  "rt_cache (fold remove_key keys rt) = rt_cache rt"
  "rt_multicast_tree_cache (fold remove_key keys rt) = rt_multicast_tree_cache rt"
  by (induction keys arbitrary: rt) auto

text \<open>The routes of a list between two nodes.\<close>

definition routes_between :: "nat \<Rightarrow> nat \<Rightarrow> RoutingTableEntry list \<Rightarrow> RoutingTableEntry list" where
  "routes_between s d = filter (\<lambda>r. re_src_node_id r = s \<and> re_dst_node_id r = d)"

definition ids_at :: "RoutingTable \<Rightarrow> RouteKey \<Rightarrow> nat list" where
  "ids_at rt key = (case rt_available_routes rt key of None \<Rightarrow> [] | Some ids \<Rightarrow> ids)"

lemma install_route_maps [simp]:
  "rt_config (install_route r rt) = rt_config rt" "rt_group_dir (install_route r rt) = rt_group_dir rt"
  "rt_cache (install_route r rt) = rt_cache rt"
  "rt_route_next_hop (install_route r rt) = (rt_route_next_hop rt)(re_route_id r \<mapsto> re_next_hops r)"
  by (simp_all add: install_route_def Let_def)

lemma fold_install_routes:
  "rt_config (fold install_route rs rt) = rt_config rt" "rt_group_dir (fold install_route rs rt) = rt_group_dir rt"
  "rt_cache (fold install_route rs rt) = rt_cache rt"
  "ids_at (fold install_route rs rt) (Unicast s d) = ids_at rt (Unicast s d) @ map re_route_id (routes_between s d rs)"
  "rt_available_routes (fold install_route rs rt) (Multicast m g t) = rt_available_routes rt (Multicast m g t)"
  by (induction rs arbitrary: rt)
    (auto simp: routes_between_def ids_at_def install_route_def Let_def split: option.splits)

lemma fold_install_other: "i \<notin> re_route_id ` set rs \<Longrightarrow>
    rt_route_next_hop (fold install_route rs rt) i = rt_route_next_hop rt i"
  by (induction rs arbitrary: rt) auto

lemma fold_install_hops: "r \<in> set rs \<Longrightarrow> distinct (map re_route_id rs) \<Longrightarrow>
    rt_route_next_hop (fold install_route rs rt) (re_route_id r) = Some (re_next_hops r)"
  by (induction rs arbitrary: rt) (auto simp: fold_install_other)

lemma installed_lookup:
  assumes slot: "slot_ok slot" and order: "set order = dom (rt_available_routes rt)"
    and rs: "distinct (map re_route_id rs)" "length rs < 2 ^ 32"
    and flow: "key_for_flow rt flow_id None = Some (Unicast s d)"
    and new: "new = install_routes order rs rt"
  shows "\<exists>reports new'. if routes_between s d rs = []
    then get_next_hops_by_flow_and_tree slot order' flow_id None has_reporter new = Some (Inl NoRouteIds, [], new)
    else \<exists>r \<in> set rs. re_src_node_id r = s \<and> re_dst_node_id r = d \<and>
      get_next_hops_by_flow_and_tree slot order' flow_id None has_reporter new =
        Some (if INVALID \<in> set (re_next_hops r) then Inl (InvalidRoute (re_route_id r)) else Inr (re_next_hops r),
          reports, new') \<and> rt_cache new' flow_id = Some (re_route_id r)"
proof -
  let ?cleared = "fold remove_key (filter is_unicast order) (rt\<lparr>rt_cache := Map.empty\<rparr>)"
  let ?ids = "map re_route_id (routes_between s d rs)"
  have new': "new = fold install_route rs ?cleared" by (simp add: new install_routes_def Let_def)
  have parts: "rt_config new = rt_config rt" "rt_group_dir new = rt_group_dir rt" "rt_cache new flow_id = None"
    by (simp_all add: new' fold_install_routes)
  have "ids_at ?cleared (Unicast s d) = []"
    using order by (auto simp: ids_at_def is_unicast_def split: option.splits)
  then have ids: "ids_at new (Unicast s d) = ?ids" by (simp add: new' fold_install_routes)
  have key: "key_for_flow new flow_id None = Some (Unicast s d)" and ok: "flow_id \<noteq> INVALID_FLOW_ID"
    using flow parts(1,2) by (auto simp: key_for_flow_def split: option.splits)
  have none: "cached_route flow_id (Unicast s d) new = None" by (simp add: cached_route_def parts(3))
  have look: "get_next_hops_by_flow_and_tree slot order' flow_id None has_reporter new =
      next_hops_for_key slot flow_id (Unicast s d) has_reporter new"
    using key ok by (simp add: get_next_hops_by_flow_and_tree_def)
  show ?thesis
  proof (cases "routes_between s d rs = []")
    case True
    then have "rt_available_routes new (Unicast s d) = None \<or> rt_available_routes new (Unicast s d) = Some []"
      using ids by (auto simp: ids_at_def split: option.splits)
    then have "select_route_for_key slot (Unicast s d) new = Some (None, new)"
      by (auto simp: select_route_for_key_def)
    then show ?thesis using True look none by (simp add: next_hops_for_key_def)
  next
    case False
    then have some: "rt_available_routes new (Unicast s d) = Some ?ids"
      using ids by (auto simp: ids_at_def split: option.splits)
    have "length ?ids < 2 ^ 32" using rs(2) length_filter_le [of _ rs]
      unfolding length_map routes_between_def by (rule le_less_trans [rotated])
    then obtain i where i: "i < length ?ids" "select_route_for_key slot (Unicast s d) new = Some (Some (?ids ! i), new)"
      using False some slot_in_range [OF slot, of ?ids "Unicast s d"]
      by (cases "length ?ids = 1") (auto simp: select_route_for_key_def Let_def)
    let ?r = "routes_between s d rs ! i"
    have r: "?r \<in> set rs" "re_src_node_id ?r = s" "re_dst_node_id ?r = d" "?ids ! i = re_route_id ?r"
      using i(1) nth_mem [of i "routes_between s d rs"] by (auto simp: routes_between_def)
    have "rt_route_next_hop new (re_route_id ?r) = Some (re_next_hops ?r)"
      unfolding new' by (rule fold_install_hops [OF r(1) rs(1)])
    then have "next_hops_for_key slot flow_id (Unicast s d) has_reporter new =
        Some (copy_next_hops (re_route_id ?r) (re_next_hops ?r),
          report_route_assignment has_reporter flow_id (re_route_id ?r) new,
          new\<lparr>rt_cache := (rt_cache new)(flow_id \<mapsto> re_route_id ?r)\<rparr>)"
      using none i(2) r(4) by (simp add: next_hops_for_key_def is_unicast_def)
    then show ?thesis using False r look
      by (intro exI [of _ "report_route_assignment has_reporter flow_id (re_route_id ?r) new"]
          exI [of _ "new\<lparr>rt_cache := (rt_cache new)(flow_id \<mapsto> re_route_id ?r)\<rparr>"])
        (auto simp: copy_next_hops_def intro!: bexI [of _ ?r])
  qed
qed

text \<open>Installed routes are the ones used: after \<open>install_routes\<close> with distinct route ids, the first
  lookup of a unicast flow between two nodes takes one of the routes the list holds for this pair
  and answers with its next hops (an error if they hold the invalid node), whatever was installed,
  cached or pinned before; when the list has none for the pair, the answer is the error that there is
  no route.\<close>

theorem installed_routes_used:
  assumes slot: "slot_ok slot" and order: "set order = dom (rt_available_routes rt)"
    and rs: "distinct (map re_route_id rs)" "length rs < 2 ^ 32"
    and flow: "key_for_flow rt flow_id None = Some (Unicast s d)"
    and new: "new = install_routes order rs rt"
  shows "\<exists>reports new'. if routes_between s d rs = []
    then get_next_hops_by_flow_and_tree slot order' flow_id None has_reporter new = Some (Inl NoRouteIds, [], new)
    else \<exists>r \<in> set rs. re_src_node_id r = s \<and> re_dst_node_id r = d \<and>
      get_next_hops_by_flow_and_tree slot order' flow_id None has_reporter new =
        Some (if INVALID \<in> set (re_next_hops r) then Inl (InvalidRoute (re_route_id r)) else Inr (re_next_hops r),
          reports, new') \<and> rt_cache new' flow_id = Some (re_route_id r)"
  using installed_lookup [OF assms] .

section \<open>Multicast trees\<close>

lemma encode_inj:
  assumes "a < MULTICAST_ROUTE_FLAG" "b < MULTICAST_ROUTE_FLAG" "encode_multicast_route_id a = encode_multicast_route_id b"
  shows "a = b"
proof -
  have "take_bit 30 (encode_multicast_route_id n) = n" if "n < MULTICAST_ROUTE_FLAG" for n
    using that unfolding encode_multicast_route_id_def MULTICAST_ROUTE_FLAG_def take_bit_or
    by (simp add: take_bit_eq_mod)
  then show ?thesis using assms by metis
qed

lemma tree_route_id:
  assumes "route_id = group_id * MULTITREE_STRIDE + unat tree_id" "route_id < MULTICAST_ROUTE_FLAG"
  shows "deterministic_multicast_route_id group_id tree_id = Some route_id"
    "tree_id_from_route_id group_id route_id = Some tree_id"
proof -
  have "unat tree_id < 2 ^ 16" using unsigned_less [of tree_id] by simp
  then show "deterministic_multicast_route_id group_id tree_id = Some route_id"
    "tree_id_from_route_id group_id route_id = Some tree_id"
    using assms by (simp_all add: deterministic_multicast_route_id_def tree_id_from_route_id_def checked_mul_def checked_add_def
      MULTITREE_STRIDE_def MULTICAST_ROUTE_FLAG_def Let_def)
qed

lemma deterministic_below: "deterministic_multicast_route_id group_id tree_id = Some route_id \<Longrightarrow> route_id < MULTICAST_ROUTE_FLAG"
  by (auto simp: deterministic_multicast_route_id_def Let_def split: bind_splits if_splits)

lemma install_group_route_maps [simp]:
  "rt_config (install_group_route g s r rt) = rt_config rt" "rt_group_dir (install_group_route g s r rt) = rt_group_dir rt"
  "rt_multicast_tree_cache (install_group_route g s r rt) = rt_multicast_tree_cache rt"
  by (simp_all add: install_group_route_def Let_def split: option.split)

lemma fold_install_group_maps [simp]:
  "rt_config (fold (install_group_route g s) rs rt) = rt_config rt"
  "rt_group_dir (fold (install_group_route g s) rs rt) = rt_group_dir rt"
  "rt_multicast_tree_cache (fold (install_group_route g s) rs rt) = rt_multicast_tree_cache rt"
  by (induction rs arbitrary: rt) simp_all

lemma install_group_other:
  assumes "ge_route_id r \<noteq> i" "i < MULTICAST_ROUTE_FLAG"
  shows "rt_route_next_hop (install_group_route g s r rt) (encode_multicast_route_id i) =
    rt_route_next_hop rt (encode_multicast_route_id i)"
  using assms encode_inj [of i "ge_route_id r"] deterministic_below
  by (auto simp: install_group_route_def Let_def split: option.splits)

lemma fold_install_group_other:
  assumes "\<forall>r \<in> set rs. ge_route_id r \<noteq> i" "i < MULTICAST_ROUTE_FLAG"
  shows "rt_route_next_hop (fold (install_group_route g s) rs rt) (encode_multicast_route_id i) =
    rt_route_next_hop rt (encode_multicast_route_id i)"
  using assms by (induction rs arbitrary: rt) (auto simp: install_group_other)

lemma fold_install_group_hops:
  assumes "r \<in> set rs" "distinct (map ge_route_id rs)"
    "ge_route_id r = g * MULTITREE_STRIDE + unat (t :: u16)" "ge_route_id r < MULTICAST_ROUTE_FLAG"
  shows "rt_route_next_hop (fold (install_group_route g s) rs rt) (encode_multicast_route_id (ge_route_id r)) =
    Some (ge_next_hops r)"
  using assms
proof (induction rs arbitrary: rt)
  case (Cons r' rs)
  show ?case
  proof (cases "r' = r")
    case True
    have "\<forall>r' \<in> set rs. ge_route_id r' \<noteq> ge_route_id r" using Cons.prems(2) True by (simp add: image_def) metis
    from fold_install_group_other [OF this Cons.prems(4)]
    have "rt_route_next_hop (fold (install_group_route g s) (r' # rs) rt) (encode_multicast_route_id (ge_route_id r)) =
        rt_route_next_hop (install_group_route g s r rt) (encode_multicast_route_id (ge_route_id r))"
      by (simp add: True)
    also have "\<dots> = Some (ge_next_hops r)"
      using tree_route_id [OF Cons.prems(3,4)] by (simp add: install_group_route_def Let_def)
    finally show ?thesis .
  next
    case False
    then show ?thesis using Cons by simp
  qed
qed simp

text \<open>The lookup of a tree after its source's routes were installed, and after another table change
  that kept the caches of the source empty.\<close>

lemma tree_lookup:
  assumes key: "key_for_flow rt flow_id (Some t) = Some (Multicast s g t)"
    and id: "route_id = g * MULTITREE_STRIDE + unat t" "route_id < MULTICAST_ROUTE_FLAG"
    and hops: "rt_route_next_hop rt (encode_multicast_route_id route_id) = Some hops" "INVALID \<notin> set hops"
    and cache: "rt_multicast_tree_cache rt (s, g, t) = None"
  shows "\<exists>reports rt'. get_next_hops_by_flow_and_tree slot order flow_id (Some t) has_reporter rt = Some (Inr hops, reports, rt')"
proof -
  have "flow_id \<noteq> INVALID_FLOW_ID" using key by (auto simp: key_for_flow_def)
  then show ?thesis using key hops cache tree_route_id(1) [OF id]
    by (simp add: get_next_hops_by_flow_and_tree_def next_hops_for_key_def cached_route_def is_unicast_def
        select_route_for_key_def copy_next_hops_def Let_def)
qed

lemma install_group_maps [simp]:
  "rt_config (install_group_routes order g s rs rt) = rt_config rt"
  "rt_group_dir (install_group_routes order g s rs rt) = rt_group_dir rt"
  by (simp_all add: install_group_routes_def Let_def)

lemma install_group_cache:
  "rt_multicast_tree_cache (install_group_routes order g s rs rt) (s', g', t) =
     (if s' = s \<and> g' = g then None else rt_multicast_tree_cache rt (s', g', t))"
  by (auto simp: install_group_routes_def Let_def)

lemma install_group_hops:
  assumes "r \<in> set rs" "distinct (map ge_route_id rs)"
    "ge_route_id r = g * MULTITREE_STRIDE + unat (t :: u16)" "ge_route_id r < MULTICAST_ROUTE_FLAG"
  shows "rt_route_next_hop (install_group_routes order g s rs rt) (encode_multicast_route_id (ge_route_id r)) =
    Some (ge_next_hops r)"
  using fold_install_group_hops [OF assms] by (simp add: install_group_routes_def Let_def)

lemma key_for_flow_cong:
  "rt_config rt' = rt_config rt \<Longrightarrow> rt_group_dir rt' = rt_group_dir rt \<Longrightarrow> key_for_flow rt' f t = key_for_flow rt f t"
  by (auto simp: key_for_flow_def split: option.split)

text \<open>After \<open>install_group_routes\<close> a flow of the source is sent along the tree it asks for, with the hops
  the list gives for that tree.\<close>

theorem group_routes_used:
  assumes "r \<in> set rs" "distinct (map ge_route_id rs)" "ge_route_id r = g * MULTITREE_STRIDE + unat t"
    "ge_route_id r < MULTICAST_ROUTE_FLAG" "INVALID \<notin> set (ge_next_hops r)"
    "key_for_flow rt flow_id (Some t) = Some (Multicast s g t)"
  shows "\<exists>reports rt'. get_next_hops_by_flow_and_tree slot order' flow_id (Some t) has_reporter
      (install_group_routes order g s rs rt) = Some (Inr (ge_next_hops r), reports, rt')"
proof (rule tree_lookup)
  show "key_for_flow (install_group_routes order g s rs rt) flow_id (Some t) = Some (Multicast s g t)"
    using assms(6) key_for_flow_cong [of "install_group_routes order g s rs rt" rt] by simp
  show "rt_route_next_hop (install_group_routes order g s rs rt) (encode_multicast_route_id (ge_route_id r)) =
      Some (ge_next_hops r)"
    by (rule install_group_hops [OF assms(1-4)])
qed (use assms in \<open>simp_all add: install_group_cache\<close>)

text \<open>Sources of one group share their trees' routes: route ids depend on the group and the tree
  only, so once the routes of a second source of the group are installed, the flows of the first
  source are sent along the second source's next hops, although the table keeps a key per source.\<close>

theorem group_sources_collide:
  assumes sources: "a \<noteq> b"
    and ra: "ge_route_id ra = g * MULTITREE_STRIDE + unat t" "ge_route_id ra < MULTICAST_ROUTE_FLAG"
    and rb: "ge_route_id rb = ge_route_id ra" "INVALID \<notin> set (ge_next_hops rb)"
    and flow: "key_for_flow rt flow_id (Some t) = Some (Multicast a g t)"
    and rt2: "rt2 = install_group_routes order2 g b [rb] (install_group_routes order1 g a [ra] rt)"
  shows "\<exists>reports rt'. get_next_hops_by_flow_and_tree slot order flow_id (Some t) has_reporter rt2 =
    Some (Inr (ge_next_hops rb), reports, rt')"
proof (rule tree_lookup)
  show "key_for_flow rt2 flow_id (Some t) = Some (Multicast a g t)"
    using flow key_for_flow_cong [of rt2 rt] by (simp add: rt2)
  show "rt_route_next_hop rt2 (encode_multicast_route_id (ge_route_id rb)) = Some (ge_next_hops rb)"
    unfolding rt2 by (rule install_group_hops) (use ra rb in simp_all)
  show "rt_multicast_tree_cache rt2 (a, g, t) = None"
    using sources by (simp add: rt2 install_group_cache)
qed (use ra rb in simp_all)

section \<open>A table\<close>

text \<open>Node 1 of a /24 with the virtual base 10.0.0.0; flows from node 1 to node 2 and from nodes 1 and 3
  to a group at 224.0.0.1.\<close>

definition example_config :: RouteConfig where
  "example_config = \<lparr>rc_local_netmask = 0xFFFFFF00, rc_virtual_base_addr = 0x0A000000,
     rc_user_space_base_addr = 0x0A000100, rc_external_base_addr = 0x0A000200, rc_user_space_server_port = 9\<rparr>"

definition flow_1_2 :: FlowId where "flow_1_2 = flow_id_from_parts 0x0A000001 1 0x0A000002 2"
definition flow_1_group :: FlowId where "flow_1_group = flow_id_from_parts 0x0A000001 1 0xE0000001 2"

definition example_routes :: "RoutingTableEntry list" where
  "example_routes = [\<lparr>re_route_id = 4, re_next_hops = [5], re_src_node_id = 1, re_dst_node_id = 2\<rparr>,
     \<lparr>re_route_id = 6, re_next_hops = [7], re_src_node_id = 2, re_dst_node_id = 1\<rparr>]"

definition example_table :: RoutingTable where
  "example_table = install_group_directory [\<lparr>gd_group_id = 1, gd_group_ip = 0xE0000001\<rparr>]
     (routing_table_new 1 example_config)"

definition slot_0 :: "RouteKey \<Rightarrow> u32 \<Rightarrow> u32" where "slot_0 key n = 0"

lemma slot_0_ok: "slot_ok slot_0"
  by (simp add: slot_ok_def slot_0_def word_neq_0_conv)

lemma example_ids:
  "ip_to_node_id example_config 0x0A000001 = 1" "ip_to_node_id example_config 0x0A000002 = 2"
  by code_simp+

lemma valid_flow: "flow_src_ip f = 0x0A000001 \<Longrightarrow> f \<noteq> INVALID_FLOW_ID"
proof -
  have "flow_src_ip INVALID_FLOW_ID \<noteq> 0x0A000001" by code_simp
  then show "flow_src_ip f = 0x0A000001 \<Longrightarrow> f \<noteq> INVALID_FLOW_ID" by metis
qed

lemma example_keys:
  "key_for_flow example_table flow_1_2 None = Some (Unicast 1 2)"
  "key_for_flow example_table flow_1_group (Some 0) = Some (Multicast 1 1 0)"
proof -
  have dir: "rt_group_dir example_table = [0xE0000001 \<mapsto> 1]" "rt_config example_table = example_config"
    by (simp_all add: example_table_def install_group_directory_def routing_table_new_def)
  have valid: "flow_1_2 \<noteq> INVALID_FLOW_ID" "flow_1_group \<noteq> INVALID_FLOW_ID"
    by (rule valid_flow; simp add: flow_1_2_def flow_1_group_def flow_id_fields)+
  show "key_for_flow example_table flow_1_2 None = Some (Unicast 1 2)"
    using valid by (simp add: key_for_flow_def dir try_extract_node_ids_from_flow_def Let_def INVALID_def)
      (simp add: flow_1_2_def flow_id_fields example_ids)
  show "key_for_flow example_table flow_1_group (Some 0) = Some (Multicast 1 1 0)"
    using valid by (simp add: key_for_flow_def dir Let_def INVALID_def)
      (simp add: flow_1_group_def flow_id_fields example_ids)
qed

definition example_installed :: RoutingTable where
  "example_installed = install_routes [] example_routes example_table"

lemma example_table_fields:
  "rt_available_routes example_table = Map.empty" "rt_config example_installed = rt_config example_table"
  "rt_group_dir example_installed = rt_group_dir example_table"
  "rt_available_routes example_installed = [Unicast 1 2 \<mapsto> [4], Unicast 2 1 \<mapsto> [6]]"
  by (auto simp: example_table_def example_installed_def install_group_directory_def routing_table_new_def
      install_routes_def example_routes_def install_route_def Let_def fun_eq_iff)

lemma example_installed_ok: "table_ok example_installed"
  by (auto simp: table_ok_def example_table_fields split: if_splits)

lemma lookup_safe_witness:
  "\<exists>r reports rt'. get_next_hops_by_flow_and_tree slot_0 [] flow_1_2 None True example_installed = Some (r, reports, rt') \<and>
     same_routes example_installed rt'"
  using lookup_safe [OF slot_0_ok example_installed_ok] by blast

lemma installed_routes_used_witness:
  "\<exists>r \<in> set example_routes. re_src_node_id r = 1 \<and> re_dst_node_id r = 2 \<and>
     (\<exists>reports rt'. get_next_hops_by_flow_and_tree slot_0 [] flow_1_2 None True example_installed =
        Some (if INVALID \<in> set (re_next_hops r) then Inl (InvalidRoute (re_route_id r)) else Inr (re_next_hops r), reports, rt'))"
proof -
  have "set [] = dom (rt_available_routes example_table)" by (simp add: example_table_fields)
  moreover have "distinct (map re_route_id example_routes)" "length example_routes < 2 ^ 32"
    "routes_between 1 2 example_routes \<noteq> []"
    by (simp_all add: example_routes_def routes_between_def)
  ultimately show ?thesis
    using installed_routes_used [OF slot_0_ok _ _ _ example_keys(1) example_installed_def, of "[]" True] by fastforce
qed

lemma flow_keeps_route_witness:
  "\<exists>rt1. get_next_hops_by_flow_and_tree slot_0 [] flow_1_2 None False example_installed = Some (Inr [5], [], rt1) \<and>
     get_next_hops_by_flow_and_tree slot_0 [] flow_1_2 None False rt1 = Some (Inr [5], [], rt1)"
proof -
  have key: "key_for_flow example_installed flow_1_2 None = Some (Unicast 1 2)"
    using example_keys(1) key_for_flow_cong [of example_installed example_table] by (simp add: example_table_fields)
  let ?rt1 = "example_installed\<lparr>rt_cache := [flow_1_2 \<mapsto> 4]\<rparr>"
  have "rt_cache example_installed = Map.empty" "rt_route_next_hop example_installed = [4 \<mapsto> [5], 6 \<mapsto> [7]]"
    by (simp_all add: example_installed_def install_routes_def example_routes_def install_route_def Let_def
        example_table_def install_group_directory_def routing_table_new_def)
  then have "get_next_hops_by_flow_and_tree slot_0 [] flow_1_2 None False example_installed = Some (Inr [5], [], ?rt1)"
    using key by (auto simp: get_next_hops_by_flow_and_tree_def key_for_flow_def next_hops_for_key_def cached_route_def
        is_unicast_def select_route_for_key_def example_table_fields(4) report_route_assignment_def copy_next_hops_def
        INVALID_def split: if_splits)
  then show ?thesis using flow_keeps_route [OF _ key, of slot_0 "[]" False "[5]" "[]" ?rt1 "[]" ?rt1 "[]"] by auto
qed

lemma group_sources_collide_witness:
  "\<exists>reports rt'. get_next_hops_by_flow_and_tree slot_0 [] flow_1_group (Some 0) True
     (install_group_routes [] 1 3 [\<lparr>ge_route_id = 65536, ge_next_hops = [9], ge_src_node_id = 3, ge_group_id = 1\<rparr>]
       (install_group_routes [] 1 1 [\<lparr>ge_route_id = 65536, ge_next_hops = [5], ge_src_node_id = 1, ge_group_id = 1\<rparr>]
         example_table)) = Some (Inr [9], reports, rt')"
  using group_sources_collide [OF _ _ _ _ _ example_keys(2) refl, of 3
      "\<lparr>ge_route_id = 65536, ge_next_hops = [5], ge_src_node_id = 1, ge_group_id = 1\<rparr>"
      "\<lparr>ge_route_id = 65536, ge_next_hops = [9], ge_src_node_id = 3, ge_group_id = 1\<rparr>"]
  by (simp add: MULTITREE_STRIDE_def MULTICAST_ROUTE_FLAG_def INVALID_def)

end
