(* ===== verification/Controller_Routes.thy ===== *)
theory Controller_Routes
  imports Routing "HOL-Library.Multiset"
begin

text \<open>
  How the controller computes routes (\<open>src/controller/src/utils.rs\<close>, \<open>routing.rs\<close>) and what the nodes make
  of them.  A route is a list of directed edges; every node gets the entries of the routes it is on.

  The graph library petgraph is a parameter: the neighbours of a node in the graph of an edge list,
  each edge counted, in an order of its own (locale \<open>digraph\<close>); the path search is the parameter
  \<open>astar\<close>, and \<open>astar_ok\<close> says what it promises.
\<close>

type_synonym edges = "(nat \<times> nat) list"

section \<open>Graphs\<close>

definition targets :: "edges \<Rightarrow> nat \<Rightarrow> nat list" where
  "targets edges n = map snd (filter (\<lambda>(a, b). a = n) edges)"

definition sources :: "edges \<Rightarrow> nat \<Rightarrow> nat list" where
  "sources edges n = map fst (filter (\<lambda>(a, b). b = n) edges)"

definition nodes_of :: "edges \<Rightarrow> nat set" where
  "nodes_of edges = fst ` set edges \<union> snd ` set edges"

locale digraph =
  fixes outgoing incoming :: "edges \<Rightarrow> nat \<Rightarrow> nat list"
  assumes outgoing_edges: "mset (outgoing edges n) = mset (targets edges n)"
    and incoming_edges: "mset (incoming edges n) = mset (sources edges n)"

interpretation edge_lists: digraph targets sources
  by unfold_locales simp_all

section \<open>Route entries of a node\<close>

record Route =
  ro_route_id :: nat
  ro_src_node_id :: nat
  ro_dst_node_id :: nat
  ro_edges :: edges

datatype RouteForwardingMode = UnicastMode | MulticastMode

text \<open>The depth-first search over the nodes reachable from the source, for a number of turns.\<close>

fun reach_loop :: "(edges \<Rightarrow> nat \<Rightarrow> nat list) \<Rightarrow> edges \<Rightarrow> nat \<Rightarrow> nat list \<Rightarrow> nat list \<Rightarrow> nat list option" where
  "reach_loop outgoing edges turns reachable [] = Some reachable"
| "reach_loop outgoing edges 0 reachable (node # stack) = None"
| "reach_loop outgoing edges (Suc turns) reachable (node # stack) =
     (if node \<in> set reachable then reach_loop outgoing edges turns reachable stack
      else reach_loop outgoing edges turns (node # reachable) (rev (outgoing edges node) @ stack))"

definition is_sink :: "(edges \<Rightarrow> nat \<Rightarrow> nat list) \<Rightarrow> (edges \<Rightarrow> nat \<Rightarrow> nat list) \<Rightarrow> edges \<Rightarrow> nat \<Rightarrow> bool" where
  "is_sink outgoing incoming edges n \<longleftrightarrow> length (outgoing edges n) = 0 \<and> 0 < length (incoming edges n)"

definition route_has_multiple_destinations ::
    "(edges \<Rightarrow> nat \<Rightarrow> nat list) \<Rightarrow> (edges \<Rightarrow> nat \<Rightarrow> nat list) \<Rightarrow> nat \<Rightarrow> Route \<Rightarrow> bool option" where
  "route_has_multiple_destinations outgoing incoming turns route =
     (if ro_edges route = [] then Some False
      else if ro_src_node_id route \<notin> nodes_of (ro_edges route) then Some False
      else map_option (\<lambda>reachable. 1 < length (filter (is_sink outgoing incoming (ro_edges route)) reachable))
        (reach_loop outgoing (ro_edges route) turns [] [ro_src_node_id route]))"

text \<open>The next hops of a node on a route, each once, in the order of the neighbours; a sink delivers to
  itself.\<close>

definition push_new :: "nat \<Rightarrow> nat list \<Rightarrow> nat list" where
  "push_new hop next_hops = (if hop \<in> set next_hops then next_hops else next_hops @ [hop])"

definition route_next_hops ::
    "(edges \<Rightarrow> nat \<Rightarrow> nat list) \<Rightarrow> (edges \<Rightarrow> nat \<Rightarrow> nat list) \<Rightarrow> edges \<Rightarrow> nat \<Rightarrow> nat list" where
  "route_next_hops outgoing incoming edges node_id =
     (let next_hops = (if node_id \<in> nodes_of edges then fold push_new (outgoing edges node_id) [] else [])
      in if next_hops = []
         then if node_id \<in> nodes_of edges
              then if is_sink outgoing incoming edges node_id then [node_id] else [INVALID]
              else [INVALID]
         else next_hops)"

text \<open>The forwarding mode only goes into the entry; \<open>mode\<close> is \<open>route_has_multiple_destinations\<close>.\<close>

definition route_entry ::
    "(edges \<Rightarrow> nat \<Rightarrow> nat list) \<Rightarrow> (edges \<Rightarrow> nat \<Rightarrow> nat list) \<Rightarrow> nat \<Rightarrow> Route \<Rightarrow>
     (RoutingTableEntry \<times> RouteForwardingMode) list" where
  "route_entry outgoing incoming node_id route =
     (let forward_mode = (if route_has_multiple_destinations outgoing incoming (Suc (length (ro_edges route))) route = Some True
                          then MulticastMode else UnicastMode);
          next_hops = route_next_hops outgoing incoming (ro_edges route) node_id
      in if length next_hops = 1 \<and> next_hops ! 0 = INVALID then []
         else [(\<lparr>re_route_id = ro_route_id route, re_next_hops = next_hops,
                 re_src_node_id = ro_src_node_id route, re_dst_node_id = ro_dst_node_id route\<rparr>, forward_mode)])"

definition build_routes_for_node ::
    "(edges \<Rightarrow> nat \<Rightarrow> nat list) \<Rightarrow> (edges \<Rightarrow> nat \<Rightarrow> nat list) \<Rightarrow> Route list \<Rightarrow> nat \<Rightarrow>
     (RoutingTableEntry \<times> RouteForwardingMode) list option" where
  "build_routes_for_node outgoing incoming routes node_id =
     (let route_entries = concat (map (route_entry outgoing incoming node_id) routes)
      in if route_entries = [] then None else Some route_entries)"

section \<open>Routes of a topology\<close>

text \<open>\<open>ShortestPath::compute_route\<close> panics when there is no path.\<close>

definition compute_route :: "(edges \<Rightarrow> nat \<Rightarrow> nat \<Rightarrow> nat list option) \<Rightarrow> edges \<Rightarrow> nat \<Rightarrow> nat \<Rightarrow> nat list may_panic" where
  "compute_route astar edges start end_node = astar edges start end_node"

fun route_pairs ::
    "(edges \<Rightarrow> nat \<Rightarrow> nat \<Rightarrow> nat list option) \<Rightarrow> edges \<Rightarrow> (nat \<times> nat) list \<Rightarrow> (nat \<times> nat \<times> edges) list may_panic" where
  "route_pairs astar edges [] = Some []"
| "route_pairs astar edges ((src, dst) # pairs) =
     (if src = dst then route_pairs astar edges pairs
      else case compute_route astar edges src dst of
        None \<Rightarrow> None
      | Some path \<Rightarrow>
          map_option (\<lambda>routes. if 2 \<le> length path then (src, dst, zip path (tl path)) # routes else routes)
            (route_pairs astar edges pairs))"

definition build_routes_from_topology ::
    "(edges \<Rightarrow> nat \<Rightarrow> nat \<Rightarrow> nat list option) \<Rightarrow> edges \<Rightarrow> bool \<Rightarrow> (nat \<times> nat \<times> edges) list may_panic" where
  "build_routes_from_topology astar edges has_protocol =
     (if \<not> has_protocol then Some []
      else let bidirectional_edges = concat (map (\<lambda>(a, b). [(a, b), (b, a)]) edges);
               node_ids = sorted_list_of_set (nodes_of bidirectional_edges)
           in route_pairs astar bidirectional_edges (List.product node_ids node_ids))"

section \<open>Multicast groups\<close>

record GroupRouteTree =
  gt_tree_id :: nat
  gt_edges :: edges

datatype TreeError =
    TreeExceedsStride nat
  | GroupOverflows nat
  | RouteIdOverflows
  | RouteIdTooLarge nat
  | DuplicateTree nat nat

definition compute_multitree_route_id :: "nat \<Rightarrow> nat \<Rightarrow> TreeError + nat" where
  "compute_multitree_route_id group_id tree_id =
     (if MULTITREE_STRIDE \<le> tree_id then Inl (TreeExceedsStride tree_id)
      else case checked_mul group_id MULTITREE_STRIDE of
        None \<Rightarrow> Inl (GroupOverflows group_id)
      | Some base \<Rightarrow>
          (case checked_add base tree_id of
             None \<Rightarrow> Inl RouteIdOverflows
           | Some route_id \<Rightarrow>
               if MULTICAST_ROUTE_FLAG \<le> route_id then Inl (RouteIdTooLarge route_id) else Inr route_id))"

fun check_trees :: "nat \<Rightarrow> nat option \<Rightarrow> GroupRouteTree list \<Rightarrow> TreeError option" where
  "check_trees group_id previous [] = None"
| "check_trees group_id previous (tree # trees) =
     (if previous = Some (gt_tree_id tree) then Some (DuplicateTree (gt_tree_id tree) group_id)
      else case compute_multitree_route_id group_id (gt_tree_id tree) of
        Inl e \<Rightarrow> Some e
      | Inr _ \<Rightarrow> check_trees group_id (Some (gt_tree_id tree)) trees)"

definition canonicalize_group_route_trees :: "nat \<Rightarrow> GroupRouteTree list \<Rightarrow> TreeError + GroupRouteTree list" where
  "canonicalize_group_route_trees group_id trees =
     (let ordered = sort_key gt_tree_id trees
      in case check_trees group_id None ordered of Some e \<Rightarrow> Inl e | None \<Rightarrow> Inr ordered)"

definition build_group_routes_for_node_with_route_id ::
    "(edges \<Rightarrow> nat \<Rightarrow> nat list) \<Rightarrow> nat \<Rightarrow> nat \<Rightarrow> nat \<Rightarrow> edges \<Rightarrow> nat \<Rightarrow> nat set \<Rightarrow> GroupRoutingTableEntry option" where
  "build_group_routes_for_node_with_route_id outgoing group_id route_id src_node_id dag_edges node_id member_node_ids =
     (if dag_edges = [] \<and> node_id \<notin> member_node_ids then None
      else let next_hops = (if node_id \<in> nodes_of dag_edges then outgoing dag_edges node_id else []);
               next_hops = (if node_id \<in> member_node_ids then next_hops @ [node_id] else next_hops)
           in if next_hops = [] then None
              else Some \<lparr>ge_route_id = route_id, ge_next_hops = next_hops, ge_src_node_id = src_node_id,
                ge_group_id = group_id\<rparr>)"

fun group_entries ::
    "(edges \<Rightarrow> nat \<Rightarrow> nat list) \<Rightarrow> nat \<Rightarrow> nat \<Rightarrow> GroupRouteTree list \<Rightarrow> nat \<Rightarrow> nat set \<Rightarrow>
     TreeError + GroupRoutingTableEntry list" where
  "group_entries outgoing group_id src_node_id [] node_id member_node_ids = Inr []"
| "group_entries outgoing group_id src_node_id (tree # trees) node_id member_node_ids =
     (case compute_multitree_route_id group_id (gt_tree_id tree) of
        Inl e \<Rightarrow> Inl e
      | Inr route_id \<Rightarrow>
          (case group_entries outgoing group_id src_node_id trees node_id member_node_ids of
             Inl e \<Rightarrow> Inl e
           | Inr routes \<Rightarrow>
               (case build_group_routes_for_node_with_route_id outgoing group_id route_id src_node_id (gt_edges tree)
                       node_id member_node_ids of
                  None \<Rightarrow> Inr routes
                | Some route \<Rightarrow> Inr (route # routes))))"

definition build_group_routes_for_node_multitree ::
    "(edges \<Rightarrow> nat \<Rightarrow> nat list) \<Rightarrow> nat \<Rightarrow> nat \<Rightarrow> GroupRouteTree list \<Rightarrow> nat \<Rightarrow> nat set \<Rightarrow>
     TreeError + GroupRoutingTableEntry list" where
  "build_group_routes_for_node_multitree outgoing group_id src_node_id trees node_id member_node_ids =
     (case canonicalize_group_route_trees group_id trees of
        Inl e \<Rightarrow> Inl e
      | Inr trees \<Rightarrow> group_entries outgoing group_id src_node_id trees node_id member_node_ids)"

definition allocate_multicast_ip :: "u32 \<Rightarrow> u32 \<Rightarrow> u32 \<Rightarrow> u32" where
  "allocate_multicast_ip base_addr mask_addr ordinal =
     (let network = base_addr AND mask_addr;
          host_mask = NOT mask_addr
      in if host_mask = 0 then base_addr
         else network OR ((if ordinal = 0 then 0 else ordinal - 1) AND host_mask))"

section \<open>The search ends with the reachable nodes\<close>

text \<open>Edges whose source the search has not visited.\<close>

definition unvisited :: "edges \<Rightarrow> nat list \<Rightarrow> nat" where
  "unvisited edges reachable = length (filter (\<lambda>(a, b). a \<notin> set reachable) edges)"

lemma unvisited_Cons:
  "n \<notin> set reachable \<Longrightarrow> unvisited edges (n # reachable) + length (targets edges n) = unvisited edges reachable"
  by (induction edges) (auto simp: unvisited_def targets_def)

context digraph
begin

lemma set_outgoing [simp]: "set (outgoing edges n) = {m. (n, m) \<in> set edges}"
proof -
  have "set (outgoing edges n) = set (targets edges n)" using outgoing_edges by (metis set_mset_mset)
  then show ?thesis by (force simp: targets_def)
qed

lemma set_incoming [simp]: "set (incoming edges n) = {m. (m, n) \<in> set edges}"
proof -
  have "set (incoming edges n) = set (sources edges n)" using incoming_edges by (metis set_mset_mset)
  then show ?thesis by (force simp: sources_def)
qed

lemma length_outgoing: "length (outgoing edges n) = length (targets edges n)"
  using outgoing_edges by (metis size_mset)

lemma no_outgoing_iff: "outgoing edges n = [] \<longleftrightarrow> (\<forall>m. (n, m) \<notin> set edges)"
  unfolding set_empty [symmetric] set_outgoing by simp

lemma no_incoming_iff: "incoming edges n = [] \<longleftrightarrow> (\<forall>m. (m, n) \<notin> set edges)"
  unfolding set_empty [symmetric] set_incoming by simp

lemma is_sink_iff: "is_sink outgoing incoming edges n \<longleftrightarrow> (\<forall>m. (n, m) \<notin> set edges) \<and> (\<exists>m. (m, n) \<in> set edges)"
  by (simp add: is_sink_def no_outgoing_iff no_incoming_iff)

text \<open>Every turn takes a node off the stack and every edge puts its target on it once.\<close>

lemma reach_loop_total:
  "length stack + unvisited edges reachable \<le> turns \<Longrightarrow> \<exists>r. reach_loop outgoing edges turns reachable stack = Some r"
proof (induction turns arbitrary: reachable stack)
  case 0
  then show ?case by simp
next
  case (Suc turns)
  show ?case
  proof (cases stack)
    case Nil
    then show ?thesis by simp
  next
    case (Cons node rest)
    show ?thesis
    proof (cases "node \<in> set reachable")
      case True
      then show ?thesis using Suc.IH [of rest reachable] Suc.prems by (simp add: Cons)
    next
      case False
      have "length (rev (outgoing edges node) @ rest) + unvisited edges (node # reachable) \<le> turns"
        using unvisited_Cons [OF False, of edges] length_outgoing [of edges node] Suc.prems by (simp add: Cons)
      then show ?thesis using Suc.IH [of "rev (outgoing edges node) @ rest" "node # reachable"] False by (simp add: Cons)
    qed
  qed
qed

text \<open>The search visits each node once, only reachable ones, and what it visits is closed under the edges.\<close>

lemma reach_loop_distinct:
  "reach_loop outgoing edges turns reachable stack = Some r \<Longrightarrow> distinct reachable \<Longrightarrow> distinct r"
proof (induction turns arbitrary: reachable stack)
  case 0
  then show ?case by (cases stack) simp_all
next
  case (Suc turns)
  then show ?case by (cases stack) (auto split: if_splits)
qed

lemma reach_loop_sound:
  assumes "reach_loop outgoing edges turns reachable stack = Some r"
    and "\<forall>a\<in>set reachable \<union> set stack. (src, a) \<in> (set edges)\<^sup>*"
  shows "\<forall>a\<in>set r. (src, a) \<in> (set edges)\<^sup>*"
  using assms
proof (induction turns arbitrary: reachable stack)
  case 0
  then show ?case by (cases stack) simp_all
next
  case (Suc turns)
  show ?case
  proof (cases stack)
    case Nil
    then show ?thesis using Suc.prems by simp
  next
    case (Cons node rest)
    show ?thesis
    proof (cases "node \<in> set reachable")
      case True
      then show ?thesis using Suc.IH [of reachable rest] Suc.prems by (simp add: Cons)
    next
      case False
      have "(src, b) \<in> (set edges)\<^sup>*" if "(node, b) \<in> set edges" for b
        using Suc.prems that by (auto simp: Cons intro: rtrancl_into_rtrancl)
      then show ?thesis
        using Suc.IH [of "node # reachable" "rev (outgoing edges node) @ rest"] Suc.prems False by (auto simp: Cons)
    qed
  qed
qed

lemma reach_loop_closed:
  assumes "reach_loop outgoing edges turns reachable stack = Some r"
    and "\<forall>(a, b)\<in>set edges. a \<in> set reachable \<longrightarrow> b \<in> set reachable \<union> set stack"
  shows "set reachable \<union> set stack \<subseteq> set r \<and> (\<forall>(a, b)\<in>set edges. a \<in> set r \<longrightarrow> b \<in> set r)"
  using assms
proof (induction turns arbitrary: reachable stack)
  case 0
  then show ?case by (cases stack) auto
next
  case (Suc turns)
  show ?case
  proof (cases stack)
    case Nil
    then show ?thesis using Suc.prems by auto
  next
    case (Cons node rest)
    show ?thesis
    proof (cases "node \<in> set reachable")
      case True
      have "set reachable \<union> set rest \<subseteq> set r \<and> (\<forall>(a, b)\<in>set edges. a \<in> set r \<longrightarrow> b \<in> set r)"
        using Suc.IH [of reachable rest] Suc.prems True by (fastforce simp: Cons)
      then show ?thesis using True by (auto simp: Cons)
    next
      case False
      have "set (node # reachable) \<union> set (rev (outgoing edges node) @ rest) \<subseteq> set r
          \<and> (\<forall>(a, b)\<in>set edges. a \<in> set r \<longrightarrow> b \<in> set r)"
        using Suc.IH [of "node # reachable" "rev (outgoing edges node) @ rest"] Suc.prems False by (fastforce simp: Cons)
      then show ?thesis by (auto simp: Cons)
    qed
  qed
qed

lemma reach_loop_exact:
  obtains r where "reach_loop outgoing edges (Suc (length edges)) [] [src] = Some r"
    and "distinct r" and "set r = {n. (src, n) \<in> (set edges)\<^sup>*}"
proof -
  have "length [src] + unvisited edges [] \<le> Suc (length edges)" by (simp add: unvisited_def)
  then obtain r where r: "reach_loop outgoing edges (Suc (length edges)) [] [src] = Some r"
    using reach_loop_total by blast
  have src: "src \<in> set r" and closed: "\<And>a b. (a, b) \<in> set edges \<Longrightarrow> a \<in> set r \<Longrightarrow> b \<in> set r"
    using reach_loop_closed [OF r] by auto
  have "n \<in> set r" if "(src, n) \<in> (set edges)\<^sup>*" for n
    using that by (induction rule: rtrancl_induct) (use src closed in auto)
  moreover have "(src, n) \<in> (set edges)\<^sup>*" if "n \<in> set r" for n
    using reach_loop_sound [OF r, of src] that by simp
  ultimately show ?thesis using that [OF r] reach_loop_distinct [OF r] by auto
qed

end

section \<open>Next hops on a route\<close>

lemma set_push_new_fold [simp]: "set (fold push_new hops next_hops) = set next_hops \<union> set hops"
  by (induction hops arbitrary: next_hops) (auto simp: push_new_def)

lemma distinct_push_new_fold: "distinct next_hops \<Longrightarrow> distinct (fold push_new hops next_hops)"
  by (induction hops arbitrary: next_hops) (auto simp: push_new_def)

lemma targets_Cons: "targets ((a, b) # edges) n = (if a = n then b # targets edges n else targets edges n)"
  by (simp add: targets_def)

lemma sources_Cons: "sources ((a, b) # edges) n = (if b = n then a # sources edges n else sources edges n)"
  by (simp add: sources_def)

text \<open>A path visits each node once: a node's only successor is the next one, the last node is the sink.\<close>

abbreviation path_edges :: "nat list \<Rightarrow> edges" where
  "path_edges p \<equiv> zip p (tl p)"

lemma nodes_of_path: "2 \<le> length p \<Longrightarrow> nodes_of (path_edges p) = set p"
proof (induction p rule: induct_list012)
  case (3 a b p)
  then show ?case by (cases p) (auto simp: nodes_of_def)
qed simp_all

lemma targets_outside: "n \<notin> set p \<Longrightarrow> targets (path_edges p) n = []"
  by (auto simp: targets_def filter_empty_conv dest: set_zip_leftD)

lemma targets_path: "distinct p \<Longrightarrow> Suc i < length p \<Longrightarrow> targets (path_edges p) (p ! i) = [p ! Suc i]"
proof (induction p arbitrary: i rule: induct_list012)
  case (3 a b p)
  show ?case
  proof (cases i)
    case 0
    then show ?thesis using 3 targets_outside [of a "b # p"] by (simp add: targets_Cons)
  next
    case (Suc j)
    have "(b # p) ! j \<in> set (b # p)" using "3.prems" Suc by (intro nth_mem) simp
    then have "a \<noteq> (b # p) ! j" using "3.prems"(1) by (metis distinct.simps(2))
    moreover have "targets (path_edges (b # p)) ((b # p) ! j) = [(b # p) ! Suc j]"
      using "3.IH"(2) [of j] "3.prems" Suc by simp
    ultimately show ?thesis using Suc by (simp add: targets_Cons)
  qed
qed simp_all

lemma targets_last: "distinct p \<Longrightarrow> p \<noteq> [] \<Longrightarrow> targets (path_edges p) (last p) = []"
proof (induction p rule: induct_list012)
  case (3 a b p)
  have "a \<noteq> last (b # p)" using 3 by (metis distinct.simps(2) last_in_set list.discI)
  then show ?case using 3 by (simp add: targets_Cons)
qed (simp_all add: targets_def)

lemma last_has_source: "2 \<le> length p \<Longrightarrow> sources (path_edges p) (last p) \<noteq> []"
proof (induction p rule: induct_list012)
  case (3 a b p)
  then show ?case by (cases p) (simp_all add: sources_Cons)
qed simp_all

context digraph
begin

lemma outgoing_single: "targets edges n = [m] \<Longrightarrow> outgoing edges n = [m]"
  using outgoing_edges [of edges n] by simp

lemma outgoing_none: "targets edges n = [] \<Longrightarrow> outgoing edges n = []"
  using outgoing_edges [of edges n] by simp

lemma incoming_some: "sources edges n \<noteq> [] \<Longrightarrow> incoming edges n \<noteq> []"
  using incoming_edges [of edges n] by force

lemma path_next_hops:
  assumes "distinct p" "2 \<le> length p" "i < length p"
  shows "route_next_hops outgoing incoming (path_edges p) (p ! i) = [if Suc i < length p then p ! Suc i else p ! i]"
proof (cases "Suc i < length p")
  case True
  then show ?thesis using assms outgoing_single [OF targets_path [OF assms(1) True]]
    by (simp add: route_next_hops_def nodes_of_path push_new_def Let_def)
next
  case False
  then have "i = length p - 1" and p: "p \<noteq> []" using assms(2,3) by auto
  then have last: "p ! i = last p" using p by (simp add: last_conv_nth)
  have none: "outgoing (path_edges p) (last p) = []" by (rule outgoing_none [OF targets_last [OF assms(1) p]])
  have "incoming (path_edges p) (last p) \<noteq> []" by (rule incoming_some [OF last_has_source [OF assms(2)]])
  moreover have "last p \<in> set p" using p by simp
  ultimately show ?thesis using False none assms(2)
    by (simp add: last route_next_hops_def nodes_of_path is_sink_def Let_def)
qed

lemma outside_next_hops: "2 \<le> length p \<Longrightarrow> n \<notin> set p \<Longrightarrow> route_next_hops outgoing incoming (path_edges p) n = [INVALID]"
  by (simp add: route_next_hops_def nodes_of_path Let_def)

end

section \<open>Routes with several destinations\<close>

text \<open>C27. \<open>route_has_multiple_destinations\<close> ends, and is true exactly when at least two nodes without
  successors can be reached from the source over the edges of the route.\<close>

theorem multiple_destinations_exact:
  assumes "digraph outgoing incoming"
  shows "route_has_multiple_destinations outgoing incoming (Suc (length (ro_edges route))) route =
    Some (2 \<le> card {n. (ro_src_node_id route, n) \<in> (set (ro_edges route))\<^sup>+ \<and> (\<forall>m. (n, m) \<notin> set (ro_edges route))})"
proof -
  let ?E = "set (ro_edges route)" and ?src = "ro_src_node_id route"
  let ?ends = "{n. (?src, n) \<in> ?E\<^sup>+ \<and> (\<forall>m. (n, m) \<notin> ?E)}"
  obtain r where loop: "reach_loop outgoing (ro_edges route) (Suc (length (ro_edges route))) [] [?src] = Some r"
      and r: "distinct r" "set r = {n. (?src, n) \<in> ?E\<^sup>*}"
    using digraph.reach_loop_exact [OF assms] by metis
  let ?sinks = "filter (is_sink outgoing incoming (ro_edges route)) r"
  have sinks: "set ?sinks = {n. (?src, n) \<in> ?E\<^sup>* \<and> (\<forall>m. (n, m) \<notin> ?E) \<and> (\<exists>m. (m, n) \<in> ?E)}"
    by (auto simp: r digraph.is_sink_iff [OF assms])
  show ?thesis
  proof (cases "?src \<in> Domain ?E")
    case True
    then have "?ends = set ?sinks" unfolding sinks
      by (auto simp: rtrancl_eq_or_trancl dest: tranclD2)
    moreover have "card (set ?sinks) = length ?sinks" using r(1) by (intro distinct_card distinct_filter)
    ultimately have "card ?ends = length ?sinks" by (simp only:)
    then show ?thesis using True loop by (force simp: route_has_multiple_destinations_def nodes_of_def)
  next
    case False
    then have ends: "?ends = {}" by (auto dest: tranclD)
    have "(?src, n) \<in> ?E\<^sup>* \<Longrightarrow> n = ?src" for n using False by (auto elim: converse_rtranclE)
    then have "set ?sinks \<subseteq> {?src}" unfolding sinks by blast
    then have "length ?sinks \<le> 1" 
      using card_mono [of "{?src}" "set ?sinks"] distinct_card [OF distinct_filter [OF r(1)], of "is_sink outgoing incoming (ro_edges route)"]
      by simp
    then show ?thesis using loop by (simp add: ends route_has_multiple_destinations_def)
  qed
qed

section \<open>The entries of the nodes on a path\<close>

definition route_path :: "Route \<Rightarrow> nat list \<Rightarrow> bool" where
  "route_path route p \<longleftrightarrow> distinct p \<and> 2 \<le> length p \<and> ro_edges route = path_edges p \<and>
     hd p = ro_src_node_id route \<and> last p = ro_dst_node_id route \<and> INVALID \<notin> set p"

definition path_hop :: "Route \<Rightarrow> nat \<Rightarrow> nat" where
  "path_hop route n = (case targets (ro_edges route) n of [] \<Rightarrow> n | m # _ \<Rightarrow> m)"

definition path_entry :: "nat \<Rightarrow> Route \<Rightarrow> RoutingTableEntry" where
  "path_entry n route = \<lparr>re_route_id = ro_route_id route, re_next_hops = [path_hop route n],
     re_src_node_id = ro_src_node_id route, re_dst_node_id = ro_dst_node_id route\<rparr>"

lemma path_hop_nth:
  assumes "route_path route p" "i < length p"
  shows "path_hop route (p ! i) = (if Suc i < length p then p ! Suc i else p ! i)"
proof (cases "Suc i < length p")
  case True
  then show ?thesis using assms by (simp add: path_hop_def route_path_def targets_path)
next
  case False
  then have "i = length p - 1" and p: "p \<noteq> []" using assms(2) by auto
  then have last: "p ! i = last p" by (simp add: last_conv_nth)
  have "targets (path_edges p) (last p) = []" using assms(1) by (intro targets_last p) (simp add: route_path_def)
  moreover have "ro_edges route = path_edges p" using assms(1) by (simp add: route_path_def)
  ultimately show ?thesis using False by (simp add: last path_hop_def)
qed

lemma path_hops:
  assumes "digraph outgoing incoming" "route_path route p"
  shows "route_next_hops outgoing incoming (ro_edges route) n = [if n \<in> nodes_of (ro_edges route) then path_hop route n else INVALID]"
proof (cases "n \<in> set p")
  case True
  then obtain i where i: "i < length p" "n = p ! i" by (metis in_set_conv_nth)
  have "n \<in> nodes_of (ro_edges route)" using True assms(2) by (simp add: route_path_def nodes_of_path)
  then show ?thesis using digraph.path_next_hops [OF assms(1), of p i] path_hop_nth [OF assms(2) i(1)] assms(2) i
    by (simp add: route_path_def)
next
  case False
  then show ?thesis using digraph.outside_next_hops [OF assms(1), of p n] assms(2) by (simp add: route_path_def nodes_of_path)
qed

lemma path_hop_valid:
  assumes "route_path route p" "n \<in> nodes_of (ro_edges route)"
  shows "path_hop route n \<noteq> INVALID"
proof -
  have "n \<in> set p" using assms by (simp add: route_path_def nodes_of_path)
  then obtain i where i: "i < length p" "n = p ! i" by (metis in_set_conv_nth)
  have "path_hop route n \<in> set p" using path_hop_nth [OF assms(1) i(1)] i by auto
  then show ?thesis using assms(1) by (auto simp: route_path_def)
qed

text \<open>The entries a node is given: one for each route it is on.\<close>

definition node_entries ::
    "(edges \<Rightarrow> nat \<Rightarrow> nat list) \<Rightarrow> (edges \<Rightarrow> nat \<Rightarrow> nat list) \<Rightarrow> Route list \<Rightarrow> nat \<Rightarrow> RoutingTableEntry list" where
  "node_entries outgoing incoming routes n =
     (case build_routes_for_node outgoing incoming routes n of None \<Rightarrow> [] | Some entries \<Rightarrow> map fst entries)"

lemma node_entries_paths:
  assumes "digraph outgoing incoming" "\<forall>route \<in> set routes. \<exists>p. route_path route p"
  shows "node_entries outgoing incoming routes n = map (path_entry n) (filter (\<lambda>route. n \<in> nodes_of (ro_edges route)) routes)"
proof -
  have entries: "node_entries outgoing incoming routes n = concat (map (map fst \<circ> route_entry outgoing incoming n) routes)" for routes
    by (simp add: node_entries_def build_routes_for_node_def Let_def map_concat comp_def)
  show ?thesis unfolding entries using assms(2)
  proof (induction routes)
    case (Cons route routes)
    then obtain p where p: "route_path route p" by auto
    have "map fst (route_entry outgoing incoming n route) = (if n \<in> nodes_of (ro_edges route) then [path_entry n route] else [])"
      using path_hops [OF assms(1) p, of n] path_hop_valid [OF p, of n] by (simp add: route_entry_def path_entry_def)
    then show ?case using Cons by simp
  qed simp
qed

text \<open>After a node has installed its entries, it sends a flow from \<open>s\<close> to \<open>d\<close> along one of the routes
  between them that it is on, and knows no route when it is on none.\<close>

definition on_route :: "nat \<Rightarrow> nat \<Rightarrow> nat \<Rightarrow> Route \<Rightarrow> bool" where
  "on_route n s d route \<longleftrightarrow> ro_src_node_id route = s \<and> ro_dst_node_id route = d \<and> n \<in> nodes_of (ro_edges route)"

lemma node_lookup:
  assumes graph: "digraph outgoing incoming" and paths: "\<forall>route \<in> set routes. \<exists>p. route_path route p"
    and ids: "distinct (map ro_route_id routes)" "length routes < 2 ^ 32"
    and slot: "slot_ok slot" and order: "set order = dom (rt_available_routes rt)"
    and flow: "key_for_flow rt flow_id None = Some (Unicast s d)"
    and new: "new = install_routes order (node_entries outgoing incoming routes n) rt"
  shows "if \<exists>route \<in> set routes. on_route n s d route
    then \<exists>route \<in> set routes. on_route n s d route \<and> (\<exists>reports new'.
      get_next_hops_by_flow_and_tree slot order' flow_id None has_reporter new = Some (Inr [path_hop route n], reports, new'))
    else get_next_hops_by_flow_and_tree slot order' flow_id None has_reporter new = Some (Inl NoRouteIds, [], new)"
proof -
  let ?on = "filter (\<lambda>route. n \<in> nodes_of (ro_edges route)) routes"
  let ?rs = "map (path_entry n) ?on"
  have rs: "node_entries outgoing incoming routes n = ?rs" by (rule node_entries_paths [OF graph paths])
  have "map re_route_id ?rs = map ro_route_id ?on" by (simp add: path_entry_def)
  then have distinct: "distinct (map re_route_id ?rs)"
    using distinct_map_filter [OF ids(1), of "\<lambda>route. n \<in> nodes_of (ro_edges route)"] by (simp only:)
  have "length ?rs < 2 ^ 32" using ids(2) by (simp add: le_less_trans [OF length_filter_le])
  from installed_lookup [OF slot order distinct this flow new [unfolded rs], of order' has_reporter]
  obtain reports new' where look: "if routes_between s d ?rs = []
    then get_next_hops_by_flow_and_tree slot order' flow_id None has_reporter new = Some (Inl NoRouteIds, [], new)
    else \<exists>r \<in> set ?rs. re_src_node_id r = s \<and> re_dst_node_id r = d \<and>
      get_next_hops_by_flow_and_tree slot order' flow_id None has_reporter new =
        Some (if INVALID \<in> set (re_next_hops r) then Inl (InvalidRoute (re_route_id r)) else Inr (re_next_hops r),
          reports, new') \<and> rt_cache new' flow_id = Some (re_route_id r)" by blast
  have some: "routes_between s d ?rs \<noteq> [] \<longleftrightarrow> (\<exists>route \<in> set routes. on_route n s d route)"
    by (auto simp: routes_between_def on_route_def path_entry_def filter_empty_conv)
  show ?thesis
  proof (cases "\<exists>route \<in> set routes. on_route n s d route")
    case True
    then have "routes_between s d ?rs \<noteq> []" using some by simp
    then obtain r where r: "r \<in> set ?rs" "re_src_node_id r = s" "re_dst_node_id r = d"
      and hops: "get_next_hops_by_flow_and_tree slot order' flow_id None has_reporter new =
        Some (if INVALID \<in> set (re_next_hops r) then Inl (InvalidRoute (re_route_id r)) else Inr (re_next_hops r), reports, new')"
      using look unfolding if_not_P [OF \<open>routes_between s d ?rs \<noteq> []\<close>] by blast
    from r(1) obtain route where route: "route \<in> set routes" "n \<in> nodes_of (ro_edges route)" "r = path_entry n route" by auto
    then obtain p where "route_path route p" using paths by blast
    then have "path_hop route n \<noteq> INVALID" using route(2) by (rule path_hop_valid)
    then show ?thesis using True route r(2,3) hops by (auto simp: on_route_def path_entry_def intro!: bexI [of _ route])
  next
    case False
    then show ?thesis using look some by simp
  qed
qed

section \<open>Routes over a whole topology\<close>

text \<open>A walk along edges, and what a shortest-path search promises.\<close>

definition is_walk :: "edges \<Rightarrow> nat \<Rightarrow> nat \<Rightarrow> nat list \<Rightarrow> bool" where
  "is_walk edges s t p \<longleftrightarrow> p \<noteq> [] \<and> hd p = s \<and> last p = t \<and> successively (\<lambda>a b. (a, b) \<in> set edges) p"

definition astar_ok :: "(edges \<Rightarrow> nat \<Rightarrow> nat \<Rightarrow> nat list option) \<Rightarrow> edges \<Rightarrow> bool" where
  "astar_ok astar edges \<longleftrightarrow> (\<forall>s \<in> nodes_of edges. \<forall>t \<in> nodes_of edges.
     case astar edges s t of
       None \<Rightarrow> (s, t) \<notin> (set edges)\<^sup>*
     | Some p \<Rightarrow> is_walk edges s t p \<and> (\<forall>q. is_walk edges s t q \<longrightarrow> length p \<le> length q))"

lemma set_path_edges: "set (path_edges p) \<subseteq> E \<longleftrightarrow> successively (\<lambda>a b. (a, b) \<in> E) p"
  by (induction p rule: induct_list012) auto

lemma walk_reaches: "successively (\<lambda>a b. (a, b) \<in> E) p \<Longrightarrow> p \<noteq> [] \<Longrightarrow> (hd p, last p) \<in> E\<^sup>*"
  by (induction p rule: induct_list012) (auto intro: converse_rtrancl_into_rtrancl)

text \<open>A shortest walk visits no node twice: the part between two visits could be left out.\<close>

lemma shortest_distinct:
  assumes "is_walk edges s t p" "\<forall>q. is_walk edges s t q \<longrightarrow> length p \<le> length q"
  shows "distinct p"
proof (rule ccontr)
  assume "\<not> distinct p"
  then obtain xs y ys zs where p: "p = xs @ [y] @ ys @ [y] @ zs" using not_distinct_decomp by blast
  have "is_walk edges s t (xs @ [y] @ zs)"
    using assms(1) unfolding is_walk_def p
    by (cases xs; cases zs rule: rev_cases) (auto simp: successively_append_iff successively_Cons hd_append split: if_splits)
  then show False using assms(2) by (auto simp: p)
qed

abbreviation both_ways :: "edges \<Rightarrow> edges" where
  "both_ways edges \<equiv> concat (map (\<lambda>(a, b). [(a, b), (b, a)]) edges)"

abbreviation ordered_nodes :: "edges \<Rightarrow> nat list" where
  "ordered_nodes edges \<equiv> sorted_list_of_set (nodes_of edges)"

lemma finite_nodes_of [simp]: "finite (nodes_of edges)"
  by (simp add: nodes_of_def)

definition route_ok :: "edges \<Rightarrow> nat \<times> nat \<times> edges \<Rightarrow> bool" where
  "route_ok edges route \<longleftrightarrow> (case route of (s, d, es) \<Rightarrow>
     \<exists>p. es = path_edges p \<and> distinct p \<and> 2 \<le> length p \<and> is_walk edges s d p \<and>
       (\<forall>q. is_walk edges s d q \<longrightarrow> length p \<le> length q))"

lemma route_pairs_ok:
  assumes "astar_ok astar edges" "set pairs \<subseteq> nodes_of edges \<times> nodes_of edges"
  shows "case route_pairs astar edges pairs of
      None \<Rightarrow> \<exists>(s, t) \<in> set pairs. (s, t) \<notin> (set edges)\<^sup>*
    | Some routes \<Rightarrow> (\<forall>(s, t) \<in> set pairs. (s, t) \<in> (set edges)\<^sup>*) \<and>
        map (\<lambda>(s, t, _). (s, t)) routes = filter (\<lambda>(s, t). s \<noteq> t) pairs \<and> (\<forall>route \<in> set routes. route_ok edges route)"
  using assms(2)
proof (induction pairs)
  case (Cons pair pairs)
  obtain s t where pair: "pair = (s, t)" by (cases pair)
  have IH: "case route_pairs astar edges pairs of
      None \<Rightarrow> \<exists>(s, t) \<in> set pairs. (s, t) \<notin> (set edges)\<^sup>*
    | Some routes \<Rightarrow> (\<forall>(s, t) \<in> set pairs. (s, t) \<in> (set edges)\<^sup>*) \<and>
        map (\<lambda>(s, t, _). (s, t)) routes = filter (\<lambda>(s, t). s \<noteq> t) pairs \<and> (\<forall>route \<in> set routes. route_ok edges route)"
    using Cons by simp
  have nodes: "s \<in> nodes_of edges" "t \<in> nodes_of edges" using Cons.prems by (simp_all add: pair)
  show ?case
  proof (cases "s = t")
    case True
    then show ?thesis using IH by (auto simp: pair split: option.splits)
  next
    case False
    show ?thesis
    proof (cases "astar edges s t")
      case None
      then have "(s, t) \<notin> (set edges)\<^sup>*" using assms(1) nodes unfolding astar_ok_def by fastforce
      then show ?thesis using False None by (simp add: pair compute_route_def)
    next
      case (Some p)
      then have walk: "is_walk edges s t p" and short: "\<forall>q. is_walk edges s t q \<longrightarrow> length p \<le> length q"
        using assms(1) nodes unfolding astar_ok_def by fastforce+
      have len: "2 \<le> length p" using walk False by (cases p; cases "tl p") (auto simp: is_walk_def)
      have reach: "(s, t) \<in> (set edges)\<^sup>*" using walk_reaches walk by (auto simp: is_walk_def)
      have ok: "route_ok edges (s, t, path_edges p)"
        using walk short len shortest_distinct [OF walk short] by (auto simp: route_ok_def)
      show ?thesis using IH False Some len reach ok
        by (cases "route_pairs astar edges pairs") (auto simp: pair compute_route_def)
    qed
  qed
qed simp

text \<open>C25. Routes over a topology: with a search that finds shortest paths, either every node reaches every
  other one and there is exactly one route for each ordered pair of distinct nodes, in the order of
  the node ids, along a shortest path over edges of the topology taken either way, that visits no
  node twice; or some node does not reach another one and the computation panics.\<close>

theorem topology_routes_exact:
  assumes "astar_ok astar (both_ways edges)"
  shows "case build_routes_from_topology astar edges True of
      None \<Rightarrow> \<exists>s \<in> nodes_of (both_ways edges). \<exists>t \<in> nodes_of (both_ways edges). (s, t) \<notin> (set (both_ways edges))\<^sup>*
    | Some routes \<Rightarrow>
        (\<forall>s \<in> nodes_of (both_ways edges). \<forall>t \<in> nodes_of (both_ways edges). (s, t) \<in> (set (both_ways edges))\<^sup>*) \<and>
        map (\<lambda>(s, t, _). (s, t)) routes =
          filter (\<lambda>(s, t). s \<noteq> t) (List.product (ordered_nodes (both_ways edges)) (ordered_nodes (both_ways edges))) \<and>
        (\<forall>route \<in> set routes. route_ok (both_ways edges) route)"
  using route_pairs_ok [OF assms, of "List.product (ordered_nodes (both_ways edges)) (ordered_nodes (both_ways edges))"]
  by (fastforce simp: build_routes_from_topology_def Let_def split: option.splits)

section \<open>Multicast routes\<close>

lemma route_id_bounds:
  "compute_multitree_route_id group_id tree_id = Inr route_id \<Longrightarrow>
     route_id = group_id * MULTITREE_STRIDE + tree_id \<and> tree_id < MULTITREE_STRIDE \<and> route_id < MULTICAST_ROUTE_FLAG"
  by (auto simp: compute_multitree_route_id_def checked_mul_def checked_add_def split: if_splits)

lemma check_trees_ok:
  assumes "check_trees group_id previous trees = None" "sorted (map gt_tree_id trees)"
    "\<forall>tree \<in> set trees. \<forall>t. previous = Some t \<longrightarrow> t \<le> gt_tree_id tree"
  shows "distinct (map gt_tree_id trees) \<and> (\<forall>tree \<in> set trees. previous \<noteq> Some (gt_tree_id tree) \<and>
    (\<exists>route_id. compute_multitree_route_id group_id (gt_tree_id tree) = Inr route_id))"
  using assms
proof (induction trees arbitrary: previous)
  case (Cons tree trees)
  have ne: "previous \<noteq> Some (gt_tree_id tree)" and id: "\<exists>route_id. compute_multitree_route_id group_id (gt_tree_id tree) = Inr route_id"
    and rest: "check_trees group_id (Some (gt_tree_id tree)) trees = None"
    using Cons.prems(1) by (auto split: if_splits sum.splits)
  have sorted: "sorted (map gt_tree_id trees)" "\<forall>t \<in> set trees. gt_tree_id tree \<le> gt_tree_id t" using Cons.prems(2) by simp_all
  have IH: "distinct (map gt_tree_id trees)" "\<forall>t \<in> set trees. gt_tree_id t \<noteq> gt_tree_id tree \<and>
      (\<exists>route_id. compute_multitree_route_id group_id (gt_tree_id t) = Inr route_id)"
    using Cons.IH [OF rest sorted(1)] sorted(2) by auto
  have "previous \<noteq> Some (gt_tree_id t)" if "t \<in> set trees" for t
    using Cons.prems(3) ne sorted(2) IH(2) that by (metis le_antisym list.set_intros(1))
  then show ?case using ne id IH by auto
qed simp

text \<open>The entry of a node for a tree, if it has one, and the next hops.\<close>

abbreviation tree_hops :: "(edges \<Rightarrow> nat \<Rightarrow> nat list) \<Rightarrow> nat \<Rightarrow> nat set \<Rightarrow> edges \<Rightarrow> nat list" where
  "tree_hops outgoing n members es \<equiv> outgoing es n @ (if n \<in> members then [n] else [])"

lemma group_entries_exact:
  assumes "digraph outgoing incoming"
    "\<forall>tree \<in> set trees. \<exists>route_id. compute_multitree_route_id group_id (gt_tree_id tree) = Inr route_id"
  shows "group_entries outgoing group_id src trees n members = Inr (map
    (\<lambda>tree. \<lparr>ge_route_id = group_id * MULTITREE_STRIDE + gt_tree_id tree,
       ge_next_hops = tree_hops outgoing n members (gt_edges tree), ge_src_node_id = src, ge_group_id = group_id\<rparr>)
    (filter (\<lambda>tree. tree_hops outgoing n members (gt_edges tree) \<noteq> []) trees))"
  using assms(2)
proof (induction trees)
  case (Cons tree trees)
  obtain route_id where id: "compute_multitree_route_id group_id (gt_tree_id tree) = Inr route_id" using Cons.prems by auto
  have "n \<notin> nodes_of (gt_edges tree) \<Longrightarrow> outgoing (gt_edges tree) n = []"
    unfolding digraph.no_outgoing_iff [OF assms(1)] by (force simp: nodes_of_def)
  then show ?case using Cons id route_id_bounds [OF id]
    by (auto simp: build_group_routes_for_node_with_route_id_def nodes_of_def)
qed simp

lemma route_id_exists:
  assumes "tree_id < MULTITREE_STRIDE" "group_id * MULTITREE_STRIDE + tree_id < MULTICAST_ROUTE_FLAG"
  shows "compute_multitree_route_id group_id tree_id = Inr (group_id * MULTITREE_STRIDE + tree_id)"
  using assms by (simp add: compute_multitree_route_id_def checked_mul_def checked_add_def MULTICAST_ROUTE_FLAG_def)

lemma check_trees_none:
  assumes "distinct (map gt_tree_id trees)" "\<forall>tree \<in> set trees. previous \<noteq> Some (gt_tree_id tree) \<and>
    gt_tree_id tree < MULTITREE_STRIDE \<and> group_id * MULTITREE_STRIDE + gt_tree_id tree < MULTICAST_ROUTE_FLAG"
  shows "check_trees group_id previous trees = None"
  using assms by (induction trees arbitrary: previous) (auto simp: route_id_exists image_iff)

lemma distinct_map_sort_key: "distinct (map f (sort_key f xs)) = distinct (map f xs)"
proof -
  have "mset (map f (sort_key f xs)) = mset (map f xs)" by simp
  then show ?thesis using mset_eq_imp_distinct_iff by blast
qed

definition trees_ok :: "nat \<Rightarrow> GroupRouteTree list \<Rightarrow> bool" where
  "trees_ok group_id trees \<longleftrightarrow> distinct (map gt_tree_id trees) \<and>
     (\<forall>tree \<in> set trees. gt_tree_id tree < MULTITREE_STRIDE \<and>
        group_id * MULTITREE_STRIDE + gt_tree_id tree < MULTICAST_ROUTE_FLAG)"

lemma canonicalize_exact:
  "trees_ok group_id trees \<Longrightarrow> canonicalize_group_route_trees group_id trees = Inr (sort_key gt_tree_id trees)"
  "\<not> trees_ok group_id trees \<Longrightarrow> \<exists>e. canonicalize_group_route_trees group_id trees = Inl e"
proof -
  let ?ordered = "sort_key gt_tree_id trees"
  have "check_trees group_id None ?ordered = None" if "trees_ok group_id trees"
    using that by (intro check_trees_none) (auto simp: trees_ok_def distinct_map_sort_key)
  then show "trees_ok group_id trees \<Longrightarrow> canonicalize_group_route_trees group_id trees = Inr ?ordered"
    by (simp add: canonicalize_group_route_trees_def)
  have "trees_ok group_id trees" if "check_trees group_id None ?ordered = None"
  proof -
    from check_trees_ok [OF that]
    have "distinct (map gt_tree_id trees)" "\<forall>tree \<in> set trees. \<exists>route_id.
        compute_multitree_route_id group_id (gt_tree_id tree) = Inr route_id"
      by (simp_all add: distinct_map_sort_key)
    then show ?thesis by (force simp: trees_ok_def dest: route_id_bounds)
  qed
  then show "\<not> trees_ok group_id trees \<Longrightarrow> \<exists>e. canonicalize_group_route_trees group_id trees = Inl e"
    by (fastforce simp: canonicalize_group_route_trees_def Let_def split: option.split)
qed

lemma group_ids_exist:
  "trees_ok g trees \<Longrightarrow>
     \<forall>tree \<in> set (sort_key gt_tree_id trees). \<exists>route_id. compute_multitree_route_id g (gt_tree_id tree) = Inr route_id"
  using route_id_exists unfolding trees_ok_def by (metis set_sort)

text \<open>C26. A group update from the controller to a node: it is refused exactly when two trees have the same
  id or a route id leaves the namespace; otherwise, once the node has installed it, a packet of the
  group's source that names a tree on which the node has something to do is sent to the node's
  successors in this tree and, if the node is a member, to the node itself.\<close>

theorem group_update_installed:
  assumes graph: "digraph outgoing incoming" and ids: "INVALID \<notin> nodes_of (gt_edges tree)" "n \<noteq> INVALID"
    and tree: "tree \<in> set trees" "tree_hops outgoing n members (gt_edges tree) \<noteq> []"
    and flow: "key_for_flow rt flow_id (Some (word_of_nat (gt_tree_id tree))) =
      Some (Multicast s g (word_of_nat (gt_tree_id tree)))"
  shows "case build_group_routes_for_node_multitree outgoing g s trees n members of
      Inl e \<Rightarrow> \<not> trees_ok g trees
    | Inr routes \<Rightarrow> trees_ok g trees \<and> (\<exists>reports rt'.
        get_next_hops_by_flow_and_tree slot order' flow_id (Some (word_of_nat (gt_tree_id tree))) has_reporter
          (install_group_routes order g s routes rt) =
        Some (Inr (tree_hops outgoing n members (gt_edges tree)), reports, rt'))"
proof (cases "trees_ok g trees")
  case False
  then show ?thesis
    using canonicalize_exact(2) [OF False] by (auto simp: build_group_routes_for_node_multitree_def)
next
  case True
  let ?entry = "\<lambda>tree. \<lparr>ge_route_id = g * MULTITREE_STRIDE + gt_tree_id tree,
    ge_next_hops = tree_hops outgoing n members (gt_edges tree), ge_src_node_id = s, ge_group_id = g\<rparr>"
  let ?on = "filter (\<lambda>tree. tree_hops outgoing n members (gt_edges tree) \<noteq> []) (sort_key gt_tree_id trees)"
  have build: "build_group_routes_for_node_multitree outgoing g s trees n members = Inr (map ?entry ?on)"
    using canonicalize_exact(1) [OF True] group_ids_exist [OF True]
    by (simp add: build_group_routes_for_node_multitree_def group_entries_exact [OF graph])
  have fits: "gt_tree_id tree < 2 ^ 16" "g * MULTITREE_STRIDE + gt_tree_id tree < MULTICAST_ROUTE_FLAG"
    using True tree(1) by (simp_all add: trees_ok_def MULTITREE_STRIDE_def)
  have word: "unat (word_of_nat (gt_tree_id tree) :: u16) = gt_tree_id tree"
    using fits(1) by (intro unat_of_nat_small) simp
  have "set (outgoing (gt_edges tree) n) \<subseteq> nodes_of (gt_edges tree)"
    unfolding digraph.set_outgoing [OF graph] by (force simp: nodes_of_def)
  then have valid: "INVALID \<notin> set (tree_hops outgoing n members (gt_edges tree))" using ids by auto
  have "distinct (map gt_tree_id ?on)"
    using True by (intro distinct_map_filter) (simp add: trees_ok_def distinct_map_sort_key)
  then have distinct: "distinct (map ge_route_id (map ?entry ?on))"
    by (auto simp: distinct_map inj_on_def)
  have "\<exists>reports rt'. get_next_hops_by_flow_and_tree slot order' flow_id (Some (word_of_nat (gt_tree_id tree))) has_reporter
      (install_group_routes order g s (map ?entry ?on) rt) = Some (Inr (ge_next_hops (?entry tree)), reports, rt')"
    by (rule group_routes_used [OF _ distinct _ _ _ flow]) (use tree fits word valid in auto)
  then show ?thesis using True by (simp add: build)
qed

section \<open>A network\<close>

text \<open>Three nodes in a line, a route that forks at node 2, and the trees of a group.\<close>

definition example_fork :: Route where
  "example_fork = \<lparr>ro_route_id = 7, ro_src_node_id = 1, ro_dst_node_id = 3, ro_edges = [(1, 2), (2, 3), (2, 4)]\<rparr>"

definition example_direct :: Route where
  "example_direct = \<lparr>ro_route_id = 4, ro_src_node_id = 1, ro_dst_node_id = 2, ro_edges = [(1, 2)]\<rparr>"

lemma example_direct_path: "route_path example_direct [1, 2]"
  by (simp add: route_path_def example_direct_def INVALID_def)

definition example_astar :: "edges \<Rightarrow> nat \<Rightarrow> nat \<Rightarrow> nat list option" where
  "example_astar edges s t =
     (if s = t then Some [s] else if s = 2 \<or> t = 2 then Some [s, t] else Some [s, 2, t])"

definition example_trees :: "GroupRouteTree list" where
  "example_trees = [\<lparr>gt_tree_id = 1, gt_edges = [(1, 2), (2, 3), (2, 4)]\<rparr>, \<lparr>gt_tree_id = 0, gt_edges = [(1, 3)]\<rparr>]"

lemma multiple_destinations_exact_witness:
  "route_has_multiple_destinations targets sources (Suc (length (ro_edges example_fork))) example_fork =
     Some (2 \<le> card {n. (ro_src_node_id example_fork, n) \<in> (set (ro_edges example_fork))\<^sup>+ \<and>
       (\<forall>m. (n, m) \<notin> set (ro_edges example_fork))}) \<and>
   route_has_multiple_destinations targets sources 4 example_fork = Some True"
proof
  show "route_has_multiple_destinations targets sources (Suc (length (ro_edges example_fork))) example_fork =
     Some (2 \<le> card {n. (ro_src_node_id example_fork, n) \<in> (set (ro_edges example_fork))\<^sup>+ \<and>
       (\<forall>m. (n, m) \<notin> set (ro_edges example_fork))})"
    by (rule multiple_destinations_exact [OF edge_lists.digraph_axioms])
  show "route_has_multiple_destinations targets sources 4 example_fork = Some True" by code_simp
qed

lemma example_astar_ok: "astar_ok example_astar (both_ways [(1, 2), (2, 3)])"
proof -
  let ?B = "both_ways [(1, 2), (2, 3)]"
  have longer: "3 \<le> length q" if "is_walk ?B s t q" "s \<noteq> t" "s \<noteq> 2" "t \<noteq> 2" for s t q
    using that by (cases q; cases "tl q"; cases "tl (tl q)") (auto simp: is_walk_def)
  have two: "2 \<le> length q" if "is_walk ?B s t q" "s \<noteq> t" for s t q
    using that by (cases q; cases "tl q") (auto simp: is_walk_def)
  have one: "1 \<le> length q" if "is_walk ?B s t q" for s t q
    using that by (cases q) (auto simp: is_walk_def)
  have short: "length p \<le> length q" if "is_walk ?B s t q" "example_astar ?B s t = Some p" for s t p q
    using that(2) one [OF that(1)] two [OF that(1)] longer [OF that(1)]
    by (auto simp: example_astar_def simp del: concat.simps list.map split: if_splits)
  have nodes: "nodes_of ?B = {1, 2, 3}" by (auto simp: nodes_of_def)
  have ex: "\<exists>p. example_astar ?B s t = Some p \<and> is_walk ?B s t p" if "s \<in> {1, 2, 3}" "t \<in> {1, 2, 3}" for s t
    using that by (auto simp: example_astar_def is_walk_def)
  have "case example_astar ?B s t of None \<Rightarrow> (s, t) \<notin> (set ?B)\<^sup>*
      | Some p \<Rightarrow> is_walk ?B s t p \<and> (\<forall>q. is_walk ?B s t q \<longrightarrow> length p \<le> length q)"
    if st: "s \<in> nodes_of ?B" "t \<in> nodes_of ?B" for s t
  proof -
    obtain p where p: "example_astar ?B s t = Some p" "is_walk ?B s t p" using ex [OF st [unfolded nodes]] by blast
    have "length p \<le> length q" if "is_walk ?B s t q" for q by (rule short [OF that p(1)])
    then show ?thesis using p(2) unfolding p(1) option.case by blast
  qed
  then show ?thesis unfolding astar_ok_def by blast
qed

lemma topology_routes_exact_witness:
  "build_routes_from_topology example_astar [(1, 2), (2, 3)] True = Some
     [(1, 2, [(1, 2)]), (1, 3, [(1, 2), (2, 3)]), (2, 1, [(2, 1)]), (2, 3, [(2, 3)]), (3, 1, [(3, 2), (2, 1)]), (3, 2, [(3, 2)])]
   \<and> (1, 3) \<in> (set (both_ways [(1, 2), (2, 3)]))\<^sup>*"
proof -
  have nodes: "nodes_of (both_ways [(1, 2), (2, 3)]) = {1, 2, 3}" by (auto simp: nodes_of_def)
  have "build_routes_from_topology example_astar [(1, 2), (2, 3)] True = Some
     [(1, 2, [(1, 2)]), (1, 3, [(1, 2), (2, 3)]), (2, 1, [(2, 1)]), (2, 3, [(2, 3)]), (3, 1, [(3, 2), (2, 1)]), (3, 2, [(3, 2)])]"
    using nodes by (simp add: build_routes_from_topology_def Let_def compute_route_def example_astar_def)
  with topology_routes_exact [OF example_astar_ok] nodes show ?thesis by (simp del: concat.simps list.map)
qed

lemma group_update_installed_witness:
  "case build_group_routes_for_node_multitree targets 1 1 example_trees 1 {1} of
      Inl e \<Rightarrow> \<not> trees_ok 1 example_trees
    | Inr routes \<Rightarrow> trees_ok 1 example_trees \<and> (\<exists>reports rt'.
        get_next_hops_by_flow_and_tree slot_0 [] flow_1_group (Some 0) True
          (install_group_routes [] 1 1 routes example_table) = Some (Inr [3, 1], reports, rt'))"
proof -
  let ?tree = "\<lparr>gt_tree_id = 0, gt_edges = [(1, 3)]\<rparr>"
  have hops: "tree_hops targets 1 {1} (gt_edges ?tree) = [3, 1]" by (simp add: targets_def)
  have tree: "?tree \<in> set example_trees" and ids: "INVALID \<notin> nodes_of (gt_edges ?tree)" "(1 :: nat) \<noteq> INVALID"
    by (simp_all add: example_trees_def nodes_of_def INVALID_def)
  have key: "key_for_flow example_table flow_1_group (Some (word_of_nat (gt_tree_id ?tree))) =
      Some (Multicast 1 1 (word_of_nat (gt_tree_id ?tree)))"
    using example_keys(2) by simp
  have on: "tree_hops targets 1 {1} (gt_edges ?tree) \<noteq> []" unfolding hops by simp
  have zero: "word_of_nat (gt_tree_id ?tree) = (0 :: u16)" by simp
  show ?thesis
    using group_update_installed [OF edge_lists.digraph_axioms ids tree on key, of slot_0 "[]" True "[]"]
    unfolding hops zero .
qed

end
