(* ===== verification/Topology.thy ===== *)
theory Topology
  imports Controller_Routes
begin

text \<open>
  The topologies the controller builds (\<open>src/controller/src/topology/\<close>, \<open>Topology::compute_node_count\<close> of
  \<open>config.rs\<close>).  Node ids are \<open>u32\<close> values, given as natural numbers; \<open>w32\<close> is the wrap-around of the
  arithmetic, which only sizes of \<open>2 ^ 32\<close> nodes and more meet.  The lemmas of each builder give its node
  ids and show that it is connected, the property gives the routes the controller computes for it.
\<close>

abbreviation w32 :: "nat \<Rightarrow> nat" where
  "w32 n \<equiv> n mod 2 ^ 32"

datatype TopologyError =
    InvalidConfig
  | UnsupportedDimension nat
  | NumericOverflow

section \<open>Builders\<close>

definition full_mesh_build :: "nat \<Rightarrow> TopologyError + edges" where
  "full_mesh_build n_nodes =
     (let n_nodes = w32 n_nodes
      in Inr (concat (map (\<lambda>src. map (Pair src) [Suc src..<Suc n_nodes]) [1..<Suc n_nodes])))"

definition ring_build :: "nat \<Rightarrow> TopologyError + edges" where
  "ring_build n_nodes =
     Inr (map (\<lambda>i. (w32 i, if i = n_nodes then 1 else w32 (i + 1))) [1..<Suc n_nodes])"

definition fat_tree_validate_params :: "nat \<Rightarrow> TopologyError + unit" where
  "fat_tree_validate_params k = (if k mod 2 \<noteq> 0 then Inl InvalidConfig else if k = 0 then Inl InvalidConfig else Inr ())"

definition fat_tree_calculate_params :: "nat \<Rightarrow> nat \<times> nat \<times> nat" where
  "fat_tree_calculate_params k =
     (let num_layer_switches = w32 (k ^ 2) div 2;
          layer_switches_per_pod = k div 2;
          num_core_switches = w32 (k ^ 2) div 4;
          core_switches_per_agg = num_core_switches div layer_switches_per_pod
      in (num_layer_switches, layer_switches_per_pod, core_switches_per_agg))"

definition build_edge_to_aggregation_connections :: "nat \<Rightarrow> nat \<Rightarrow> edges" where
  "build_edge_to_aggregation_connections num_layer_switches layer_switches_per_pod =
     concat (map (\<lambda>edge_id.
       let pod_id = edge_id div layer_switches_per_pod;
           agg_start = w32 (num_layer_switches + pod_id * layer_switches_per_pod)
       in map (\<lambda>agg_id. (edge_id + 1, agg_id + 1)) [agg_start..<w32 (agg_start + layer_switches_per_pod)])
     [0..<num_layer_switches])"

definition build_aggregation_to_core_connections :: "nat \<Rightarrow> nat \<Rightarrow> nat \<Rightarrow> edges" where
  "build_aggregation_to_core_connections num_layer_switches layer_switches_per_pod core_switches_per_agg =
     concat (map (\<lambda>agg_id.
       let core_group = agg_id mod layer_switches_per_pod;
           core_start = w32 (2 * num_layer_switches + core_group * core_switches_per_agg)
       in map (\<lambda>core_id. (agg_id + 1, core_id + 1)) [core_start..<w32 (core_start + core_switches_per_agg)])
     [num_layer_switches..<w32 (2 * num_layer_switches)])"

definition fat_tree_build :: "nat \<Rightarrow> TopologyError + edges" where
  "fat_tree_build k =
     (if 2 ^ 32 \<le> k then Inl NumericOverflow
      else case fat_tree_validate_params k of
        Inl e \<Rightarrow> Inl e
      | Inr _ \<Rightarrow>
          let (num_layer_switches, layer_switches_per_pod, core_switches_per_agg) = fat_tree_calculate_params k
          in Inr (build_edge_to_aggregation_connections num_layer_switches layer_switches_per_pod @
                  build_aggregation_to_core_connections num_layer_switches layer_switches_per_pod core_switches_per_agg))"

definition torus_validate_params :: "nat \<Rightarrow> nat \<Rightarrow> TopologyError + unit" where
  "torus_validate_params dimension nodes_per_dim =
     (if \<not> (1 \<le> dimension \<and> dimension \<le> 3) then Inl (UnsupportedDimension dimension)
      else if nodes_per_dim = 0 then Inl InvalidConfig else Inr ())"

definition build_1d_torus_edges :: "nat \<Rightarrow> edges" where
  "build_1d_torus_edges n = map (\<lambda>i. (i, (i + 1) mod n)) [0..<n]"

definition build_2d_torus_edges :: "nat \<Rightarrow> edges" where
  "build_2d_torus_edges n =
     concat (map (\<lambda>i. concat (map (\<lambda>j.
       let current = w32 (i + j * n);
           next_i = w32 ((i + 1) mod n + j * n);
           next_j = w32 (i + ((j + 1) mod n) * n)
       in [(current, next_i), (current, next_j)]) [0..<n])) [0..<n])"

definition build_3d_torus_edges :: "nat \<Rightarrow> edges" where
  "build_3d_torus_edges n =
     concat (map (\<lambda>i. concat (map (\<lambda>j. concat (map (\<lambda>k.
       let current = w32 (i + j * n + k * n ^ 2);
           next_i = w32 ((i + 1) mod n + j * n + k * n ^ 2);
           next_j = w32 (i + ((j + 1) mod n) * n + k * n ^ 2);
           next_k = w32 (i + j * n + ((k + 1) mod n) * n ^ 2)
       in [(current, next_i), (current, next_j), (current, next_k)]) [0..<n])) [0..<n])) [0..<n])"

text \<open>\<open>add_edge\<close> of petgraph panics when an end is not a node of the graph.\<close>

definition torus_build_edges :: "nat \<Rightarrow> nat \<Rightarrow> (TopologyError + edges) may_panic" where
  "torus_build_edges dimension nodes_per_dim =
     (let total_nodes = w32 (nodes_per_dim ^ dimension);
          added = (if dimension = 1 then Some (build_1d_torus_edges nodes_per_dim)
                   else if dimension = 2 then Some (build_2d_torus_edges nodes_per_dim)
                   else if dimension = 3 then Some (build_3d_torus_edges nodes_per_dim)
                   else None)
      in case added of
           None \<Rightarrow> Some (Inl (UnsupportedDimension dimension))
         | Some added \<Rightarrow>
             if \<forall>(a, b) \<in> set added. a < total_nodes \<and> b < total_nodes
             then Some (Inr (map (\<lambda>(a, b). (a + 1, b + 1)) added)) else None)"

definition torus_build :: "nat \<Rightarrow> nat \<Rightarrow> (TopologyError + edges) may_panic" where
  "torus_build dim n =
     (let dimension = w32 dim;
          nodes_per_dim = w32 n
      in case torus_validate_params dimension nodes_per_dim of
           Inl e \<Rightarrow> Some (Inl e)
         | Inr _ \<Rightarrow> torus_build_edges dimension nodes_per_dim)"

section \<open>The topology of a configuration\<close>

datatype PresetTopology = FullMesh | FatTree | Torus | Ring

record TopologyConfig =
  tc_topology_type :: "PresetTopology option"
  tc_n_nodes :: "nat option"
  tc_full_mesh_config :: "nat option"
  tc_fat_tree_config :: "nat option"
  tc_torus_config :: "(nat \<times> nat) option"
  tc_ring_config :: "nat option"
  tc_edges :: "edges option"

definition compute_node_count :: "TopologyConfig \<Rightarrow> nat option" where
  "compute_node_count t =
     (case tc_topology_type t of
        Some FullMesh \<Rightarrow> tc_full_mesh_config t
      | Some FatTree \<Rightarrow> map_option (\<lambda>k. (k * k * k) div 4 + (5 * k * k) div 4) (tc_fat_tree_config t)
      | Some Torus \<Rightarrow> map_option (\<lambda>(dim, n). n ^ w32 dim) (tc_torus_config t)
      | Some Ring \<Rightarrow> tc_ring_config t
      | None \<Rightarrow> tc_n_nodes t)"

text \<open>The edges of the preset: \<open>None\<close> when its configuration is missing.\<close>

definition preset_build :: "TopologyConfig \<Rightarrow> PresetTopology \<Rightarrow> (TopologyError + edges) option may_panic" where
  "preset_build t preset =
     (case preset of
        FullMesh \<Rightarrow> Some (map_option full_mesh_build (tc_full_mesh_config t))
      | FatTree \<Rightarrow> Some (map_option fat_tree_build (tc_fat_tree_config t))
      | Torus \<Rightarrow>
          (case tc_torus_config t of
             None \<Rightarrow> Some None
           | Some (dim, n) \<Rightarrow> map_option Some (torus_build dim n))
      | Ring \<Rightarrow> Some (map_option ring_build (tc_ring_config t)))"

definition normal_edge :: "nat \<times> nat \<Rightarrow> nat \<times> nat" where
  "normal_edge = (\<lambda>(a, b). if a \<le> b then (a, b) else (b, a))"

text \<open>The edges as a set, without the order the hash set lists them in.\<close>

definition build_topology :: "TopologyConfig \<Rightarrow> (nat \<times> nat) set option may_panic" where
  "build_topology t =
     (let finish = (\<lambda>preset_edges.
            let edge_set = normal_edge ` set preset_edges;
                edge_set = (case tc_edges t of
                  Some custom_edges \<Rightarrow> edge_set \<union> normal_edge ` set custom_edges | None \<Rightarrow> edge_set)
            in if edge_set = {} then None else Some edge_set)
      in case tc_topology_type t of
           None \<Rightarrow> Some (finish [])
         | Some preset \<Rightarrow>
             (case preset_build t preset of
                None \<Rightarrow> None
              | Some None \<Rightarrow> Some None
              | Some (Some built) \<Rightarrow> Some (finish (case built of Inr preset_edges \<Rightarrow> preset_edges | Inl _ \<Rightarrow> []))))"

section \<open>Connected topologies\<close>

text \<open>\<open>spans E n\<close>: the nodes are \<open>1\<close> to \<open>n\<close> and every one is linked to node \<open>1\<close>.\<close>

definition spans :: "(nat \<times> nat) set \<Rightarrow> nat \<Rightarrow> bool" where
  "spans E n \<longleftrightarrow> fst ` E \<union> snd ` E = {1..n} \<and> (\<forall>v \<in> {1..n}. (1, v) \<in> (E \<union> E\<inverse>)\<^sup>*)"

lemma linked_sym: "(a, b) \<in> (E \<union> E\<inverse>)\<^sup>* \<Longrightarrow> (b, a) \<in> (E \<union> E\<inverse>)\<^sup>*"
  by (meson sym_Un_converse sym_rtrancl symE)

lemma linked_edge: "(a, b) \<in> E \<Longrightarrow> (a, b) \<in> (E \<union> E\<inverse>)\<^sup>*" "(b, a) \<in> E \<Longrightarrow> (a, b) \<in> (E \<union> E\<inverse>)\<^sup>*"
  by blast+

lemma spans_connected: "spans E n \<Longrightarrow> s \<in> {1..n} \<Longrightarrow> t \<in> {1..n} \<Longrightarrow> (s, t) \<in> (E \<union> E\<inverse>)\<^sup>*"
  unfolding spans_def by (meson linked_sym rtrancl_trans)

lemma linked_chain:
  assumes "\<And>i. Suc i < n \<Longrightarrow> (f i, f (Suc i)) \<in> E" "i < n"
  shows "(f 0, f i) \<in> (E \<union> E\<inverse>)\<^sup>*"
  using assms(2) by (induction i) (auto intro: rtrancl_trans linked_edge assms(1))

lemma spansI:
  assumes "fst ` E \<subseteq> {1..n}" "snd ` E \<subseteq> {1..n}" "\<And>v. v \<in> {1..n} \<Longrightarrow> (1, v) \<in> (E \<union> E\<inverse>)\<^sup>*" "2 \<le> n"
  shows "spans E n"
proof -
  have "v \<in> fst ` E \<union> snd ` E" if v: "v \<in> {1..n}" for v
  proof -
    obtain u where u: "u \<in> {1..n}" "u \<noteq> v" using v assms(4) by (metis atLeastAtMost_iff le_refl one_le_numeral order_trans Suc_1 n_not_Suc_n)
    have "(u, v) \<in> (E \<union> E\<inverse>)\<^sup>*" using assms(3) u v by (meson linked_sym rtrancl_trans)
    then show ?thesis using u(2) by (cases rule: rtranclE) force+
  qed
  then show ?thesis using assms unfolding spans_def by blast
qed

lemma set_both_ways: "set (both_ways edges) = set edges \<union> (set edges)\<inverse>"
  by auto

lemma full_mesh_spans:
  assumes "2 \<le> n" "n < 2 ^ 32" "full_mesh_build n = Inr edges"
  shows "spans (set edges) n"
proof (rule spansI)
  have E: "set edges = {(a, b). 1 \<le> a \<and> a < b \<and> b \<le> n}" 
    using assms(2,3) by (auto simp: full_mesh_build_def image_iff simp del: upt_Suc)
  then show "fst ` set edges \<subseteq> {1..n}" "snd ` set edges \<subseteq> {1..n}" by auto
  show "(1, v) \<in> (set edges \<union> (set edges)\<inverse>)\<^sup>*" if "v \<in> {1..n}" for v
    using that E by (cases "v = 1") (auto intro!: linked_edge(1))
qed (fact assms(1))

lemma ring_spans:
  assumes "2 \<le> n" "n < 2 ^ 32" "ring_build n = Inr edges"
  shows "spans (set edges) n"
proof (rule spansI)
  have E: "set edges = (\<lambda>i. (i, if i = n then 1 else i + 1)) ` {1..n}"
    using assms(2,3) by (auto simp: ring_build_def image_iff simp del: upt_Suc)
  then show "fst ` set edges \<subseteq> {1..n}" "snd ` set edges \<subseteq> {1..n}" using assms(1) by auto
  show "(1, v) \<in> (set edges \<union> (set edges)\<inverse>)\<^sup>*" if "v \<in> {1..n}" for v
  proof -
    have "(Suc i, Suc (Suc i)) \<in> set edges" if "Suc i < n" for i using that by (auto simp: E image_iff)
    moreover have "v - 1 < n" "Suc (v - 1) = v" using that by auto
    ultimately show ?thesis using linked_chain [of n Suc "set edges" "v - 1"] by simp
  qed
qed (fact assms(1))

text \<open>Places in a torus: in each dimension a chain runs from place \<open>0\<close> to the others.\<close>

lemma place2: "i < n \<Longrightarrow> j < n \<Longrightarrow> i + j * n < n ^ 2" for i j n :: nat
proof -
  assume "i < n" "j < n"
  then have "i + j * n < n + j * n" "Suc j * n \<le> n * n" by (simp, intro mult_le_mono1, simp)
  then show ?thesis by (simp add: power2_eq_square)
qed

lemma place3: "i < n \<Longrightarrow> j < n \<Longrightarrow> k < n \<Longrightarrow> i + j * n + k * n ^ 2 < n ^ 3" for i j k n :: nat
proof -
  assume "i < n" "j < n" "k < n"
  then have "i + j * n + k * n ^ 2 < n ^ 2 + k * n ^ 2" "Suc k * n ^ 2 \<le> n * n ^ 2"
    by (simp add: place2, intro mult_le_mono1, simp)
  then show ?thesis by (simp add: power3_eq_cube power2_eq_square)
qed

lemma torus_1d:
  assumes "2 \<le> n" "n < 2 ^ 32"
  shows "\<exists>edges. torus_build_edges 1 n = Some (Inr edges) \<and> spans (set edges) n"
proof -
  let ?edges = "map (\<lambda>(a, b). (a + 1, b + 1)) (build_1d_torus_edges n)"
  have E: "set ?edges = (\<lambda>i. (i + 1, (i + 1) mod n + 1)) ` {..<n}"
    by (auto simp: build_1d_torus_edges_def image_iff)
  have build: "torus_build_edges 1 n = Some (Inr ?edges)"
    using assms by (auto simp: torus_build_edges_def build_1d_torus_edges_def)
  have "spans (set ?edges) n"
  proof (rule spansI)
    show "fst ` set ?edges \<subseteq> {1..n}" "snd ` set ?edges \<subseteq> {1..n}"
      unfolding E using assms(1) by (auto simp: Suc_le_eq)
    show "(1, v) \<in> (set ?edges \<union> (set ?edges)\<inverse>)\<^sup>*" if "v \<in> {1..n}" for v
      using linked_chain [of n Suc "set ?edges" "v - 1"] that unfolding E by (fastforce simp: image_iff)
  qed (fact assms(1))
  then show ?thesis using build by blast
qed

lemma torus_2d:
  assumes "2 \<le> n" "n ^ 2 < 2 ^ 32"
  shows "\<exists>edges. torus_build_edges 2 n = Some (Inr edges) \<and> spans (set edges) (n ^ 2)"
proof -
  let ?edges = "map (\<lambda>(a, b). (a + 1, b + 1)) (build_2d_torus_edges n)" and ?p = "\<lambda>i j. i + j * n"
  have fits: "?p i j mod 4294967296 = ?p i j" if "i < n" "j < n" for i j
    using place2 [OF that] assms(2) by simp
  have step: "Suc i mod n < n" for i using assms(1) by simp
  have added: "set (build_2d_torus_edges n) =
    (\<Union>i \<in> {..<n}. \<Union>j \<in> {..<n}. {(?p i j, ?p ((i + 1) mod n) j), (?p i j, ?p i ((j + 1) mod n))})"
    unfolding build_2d_torus_edges_def Let_def set_concat set_map image_image set_upt
    by (simp add: lessThan_atLeast0 fits step cong: SUP_cong_simp)
  have inside: "\<forall>(a, b) \<in> set (build_2d_torus_edges n). a < n ^ 2 \<and> b < n ^ 2"
    unfolding added using place2 step by auto
  have build: "torus_build_edges 2 n = Some (Inr ?edges)"
    using assms(2) inside by (simp add: torus_build_edges_def)
  have across: "(?p i j + 1, ?p (Suc i) j + 1) \<in> set ?edges" if "Suc i < n" "j < n" for i j
    using that by (force simp: added)
  have up: "(?p i j + 1, ?p i (Suc j) + 1) \<in> set ?edges" if "i < n" "Suc j < n" for i j
    using that by (force simp: added)
  have "spans (set ?edges) (n ^ 2)"
  proof (rule spansI)
    show "fst ` set ?edges \<subseteq> {1..n ^ 2}" "snd ` set ?edges \<subseteq> {1..n ^ 2}"
      using inside by (auto simp: Suc_le_eq)
    show "(1, v) \<in> (set ?edges \<union> (set ?edges)\<inverse>)\<^sup>*" if v: "v \<in> {1..n ^ 2}" for v
    proof -
      let ?i = "(v - 1) mod n" and ?j = "(v - 1) div n"
      have ij: "?i < n" "?j < n"
        using v assms(1) by (auto simp: power2_eq_square less_mult_imp_div_less)
      have "(?p 0 0 + 1, ?p ?i 0 + 1) \<in> (set ?edges \<union> (set ?edges)\<inverse>)\<^sup>*"
        by (rule linked_chain [of n "\<lambda>i. ?p i 0 + 1"]) (use across [of _ 0] ij in auto)
      also have "(?p ?i 0 + 1, ?p ?i ?j + 1) \<in> (set ?edges \<union> (set ?edges)\<inverse>)\<^sup>*"
        by (rule linked_chain [of n "\<lambda>j. ?p ?i j + 1"]) (use up [of ?i] ij in auto)
      also have "?p ?i ?j + 1 = v" using v by (simp add: mod_div_mult_eq)
      finally show ?thesis by simp
    qed
  qed (use assms(1) power_increasing [of 1 2 n] in simp)
  then show ?thesis using build by blast
qed

lemma torus_3d:
  assumes "2 \<le> n" "n ^ 3 < 2 ^ 32"
  shows "\<exists>edges. torus_build_edges 3 n = Some (Inr edges) \<and> spans (set edges) (n ^ 3)"
proof -
  let ?edges = "map (\<lambda>(a, b). (a + 1, b + 1)) (build_3d_torus_edges n)" and ?p = "\<lambda>i j k. i + j * n + k * n ^ 2"
  have fits: "?p i j k mod 4294967296 = ?p i j k" if "i < n" "j < n" "k < n" for i j k
    using place3 [OF that] assms(2) by simp
  have step: "Suc i mod n < n" for i using assms(1) by simp
  have added: "set (build_3d_torus_edges n) = (\<Union>i \<in> {..<n}. \<Union>j \<in> {..<n}. \<Union>k \<in> {..<n}.
      {(?p i j k, ?p ((i + 1) mod n) j k), (?p i j k, ?p i ((j + 1) mod n) k), (?p i j k, ?p i j ((k + 1) mod n))})"
    unfolding build_3d_torus_edges_def Let_def set_concat set_map image_image set_upt
    by (simp add: lessThan_atLeast0 fits step cong: SUP_cong_simp)
  have inside: "\<forall>(a, b) \<in> set (build_3d_torus_edges n). a < n ^ 3 \<and> b < n ^ 3"
    unfolding added using place3 step by auto
  have build: "torus_build_edges 3 n = Some (Inr ?edges)"
    using assms(2) inside by (simp add: torus_build_edges_def)
  have x: "(?p i j k + 1, ?p (Suc i) j k + 1) \<in> set ?edges" if "Suc i < n" "j < n" "k < n" for i j k
    using that by (force simp: added)
  have y: "(?p i j k + 1, ?p i (Suc j) k + 1) \<in> set ?edges" if "i < n" "Suc j < n" "k < n" for i j k
    using that by (force simp: added)
  have z: "(?p i j k + 1, ?p i j (Suc k) + 1) \<in> set ?edges" if "i < n" "j < n" "Suc k < n" for i j k
    using that by (force simp: added)
  have "spans (set ?edges) (n ^ 3)"
  proof (rule spansI)
    show "fst ` set ?edges \<subseteq> {1..n ^ 3}" "snd ` set ?edges \<subseteq> {1..n ^ 3}"
      using inside by (auto simp: Suc_le_eq)
    show "(1, v) \<in> (set ?edges \<union> (set ?edges)\<inverse>)\<^sup>*" if v: "v \<in> {1..n ^ 3}" for v
    proof -
      let ?i = "((v - 1) mod n ^ 2) mod n" and ?j = "((v - 1) mod n ^ 2) div n" and ?k = "(v - 1) div n ^ 2"
      have "(v - 1) mod n ^ 2 < n * n" using assms(1) by (simp add: power2_eq_square)
      moreover have "v - 1 < n * n ^ 2" using v by (simp add: power3_eq_cube power2_eq_square) linarith
      ultimately have ijk: "?i < n" "?j < n" "?k < n"
        using assms(1) by (auto simp: less_mult_imp_div_less)
      have "(?p 0 0 0 + 1, ?p ?i 0 0 + 1) \<in> (set ?edges \<union> (set ?edges)\<inverse>)\<^sup>*"
        by (rule linked_chain [of n "\<lambda>i. ?p i 0 0 + 1"]) (use x [of _ 0 0] ijk in auto)
      also have "(?p ?i 0 0 + 1, ?p ?i ?j 0 + 1) \<in> (set ?edges \<union> (set ?edges)\<inverse>)\<^sup>*"
        by (rule linked_chain [of n "\<lambda>j. ?p ?i j 0 + 1"]) (use y [of ?i _ 0] ijk in auto)
      also have "(?p ?i ?j 0 + 1, ?p ?i ?j ?k + 1) \<in> (set ?edges \<union> (set ?edges)\<inverse>)\<^sup>*"
        by (rule linked_chain [of n "\<lambda>k. ?p ?i ?j k + 1"]) (use z [of ?i ?j] ijk in auto)
      also have "?p ?i ?j ?k + 1 = v" using v by (simp add: mod_div_mult_eq mod_mult_div_eq)
      finally show ?thesis by simp
    qed
  qed (use assms(1) power_increasing [of 1 3 n] in simp)
  then show ?thesis using build by blast
qed

text \<open>A fat tree of size \<open>k = 2 * h\<close>: \<open>2 * h ^ 2\<close> edge switches, as many aggregation switches and \<open>h ^ 2\<close>
  core switches.\<close>

lemma interval_image: "{s..<s + h} = (\<lambda>x. s + x) ` {..<h}" for s h :: nat
  using image_add_atLeastLessThan [of s 0 h] by (simp add: lessThan_atLeast0 add.commute)

lemma block_end: "e < m * h \<Longrightarrow> e div h * h + h \<le> m * h" for e h m :: nat
  by (metis div_less_iff_less_mult less_mult_imp_div_less add.commute gr0I mult_0_right not_less_zero mult_Suc mult_le_mono1 Suc_leI)

lemma edge_to_aggregation:
  assumes "5 * h ^ 2 < 2 ^ 32"
  shows "set (build_edge_to_aggregation_connections (2 * h ^ 2) h) =
    (\<Union>e \<in> {..<2 * h ^ 2}. (\<lambda>x. (e + 1, 2 * h ^ 2 + e div h * h + x + 1)) ` {..<h})"
proof -
  have "set (let agg_start = w32 (2 * h ^ 2 + e div h * h)
      in map (\<lambda>agg_id. (e + 1, agg_id + 1)) [agg_start..<w32 (agg_start + h)]) =
    (\<lambda>x. (e + 1, 2 * h ^ 2 + e div h * h + x + 1)) ` {..<h}" if "e < 2 * h ^ 2" for e
  proof -
    have "e div h * h + h \<le> 2 * h ^ 2" using block_end [of e "2 * h" h] that by (simp add: power2_eq_square mult.assoc)
    then have "w32 (2 * h ^ 2 + e div h * h) = 2 * h ^ 2 + e div h * h"
      "w32 (2 * h ^ 2 + e div h * h + h) = 2 * h ^ 2 + e div h * h + h" using assms by simp_all
    then show ?thesis by (simp only: Let_def set_map set_upt interval_image image_image)
  qed
  then show ?thesis unfolding build_edge_to_aggregation_connections_def Let_def set_concat set_map image_image set_upt
    by (simp add: lessThan_atLeast0)
qed

lemma aggregation_to_core:
  assumes "5 * h ^ 2 < 2 ^ 32" "0 < h"
  shows "set (build_aggregation_to_core_connections (2 * h ^ 2) h h) =
    (\<Union>a \<in> {..<2 * h ^ 2}. (\<lambda>x. (2 * h ^ 2 + a + 1, 4 * h ^ 2 + a mod h * h + x + 1)) ` {..<h})"
proof -
  have "set (let core_start = w32 (2 * (2 * h ^ 2) + (2 * h ^ 2 + a) mod h * h)
      in map (\<lambda>core_id. (2 * h ^ 2 + a + 1, core_id + 1)) [core_start..<w32 (core_start + h)]) =
    (\<lambda>x. (2 * h ^ 2 + a + 1, 4 * h ^ 2 + a mod h * h + x + 1)) ` {..<h}" for a
  proof -
    have m: "(2 * h ^ 2 + a) mod h = a mod h" by (simp add: power2_eq_square mult.assoc [symmetric])
    have "Suc (a mod h) * h \<le> h * h" using assms(2) by (intro mult_le_mono1) (simp add: Suc_le_eq)
    then have "a mod h * h + h \<le> h ^ 2" by (simp add: power2_eq_square)
    then have "w32 (4 * h ^ 2 + a mod h * h) = 4 * h ^ 2 + a mod h * h"
      "w32 (4 * h ^ 2 + a mod h * h + h) = 4 * h ^ 2 + a mod h * h + h" using assms by simp_all
    moreover have "2 * (2 * h ^ 2) = 4 * h ^ 2" by simp
    ultimately show ?thesis by (simp only: m Let_def set_map set_upt interval_image image_image)
  qed
  moreover have "{2 * h ^ 2..<w32 (2 * (2 * h ^ 2))} = (\<lambda>a. 2 * h ^ 2 + a) ` {..<2 * h ^ 2}"
    using interval_image [of "2 * h ^ 2" "2 * h ^ 2"] assms(1) by (simp add: mult_2)
  ultimately show ?thesis
    unfolding build_aggregation_to_core_connections_def Let_def set_concat set_map image_image set_upt
    by simp
qed

lemma fat_tree_edges:
  assumes "0 < h" "5 * h ^ 2 < 2 ^ 32"
  shows "\<exists>edges. fat_tree_build (2 * h) = Inr edges \<and> set edges =
    (\<Union>e \<in> {..<2 * h ^ 2}. (\<lambda>x. (e + 1, 2 * h ^ 2 + e div h * h + x + 1)) ` {..<h}) \<union>
    (\<Union>a \<in> {..<2 * h ^ 2}. (\<lambda>x. (2 * h ^ 2 + a + 1, 4 * h ^ 2 + a mod h * h + x + 1)) ` {..<h})"
proof -
  have square: "(2 * h) ^ 2 = 4 * h ^ 2" by (simp add: power2_eq_square)
  have "h \<le> h ^ 2" using assms(1) by (simp add: power2_eq_square)
  then have small: "2 * h < 2 ^ 32" using assms(2) by simp
  have "w32 ((2 * h) ^ 2) = 4 * h ^ 2" using assms(2) by (simp add: square)
  moreover have "h ^ 2 div h = h" using assms(1) by (simp add: power2_eq_square)
  ultimately have params: "fat_tree_calculate_params (2 * h) = (2 * h ^ 2, h, h)"
    by (simp add: fat_tree_calculate_params_def Let_def)
  show ?thesis
    using assms(1) small edge_to_aggregation [OF assms(2)] aggregation_to_core [OF assms(2,1)]
    by (simp add: fat_tree_build_def fat_tree_validate_params_def params)
qed

lemma fat_tree_spans:
  assumes "0 < h" "5 * h ^ 2 < 2 ^ 32"
  shows "\<exists>edges. fat_tree_build (2 * h) = Inr edges \<and> spans (set edges) (5 * h ^ 2)"
proof -
  obtain edges where build: "fat_tree_build (2 * h) = Inr edges" and E: "set edges =
    (\<Union>e \<in> {..<2 * h ^ 2}. (\<lambda>x. (e + 1, 2 * h ^ 2 + e div h * h + x + 1)) ` {..<h}) \<union>
    (\<Union>a \<in> {..<2 * h ^ 2}. (\<lambda>x. (2 * h ^ 2 + a + 1, 4 * h ^ 2 + a mod h * h + x + 1)) ` {..<h})"
    using fat_tree_edges [OF assms] by blast
  let ?L = "(set edges \<union> (set edges)\<inverse>)\<^sup>*"
  have agg: "(e + 1, 2 * h ^ 2 + e div h * h + x + 1) \<in> ?L" if "e < 2 * h ^ 2" "x < h" for e x
    by (rule linked_edge(1)) (use that in \<open>auto simp: E\<close>)
  have core: "(2 * h ^ 2 + a + 1, 4 * h ^ 2 + a mod h * h + x + 1) \<in> ?L" if "a < 2 * h ^ 2" "x < h" for a x
    by (rule linked_edge(1)) (use that in \<open>auto simp: E\<close>)
  let ?root = "4 * h ^ 2 + 1"
  have bounds: "e div h * h + h \<le> 2 * h ^ 2" if "e < 2 * h ^ 2" for e
    using block_end [of e "2 * h" h] that by (simp add: power2_eq_square mult.assoc)
  have edge_root: "(e + 1, ?root) \<in> ?L" if e: "e < 2 * h ^ 2" for e
  proof -
    have "(e + 1, 2 * h ^ 2 + e div h * h + 0 + 1) \<in> ?L" by (rule agg) (use e assms in auto)
    moreover have "(2 * h ^ 2 + e div h * h + 1, 4 * h ^ 2 + e div h * h mod h * h + 0 + 1) \<in> ?L"
      by (rule core) (use bounds [OF e] assms(1) in auto)
    ultimately show ?thesis by (simp add: rtrancl_trans)
  qed
  have agg_root: "(2 * h ^ 2 + a + 1, ?root) \<in> ?L" if a: "a < 2 * h ^ 2" for a
  proof -
    have "(a div h * h + 1, 2 * h ^ 2 + a div h * h div h * h + a mod h + 1) \<in> ?L"
      by (rule agg) (use bounds [OF a] assms(1) in auto)
    then have "(2 * h ^ 2 + a + 1, a div h * h + 1) \<in> ?L"
      using assms(1) by (simp add: linked_sym add.assoc)
    moreover have "(a div h * h + 1, ?root) \<in> ?L" by (rule edge_root) (use bounds [OF a] assms(1) in auto)
    ultimately show ?thesis by (rule rtrancl_trans)
  qed
  have core_root: "(4 * h ^ 2 + c + 1, ?root) \<in> ?L" if c: "c < h ^ 2" for c
  proof -
    have g: "c div h < h" using c by (simp add: less_mult_imp_div_less power2_eq_square)
    moreover have "h \<le> 2 * h ^ 2" by (simp add: power2_eq_square)
    ultimately have g': "c div h < 2 * h ^ 2" by simp
    have "(2 * h ^ 2 + c div h + 1, 4 * h ^ 2 + c div h mod h * h + c mod h + 1) \<in> ?L"
      by (rule core) (use g' assms(1) in auto)
    then have "(4 * h ^ 2 + c + 1, 2 * h ^ 2 + c div h + 1) \<in> ?L" using g by (simp add: linked_sym add.assoc)
    then show ?thesis using agg_root [OF g'] by (rule rtrancl_trans)
  qed
  have to_root: "(v, ?root) \<in> ?L" if v: "v \<in> {1..5 * h ^ 2}" for v
  proof -
    consider "v - 1 < 2 * h ^ 2" | "2 * h ^ 2 \<le> v - 1" "v - 1 < 4 * h ^ 2" | "4 * h ^ 2 \<le> v - 1" "v - 1 < 5 * h ^ 2"
      using v by fastforce
    then show ?thesis
    proof cases
      case 1
      then show ?thesis using edge_root [OF 1] v by simp
    next
      case 2
      then show ?thesis using agg_root [of "v - 1 - 2 * h ^ 2"] v by simp
    next
      case 3
      then show ?thesis using core_root [of "v - 1 - 4 * h ^ 2"] v by simp
    qed
  qed
  have small: "a mod h * h + x < h ^ 2" if "x < h" for a x
    using place2 [of x h "a mod h"] that assms(1) by (simp add: add.commute)
  have "spans (set edges) (5 * h ^ 2)"
  proof (rule spansI)
    show "fst ` set edges \<subseteq> {1..5 * h ^ 2}" unfolding E by auto
    show "snd ` set edges \<subseteq> {1..5 * h ^ 2}" unfolding E using bounds small by (fastforce simp: Suc_le_eq)
    show "(1, v) \<in> ?L" if "v \<in> {1..5 * h ^ 2}" for v
      using to_root [of 1] to_root [OF that] assms(1) by (meson linked_sym rtrancl_trans atLeastAtMost_iff le_refl that order_trans)
    show "2 \<le> 5 * h ^ 2" 
    proof -
      have "0 < h ^ 2" using assms(1) by simp
      then show ?thesis by linarith
    qed
  qed
  then show ?thesis using build by blast
qed

section \<open>Routes over the preset topologies\<close>

lemma linked_normal: "normal_edge ` E \<union> (normal_edge ` E)\<inverse> = E \<union> E\<inverse>"
  by (force simp: normal_edge_def image_iff split: if_splits)

lemma linked_nodes: "fst ` E \<union> snd ` E = fst ` (E \<union> E\<inverse>)"
  by (force simp: image_iff)

lemma nodes_of_both_ways: "nodes_of (both_ways edges) = fst ` set edges \<union> snd ` set edges"
proof -
  have "fst ` (set edges)\<inverse> = snd ` set edges" "snd ` (set edges)\<inverse> = fst ` set edges" by force+
  then show ?thesis unfolding nodes_of_def set_both_ways image_Un by blast
qed

lemma spans_cong: "E \<union> E\<inverse> = F \<union> F\<inverse> \<Longrightarrow> spans E n \<longleftrightarrow> spans F n"
  unfolding spans_def linked_nodes by simp

lemma spans_more:
  assumes "spans E n" "\<forall>(a, b) \<in> F. a \<in> {1..n} \<and> b \<in> {1..n}"
  shows "spans (E \<union> F) n"
proof -
  have "(E \<union> E\<inverse>)\<^sup>* \<subseteq> ((E \<union> F) \<union> (E \<union> F)\<inverse>)\<^sup>*" by (rule rtrancl_mono) auto
  moreover have "fst ` F \<subseteq> {1..n}" "snd ` F \<subseteq> {1..n}" using assms(2) by auto
  then have "fst ` (E \<union> F) \<union> snd ` (E \<union> F) = {1..n}" using assms(1) unfolding spans_def image_Un by blast
  ultimately show ?thesis using assms(1) unfolding spans_def by blast
qed

text \<open>The nodes that get links: all that the program counts, but for the \<open>k ^ 3 / 4\<close> servers of a fat
  tree.  A preset that makes sense has at least two nodes, an even arity, or a supported dimension,
  and further edges only between these nodes.\<close>

definition linked_count :: "TopologyConfig \<Rightarrow> nat \<Rightarrow> nat" where
  "linked_count t n =
     (case (tc_topology_type t, tc_fat_tree_config t) of
        (Some FatTree, Some k) \<Rightarrow> n - k * k * k div 4
      | _ \<Rightarrow> n)"

definition valid_preset :: "TopologyConfig \<Rightarrow> nat \<Rightarrow> bool" where
  "valid_preset t n \<longleftrightarrow> compute_node_count t = Some n \<and> 2 \<le> n \<and> n < 2 ^ 32 \<and>
     (case tc_topology_type t of
        Some FatTree \<Rightarrow> \<exists>h > 0. tc_fat_tree_config t = Some (2 * h)
      | Some Torus \<Rightarrow> \<exists>dim m. tc_torus_config t = Some (dim, m) \<and> dim \<in> {1, 2, 3} \<and> 2 \<le> m
      | preset \<Rightarrow> preset \<noteq> None) \<and>
     (\<forall>(a, b) \<in> (case tc_edges t of Some edges \<Rightarrow> set edges | None \<Rightarrow> {}).
        a \<in> {1..linked_count t n} \<and> b \<in> {1..linked_count t n})"

lemma fat_tree_counts:
  fixes h :: nat
  shows "(2 * h) * (2 * h) * (2 * h) div 4 = 2 * h ^ 3" "(5 * (2 * h) * (2 * h)) div 4 = 5 * h ^ 2"
  by (simp_all add: power3_eq_cube power2_eq_square)

lemma linked_count_fat_tree:
  assumes "valid_preset t n" "tc_topology_type t = Some FatTree" "tc_fat_tree_config t = Some (2 * h)"
  shows "linked_count t n = 5 * h ^ 2" "n = linked_count t n + 2 * h ^ 3"
  using assms fat_tree_counts [of h] by (auto simp: valid_preset_def compute_node_count_def linked_count_def)

lemma linked_count_other:
  "tc_topology_type t \<noteq> Some FatTree \<Longrightarrow> linked_count t n = n"
  by (auto simp: linked_count_def split: option.split PresetTopology.split)

lemma torus_build_spans:
  assumes "dim \<in> {1, 2, 3}" "2 \<le> n" "n ^ dim < 2 ^ 32"
  shows "\<exists>edges. torus_build dim n = Some (Inr edges) \<and> spans (set edges) (n ^ dim)"
proof -
  have "n ^ 1 \<le> n ^ dim" using assms(1,2) by (intro power_increasing) auto
  then have n: "w32 n = n" "w32 dim = dim" using assms by auto
  have "torus_validate_params dim n = Inr ()" using assms(1,2) by (auto simp: torus_validate_params_def)
  then have "torus_build dim n = torus_build_edges dim n" unfolding torus_build_def Let_def n by simp
  then show ?thesis using assms torus_1d [of n] torus_2d [of n] torus_3d [of n] by auto
qed

lemma preset_spans:
  assumes "valid_preset t n"
  shows "\<exists>preset edges. tc_topology_type t = Some preset \<and> preset_build t preset = Some (Some (Inr edges)) \<and>
    spans (set edges) (linked_count t n)"
proof (cases "tc_topology_type t")
  case None
  then show ?thesis using assms by (simp add: valid_preset_def)
next
  case (Some preset)
  have n: "2 \<le> n" "n < 2 ^ 32" "compute_node_count t = Some n" using assms by (simp_all add: valid_preset_def)
  show ?thesis
  proof (cases preset)
    case FullMesh
    then show ?thesis using Some n full_mesh_spans [of n]
      by (auto simp: linked_count_other compute_node_count_def preset_build_def full_mesh_build_def)
  next
    case FatTree
    then obtain h where h: "0 < h" "tc_fat_tree_config t = Some (2 * h)"
      using assms Some by (auto simp: valid_preset_def)
    note m = linked_count_fat_tree [OF assms Some [unfolded FatTree] h(2)]
    then have "5 * h ^ 2 < 2 ^ 32" using n(2) by linarith
    then show ?thesis using FatTree Some h fat_tree_spans [of h] m(1) by (auto simp: preset_build_def)
  next
    case Torus
    then obtain dim m where t: "tc_torus_config t = Some (dim, m)" "dim \<in> {1, 2, 3}" "2 \<le> m"
      using assms Some unfolding valid_preset_def by auto
    then have "w32 dim = dim" by auto
    then have "n = m ^ dim" using n(3) Torus Some t(1) by (simp add: compute_node_count_def)
    then show ?thesis using t Torus Some n torus_build_spans [of dim m]
      by (auto simp: preset_build_def linked_count_other)
  next
    case Ring
    then show ?thesis using Some n ring_spans [of n]
      by (auto simp: linked_count_other compute_node_count_def preset_build_def ring_build_def)
  qed
qed

lemma linked_count_pos: "valid_preset t n \<Longrightarrow> 0 < linked_count t n"
proof (cases "tc_topology_type t = Some FatTree")
  case True
  assume t: "valid_preset t n"
  then obtain h where h: "0 < h" "tc_fat_tree_config t = Some (2 * h)"
    using True by (auto simp: valid_preset_def)
  then show ?thesis using linked_count_fat_tree [OF t True h(2)] by simp
qed (simp add: linked_count_other valid_preset_def)

lemma build_topology_spans:
  assumes "valid_preset t n"
  shows "\<exists>E. build_topology t = Some (Some E) \<and> spans E (linked_count t n)"
proof -
  obtain preset edges where preset: "tc_topology_type t = Some preset" "preset_build t preset = Some (Some (Inr edges))"
    and spans: "spans (set edges) (linked_count t n)" using preset_spans [OF assms] by blast
  let ?custom = "case tc_edges t of Some edges \<Rightarrow> set edges | None \<Rightarrow> {}"
  let ?E = "normal_edge ` (set edges \<union> ?custom)"
  have "spans (set edges \<union> ?custom) (linked_count t n)"
    by (rule spans_more [OF spans]) (use assms in \<open>simp add: valid_preset_def\<close>)
  then have E: "spans ?E (linked_count t n)" using spans_cong [OF linked_normal] by blast
  moreover have "?E \<noteq> {}"
  proof
    assume "?E = {}"
    then have "fst ` ?E \<union> snd ` ?E = {}" by simp
    then show False using E linked_count_pos [OF assms] by (auto simp: spans_def)
  qed
  ultimately show ?thesis using preset
    by (cases "tc_edges t") (auto simp: build_topology_def Let_def image_Un)
qed

text \<open>C24. Every preset topology is routed over the nodes it links.  For a full mesh, ring or torus of at
  least two nodes these are all the nodes \<open>1\<close> to \<open>n\<close> that the program counts for it.  For a fat tree
  they are only its \<open>5 k ^ 2 / 4\<close> switches: the \<open>k ^ 3 / 4\<close> servers, which the program counts as well,
  have no edge and get no route.  With further edges between the linked nodes, for any order of
  the edges, and with a search that finds shortest paths, the controller computes, without a panic,
  exactly one shortest route for every ordered pair of linked nodes.\<close>

theorem preset_topologies_routed:
  assumes "valid_preset t n" and "\<forall>E. build_topology t = Some (Some E) \<longrightarrow> set edges = E"
    and "astar_ok astar (both_ways edges)"
  shows "\<exists>m routes. compute_node_count t = Some n \<and> 0 < m \<and>
    (tc_topology_type t \<noteq> Some FatTree \<longrightarrow> m = n) \<and>
    (tc_topology_type t = Some FatTree \<longrightarrow>
      (\<exists>k. tc_fat_tree_config t = Some k \<and> m = 5 * k ^ 2 div 4 \<and> n = m + k ^ 3 div 4 \<and> m < n)) \<and>
    build_topology t = Some (Some (set edges)) \<and> nodes_of edges = {1..m} \<and>
    build_routes_from_topology astar edges True = Some routes \<and>
    map (\<lambda>(s, d, _). (s, d)) routes = filter (\<lambda>(s, d). s \<noteq> d) (List.product [1..<Suc m] [1..<Suc m]) \<and>
    (\<forall>route \<in> set routes. route_ok (both_ways edges) route)"
proof -
  let ?m = "linked_count t n"
  obtain E where E: "build_topology t = Some (Some E)" "spans E ?m" using build_topology_spans [OF assms(1)] by blast
  then have spans: "spans (set edges) ?m" using assms(2) by simp
  have nodes: "nodes_of (both_ways edges) = {1..?m}"
    using spans unfolding nodes_of_both_ways spans_def by (rule conjunct1)
  have linked: "nodes_of edges = {1..?m}" using spans by (simp add: nodes_of_def spans_def)
  have ordered: "ordered_nodes (both_ways edges) = [1..<Suc ?m]"
    unfolding nodes by (simp add: atLeastLessThanSuc_atLeastAtMost [symmetric] del: upt_Suc)
  let ?pairs = "List.product [1..<Suc ?m] [1..<Suc ?m]"
  have pairs: "set ?pairs \<subseteq> nodes_of (both_ways edges) \<times> nodes_of (both_ways edges)" unfolding nodes by auto
  have connected: "\<forall>(s, d) \<in> set ?pairs. (s, d) \<in> (set (both_ways edges))\<^sup>*"
    unfolding set_both_ways using spans_connected [OF spans] by (auto simp del: upt_Suc)
  have built: "build_routes_from_topology astar edges True = route_pairs astar (both_ways edges) ?pairs"
    unfolding build_routes_from_topology_def Let_def ordered by simp
  obtain routes where "route_pairs astar (both_ways edges) ?pairs = Some routes"
    "map (\<lambda>(s, d, _). (s, d)) routes = filter (\<lambda>(s, d). s \<noteq> d) ?pairs" "\<forall>route \<in> set routes. route_ok (both_ways edges) route"
    using route_pairs_ok [OF assms(3) pairs] connected by (cases "route_pairs astar (both_ways edges) ?pairs") auto
  moreover have "\<exists>k. tc_fat_tree_config t = Some k \<and> ?m = 5 * k ^ 2 div 4 \<and> n = ?m + k ^ 3 div 4 \<and> ?m < n"
    if fat: "tc_topology_type t = Some FatTree"
  proof -
    obtain h where h: "0 < h" "tc_fat_tree_config t = Some (2 * h)" using assms(1) fat by (auto simp: valid_preset_def)
    then show ?thesis using linked_count_fat_tree [OF assms(1) fat h(2)] fat_tree_counts [of h]
      by (intro exI [of _ "2 * h"]) (simp add: power2_eq_square power3_eq_cube)
  qed
  moreover have "compute_node_count t = Some n" using assms(1) by (simp add: valid_preset_def)
  ultimately show ?thesis using E(1) assms(2) built linked linked_count_pos [OF assms(1)] linked_count_other [of t n]
    by (intro exI [of _ ?m] exI [of _ routes]) simp
qed

text \<open>The node count of a fat tree also counts \<open>k ^ 3 / 4\<close> servers, which the builder does not link: their
  ids have no edge.\<close>

theorem fat_tree_servers_unlinked:
  assumes "0 < h" "5 * h ^ 2 < 2 ^ 32" "tc_topology_type t = Some FatTree" "tc_fat_tree_config t = Some (2 * h)"
  shows "\<exists>edges. fat_tree_build (2 * h) = Inr edges \<and> nodes_of edges = {1..5 * h ^ 2} \<and>
    compute_node_count t = Some (5 * h ^ 2 + 2 * h ^ 3)"
proof -
  have "(2 * h * (2 * h) * (2 * h)) div 4 = 2 * h ^ 3" "(5 * (2 * h) * (2 * h)) div 4 = 5 * h ^ 2"
    by (simp_all add: power3_eq_cube power2_eq_square)
  then show ?thesis using fat_tree_spans [OF assms(1,2)] assms(3,4)
    by (auto simp: compute_node_count_def nodes_of_def spans_def)
qed

definition example_ring :: TopologyConfig where
  "example_ring = \<lparr>tc_topology_type = Some Ring, tc_n_nodes = None, tc_full_mesh_config = None, tc_fat_tree_config = None,
     tc_torus_config = None, tc_ring_config = Some 3, tc_edges = None\<rparr>"

definition direct_astar :: "edges \<Rightarrow> nat \<Rightarrow> nat \<Rightarrow> nat list option" where
  "direct_astar edges s t = Some (if s = t then [s] else [s, t])"

lemma preset_topologies_routed_witness:
  "\<exists>routes. build_topology example_ring = Some (Some (set [(1, 2), (1, 3), (2, 3)])) \<and>
    build_routes_from_topology direct_astar [(1, 2), (1, 3), (2, 3)] True = Some routes \<and>
    map (\<lambda>(s, d, _). (s, d)) routes = [(1, 2), (1, 3), (2, 1), (2, 3), (3, 1), (3, 2)]"
proof -
  let ?edges = "[(1, 2), (1, 3), (2, 3)] :: edges"
  have valid: "valid_preset example_ring 3" 
    by (simp add: valid_preset_def compute_node_count_def example_ring_def)
  have built: "build_topology example_ring = Some (Some (set ?edges))"
    by (auto simp: build_topology_def example_ring_def preset_build_def ring_build_def normal_edge_def upt_rec)
  have nodes: "nodes_of (both_ways ?edges) = {1, 2, 3}" by (auto simp: nodes_of_def)
  have two: "2 \<le> length q" if "is_walk es s t q" "s \<noteq> t" for es s t q
    using that by (cases q; cases "tl q") (auto simp: is_walk_def)
  have one: "1 \<le> length q" if "is_walk es s t q" for es s t q
    using that by (cases q) (auto simp: is_walk_def)
  have "is_walk (both_ways ?edges) s t (if s = t then [s] else [s, t])" if "s \<in> {1, 2, 3}" "t \<in> {1, 2, 3}" for s t
    using that by (auto simp: is_walk_def)
  moreover have "length (if s = t then [s] else [s, t]) \<le> length q" if "is_walk es s t q" for es s t q
    using one [OF that] two [OF that] by auto
  ultimately have astar: "astar_ok direct_astar (both_ways ?edges)"
    unfolding astar_ok_def nodes direct_astar_def option.case by blast
  have order: "\<forall>E. build_topology example_ring = Some (Some E) \<longrightarrow> set ?edges = E" unfolding built by blast
  have pairs: "filter (\<lambda>(s, d). s \<noteq> d) (List.product [1..<Suc 3] [1..<Suc 3]) =
      [(1, 2), (1, 3), (2, 1), (2, 3), (3, 1), (3, 2)]" by (simp add: upt_rec)
  have ring: "tc_topology_type example_ring \<noteq> Some FatTree" by (simp add: example_ring_def)
  obtain routes where "build_topology example_ring = Some (Some (set ?edges))"
    "build_routes_from_topology direct_astar ?edges True = Some routes"
    "map (\<lambda>(s, d, _). (s, d)) routes = filter (\<lambda>(s, d). s \<noteq> d) (List.product [1..<Suc 3] [1..<Suc 3])"
    using preset_topologies_routed [OF valid order astar] ring by (elim exE conjE) blast
  then show ?thesis unfolding pairs by (intro exI conjI)
qed

end
