(* ===== verification/Processor.thy ===== *)
theory Processor
  imports Routing Token_Bucket Fec_Policy Fec_Sender
begin

text \<open>
  The packet processors of a node (\<open>src/dataplane/src/node/processor.rs\<close>): the handles that put packets
  on the processors' channels, and the processor that looks up the next hops of a packet and sends it
  on or delivers it.  A channel is its content and capacity; what a processor does to other tasks is a
  list of effects.  Senders, schedulers and handles of other tasks are numbers; the jump hash is a
  parameter.  The Python interface, an optional feature, is left out.
\<close>

section \<open>Channels\<close>

record 'a Channel =
  ch_items :: "'a list"
  ch_capacity :: nat
  ch_closed :: bool

definition try_send :: "'a \<Rightarrow> 'a Channel \<Rightarrow> SendOutcome \<times> 'a Channel" where
  "try_send x ch =
     (if ch_closed ch then (SendClosed, ch)
      else if length (ch_items ch) < ch_capacity ch then (Queued, ch\<lparr>ch_items := ch_items ch @ [x]\<rparr>)
      else (WouldBlock, ch))"

text \<open>\<open>send\<close> waits (\<open>None\<close>) while the channel is full.\<close>

definition send_waiting :: "'a \<Rightarrow> 'a Channel \<Rightarrow> 'a Channel option" where
  "send_waiting x ch =
     (if ch_closed ch then Some ch
      else if length (ch_items ch) < ch_capacity ch then Some (ch\<lparr>ch_items := ch_items ch @ [x]\<rparr>)
      else None)"

section \<open>Ingress\<close>

datatype ProcessorPacket = ProcessPacket Packet | SendLinkProbePackets nat "Packet list"

datatype OperatingMode = NormalMode | MaxMode

record ProcConfig =
  pc_node_id :: nat
  pc_route :: RouteConfig
  pc_local_address :: u32
  pc_operating_mode :: OperatingMode
  pc_channel_backpressure :: bool

type_synonym lane = "ProcessorPacket Channel"

record SequentialProcHandle =
  sh_config :: ProcConfig
  sh_packet_senders :: "lane list"
  sh_connector :: lane

text \<open>The jump hash over a flow, and over a flow with its tree.\<close>

record Hashes =
  hs_flow :: "FlowId \<Rightarrow> u32 \<Rightarrow> u32"
  hs_tree :: "FlowId \<times> u16 \<Rightarrow> u32 \<Rightarrow> u32"

definition flow_hash :: "Hashes \<Rightarrow> FlowId \<Rightarrow> nat \<Rightarrow> nat" where
  "flow_hash hashes flow_id capacity = unat (hs_flow hashes flow_id (word_of_nat capacity))"

definition select_processor_ingress_lane :: "Hashes \<Rightarrow> Packet \<Rightarrow> SequentialProcHandle \<Rightarrow> nat may_panic" where
  "select_processor_ingress_lane hashes packet h =
     (let lane_count = length (sh_packet_senders h)
      in do {
        tree \<leftarrow> lossless_fec_tree_id packet;
        case tree of
          Some tree_id \<Rightarrow> Some (unat (hs_tree hashes (pk_flow_id packet, tree_id) (word_of_nat lane_count)))
        | None \<Rightarrow> Some (flow_hash hashes (pk_flow_id packet) lane_count)
      })"

text \<open>Whether a packet goes to the processors; the others go to the connector.\<close>

definition to_processor :: "ProcConfig \<Rightarrow> Packet \<Rightarrow> bool" where
  "to_processor config packet \<longleftrightarrow>
     ip_to_node_id (pc_route config) (flow_dst_ip (pk_flow_id packet)) = pc_node_id config \<or>
     pc_operating_mode config = NormalMode"

definition seq_try_send_to_processor ::
    "Hashes \<Rightarrow> Packet \<Rightarrow> SequentialProcHandle \<Rightarrow> (SendOutcome \<times> SequentialProcHandle) may_panic" where
  "seq_try_send_to_processor hashes packet h = do {
     idx \<leftarrow> select_processor_ingress_lane hashes packet h;
     if idx < length (sh_packet_senders h)
     then let (outcome, ch) = try_send (ProcessPacket packet) (sh_packet_senders h ! idx)
          in Some (outcome, h\<lparr>sh_packet_senders := (sh_packet_senders h)[idx := ch]\<rparr>)
     else None
   }"

definition seq_try_process_packet ::
    "Hashes \<Rightarrow> Packet \<Rightarrow> SequentialProcHandle \<Rightarrow> (SendOutcome \<times> SequentialProcHandle) may_panic" where
  "seq_try_process_packet hashes packet h =
     (if to_processor (sh_config h) packet then seq_try_send_to_processor hashes packet h
      else let (outcome, ch) = try_send (ProcessPacket packet) (sh_connector h)
           in Some (outcome, h\<lparr>sh_connector := ch\<rparr>))"

definition seq_lossless_ingress_contract :: "Packet \<Rightarrow> SequentialProcHandle \<Rightarrow> LosslessIngressContract" where
  "seq_lossless_ingress_contract packet h =
     (if to_processor (sh_config h) packet then TreeVisibleNonBlocking else SharedQueueNonBlocking)"

text \<open>\<open>process_packet\<close> and its blocking twin: with backpressure they wait (\<open>Some None\<close>) while the
  channel is full, otherwise they drop the packet.\<close>

definition send_or_drop :: "bool \<Rightarrow> ProcessorPacket \<Rightarrow> lane \<Rightarrow> lane option" where
  "send_or_drop backpressure p ch = (if backpressure then send_waiting p ch else Some (snd (try_send p ch)))"

definition seq_send_to_processor ::
    "Hashes \<Rightarrow> Packet \<Rightarrow> SequentialProcHandle \<Rightarrow> SequentialProcHandle option may_panic" where
  "seq_send_to_processor hashes packet h = do {
     idx \<leftarrow> select_processor_ingress_lane hashes packet h;
     if idx < length (sh_packet_senders h)
     then Some (map_option (\<lambda>ch. h\<lparr>sh_packet_senders := (sh_packet_senders h)[idx := ch]\<rparr>)
       (send_or_drop (pc_channel_backpressure (sh_config h)) (ProcessPacket packet) (sh_packet_senders h ! idx)))
     else None
   }"

definition seq_process_packet ::
    "Hashes \<Rightarrow> Packet \<Rightarrow> SequentialProcHandle \<Rightarrow> SequentialProcHandle option may_panic" where
  "seq_process_packet hashes packet h =
     (if to_processor (sh_config h) packet then seq_send_to_processor hashes packet h
      else Some (map_option (\<lambda>ch. h\<lparr>sh_connector := ch\<rparr>)
        (send_or_drop (pc_channel_backpressure (sh_config h)) (ProcessPacket packet) (sh_connector h))))"

definition seq_send_link_probe_packets :: "nat \<Rightarrow> Packet list \<Rightarrow> SequentialProcHandle \<Rightarrow> SequentialProcHandle may_panic" where
  "seq_send_link_probe_packets node_id packets h =
     (case sh_packet_senders h of
        [] \<Rightarrow> None
      | ch # chs \<Rightarrow> Some (h\<lparr>sh_packet_senders := snd (try_send (SendLinkProbePackets node_id packets) ch) # chs\<rparr>))"

record ConcurrentProcHandle =
  cp_config :: ProcConfig
  cp_packet_sender :: lane
  cp_connector :: lane

definition conc_try_process_packet :: "Packet \<Rightarrow> ConcurrentProcHandle \<Rightarrow> SendOutcome \<times> ConcurrentProcHandle" where
  "conc_try_process_packet packet h =
     (if to_processor (cp_config h) packet
      then let (outcome, ch) = try_send (ProcessPacket packet) (cp_packet_sender h)
           in (outcome, h\<lparr>cp_packet_sender := ch\<rparr>)
      else let (outcome, ch) = try_send (ProcessPacket packet) (cp_connector h)
           in (outcome, h\<lparr>cp_connector := ch\<rparr>))"

definition conc_lossless_ingress_contract :: "Packet \<Rightarrow> ConcurrentProcHandle \<Rightarrow> LosslessIngressContract" where
  "conc_lossless_ingress_contract packet h = SharedQueueNonBlocking"

definition conc_process_packet :: "Packet \<Rightarrow> ConcurrentProcHandle \<Rightarrow> ConcurrentProcHandle option" where
  "conc_process_packet packet h =
     (let backpressure = pc_channel_backpressure (cp_config h)
      in if to_processor (cp_config h) packet
         then map_option (\<lambda>ch. h\<lparr>cp_packet_sender := ch\<rparr>)
           (send_or_drop backpressure (ProcessPacket packet) (cp_packet_sender h))
         else map_option (\<lambda>ch. h\<lparr>cp_connector := ch\<rparr>)
           (send_or_drop backpressure (ProcessPacket packet) (cp_connector h)))"

datatype ProcessorHandle = Sequential SequentialProcHandle | Concurrent ConcurrentProcHandle

definition try_submit_lossless_packet ::
    "Hashes \<Rightarrow> Packet \<Rightarrow> ProcessorHandle \<Rightarrow> (LosslessIngressContract \<times> SendOutcome \<times> ProcessorHandle) may_panic" where
  "try_submit_lossless_packet hashes packet handle =
     (case handle of
        Sequential h \<Rightarrow>
          map_option (\<lambda>(outcome, h'). (seq_lossless_ingress_contract packet h, outcome, Sequential h'))
            (seq_try_process_packet hashes packet h)
      | Concurrent h \<Rightarrow>
          let (outcome, h') = conc_try_process_packet packet h
          in Some (conc_lossless_ingress_contract packet h, outcome, Concurrent h'))"

section \<open>The processor\<close>

record Processor =
  pr_config :: ProcConfig
  pr_local_interface :: bool
  pr_user_space_senders :: "FlowId \<rightharpoonup> nat"
  pr_server :: bool
  pr_routing_table :: RoutingTable
  pr_flowstats_reporter :: bool
  pr_schedulers :: "nat \<rightharpoonup> nat"
  pr_lossless_handle :: bool

definition processor_new :: "ProcConfig \<Rightarrow> Processor" where
  "processor_new config = \<lparr>
     pr_config = config, pr_local_interface = False, pr_user_space_senders = Map.empty, pr_server = False,
     pr_routing_table = routing_table_new (pc_node_id config) (pc_route config), pr_flowstats_reporter = False,
     pr_schedulers = Map.empty, pr_lossless_handle = False\<rparr>"

datatype ProcEffect =
    DeliverLossless u64 InboundFrame
  | WriteLocal Packet
  | AddServer FlowId
  | UserSpaceSend nat Packet
  | SchedulerSend nat Packet
  | SchedulerProbes nat "Packet list"
  | SchedulerRateLimit nat TokenBucketSpec
  | SchedulerFlowWeight nat FlowId nat
  | ReportRoute FlowId nat

datatype ProcessorMessage =
    UpdateRoutingTable "RoutingTableEntry list"
  | UpdateGroupDirectory "GroupDirectoryEntry list"
  | UpdateGroupRoutes nat nat "GroupRoutingTableEntry list"
  | AddNode nat nat
  | ConnectLocalInterface
  | ConnectServerHandle
  | ConnectUserSpaceSender FlowId nat
  | DisconnectUserSpaceSender FlowId
  | RateLimit nat TokenBucketSpec
  | SetFlowWeight FlowId nat
  | PinRouteForFlow FlowId nat
  | SetFlowStatsReporter
  | ConnectLosslessHandle

text \<open>The orders of the hash maps a message iterates over: the keys of the routing table and the
  schedulers.\<close>

definition handle_message ::
    "RouteKey list \<Rightarrow> nat list \<Rightarrow> ProcessorMessage \<Rightarrow> Processor \<Rightarrow> ProcEffect list \<times> Processor" where
  "handle_message order schedulers msg p =
     (case msg of
        UpdateRoutingTable routes \<Rightarrow>
          ([], p\<lparr>pr_routing_table := install_routes order routes (pr_routing_table p)\<rparr>)
      | UpdateGroupDirectory groups \<Rightarrow>
          ([], p\<lparr>pr_routing_table := install_group_directory groups (pr_routing_table p)\<rparr>)
      | UpdateGroupRoutes group_id src_node_id routes \<Rightarrow>
          ([], p\<lparr>pr_routing_table := install_group_routes order group_id src_node_id routes (pr_routing_table p)\<rparr>)
      | AddNode node_id scheduler \<Rightarrow> ([], p\<lparr>pr_schedulers := (pr_schedulers p)(node_id \<mapsto> scheduler)\<rparr>)
      | ConnectLocalInterface \<Rightarrow> ([], p\<lparr>pr_local_interface := True\<rparr>)
      | ConnectServerHandle \<Rightarrow> ([], p\<lparr>pr_server := True\<rparr>)
      | ConnectUserSpaceSender flow_id sender \<Rightarrow>
          ([], p\<lparr>pr_user_space_senders := (pr_user_space_senders p)(flow_id \<mapsto> sender)\<rparr>)
      | DisconnectUserSpaceSender flow_id \<Rightarrow>
          ([], p\<lparr>pr_user_space_senders := (pr_user_space_senders p)(flow_id := None)\<rparr>)
      | RateLimit node_id spec \<Rightarrow>
          (case pr_schedulers p node_id of None \<Rightarrow> [] | Some scheduler \<Rightarrow> [SchedulerRateLimit scheduler spec], p)
      | SetFlowWeight flow_id weight \<Rightarrow>
          (concat (map (\<lambda>node_id. case pr_schedulers p node_id of None \<Rightarrow> []
              | Some scheduler \<Rightarrow> [SchedulerFlowWeight scheduler flow_id weight]) schedulers), p)
      | PinRouteForFlow flow_id route_id \<Rightarrow>
          ([], p\<lparr>pr_routing_table := snd (pin_route_for_flow flow_id route_id (pr_routing_table p))\<rparr>)
      | SetFlowStatsReporter \<Rightarrow> ([], p\<lparr>pr_flowstats_reporter := True\<rparr>)
      | ConnectLosslessHandle \<Rightarrow> ([], p\<lparr>pr_lossless_handle := True\<rparr>))"

text \<open>\<open>add_server\<close> gives the sender of the server it starts for a flow.\<close>

definition user_space_sender ::
    "(FlowId \<Rightarrow> nat) \<Rightarrow> FlowId \<Rightarrow> Processor \<Rightarrow> (nat option \<times> ProcEffect list \<times> Processor) may_panic" where
  "user_space_sender add_server flow_id p =
     (case pr_user_space_senders p flow_id of
        Some sender \<Rightarrow> Some (Some sender, [], p)
      | None \<Rightarrow>
          if flow_dst_port flow_id \<noteq> rc_user_space_server_port (pc_route (pr_config p)) then Some (None, [], p)
          else if \<not> pr_server p then None
          else let sender = add_server flow_id
               in Some (Some sender, [AddServer flow_id],
                    p\<lparr>pr_user_space_senders := (pr_user_space_senders p)(flow_id \<mapsto> sender)\<rparr>))"

definition try_deliver_lossless :: "Packet \<Rightarrow> Processor \<Rightarrow> ProcEffect list option may_panic" where
  "try_deliver_lossless packet p =
     (if \<not> pr_lossless_handle p then Some None
      else do {
        session \<leftarrow> lossless_session_id packet;
        case session of
          None \<Rightarrow> Some None
        | Some session_id \<Rightarrow> do {
            payload \<leftarrow> tcp_payload packet;
            case payload of
              None \<Rightarrow> Some None
            | Some payload \<Rightarrow>
                let src_node = ip_to_node_id (pc_route (pr_config p)) (flow_src_ip (pk_flow_id packet));
                    peer_id = (if src_node = INVALID then None else Some (word_of_nat src_node))
                in Some (Some [DeliverLossless session_id \<lparr>if_bytes = payload, if_peer_id = peer_id\<rparr>])
          }
      })"

definition deliver_locally ::
    "(FlowId \<Rightarrow> nat) \<Rightarrow> Packet \<Rightarrow> Processor \<Rightarrow> (ProcEffect list \<times> Processor) may_panic" where
  "deliver_locally add_server packet p = do {
     lossless \<leftarrow> try_deliver_lossless packet p;
     case lossless of
       Some effects \<Rightarrow> Some (effects, p)
     | None \<Rightarrow>
         if flow_dst_ip (pk_flow_id packet) = pc_local_address (pr_config p)
         then Some (if pr_local_interface p then [WriteLocal packet] else [], p)
         else do {
           (dest, effects, p) \<leftarrow> user_space_sender add_server (pk_flow_id packet) p;
           Some (effects @ (case dest of Some sender \<Rightarrow> [UserSpaceSend sender packet] | None \<Rightarrow> []), p)
         }
   }"

definition send_packet ::
    "(FlowId \<Rightarrow> nat) \<Rightarrow> Packet \<Rightarrow> nat \<Rightarrow> Processor \<Rightarrow> (ProcEffect list \<times> Processor) may_panic" where
  "send_packet add_server packet next_hop_id p =
     (if next_hop_id = rt_local_id (pr_routing_table p) then deliver_locally add_server packet p
      else Some (case pr_schedulers p next_hop_id of
        Some scheduler \<Rightarrow> [SchedulerSend scheduler packet] | None \<Rightarrow> [], p))"

fun send_to_hops ::
    "(FlowId \<Rightarrow> nat) \<Rightarrow> Packet \<Rightarrow> nat list \<Rightarrow> Processor \<Rightarrow> (ProcEffect list \<times> Processor) may_panic" where
  "send_to_hops add_server packet [] p = Some ([], p)"
| "send_to_hops add_server packet (next_hop_id # next_hops) p =
     (case send_packet add_server packet next_hop_id p of
        None \<Rightarrow> None
      | Some (effects, p) \<Rightarrow>
          map_option (\<lambda>(effects', p). (effects @ effects', p)) (send_to_hops add_server packet next_hops p))"

definition process_packet ::
    "(RouteKey \<Rightarrow> u32 \<Rightarrow> u32) \<Rightarrow> RouteKey list \<Rightarrow> (FlowId \<Rightarrow> nat) \<Rightarrow> Packet \<Rightarrow> Processor \<Rightarrow>
     (ProcEffect list \<times> Processor) may_panic" where
  "process_packet slot order add_server packet p = do {
     fec_tree_id \<leftarrow> lossless_fec_tree_id packet;
     (found, reports, rt) \<leftarrow> get_next_hops_by_flow_and_tree slot order (pk_flow_id packet) fec_tree_id
       (pr_flowstats_reporter p) (pr_routing_table p);
     let p = p\<lparr>pr_routing_table := rt\<rparr>;
     let reported = map (\<lambda>(flow_id, route_id). ReportRoute flow_id route_id) reports;
     case found of
       Inl e \<Rightarrow> Some (reported, p)
     | Inr next_hops \<Rightarrow>
         if next_hops = [] then Some (reported, p)
         else map_option (\<lambda>(effects, p). (reported @ effects, p)) (send_to_hops add_server packet next_hops p)
   }"

definition handle_packet_message ::
    "(RouteKey \<Rightarrow> u32 \<Rightarrow> u32) \<Rightarrow> RouteKey list \<Rightarrow> (FlowId \<Rightarrow> nat) \<Rightarrow> ProcessorPacket \<Rightarrow> Processor \<Rightarrow>
     (ProcEffect list \<times> Processor) may_panic" where
  "handle_packet_message slot order add_server msg p =
     (case msg of
        ProcessPacket packet \<Rightarrow> process_packet slot order add_server packet p
      | SendLinkProbePackets node_id packets \<Rightarrow>
          Some (case pr_schedulers p node_id of Some scheduler \<Rightarrow> [SchedulerProbes scheduler packets] | None \<Rightarrow> [], p))"

text \<open>A run over what \<open>select\<close> picks: packets, messages, each with the orders of the hash maps at this
  moment, or a lost stretch of the broadcast channel, whose messages the processor never sees.\<close>

datatype ProcInput =
    PacketIn "RouteKey list" ProcessorPacket
  | MessageIn "RouteKey list" "nat list" ProcessorMessage
  | Lagged

definition processor_turn ::
    "(RouteKey \<Rightarrow> u32 \<Rightarrow> u32) \<Rightarrow> (FlowId \<Rightarrow> nat) \<Rightarrow> ProcInput \<Rightarrow> Processor \<Rightarrow>
     (ProcEffect list \<times> Processor) may_panic" where
  "processor_turn slot add_server input p =
     (case input of
        PacketIn order msg \<Rightarrow> handle_packet_message slot order add_server msg p
      | MessageIn order schedulers msg \<Rightarrow> Some (handle_message order schedulers msg p)
      | Lagged \<Rightarrow> Some ([], p))"

fun processor_run ::
    "(RouteKey \<Rightarrow> u32 \<Rightarrow> u32) \<Rightarrow> (FlowId \<Rightarrow> nat) \<Rightarrow> ProcInput list \<Rightarrow> Processor \<Rightarrow>
     (ProcEffect list \<times> Processor) may_panic" where
  "processor_run slot add_server [] p = Some ([], p)"
| "processor_run slot add_server (input # inputs) p =
     (case processor_turn slot add_server input p of
        None \<Rightarrow> None
      | Some (effects, p) \<Rightarrow>
          map_option (\<lambda>(effects', p). (effects @ effects', p)) (processor_run slot add_server inputs p))"

section \<open>Ingress keeps its contract\<close>

definition hashes_ok :: "Hashes \<Rightarrow> bool" where
  "hashes_ok hashes \<longleftrightarrow> (\<forall>flow n. n \<noteq> 0 \<longrightarrow> hs_flow hashes flow n < n) \<and> (\<forall>key n. n \<noteq> 0 \<longrightarrow> hs_tree hashes key n < n)"

definition lanes_ok :: "SequentialProcHandle \<Rightarrow> bool" where
  "lanes_ok h \<longleftrightarrow> sh_packet_senders h \<noteq> [] \<and> length (sh_packet_senders h) < 2 ^ 32"

lemma slot_below:
  assumes "\<And>n. n \<noteq> 0 \<Longrightarrow> slot n < n" "0 < m" "m < 2 ^ 32"
  shows "unat (slot (word_of_nat m) :: u32) < m"
proof -
  have n: "unat (word_of_nat m :: u32) = m" using assms(3) by (simp add: unat_of_nat_small)
  then have "(word_of_nat m :: u32) \<noteq> 0" using assms(2) by (metis less_numeral_extra(3) unat_0)
  then have "slot (word_of_nat m) < word_of_nat m" by (rule assms(1))
  then show ?thesis using n by (simp add: word_less_nat_alt)
qed

text \<open>The lane of a packet depends on its flow and tree only.\<close>

definition lane_of :: "Hashes \<Rightarrow> FlowId \<Rightarrow> u16 option \<Rightarrow> nat \<Rightarrow> nat" where
  "lane_of hashes flow_id tree lanes =
     (case tree of Some t \<Rightarrow> unat (hs_tree hashes (flow_id, t) (word_of_nat lanes)) | None \<Rightarrow> flow_hash hashes flow_id lanes)"

lemma select_lane:
  "lossless_fec_tree_id packet = Some tree \<Longrightarrow>
     select_processor_ingress_lane hashes packet h = Some (lane_of hashes (pk_flow_id packet) tree (length (sh_packet_senders h)))"
  by (simp add: select_processor_ingress_lane_def lane_of_def Let_def split: option.split)

lemma lane_of_less: "hashes_ok hashes \<Longrightarrow> 0 < n \<Longrightarrow> n < 2 ^ 32 \<Longrightarrow> lane_of hashes flow_id tree n < n"
  by (auto simp: lane_of_def flow_hash_def hashes_ok_def intro!: slot_below split: option.split)

lemma fec_tree_total: "packet_wf packet \<Longrightarrow> \<exists>tree. lossless_fec_tree_id packet = Some tree"
  using transport_meta_total by (auto simp: lossless_fec_tree_id_def)

text \<open>C20. What a lossless submission says is true: on handles with at least one lane, with a hash that
  stays in range, a submission does not panic; under the tree-visible contract the outcome is that
  of the one lane that the packet's flow and tree choose, whatever the other lanes hold, and no other
  lane changes; under the shared contract it is the outcome of the one queue packets of this kind
  share, whatever their tree.\<close>

theorem ingress_contract_honest:
  assumes "hashes_ok hashes" "lossless_fec_tree_id packet = Some tree"
    and "case handle of Sequential h \<Rightarrow> lanes_ok h | Concurrent h \<Rightarrow> True"
  shows "\<exists>contract outcome handle'. try_submit_lossless_packet hashes packet handle = Some (contract, outcome, handle') \<and>
    (case handle of
       Sequential h \<Rightarrow>
         let lane = lane_of hashes (pk_flow_id packet) tree (length (sh_packet_senders h))
         in if contract = TreeVisibleNonBlocking
            then lane < length (sh_packet_senders h) \<and>
              (\<exists>ch. (outcome, ch) = try_send (ProcessPacket packet) (sh_packet_senders h ! lane) \<and>
                 handle' = Sequential (h\<lparr>sh_packet_senders := (sh_packet_senders h)[lane := ch]\<rparr>))
            else \<exists>ch. (outcome, ch) = try_send (ProcessPacket packet) (sh_connector h) \<and>
                 handle' = Sequential (h\<lparr>sh_connector := ch\<rparr>)
     | Concurrent h \<Rightarrow> contract = SharedQueueNonBlocking \<and>
         (if to_processor (cp_config h) packet
          then \<exists>ch. (outcome, ch) = try_send (ProcessPacket packet) (cp_packet_sender h) \<and>
            handle' = Concurrent (h\<lparr>cp_packet_sender := ch\<rparr>)
          else \<exists>ch. (outcome, ch) = try_send (ProcessPacket packet) (cp_connector h) \<and>
            handle' = Concurrent (h\<lparr>cp_connector := ch\<rparr>)))"
proof (cases handle)
  case (Sequential h)
  let ?n = "length (sh_packet_senders h)"
  have "lane_of hashes (pk_flow_id packet) tree ?n < ?n"
    using assms Sequential by (intro lane_of_less) (simp_all add: lanes_ok_def)
  then show ?thesis using Sequential
    by (cases "try_send (ProcessPacket packet) (sh_packet_senders h ! lane_of hashes (pk_flow_id packet) tree ?n)";
        cases "try_send (ProcessPacket packet) (sh_connector h)")
      (simp add: try_submit_lossless_packet_def seq_try_process_packet_def seq_try_send_to_processor_def
        select_lane [OF assms(2)] seq_lossless_ingress_contract_def Let_def)
next
  case (Concurrent h)
  then show ?thesis
    by (cases "try_send (ProcessPacket packet) (cp_packet_sender h)"; cases "try_send (ProcessPacket packet) (cp_connector h)")
      (simp add: try_submit_lossless_packet_def conc_try_process_packet_def conc_lossless_ingress_contract_def Let_def)
qed

text \<open>Submitting packets one after the other; the accepted ones.\<close>

fun submit_all :: "Hashes \<Rightarrow> Packet list \<Rightarrow> SequentialProcHandle \<Rightarrow> (Packet list \<times> SequentialProcHandle) may_panic" where
  "submit_all hashes [] h = Some ([], h)"
| "submit_all hashes (packet # packets) h =
     (case seq_try_process_packet hashes packet h of
        None \<Rightarrow> None
      | Some (outcome, h) \<Rightarrow>
          map_option (\<lambda>(accepted, h). (if outcome = Queued then packet # accepted else accepted, h))
            (submit_all hashes packets h))"

definition of_stream :: "FlowId \<Rightarrow> u16 option \<Rightarrow> Packet \<Rightarrow> bool" where
  "of_stream flow_id tree packet \<longleftrightarrow> pk_flow_id packet = flow_id \<and> lossless_fec_tree_id packet = Some tree"

definition stream_on :: "FlowId \<Rightarrow> u16 option \<Rightarrow> lane \<Rightarrow> Packet list" where
  "stream_on flow_id tree ch = concat (map (\<lambda>p. case p of
     ProcessPacket packet \<Rightarrow> if of_stream flow_id tree packet then [packet] else []
   | SendLinkProbePackets _ _ \<Rightarrow> []) (ch_items ch))"

lemma try_send_stream:
  "try_send (ProcessPacket packet) ch = (outcome, ch') \<Longrightarrow>
     stream_on flow_id tree ch' = stream_on flow_id tree ch @
       (if outcome = Queued \<and> of_stream flow_id tree packet then [packet] else [])"
  by (auto simp: try_send_def stream_on_def split: if_splits)

lemma try_process_stream:
  assumes "hashes_ok hashes" "lanes_ok h" "packet_wf packet"
    and n: "length (sh_packet_senders h) = n" and normal: "pc_operating_mode (sh_config h) = NormalMode"
  shows "\<exists>outcome h'. seq_try_process_packet hashes packet h = Some (outcome, h') \<and>
    sh_config h' = sh_config h \<and> length (sh_packet_senders h') = n \<and>
    (\<forall>flow_id tree lane. lane < n \<longrightarrow> stream_on flow_id tree (sh_packet_senders h' ! lane) =
       stream_on flow_id tree (sh_packet_senders h ! lane) @
       (if outcome = Queued \<and> of_stream flow_id tree packet \<and> lane = lane_of hashes flow_id tree n then [packet] else []))"
proof -
  obtain tree where tree: "lossless_fec_tree_id packet = Some tree" using fec_tree_total [OF assms(3)] by blast
  let ?lane = "lane_of hashes (pk_flow_id packet) tree n"
  have lane: "?lane < n" using assms(1,2) n by (intro lane_of_less) (auto simp: lanes_ok_def)
  obtain outcome ch where sent: "try_send (ProcessPacket packet) (sh_packet_senders h ! ?lane) = (outcome, ch)"
    by (cases "try_send (ProcessPacket packet) (sh_packet_senders h ! ?lane)")
  have "seq_try_process_packet hashes packet h =
      Some (outcome, h\<lparr>sh_packet_senders := (sh_packet_senders h)[?lane := ch]\<rparr>)"
    using lane n normal sent
    by (simp add: seq_try_process_packet_def to_processor_def seq_try_send_to_processor_def select_lane [OF tree])
  then show ?thesis using try_send_stream [OF sent] tree n lane
    by (auto simp: nth_list_update of_stream_def)
qed

text \<open>C19. Streams stay in order: on a node in normal mode, submitting packets never panics, and for every
  flow and tree the packets accepted are added, in the order of submission, to the one lane
  their flow and tree choose and to no other lane.\<close>

theorem ingress_keeps_order:
  assumes "hashes_ok hashes" "lanes_ok h" "\<forall>packet \<in> set packets. packet_wf packet"
    and "pc_operating_mode (sh_config h) = NormalMode"
  shows "\<exists>accepted h'. submit_all hashes packets h = Some (accepted, h') \<and>
    length (sh_packet_senders h') = length (sh_packet_senders h) \<and>
    (\<forall>flow_id tree lane. lane < length (sh_packet_senders h) \<longrightarrow>
       stream_on flow_id tree (sh_packet_senders h' ! lane) = stream_on flow_id tree (sh_packet_senders h ! lane) @
         (if lane = lane_of hashes flow_id tree (length (sh_packet_senders h))
          then filter (of_stream flow_id tree) accepted else []))"
  using assms(2-)
proof (induction packets arbitrary: h)
  case (Cons packet packets)
  let ?n = "length (sh_packet_senders h)"
  obtain outcome h1 where step: "seq_try_process_packet hashes packet h = Some (outcome, h1)"
    "sh_config h1 = sh_config h" "length (sh_packet_senders h1) = ?n"
    "\<forall>flow_id tree lane. lane < ?n \<longrightarrow> stream_on flow_id tree (sh_packet_senders h1 ! lane) =
       stream_on flow_id tree (sh_packet_senders h ! lane) @
       (if outcome = Queued \<and> of_stream flow_id tree packet \<and> lane = lane_of hashes flow_id tree ?n then [packet] else [])"
    using try_process_stream [OF assms(1) Cons.prems(1) _ refl Cons.prems(3), of packet] Cons.prems(2) by auto
  have ok: "lanes_ok h1" using Cons.prems(1) step(3) by (auto simp: lanes_ok_def)
  obtain accepted h' where rest: "submit_all hashes packets h1 = Some (accepted, h')"
    "length (sh_packet_senders h') = ?n"
    "\<forall>flow_id tree lane. lane < ?n \<longrightarrow>
       stream_on flow_id tree (sh_packet_senders h' ! lane) = stream_on flow_id tree (sh_packet_senders h1 ! lane) @
         (if lane = lane_of hashes flow_id tree ?n then filter (of_stream flow_id tree) accepted else [])"
    using Cons.IH [OF ok] Cons.prems(2,3) step(2,3) by auto
  show ?case
    by (intro exI [of _ "if outcome = Queued then packet # accepted else accepted"] exI [of _ h'])
      (use step rest in auto)
qed simp

section \<open>Delivery\<close>

lemma tcp_payload_wf: "packet_wf packet \<Longrightarrow> \<exists>payload. tcp_payload packet = Some payload"
  using tcp_payload_total by blast

lemma session_id_wf: "packet_wf packet \<Longrightarrow> \<exists>session. lossless_session_id packet = Some session"
  using transport_meta_total by (auto simp: lossless_session_id_def)

lemma try_deliver_total: "packet_wf packet \<Longrightarrow> \<exists>delivered. try_deliver_lossless packet p = Some delivered"
  using tcp_payload_wf [of packet] session_id_wf [of packet]
  by (auto simp: try_deliver_lossless_def Let_def split: option.split)

text \<open>The one way to fail: a packet for the user-space server of the node, delivered before the server
  is connected.\<close>

definition awaits_server :: "Packet \<Rightarrow> Processor \<Rightarrow> bool" where
  "awaits_server packet p \<longleftrightarrow> try_deliver_lossless packet p = Some None \<and>
     flow_dst_ip (pk_flow_id packet) \<noteq> pc_local_address (pr_config p) \<and>
     pr_user_space_senders p (pk_flow_id packet) = None \<and>
     flow_dst_port (pk_flow_id packet) = rc_user_space_server_port (pc_route (pr_config p)) \<and> \<not> pr_server p"

lemma user_space_panics:
  "user_space_sender add_server flow_id p = None \<longleftrightarrow> pr_user_space_senders p flow_id = None \<and>
     flow_dst_port flow_id = rc_user_space_server_port (pc_route (pr_config p)) \<and> \<not> pr_server p"
  by (auto simp: user_space_sender_def Let_def split: option.split)

lemma deliver_panics:
  assumes "packet_wf packet"
  shows "deliver_locally add_server packet p = None \<longleftrightarrow> awaits_server packet p"
proof -
  obtain delivered where "try_deliver_lossless packet p = Some delivered" using try_deliver_total [OF assms] by blast
  then show ?thesis
    by (cases delivered)
      (auto simp: deliver_locally_def awaits_server_def user_space_panics Option.bind_eq_None_conv split: prod.splits)
qed

text \<open>What sending a packet leaves alone; senders are only added.\<close>

definition keeps_processor :: "Processor \<Rightarrow> Processor \<Rightarrow> bool" where
  "keeps_processor p p' \<longleftrightarrow> pr_config p' = pr_config p \<and> pr_server p' = pr_server p \<and>
     pr_lossless_handle p' = pr_lossless_handle p \<and> pr_routing_table p' = pr_routing_table p \<and>
     pr_schedulers p' = pr_schedulers p \<and> dom (pr_user_space_senders p) \<subseteq> dom (pr_user_space_senders p')"

lemma keeps_processor_refl [simp]: "keeps_processor p p"
  by (simp add: keeps_processor_def)

lemma try_deliver_table [simp]: "try_deliver_lossless packet (p\<lparr>pr_routing_table := rt\<rparr>) = try_deliver_lossless packet p"
  by (simp add: try_deliver_lossless_def cong: option.case_cong)

lemma user_space_keeps: "user_space_sender add_server flow_id p = Some (dest, effects, p') \<Longrightarrow> keeps_processor p p'"
  by (auto simp: user_space_sender_def keeps_processor_def Let_def split: option.splits if_splits)

lemma deliver_keeps: "deliver_locally add_server packet p = Some (effects, p') \<Longrightarrow> keeps_processor p p'"
  by (auto simp: deliver_locally_def Let_def
      split: Option.bind_splits option.splits if_splits dest: user_space_keeps)

lemma send_keeps: "send_packet add_server packet hop p = Some (effects, p') \<Longrightarrow> keeps_processor p p'"
  using deliver_keeps by (auto simp: send_packet_def split: if_splits)

lemma awaits_keeps: "keeps_processor p p' \<Longrightarrow> awaits_server packet p' \<Longrightarrow> awaits_server packet p"
  by (auto simp: awaits_server_def try_deliver_lossless_def keeps_processor_def dom_def)

lemma hops_panic:
  assumes "packet_wf packet"
  shows "send_to_hops add_server packet hops p = None \<longleftrightarrow>
    rt_local_id (pr_routing_table p) \<in> set hops \<and> awaits_server packet p"
proof (induction hops arbitrary: p)
  case (Cons hop hops)
  show ?case
  proof (cases "send_packet add_server packet hop p")
    case None
    then show ?thesis using deliver_panics [OF assms] by (auto simp: send_packet_def split: if_splits)
  next
    case (Some r)
    then obtain effects p' where r: "send_packet add_server packet hop p = Some (effects, p')" by (cases r) auto
    note keeps = send_keeps [OF r]
    show ?thesis
    proof (cases "hop = rt_local_id (pr_routing_table p)")
      case True
      then have no: "\<not> awaits_server packet p" using r deliver_panics [OF assms, of add_server p] by (auto simp: send_packet_def)
      then have "\<not> awaits_server packet p'" using awaits_keeps [OF keeps] by blast
      then show ?thesis using Cons.IH [of p'] r no by simp
    next
      case False
      then have "p' = p" using r by (simp add: send_packet_def)
      then show ?thesis using Cons.IH [of p] r False by auto
    qed
  qed
qed simp

text \<open>C21. When a processor panics: processing a packet panics exactly when its next hops include the node
  itself, the packet is not for the lossless runtime or the local interface, there is no sender for
  its flow, it is addressed to the port of the user-space server, and the server has not been
  connected yet.\<close>

theorem processor_panics_exactly:
  assumes "packet_wf packet" "slot_ok slot" "table_ok (pr_routing_table p)"
  shows "process_packet slot order add_server packet p = None \<longleftrightarrow>
    awaits_server packet p \<and>
    (\<exists>tree hops reports rt. lossless_fec_tree_id packet = Some tree \<and>
       get_next_hops_by_flow_and_tree slot order (pk_flow_id packet) tree (pr_flowstats_reporter p) (pr_routing_table p) =
         Some (Inr hops, reports, rt) \<and>
       rt_local_id (pr_routing_table p) \<in> set hops)"
proof -
  obtain tree where tree: "lossless_fec_tree_id packet = Some tree" using fec_tree_total [OF assms(1)] by blast
  obtain found reports rt where look: "get_next_hops_by_flow_and_tree slot order (pk_flow_id packet) tree
      (pr_flowstats_reporter p) (pr_routing_table p) = Some (found, reports, rt)"
    using lookup_total [OF assms(2,3)] by (metis not_Some_eq prod_cases3)
  have id: "rt_local_id rt = rt_local_id (pr_routing_table p)" using lookup_same [OF look] by (simp add: same_routes_def)
  have awaits: "awaits_server packet (p\<lparr>pr_routing_table := rt\<rparr>) = awaits_server packet p"
    by (simp add: awaits_server_def)
  show ?thesis
  proof (cases found)
    case (Inl e)
    then show ?thesis using tree look by (simp add: process_packet_def)
  next
    case (Inr hops)
    then show ?thesis using tree look hops_panic [OF assms(1), of add_server hops "p\<lparr>pr_routing_table := rt\<rparr>"] id awaits
      by (auto simp: process_packet_def Let_def)
  qed
qed

lemma lookup_any_tree:
  assumes "key_for_flow rt flow_id None = Some (Unicast s d)"
  shows "get_next_hops_by_flow_and_tree slot order flow_id tree has_reporter rt =
    get_next_hops_by_flow_and_tree slot order flow_id None has_reporter rt"
proof -
  have "key_for_flow rt flow_id tree = Some (Unicast s d)"
    using assms by (auto simp: key_for_flow_def Let_def split: if_splits option.splits)
  then show ?thesis using assms by (cases tree) (simp_all add: get_next_hops_by_flow_and_tree_def)
qed

section \<open>Session frames\<close>

text \<open>The frame the lossless runtime is given for a packet built around a session frame.\<close>

definition delivered_frame :: "RouteConfig \<Rightarrow> FrameRoute \<Rightarrow> bytes \<Rightarrow> ProcEffect" where
  "delivered_frame config route payload =
     (let src_node = ip_to_node_id config (fr_src_ip route)
      in DeliverLossless (fr_session_id route)
        \<lparr>if_bytes = payload, if_peer_id = (if src_node = INVALID then None else Some (word_of_nat src_node))\<rparr>)"

definition hop_effects :: "Processor \<Rightarrow> FrameRoute \<Rightarrow> bytes \<Rightarrow> Packet \<Rightarrow> nat \<Rightarrow> ProcEffect list" where
  "hop_effects p route payload packet hop =
     (if hop = rt_local_id (pr_routing_table p) then [delivered_frame (pc_route (pr_config p)) route payload]
      else case pr_schedulers p hop of Some scheduler \<Rightarrow> [SchedulerSend scheduler packet] | None \<Rightarrow> [])"

lemma frame_packet:
  assumes "build_packet route payload = Some packet"
  shows "pk_flow_id packet = flow_id_from_parts (fr_src_ip route) (fr_src_port route) (fr_dst_ip route) (fr_dst_port route)"
    "lossless_session_id packet = Some (Some (fr_session_id route))" "lossless_fec_tree_id packet = Some (fr_tree_id route)"
    "56 + length payload < 2 ^ 16 \<Longrightarrow> tcp_payload packet = Some (Some payload)"
  using built_packet [of route payload] assms by auto

lemma frame_sent:
  assumes "build_packet route payload = Some packet" "56 + length payload < 2 ^ 16" "pr_lossless_handle p"
  shows "send_packet add_server packet hop p = Some (hop_effects p route payload packet hop, p)"
  using frame_packet [OF assms(1)] assms(2,3)
  by (auto simp: send_packet_def deliver_locally_def try_deliver_lossless_def hop_effects_def delivered_frame_def
      flow_id_fields Let_def)

lemma frame_fan_out:
  assumes "build_packet route payload = Some packet" "56 + length payload < 2 ^ 16" "pr_lossless_handle p"
  shows "send_to_hops add_server packet hops p = Some (concat (map (hop_effects p route payload packet) hops), p)"
  by (induction hops) (simp_all add: frame_sent [OF assms])

lemma frame_processed:
  assumes "build_packet route payload = Some packet" "56 + length payload < 2 ^ 16" "pr_lossless_handle p"
    and "get_next_hops_by_flow_and_tree slot order (pk_flow_id packet) (fr_tree_id route)
      (pr_flowstats_reporter p) (pr_routing_table p) = Some (Inr hops, reports, rt)"
  shows "process_packet slot order add_server packet p =
    Some (map (\<lambda>(flow_id, route_id). ReportRoute flow_id route_id) reports @
      concat (map (hop_effects p route payload packet) hops), p\<lparr>pr_routing_table := rt\<rparr>)"
proof -
  have "rt_local_id rt = rt_local_id (pr_routing_table p)"
    using lookup_same [OF assms(4)] by (simp add: same_routes_def)
  then have "hop_effects (p\<lparr>pr_routing_table := rt\<rparr>) = hop_effects p"
    by (simp add: hop_effects_def fun_eq_iff)
  then show ?thesis
    using frame_fan_out [OF assms(1,2), of "p\<lparr>pr_routing_table := rt\<rparr>"] assms(3,4) frame_packet(3) [OF assms(1)]
    by (simp add: process_packet_def Let_def)
qed

text \<open>A node treats a session frame exactly as its routing table says: for a packet built around a
  frame that fits the envelope, on a node whose lossless runtime is connected, the processor hands
  the packet once to the scheduler of each next hop that is another node it has a link to, and for
  a next hop that is the node itself hands the runtime the frame's session, its bytes and the node
  that sent it; nothing else happens but the route report, and only the lookup caches change.\<close>

theorem session_frame_forwarded:
  assumes "build_packet route payload = Some packet" "56 + length payload < 2 ^ 16" "pr_lossless_handle p"
    and "get_next_hops_by_flow_and_tree slot order (pk_flow_id packet) (fr_tree_id route)
      (pr_flowstats_reporter p) (pr_routing_table p) = Some (Inr hops, reports, rt)"
  shows "process_packet slot order add_server packet p =
    Some (map (\<lambda>(flow_id, route_id). ReportRoute flow_id route_id) reports @
      concat (map (hop_effects p route payload packet) hops), p\<lparr>pr_routing_table := rt\<rparr>)"
  by (rule frame_processed [OF assms])

section \<open>A node\<close>

text \<open>A frame from node 1 to node 2, two lanes of one packet each, and a processor whose table sends the
  flow to the node itself.\<close>

definition example_frame_route :: FrameRoute where
  "example_frame_route = \<lparr>fr_session_id = 9, fr_tree_id = Some 3, fr_src_ip = 0x0A000001, fr_src_port = 1,
     fr_dst_ip = 0x0A000002, fr_dst_port = 2\<rparr>"

definition example_hashes :: Hashes where
  "example_hashes = \<lparr>hs_flow = (\<lambda>_ _. 0), hs_tree = (\<lambda>(_, tree) n. if 1 < n \<and> tree = 3 then 1 else 0)\<rparr>"

definition example_config_1 :: ProcConfig where
  "example_config_1 = \<lparr>pc_node_id = 1, pc_route = example_config\<lparr>rc_user_space_server_port := 2\<rparr>, pc_local_address = 0,
     pc_operating_mode = NormalMode, pc_channel_backpressure = False\<rparr>"

definition example_handle :: SequentialProcHandle where
  "example_handle = (let ch = \<lparr>ch_items = [], ch_capacity = 1, ch_closed = False\<rparr>
     in \<lparr>sh_config = example_config_1, sh_packet_senders = [ch, ch], sh_connector = ch\<rparr>)"

definition example_processor :: "bool \<Rightarrow> Processor" where
  "example_processor lossless = (processor_new example_config_1)\<lparr>pr_lossless_handle := lossless,
     pr_routing_table := install_routes []
       [\<lparr>re_route_id = 4, re_next_hops = [1], re_src_node_id = 1, re_dst_node_id = 2\<rparr>] example_table\<rparr>"

lemma built_packet_wf: "build_packet route payload = Some packet \<Longrightarrow> packet_wf packet"
  using packet_new_wf unfolding build_packet_def build_ipv4_tcp_packet_with_lossless_meta_def packet_from_vec_def
  by (metis option.inject)

lemma example_packet:
  obtains packet where "build_packet example_frame_route [7, 8] = Some packet" "packet_wf packet"
    "pk_flow_id packet = flow_1_2" "lossless_fec_tree_id packet = Some (Some 3)"
  using built_packet [of example_frame_route "[7, 8]"] built_packet_wf
  by (auto simp: example_frame_route_def flow_1_2_def)

lemma example_hashes_ok: "hashes_ok example_hashes"
  by (auto simp: hashes_ok_def example_hashes_def word_neq_0_conv)

lemma example_lanes: "lanes_ok example_handle" "length (sh_packet_senders example_handle) = 2"
  "lane_of example_hashes flow (Some 3) 2 = 1"
  by (simp_all add: lanes_ok_def example_handle_def Let_def lane_of_def example_hashes_def)

lemma ingress_contract_honest_witness:
  "\<exists>packet handle'. build_packet example_frame_route [7, 8] = Some packet \<and>
     try_submit_lossless_packet example_hashes packet (Sequential example_handle) =
       Some (TreeVisibleNonBlocking, Queued, handle')"
proof -
  obtain packet where p: "build_packet example_frame_route [7, 8] = Some packet" "pk_flow_id packet = flow_1_2"
    "lossless_fec_tree_id packet = Some (Some 3)" by (rule example_packet)
  obtain contract outcome handle' where r:
    "try_submit_lossless_packet example_hashes packet (Sequential example_handle) = Some (contract, outcome, handle')"
    "let lane = lane_of example_hashes (pk_flow_id packet) (Some 3) (length (sh_packet_senders example_handle))
         in if contract = TreeVisibleNonBlocking
            then lane < length (sh_packet_senders example_handle) \<and>
              (\<exists>ch. (outcome, ch) = try_send (ProcessPacket packet) (sh_packet_senders example_handle ! lane) \<and>
                 handle' = Sequential (example_handle\<lparr>sh_packet_senders := (sh_packet_senders example_handle)[lane := ch]\<rparr>))
            else \<exists>ch. (outcome, ch) = try_send (ProcessPacket packet) (sh_connector example_handle) \<and>
                 handle' = Sequential (example_handle\<lparr>sh_connector := ch\<rparr>)"
    using ingress_contract_honest [OF example_hashes_ok p(3), of "Sequential example_handle"] example_lanes(1) by auto
  have "contract = TreeVisibleNonBlocking"
    using r(1) by (auto simp: try_submit_lossless_packet_def seq_lossless_ingress_contract_def to_processor_def
        example_handle_def example_config_1_def Let_def)
  moreover from this r(2) have "outcome = Queued"
    by (auto simp: example_lanes example_handle_def try_send_def Let_def lane_of_def example_hashes_def)
  ultimately show ?thesis using p(1) r(1) by blast
qed

lemma ingress_keeps_order_witness:
  "\<exists>packet accepted h'. build_packet example_frame_route [7, 8] = Some packet \<and>
     submit_all example_hashes [packet, packet] example_handle = Some (accepted, h') \<and>
     stream_on flow_1_2 (Some 3) (sh_packet_senders h' ! 1) = filter (of_stream flow_1_2 (Some 3)) accepted \<and>
     stream_on flow_1_2 (Some 3) (sh_packet_senders h' ! 0) = []"
proof -
  obtain packet where p: "build_packet example_frame_route [7, 8] = Some packet" "packet_wf packet"
    by (rule example_packet)
  have "\<forall>packet \<in> set [packet, packet]. packet_wf packet" using p(2) by simp
  moreover have "pc_operating_mode (sh_config example_handle) = NormalMode"
    by (simp add: example_handle_def example_config_1_def Let_def)
  ultimately obtain accepted h' where r: "submit_all example_hashes [packet, packet] example_handle = Some (accepted, h')"
    "\<forall>flow_id tree lane. lane < 2 \<longrightarrow>
       stream_on flow_id tree (sh_packet_senders h' ! lane) = stream_on flow_id tree (sh_packet_senders example_handle ! lane) @
         (if lane = lane_of example_hashes flow_id tree 2 then filter (of_stream flow_id tree) accepted else [])"
    using ingress_keeps_order [OF example_hashes_ok example_lanes(1)] unfolding example_lanes(2) by blast
  have "stream_on flow_1_2 (Some 3) (sh_packet_senders example_handle ! i) = []" if "i < 2" for i
    using that by (auto simp: example_handle_def stream_on_def Let_def less_2_cases_iff)
  then show ?thesis using p(1) r by (auto simp: example_lanes(3) simp del: submit_all.simps)
qed

lemma example_lookup:
  "key_for_flow (pr_routing_table (example_processor lossless)) flow_1_2 None = Some (Unicast 1 2)"
  "\<exists>reports rt. get_next_hops_by_flow_and_tree slot_0 [] flow_1_2 (Some 3) False
     (pr_routing_table (example_processor lossless)) = Some (Inr [1], reports, rt)"
  "table_ok (pr_routing_table (example_processor lossless))"
  "rt_local_id (pr_routing_table (example_processor lossless)) = 1"
proof -
  let ?rs = "[\<lparr>re_route_id = 4, re_next_hops = [1], re_src_node_id = 1, re_dst_node_id = 2\<rparr>]"
  let ?rt = "install_routes [] ?rs example_table"
  have rt: "pr_routing_table (example_processor lossless) = ?rt" by (simp add: example_processor_def)
  show key: "key_for_flow (pr_routing_table (example_processor lossless)) flow_1_2 None = Some (Unicast 1 2)"
    unfolding rt using example_keys(1) key_for_flow_cong [of ?rt example_table]
    by (simp add: install_routes_def install_route_def Let_def)
  have "set [] = dom (rt_available_routes example_table)" by (simp add: example_table_fields)
  from installed_lookup [OF slot_0_ok this _ _ example_keys(1) refl, of ?rs "[]" False]
  have "\<exists>reports rt. get_next_hops_by_flow_and_tree slot_0 [] flow_1_2 None False ?rt = Some (Inr [1], reports, rt)"
    by (auto simp: routes_between_def INVALID_def)
  then show "\<exists>reports rt. get_next_hops_by_flow_and_tree slot_0 [] flow_1_2 (Some 3) False
     (pr_routing_table (example_processor lossless)) = Some (Inr [1], reports, rt)"
    using lookup_any_tree [OF key, of slot_0 "[]" "Some 3" False] unfolding rt by simp
  show "table_ok (pr_routing_table (example_processor lossless))"
    unfolding rt by (auto simp: table_ok_def install_routes_def install_route_def Let_def example_table_fields split: if_splits)
  show "rt_local_id (pr_routing_table (example_processor lossless)) = 1"
    unfolding rt by (simp add: install_routes_def install_route_def Let_def example_table_def install_group_directory_def
        routing_table_new_def)
qed

lemma processor_panics_exactly_witness:
  "\<exists>packet. build_packet example_frame_route [7, 8] = Some packet \<and>
     process_packet slot_0 [] (\<lambda>_. 0) packet (example_processor False) = None"
proof -
  obtain packet where p: "build_packet example_frame_route [7, 8] = Some packet" "packet_wf packet"
    "pk_flow_id packet = flow_1_2" "lossless_fec_tree_id packet = Some (Some 3)" by (rule example_packet)
  have "pr_flowstats_reporter (example_processor False) = False" by (simp add: example_processor_def processor_new_def)
  moreover have "awaits_server packet (example_processor False)"
    unfolding awaits_server_def p(3)
    by (simp add: try_deliver_lossless_def example_processor_def processor_new_def example_config_1_def flow_1_2_def flow_id_fields)
  ultimately show ?thesis
    using p processor_panics_exactly [OF p(2) slot_0_ok example_lookup(3), of "[]" "\<lambda>_. 0" False] example_lookup(2,4) [of False]
    by auto
qed

lemma session_frame_forwarded_witness:
  "\<exists>packet p'. build_packet example_frame_route [7, 8] = Some packet \<and>
     process_packet slot_0 [] (\<lambda>_. 0) packet (example_processor True) =
       Some ([DeliverLossless 9 \<lparr>if_bytes = [7, 8], if_peer_id = Some 1\<rparr>], p')"
proof -
  obtain packet where p: "build_packet example_frame_route [7, 8] = Some packet"
    "pk_flow_id packet = flow_1_2" by (rule example_packet)
  have off: "pr_flowstats_reporter (example_processor True) = False" and on: "pr_lossless_handle (example_processor True)"
    by (simp_all add: example_processor_def processor_new_def)
  obtain reports rt where look: "get_next_hops_by_flow_and_tree slot_0 [] (pk_flow_id packet) (fr_tree_id example_frame_route)
      (pr_flowstats_reporter (example_processor True)) (pr_routing_table (example_processor True)) = Some (Inr [1], reports, rt)"
    using example_lookup(2) [of True] unfolding off p(2) by (auto simp: example_frame_route_def)
  have "reports = []"
    using look unfolding off get_next_hops_by_flow_and_tree_def
    by (auto simp: next_hops_for_key_def report_route_assignment_def split: if_splits option.splits prod.splits RouteKey.splits)
  moreover have "hop_effects (example_processor True) example_frame_route [7, 8] packet 1 =
      [DeliverLossless 9 \<lparr>if_bytes = [7, 8], if_peer_id = Some 1\<rparr>]"
    using example_lookup(4) [of True]
    by (simp add: hop_effects_def delivered_frame_def example_processor_def processor_new_def example_config_1_def
        example_frame_route_def ip_to_node_id_def example_config_def INVALID_def Let_def)
  ultimately show ?thesis
    using session_frame_forwarded [OF p(1) _ on look, of "\<lambda>_. 0"] p(1) by auto
qed

end
