(* ===== verification/Network.thy ===== *)
theory Network
  imports Processor Controller_Routes
begin

text \<open>
  Nodes that forward to each other.  The packet a processor gives to the scheduler of a link is handed
  to the processor at the other end (the scheduler, the framing and the readers in between are the
  theories \<open>Scheduler\<close> and \<open>Framing\<close>); what a processor does at its own node is a local effect.  The
  tables of the nodes come from the routes the controller computed.
\<close>

section \<open>Runs\<close>

definition forwarded :: "ProcEffect list \<Rightarrow> (nat \<times> Packet) list" where
  "forwarded effects = concat (map (\<lambda>e. case e of SchedulerSend node packet \<Rightarrow> [(node, packet)] | _ \<Rightarrow> []) effects)"

definition local_effects :: "nat \<Rightarrow> ProcEffect list \<Rightarrow> (nat \<times> ProcEffect) list" where
  "local_effects n effects = concat (map (\<lambda>e. case e of SchedulerSend _ _ \<Rightarrow> [] | _ \<Rightarrow> [(n, e)]) effects)"

text \<open>A run for a number of turns: the packets under way, oldest first, each with the node it arrives
  at.  The scheduler of the link to a node has the number of that node.\<close>

fun network_run ::
    "(RouteKey \<Rightarrow> u32 \<Rightarrow> u32) \<Rightarrow> RouteKey list \<Rightarrow> (FlowId \<Rightarrow> nat) \<Rightarrow> nat \<Rightarrow> (nat \<Rightarrow> Processor) \<Rightarrow> (nat \<times> Packet) list \<Rightarrow>
     ((nat \<times> ProcEffect) list \<times> (nat \<Rightarrow> Processor) \<times> (nat \<times> Packet) list) may_panic" where
  "network_run slot order add_server 0 procs flight = Some ([], procs, flight)"
| "network_run slot order add_server (Suc turns) procs [] = Some ([], procs, [])"
| "network_run slot order add_server (Suc turns) procs ((n, packet) # flight) =
     (case process_packet slot order add_server packet (procs n) of
        None \<Rightarrow> None
      | Some (effects, p) \<Rightarrow>
          map_option (\<lambda>(done, procs, flight). (local_effects n effects @ done, procs, flight))
            (network_run slot order add_server turns (procs(n := p)) (flight @ forwarded effects)))"

section \<open>Unicast routes\<close>

lemma install_routes_local_id [simp]: "rt_local_id (install_routes order routes rt) = rt_local_id rt"
proof -
  have remove: "rt_local_id (fold remove_key keys rt) = rt_local_id rt" for keys rt
    by (induction keys arbitrary: rt) (auto simp: remove_key_def split: option.split)
  have install: "rt_local_id (fold install_route routes rt) = rt_local_id rt" for rt
    by (induction routes arbitrary: rt) (auto simp: install_route_def Let_def)
  show ?thesis by (simp add: install_routes_def Let_def remove install)
qed

text \<open>Node \<open>n\<close> has installed its entries of the routes, knows the links to its next hops on \<open>route\<close> and
  has its lossless runtime connected.\<close>

definition node_ready ::
    "(edges \<Rightarrow> nat \<Rightarrow> nat list) \<Rightarrow> (edges \<Rightarrow> nat \<Rightarrow> nat list) \<Rightarrow> Route list \<Rightarrow> FlowId \<Rightarrow> nat \<Rightarrow> nat \<Rightarrow> nat \<Rightarrow> Processor \<Rightarrow> bool" where
  "node_ready outgoing incoming routes flow_id s d n p \<longleftrightarrow>
     pr_lossless_handle p \<and> rt_local_id (pr_routing_table p) = n \<and>
     (\<exists>rt order. set order = dom (rt_available_routes rt) \<and> key_for_flow rt flow_id None = Some (Unicast s d) \<and>
        pr_routing_table p = install_routes order (node_entries outgoing incoming routes n) rt) \<and>
     (\<forall>route \<in> set routes. on_route n s d route \<longrightarrow> path_hop route n \<noteq> n \<longrightarrow>
        pr_schedulers p (path_hop route n) = Some (path_hop route n))"

lemma ready_key:
  assumes "node_ready outgoing incoming routes flow_id s d n p"
  shows "key_for_flow (pr_routing_table p) flow_id None = Some (Unicast s d)"
proof -
  obtain rt order where rt: "key_for_flow rt flow_id None = Some (Unicast s d)"
    "pr_routing_table p = install_routes order (node_entries outgoing incoming routes n) rt"
    using assms by (auto simp: node_ready_def)
  have "rt_config (pr_routing_table p) = rt_config rt" "rt_group_dir (pr_routing_table p) = rt_group_dir rt"
    unfolding rt(2) by (simp_all add: install_routes_def Let_def fold_install_routes)
  then show ?thesis using key_for_flow_cong rt(1) by metis
qed

lemma ready_lookup:
  assumes graph: "digraph outgoing incoming" and paths: "\<forall>route \<in> set routes. \<exists>p. route_path route p"
    and ids: "distinct (map ro_route_id routes)" "length routes < 2 ^ 32" and slot: "slot_ok slot"
    and only: "\<forall>r \<in> set routes. ro_src_node_id r = s \<and> ro_dst_node_id r = d \<longrightarrow> r = route"
    and on: "route \<in> set routes" "on_route n s d route"
    and ready: "node_ready outgoing incoming routes flow_id s d n p"
  shows "\<exists>reports rt. get_next_hops_by_flow_and_tree slot order flow_id tree has_reporter (pr_routing_table p) =
    Some (Inr [path_hop route n], reports, rt)"
proof -
  obtain rt order' where "set order' = dom (rt_available_routes rt)" "key_for_flow rt flow_id None = Some (Unicast s d)"
    "pr_routing_table p = install_routes order' (node_entries outgoing incoming routes n) rt"
    using ready by (auto simp: node_ready_def)
  from node_lookup [OF graph paths ids slot this, of order has_reporter] on
  obtain r reports rt' where r: "r \<in> set routes" "on_route n s d r"
    and look: "get_next_hops_by_flow_and_tree slot order flow_id None has_reporter (pr_routing_table p) =
      Some (Inr [path_hop r n], reports, rt')"
    by (auto split: if_splits)
  then have "r = route" using only by (simp add: on_route_def)
  then show ?thesis
    using look unfolding lookup_any_tree [OF ready_key [OF ready], of slot order tree has_reporter] by blast
qed

lemma path_on_route:
  "route_path route p \<Longrightarrow> ro_src_node_id route = s \<Longrightarrow> ro_dst_node_id route = d \<Longrightarrow> n \<in> set p \<Longrightarrow> on_route n s d route"
  by (simp add: on_route_def route_path_def nodes_of_path)

definition is_delivery :: "nat \<times> ProcEffect \<Rightarrow> bool" where
  "is_delivery = (\<lambda>(n, e). case e of DeliverLossless _ _ \<Rightarrow> True | _ \<Rightarrow> False)"

lemma effects_append [simp]:
  "forwarded (a @ b) = forwarded a @ forwarded b" "local_effects n (a @ b) = local_effects n a @ local_effects n b"
  by (simp_all add: forwarded_def local_effects_def)

lemma report_effects [simp]:
  "forwarded (map (\<lambda>(f, r). ReportRoute f r) reports) = []"
  "filter is_delivery (local_effects n (map (\<lambda>(f, r). ReportRoute f r) reports)) = []"
  by (induction reports) (auto simp: forwarded_def local_effects_def is_delivery_def)

lemma hop_effects_single [simp]:
  "forwarded [SchedulerSend m packet] = [(m, packet)]" "local_effects n [SchedulerSend m packet] = []"
  "forwarded [delivered_frame config frame payload] = []"
  "local_effects n [delivered_frame config frame payload] = [(n, delivered_frame config frame payload)]"
  "is_delivery (n, delivered_frame config frame payload)"
  by (simp_all add: forwarded_def local_effects_def is_delivery_def delivered_frame_def Let_def)

text \<open>From a node on the path, the frame reaches the last node.\<close>

lemma path_run:
  assumes graph: "digraph outgoing incoming" and paths: "\<forall>route \<in> set routes. \<exists>p. route_path route p"
    and ids: "distinct (map ro_route_id routes)" "length routes < 2 ^ 32" and slot: "slot_ok slot"
    and route: "route \<in> set routes" "route_path route p" "ro_src_node_id route = s" "ro_dst_node_id route = d"
    and only: "\<forall>r \<in> set routes. ro_src_node_id r = s \<and> ro_dst_node_id r = d \<longrightarrow> r = route"
    and packet: "build_packet frame payload = Some packet" "56 + length payload < 2 ^ 16"
    and ready: "\<forall>j < length p. i \<le> j \<longrightarrow> node_ready outgoing incoming routes (pk_flow_id packet) s d (p ! j) (procs (p ! j))"
    and i: "i < length p"
  shows "\<exists>done procs'. network_run slot order add_server (length p - i) procs [(p ! i, packet)] = Some (done, procs', []) \<and>
    filter is_delivery done = [(d, delivered_frame (pc_route (pr_config (procs d))) frame payload)]"
  using ready i
proof (induction "length p - i" arbitrary: i procs)
  case (Suc turns)
  let ?n = "p ! i"
  have d: "d = last p" and dist: "distinct p" using route by (simp_all add: route_path_def)
  have turns: "length p - i = Suc turns" using Suc.hyps(2) by simp
  have ready_n: "node_ready outgoing incoming routes (pk_flow_id packet) s d ?n (procs ?n)" using Suc.prems by simp
  have on: "on_route ?n s d route" using path_on_route [OF route(2-4)] Suc.prems(2) by simp
  obtain reports rt where look: "get_next_hops_by_flow_and_tree slot order (pk_flow_id packet) (fr_tree_id frame)
      (pr_flowstats_reporter (procs ?n)) (pr_routing_table (procs ?n)) = Some (Inr [path_hop route ?n], reports, rt)"
    using ready_lookup [OF graph paths ids slot only route(1) on ready_n] by blast
  have lossless: "pr_lossless_handle (procs ?n)" and local: "rt_local_id (pr_routing_table (procs ?n)) = ?n"
    using ready_n by (simp_all add: node_ready_def)
  let ?p' = "(procs ?n)\<lparr>pr_routing_table := rt\<rparr>"
  have processed: "process_packet slot order add_server packet (procs ?n) =
      Some (map (\<lambda>(f, r). ReportRoute f r) reports @ hop_effects (procs ?n) frame payload packet (path_hop route ?n), ?p')"
    using frame_processed [OF packet lossless look] by simp
  show ?case
  proof (cases "Suc i < length p")
    case True
    have hop: "path_hop route ?n = p ! Suc i" using path_hop_nth [OF route(2) Suc.prems(2)] True by simp
    have ne: "p ! Suc i \<noteq> ?n" using dist True by (simp add: nth_eq_iff_index_eq)
    then have "pr_schedulers (procs ?n) (p ! Suc i) = Some (p ! Suc i)"
      using ready_n route(1) on hop by (auto simp: node_ready_def)
    then have effects: "hop_effects (procs ?n) frame payload packet (path_hop route ?n) = [SchedulerSend (p ! Suc i) packet]"
      using ne by (simp add: hop_effects_def local hop)
    have "last p \<noteq> ?n"
      using dist True Suc.prems(2) by (cases p rule: rev_cases) (auto simp: nth_append)
    then have same: "(procs(?n := ?p')) d = procs d" by (simp add: d)
    have ready': "\<forall>j < length p. Suc i \<le> j \<longrightarrow>
        node_ready outgoing incoming routes (pk_flow_id packet) s d (p ! j) ((procs(?n := ?p')) (p ! j))"
      using Suc.prems dist by (auto simp: nth_eq_iff_index_eq)
    have turns': "turns = length p - Suc i" using turns by simp
    from Suc.hyps(1) [OF turns' ready' True]
    obtain "done" procs' where rest: "network_run slot order add_server turns (procs(?n := ?p')) [(p ! Suc i, packet)] = Some (done, procs', [])"
      "filter is_delivery done = [(d, delivered_frame (pc_route (pr_config (procs d))) frame payload)]"
      unfolding same turns' [symmetric] by blast
    show ?thesis unfolding turns
      using rest by (simp add: processed effects)
  next
    case False
    then have "i = length p - 1" "p \<noteq> []" using Suc.prems(2) by auto
    then have last: "?n = d" "turns = 0" using turns by (simp_all add: d last_conv_nth)
    have "path_hop route ?n = ?n" using path_hop_nth [OF route(2) Suc.prems(2)] False by simp
    then have effects: "hop_effects (procs ?n) frame payload packet (path_hop route ?n) =
        [delivered_frame (pc_route (pr_config (procs ?n))) frame payload]"
      by (simp add: hop_effects_def local)
    show ?thesis unfolding turns last(2)
      by (simp add: processed effects last(1) [symmetric])
  qed
qed simp

text \<open>C18. Frames reach their destination: on a network whose nodes have installed the entries the
  controller computes from its routes, with one route between two nodes, a session frame that fits
  the envelope, handed to the processor of the first node, crosses the nodes of the route in as many
  turns as it has nodes without a panic; the runtime of the last node is handed exactly this frame,
  once, no other runtime is handed anything, and nothing stays under way.\<close>

theorem network_delivers_frame:
  assumes graph: "digraph outgoing incoming" and paths: "\<forall>route \<in> set routes. \<exists>p. route_path route p"
    and ids: "distinct (map ro_route_id routes)" "length routes < 2 ^ 32" and slot: "slot_ok slot"
    and route: "route \<in> set routes" "route_path route p" "ro_src_node_id route = s" "ro_dst_node_id route = d"
    and only: "\<forall>r \<in> set routes. ro_src_node_id r = s \<and> ro_dst_node_id r = d \<longrightarrow> r = route"
    and packet: "build_packet frame payload = Some packet" "56 + length payload < 2 ^ 16"
    and ready: "\<forall>n \<in> set p. node_ready outgoing incoming routes (pk_flow_id packet) s d n (procs n)"
  shows "\<exists>done procs'. network_run slot order add_server (length p) procs [(s, packet)] = Some (done, procs', []) \<and>
    filter is_delivery done = [(d, delivered_frame (pc_route (pr_config (procs d))) frame payload)]"
proof -
  have "p \<noteq> []" using route(2) by (auto simp: route_path_def)
  then have p: "0 < length p" "p ! 0 = s" using route(2,3) by (simp_all add: route_path_def hd_conv_nth)
  show ?thesis
    using path_run [OF graph paths ids slot route only packet, of 0 procs] ready p by simp
qed

section \<open>Two nodes\<close>

definition example_proc_config :: "nat \<Rightarrow> ProcConfig" where
  "example_proc_config n = \<lparr>pc_node_id = n, pc_route = example_config, pc_local_address = 0x0A000000 + word_of_nat n,
     pc_operating_mode = NormalMode, pc_channel_backpressure = True\<rparr>"

text \<open>Node \<open>n\<close> has been told its routes, its link and its runtime.\<close>

definition example_procs :: "nat \<Rightarrow> Processor" where
  "example_procs n = fold (\<lambda>msg p. snd (handle_message [] [] msg p))
     [UpdateRoutingTable (node_entries targets sources [example_direct] n), AddNode 2 2, ConnectLosslessHandle]
     (processor_new (example_proc_config n))"

lemma example_procs_fields:
  "pr_lossless_handle (example_procs n)" "pr_schedulers (example_procs n) = [2 \<mapsto> 2]"
  "pr_routing_table (example_procs n) =
     install_routes [] (node_entries targets sources [example_direct] n) (routing_table_new n example_config)"
  "pc_route (pr_config (example_procs n)) = example_config"
  by (simp_all add: example_procs_def handle_message_def processor_new_def example_proc_config_def)

lemma example_ready:
  assumes "n \<in> {1, 2}"
  shows "node_ready targets sources [example_direct] flow_1_2 1 2 n (example_procs n)"
proof -
  have local: "rt_local_id (pr_routing_table (example_procs n)) = n"
    by (simp add: example_procs_fields routing_table_new_def)
  have new: "rt_local_id (routing_table_new n example_config) = n" by (simp add: routing_table_new_def)
  have group: "rt_group_dir (routing_table_new n example_config) (flow_dst_ip flow_1_2) = None"
    and config: "rt_config (routing_table_new n example_config) = example_config"
    and empty: "rt_available_routes (routing_table_new n example_config) = Map.empty"
    by (simp_all add: routing_table_new_def)
  have "flow_1_2 \<noteq> INVALID_FLOW_ID" by (rule valid_flow) (simp add: flow_1_2_def flow_id_fields)
  then have "key_for_flow (routing_table_new n example_config) flow_1_2 None = Some (Unicast 1 2)"
    unfolding key_for_flow_def group config option.case try_extract_node_ids_from_flow_def Let_def
    by (simp add: flow_1_2_def flow_id_fields example_ids INVALID_def)
  moreover have "path_hop example_direct 1 = 2" by (simp add: path_hop_def example_direct_def targets_def)
  moreover have "path_hop example_direct 2 = 2" by (simp add: path_hop_def example_direct_def targets_def)
  ultimately show ?thesis
    using assms unfolding node_ready_def
    by (intro conjI exI [of _ "routing_table_new n example_config"] exI [of _ "[]"])
      (auto simp: example_procs_fields(1,2) local new empty example_procs_fields(3))
qed

lemma network_delivers_frame_witness:
  "\<exists>packet done procs'. build_packet example_frame_route [7, 8] = Some packet \<and>
     network_run slot_0 [] (\<lambda>_. 0) 2 example_procs [(1, packet)] = Some (done, procs', []) \<and>
     filter is_delivery done = [(2, DeliverLossless 9 \<lparr>if_bytes = [7, 8], if_peer_id = Some 1\<rparr>)]"
proof -
  obtain packet where packet: "build_packet example_frame_route [7, 8] = Some packet" using built_packet by blast
  have flow: "pk_flow_id packet = flow_1_2"
    using frame_packet(1) [OF packet] by (simp add: example_frame_route_def flow_1_2_def)
  have frame: "delivered_frame (pc_route (pr_config (example_procs 2))) example_frame_route [7, 8] =
      DeliverLossless 9 \<lparr>if_bytes = [7, 8], if_peer_id = Some 1\<rparr>"
    by (simp add: delivered_frame_def example_procs_fields example_frame_route_def example_ids INVALID_def Let_def)
  have "\<exists>done procs'. network_run slot_0 [] (\<lambda>_. 0) (length [1, 2 :: nat]) example_procs [(1, packet)] = Some (done, procs', []) \<and>
    filter is_delivery done = [(2, delivered_frame (pc_route (pr_config (example_procs 2))) example_frame_route [7, 8])]"
    by (rule network_delivers_frame [OF edge_lists.digraph_axioms, of "[example_direct]" slot_0 example_direct])
      (use example_direct_path example_ready slot_0_ok packet in \<open>auto simp: flow example_direct_def\<close>)
  moreover have "length [1, 2 :: nat] = 2" by simp
  ultimately show ?thesis using packet unfolding frame by metis
qed

end
