(* ===== verification/Controller_Sync.thy ===== *)
theory Controller_Sync
  imports Controller_Routes
begin

text \<open>
  What the controller sends to connected nodes when the database changes
  (\<open>src/controller/src/db_sync.rs\<close>, and the startup and group-route handlers of \<open>main.rs\<close>): which nodes
  are told, and what.  The rows of the database and the connected nodes are arguments; sending is a
  list of messages.
\<close>

datatype ControllerToDataplane =
    InstallRoutes "RoutingTableEntry list"
  | InstallGroupRoutes nat nat "GroupRoutingTableEntry list"

section \<open>Unicast routes\<close>

definition sync_routes ::
    "(edges \<Rightarrow> nat \<Rightarrow> nat list) \<Rightarrow> (edges \<Rightarrow> nat \<Rightarrow> nat list) \<Rightarrow> Route list \<Rightarrow> nat list \<Rightarrow> (nat \<times> ControllerToDataplane) list" where
  "sync_routes outgoing incoming routes send_targets =
     concat (map (\<lambda>node_id. case build_routes_for_node outgoing incoming routes node_id of
         Some entries \<Rightarrow> [(node_id, InstallRoutes (map fst entries))]
       | None \<Rightarrow> []) send_targets)"

text \<open>A node that connects is always sent its routes.\<close>

definition startup_routes ::
    "(edges \<Rightarrow> nat \<Rightarrow> nat list) \<Rightarrow> (edges \<Rightarrow> nat \<Rightarrow> nat list) \<Rightarrow> Route list \<Rightarrow> nat \<Rightarrow> ControllerToDataplane" where
  "startup_routes outgoing incoming routes node_id =
     (case build_routes_for_node outgoing incoming routes node_id of
        Some entries \<Rightarrow> InstallRoutes (map fst entries)
      | None \<Rightarrow> InstallRoutes [])"

section \<open>Groups\<close>

record RecomputedGroupRoutes =
  rg_group_id :: nat
  rg_src_node_id :: nat
  rg_member_node_ids :: "nat list"
  rg_trees :: "GroupRouteTree list"

definition tree_nodes :: "GroupRouteTree list \<Rightarrow> nat set" where
  "tree_nodes trees = \<Union> (nodes_of ` gt_edges ` set trees)"

definition multicast_nodes_to_notify :: "RecomputedGroupRoutes \<Rightarrow> nat option \<Rightarrow> nat set" where
  "multicast_nodes_to_notify plan prior_member_node_id =
     tree_nodes (rg_trees plan) \<union> {rg_src_node_id plan} \<union> set (rg_member_node_ids plan) \<union>
     set_option prior_member_node_id"

text \<open>\<open>send_targets\<close> lists the nodes to notify that are connected.\<close>

definition sync_group_routes ::
    "(edges \<Rightarrow> nat \<Rightarrow> nat list) \<Rightarrow> RecomputedGroupRoutes \<Rightarrow> nat list \<Rightarrow> (nat \<times> ControllerToDataplane) list" where
  "sync_group_routes outgoing plan send_targets =
     concat (map (\<lambda>node_id. case build_group_routes_for_node_multitree outgoing (rg_group_id plan) (rg_src_node_id plan)
           (rg_trees plan) node_id (set (rg_member_node_ids plan)) of
         Inl e \<Rightarrow> []
       | Inr routes \<Rightarrow> [(node_id, InstallGroupRoutes (rg_group_id plan) (rg_src_node_id plan) routes)]) send_targets)"

text \<open>\<open>SetGroupRoutes\<close> from the source of the group: the trees are checked, then replaced.\<close>

definition set_group_routes_nodes ::
    "GroupRouteTree list \<Rightarrow> GroupRouteTree list \<Rightarrow> nat \<Rightarrow> nat list \<Rightarrow> nat list \<Rightarrow> nat set" where
  "set_group_routes_nodes previous_trees trees src_node_id previous_member_node_ids member_node_ids =
     tree_nodes previous_trees \<union> tree_nodes trees \<union> {src_node_id} \<union> set previous_member_node_ids \<union> set member_node_ids"

definition handle_set_group_routes_update ::
    "(edges \<Rightarrow> nat \<Rightarrow> nat list) \<Rightarrow> (nat \<times> nat) option \<Rightarrow> nat \<Rightarrow> nat \<Rightarrow> GroupRouteTree list \<Rightarrow> nat list \<Rightarrow> nat list \<Rightarrow>
     (GroupRouteTree list \<times> (nat \<times> ControllerToDataplane) list) option" where
  "handle_set_group_routes_update outgoing found requester_node_id group_id trees members send_targets =
     (case found of
        None \<Rightarrow> None
      | Some (found_id, src_node_id) \<Rightarrow>
          if src_node_id \<noteq> requester_node_id then None
          else case canonicalize_group_route_trees group_id trees of
            Inl e \<Rightarrow> None
          | Inr trees \<Rightarrow> Some (trees, sync_group_routes outgoing
              \<lparr>rg_group_id = found_id, rg_src_node_id = src_node_id, rg_member_node_ids = members, rg_trees = trees\<rparr> send_targets))"

section \<open>Stale routes\<close>

lemma no_entries:
  assumes "digraph outgoing incoming" "\<forall>route \<in> set routes. \<exists>p. route_path route p"
    and "\<forall>route \<in> set routes. n \<notin> nodes_of (ro_edges route)"
  shows "build_routes_for_node outgoing incoming routes n = None"
proof -
  have "route_entry outgoing incoming n route = []" if "route \<in> set routes" for route
    using assms that path_hops [OF assms(1), of route _ n] by (fastforce simp: route_entry_def)
  then show ?thesis by (simp add: build_routes_for_node_def)
qed

lemma sync_silent: "build_routes_for_node outgoing incoming routes n = None \<Longrightarrow> n \<notin> fst ` set (sync_routes outgoing incoming routes send_targets)"
  by (auto simp: sync_routes_def split: option.splits)

text \<open>C23. A route change leaves stale routes: a node that was on a route and is on none of the new routes
  is sent nothing when the routes change, so with the table it had installed it goes on forwarding
  the flow along the old route; had it connected after the change, it would have been sent an empty
  list and would know no route.\<close>

theorem route_change_leaves_stale:
  assumes graph: "digraph outgoing incoming" and paths: "\<forall>route \<in> set routes. \<exists>p. route_path route p"
    and ids: "distinct (map ro_route_id routes)" "length routes < 2 ^ 32"
    and slot: "slot_ok slot" and order: "set order = dom (rt_available_routes rt)"
    and flow: "key_for_flow rt flow_id None = Some (Unicast s d)"
    and on: "\<exists>route \<in> set routes. on_route n s d route"
    and new: "\<forall>route \<in> set new_routes. \<exists>p. route_path route p"
      "\<forall>route \<in> set new_routes. n \<notin> nodes_of (ro_edges route)"
  shows "n \<notin> fst ` set (sync_routes outgoing incoming new_routes send_targets) \<and>
    (\<exists>route \<in> set routes. on_route n s d route \<and> (\<exists>reports rt'.
      get_next_hops_by_flow_and_tree slot order' flow_id None has_reporter
        (install_routes order (node_entries outgoing incoming routes n) rt) = Some (Inr [path_hop route n], reports, rt'))) \<and>
    startup_routes outgoing incoming new_routes n = InstallRoutes [] \<and>
    (\<exists>rt'. get_next_hops_by_flow_and_tree slot order' flow_id None has_reporter (install_routes order [] rt) =
      Some (Inl NoRouteIds, [], rt'))"
proof -
  have none: "build_routes_for_node outgoing incoming new_routes n = None" by (rule no_entries [OF graph new])
  have silent: "n \<notin> fst ` set (sync_routes outgoing incoming new_routes send_targets)" by (rule sync_silent [OF none])
  have stale: "\<exists>route \<in> set routes. on_route n s d route \<and> (\<exists>reports rt'.
      get_next_hops_by_flow_and_tree slot order' flow_id None has_reporter
        (install_routes order (node_entries outgoing incoming routes n) rt) = Some (Inr [path_hop route n], reports, rt'))"
    using node_lookup [OF graph paths ids slot order flow refl, of n order' has_reporter] on by simp
  have "get_next_hops_by_flow_and_tree slot order' flow_id None has_reporter (install_routes order [] rt) =
      Some (Inl NoRouteIds, [], install_routes order [] rt)"
    using installed_lookup [OF slot order _ _ flow refl, of "[]" order' has_reporter] by (simp add: routes_between_def)
  then show ?thesis using silent stale none by (simp add: startup_routes_def)
qed

section \<open>Group changes reach every node concerned\<close>

lemma nothing_in_group:
  assumes "digraph outgoing incoming" "trees_ok g trees" "n \<notin> tree_nodes trees" "n \<notin> members"
  shows "build_group_routes_for_node_multitree outgoing g src trees n members = Inr []"
proof -
  have "outgoing (gt_edges tree) n = []" if "tree \<in> set trees" for tree
    using assms(3) that unfolding digraph.no_outgoing_iff [OF assms(1)] by (force simp: tree_nodes_def nodes_of_def)
  then show ?thesis
    using canonicalize_exact(1) [OF assms(2)] group_ids_exist [OF assms(2)] assms(4)
    by (simp add: build_group_routes_for_node_multitree_def group_entries_exact [OF assms(1)])
qed

lemma sync_group_sends:
  "node_id \<in> set send_targets \<Longrightarrow> build_group_routes_for_node_multitree outgoing (rg_group_id plan) (rg_src_node_id plan)
     (rg_trees plan) node_id (set (rg_member_node_ids plan)) = Inr routes \<Longrightarrow>
   (node_id, InstallGroupRoutes (rg_group_id plan) (rg_src_node_id plan) routes) \<in> set (sync_group_routes outgoing plan send_targets)"
  by (force simp: sync_group_routes_def)

text \<open>C22. Group changes reach every node they concern: when a member joins or leaves, or when the source
  replaces the trees, each connected node is either sent the entries it now has, or has none in the
  group before the change and none after it.\<close>

theorem group_changes_reach_nodes:
  assumes graph: "digraph outgoing incoming"
    and plan: "trees_ok (rg_group_id plan) (rg_trees plan)" "trees_ok (rg_group_id plan) old_trees"
    and change: "set old_members \<subseteq> insert x (set (rg_member_node_ids plan)) \<and> old_trees = rg_trees plan \<and>
        notified = multicast_nodes_to_notify plan (Some x) \<or>
      notified = set_group_routes_nodes old_trees (rg_trees plan) (rg_src_node_id plan) old_members (rg_member_node_ids plan)"
    and targets: "set send_targets = notified \<inter> connected" and n: "n \<in> connected"
  shows "(\<exists>routes. build_group_routes_for_node_multitree outgoing (rg_group_id plan) (rg_src_node_id plan)
        (rg_trees plan) n (set (rg_member_node_ids plan)) = Inr routes \<and>
      (n, InstallGroupRoutes (rg_group_id plan) (rg_src_node_id plan) routes) \<in> set (sync_group_routes outgoing plan send_targets)) \<or>
    build_group_routes_for_node_multitree outgoing (rg_group_id plan) (rg_src_node_id plan) old_trees n (set old_members) = Inr [] \<and>
    build_group_routes_for_node_multitree outgoing (rg_group_id plan) (rg_src_node_id plan)
      (rg_trees plan) n (set (rg_member_node_ids plan)) = Inr []"
proof (cases "n \<in> notified")
  case True
  obtain routes where routes: "build_group_routes_for_node_multitree outgoing (rg_group_id plan) (rg_src_node_id plan)
      (rg_trees plan) n (set (rg_member_node_ids plan)) = Inr routes"
    using canonicalize_exact(1) [OF plan(1)] group_ids_exist [OF plan(1)]
    by (simp add: build_group_routes_for_node_multitree_def group_entries_exact [OF graph])
  moreover have "n \<in> set send_targets" using True targets n by simp
  ultimately show ?thesis using sync_group_sends by blast
next
  case False
  then have "n \<notin> tree_nodes (rg_trees plan)" "n \<notin> set (rg_member_node_ids plan)"
    "n \<notin> tree_nodes old_trees" "n \<notin> set old_members"
    using change by (auto simp: multicast_nodes_to_notify_def set_group_routes_nodes_def)
  then show ?thesis using nothing_in_group [OF graph plan(1)] nothing_in_group [OF graph plan(2)] by blast
qed

section \<open>Examples\<close>

definition example_moved :: "Route list" where
  "example_moved = [\<lparr>ro_route_id = 4, ro_src_node_id = 3, ro_dst_node_id = 2, ro_edges = [(3, 2)]\<rparr>]"

lemma route_change_leaves_stale_witness:
  "1 \<notin> fst ` set (sync_routes targets sources example_moved [1, 2, 3]) \<and>
   (\<exists>reports rt'. get_next_hops_by_flow_and_tree slot_0 [] flow_1_2 None True
      (install_routes [] (node_entries targets sources [example_direct] 1) example_table) = Some (Inr [2], reports, rt'))"
proof -
  have paths: "\<forall>route \<in> set [example_direct]. \<exists>p. route_path route p" using example_direct_path by auto
  have order: "set [] = dom (rt_available_routes example_table)" by (simp add: example_table_fields)
  have "on_route 1 1 2 example_direct" by (simp add: on_route_def example_direct_def nodes_of_def)
  then have on: "\<exists>route \<in> set [example_direct]. on_route 1 1 2 route" by simp
  have "route_path (hd example_moved) [3, 2]" by (simp add: route_path_def example_moved_def INVALID_def)
  then have new: "\<forall>route \<in> set example_moved. \<exists>p. route_path route p" "\<forall>route \<in> set example_moved. 1 \<notin> nodes_of (ro_edges route)"
    by (auto simp: example_moved_def nodes_of_def)
  have "path_hop example_direct 1 = 2" by (simp add: path_hop_def example_direct_def targets_def)
  then show ?thesis
    using route_change_leaves_stale [OF edge_lists.digraph_axioms paths _ _ slot_0_ok order example_keys(1) on new,
        of "[1, 2, 3]" "[]" True] by auto
qed

definition example_plan :: RecomputedGroupRoutes where
  "example_plan = \<lparr>rg_group_id = 1, rg_src_node_id = 1, rg_member_node_ids = [3], rg_trees = example_trees\<rparr>"

lemma group_changes_reach_nodes_witness:
  "(9, InstallGroupRoutes 1 1 []) \<in> set (sync_group_routes targets example_plan [9])"
proof -
  have trees: "trees_ok (rg_group_id example_plan) (rg_trees example_plan)"
    by (simp add: trees_ok_def example_plan_def example_trees_def MULTITREE_STRIDE_def MULTICAST_ROUTE_FLAG_def)
  have notified: "set [9] = multicast_nodes_to_notify example_plan (Some 9) \<inter> {9}"
    by (simp add: multicast_nodes_to_notify_def)
  have before: "build_group_routes_for_node_multitree targets (rg_group_id example_plan) (rg_src_node_id example_plan)
      (rg_trees example_plan) 9 (set [3, 9]) \<noteq> Inr []"
    using canonicalize_exact(1) [OF trees] group_ids_exist [OF trees]
    by (simp add: build_group_routes_for_node_multitree_def group_entries_exact [OF edge_lists.digraph_axioms]
        filter_empty_conv) (simp add: example_plan_def example_trees_def)
  have after: "build_group_routes_for_node_multitree targets (rg_group_id example_plan) (rg_src_node_id example_plan)
      (rg_trees example_plan) 9 (set (rg_member_node_ids example_plan)) = Inr []"
    by (rule nothing_in_group [OF edge_lists.digraph_axioms trees])
      (auto simp: example_plan_def example_trees_def tree_nodes_def nodes_of_def)
  have ids: "rg_group_id example_plan = 1" "rg_src_node_id example_plan = 1" by (simp_all add: example_plan_def)
  have "set [3, 9] \<subseteq> insert 9 (set (rg_member_node_ids example_plan))" by (simp add: example_plan_def)
  then show ?thesis
    using group_changes_reach_nodes [OF edge_lists.digraph_axioms trees trees _ notified, of "[3, 9]" 9 9] before after
    unfolding ids by auto
qed

end
