(* ===== verification/Spec2Isabelle.thy ===== *)
theory Spec2Isabelle
  imports Runtime Protocol Mettle_Losses Framing Scheduler Topology Network Controller_Sync
begin

text \<open>
  Verification library for nextmini, an overlay network in Rust: a controller that computes routes, and
  dataplane nodes that forward packets along them and carry lossless multicast sessions.

  1. The program and its parts

  A session transfers one object from a sender node to a quorum of receiver nodes.  The sender announces
  a manifest, waits for Ready, sends the blocks (plain mode) or symbols of a RaptorQ code (FEC mode), and
  ends each round with SourceDone; a receiver answers with a Need report, Complete or what it misses.
  The runtime of a node owns its session tasks.  A frame of a session travels as the payload of a
  synthetic TCP packet: an ingress handle chooses the processor of its flow and tree, the processor looks
  up the next hops in the routing table and gives the packet to the scheduler of a link or to a local
  sink, the scheduler queues and drops, the token bucket paces, the framing puts packets on a byte stream
  and takes them off again.  The controller builds a topology, computes the routes and the entries of
  each node, and sends entries to nodes when its database changes.  Mettle is a second, streaming erasure
  code, a crate of its own.

  2. Theories and code (paths under src/; dp stands for dataplane/src/node)

  Prelude: names of machine integers, panics as None, results as sums, association lists that stand for
  ordered maps, lemma collections.  Bytes: big-endian integers, the locale item_codec.

  Wire protocol (messages/src/lossless_session): Wire_Types is types.rs, Wire_Validation is
  validation.rs, Wire_Header is header.rs, Wire_Blocks is block_frames.rs with the sender's
  block_symbol_frame.rs, Wire_Control is control_frames.rs.

  Sessions (dp/session): Session_Plan is plan.rs and the block source of sender/mod.rs; Session_Frames
  is control.rs and api.rs; Session_Fec is fec.rs; Sender_State is sender/state.rs and timing.rs;
  Sender_Shared is the shell of sender/mod.rs; Plain_Sender and Fec_Sender are sender/plain.rs and
  sender/fec.rs; Receiver_Shared and Receiver are receiver/mod.rs; Plain_Receiver and Fec_Receiver are
  receiver/plain.rs and receiver/fec.rs; Fec_Policy is fec_policy.rs and the preflight of runtime.rs;
  Runtime is runtime.rs.  Protocol composes sender, receivers and network as the step relation
  world_step.

  Mettle (mettle/src): Mettle_Params is params.rs, Mettle_Encoder is encoder.rs, Mettle_Decoder is
  decoder.rs; Mettle_Losses holds what is true of the decoder when bins are lost.

  Forwarding (dp): Packet_Envelope is packet.rs and the flow ids of mod.rs; Framing is
  network/framing.rs and the reader of network/tcp.rs; Scheduler_Queues is scheduler/queue.rs, fifo.rs,
  wrr.rs and drop.rs; Scheduler is scheduler/reader.rs, writer.rs and sched.rs; Token_Bucket is
  scheduler/token_bucket.rs; Routing is route.rs; Processor is processor.rs; Network composes processors
  and routes.

  Controller (controller/src): Controller_Routes is utils.rs and routing.rs, Topology is topology and
  the node count of config.rs, Controller_Sync is db_sync.rs and the startup and group handlers of
  main.rs.

  A struct is a record with the struct's fields, prefixed; an enum is a datatype; a function that may
  panic returns an option whose None is the panic; a Result is a sum.  A task is a state and the function
  of one turn of its loop, from one point where it waits to the next; the event it wakes up on, the clock
  readings, and the answers of other tasks are arguments, its frames and messages to others are lists in
  the order they are written.  The scheduler's two tasks share a state; there a turn ends wherever the
  other task may run.

  3. What the lemmas show

  Wire: each encoder and decoder is inverse to the other on valid values (the loops over repeated items
  are proved once, in item_codec), no decoder indexes out of range, an encoder panics exactly on invalid
  values, a Need report denotes exactly the blocks it lists.

  Senders and receivers: the invariant of each mode over any number of turns (plain_inv, fec_inv and the
  receivers' invariants), what an iteration may submit, when a sender may complete, what a receiver's
  sink holds, that rounds are answered once.  Protocol puts them together: whoever reported completion
  holds the object, and a sender that completes implies that its whole quorum does.  Runtime: no task is
  shared, outcomes are published once, replays repeat the last answer.

  Mettle: the bin geometry inverted (the range of sources of a bin is the one a search would find), a
  payload as the parity of its sources, the round trip, and soundness of decoding under losses as long as
  no bin that arrives is hit by two edges of one source (single_edges).

  Forwarding: envelopes, framing and table lookups are exact; the two tasks of a scheduler conserve
  packets and keep the order of each flow up to send_packets under every interleaving, and behind it
  each packet is transmitted or given up by the token bucket, which keeps its budget; a
  processor panics in one case only; a session frame sent into nodes with the controller's entries
  arrives once, unchanged, at the destination of its flow.

  Controller: reachability and shortest routes over the nodes each topology links, entries per node, group
  trees, and who is told what on a change.

  Several properties state a defect of the code as it behaves: a wake-up that is lost (Scheduler), the
  panic on reports of more than 255 ranges (Receiver), stale entries of nodes that left all routes
  (Controller_Sync), the exit message of an old task that ends a new session (Runtime), the panic on a
  topology that is not connected (Controller_Routes), the servers of a fat tree that nothing links
  (Topology).  Lemmas do the same for a Mettle source with two edges on one bin (Mettle_Losses), packets
  that overtake each other in the token bucket and a rate of 0 (Token_Bucket), the capacity 0 of a WRR
  queue (Scheduler), and the limits of the codec that no check enforces (Session_Fec, Fec_Receiver).

  4. Interfaces

  item_codec (Bytes): a fixed-width item with encoder and decoder; interpreted for tree ids, block
  ranges and need blocks.  round_reporter (Plain_Receiver): answering SourceDone; interpreted for both
  receivers.  mode_hooks (Sender_Shared): the trait ModeHooks; interpreted for both senders, with their
  invariants.  sender_protocol (Protocol): what a mode owes the session; interpreted for both modes.
  array_queue (Scheduler_Queues): the documented laws of crossbeam's ArrayQueue, interpreted on a list;
  scheduler_queue: the contract of the trait SchedulerQueue, which FIFO and WRR keep over every
  array_queue (two sublocales), so the properties hold for both.  digraph (Controller_Routes): the
  neighbours petgraph gives, interpreted on edge lists.

  5. Parameters

  Code that is not in the repository is an argument: the RaptorQ codec (repair and solve, with
  raptorq_sound and repair_sized as hypotheses where a property needs them; its asserts on 56403 source
  symbols per block and 24-bit symbol ids are panics of the adapter), crossbeam's ArrayQueue,
  the jump hash (below the number of routes), petgraph's neighbours and path search (astar_ok), the
  user-space server that routes are added to.  Also arguments are the iteration order of hash maps, which
  allocations succeed, the floating-point refill of the token bucket, and the clock.

  6. Bounds and fuel

  Integers keep their width where it matters: block ids, symbol ids, lengths and ports are words and wrap
  as in a release build.  Mettle's ids and the controller's node ids are natural numbers; with at most
  2^64 sources and 32-bit ratios the 128-bit products of Mettle do not overflow, and topologies wrap at
  2^32 nodes as written.  The FEC sender's properties cover runs of up to 2^31 turns, since fountain ids
  have 32 bits, and symbol sizes below 2^16, which the codec's parameters can hold; within these a sender
  may panic at the codec's limits, and only there (codec_exceeded), and a receiver does not panic when its
  blocks keep them (within_codec).  A plain report holds
  at most 255 ranges and an FEC report 65535 blocks; the receivers' properties say what they need of
  these limits.  An envelope is exact for frames whose 56 bytes of headers and payload stay below 2^16.

  Loops whose end depends on the environment run over the list of what the environment does: a list that
  ends leaves the task waiting, and liveness properties name the inputs that suffice.  The search of the
  controller has fuel, one turn per edge and one more, shown to be enough; a run of the network has one
  turn per node of the path and ends with nothing under way.  The token bucket waits at most
  MAX_RETRIES times, the Mettle loops and the writer loop of the framing are total functions.

  7. What is not modelled

  Sockets, QUIC, UDP and reconnection (network/quic.rs, udp.rs, tcp_max.rs, interface.rs), the connector
  and conductor that wire tasks together, the TUN interface, the smoltcp-based user-space TCP, flow
  statistics, configuration files, network namespaces, Python bindings, the controller's web-socket
  server, SQL and notifications: I/O and third-party code around the modelled operations.  Inside the
  modelled parts, the pacing of the session senders (which only delays), logging, the reuse of packet
  buffers, and the optional Python interface of the processor are left out.  A turn of the scheduler's
  writer that sends through the token bucket is one step: what it waits for meanwhile is the clock's.
\<close>

end
